(* ===== verification/Prelude.thy ===== *)
theory Prelude
  imports Main "HOL-Library.Word"
begin

unbundle bit_operations_syntax

section \<open>Shared vocabulary of the development\<close>

text \<open>
  This theory holds what every component uses: the names of the C integer types, the
  state-and-fault computations in which the kernel code is written, a weakest-precondition
  calculus for them, and generic lemmas on lists and words.

  A kernel routine that one thread runs without being interrupted is a function from the
  state to either a fault or a result paired with the new state.  Four faults exist:
  \<open>Panic msg\<close> is a call of \<^verbatim>\<open>panic(msg)\<close> (\<^verbatim>\<open>kernel/printf.c\<close>), after which the machine
  stops; \<open>Sleep chan\<close> says that the thread would have to wait on \<open>chan\<close>, so that the
  uninterrupted run ends there; \<open>Diverge\<close> says that the code loops forever or that the fuel given
  to a recursion with no bound of its own has run out; \<open>Undef\<close> says that the C code has no defined
  behaviour, for example because it indexes an array out of its bounds.
\<close>

type_synonym byte = "8 word"
type_synonym u16 = "16 word"
type_synonym u32 = "32 word"
type_synonym u64 = "64 word"

datatype kfault = Panic string | Sleep string | Diverge | Undef

type_synonym ('s, 'a) K = "'s \<Rightarrow> kfault + ('a \<times> 's)"

definition returnK :: "'a \<Rightarrow> ('s, 'a) K" where
  "returnK x = (\<lambda>s. Inr (x, s))"

definition bindK :: "('s, 'a) K \<Rightarrow> ('a \<Rightarrow> ('s, 'b) K) \<Rightarrow> ('s, 'b) K" where
  "bindK f g = (\<lambda>s. case f s of Inl e \<Rightarrow> Inl e | Inr (x, s') \<Rightarrow> g x s')"

definition thenK :: "('s, 'a) K \<Rightarrow> ('s, 'b) K \<Rightarrow> ('s, 'b) K" where
  "thenK f g = bindK f (\<lambda>_. g)"

definition panic :: "string \<Rightarrow> ('s, 'a) K" where
  "panic msg = (\<lambda>s. Inl (Panic msg))"

definition sleepK :: "string \<Rightarrow> ('s, 'a) K" where
  "sleepK chan = (\<lambda>s. Inl (Sleep chan))"

definition getsK :: "('s \<Rightarrow> 'a) \<Rightarrow> ('s, 'a) K" where
  "getsK f = (\<lambda>s. Inr (f s, s))"

definition modifyK :: "('s \<Rightarrow> 's) \<Rightarrow> ('s, unit) K" where
  "modifyK f = (\<lambda>s. Inr ((), f s))"

definition divergeK :: "('s, 'a) K" where
  "divergeK = (\<lambda>s. Inl Diverge)"

definition undefK :: "('s, 'a) K" where
  "undefK = (\<lambda>s. Inl Undef)"

definition whenK :: "bool \<Rightarrow> ('s, unit) K \<Rightarrow> ('s, unit) K" where
  "whenK b f = (if b then f else returnK ())"

lemma bindK_assoc: "bindK (bindK f g) h = bindK f (\<lambda>x. bindK (g x) h)"
  by (auto simp: bindK_def fun_eq_iff split: sum.split prod.split)

text \<open>A loop over a list of values.\<close>

primrec forK :: "'a list \<Rightarrow> ('a \<Rightarrow> ('s, unit) K) \<Rightarrow> ('s, unit) K" where
  "forK [] f = returnK ()"
| "forK (x # xs) f = thenK (f x) (forK xs f)"

subsection \<open>Weakest preconditions\<close>

text \<open>
  \<open>wp f Q E s\<close>: run from \<open>s\<close>, the computation \<open>f\<close> either returns a result and a state
  that satisfy \<open>Q\<close>, or ends in a fault that satisfies \<open>E\<close>.  With \<open>E = (\<lambda>_. False)\<close> it is
  total correctness: no panic and no waiting.
\<close>

definition wp :: "('s, 'a) K \<Rightarrow> ('a \<Rightarrow> 's \<Rightarrow> bool) \<Rightarrow> (kfault \<Rightarrow> bool) \<Rightarrow> 's \<Rightarrow> bool" where
  "wp f Q E s = (case f s of Inl e \<Rightarrow> E e | Inr (r, s') \<Rightarrow> Q r s')"

named_theorems wp_simps "equations of the weakest-precondition calculus"

lemma wp_return [wp_simps, simp]: "wp (returnK x) Q E s = Q x s"
  by (simp add: wp_def returnK_def)

lemma wp_bind [wp_simps, simp]: "wp (bindK f g) Q E s = wp f (\<lambda>r. wp (g r) Q E) E s"
  by (simp add: wp_def bindK_def split: sum.splits prod.splits)

lemma wp_then [wp_simps, simp]: "wp (thenK f g) Q E s = wp f (\<lambda>_. wp g Q E) E s"
  by (simp add: thenK_def)

lemma wp_panic [wp_simps, simp]: "wp (panic msg) Q E s = E (Panic msg)"
  by (simp add: wp_def panic_def)

lemma wp_sleep [wp_simps, simp]: "wp (sleepK c) Q E s = E (Sleep c)"
  by (simp add: wp_def sleepK_def)

lemma wp_diverge [wp_simps, simp]: "wp divergeK Q E s = E Diverge"
  by (simp add: wp_def divergeK_def)

lemma wp_undef [wp_simps, simp]: "wp undefK Q E s = E Undef"
  by (simp add: wp_def undefK_def)

lemma wp_gets [wp_simps, simp]: "wp (getsK f) Q E s = Q (f s) s"
  by (simp add: wp_def getsK_def)

lemma wp_modify [wp_simps, simp]: "wp (modifyK f) Q E s = Q () (f s)"
  by (simp add: wp_def modifyK_def)

lemma wp_if [wp_simps, simp]:
  "wp (if b then f else g) Q E s = (if b then wp f Q E s else wp g Q E s)"
  by simp

lemma wp_when [wp_simps, simp]:
  "wp (whenK b f) Q E s = (if b then wp f Q E s else Q () s)"
  by (simp add: whenK_def)

lemma wp_case_option [wp_simps, simp]:
  "wp (case x of None \<Rightarrow> f | Some y \<Rightarrow> g y) Q E s =
   (case x of None \<Rightarrow> wp f Q E s | Some y \<Rightarrow> wp (g y) Q E s)"
  by (cases x) simp_all

lemma wp_case_prod [wp_simps, simp]:
  "wp (case x of (a, b) \<Rightarrow> f a b) Q E s = (case x of (a, b) \<Rightarrow> wp (f a b) Q E s)"
  by (cases x) simp

text \<open>The rule of consequence: how a routine's specification is used at a call.\<close>

lemma wp_conseq:
  assumes "wp f Q E s"
    and "\<And>r s'. Q r s' \<Longrightarrow> Q' r s'"
    and "\<And>e. E e \<Longrightarrow> E' e"
  shows "wp f Q' E' s"
  using assms by (auto simp: wp_def split: sum.splits)

lemma wp_mono:
  assumes "wp f Q E s" and "\<And>r s'. Q r s' \<Longrightarrow> Q' r s'"
  shows "wp f Q' E s"
  using assms by (rule wp_conseq)

lemma wp_conj:
  "wp f Q E s \<Longrightarrow> wp f Q' E s \<Longrightarrow> wp f (\<lambda>r s'. Q r s' \<and> Q' r s') E s"
  by (auto simp: wp_def split: sum.splits)

lemma wp_Inr: "f s = Inr (r, s') \<Longrightarrow> wp f Q E s = Q r s'"
  by (simp add: wp_def)

lemma wp_total_ex:
  "wp f Q (\<lambda>_. False) s \<longleftrightarrow> (\<exists>r s'. f s = Inr (r, s') \<and> Q r s')"
  by (auto simp: wp_def split: sum.splits)

lemma wp_partial_all:
  "wp f Q (\<lambda>_. True) s \<longleftrightarrow> (\<forall>r s'. f s = Inr (r, s') \<longrightarrow> Q r s')"
  by (auto simp: wp_def split: sum.splits)

subsection \<open>Running a computation on a concrete state\<close>

named_theorems run_simps "equations that evaluate a computation"

lemma run_return [run_simps]: "returnK x s = Inr (x, s)"
  by (simp add: returnK_def)

lemma run_bind [run_simps]:
  "bindK f g s = (case f s of Inl e \<Rightarrow> Inl e | Inr (x, s') \<Rightarrow> g x s')"
  by (simp add: bindK_def)

lemma run_then [run_simps]:
  "thenK f g s = (case f s of Inl e \<Rightarrow> Inl e | Inr (x, s') \<Rightarrow> g s')"
  by (simp add: thenK_def bindK_def)

lemma run_panic [run_simps]: "panic msg s = Inl (Panic msg)"
  by (simp add: panic_def)

lemma run_sleep [run_simps]: "sleepK c s = Inl (Sleep c)"
  by (simp add: sleepK_def)

lemma run_diverge [run_simps]: "divergeK s = Inl Diverge"
  by (simp add: divergeK_def)

lemma run_undef [run_simps]: "undefK s = Inl Undef"
  by (simp add: undefK_def)

lemma run_gets [run_simps]: "getsK f s = Inr (f s, s)"
  by (simp add: getsK_def)

lemma run_modify [run_simps]: "modifyK f s = Inr ((), f s)"
  by (simp add: modifyK_def)

lemma run_when [run_simps]: "whenK b f s = (if b then f s else Inr ((), s))"
  by (simp add: whenK_def returnK_def)

subsection \<open>Lists\<close>

text \<open>The first index from \<open>i\<close> on at which a test holds: the shape of every table scan.\<close>

fun find_index :: "('a \<Rightarrow> bool) \<Rightarrow> 'a list \<Rightarrow> nat option" where
  "find_index p [] = None"
| "find_index p (x # xs) = (if p x then Some 0 else map_option Suc (find_index p xs))"

lemma find_index_None [simp]: "find_index p xs = None \<longleftrightarrow> (\<forall>x \<in> set xs. \<not> p x)"
  by (induction xs) auto

lemma find_index_SomeD:
  "find_index p xs = Some i \<Longrightarrow> i < length xs \<and> p (xs ! i) \<and> (\<forall>j < i. \<not> p (xs ! j))"
proof (induction xs arbitrary: i)
  case Nil
  then show ?case by simp
next
  case (Cons x xs)
  show ?case
  proof (cases "p x")
    case True
    with Cons.prems show ?thesis by simp
  next
    case False
    with Cons.prems obtain j where j: "find_index p xs = Some j" "i = Suc j"
      by auto
    with Cons.IH [of j] False show ?thesis
      by (auto simp: nth_Cons less_Suc_eq_0_disj)
  qed
qed

lemma find_index_SomeI:
  "i < length xs \<Longrightarrow> p (xs ! i) \<Longrightarrow> (\<And>j. j < i \<Longrightarrow> \<not> p (xs ! j)) \<Longrightarrow> find_index p xs = Some i"
proof (induction xs arbitrary: i)
  case Nil
  then show ?case by simp
next
  case (Cons x xs)
  show ?case
  proof (cases i)
    case 0
    with Cons.prems show ?thesis by simp
  next
    case (Suc k)
    from Cons.prems(3) [of 0] Suc have "\<not> p x" by simp
    moreover have "find_index p xs = Some k"
    proof (rule Cons.IH)
      show "k < length xs" and "p (xs ! k)" using Cons.prems(1,2) Suc by simp_all
      show "\<not> p (xs ! j)" if "j < k" for j
        using Cons.prems(3) [of "Suc j"] that Suc by simp
    qed
    ultimately show ?thesis using Suc by simp
  qed
qed

text \<open>Overwriting a stretch of an array: what \<^verbatim>\<open>memmove(a + off, bs, n)\<close> does to \<open>a\<close>.\<close>

definition overwrite :: "'a list \<Rightarrow> nat \<Rightarrow> 'a list \<Rightarrow> 'a list" where
  "overwrite xs off bs = take off xs @ bs @ drop (off + length bs) xs"

lemma length_overwrite [simp]:
  "off + length bs \<le> length xs \<Longrightarrow> length (overwrite xs off bs) = length xs"
  by (simp add: overwrite_def)

lemma nth_overwrite:
  assumes "off + length bs \<le> length xs" and "i < length xs"
  shows "overwrite xs off bs ! i =
    (if off \<le> i \<and> i < off + length bs then bs ! (i - off) else xs ! i)"
  using assms by (auto simp: overwrite_def nth_append min_def)

lemma slice_overwrite_same [simp]:
  "off + length bs \<le> length xs \<Longrightarrow> take (length bs) (drop off (overwrite xs off bs)) = bs"
  by (simp add: overwrite_def)

lemma slice_overwrite_other:
  assumes "off + length bs \<le> length xs" and "o' + n \<le> off \<or> off + length bs \<le> o'"
    and "o' + n \<le> length xs"
  shows "take n (drop o' (overwrite xs off bs)) = take n (drop o' xs)"
proof (rule nth_equalityI)
  show "length (take n (drop o' (overwrite xs off bs))) = length (take n (drop o' xs))"
    using assms by simp
  fix i assume "i < length (take n (drop o' (overwrite xs off bs)))"
  then have i: "i < n" "o' + i < length xs" using assms by simp_all
  with assms show "take n (drop o' (overwrite xs off bs)) ! i = take n (drop o' xs) ! i"
    by (auto simp: nth_overwrite)
qed

subsection \<open>Fixed-width integers in byte arrays\<close>

text \<open>The little-endian encoding of a number in \<open>n\<close> bytes, as the machine stores its integers.\<close>

primrec enc :: "nat \<Rightarrow> nat \<Rightarrow> byte list" where
  "enc 0 x = []"
| "enc (Suc n) x = of_nat x # enc n (x div 256)"

primrec dec :: "byte list \<Rightarrow> nat" where
  "dec [] = 0"
| "dec (b # bs) = unat b + 256 * dec bs"

lemma length_enc [simp]: "length (enc n x) = n"
  by (induction n arbitrary: x) auto

lemma dec_enc: "dec (enc n x) = x mod 256 ^ n"
proof (induction n arbitrary: x)
  case (Suc n)
  have "unat (of_nat x :: byte) = x mod 256" by (simp add: unat_of_nat)
  then show ?case using Suc by (simp add: mod_mult2_eq)
qed simp

lemma dec_less: "dec bs < 256 ^ length bs"
proof (induction bs)
  case (Cons b bs)
  have "unat b < 256" using unsigned_less [of b, where 'a = nat] by simp
  then have "unat b + 256 * dec bs < 256 + 256 * dec bs" by simp
  also have "\<dots> \<le> 256 * 256 ^ length bs" using Cons by (simp add: Suc_leI flip: mult_Suc_right)
  finally show ?case by simp
qed simp

lemma enc_dec: "enc (length bs) (dec bs) = bs"
proof (induction bs)
  case (Cons b bs)
  have b: "unat b < 256" using unsigned_less [of b, where 'a = nat] by simp
  have z: "(256 :: byte) = 0" by (rule word_eq_iff_unsigned [THEN iffD2]) simp
  have "(of_nat (unat b + 256 * dec bs) :: byte) = of_nat (unat b)"
    by (simp only: of_nat_add of_nat_mult of_nat_numeral z mult_zero_left add_0_right)
  moreover have "(unat b + 256 * dec bs) div 256 = dec bs" using b by simp
  ultimately show ?case using Cons by simp
qed simp

definition get_le :: "nat \<Rightarrow> byte list \<Rightarrow> nat \<Rightarrow> nat" where
  "get_le n bs off = dec (take n (drop off bs))"

definition put_le :: "nat \<Rightarrow> nat \<Rightarrow> nat \<Rightarrow> byte list \<Rightarrow> byte list" where
  "put_le n off v bs = overwrite bs off (enc n v)"

lemma length_put_le [simp]: "off + n \<le> length bs \<Longrightarrow> length (put_le n off v bs) = length bs"
  by (simp add: put_le_def)

lemma get_put_le [simp]: "off + n \<le> length bs \<Longrightarrow> get_le n (put_le n off v bs) off = v mod 256 ^ n"
  using slice_overwrite_same [of off "enc n v" bs] by (simp add: get_le_def put_le_def dec_enc)

lemma get_put_le_other:
  "off + n \<le> length bs \<Longrightarrow> o' + n' \<le> off \<or> off + n \<le> o' \<Longrightarrow> o' + n' \<le> length bs \<Longrightarrow>
   get_le n' (put_le n off v bs) o' = get_le n' bs o'"
  by (simp add: get_le_def put_le_def slice_overwrite_other)

text \<open>A 32-bit pattern read as a C \<^verbatim>\<open>int\<close>.\<close>

definition sint32 :: "nat \<Rightarrow> int" where
  "sint32 v = (if v < 2 ^ 31 then int v else int v - 2 ^ 32)"

lemma sint32_small [simp]: "v < 2 ^ 31 \<Longrightarrow> sint32 v = int v"
  by (simp add: sint32_def)

subsection \<open>Words\<close>

lemma unat_of_nat_small: "n < 2 ^ LENGTH('a) \<Longrightarrow> unat (of_nat n :: 'a::len word) = n"
  by (simp add: unat_of_nat take_bit_nat_eq_self)

lemma unat_less_pow:
  "unat (a :: 8 word) < 2 ^ 8" "unat (b :: 16 word) < 2 ^ 16"
  "unat (c :: 32 word) < 2 ^ 32" "unat (d :: 64 word) < 2 ^ 64"
  using unsigned_less [of a, where 'a = nat] unsigned_less [of b, where 'a = nat]
    unsigned_less [of c, where 'a = nat] unsigned_less [of d, where 'a = nat] by simp_all

lemma unat_diff_less_iff:
  fixes a p :: "'a::len word"
  assumes "unat p + n \<le> 2 ^ LENGTH('a)"
  shows "unat (a - p) < n \<longleftrightarrow> unat p \<le> unat a \<and> unat a < unat p + n"
proof (cases "p \<le> a")
  case True
  then have "unat (a - p) = unat a - unat p" by (rule unat_sub)
  with True show ?thesis by (auto simp: word_le_nat_alt)
next
  case False
  then have lt: "unat a < unat p" by (simp add: word_le_nat_alt not_le)
  then have "unat (a - p) = 2 ^ LENGTH('a) + unat a - unat p"
    by (simp add: unat_sub_if_size word_size not_le)
  with lt assms show ?thesis by auto
qed

subsection \<open>Ring buffers with wrapping counters\<close>

lemma unat_add_mod:
  fixes a :: u32
  assumes "m dvd 2 ^ 32"
  shows "unat (a + of_nat k) mod m = (unat a + k) mod m"
proof -
  have "unat (a + of_nat k) = (unat a + k) mod 2 ^ 32"
    by (simp add: unat_word_ariths unat_of_nat mod_add_right_eq)
  then show ?thesis using assms by (simp add: mod_mod_cancel)
qed

lemma ring_index_neq:
  fixes a k n m :: nat
  assumes "k < n" "n < k + m"
  shows "(a + k) mod m \<noteq> (a + n) mod m"
proof
  assume "(a + k) mod m = (a + n) mod m"
  then have "m dvd (a + n) - (a + k)"
    using mod_eq_dvd_iff_nat [of "a + k" "a + n" m] assms(1) by simp
  then show False using assms by (auto dest: dvd_imp_le)
qed

end
