(* ===== verification/Layout.thy ===== *)
theory Layout
  imports Prelude
begin

unbundle bit_operations_syntax

section \<open>Parameters, page arithmetic and page-table entries\<close>

text \<open>
  The constants of \<^verbatim>\<open>kernel/param.h\<close>, \<^verbatim>\<open>kernel/memlayout.h\<close> and \<^verbatim>\<open>kernel/fs.h\<close>
  (as built for the util lab: \<^verbatim>\<open>conf/lab.mk\<close> defines \<^verbatim>\<open>LAB_UTIL\<close>), and the macros of
  \<^verbatim>\<open>kernel/riscv.h\<close> that compute with pages, page-table indices and page-table entries.
  Addresses are 64-bit words, so that all of this arithmetic wraps as it does in C.
\<close>

type_synonym addr = u64

subsection \<open>Parameters\<close>

abbreviation (input) NPROC :: nat where "NPROC \<equiv> 64"
abbreviation (input) NCPU :: nat where "NCPU \<equiv> 8"
abbreviation (input) NOFILE :: nat where "NOFILE \<equiv> 16"
abbreviation (input) NFILE :: nat where "NFILE \<equiv> 100"
abbreviation (input) NINODE :: nat where "NINODE \<equiv> 50"
abbreviation (input) NDEV :: nat where "NDEV \<equiv> 10"
abbreviation (input) ROOTDEV :: nat where "ROOTDEV \<equiv> 1"
abbreviation (input) MAXARG :: nat where "MAXARG \<equiv> 32"
abbreviation (input) MAXOPBLOCKS :: nat where "MAXOPBLOCKS \<equiv> 10"
abbreviation (input) LOGBLOCKS :: nat where "LOGBLOCKS \<equiv> 30"
abbreviation (input) NBUF :: nat where "NBUF \<equiv> 30"
abbreviation (input) FSSIZE :: nat where "FSSIZE \<equiv> 2000"
abbreviation (input) MAXPATH :: nat where "MAXPATH \<equiv> 128"
abbreviation (input) USERSTACK :: nat where "USERSTACK \<equiv> 2"

subsection \<open>Pages\<close>

abbreviation (input) PGSIZE :: u64 where "PGSIZE \<equiv> 4096"

definition PGROUNDUP :: "u64 \<Rightarrow> u64" where
  "PGROUNDUP sz = (sz + PGSIZE - 1) AND NOT (PGSIZE - 1)"

definition PGROUNDDOWN :: "u64 \<Rightarrow> u64" where
  "PGROUNDDOWN a = a AND NOT (PGSIZE - 1)"

abbreviation (input) PTE_V :: u64 where "PTE_V \<equiv> 1"
abbreviation (input) PTE_R :: u64 where "PTE_R \<equiv> 2"
abbreviation (input) PTE_W :: u64 where "PTE_W \<equiv> 4"
abbreviation (input) PTE_X :: u64 where "PTE_X \<equiv> 8"
abbreviation (input) PTE_U :: u64 where "PTE_U \<equiv> 16"

definition PA2PTE :: "u64 \<Rightarrow> u64" where
  "PA2PTE pa = push_bit 10 (drop_bit 12 pa)"

definition PTE2PA :: "u64 \<Rightarrow> u64" where
  "PTE2PA pte = push_bit 12 (drop_bit 10 pte)"

definition PTE_FLAGS :: "u64 \<Rightarrow> u64" where
  "PTE_FLAGS pte = pte AND 0x3FF"

definition PX :: "nat \<Rightarrow> u64 \<Rightarrow> u64" where
  "PX level va = drop_bit (12 + 9 * level) va AND 0x1FF"

definition MAXVA :: u64 where
  "MAXVA = push_bit (9 + 9 + 9 + 12 - 1) 1"

subsection \<open>Physical and virtual memory layout\<close>

abbreviation (input) UART0 :: u64 where "UART0 \<equiv> 0x10000000"
abbreviation (input) VIRTIO0 :: u64 where "VIRTIO0 \<equiv> 0x10001000"
abbreviation (input) PLIC :: u64 where "PLIC \<equiv> 0x0c000000"
abbreviation (input) KERNBASE :: u64 where "KERNBASE \<equiv> 0x80000000"

definition PHYSTOP :: u64 where
  "PHYSTOP = KERNBASE + 128 * 1024 * 1024"

definition TRAMPOLINE :: u64 where
  "TRAMPOLINE = MAXVA - PGSIZE"

definition TRAPFRAME :: u64 where
  "TRAPFRAME = TRAMPOLINE - PGSIZE"

definition KSTACK :: "nat \<Rightarrow> u64" where
  "KSTACK p = TRAMPOLINE - (of_nat p + 1) * 2 * PGSIZE"

lemma MAXVA_val: "MAXVA = 0x4000000000"
  by (simp add: MAXVA_def)

lemma PHYSTOP_val: "PHYSTOP = 0x88000000"
  by (simp add: PHYSTOP_def)

lemma TRAMPOLINE_val: "TRAMPOLINE = 0x3FFFFFF000"
  by (simp add: TRAMPOLINE_def MAXVA_val)

lemma TRAPFRAME_val: "TRAPFRAME = 0x3FFFFFE000"
  by (simp add: TRAPFRAME_def TRAMPOLINE_val)

lemmas layout_vals = MAXVA_val PHYSTOP_val TRAMPOLINE_val TRAPFRAME_val

subsection \<open>Page alignment\<close>

definition page_aligned :: "u64 \<Rightarrow> bool" where
  "page_aligned a \<longleftrightarrow> a mod PGSIZE = 0"

lemma mod_PGSIZE_eq: "(a :: u64) mod 4096 = take_bit 12 a"
  by (simp add: take_bit_eq_mod)

lemma not_mask_12: "NOT (4095 :: u64) = push_bit 12 (mask 52)"
  by (simp add: mask_eq_exp_minus_1 push_bit_eq_mult)

lemma page_aligned_iff: "page_aligned a \<longleftrightarrow> take_bit 12 a = 0"
  by (simp add: page_aligned_def mod_PGSIZE_eq)

lemma page_aligned_bits: "page_aligned a \<longleftrightarrow> (\<forall>n < 12. \<not> bit a n)"
  by (auto simp: page_aligned_iff bit_eq_iff bit_take_bit_iff)

lemma page_aligned_nat: "page_aligned a \<longleftrightarrow> 4096 dvd unat a"
proof -
  have "unat (a mod 4096) = unat a mod 4096" by (simp add: unat_mod)
  then show ?thesis
    by (metis page_aligned_def mod_0_imp_dvd dvd_imp_mod_0 unat_0 unat_eq_zero)
qed

lemma PGROUNDDOWN_bits: "bit (PGROUNDDOWN a) n \<longleftrightarrow> 12 \<le> n \<and> bit a n"
proof -
  have "bit (NOT (4095::u64)) n \<longleftrightarrow> 12 \<le> n \<and> n < 64"
    unfolding not_mask_12 by (auto simp: bit_push_bit_iff bit_mask_iff)
  then show ?thesis
    by (auto simp: PGROUNDDOWN_def bit_and_iff dest: bit_imp_le_length)
qed

lemma PGROUNDDOWN_aligned [simp]: "page_aligned (PGROUNDDOWN a)"
  by (simp add: page_aligned_bits PGROUNDDOWN_bits)

lemma PGROUNDDOWN_id [simp]: "page_aligned a \<Longrightarrow> PGROUNDDOWN a = a"
  by (rule bit_eqI) (auto simp: PGROUNDDOWN_bits page_aligned_bits not_less)

lemma PGROUNDDOWN_eq_sub: "PGROUNDDOWN a = a - a mod 4096"
proof -
  have "PGROUNDDOWN a + take_bit 12 a = PGROUNDDOWN a OR take_bit 12 a"
    by (rule disjunctive_add) (auto simp: PGROUNDDOWN_bits bit_take_bit_iff)
  also have "\<dots> = a"
    by (rule bit_eqI) (auto simp: PGROUNDDOWN_bits bit_or_iff bit_take_bit_iff)
  finally show ?thesis by (simp add: mod_PGSIZE_eq algebra_simps)
qed

lemma unat_PGROUNDDOWN: "unat (PGROUNDDOWN a) = unat a - unat a mod 4096"
proof -
  have "a mod 4096 \<le> a" by (simp add: word_le_nat_alt unat_mod)
  then show ?thesis by (simp add: PGROUNDDOWN_eq_sub unat_sub unat_mod)
qed

lemma PGROUNDUP_alt: "PGROUNDUP a = PGROUNDDOWN (a + 4095)"
  by (simp add: PGROUNDUP_def PGROUNDDOWN_def algebra_simps)

lemma PGROUNDUP_aligned [simp]: "page_aligned (PGROUNDUP a)"
  by (simp add: PGROUNDUP_alt)

lemma unat_PGROUNDUP:
  assumes "unat a + 4095 < 2 ^ 64"
  shows "unat (PGROUNDUP a) = (unat a + 4095) div 4096 * 4096"
proof -
  have "unat (a + 4095) = unat a + 4095"
    using assms by (simp add: unat_add_lem [THEN iffD1])
  then show ?thesis
    by (simp add: PGROUNDUP_alt unat_PGROUNDDOWN minus_mod_eq_div_mult)
qed

lemma page_aligned_mult: "page_aligned (of_nat k * 4096)"
proof -
  have "of_nat k * (4096 :: u64) = push_bit 12 (of_nat k)" by (simp add: push_bit_eq_mult)
  then show ?thesis by (simp add: page_aligned_bits bit_push_bit_iff)
qed

lemma page_aligned_plus:
  assumes "page_aligned a" "page_aligned b"
  shows "page_aligned (a + b)" and "page_aligned (a - b)"
proof -
  show "page_aligned (a + b)"
    using assms by (simp add: page_aligned_nat unat_word_ariths dvd_mod)
  show "page_aligned (a - b)"
    using assms by (simp add: page_aligned_nat unat_sub_if_size word_size dvd_diff_nat)
qed

lemma page_aligned_4096 [simp]: "page_aligned 4096" "page_aligned 0"
  by (simp_all add: page_aligned_def)

lemma page_aligned_add [simp]: "page_aligned a \<Longrightarrow> page_aligned (a + 4096)"
  and page_aligned_sub [simp]: "page_aligned a \<Longrightarrow> page_aligned (a - 4096)"
  by (simp_all add: page_aligned_plus)

text \<open>Distinct aligned pages do not overlap.\<close>

lemma page_offset_unique:
  assumes "page_aligned p" "page_aligned q" "i < 4096" "j < 4096"
    and "p + of_nat i = q + of_nat j"
  shows "p = q \<and> i = j"
proof -
  have bd: "unat x + k < 2 ^ 64" if al: "page_aligned x" and k: "k < 4096" for x :: u64 and k
  proof -
    obtain m where m: "unat x = 4096 * m" using al by (auto simp: page_aligned_nat elim: dvdE)
    moreover have "unat x < 2 ^ 64" using unsigned_less [of x] by simp
    ultimately have "m < 2 ^ 52" by simp
    with m k show ?thesis by simp
  qed
  have un: "unat (x + of_nat k) = unat x + k" if "page_aligned x" "k < 4096" for x :: u64 and k
    using bd [OF that] that(2) by (simp add: unat_word_ariths unat_of_nat)
  have eq: "unat p + i = unat q + j"
    using assms(5) un [OF assms(1,3)] un [OF assms(2,4)] by simp
  have "(unat p + i) mod 4096 = i" "(unat q + j) mod 4096 = j"
    using assms(1-4) by (auto simp: page_aligned_nat)
  then have "i = j" using eq by simp
  then show ?thesis using eq by (simp add: word_unat_eq_iff)
qed

subsection \<open>Page-table entries\<close>

lemma PTE2PA_bits: "bit (PTE2PA e) n \<longleftrightarrow> 12 \<le> n \<and> n < 64 \<and> bit e (n - 2)"
  by (auto simp: PTE2PA_def bit_push_bit_iff bit_drop_bit_eq)

lemma PA2PTE_bits: "bit (PA2PTE a) n \<longleftrightarrow> 10 \<le> n \<and> n < 64 \<and> bit a (n + 2)"
  by (auto simp: PA2PTE_def bit_push_bit_iff bit_drop_bit_eq)

lemma PTE2PA_aligned [simp]: "page_aligned (PTE2PA e)"
  by (simp add: page_aligned_bits PTE2PA_bits)

text \<open>A page address survives being packed into an entry together with any flag bits.\<close>

lemma PTE2PA_PA2PTE:
  assumes "page_aligned pa" and "take_bit 10 f = f"
  shows "PTE2PA (PA2PTE pa OR f) = pa"
proof (rule bit_word_eqI)
  fix n assume "n < LENGTH(64)"
  have "\<not> bit f (n - 2)" if "12 \<le> n"
  proof -
    have "bit f (n - 2) \<longleftrightarrow> bit (take_bit 10 f) (n - 2)" using assms(2) by simp
    with that show ?thesis by (auto simp: bit_take_bit_iff)
  qed
  moreover have "bit (PA2PTE pa) (n - 2) = bit pa n" if "12 \<le> n"
  proof -
    have "n - 2 + 2 = n" using that by simp
    then show ?thesis using that \<open>n < LENGTH(64)\<close> unfolding PA2PTE_bits by auto
  qed
  ultimately show "bit (PTE2PA (PA2PTE pa OR f)) n = bit pa n"
    using assms(1) \<open>n < LENGTH(64)\<close>
    by (cases "n < 12") (auto simp: PTE2PA_bits bit_or_iff page_aligned_bits)
qed

lemma PTE_FLAGS_PA2PTE:
  assumes "take_bit 10 f = f"
  shows "PTE_FLAGS (PA2PTE pa OR f) = f"
proof -
  have "(0x3FF :: u64) = mask 10" by (simp add: mask_eq_exp_minus_1)
  then have "PTE_FLAGS (PA2PTE pa OR f) = take_bit 10 (PA2PTE pa OR f)"
    by (simp add: PTE_FLAGS_def take_bit_eq_mask)
  also have "\<dots> = take_bit 10 (PA2PTE pa) OR f" using assms by (simp add: take_bit_or)
  also have "take_bit 10 (PA2PTE pa) = 0"
    by (rule bit_eqI) (auto simp: bit_take_bit_iff PA2PTE_bits)
  finally show ?thesis by simp
qed

lemma PX_bits: "bit (PX l va) n \<longleftrightarrow> n < 9 \<and> bit va (n + (12 + 9 * l))"
proof -
  have "(0x1FF :: u64) = mask 9" by (simp add: mask_eq_exp_minus_1)
  then have "PX l va = take_bit 9 (drop_bit (12 + 9 * l) va)"
    by (simp add: PX_def take_bit_eq_mask)
  then show ?thesis by (auto simp: bit_take_bit_iff bit_drop_bit_eq add.commute)
qed

lemma unat_PX_less: "unat (PX l va) < 512"
proof -
  have "drop_bit (12 + 9 * l) va AND mask 9 < 2 ^ 9"
    by (rule and_mask_less_size) (simp add: word_size)
  moreover have "mask 9 = (0x1FF :: u64)" by (simp add: mask_eq_exp_minus_1)
  ultimately show ?thesis by (simp add: PX_def word_less_nat_alt)
qed

lemma less_MAXVA_bits: "va < MAXVA \<Longrightarrow> 38 \<le> n \<Longrightarrow> \<not> bit va n"
proof -
  assume a: "va < MAXVA" and n: "38 \<le> n"
  have "va < 2 ^ 38" using a by (simp add: MAXVA_val)
  then have "take_bit 38 va = va" by (simp only: take_bit_eq_mask less_mask_eq)
  then show ?thesis using n by (metis bit_take_bit_iff not_less)
qed

text \<open>The three indices determine the page below \<^const>\<open>MAXVA\<close>.\<close>

lemma PX_inj:
  assumes "va < MAXVA" "vb < MAXVA" "page_aligned va" "page_aligned vb"
    and px: "PX 2 va = PX 2 vb" "PX 1 va = PX 1 vb" "PX 0 va = PX 0 vb"
  shows "va = vb"
proof (rule bit_word_eqI)
  fix n assume "n < LENGTH(64)"
  have b0: "bit va (m + 12) = bit vb (m + 12)" if "m < 9" for m
    using PX_bits [of 0 va m] PX_bits [of 0 vb m] px(3) that by simp
  have b1: "bit va (m + 21) = bit vb (m + 21)" if "m < 9" for m
    using PX_bits [of 1 va m] PX_bits [of 1 vb m] px(2) that by simp
  have b2: "bit va (m + 30) = bit vb (m + 30)" if "m < 9" for m
    using PX_bits [of 2 va m] PX_bits [of 2 vb m] px(1) that by simp
  consider "n < 12" | "12 \<le> n" "n < 21" | "21 \<le> n" "n < 30" | "30 \<le> n" "n < 39" | "39 \<le> n"
    by linarith
  then show "bit va n = bit vb n"
  proof cases
    case 1 then show ?thesis using assms(3,4) by (simp add: page_aligned_bits)
  next
    case 2 then show ?thesis using b0 [of "n - 12"] by simp
  next
    case 3 then show ?thesis using b1 [of "n - 21"] by simp
  next
    case 4 then show ?thesis using b2 [of "n - 30"] by simp
  next
    case 5 then show ?thesis using less_MAXVA_bits assms(1,2) by simp
  qed
qed

end
