(* ===== verification/Spinlock.thy ===== *)
theory Spinlock
  imports Layout
begin

section \<open>Spin locks (kernel/spinlock.c)\<close>

text \<open>
  Locks and CPUs are numbered.  \<^verbatim>\<open>mycpu()\<close> is the first argument of every operation.  The atomic
  instructions and the plain statements of \<^verbatim>\<open>acquire\<close> and \<^verbatim>\<open>release\<close> are separate operations, and
  a step relation interleaves them between any number of CPUs; the memory fences order them as
  written.  \<open>owns\<close> is a history variable: the locks a CPU has acquired and not yet released.
\<close>

record spinlock =
  locked :: u32
  lkname :: string
  lkcpu :: "nat option"  \<comment> \<open>\<^verbatim>\<open>struct cpu *cpu\<close>, None for 0\<close>

record cpu =
  noff :: int      \<comment> \<open>depth of \<^verbatim>\<open>push_off()\<close> nesting\<close>
  intena :: bool   \<comment> \<open>were interrupts enabled before \<^verbatim>\<open>push_off()\<close>?\<close>
  sie :: bool      \<comment> \<open>the SIE bit of the CPU's \<^verbatim>\<open>sstatus\<close> register\<close>

datatype phase =
    Idle
  | Spinning nat   \<comment> \<open>at the test-and-set of \<^verbatim>\<open>acquire\<close>\<close>
  | Entering nat   \<comment> \<open>test-and-set succeeded, \<^verbatim>\<open>lk->cpu\<close> not yet recorded\<close>
  | Leaving nat    \<comment> \<open>\<^verbatim>\<open>lk->cpu\<close> cleared, \<^verbatim>\<open>lk->locked\<close> still set\<close>
  | Popping        \<comment> \<open>unlocked, \<^verbatim>\<open>pop_off()\<close> still to do\<close>

record locks =
  lk :: "nat \<Rightarrow> spinlock"
  cpus :: "nat \<Rightarrow> cpu"
  phase :: "nat \<Rightarrow> phase"
  owns :: "nat \<Rightarrow> nat set"

subsection \<open>Operations\<close>

definition initlock :: "nat \<Rightarrow> string \<Rightarrow> ('z locks_scheme, unit) K" where
  "initlock l nm = modifyK (\<lambda>s. s\<lparr>lk := (lk s)(l := \<lparr>locked = 0, lkname = nm, lkcpu = None\<rparr>)\<rparr>)"

definition set_cpu :: "nat \<Rightarrow> (cpu \<Rightarrow> cpu) \<Rightarrow> ('z locks_scheme, unit) K" where
  "set_cpu c f = modifyK (\<lambda>s. s\<lparr>cpus := (cpus s)(c := f (cpus s c))\<rparr>)"

definition set_lk :: "nat \<Rightarrow> (spinlock \<Rightarrow> spinlock) \<Rightarrow> ('z locks_scheme, unit) K" where
  "set_lk l f = modifyK (\<lambda>s. s\<lparr>lk := (lk s)(l := f (lk s l))\<rparr>)"

definition intr_get :: "nat \<Rightarrow> ('z locks_scheme, bool) K" where
  "intr_get c = getsK (\<lambda>s. sie (cpus s c))"

definition intr_on :: "nat \<Rightarrow> ('z locks_scheme, unit) K" where
  "intr_on c = set_cpu c (\<lambda>k. k\<lparr>sie := True\<rparr>)"

definition intr_off :: "nat \<Rightarrow> ('z locks_scheme, unit) K" where
  "intr_off c = set_cpu c (\<lambda>k. k\<lparr>sie := False\<rparr>)"

definition push_off :: "nat \<Rightarrow> ('z locks_scheme, unit) K" where
  "push_off c =
     bindK (intr_get c) (\<lambda>old.
     thenK (intr_off c)
     (thenK (set_cpu c (\<lambda>k. if noff k = 0 then k\<lparr>intena := old\<rparr> else k))
       (set_cpu c (\<lambda>k. k\<lparr>noff := noff k + 1\<rparr>))))"

definition pop_off :: "nat \<Rightarrow> ('z locks_scheme, unit) K" where
  "pop_off c =
     bindK (intr_get c) (\<lambda>on.
     if on then panic ''pop_off - interruptible''
     else bindK (getsK (\<lambda>s. noff (cpus s c))) (\<lambda>n.
       if n < 1 then panic ''pop_off''
       else thenK (set_cpu c (\<lambda>k. k\<lparr>noff := noff k - 1\<rparr>))
         (bindK (getsK (\<lambda>s. noff (cpus s c) = 0 \<and> intena (cpus s c))) (\<lambda>b.
          whenK b (intr_on c)))))"

definition holding :: "nat \<Rightarrow> nat \<Rightarrow> ('z locks_scheme, bool) K" where
  "holding c l = getsK (\<lambda>s. locked (lk s l) \<noteq> 0 \<and> lkcpu (lk s l) = Some c)"

text \<open>\<^verbatim>\<open>acquire\<close>: up to the loop, one \<^verbatim>\<open>__sync_lock_test_and_set\<close>, and the statement after the loop.\<close>

definition acquire_enter :: "nat \<Rightarrow> nat \<Rightarrow> ('z locks_scheme, unit) K" where
  "acquire_enter c l =
     thenK (push_off c)
       (bindK (holding c l) (\<lambda>h. if h then panic ''acquire'' else returnK ()))"

definition test_and_set :: "nat \<Rightarrow> ('z locks_scheme, u32) K" where
  "test_and_set l =
     bindK (getsK (\<lambda>s. locked (lk s l))) (\<lambda>old.
     thenK (set_lk l (\<lambda>k. k\<lparr>locked := 1\<rparr>)) (returnK old))"

definition acquire_exit :: "nat \<Rightarrow> nat \<Rightarrow> ('z locks_scheme, unit) K" where
  "acquire_exit c l = set_lk l (\<lambda>k. k\<lparr>lkcpu := Some c\<rparr>)"

text \<open>Run by one CPU alone, the loop ends at once or, when the lock is held, never.\<close>

definition acquire :: "nat \<Rightarrow> nat \<Rightarrow> ('z locks_scheme, unit) K" where
  "acquire c l =
     thenK (acquire_enter c l)
       (bindK (test_and_set l) (\<lambda>old. if old \<noteq> 0 then divergeK else acquire_exit c l))"

definition release_enter :: "nat \<Rightarrow> nat \<Rightarrow> ('z locks_scheme, unit) K" where
  "release_enter c l =
     bindK (holding c l) (\<lambda>h.
     if \<not> h then panic ''release'' else set_lk l (\<lambda>k. k\<lparr>lkcpu := None\<rparr>))"

definition lock_release :: "nat \<Rightarrow> ('z locks_scheme, unit) K" where
  "lock_release l = set_lk l (\<lambda>k. k\<lparr>locked := 0\<rparr>)"

definition release :: "nat \<Rightarrow> nat \<Rightarrow> ('z locks_scheme, unit) K" where
  "release c l = thenK (release_enter c l) (thenK (lock_release l) (pop_off c))"

lemmas lock_defs = push_off_def pop_off_def holding_def acquire_enter_def test_and_set_def
  acquire_exit_def release_enter_def lock_release_def intr_get_def intr_on_def intr_off_def
  set_cpu_def set_lk_def

subsection \<open>Interleavings\<close>

definition at :: "nat \<Rightarrow> phase \<Rightarrow> 'z locks_scheme \<Rightarrow> 'z locks_scheme" where
  "at c p s = s\<lparr>phase := (phase s)(c := p)\<rparr>"

definition own :: "nat \<Rightarrow> nat set \<Rightarrow> 'z locks_scheme \<Rightarrow> 'z locks_scheme" where
  "own c L s = s\<lparr>owns := (owns s)(c := L)\<rparr>"

text \<open>
  A CPU in phase \<open>Idle\<close> runs other code: it may start an \<^verbatim>\<open>acquire\<close> of a lock it does not hold, a
  \<^verbatim>\<open>release\<close> of one it holds, or change nothing.
\<close>

inductive lock_step :: "locks \<Rightarrow> locks \<Rightarrow> bool" where
  enter: "phase s c = Idle \<Longrightarrow> l \<notin> owns s c \<Longrightarrow> acquire_enter c l s = Inr ((), s') \<Longrightarrow>
    lock_step s (at c (Spinning l) s')"
| spin: "phase s c = Spinning l \<Longrightarrow> test_and_set l s = Inr (old, s') \<Longrightarrow> old \<noteq> 0 \<Longrightarrow>
    lock_step s s'"
| win: "phase s c = Spinning l \<Longrightarrow> test_and_set l s = Inr (old, s') \<Longrightarrow> old = 0 \<Longrightarrow>
    lock_step s (at c (Entering l) (own c (insert l (owns s c)) s'))"
| exit: "phase s c = Entering l \<Longrightarrow> acquire_exit c l s = Inr ((), s') \<Longrightarrow>
    lock_step s (at c Idle s')"
| leave: "phase s c = Idle \<Longrightarrow> l \<in> owns s c \<Longrightarrow> release_enter c l s = Inr ((), s') \<Longrightarrow>
    lock_step s (at c (Leaving l) s')"
| unlock: "phase s c = Leaving l \<Longrightarrow> lock_release l s = Inr ((), s') \<Longrightarrow>
    lock_step s (at c Popping (own c (owns s c - {l}) s'))"
| pop: "phase s c = Popping \<Longrightarrow> pop_off c s = Inr ((), s') \<Longrightarrow> lock_step s (at c Idle s')"

inductive lock_run :: "locks \<Rightarrow> locks \<Rightarrow> bool" where
  refl: "lock_run s s"
| step: "lock_run s s' \<Longrightarrow> lock_step s' s'' \<Longrightarrow> lock_run s s''"

definition boot_locks :: "locks \<Rightarrow> bool" where
  "boot_locks s \<longleftrightarrow> (\<forall>l. locked (lk s l) = 0 \<and> lkcpu (lk s l) = None) \<and>
     (\<forall>c. noff (cpus s c) = 0 \<and> phase s c = Idle \<and> owns s c = {})"

text \<open>\<open>busy p\<close>: how many \<^verbatim>\<open>push_off()\<close>s of this phase are not covered by a lock in \<open>owns\<close>.\<close>

fun busy :: "phase \<Rightarrow> int" where
  "busy (Spinning l) = 1"
| "busy Popping = 1"
| "busy _ = 0"

definition excl_inv :: "locks \<Rightarrow> bool" where
  "excl_inv s \<longleftrightarrow>
     (\<forall>c l. l \<in> owns s c \<longrightarrow> locked (lk s l) \<noteq> 0 \<and> phase s c \<noteq> Spinning l) \<and>
     (\<forall>c d l. l \<in> owns s c \<longrightarrow> l \<in> owns s d \<longrightarrow> c = d) \<and>
     (\<forall>c l. lkcpu (lk s l) = Some c \<longleftrightarrow> l \<in> owns s c \<and> phase s c \<noteq> Entering l \<and> phase s c \<noteq> Leaving l) \<and>
     (\<forall>c l. phase s c = Entering l \<or> phase s c = Leaving l \<longrightarrow> l \<in> owns s c)"

definition nest_inv :: "locks \<Rightarrow> bool" where
  "nest_inv s \<longleftrightarrow> (\<forall>c. finite (owns s c) \<and>
     (\<forall>l. phase s c = Entering l \<or> phase s c = Leaving l \<longrightarrow> l \<in> owns s c) \<and>
     noff (cpus s c) = int (card (owns s c)) + busy (phase s c) \<and>
     (0 < noff (cpus s c) \<longrightarrow> \<not> sie (cpus s c)))"

lemmas lock_runs = lock_defs run_simps

text \<open>What each operation leaves in the state.\<close>

lemma push_off_run:
  "push_off c s = Inr ((), s\<lparr>cpus := (cpus s)(c := (cpus s c)\<lparr>noff := noff (cpus s c) + 1,
     intena := (if noff (cpus s c) = 0 then sie (cpus s c) else intena (cpus s c)), sie := False\<rparr>)\<rparr>)"
  by (cases "cpus s c") (simp add: lock_runs)

lemma pop_off_run:
  assumes "\<not> sie (cpus s c)" "1 \<le> noff (cpus s c)"
  shows "pop_off c s = Inr ((), s\<lparr>cpus := (cpus s)(c := (cpus s c)\<lparr>noff := noff (cpus s c) - 1,
     sie := noff (cpus s c) = 1 \<and> intena (cpus s c)\<rparr>)\<rparr>)"
  using assms by (cases "cpus s c") (auto simp: lock_runs)

lemma acquire_enter_eq:
  assumes "acquire_enter c l s = Inr ((), s')"
  shows "lk s' = lk s" "owns s' = owns s" "phase s' = phase s"
    "cpus s' = (cpus s)(c := (cpus s c)\<lparr>noff := noff (cpus s c) + 1,
     intena := (if noff (cpus s c) = 0 then sie (cpus s c) else intena (cpus s c)), sie := False\<rparr>)"
  using assms by (auto simp: acquire_enter_def run_simps push_off_run holding_def split: if_splits)

lemma pop_off_eq:
  assumes "pop_off c s = Inr ((), s')"
  shows "lk s' = lk s" "owns s' = owns s" "phase s' = phase s" "1 \<le> noff (cpus s c)"
    "cpus s' = (cpus s)(c := (cpus s c)\<lparr>noff := noff (cpus s c) - 1,
     sie := noff (cpus s c) = 1 \<and> intena (cpus s c)\<rparr>)"
  using assms by (cases "cpus s c"; auto simp: lock_runs fun_eq_iff split: if_splits)+

lemma at_fields [simp]:
  "lk (at c p s) = lk s" "cpus (at c p s) = cpus s" "owns (at c p s) = owns s"
  "phase (at c p s) = (phase s)(c := p)"
  "lk (own c L s) = lk s" "cpus (own c L s) = cpus s" "phase (own c L s) = phase s"
  "owns (own c L s) = (owns s)(c := L)"
  by (simp_all add: at_def own_def)

lemma excl_inv_step:
  assumes "lock_step s s'" "excl_inv s"
  shows "excl_inv s'"
  using assms
proof (induction rule: lock_step.induct)
  case (enter s c l s')
  show ?case using enter(1,2,4) unfolding excl_inv_def at_fields acquire_enter_eq [OF enter(3)]
    by (auto simp del: split_paired_All)
next
  case (pop s c s')
  show ?case using pop(1,3) unfolding excl_inv_def at_fields pop_off_eq(1-3) [OF pop(2)] by auto
next
  case (spin s c l old s')
  then show ?case by (auto simp: lock_runs excl_inv_def split: if_splits)
next
  case (win s c l old s')
  have s': "lk s' = (lk s)(l := (lk s l)\<lparr>locked := 1\<rparr>)" "owns s' = owns s" "phase s' = phase s"
    using win(2) by (auto simp: lock_runs)
  have free: "locked (lk s l) = 0" using win(2,3) by (simp add: lock_runs)
  then have "l \<notin> owns s d" for d using win(4) by (auto simp: excl_inv_def)
  then show ?case using win(1,4) unfolding excl_inv_def at_fields s' by auto
next
  case (exit s c l s')
  have s': "lk s' = (lk s)(l := (lk s l)\<lparr>lkcpu := Some c\<rparr>)" "owns s' = owns s" "phase s' = phase s"
    using exit(2) by (auto simp: lock_runs)
  then have "l \<in> owns s c" "locked (lk s l) \<noteq> 0" using exit(1,3) unfolding excl_inv_def by blast+
  then show ?case using exit(1,3) unfolding excl_inv_def at_fields s' by auto
next
  case (leave s c l s')
  have s': "lk s' = (lk s)(l := (lk s l)\<lparr>lkcpu := None\<rparr>)" "owns s' = owns s" "phase s' = phase s"
    using leave(3) by (auto simp: lock_runs split: if_splits)
  show ?case using leave(1,2,4) unfolding excl_inv_def at_fields s' by auto
next
  case (unlock s c l s')
  have s': "lk s' = (lk s)(l := (lk s l)\<lparr>locked := 0\<rparr>)" "owns s' = owns s" "phase s' = phase s"
    using unlock(2) by (auto simp: lock_runs)
  show ?case using unlock(1,3) unfolding excl_inv_def at_fields s' by auto
qed

lemma nest_inv_step:
  assumes "lock_step s s'" "nest_inv s" "excl_inv s"
  shows "nest_inv s'"
  using assms
proof (induction rule: lock_step.induct)
  case (enter s c l s')
  show ?case using enter(1,4) unfolding nest_inv_def at_fields acquire_enter_eq [OF enter(3)] by auto
next
  case (spin s c l old s')
  then show ?case by (auto simp: lock_runs nest_inv_def)
next
  case (win s c l old s')
  have s': "cpus s' = cpus s" "owns s' = owns s" "phase s' = phase s"
    using win(2) by (auto simp: lock_runs)
  have "l \<notin> owns s c" using win(1,5) by (auto simp: excl_inv_def)
  then show ?case using win(1,4) unfolding nest_inv_def at_fields s' by (auto simp: card_insert_if)
next
  case (exit s c l s')
  then show ?case by (auto simp: lock_runs nest_inv_def)
next
  case (leave s c l s')
  then show ?case by (auto simp: lock_runs nest_inv_def split: if_splits)
next
  case (unlock s c l s')
  have s': "cpus s' = cpus s" "owns s' = owns s" "phase s' = phase s"
    using unlock(2) by (auto simp: lock_runs)
  have "l \<in> owns s c" "finite (owns s c)" using unlock(1,3) by (auto simp: nest_inv_def)
  then have "int (card (owns s c - {l})) + 1 = int (card (owns s c))"
    by (metis card_Suc_Diff1 of_nat_Suc add.commute)
  then show ?case using unlock(1,3) unfolding nest_inv_def at_fields s' by auto
next
  case (pop s c s')
  show ?case using pop(1,3) pop_off_eq(4) [OF pop(2)] unfolding nest_inv_def at_fields pop_off_eq [OF pop(2)]
    by auto
qed

lemma locks_reach:
  assumes "lock_run s0 s" "boot_locks s0"
  shows "excl_inv s \<and> nest_inv s"
  using assms
proof (induction rule: lock_run.induct)
  case (refl s)
  then show ?case by (simp add: boot_locks_def excl_inv_def nest_inv_def)
next
  case (step s s' s'')
  then show ?case using excl_inv_step nest_inv_step by blast
qed

subsection \<open>Properties\<close>

text \<open>
  C4: Whatever the interleaving of the CPUs, no two CPUs are ever past the \<^verbatim>\<open>acquire\<close> of the same
  lock, and a CPU that holds a lock has its interrupts disabled.
\<close>

theorem spinlock_mutual_exclusion:
  assumes "boot_locks s0" "lock_run s0 s" "l \<in> owns s c"
  shows "(\<forall>d. l \<in> owns s d \<longrightarrow> d = c) \<and> \<not> sie (cpus s c)"
proof -
  have inv: "excl_inv s" "nest_inv s" using locks_reach assms by blast+
  have "0 < int (card (owns s c))" using inv(2) assms(3) by (auto simp: nest_inv_def card_gt_0_iff)
  moreover have "0 \<le> busy (phase s c)" by (cases "phase s c") simp_all
  ultimately have "0 < noff (cpus s c)" using inv(2) by (simp add: nest_inv_def)
  then show ?thesis using inv assms(3) by (auto simp: excl_inv_def nest_inv_def)
qed

definition idle_locks :: locks where
  "idle_locks = \<lparr>lk = \<lambda>_. \<lparr>locked = 0, lkname = [], lkcpu = None\<rparr>,
     cpus = \<lambda>_. \<lparr>noff = 0, intena = False, sie = True\<rparr>, phase = \<lambda>_. Idle, owns = \<lambda>_. {}\<rparr>"

lemma idle_locks_acquire:
  "\<exists>s. lock_run idle_locks s \<and> 7 \<in> owns s 2"
proof -
  have 1: "lock_step idle_locks (at 2 (Spinning 7) s1)" if "acquire_enter 2 7 idle_locks = Inr ((), s1)" for s1
    using that by (intro lock_step.enter) (simp_all add: idle_locks_def)
  obtain s1 where s1: "acquire_enter 2 7 idle_locks = Inr ((), s1)" "locked (lk s1 7) = 0"
    by (simp add: acquire_enter_def push_off_run run_simps holding_def idle_locks_def)
  obtain s2 where s2: "test_and_set 7 (at 2 (Spinning 7) s1) = Inr (0, s2)"
    using s1(2) by (simp add: lock_runs)
  have "lock_step (at 2 (Spinning 7) s1) (at 2 (Entering 7) (own 2 (insert 7 (owns (at 2 (Spinning 7) s1) 2)) s2))"
    using s2 by (intro lock_step.win [OF _ s2]) simp_all
  then show ?thesis using lock_run.step [OF lock_run.step [OF lock_run.refl 1 [OF s1(1)]]] by fastforce
qed

theorem spinlock_mutual_exclusion_witness:
  "\<exists>s :: locks. 7 \<in> owns s 2 \<and> \<not> sie (cpus s 2)"
proof -
  obtain s where "lock_run idle_locks s" "7 \<in> owns s 2" using idle_locks_acquire by blast
  moreover have "boot_locks idle_locks" by (simp add: boot_locks_def idle_locks_def)
  ultimately show ?thesis using spinlock_mutual_exclusion by blast
qed

text \<open>
  In every reachable state an idle CPU can acquire a lock it does not hold without the
  panic of \<^verbatim>\<open>acquire\<close> -- up to the spinning -- and release one it holds without the panics of
  \<^verbatim>\<open>release\<close> and \<^verbatim>\<open>pop_off\<close>.
\<close>

lemma lock_discipline_never_panics:
  assumes "boot_locks s0" "lock_run s0 s" "phase s c = Idle"
  shows "if l \<in> owns s c then \<exists>s'. release c l s = Inr ((), s') \<and> locked (lk s' l) = 0
    else \<exists>s'. acquire_enter c l s = Inr ((), s') \<and>
      (acquire c l s = Inl Diverge \<or> (\<exists>s'. acquire c l s = Inr ((), s') \<and> lkcpu (lk s' l) = Some c))"
proof -
  have inv: "excl_inv s" "nest_inv s" using locks_reach assms by blast+
  show ?thesis
  proof (cases "l \<in> owns s c")
    case True
    let ?s = "s\<lparr>lk := (lk s)(l := (lk s l)\<lparr>lkcpu := None, locked := 0\<rparr>)\<rparr>"
    have h: "locked (lk s l) \<noteq> 0" "lkcpu (lk s l) = Some c" using inv(1) True assms(3) by (auto simp: excl_inv_def)
    have "1 \<le> int (card (owns s c))" using inv(2) True by (auto simp: nest_inv_def Suc_le_eq card_gt_0_iff)
    then have n: "1 \<le> noff (cpus ?s c)" "\<not> sie (cpus ?s c)" using inv(2) assms(3) by (auto simp: nest_inv_def)
    have "release c l s = pop_off c ?s"
      using h by (simp add: release_def release_enter_def lock_release_def holding_def set_lk_def run_simps)
    then show ?thesis using True pop_off_run [OF n(2,1)] by simp
  next
    case False
    then have "lkcpu (lk s l) \<noteq> Some c" using inv(1) by (auto simp: excl_inv_def)
    then show ?thesis
      using False by (auto simp: acquire_def acquire_enter_def push_off_run holding_def run_simps
        test_and_set_def acquire_exit_def set_lk_def)
  qed
qed

lemma forK_append: "forK (xs @ ys) f = thenK (forK xs f) (forK ys f)"
  by (induction xs) (simp_all add: thenK_def bindK_def returnK_def fun_eq_iff split: sum.split)

lemma push_pop_nest:
  assumes "0 \<le> noff (cpus s c)" "0 < noff (cpus s c) \<Longrightarrow> \<not> sie (cpus s c)"
  shows "\<exists>s'. thenK (forK (replicate n c) push_off) (forK (replicate n c) pop_off) s = Inr ((), s') \<and>
    noff (cpus s' c) = noff (cpus s c) \<and> sie (cpus s' c) = sie (cpus s c) \<and>
    (0 < noff (cpus s c) \<longrightarrow> intena (cpus s' c) = intena (cpus s c)) \<and>
    (\<forall>d. d \<noteq> c \<longrightarrow> cpus s' d = cpus s d)"
  using assms
proof (induction n arbitrary: s)
  case 0
  then show ?case by (simp add: run_simps)
next
  case (Suc n)
  define s1 where "s1 = s\<lparr>cpus := (cpus s)(c := (cpus s c)\<lparr>noff := noff (cpus s c) + 1,
     intena := (if noff (cpus s c) = 0 then sie (cpus s c) else intena (cpus s c)), sie := False\<rparr>)\<rparr>"
  have p: "push_off c s = Inr ((), s1)" by (simp add: push_off_run s1_def)
  have s1: "noff (cpus s1 c) = noff (cpus s c) + 1" "\<not> sie (cpus s1 c)"
    "intena (cpus s1 c) = (if noff (cpus s c) = 0 then sie (cpus s c) else intena (cpus s c))"
    "d \<noteq> c \<Longrightarrow> cpus s1 d = cpus s d" for d by (simp_all add: s1_def)
  obtain s2 where s2: "thenK (forK (replicate n c) push_off) (forK (replicate n c) pop_off) s1 = Inr ((), s2)"
    "noff (cpus s2 c) = noff (cpus s1 c)" "sie (cpus s2 c) = sie (cpus s1 c)"
    "intena (cpus s2 c) = intena (cpus s1 c)" "\<And>d. d \<noteq> c \<Longrightarrow> cpus s2 d = cpus s1 d"
    using Suc.IH [of s1] s1 Suc.prems(1) by auto
  have r: "replicate (Suc n) c = replicate n c @ [c]" by (simp add: replicate_append_same)
  have "thenK (forK (replicate (Suc n) c) push_off) (forK (replicate (Suc n) c) pop_off) s = pop_off c s2"
    using p s2(1) unfolding r [of, THEN arg_cong [where f = "\<lambda>xs. forK xs pop_off"]]
    by (auto simp: run_simps forK_append split: sum.splits)
  moreover have "\<not> sie (cpus s2 c)" "1 \<le> noff (cpus s2 c)" using s2 s1 Suc.prems by simp_all
  note pop_off_run [OF this]
  ultimately show ?case using s2 s1 Suc.prems by auto
qed

text \<open>
  \<open>n\<close> calls of \<^verbatim>\<open>push_off\<close> followed by \<open>n\<close> calls of \<^verbatim>\<open>pop_off\<close> leave the CPU's nesting depth and
  interrupt state as they were, whether interrupts were on or off.
\<close>

lemma push_pop_balanced:
  assumes "0 \<le> noff (cpus s c)" "0 < noff (cpus s c) \<Longrightarrow> \<not> sie (cpus s c)"
  shows "\<exists>s'. thenK (forK (replicate n c) push_off) (forK (replicate n c) pop_off) s = Inr ((), s') \<and>
    noff (cpus s' c) = noff (cpus s c) \<and> sie (cpus s' c) = sie (cpus s c) \<and>
    (\<forall>d. d \<noteq> c \<longrightarrow> cpus s' d = cpus s d)"
  using push_pop_nest [OF assms, of n] by blast

end
