(* ===== verification/Mem.thy ===== *)
theory Mem
  imports Layout
begin

unbundle bit_operations_syntax

section \<open>Byte-addressed memory and the string library\<close>

text \<open>
  Physical memory is a map from 64-bit addresses to bytes.  Objects wider than a byte are
  little-endian sequences of bytes.  On top of it this theory models
  \<^verbatim>\<open>kernel/string.c\<close>: the loops keep the order in which the C code reads and writes, so
  that aliasing between source and destination is visible.
\<close>

type_synonym mem = "addr \<Rightarrow> byte"

subsection \<open>Little-endian encodings\<close>

definition le_bytes :: "nat \<Rightarrow> 'a::len word \<Rightarrow> byte list" where
  "le_bytes k w = map (\<lambda>i. ucast (drop_bit (8 * i) w)) [0..<k]"

primrec le_word :: "byte list \<Rightarrow> 'a::len word" where
  "le_word [] = 0"
| "le_word (b # bs) = ucast b OR push_bit 8 (le_word bs)"

lemma length_le_bytes [simp]: "length (le_bytes k w) = k"
  by (simp add: le_bytes_def)

lemma bit_le_word:
  "bit (le_word bs :: 'a::len word) n \<longleftrightarrow>
     n < LENGTH('a) \<and> n div 8 < length bs \<and> bit (bs ! (n div 8)) (n mod 8)"
proof (induction bs arbitrary: n)
  case Nil
  then show ?case by simp
next
  case (Cons b bs)
  show ?case
  proof (cases "n < 8")
    case True
    then show ?thesis
      by (auto simp: bit_or_iff bit_push_bit_iff bit_ucast_iff)
  next
    case False
    then have d: "n div 8 = Suc ((n - 8) div 8)" "n mod 8 = (n - 8) mod 8"
      by (simp_all add: le_div_geq le_mod_geq)
    have "\<not> bit b n" using False by (auto dest: bit_imp_le_length)
    with False Cons.IH [of "n - 8"] d show ?thesis
      by (auto simp: bit_or_iff bit_push_bit_iff bit_ucast_iff)
  qed
qed

lemma bit_le_bytes:
  "i < k \<Longrightarrow> bit (le_bytes k (w :: 'a::len word) ! i) j \<longleftrightarrow> j < 8 \<and> bit w (8 * i + j)"
  by (auto simp: le_bytes_def bit_ucast_iff bit_drop_bit_eq)

lemma le_word_le_bytes:
  assumes "LENGTH('a) \<le> 8 * k"
  shows "le_word (le_bytes k w) = (w :: 'a::len word)"
proof (rule bit_word_eqI)
  fix n assume n: "n < LENGTH('a)"
  then have "n div 8 < k" using assms by simp
  with n show "bit (le_word (le_bytes k w) :: 'a word) n = bit w n"
    by (simp add: bit_le_word bit_le_bytes)
qed

lemma le_bytes_le_word:
  assumes "8 * length bs \<le> LENGTH('a)"
  shows "le_bytes (length bs) (le_word bs :: 'a::len word) = bs"
proof (rule nth_equalityI)
  fix i assume "i < length (le_bytes (length bs) (le_word bs :: 'a word))"
  then have i: "i < length bs" by simp
  show "le_bytes (length bs) (le_word bs :: 'a word) ! i = bs ! i"
  proof (rule bit_word_eqI)
    fix j :: nat assume "j < LENGTH(8)"
    then have "j < 8" by simp
    moreover from this i have "8 * i + j < LENGTH('a)" using assms by simp
    ultimately show "bit (le_bytes (length bs) (le_word bs :: 'a word) ! i) j = bit (bs ! i) j"
      using i by (simp add: bit_le_bytes bit_le_word)
  qed
qed simp

subsection \<open>Reading and writing stretches of memory\<close>

definition mem_bytes :: "mem \<Rightarrow> addr \<Rightarrow> nat \<Rightarrow> byte list" where
  "mem_bytes m a n = map (\<lambda>i. m (a + of_nat i)) [0..<n]"

definition mem_put :: "mem \<Rightarrow> addr \<Rightarrow> byte list \<Rightarrow> mem" where
  "mem_put m a bs = (\<lambda>x. if unat (x - a) < length bs then bs ! unat (x - a) else m x)"

definition read64 :: "mem \<Rightarrow> addr \<Rightarrow> u64" where
  "read64 m a = le_word (mem_bytes m a 8)"

definition write64 :: "mem \<Rightarrow> addr \<Rightarrow> u64 \<Rightarrow> mem" where
  "write64 m a v = mem_put m a (le_bytes 8 v)"

lemma length_mem_bytes [simp]: "length (mem_bytes m a n) = n"
  by (simp add: mem_bytes_def)

lemma nth_mem_bytes [simp]: "i < n \<Longrightarrow> mem_bytes m a n ! i = m (a + of_nat i)"
  by (simp add: mem_bytes_def)

lemma mem_put_Nil [simp]: "mem_put m a [] = m"
  by (simp add: mem_put_def)

lemma mem_bytes_put_same:
  assumes "length bs \<le> 2 ^ 64"
  shows "mem_bytes (mem_put m a bs) a (length bs) = bs"
proof (rule nth_equalityI)
  fix i assume "i < length (mem_bytes (mem_put m a bs) a (length bs))"
  then have i: "i < length bs" by simp
  then have "unat (of_nat i :: u64) = i" using assms by (intro unat_of_nat_small) simp
  with i show "mem_bytes (mem_put m a bs) a (length bs) ! i = bs ! i"
    by (simp add: mem_put_def)
qed simp

lemma mem_bytes_cong:
  assumes "\<And>i. i < n \<Longrightarrow> m' (a + of_nat i) = m (a + of_nat i)"
  shows "mem_bytes m' a n = mem_bytes m a n"
  using assms by (simp add: mem_bytes_def)

lemma read64_write64_same [simp]: "read64 (write64 m a v) a = v"
  using mem_bytes_put_same [of "le_bytes 8 v" m a]
  by (simp add: read64_def write64_def le_word_le_bytes)

lemma read64_cong:
  assumes "\<And>i. i < 8 \<Longrightarrow> m' (a + of_nat i) = m (a + of_nat i)"
  shows "read64 m' a = read64 m a"
  using assms by (simp add: read64_def mem_bytes_cong [of 8 m' a m])

lemma write64_other: "\<not> unat (x - a) < 8 \<Longrightarrow> write64 m a v x = m x"
  by (simp add: write64_def mem_put_def)

subsection \<open>The routines of string.c\<close>

text \<open>\<^verbatim>\<open>memset\<close>: the loop counter runs upwards from \<open>i\<close>.\<close>

function memset_loop :: "mem \<Rightarrow> addr \<Rightarrow> byte \<Rightarrow> nat \<Rightarrow> nat \<Rightarrow> mem" where
  "memset_loop m dst c i n =
     (if i < n then memset_loop (m(dst + of_nat i := c)) dst c (Suc i) n else m)"
  by pat_completeness auto
termination
  by (relation "measure (\<lambda>(m, dst, c, i, n). n - i)") auto

declare memset_loop.simps [simp del]

definition memset :: "mem \<Rightarrow> addr \<Rightarrow> u32 \<Rightarrow> u32 \<Rightarrow> mem" where
  "memset m dst c n = memset_loop m dst (ucast c) 0 (unat n)"

text \<open>\<^verbatim>\<open>memcmp\<close>: the result is the difference of the first unequal bytes.\<close>

fun memcmp_loop :: "mem \<Rightarrow> addr \<Rightarrow> addr \<Rightarrow> nat \<Rightarrow> int" where
  "memcmp_loop m s1 s2 0 = 0"
| "memcmp_loop m s1 s2 (Suc n) =
     (if m s1 \<noteq> m s2 then uint (m s1) - uint (m s2) else memcmp_loop m (s1 + 1) (s2 + 1) n)"

definition memcmp :: "mem \<Rightarrow> addr \<Rightarrow> addr \<Rightarrow> u32 \<Rightarrow> int" where
  "memcmp m v1 v2 n = memcmp_loop m v1 v2 (unat n)"

text \<open>\<^verbatim>\<open>memmove\<close>: backwards when the source starts below the destination and reaches into it.\<close>

fun memmove_fwd :: "mem \<Rightarrow> addr \<Rightarrow> addr \<Rightarrow> nat \<Rightarrow> mem" where
  "memmove_fwd m d s 0 = m"
| "memmove_fwd m d s (Suc n) = memmove_fwd (m(d := m s)) (d + 1) (s + 1) n"

fun memmove_bwd :: "mem \<Rightarrow> addr \<Rightarrow> addr \<Rightarrow> nat \<Rightarrow> mem" where
  "memmove_bwd m d s 0 = m"
| "memmove_bwd m d s (Suc n) = memmove_bwd (m(d - 1 := m (s - 1))) (d - 1) (s - 1) n"

definition memmove :: "mem \<Rightarrow> addr \<Rightarrow> addr \<Rightarrow> u32 \<Rightarrow> mem" where
  "memmove m dst src n =
     (if n = 0 then m
      else if src < dst \<and> src + ucast n > dst
      then memmove_bwd m (dst + ucast n) (src + ucast n) (unat n)
      else memmove_fwd m dst src (unat n))"

definition memcpy :: "mem \<Rightarrow> addr \<Rightarrow> addr \<Rightarrow> u32 \<Rightarrow> mem" where
  "memcpy m dst src n = memmove m dst src n"

text \<open>\<^verbatim>\<open>strncmp\<close>: stops at the end of the count, at a NUL of \<open>p\<close>, or at a difference.\<close>

fun strncmp_loop :: "mem \<Rightarrow> addr \<Rightarrow> addr \<Rightarrow> nat \<Rightarrow> int" where
  "strncmp_loop m p q 0 = 0"
| "strncmp_loop m p q (Suc n) =
     (if m p \<noteq> 0 \<and> m p = m q then strncmp_loop m (p + 1) (q + 1) n
      else uint (m p) - uint (m q))"

definition strncmp :: "mem \<Rightarrow> addr \<Rightarrow> addr \<Rightarrow> u32 \<Rightarrow> int" where
  "strncmp m p q n = strncmp_loop m p q (unat n)"

text \<open>\<^verbatim>\<open>strncpy\<close>: copy up to and including the NUL, then pad with NULs.\<close>

fun strncpy_pad :: "mem \<Rightarrow> addr \<Rightarrow> nat \<Rightarrow> mem" where
  "strncpy_pad m s 0 = m"
| "strncpy_pad m s (Suc n) = strncpy_pad (m(s := 0)) (s + 1) n"

fun strncpy_loop :: "mem \<Rightarrow> addr \<Rightarrow> addr \<Rightarrow> nat \<Rightarrow> mem" where
  "strncpy_loop m s t 0 = m"
| "strncpy_loop m s t (Suc n) =
     (let c = m t; m' = m(s := c) in
      if c \<noteq> 0 then strncpy_loop m' (s + 1) (t + 1) n else strncpy_pad m' (s + 1) n)"

definition strncpy :: "mem \<Rightarrow> addr \<Rightarrow> addr \<Rightarrow> int \<Rightarrow> mem" where
  "strncpy m s t n = strncpy_loop m s t (nat n)"

text \<open>
  \<^verbatim>\<open>safestrcpy\<close>: at most \<open>n - 1\<close> bytes, then a NUL.  After a copied NUL the pointer has
  moved on, so the final store is a second NUL behind it.
\<close>

fun safestrcpy_loop :: "mem \<Rightarrow> addr \<Rightarrow> addr \<Rightarrow> nat \<Rightarrow> mem" where
  "safestrcpy_loop m s t 0 = m(s := 0)"
| "safestrcpy_loop m s t (Suc n) =
     (let c = m t; m' = m(s := c) in
      if c \<noteq> 0 then safestrcpy_loop m' (s + 1) (t + 1) n else m'(s + 1 := 0))"

definition safestrcpy :: "mem \<Rightarrow> addr \<Rightarrow> addr \<Rightarrow> int \<Rightarrow> mem" where
  "safestrcpy m s t n = (if n \<le> 0 then m else safestrcpy_loop m s t (nat n - 1))"

text \<open>\<^verbatim>\<open>strlen\<close> returns only when a NUL is found.\<close>

partial_function (option) strlen_from :: "mem \<Rightarrow> addr \<Rightarrow> nat \<Rightarrow> nat option" where
  "strlen_from m s n = (if m (s + of_nat n) \<noteq> 0 then strlen_from m s (Suc n) else Some n)"

definition strlen :: "mem \<Rightarrow> addr \<Rightarrow> nat option" where
  "strlen m s = strlen_from m s 0"


subsection \<open>What the copy loops leave in memory\<close>

lemma unat_shift_Suc:
  fixes x d :: u64
  assumes "x \<noteq> d"
  shows "unat (x - d) = Suc (unat (x - (d + 1)))"
proof -
  have "x - d \<noteq> 0" using assms by simp
  then have "unat (x - d - 1) = unat (x - d) - 1" and "0 < unat (x - d)"
    by (simp_all add: unat_minus_one unat_gt_0)
  then show ?thesis by (simp add: diff_diff_eq)
qed

lemma unat_sub_le_iff: "unat (c - y) \<le> unat c \<longleftrightarrow> unat y \<le> unat (c :: u64)"
proof (cases "y \<le> c")
  case True
  then show ?thesis by (simp add: unat_sub word_le_nat_alt)
next
  case False
  have "unat y < 2 ^ 64" using unsigned_less [of y] by simp
  with False show ?thesis by (simp add: unat_sub_if_size word_size word_le_nat_alt)
qed

lemma memset_loop_spec:
  assumes "n \<le> 2 ^ 64"
  shows "memset_loop m dst c i n x =
    (if i \<le> unat (x - dst) \<and> unat (x - dst) < n then c else m x)"
  using assms
proof (induction m dst c i n arbitrary: x rule: memset_loop.induct)
  case (1 m dst c i n)
  show ?case
  proof (cases "i < n")
    case True
    have "x = dst + of_nat i \<longleftrightarrow> unat (x - dst) = i"
    proof
      assume "x = dst + of_nat i"
      then show "unat (x - dst) = i" using True "1.prems" by (simp add: unat_of_nat_small)
    next
      assume "unat (x - dst) = i"
      then have "x - dst = of_nat i" by (metis of_nat_unat ucast_id)
      then show "x = dst + of_nat i" by (simp add: algebra_simps)
    qed
    moreover have "memset_loop m dst c i n x = memset_loop (m(dst + of_nat i := c)) dst c (Suc i) n x"
      using True by (subst memset_loop.simps) (rule if_P [THEN fun_cong])
    moreover note "1.IH" [OF True "1.prems", of x]
    ultimately show ?thesis using True by (simp only: fun_upd_apply) auto
  next
    case False
    then show ?thesis by (subst memset_loop.simps) auto
  qed
qed

lemma memset_spec:
  "memset m dst c n x = (if unat (x - dst) < unat n then ucast c else m x)"
proof -
  have "unat n < 2 ^ 32" using unsigned_less [of n] by simp
  then show ?thesis by (simp add: memset_def memset_loop_spec)
qed

lemma memset_outside: "\<not> unat (x - dst) < unat n \<Longrightarrow> memset m dst c n x = m x"
  by (simp add: memset_spec)

lemma memmove_fwd_spec:
  assumes "n \<le> 2 ^ 64"
    and "\<And>i j. i < j \<Longrightarrow> j < n \<Longrightarrow> d + of_nat i \<noteq> s + of_nat j"
  shows "memmove_fwd m d s n x = (if unat (x - d) < n then m (s + (x - d)) else m x)"
  using assms
proof (induction m d s n arbitrary: x rule: memmove_fwd.induct)
  case (1 m d s)
  then show ?case by simp
next
  case (2 m d s n)
  let ?m = "m(d := m s)"
  have IH: "memmove_fwd ?m (d + 1) (s + 1) n x =
      (if unat (x - (d + 1)) < n then ?m (s + 1 + (x - (d + 1))) else ?m x)"
  proof (rule "2.IH")
    show "n \<le> 2 ^ 64" using "2.prems"(1) by simp
    show "d + 1 + of_nat i \<noteq> s + 1 + of_nat j" if "i < j" "j < n" for i j
      using "2.prems"(2) [of "Suc i" "Suc j"] that by (simp add: algebra_simps)
  qed
  show ?case
  proof (cases "x = d")
    case True
    have "\<not> unat (x - (d + 1)) < n"
      using True "2.prems"(1) by (simp add: unsigned_minus_1_eq_mask mask_eq_exp_minus_1)
    with True IH show ?thesis by simp
  next
    case False
    have sh: "s + 1 + (x - (d + 1)) = s + (x - d)" by simp
    have less: "unat (x - d) < Suc n \<longleftrightarrow> unat (x - (d + 1)) < n"
      by (simp only: unat_shift_Suc [OF False] Suc_less_eq)
    have nd: "s + (x - d) \<noteq> d" if "unat (x - (d + 1)) < n"
    proof -
      have "d + of_nat 0 \<noteq> s + of_nat (unat (x - d))"
        by (rule "2.prems"(2)) (use False that less in \<open>simp_all only: unat_gt_0 right_minus_eq, simp\<close>)
      then show ?thesis by simp
    qed
    have "memmove_fwd m d s (Suc n) x = (if unat (x - (d + 1)) < n then ?m (s + (x - d)) else ?m x)"
      using IH by (simp only: memmove_fwd.simps sh)
    then show ?thesis using False nd unfolding less fun_upd_apply by presburger
  qed
qed

lemma memmove_bwd_spec:
  assumes "n \<le> 2 ^ 64"
    and "\<And>i j. i < j \<Longrightarrow> j < n \<Longrightarrow> d - of_nat i \<noteq> s - of_nat j"
  shows "memmove_bwd m d s n x =
    (if unat (d - (x + 1)) < n then m (s - (d - x)) else m x)"
  using assms
proof (induction m d s n arbitrary: x rule: memmove_bwd.induct)
  case (1 m d s)
  then show ?case by simp
next
  case (2 m d s n)
  let ?m = "m(d - 1 := m (s - 1))"
  have IH: "memmove_bwd ?m (d - 1) (s - 1) n x =
      (if unat (d - 1 - (x + 1)) < n then ?m (s - 1 - (d - 1 - x)) else ?m x)"
  proof (rule "2.IH")
    show "n \<le> 2 ^ 64" using "2.prems"(1) by simp
    show "d - 1 - of_nat i \<noteq> s - 1 - of_nat j" if "i < j" "j < n" for i j
      using "2.prems"(2) [of "Suc i" "Suc j"] that by (simp add: algebra_simps)
  qed
  show ?case
  proof (cases "x = d - 1")
    case True
    have "\<not> unat (d - 1 - (x + 1)) < n"
      using True "2.prems"(1) by (simp add: unsigned_minus_1_eq_mask mask_eq_exp_minus_1)
    with True IH show ?thesis by simp
  next
    case False
    then have ne: "d \<noteq> x + 1" by auto
    have suc: "unat (d - (x + 1)) = Suc (unat (d - 1 - (x + 1)))"
      using unat_shift_Suc [OF ne] by (simp add: algebra_simps)
    have sh: "s - 1 - (d - 1 - x) = s - (d - x)" by simp
    have less: "unat (d - (x + 1)) < Suc n \<longleftrightarrow> unat (d - 1 - (x + 1)) < n"
      by (simp only: suc Suc_less_eq)
    have nd: "s - (d - x) \<noteq> d - 1" if "unat (d - 1 - (x + 1)) < n"
    proof -
      have "d - of_nat 0 \<noteq> s - of_nat (unat (d - (x + 1)))"
        by (rule "2.prems"(2)) (use suc that less in \<open>simp_all only: less_Suc_eq_0_disj, simp\<close>)
      then have "d \<noteq> s - (d - (x + 1))" by simp
      then show ?thesis by (auto simp: algebra_simps)
    qed
    have "memmove_bwd m d s (Suc n) x =
        (if unat (d - 1 - (x + 1)) < n then ?m (s - (d - x)) else ?m x)"
      using IH by (simp only: memmove_bwd.simps sh)
    then show ?thesis using False nd unfolding less fun_upd_apply by presburger
  qed
qed

text \<open>Both directions together: \<^verbatim>\<open>memmove\<close> copies as if through a temporary buffer.\<close>

lemma memmove_spec:
  assumes "unat src + unat n \<le> 2 ^ 64" and "unat dst + unat n \<le> 2 ^ 64"
  shows "memmove m dst src n x =
    (if unat (x - dst) < unat n then m (src + (x - dst)) else m x)"
proof (cases "n = 0")
  case True
  then show ?thesis by (simp add: memmove_def)
next
  case False
  let ?N = "ucast n :: u64"
  have n32: "unat n < 2 ^ 32" using unsigned_less [of n] by simp
  have N: "unat ?N = unat n" using n32 by (simp add: unsigned_ucast_eq take_bit_nat_eq_self)
    have off: "unat (p + of_nat i) = unat p + i"
    if "unat p + unat n \<le> 2 ^ 64" "i < unat n" for p :: u64 and i
    using that n32 by (simp add: unat_word_ariths unat_of_nat)
  show ?thesis
  proof (cases "src < dst \<and> src + ?N > dst")
    case True
    have dj: "dst + ?N - of_nat i \<noteq> src + ?N - of_nat j" if "i < j" "j < unat n" for i j
    proof
      assume "dst + ?N - of_nat i = src + ?N - of_nat j"
      then have "dst + of_nat j = src + of_nat i" by (simp add: algebra_simps)
      then have "unat dst + j = unat src + i"
        using off [OF assms(2), of j] off [OF assms(1), of i] that by simp
      with True that show False by (simp add: word_less_nat_alt)
    qed
    have "memmove m dst src n x =
      (if unat (dst + ?N - (x + 1)) < unat n then m (src + ?N - (dst + ?N - x)) else m x)"
    proof -
      have "memmove m dst src n = memmove_bwd m (dst + ?N) (src + ?N) (unat n)"
        using True False by (simp add: memmove_def)
      moreover have "unat n \<le> 2 ^ 64" using n32 by simp
      ultimately show ?thesis using memmove_bwd_spec [OF _ dj] by simp
    qed
    moreover have "unat (dst + ?N - (x + 1)) < unat n \<longleftrightarrow> unat (x - dst) < unat n"
    proof -
      have c: "unat (?N - 1) = unat n - 1" "0 < unat n"
        using False N by (metis unat_eq_zero unat_minus_one, simp add: unat_gt_0)
      have "dst + ?N - (x + 1) = (?N - 1) - (x - dst)" by (simp add: algebra_simps)
      then have "unat (dst + ?N - (x + 1)) \<le> unat (?N - 1) \<longleftrightarrow> unat (x - dst) \<le> unat (?N - 1)"
        by (simp only: unat_sub_le_iff)
      then show ?thesis using c by linarith
    qed
    ultimately show ?thesis by (simp add: algebra_simps)
  next
    case fwd: False
    have dj: "dst + of_nat i \<noteq> src + of_nat j" if "i < j" "j < unat n" for i j
    proof
      assume "dst + of_nat i = src + of_nat j"
      then have e: "unat dst + i = unat src + j"
        using off [OF assms(2), of i] off [OF assms(1), of j] that by simp
      then have "src < dst" using that by (simp add: word_less_nat_alt)
      moreover have "src + ?N > dst"
      proof (cases "unat src + unat n < 2 ^ 64")
        case True
        then have "unat (src + ?N) = unat src + unat n" using N by (simp add: unat_word_ariths)
        with e that show ?thesis by (simp add: word_less_nat_alt)
      next
        case False
        with e that assms show ?thesis by simp
      qed
      ultimately show False using fwd by simp
    qed
    have "memmove m dst src n = memmove_fwd m dst src (unat n)"
      using False fwd by (auto simp: memmove_def)
    moreover have "unat n \<le> 2 ^ 64" using n32 by simp
    ultimately show ?thesis using memmove_fwd_spec [OF _ dj] by simp
  qed
qed

subsection \<open>Strings\<close>

text \<open>The C string at an address, cut off after \<open>n\<close> bytes.\<close>

definition cstr :: "mem \<Rightarrow> addr \<Rightarrow> nat \<Rightarrow> byte list" where
  "cstr m p n = takeWhile (\<lambda>b. b \<noteq> 0) (mem_bytes m p n)"

lemma mem_bytes_Suc: "mem_bytes m p (Suc n) = m p # mem_bytes m (p + 1) n"
proof -
  have "[0..<Suc n] = 0 # map Suc [0..<n]"
    by (simp only: map_Suc_upt upt_conv_Cons zero_less_Suc)
  then show ?thesis by (simp add: mem_bytes_def comp_def add.assoc)
qed

lemma cstr_simps [simp]:
  "cstr m p 0 = []"
  "cstr m p (Suc n) = (if m p = 0 then [] else m p # cstr m (p + 1) n)"
  by (simp_all add: cstr_def mem_bytes_Suc) (simp add: mem_bytes_def)

lemma strncmp_loop_zero: "strncmp_loop m p q n = 0 \<longleftrightarrow> cstr m p n = cstr m q n"
  by (induction m p q n rule: strncmp_loop.induct) (auto simp: uint_0_iff simp flip: word_uint_eq_iff)

lemma strlen_from_SomeI:
  assumes "m (s + of_nat (n + d)) = 0" and "\<And>i. n \<le> i \<Longrightarrow> i < n + d \<Longrightarrow> m (s + of_nat i) \<noteq> 0"
  shows "strlen_from m s n = Some (n + d)"
  using assms
proof (induction d arbitrary: n)
  case 0
  then show ?case by (subst strlen_from.simps) simp
next
  case (Suc d)
  have "strlen_from m s (Suc n) = Some (Suc n + d)"
    by (rule Suc.IH) (use Suc.prems in auto)
  moreover have "m (s + of_nat n) \<noteq> 0" using Suc.prems(2) [of n] by simp
  ultimately show ?case by (subst strlen_from.simps) simp
qed

lemma safestrcpy_loop_spec:
  assumes "r + 2 \<le> 2 ^ 64"
    and "\<And>i j. i \<le> r \<Longrightarrow> j \<le> r \<Longrightarrow> s + of_nat i \<noteq> t + of_nat j"
  shows "(\<exists>k \<le> r. mem_bytes (safestrcpy_loop m s t r) s k = cstr m t r \<and>
            safestrcpy_loop m s t r (s + of_nat k) = 0) \<and>
         (\<forall>x. \<not> unat (x - s) < Suc r \<longrightarrow> safestrcpy_loop m s t r x = m x)"
  using assms
proof (induction m s t r rule: safestrcpy_loop.induct)
  case (1 m s t)
  then show ?case by (auto simp: mem_bytes_def)
next
  case (2 m s t r)
  show ?case
  proof (cases "m t = 0")
    case True
    have "x \<noteq> s + 1" if "\<not> unat (x - s) < Suc (Suc r)" for x
      using that by auto
    with True show ?thesis by (auto simp: Let_def mem_bytes_def intro!: exI [of _ 0])
  next
    case False
    let ?m = "m(s := m t)" and ?m' = "safestrcpy_loop (m(s := m t)) (s + 1) (t + 1) r"
    have ne: "s \<noteq> t + of_nat j" if "j \<le> Suc r" for j
      using "2.prems"(2) [of 0 j] that by simp
    have "(\<exists>k \<le> r. mem_bytes ?m' (s + 1) k = cstr ?m (t + 1) r \<and> ?m' (s + 1 + of_nat k) = 0) \<and>
         (\<forall>x. \<not> unat (x - (s + 1)) < Suc r \<longrightarrow> ?m' x = ?m x)"
    proof (rule "2.IH" [OF refl refl False])
      show "r + 2 \<le> 2 ^ 64" using "2.prems"(1) by simp
      show "s + 1 + of_nat i \<noteq> t + 1 + of_nat j" if "i \<le> r" "j \<le> r" for i j
        using "2.prems"(2) [of "Suc i" "Suc j"] that by (simp add: algebra_simps)
    qed
    then obtain k where k: "k \<le> r" "mem_bytes ?m' (s + 1) k = cstr ?m (t + 1) r"
        "?m' (s + 1 + of_nat k) = 0"
      and out: "\<And>x. \<not> unat (x - (s + 1)) < Suc r \<Longrightarrow> ?m' x = ?m x" by blast
    have "unat (s - (s + 1)) = 2 ^ 64 - 1"
      by (simp add: unsigned_minus_1_eq_mask mask_eq_exp_minus_1)
    then have "?m' s = m t" using out [of s] "2.prems"(1) by simp
    moreover have "cstr ?m (t + 1) r = cstr m (t + 1) r"
    proof -
      have "mem_bytes ?m (t + 1) r = mem_bytes m (t + 1) r"
      proof (rule mem_bytes_cong)
        fix i assume "i < r"
        then show "?m (t + 1 + of_nat i) = m (t + 1 + of_nat i)"
          using ne [of "Suc i"] by (auto simp: algebra_simps)
      qed
      then show ?thesis by (simp add: cstr_def)
    qed
    ultimately have "mem_bytes ?m' s (Suc k) = cstr m t (Suc r)"
      using False k(2) by (simp add: mem_bytes_Suc)
    moreover have "?m' (s + of_nat (Suc k)) = 0" using k(3) by (simp add: algebra_simps)
    moreover have "?m' x = m x" if "\<not> unat (x - s) < Suc (Suc r)" for x
    proof -
      have "x \<noteq> s" using that by auto
      then show ?thesis using out [of x] that unat_shift_Suc [of x s] by simp
    qed
    ultimately show ?thesis using False k(1) by (auto simp: Let_def intro!: exI [of _ "Suc k"])
  qed
qed

lemma strncpy_pad_spec:
  assumes "n \<le> 2 ^ 64"
  shows "strncpy_pad m s n x = (if unat (x - s) < n then 0 else m x)"
  using assms
proof (induction m s n arbitrary: x rule: strncpy_pad.induct)
  case (1 m s)
  then show ?case by simp
next
  case (2 m s n)
  have IH: "strncpy_pad (m(s := 0)) (s + 1) n x =
      (if unat (x - (s + 1)) < n then 0 else (m(s := 0)) x)"
    by (rule "2.IH") (use "2.prems" in simp)
  show ?case
  proof (cases "x = s")
    case True
    with IH show ?thesis by simp
  next
    case False
    then have "unat (x - s) < Suc n \<longleftrightarrow> unat (x - (s + 1)) < n"
      by (simp only: unat_shift_Suc [OF False] Suc_less_eq)
    with IH False show ?thesis by simp
  qed
qed

subsection \<open>Properties\<close>

text \<open>
  C39: \<^verbatim>\<open>memmove\<close> is correct for overlapping regions.  Whatever the relative position of
  source and destination, each byte of the destination ends up with the value that the
  corresponding source byte had \<^emph>\<open>before\<close> the call, and no other byte changes.
\<close>

theorem memmove_overlap_correct:
  assumes "unat src + unat n \<le> 2 ^ 64" and "unat dst + unat n \<le> 2 ^ 64"
  shows "mem_bytes (memmove m dst src n) dst (unat n) = mem_bytes m src (unat n) \<and>
    (\<forall>x. \<not> unat (x - dst) < unat n \<longrightarrow> memmove m dst src n x = m x)"
proof (intro conjI allI impI)
  have n64: "unat n \<le> 2 ^ 64" using unat_less_pow(3) [of n] by simp
  show "mem_bytes (memmove m dst src n) dst (unat n) = mem_bytes m src (unat n)"
  proof (rule nth_equalityI)
    fix i assume "i < length (mem_bytes (memmove m dst src n) dst (unat n))"
    then have i: "i < unat n" by simp
    then have "unat (of_nat i :: u64) = i" using n64 by (intro unat_of_nat_small) simp
    with i show "mem_bytes (memmove m dst src n) dst (unat n) ! i = mem_bytes m src (unat n) ! i"
      by (simp add: memmove_spec [OF assms])
  qed simp
  show "memmove m dst src n x = m x" if "\<not> unat (x - dst) < unat n" for x
    using that by (simp add: memmove_spec [OF assms])
qed

theorem memmove_overlap_correct_witness:
  "mem_bytes (memmove (\<lambda>a. ucast a) 102 100 4) 102 4 = [100, 101, 102, 103]"
  using memmove_overlap_correct [of 100 4 102 "\<lambda>a. ucast a"]
  by (simp add: mem_bytes_def upt_rec)

text \<open>
  \<^verbatim>\<open>safestrcpy\<close> copies the source string cut to \<open>n - 1\<close> bytes, always leaves a
  terminating NUL inside the \<open>n\<close>-byte destination, and writes nothing outside it, provided
  the two buffers do not overlap.
\<close>

lemma safestrcpy_terminates_string:
  assumes "0 < n" and "nat n < 2 ^ 64"
    and "\<And>i j. i < nat n \<Longrightarrow> j < nat n \<Longrightarrow> s + of_nat i \<noteq> t + of_nat j"
  shows "(\<exists>k < nat n. mem_bytes (safestrcpy m s t n) s k = cstr m t (nat n - 1) \<and>
            safestrcpy m s t n (s + of_nat k) = 0) \<and>
         (\<forall>x. \<not> unat (x - s) < nat n \<longrightarrow> safestrcpy m s t n x = m x)"
proof -
  define r where "r = nat n - 1"
  have r: "nat n = Suc r" using assms(1) by (simp add: r_def)
  have "(\<exists>k \<le> r. mem_bytes (safestrcpy_loop m s t r) s k = cstr m t r \<and>
            safestrcpy_loop m s t r (s + of_nat k) = 0) \<and>
         (\<forall>x. \<not> unat (x - s) < Suc r \<longrightarrow> safestrcpy_loop m s t r x = m x)"
    by (rule safestrcpy_loop_spec) (use assms r in auto)
  moreover have "safestrcpy m s t n = safestrcpy_loop m s t r"
    using assms(1) r by (simp add: safestrcpy_def)
  ultimately show ?thesis by (simp add: r less_Suc_eq_le)
qed

text \<open>
  \<^verbatim>\<open>strncmp\<close> (and so \<^verbatim>\<open>namecmp\<close>) returns 0 exactly when the two strings, cut off after
  \<open>n\<close> bytes, are the same.
\<close>

lemma strncmp_zero_iff: "strncmp m p q n = 0 \<longleftrightarrow> cstr m p (unat n) = cstr m q (unat n)"
  by (simp add: strncmp_def strncmp_loop_zero)

text \<open>\<^verbatim>\<open>strlen\<close> returns the index of the first NUL whenever there is one.\<close>

lemma strlen_first_nul:
  assumes "m (s + of_nat n) = 0" and "\<And>i. i < n \<Longrightarrow> m (s + of_nat i) \<noteq> 0"
  shows "strlen m s = Some n"
  using strlen_from_SomeI [of m s 0 n] assms by (simp add: strlen_def)

end
