(* ===== verification/Kalloc.thy ===== *)
theory Kalloc
  imports Mem
begin

section \<open>The physical page allocator (kernel/kalloc.c)\<close>

text \<open>
  Free pages form a singly linked list threaded through the pages themselves: the first
  eight bytes of a free page hold the address of the next one (\<^verbatim>\<open>struct run\<close>).  The model
  keeps exactly that: the list lives in the byte memory, and \<^verbatim>\<open>kfree\<close> and \<^verbatim>\<open>kalloc\<close> fill
  pages with junk as the code does.  The addresses of the linker symbols are fields of the
  state that no operation changes.  Each routine runs under \<^verbatim>\<open>kmem.lock\<close> and is one atomic
  step.
\<close>

record machine =
  ram :: mem
  kend :: addr        \<comment> \<open>linker symbol \<^verbatim>\<open>end\<close>\<close>
  etext :: addr       \<comment> \<open>linker symbol \<^verbatim>\<open>etext\<close>\<close>
  trampoline :: addr  \<comment> \<open>address of the code in \<^verbatim>\<open>trampoline.S\<close>\<close>

record kmem = machine +
  freelist :: addr

definition kfree :: "addr \<Rightarrow> ('z kmem_scheme, unit) K" where
  "kfree pa =
     bindK (getsK kend) (\<lambda>end.
     if pa mod PGSIZE \<noteq> 0 \<or> pa < end \<or> PHYSTOP \<le> pa then panic ''kfree''
     else
       thenK (modifyK (\<lambda>s. s\<lparr>ram := memset (ram s) pa 1 4096\<rparr>))
       (thenK (modifyK (\<lambda>s. s\<lparr>ram := write64 (ram s) pa (freelist s)\<rparr>))
        (modifyK (\<lambda>s. s\<lparr>freelist := pa\<rparr>))))"

definition kalloc :: "('z kmem_scheme, addr) K" where
  "kalloc =
     bindK (getsK freelist) (\<lambda>r.
     thenK (whenK (r \<noteq> 0) (modifyK (\<lambda>s. s\<lparr>freelist := read64 (ram s) r\<rparr>)))
     (thenK (whenK (r \<noteq> 0) (modifyK (\<lambda>s. s\<lparr>ram := memset (ram s) r 5 4096\<rparr>)))
      (returnK r)))"

text \<open>
  \<^verbatim>\<open>for(; p + PGSIZE <= pa_end; p += PGSIZE) kfree(p);\<close>  Pointer arithmetic beyond the end
  of the address space has no meaning in C; the loop ends there.
\<close>

function freerange_loop :: "addr \<Rightarrow> addr \<Rightarrow> ('z kmem_scheme, unit) K" where
  "freerange_loop p pa_end =
     (if p + PGSIZE \<le> pa_end \<and> p < p + PGSIZE
      then thenK (kfree p) (freerange_loop (p + PGSIZE) pa_end)
      else returnK ())"
  by pat_completeness auto
termination
  by (relation "measure (\<lambda>(p, e). 2 ^ 64 - unat p)")
     (use unat_less_pow(4) in \<open>auto simp: word_less_nat_alt intro: diff_less_mono2\<close>)

declare freerange_loop.simps [simp del]

definition freerange :: "addr \<Rightarrow> addr \<Rightarrow> ('z kmem_scheme, unit) K" where
  "freerange pa_start pa_end = freerange_loop (PGROUNDUP pa_start) pa_end"

definition kinit :: "('z kmem_scheme, unit) K" where
  "kinit = bindK (getsK kend) (\<lambda>end. freerange end PHYSTOP)"

subsection \<open>Pages and memory\<close>

lemma other_page:
  assumes "page_aligned p" "page_aligned q" "p \<noteq> q" "i < 4096"
  shows "\<not> unat (q + of_nat i - p) < 4096"
proof
  assume less: "unat (q + of_nat i - p) < 4096"
  have "q + of_nat i = p + of_nat (unat (q + of_nat i - p))" by simp
  then have "q = p \<and> i = unat (q + of_nat i - p)"
    by (rule page_offset_unique [OF assms(2,1,4) less])
  with assms(3) show False by simp
qed

lemma read64_memset_other:
  assumes "page_aligned p" "page_aligned q" "p \<noteq> q" "i < 512"
  shows "read64 (memset m p c 4096) (q + of_nat (8 * i)) = read64 m (q + of_nat (8 * i))"
proof (rule read64_cong)
  fix k :: nat assume k: "k < 8"
  have "\<not> unat (q + of_nat (8 * i + k) - p) < 4096"
    using assms k by (intro other_page) simp_all
  then show "memset m p c 4096 (q + of_nat (8 * i) + of_nat k) = m (q + of_nat (8 * i) + of_nat k)"
    by (simp add: memset_spec add.assoc)
qed

lemma read64_write64_other:
  assumes "page_aligned p" "page_aligned q" "i < 512" "j < 512" "(p, i) \<noteq> (q, j)"
  shows "read64 (write64 m (p + of_nat (8 * i)) v) (q + of_nat (8 * j)) = read64 m (q + of_nat (8 * j))"
proof (rule read64_cong)
  fix k :: nat assume k: "k < 8"
  have "\<not> unat (q + of_nat (8 * j) + of_nat k - (p + of_nat (8 * i))) < 8"
  proof
    let ?d = "unat (q + of_nat (8 * j) + of_nat k - (p + of_nat (8 * i)))"
    assume d: "?d < 8"
    have "q + of_nat (8 * j) + of_nat k = p + of_nat (8 * i) + of_nat ?d" by simp
    then have "q + of_nat (8 * j + k) = p + of_nat (8 * i + ?d)"
      by (simp only: of_nat_add add.assoc)
    then have "q = p \<and> 8 * j + k = 8 * i + ?d"
      by (rule page_offset_unique [OF assms(2,1), rotated 2]) (use k d assms in simp_all)
    with d k assms(5) show False by auto
  qed
  then show "write64 m (p + of_nat (8 * i)) v (q + of_nat (8 * j) + of_nat k) =
      m (q + of_nat (8 * j) + of_nat k)"
    by (rule write64_other)
qed

lemma write64_other_page:
  assumes "page_aligned p" "page_aligned q" "p \<noteq> q" "i < 4096" "j < 512"
  shows "write64 m (p + of_nat (8 * j)) v (q + of_nat i) = m (q + of_nat i)"
proof (rule write64_other)
  show "\<not> unat (q + of_nat i - (p + of_nat (8 * j))) < 8"
  proof
    let ?d = "unat (q + of_nat i - (p + of_nat (8 * j)))"
    assume d: "?d < 8"
    have "q + of_nat i = p + of_nat (8 * j) + of_nat ?d" by simp
    then have "q + of_nat i = p + of_nat (8 * j + ?d)" by (simp only: of_nat_add add.assoc)
    then have "q = p \<and> i = 8 * j + ?d"
      by (rule page_offset_unique [OF assms(2,1), rotated 2]) (use d assms in simp_all)
    with assms(3) show False by simp
  qed
qed

subsection \<open>The free list\<close>

primrec chain :: "mem \<Rightarrow> addr \<Rightarrow> addr list \<Rightarrow> bool" where
  "chain m p [] \<longleftrightarrow> p = 0"
| "chain m p (a # as) \<longleftrightarrow> p = a \<and> a \<noteq> 0 \<and> chain m (read64 m a) as"

lemma chain_unique: "chain m p as \<Longrightarrow> chain m p bs \<Longrightarrow> as = bs"
proof (induction as arbitrary: p bs)
  case Nil
  then show ?case by (cases bs) auto
next
  case (Cons a as)
  then show ?case by (cases bs) auto
qed

lemma chain_cong:
  "chain m p as \<Longrightarrow> (\<And>a. a \<in> set as \<Longrightarrow> read64 m' a = read64 m a) \<Longrightarrow> chain m' p as"
  by (induction as arbitrary: p) auto

definition good_page :: "'z kmem_scheme \<Rightarrow> addr \<Rightarrow> bool" where
  "good_page s a \<longleftrightarrow> page_aligned a \<and> kend s \<le> a \<and> a < PHYSTOP"

definition kmem_inv :: "'z kmem_scheme \<Rightarrow> addr list \<Rightarrow> bool" where
  "kmem_inv s fl \<longleftrightarrow> chain (ram s) (freelist s) fl \<and> distinct fl \<and>
     (\<forall>a \<in> set fl. good_page s a) \<and> 0 < kend s"

definition free_pages :: "'z kmem_scheme \<Rightarrow> addr set" where
  "free_pages s = {a. \<exists>fl. chain (ram s) (freelist s) fl \<and> a \<in> set fl}"

definition kmem_ok :: "'z kmem_scheme \<Rightarrow> bool" where
  "kmem_ok s \<longleftrightarrow> (\<exists>fl. kmem_inv s fl)"

lemma free_pages_inv: "kmem_inv s fl \<Longrightarrow> free_pages s = set fl"
  using chain_unique by (auto simp: free_pages_def kmem_inv_def)

lemma good_page_nonzero: "0 < kend s \<Longrightarrow> good_page s a \<Longrightarrow> a \<noteq> 0"
  by (auto simp: good_page_def)

lemma kmem_ok_good: "kmem_ok s \<Longrightarrow> a \<in> free_pages s \<Longrightarrow> good_page s a"
  by (auto simp: kmem_ok_def free_pages_inv kmem_inv_def)

lemma good_page_aligned: "good_page s a \<Longrightarrow> page_aligned a"
  by (simp add: good_page_def)

lemma kfree_run:
  assumes "good_page s pa"
  shows "kfree pa s =
    Inr ((), s\<lparr>ram := write64 (memset (ram s) pa 1 4096) pa (freelist s), freelist := pa\<rparr>)"
  using assms
  by (simp add: kfree_def run_simps good_page_def page_aligned_def not_less not_le)

lemma kfree_panic:
  assumes "\<not> good_page s pa"
  shows "kfree pa s = Inl (Panic ''kfree'')"
  using assms by (auto simp: kfree_def run_simps good_page_def page_aligned_def not_less not_le)

lemma kmem_inv_kfree:
  assumes inv: "kmem_inv s fl" and good: "good_page s pa" and new: "pa \<notin> set fl"
  shows "kmem_inv (s\<lparr>ram := write64 (memset (ram s) pa 1 4096) pa (freelist s), freelist := pa\<rparr>)
    (pa # fl)"
proof -
  let ?m = "write64 (memset (ram s) pa 1 4096) pa (freelist s)"
  have "chain ?m (freelist s) fl"
  proof (rule chain_cong)
    show "chain (ram s) (freelist s) fl" using inv by (simp add: kmem_inv_def)
    fix a assume a: "a \<in> set fl"
    then have ne: "pa \<noteq> a" and al: "page_aligned a" "page_aligned pa"
      using inv new good by (auto simp: kmem_inv_def good_page_def)
    have "read64 ?m a = read64 (memset (ram s) pa 1 4096) a"
      using read64_write64_other [OF al(2,1), of 0 0] ne by simp
    also have "\<dots> = read64 (ram s) a"
      using read64_memset_other [OF al(2,1) ne, of 0] by simp
    finally show "read64 ?m a = read64 (ram s) a" .
  qed
  with assms show ?thesis by (auto simp: kmem_inv_def good_page_def)
qed

lemma kalloc_run_empty: "kmem_inv s [] \<Longrightarrow> kalloc s = Inr (0, s)"
  by (simp add: kmem_inv_def kalloc_def run_simps)

lemma kalloc_run:
  assumes "kmem_inv s (p # fl)"
  shows "kalloc s = Inr (p, s\<lparr>freelist := read64 (ram s) p, ram := memset (ram s) p 5 4096\<rparr>)"
  using assms by (simp add: kmem_inv_def kalloc_def run_simps)

lemma kmem_inv_kalloc:
  assumes inv: "kmem_inv s (p # fl)"
  shows "kmem_inv (s\<lparr>freelist := read64 (ram s) p, ram := memset (ram s) p 5 4096\<rparr>) fl"
proof -
  have "chain (memset (ram s) p 5 4096) (read64 (ram s) p) fl"
  proof (rule chain_cong)
    show "chain (ram s) (read64 (ram s) p) fl" using inv by (simp add: kmem_inv_def)
    fix a assume "a \<in> set fl"
    then have "p \<noteq> a" "page_aligned a" "page_aligned p"
      using inv by (auto simp: kmem_inv_def good_page_def)
    then show "read64 (memset (ram s) p 5 4096) a = read64 (ram s) a"
      using read64_memset_other [of p a 0] by simp
  qed
  with inv show ?thesis by (auto simp: kmem_inv_def good_page_def)
qed

subsection \<open>The allocator's contract\<close>

text \<open>
  What clients rely on.  \<open>pages\<close> is the set of free pages, \<open>valid\<close> the pages the allocator
  manages.  An allocation takes one page out of the set, or reports 0 when it is empty; a
  page that is valid and not free can be given back.
\<close>

primrec alloc_many :: "('s, addr) K \<Rightarrow> nat \<Rightarrow> ('s, addr list) K" where
  "alloc_many alloc 0 = returnK []"
| "alloc_many alloc (Suc k) =
     bindK alloc (\<lambda>p. bindK (alloc_many alloc k) (\<lambda>ps. returnK (p # ps)))"

locale page_allocator =
  fixes alloc :: "('s, addr) K"
    and free :: "addr \<Rightarrow> ('s, unit) K"
    and pages :: "'s \<Rightarrow> addr set"
    and valid :: "'s \<Rightarrow> addr \<Rightarrow> bool"
    and invar :: "'s \<Rightarrow> bool"
  assumes alloc_some: "invar s \<Longrightarrow> pages s \<noteq> {} \<Longrightarrow>
      \<exists>p s'. alloc s = Inr (p, s') \<and> p \<in> pages s \<and> pages s' = pages s - {p} \<and> invar s' \<and>
        valid s' = valid s"
    and alloc_none: "invar s \<Longrightarrow> pages s = {} \<Longrightarrow> alloc s = Inr (0, s)"
    and free_valid: "invar s \<Longrightarrow> valid s p \<Longrightarrow> p \<notin> pages s \<Longrightarrow>
      \<exists>s'. free p s = Inr ((), s') \<and> pages s' = insert p (pages s) \<and> invar s' \<and>
        valid s' = valid s"
    and pages_valid: "invar s \<Longrightarrow> p \<in> pages s \<Longrightarrow> valid s p"
    and pages_finite: "invar s \<Longrightarrow> finite (pages s)"
begin

lemma alloc_many_distinct:
  assumes "invar s" and "k \<le> card (pages s)"
  shows "\<exists>ps s'. alloc_many alloc k s = Inr (ps, s') \<and> length ps = k \<and> distinct ps \<and>
    set ps \<subseteq> pages s \<and> pages s' = pages s - set ps \<and> invar s' \<and> valid s' = valid s"
  using assms
proof (induction k arbitrary: s)
  case 0
  then show ?case by (simp add: run_simps)
next
  case (Suc k)
  then have ne: "pages s \<noteq> {}" by auto
  obtain p s1 where p: "alloc s = Inr (p, s1)" "p \<in> pages s" "pages s1 = pages s - {p}"
      "invar s1" "valid s1 = valid s"
    using alloc_some [OF Suc.prems(1) ne] by blast
  have "card (pages s1) = card (pages s) - 1"
    using p(2,3) pages_finite [OF Suc.prems(1)] by simp
  then have "k \<le> card (pages s1)" using Suc.prems(2) by simp
  from Suc.IH [OF p(4) this] obtain ps s' where "alloc_many alloc k s1 = Inr (ps, s')"
      "length ps = k" "distinct ps" "set ps \<subseteq> pages s1" "pages s' = pages s1 - set ps"
      "invar s'" "valid s' = valid s1" by blast
  with p show ?case by (auto simp: run_simps)
qed

lemma alloc_free_restores:
  assumes "invar s" and "pages s \<noteq> {}"
  shows "\<exists>s'. bindK alloc free s = Inr ((), s') \<and> pages s' = pages s \<and> invar s'"
proof -
  obtain p s1 where p: "alloc s = Inr (p, s1)" "p \<in> pages s" "pages s1 = pages s - {p}"
      "invar s1" "valid s1 = valid s"
    using alloc_some [OF assms] by blast
  then have "valid s1 p" "p \<notin> pages s1" using pages_valid [OF assms(1)] by auto
  from free_valid [OF p(4) this] p show ?thesis by (auto simp: run_simps insert_absorb)
qed

end

lemma kmem_ok_pages:
  assumes "kmem_ok s"
  obtains fl where "kmem_inv s fl" "free_pages s = set fl"
  using assms by (auto simp: kmem_ok_def free_pages_inv)

lemma good_page_upd [simp]:
  "good_page (s\<lparr>ram := m\<rparr>) = good_page s" "good_page (s\<lparr>freelist := f\<rparr>) = good_page s"
  by (simp_all add: fun_eq_iff good_page_def)

interpretation kpages: page_allocator
  "kalloc :: ('z kmem_scheme, addr) K" kfree free_pages good_page kmem_ok
proof unfold_locales
  fix s :: "'z kmem_scheme" assume ok: "kmem_ok s" and ne: "free_pages s \<noteq> {}"
  obtain fl where fl: "kmem_inv s fl" "free_pages s = set fl" using ok by (rule kmem_ok_pages)
  with ne obtain p ps where ps: "fl = p # ps" by (cases fl) auto
  let ?s = "s\<lparr>freelist := read64 (ram s) p, ram := memset (ram s) p 5 4096\<rparr>"
  have "kmem_inv ?s ps" using fl ps kmem_inv_kalloc by simp
  moreover have "distinct fl" using fl by (simp add: kmem_inv_def)
  ultimately show "\<exists>p s'. kalloc s = Inr (p, s') \<and> p \<in> free_pages s \<and>
      free_pages s' = free_pages s - {p} \<and> kmem_ok s' \<and> good_page s' = good_page s"
    using fl ps kalloc_run [of s p ps]
    by (auto simp: free_pages_inv kmem_ok_def intro!: exI [of _ p] exI [of _ ?s])
next
  fix s :: "'z kmem_scheme" assume "kmem_ok s" and "free_pages s = {}"
  then show "kalloc s = Inr (0, s)"
    using kalloc_run_empty by (auto elim!: kmem_ok_pages)
next
  fix s :: "'z kmem_scheme" and p
  assume ok: "kmem_ok s" and good: "good_page s p" and new: "p \<notin> free_pages s"
  obtain fl where fl: "kmem_inv s fl" "free_pages s = set fl" using ok by (rule kmem_ok_pages)
  let ?s = "s\<lparr>ram := write64 (memset (ram s) p 1 4096) p (freelist s), freelist := p\<rparr>"
  have "kmem_inv ?s (p # fl)" using kmem_inv_kfree fl good new by simp
  then show "\<exists>s'. kfree p s = Inr ((), s') \<and> free_pages s' = insert p (free_pages s) \<and>
      kmem_ok s' \<and> good_page s' = good_page s"
    using fl kfree_run [OF good] by (auto simp: free_pages_inv kmem_ok_def)
next
  show "good_page s p" if "kmem_ok s" "p \<in> free_pages s" for s :: "'z kmem_scheme" and p
    using that by (rule kmem_ok_good)
  show "finite (free_pages s)" if "kmem_ok s" for s :: "'z kmem_scheme"
    using that by (auto elim!: kmem_ok_pages)
qed

subsection \<open>Building the free list at boot\<close>

lemma page_aligned_next:
  assumes "page_aligned p" "page_aligned a" "p < a"
  shows "p + 4096 \<le> a \<and> p < p + 4096 \<and> unat (p + 4096) = unat p + 4096"
proof -
  obtain i j where ij: "unat p = 4096 * i" "unat a = 4096 * j"
    using assms(1,2) by (auto simp: page_aligned_nat elim!: dvdE)
  then have "i < j" using assms(3) by (simp add: word_less_nat_alt)
  then have le: "unat p + 4096 \<le> unat a" using ij by simp
  moreover have "unat (p + 4096) = unat p + 4096"
    using le unat_less_pow(4) [of a] by (simp add: unat_word_ariths)
  ultimately show ?thesis by (simp add: word_le_nat_alt word_less_nat_alt)
qed

lemma page_aligned_PHYSTOP: "page_aligned PHYSTOP"
  by (simp add: page_aligned_def PHYSTOP_val)

lemma freerange_loop_spec:
  fixes s :: "'z kmem_scheme"
  assumes "page_aligned p" "p \<le> PHYSTOP" "kend s \<le> p"
    and "kmem_inv s fl" "\<forall>a \<in> set fl. a < p"
  shows "\<exists>s'. freerange_loop p PHYSTOP s = Inr ((), s') \<and> kmem_ok s' \<and> kend s' = kend s \<and>
    free_pages s' = set fl \<union> {a. page_aligned a \<and> p \<le> a \<and> a < PHYSTOP}"
  using assms
proof (induction "unat PHYSTOP - unat p" arbitrary: p s fl rule: less_induct)
  case less
  show ?case
  proof (cases "p < PHYSTOP")
    case True
    note nx = page_aligned_next [OF less.prems(1) page_aligned_PHYSTOP True]
    have good: "good_page s p" using True less.prems by (simp add: good_page_def)
    have new: "p \<notin> set fl" using less.prems(5) by auto
    let ?s = "s\<lparr>ram := write64 (memset (ram s) p 1 4096) p (freelist s), freelist := p\<rparr>"
    have "\<exists>s'. freerange_loop (p + 4096) PHYSTOP ?s = Inr ((), s') \<and> kmem_ok s' \<and>
      kend s' = kend ?s \<and>
      free_pages s' = set (p # fl) \<union> {a. page_aligned a \<and> p + 4096 \<le> a \<and> a < PHYSTOP}"
    proof (rule less.hyps)
      show "unat PHYSTOP - unat (p + 4096) < unat PHYSTOP - unat p"
        using nx True by (simp add: word_less_nat_alt)
      show "kmem_inv ?s (p # fl)" by (rule kmem_inv_kfree [OF less.prems(4) good new])
      show "\<forall>a \<in> set (p # fl). a < p + 4096" using nx less.prems(5) by auto
    qed (use less.prems nx in auto)
    moreover have "freerange_loop p PHYSTOP s = freerange_loop (p + 4096) PHYSTOP ?s"
      using nx kfree_run [OF good] by (subst freerange_loop.simps) (simp add: run_simps)
    moreover have "{a. page_aligned a \<and> p \<le> a \<and> a < PHYSTOP} =
        insert p {a. page_aligned a \<and> p + 4096 \<le> a \<and> a < PHYSTOP}"
      using True less.prems(1) nx page_aligned_next [OF less.prems(1)]
      by (auto simp: order_le_less intro: order_less_trans)
    ultimately show ?thesis by auto
  next
    case False
    then have p: "p = PHYSTOP" using less.prems(2) by simp
    have "freerange_loop p PHYSTOP s = Inr ((), s)"
      using p by (subst freerange_loop.simps) (simp add: run_simps PHYSTOP_val)
    then show ?thesis
      using less.prems(4) p free_pages_inv by (auto simp: kmem_ok_def)
  qed
qed

subsection \<open>Clients of the allocator\<close>

text \<open>
  The kernel as a client: it holds a set of pages it was given, asks for more, and gives
  back pages it holds.  A state pairs the machine with the pages held.
\<close>

inductive page_step :: "'z kmem_scheme \<times> addr set \<Rightarrow> 'z kmem_scheme \<times> addr set \<Rightarrow> bool" where
  take_page: "kalloc s = Inr (p, s') \<Longrightarrow> p \<noteq> 0 \<Longrightarrow> page_step (s, held) (s', insert p held)"
| out_of_memory: "kalloc s = Inr (p, s') \<Longrightarrow> p = 0 \<Longrightarrow> page_step (s, held) (s', held)"
| give_back: "p \<in> held \<Longrightarrow> kfree p s = Inr ((), s') \<Longrightarrow> page_step (s, held) (s', held - {p})"

definition pages_split :: "addr set \<Rightarrow> 'z kmem_scheme \<times> addr set \<Rightarrow> bool" where
  "pages_split all = (\<lambda>(s, held). kmem_ok s \<and> free_pages s \<inter> held = {} \<and>
     free_pages s \<union> held = all \<and> (\<forall>p \<in> held. good_page s p))"

lemma kmem_ok_not_zero: "kmem_ok s \<Longrightarrow> p \<in> free_pages s \<Longrightarrow> p \<noteq> 0"
  by (metis kmem_ok_good kmem_ok_def kmem_inv_def good_page_nonzero)

lemma page_step_split: "page_step x y \<Longrightarrow> pages_split all x \<Longrightarrow> pages_split all y"
proof (induction rule: page_step.induct)
  case (take_page s p s' held)
  then have ok: "kmem_ok s" by (simp add: pages_split_def)
  show ?case
  proof (cases "free_pages s = {}")
    case True
    with kpages.alloc_none [OF ok] take_page show ?thesis by simp
  next
    case False
    from kpages.alloc_some [OF ok False] take_page kmem_ok_good [OF ok] show ?thesis
      by (auto simp: pages_split_def)
  qed
next
  case (out_of_memory s p s' held)
  then have ok: "kmem_ok s" by (simp add: pages_split_def)
  show ?case
  proof (cases "free_pages s = {}")
    case True
    with kpages.alloc_none [OF ok] out_of_memory show ?thesis by simp
  next
    case False
    from kpages.alloc_some [OF ok False] out_of_memory kmem_ok_not_zero [OF ok] show ?thesis
      by auto
  qed
next
  case (give_back p held s s')
  then have "kmem_ok s" "good_page s p" "p \<notin> free_pages s" by (auto simp: pages_split_def)
  from kpages.free_valid [OF this] give_back show ?case by (auto simp: pages_split_def)
qed

inductive page_run :: "'z kmem_scheme \<times> addr set \<Rightarrow> 'z kmem_scheme \<times> addr set \<Rightarrow> bool" where
  start: "page_run x x"
| more: "page_run x y \<Longrightarrow> page_step y z \<Longrightarrow> page_run x z"

lemma page_run_split: "page_run x y \<Longrightarrow> pages_split all x \<Longrightarrow> pages_split all y"
  by (induction rule: page_run.induct) (auto intro: page_step_split)

subsection \<open>Properties\<close>

text \<open>A small machine for the witnesses: the kernel ends two pages below \<^const>\<open>PHYSTOP\<close>.\<close>

definition boot_machine :: kmem where
  "boot_machine = \<lparr>ram = (\<lambda>_. 0), kend = 0x87FFE000, etext = 0x80008000,
     trampoline = 0x80007000, freelist = 0\<rparr>"

lemma one_free_page: "kmem_inv (boot_machine\<lparr>freelist := 0x87FFE000\<rparr>) [0x87FFE000]"
proof -
  have "read64 (\<lambda>_. 0) 0x87FFE000 = 0"
    by (rule bit_word_eqI) (simp add: read64_def bit_le_word)
  then show ?thesis
    by (simp add: kmem_inv_def boot_machine_def good_page_def page_aligned_def PHYSTOP_val)
qed

text \<open>
  \<^verbatim>\<open>kinit\<close> terminates without a panic and leaves exactly the whole pages between the
  end of the kernel image and \<^verbatim>\<open>PHYSTOP\<close> on a well-formed free list.
\<close>

lemma kinit_frees_all_pages:
  assumes "0 < kend s" and "kend s \<le> PHYSTOP" and "freelist s = 0"
  shows "\<exists>s'. kinit s = Inr ((), s') \<and> kmem_ok s' \<and>
    free_pages s' = {a. page_aligned a \<and> kend s \<le> a \<and> a < PHYSTOP}"
proof -
  have "unat (kend s) \<le> unat PHYSTOP" using assms(2) by (simp add: word_le_nat_alt)
  then have b: "unat (kend s) \<le> 0x88000000" by (simp add: PHYSTOP_val)
  have up: "unat (PGROUNDUP (kend s)) = (unat (kend s) + 4095) div 4096 * 4096"
    using b by (intro unat_PGROUNDUP) simp
  have le: "kend s \<le> PGROUNDUP (kend s)" "PGROUNDUP (kend s) \<le> PHYSTOP"
    using b up by (simp_all add: word_le_nat_alt PHYSTOP_val)
  have same: "page_aligned a \<and> PGROUNDUP (kend s) \<le> a \<longleftrightarrow> page_aligned a \<and> kend s \<le> a" for a
  proof
    assume a: "page_aligned a \<and> kend s \<le> a"
    then obtain k where k: "unat a = 4096 * k" by (auto simp: page_aligned_nat elim!: dvdE)
    with a up show "page_aligned a \<and> PGROUNDUP (kend s) \<le> a"
      by (simp add: word_le_nat_alt) linarith
  qed (use le in auto)
  have "kmem_inv s []" using assms by (simp add: kmem_inv_def)
  from freerange_loop_spec [OF PGROUNDUP_aligned le(2,1) this]
  obtain s' where s': "freerange_loop (PGROUNDUP (kend s)) PHYSTOP s = Inr ((), s')" "kmem_ok s'"
    "free_pages s' = {a. page_aligned a \<and> PGROUNDUP (kend s) \<le> a \<and> a < PHYSTOP}"
    by auto
  moreover have "{a. page_aligned a \<and> PGROUNDUP (kend s) \<le> a \<and> a < PHYSTOP} =
      {a. page_aligned a \<and> kend s \<le> a \<and> a < PHYSTOP}" using same by blast
  ultimately show ?thesis by (simp add: kinit_def freerange_def run_simps)
qed

text \<open>
  C40: no page is ever handed out twice and none is lost.  In every sequence of allocations
  and frees by a client that only frees pages it holds, the free pages and the held pages
  stay disjoint and together remain the initial set; so \<^verbatim>\<open>kalloc\<close> never returns a page that
  is in use.
\<close>

theorem pages_never_shared:
  assumes "page_run (s, {}) (s', held)" and "kmem_ok s"
  shows "free_pages s' \<inter> held = {} \<and> free_pages s' \<union> held = free_pages s \<and> kmem_ok s' \<and>
    (\<forall>p s''. kalloc s' = Inr (p, s'') \<longrightarrow> p \<notin> held \<or> p = 0)"
proof -
  have split: "pages_split (free_pages s) (s', held)"
    by (rule page_run_split [OF assms(1)]) (use assms(2) in \<open>simp add: pages_split_def\<close>)
  then have ok: "kmem_ok s'" by (simp add: pages_split_def)
  have "p \<notin> held \<or> p = 0" if "kalloc s' = Inr (p, s'')" for p s''
  proof (cases "free_pages s' = {}")
    case True
    with kpages.alloc_none [OF ok] that show ?thesis by simp
  next
    case False
    with kpages.alloc_some [OF ok False] that split show ?thesis by (auto simp: pages_split_def)
  qed
  with split show ?thesis by (simp add: pages_split_def)
qed

theorem pages_never_shared_witness:
  "\<exists>s'. page_run (boot_machine\<lparr>freelist := 0x87FFE000\<rparr>, {}) (s', {0x87FFE000}) \<and>
     free_pages s' \<inter> {0x87FFE000} = {} \<and> kmem_ok s'"
proof -
  let ?s = "boot_machine\<lparr>freelist := 0x87FFE000\<rparr>"
  obtain s' where s': "kalloc ?s = Inr (0x87FFE000, s')"
    using kalloc_run [OF one_free_page] by blast
  have run: "page_run (?s, {}) (s', {0x87FFE000})"
    by (rule page_run.more [OF page_run.start]) (rule page_step.take_page [OF s'], simp)
  have "kmem_ok ?s" using one_free_page by (auto simp: kmem_ok_def)
  from pages_never_shared [OF run this] run show ?thesis by blast
qed

text \<open>
  Allocations are independent.  Whenever \<open>k\<close> pages are free, \<open>k\<close> successive calls of
  \<^verbatim>\<open>kalloc\<close> succeed and return \<open>k\<close> different pages, all of them previously free.
\<close>

lemma kalloc_many_distinct:
  assumes "kmem_ok s" and "k \<le> card (free_pages s)"
  shows "\<exists>ps s'. alloc_many kalloc k s = Inr (ps, s') \<and> length ps = k \<and> distinct ps \<and>
    set ps \<subseteq> free_pages s \<and> free_pages s' = free_pages s - set ps \<and> kmem_ok s'"
  using kpages.alloc_many_distinct [OF assms] by blast

end
