(* ===== verification/Vm.thy ===== *)
theory Vm
  imports Kalloc
begin

unbundle bit_operations_syntax

section \<open>Virtual memory (kernel/vm.c)\<close>

text \<open>
  Page tables live in the byte memory, as in the machine: a page table is the address of a
  page of 512 entries of eight bytes.  The state adds the fields of the current process
  (\<^verbatim>\<open>struct proc\<close> of \<^verbatim>\<open>kernel/proc.h\<close>) that kernel code outside \<^verbatim>\<open>proc.c\<close> reads, and the list of
  the channels that \<^verbatim>\<open>wakeup\<close> was called on; what a wakeup does to sleeping processes is
  modelled with the scheduler in \<open>Proc\<close>.  A kernel buffer that a routine
  copies from or to is a list of bytes: an argument of \<^verbatim>\<open>copyout\<close>, a result of \<^verbatim>\<open>copyin\<close>.
  C's null pointer is the address 0.
\<close>

text \<open>A sleep channel: an address, named by the variable and the object it belongs to.\<close>

type_synonym chan = "string \<times> nat"

record vm = kmem +
  p_pagetable :: addr  \<comment> \<open>\<^verbatim>\<open>myproc()->pagetable\<close>\<close>
  p_sz :: u64          \<comment> \<open>\<^verbatim>\<open>myproc()->sz\<close>\<close>
  p_pid :: int         \<comment> \<open>\<^verbatim>\<open>myproc()->pid\<close>\<close>
  p_killed :: bool     \<comment> \<open>\<^verbatim>\<open>myproc()->killed\<close>\<close>
  wakeups :: "chan list"  \<comment> \<open>history: the calls of \<^verbatim>\<open>wakeup\<close> so far\<close>

text \<open>The address of entry \<open>i\<close> of the table at \<open>pt\<close>: \<^verbatim>\<open>&pagetable[i]\<close>.\<close>

definition pte_slot :: "addr \<Rightarrow> nat \<Rightarrow> addr" where
  "pte_slot pt i = pt + of_nat (8 * i)"

definition px :: "nat \<Rightarrow> u64 \<Rightarrow> nat" where
  "px level va = unat (PX level va)"

definition get_pte :: "addr \<Rightarrow> ('z kmem_scheme, u64) K" where
  "get_pte a = getsK (\<lambda>s. read64 (ram s) a)"

definition set_pte :: "addr \<Rightarrow> u64 \<Rightarrow> ('z kmem_scheme, unit) K" where
  "set_pte a v = modifyK (\<lambda>s. s\<lparr>ram := write64 (ram s) a v\<rparr>)"

definition memsetK :: "addr \<Rightarrow> u32 \<Rightarrow> u32 \<Rightarrow> ('z kmem_scheme, unit) K" where
  "memsetK a c n = modifyK (\<lambda>s. s\<lparr>ram := memset (ram s) a c n\<rparr>)"

definition wakeup :: "chan \<Rightarrow> ('z vm_scheme, unit) K" where
  "wakeup c = modifyK (\<lambda>s. s\<lparr>wakeups := wakeups s @ [c]\<rparr>)"

definition killed :: "('z vm_scheme, bool) K" where
  "killed = getsK p_killed"

subsection \<open>Walking and filling page tables\<close>

text \<open>The loop of \<^verbatim>\<open>walk\<close> over the levels 2 and 1; at level 0 the entry's address is returned.\<close>

primrec walk_from :: "nat \<Rightarrow> addr \<Rightarrow> u64 \<Rightarrow> bool \<Rightarrow> ('z kmem_scheme, addr) K" where
  "walk_from 0 pagetable va alloc = returnK (pte_slot pagetable (px 0 va))"
| "walk_from (Suc l) pagetable va alloc =
     (let pte = pte_slot pagetable (px (Suc l) va) in
      bindK (get_pte pte) (\<lambda>e.
      if e AND PTE_V \<noteq> 0 then walk_from l (PTE2PA e) va alloc
      else if \<not> alloc then returnK 0
      else bindK kalloc (\<lambda>p.
        if p = 0 then returnK 0
        else thenK (memsetK p 0 4096)
             (thenK (set_pte pte (PA2PTE p OR PTE_V))
              (walk_from l p va alloc)))))"

definition walk :: "addr \<Rightarrow> u64 \<Rightarrow> bool \<Rightarrow> ('z kmem_scheme, addr) K" where
  "walk pagetable va alloc =
     (if MAXVA \<le> va then panic ''walk'' else walk_from 2 pagetable va alloc)"

definition walkaddr :: "addr \<Rightarrow> u64 \<Rightarrow> ('z kmem_scheme, u64) K" where
  "walkaddr pagetable va =
     (if MAXVA \<le> va then returnK 0
      else bindK (walk pagetable va False) (\<lambda>pte.
        if pte = 0 then returnK 0
        else bindK (get_pte pte) (\<lambda>e.
          if e AND PTE_V = 0 then returnK 0
          else if e AND PTE_U = 0 then returnK 0
          else returnK (PTE2PA e))))"

text \<open>
  The loop of \<^verbatim>\<open>mappages\<close>.  It is entered with \<open>a\<close> and \<open>last\<close> page-aligned, so the distance
  to \<open>last\<close> is a multiple of the page size and the last branch is never taken.
\<close>

function mappages_loop :: "addr \<Rightarrow> u64 \<Rightarrow> u64 \<Rightarrow> u64 \<Rightarrow> u64 \<Rightarrow> ('z kmem_scheme, int) K" where
  "mappages_loop pagetable a lastp pa perm =
     bindK (walk pagetable a True) (\<lambda>pte.
     if pte = 0 then returnK (-1)
     else bindK (get_pte pte) (\<lambda>e.
       if e AND PTE_V \<noteq> 0 then panic ''mappages: remap''
       else thenK (set_pte pte (PA2PTE pa OR perm OR PTE_V))
         (if a = lastp then returnK 0
          else if PGSIZE \<le> lastp - a
          then mappages_loop pagetable (a + PGSIZE) lastp (pa + PGSIZE) perm
          else divergeK)))"
  by pat_completeness auto
termination
proof (relation "measure (\<lambda>(pagetable, a, lastp, pa, perm). unat (lastp - a))", simp)
  fix a lastp pagetable pa perm :: u64
  assume "PGSIZE \<le> lastp - a"
  then have "unat (lastp - a - 4096) = unat (lastp - a) - 4096" "4096 \<le> unat (lastp - a)"
    by (simp_all add: unat_sub word_le_nat_alt)
  then show "((pagetable, a + PGSIZE, lastp, pa + PGSIZE, perm), pagetable, a, lastp, pa, perm)
      \<in> measure (\<lambda>(pagetable, a, lastp, pa, perm). unat (lastp - a))"
    by (simp add: diff_diff_eq)
qed

declare mappages_loop.simps [simp del]

definition mappages :: "addr \<Rightarrow> u64 \<Rightarrow> u64 \<Rightarrow> u64 \<Rightarrow> u64 \<Rightarrow> ('z kmem_scheme, int) K" where
  "mappages pagetable va sz pa perm =
     (if va mod PGSIZE \<noteq> 0 then panic ''mappages: va not aligned''
      else if sz mod PGSIZE \<noteq> 0 then panic ''mappages: size not aligned''
      else if sz = 0 then panic ''mappages: size''
      else mappages_loop pagetable va (va + sz - PGSIZE) pa perm)"

definition kvmmap :: "addr \<Rightarrow> u64 \<Rightarrow> u64 \<Rightarrow> u64 \<Rightarrow> u64 \<Rightarrow> ('z kmem_scheme, unit) K" where
  "kvmmap kpgtbl va pa sz perm =
     bindK (mappages kpgtbl va sz pa perm) (\<lambda>r. if r \<noteq> 0 then panic ''kvmmap'' else returnK ())"

definition uvmcreate :: "('z kmem_scheme, addr) K" where
  "uvmcreate =
     bindK kalloc (\<lambda>pagetable.
     if pagetable = 0 then returnK 0
     else thenK (memsetK pagetable 0 4096) (returnK pagetable))"

text \<open>
  The loop of \<^verbatim>\<open>uvmunmap\<close>.  \<^verbatim>\<open>walk\<close> panics beyond \<^verbatim>\<open>MAXVA\<close>, so the address never wraps and the
  guard of the recursive call always holds.
\<close>

function uvmunmap_loop :: "addr \<Rightarrow> u64 \<Rightarrow> u64 \<Rightarrow> bool \<Rightarrow> ('z kmem_scheme, unit) K" where
  "uvmunmap_loop pagetable a lastp do_free =
     (if a < lastp then
        thenK
          (bindK (walk pagetable a False) (\<lambda>pte.
           if pte = 0 then returnK ()
           else bindK (get_pte pte) (\<lambda>e.
             if e AND PTE_V = 0 then returnK ()
             else thenK (whenK do_free (kfree (PTE2PA e))) (set_pte pte 0))))
          (if a < a + PGSIZE then uvmunmap_loop pagetable (a + PGSIZE) lastp do_free
           else divergeK)
      else returnK ())"
  by pat_completeness auto
termination
  by (relation "measure (\<lambda>(pagetable, a, lastp, do_free). 2 ^ 64 - unat a)")
     (use unat_less_pow(4) in \<open>auto simp: word_less_nat_alt intro: diff_less_mono2\<close>)

declare uvmunmap_loop.simps [simp del]

definition uvmunmap :: "addr \<Rightarrow> u64 \<Rightarrow> u64 \<Rightarrow> bool \<Rightarrow> ('z kmem_scheme, unit) K" where
  "uvmunmap pagetable va npages do_free =
     (if va mod PGSIZE \<noteq> 0 then panic ''uvmunmap: not aligned''
      else uvmunmap_loop pagetable va (va + npages * PGSIZE) do_free)"

text \<open>\<^verbatim>\<open>int npages\<close> in \<^verbatim>\<open>uvmdealloc\<close>: the page count passes through a signed 32-bit integer.\<close>

definition uvmdealloc :: "addr \<Rightarrow> u64 \<Rightarrow> u64 \<Rightarrow> ('z kmem_scheme, u64) K" where
  "uvmdealloc pagetable oldsz newsz =
     (if oldsz \<le> newsz then returnK oldsz
      else thenK
        (whenK (PGROUNDUP newsz < PGROUNDUP oldsz)
          (let npages = (ucast ((PGROUNDUP oldsz - PGROUNDUP newsz) div PGSIZE) :: u32) in
           uvmunmap pagetable (PGROUNDUP newsz) (scast npages) True))
        (returnK newsz))"

function uvmalloc_loop :: "addr \<Rightarrow> u64 \<Rightarrow> u64 \<Rightarrow> u64 \<Rightarrow> u64 \<Rightarrow> ('z kmem_scheme, u64) K" where
  "uvmalloc_loop pagetable a oldsz newsz xperm =
     (if a < newsz then
        bindK kalloc (\<lambda>mem.
        if mem = 0 then thenK (uvmdealloc pagetable a oldsz) (returnK 0)
        else thenK (memsetK mem 0 4096)
          (bindK (mappages pagetable a PGSIZE mem (PTE_R OR PTE_U OR xperm)) (\<lambda>r.
           if r \<noteq> 0 then
             thenK (kfree mem) (thenK (uvmdealloc pagetable a oldsz) (returnK 0))
           else if a < a + PGSIZE
           then uvmalloc_loop pagetable (a + PGSIZE) oldsz newsz xperm
           else divergeK)))
      else returnK newsz)"
  by pat_completeness auto
termination
  by (relation "measure (\<lambda>(pagetable, a, oldsz, newsz, xperm). 2 ^ 64 - unat a)")
     (use unat_less_pow(4) in \<open>auto simp: word_less_nat_alt intro: diff_less_mono2\<close>)

declare uvmalloc_loop.simps [simp del]

definition uvmalloc :: "addr \<Rightarrow> u64 \<Rightarrow> u64 \<Rightarrow> u64 \<Rightarrow> ('z kmem_scheme, u64) K" where
  "uvmalloc pagetable oldsz newsz xperm =
     (if newsz < oldsz then returnK oldsz
      else uvmalloc_loop pagetable (PGROUNDUP oldsz) (PGROUNDUP oldsz) newsz xperm)"

text \<open>
  \<^verbatim>\<open>freewalk\<close> recurses without a bound of its own; the fuel is the number of table levels
  that may be nested (three in Sv39).
\<close>

primrec freewalk_fuel :: "nat \<Rightarrow> addr \<Rightarrow> ('z kmem_scheme, unit) K" where
  "freewalk_fuel 0 pagetable = divergeK"
| "freewalk_fuel (Suc d) pagetable =
     thenK
       (forK [0..<512] (\<lambda>i.
          bindK (get_pte (pte_slot pagetable i)) (\<lambda>pte.
          if pte AND PTE_V \<noteq> 0 \<and> pte AND (PTE_R OR PTE_W OR PTE_X) = 0
          then thenK (freewalk_fuel d (PTE2PA pte)) (set_pte (pte_slot pagetable i) 0)
          else if pte AND PTE_V \<noteq> 0 then panic ''freewalk: leaf''
          else returnK ())))
       (kfree pagetable)"

definition freewalk :: "addr \<Rightarrow> ('z kmem_scheme, unit) K" where
  "freewalk pagetable = freewalk_fuel 3 pagetable"

definition uvmfree :: "addr \<Rightarrow> u64 \<Rightarrow> ('z kmem_scheme, unit) K" where
  "uvmfree pagetable sz =
     thenK (whenK (0 < sz) (uvmunmap pagetable 0 (PGROUNDUP sz div PGSIZE) True))
       (freewalk pagetable)"

function uvmcopy_loop :: "addr \<Rightarrow> addr \<Rightarrow> u64 \<Rightarrow> u64 \<Rightarrow> ('z kmem_scheme, int) K" where
  "uvmcopy_loop old new i sz =
     (if i < sz then
        let continue = (if i < i + PGSIZE then uvmcopy_loop old new (i + PGSIZE) sz else divergeK);
            err = thenK (uvmunmap new 0 (i div PGSIZE) True) (returnK (-1))
        in
        bindK (walk old i False) (\<lambda>pte.
        if pte = 0 then continue
        else bindK (get_pte pte) (\<lambda>e.
          if e AND PTE_V = 0 then continue
          else bindK kalloc (\<lambda>mem.
            if mem = 0 then err
            else
              thenK (modifyK (\<lambda>s. s\<lparr>ram := memmove (ram s) mem (PTE2PA e) 4096\<rparr>))
              (bindK (mappages new i PGSIZE mem (PTE_FLAGS e)) (\<lambda>r.
               if r \<noteq> 0 then thenK (kfree mem) err else continue)))))
      else returnK 0)"
  by pat_completeness auto
termination
  by (relation "measure (\<lambda>(old, new, i, sz). 2 ^ 64 - unat i)")
     (use unat_less_pow(4) in \<open>auto simp: word_less_nat_alt intro: diff_less_mono2\<close>)

declare uvmcopy_loop.simps [simp del]

definition uvmcopy :: "addr \<Rightarrow> addr \<Rightarrow> u64 \<Rightarrow> ('z kmem_scheme, int) K" where
  "uvmcopy old new sz = uvmcopy_loop old new 0 sz"

definition uvmclear :: "addr \<Rightarrow> u64 \<Rightarrow> ('z kmem_scheme, unit) K" where
  "uvmclear pagetable va =
     bindK (walk pagetable va False) (\<lambda>pte.
     if pte = 0 then panic ''uvmclear''
     else bindK (get_pte pte) (\<lambda>e. set_pte pte (e AND NOT PTE_U)))"

subsection \<open>Lazy allocation and copies between user and kernel space\<close>

definition ismapped :: "addr \<Rightarrow> u64 \<Rightarrow> ('z kmem_scheme, bool) K" where
  "ismapped pagetable va =
     bindK (walk pagetable va False) (\<lambda>pte.
     if pte = 0 then returnK False
     else bindK (get_pte pte) (\<lambda>e. returnK (e AND PTE_V \<noteq> 0)))"

definition vmfault :: "addr \<Rightarrow> u64 \<Rightarrow> ('z vm_scheme, u64) K" where
  "vmfault pagetable va =
     bindK (getsK p_sz) (\<lambda>sz.
     if sz \<le> va then returnK 0
     else bindK (ismapped pagetable (PGROUNDDOWN va)) (\<lambda>mapped.
     if mapped then returnK 0
     else bindK kalloc (\<lambda>mem.
     if mem = 0 then returnK 0
     else thenK (memsetK mem 0 4096)
       (bindK (getsK p_pagetable) (\<lambda>pt.
        bindK (mappages pt (PGROUNDDOWN va) PGSIZE mem (PTE_W OR PTE_U OR PTE_R)) (\<lambda>r.
        if r \<noteq> 0 then thenK (kfree mem) (returnK 0) else returnK mem))))))"

text \<open>The number of bytes that one round of a copy loop moves: to the end of the page, or all.\<close>

definition page_chunk :: "u64 \<Rightarrow> nat \<Rightarrow> nat" where
  "page_chunk va len = min (unat (PGSIZE - (va - PGROUNDDOWN va))) len"

lemma page_chunk_pos: "0 < len \<Longrightarrow> 0 < page_chunk va len"
proof -
  have "va - PGROUNDDOWN va = va mod 4096" by (simp add: PGROUNDDOWN_eq_sub)
  moreover have "va mod 4096 < 4096" by (simp add: word_mod_less_divisor)
  ultimately have "4096 - (va - PGROUNDDOWN va) \<noteq> 0" by auto
  then show "0 < len \<Longrightarrow> 0 < page_chunk va len" by (simp add: page_chunk_def unat_gt_0)
qed

function copyout :: "addr \<Rightarrow> u64 \<Rightarrow> byte list \<Rightarrow> ('z vm_scheme, int) K" where
  "copyout pagetable dstva src =
     (if src = [] then returnK 0
      else
        let va0 = PGROUNDDOWN dstva in
        if MAXVA \<le> va0 then returnK (-1)
        else
          bindK (walkaddr pagetable va0) (\<lambda>pa.
          bindK (if pa = 0 then vmfault pagetable va0 else returnK pa) (\<lambda>pa0.
          if pa0 = 0 then returnK (-1)
          else
            bindK (walk pagetable va0 False) (\<lambda>pte.
            bindK (get_pte pte) (\<lambda>e.
            if e AND PTE_W = 0 then returnK (-1)
            else
              let n = page_chunk dstva (length src) in
              thenK (modifyK (\<lambda>s. s\<lparr>ram := mem_put (ram s) (pa0 + (dstva - va0)) (take n src)\<rparr>))
                (copyout pagetable (va0 + PGSIZE) (drop n src)))))))"
  by pat_completeness auto
termination
  by (relation "measure (\<lambda>(pagetable, dstva, src). length src)")
     (auto simp: page_chunk_pos)

declare copyout.simps [simp del]

text \<open>\<^verbatim>\<open>copyin\<close> yields its return code and the bytes it has stored in the kernel buffer.\<close>

function copyin_loop :: "addr \<Rightarrow> u64 \<Rightarrow> nat \<Rightarrow> byte list \<Rightarrow> ('z vm_scheme, int \<times> byte list) K" where
  "copyin_loop pagetable srcva len dst =
     (if len = 0 then returnK (0, dst)
      else
        let va0 = PGROUNDDOWN srcva in
        bindK (walkaddr pagetable va0) (\<lambda>pa.
        bindK (if pa = 0 then vmfault pagetable va0 else returnK pa) (\<lambda>pa0.
        if pa0 = 0 then returnK (-1, dst)
        else
          let n = page_chunk srcva len in
          bindK (getsK (\<lambda>s. mem_bytes (ram s) (pa0 + (srcva - va0)) n)) (\<lambda>bs.
          copyin_loop pagetable (va0 + PGSIZE) (len - n) (dst @ bs)))))"
  by pat_completeness auto
termination
  by (relation "measure (\<lambda>(pagetable, srcva, len, dst). len)") (auto simp: page_chunk_pos)

declare copyin_loop.simps [simp del]

definition copyin :: "addr \<Rightarrow> u64 \<Rightarrow> nat \<Rightarrow> ('z vm_scheme, int \<times> byte list) K" where
  "copyin pagetable srcva len = copyin_loop pagetable srcva len []"

text \<open>
  \<^verbatim>\<open>copyinstr\<close>: within a page, copy up to a NUL; \<open>Inl\<close> the string when the NUL was found,
  \<open>Inr\<close> what was copied so far otherwise.
\<close>

fun copyinstr_page :: "byte list \<Rightarrow> byte list \<Rightarrow> byte list + byte list" where
  "copyinstr_page [] dst = Inr dst"
| "copyinstr_page (p # ps) dst = (if p = 0 then Inl (dst @ [0]) else copyinstr_page ps (dst @ [p]))"

function copyinstr_loop :: "addr \<Rightarrow> u64 \<Rightarrow> nat \<Rightarrow> byte list \<Rightarrow> ('z kmem_scheme, int \<times> byte list) K" where
  "copyinstr_loop pagetable srcva maxn dst =
     (if maxn = 0 then returnK (-1, dst)
      else
        let va0 = PGROUNDDOWN srcva in
        bindK (walkaddr pagetable va0) (\<lambda>pa0.
        if pa0 = 0 then returnK (-1, dst)
        else
          let n = page_chunk srcva maxn in
          bindK (getsK (\<lambda>s. mem_bytes (ram s) (pa0 + (srcva - va0)) n)) (\<lambda>bs.
          case copyinstr_page bs dst of
            Inl d \<Rightarrow> returnK (0, d)
          | Inr d \<Rightarrow> copyinstr_loop pagetable (va0 + PGSIZE) (maxn - n) d)))"
  by pat_completeness auto
termination
  by (relation "measure (\<lambda>(pagetable, srcva, maxn, dst). maxn)") (auto simp: page_chunk_pos)

declare copyinstr_loop.simps [simp del]

definition copyinstr :: "addr \<Rightarrow> u64 \<Rightarrow> nat \<Rightarrow> ('z kmem_scheme, int \<times> byte list) K" where
  "copyinstr pagetable srcva maxn = copyinstr_loop pagetable srcva maxn []"

text \<open>
  \<^verbatim>\<open>either_copyout\<close> and \<^verbatim>\<open>either_copyin\<close> of \<^verbatim>\<open>kernel/proc.c\<close>.  A kernel buffer is the list of the bytes
  stored in it so far, or the list of bytes read from, at offset \<open>off\<close>.
\<close>

definition either_copyout :: "bool \<Rightarrow> u64 \<Rightarrow> byte list \<Rightarrow> byte list \<Rightarrow> ('z vm_scheme, int \<times> byte list) K" where
  "either_copyout user_dst dst src kbuf =
     (if user_dst then
        bindK (getsK p_pagetable) (\<lambda>pagetable.
        bindK (copyout pagetable dst src) (\<lambda>r. returnK (r, kbuf)))
      else returnK (0, kbuf @ src))"

definition either_copyin :: "bool \<Rightarrow> u64 \<Rightarrow> byte list \<Rightarrow> nat \<Rightarrow> nat \<Rightarrow> ('z vm_scheme, int \<times> byte list) K" where
  "either_copyin user_src src kbuf off len =
     (if user_src then
        bindK (getsK p_pagetable) (\<lambda>pagetable. copyin pagetable (src + of_nat off) len)
      else returnK (0, take len (drop off kbuf)))"

subsection \<open>The kernel page table, and process page tables (kernel/proc.c)\<close>

definition proc_mapstacks :: "addr \<Rightarrow> ('z kmem_scheme, unit) K" where
  "proc_mapstacks kpgtbl =
     forK [0..<NPROC] (\<lambda>i.
       bindK kalloc (\<lambda>pa.
       if pa = 0 then panic ''kalloc''
       else kvmmap kpgtbl (KSTACK (of_nat i)) pa PGSIZE (PTE_R OR PTE_W)))"

definition kvmmake :: "('z kmem_scheme, addr) K" where
  "kvmmake =
     bindK kalloc (\<lambda>kpgtbl.
     thenK (memsetK kpgtbl 0 4096)
     (thenK (kvmmap kpgtbl UART0 UART0 PGSIZE (PTE_R OR PTE_W))
     (thenK (kvmmap kpgtbl VIRTIO0 VIRTIO0 PGSIZE (PTE_R OR PTE_W))
     (thenK (kvmmap kpgtbl PLIC PLIC 0x4000000 (PTE_R OR PTE_W))
     (bindK (getsK etext) (\<lambda>etext.
     (thenK (kvmmap kpgtbl KERNBASE KERNBASE (etext - KERNBASE) (PTE_R OR PTE_X))
     (thenK (kvmmap kpgtbl etext etext (PHYSTOP - etext) (PTE_R OR PTE_W))
     (bindK (getsK trampoline) (\<lambda>trampoline.
     (thenK (kvmmap kpgtbl TRAMPOLINE trampoline PGSIZE (PTE_R OR PTE_X))
     (thenK (proc_mapstacks kpgtbl)
     (returnK kpgtbl)))))))))))))"

text \<open>\<^verbatim>\<open>proc_pagetable(p)\<close> reads only the address of the process's trapframe page.\<close>

definition proc_pagetable :: "addr \<Rightarrow> ('z kmem_scheme, addr) K" where
  "proc_pagetable trapframe =
     bindK uvmcreate (\<lambda>pagetable.
     if pagetable = 0 then returnK 0
     else bindK (getsK trampoline) (\<lambda>trampoline.
       bindK (mappages pagetable TRAMPOLINE PGSIZE trampoline (PTE_R OR PTE_X)) (\<lambda>r1.
       if r1 < 0 then thenK (uvmfree pagetable 0) (returnK 0)
       else bindK (mappages pagetable TRAPFRAME PGSIZE trapframe (PTE_R OR PTE_W)) (\<lambda>r2.
         if r2 < 0 then
           thenK (uvmunmap pagetable TRAMPOLINE 1 False)
             (thenK (uvmfree pagetable 0) (returnK 0))
         else returnK pagetable))))"

definition proc_freepagetable :: "addr \<Rightarrow> u64 \<Rightarrow> ('z kmem_scheme, unit) K" where
  "proc_freepagetable pagetable sz =
     thenK (uvmunmap pagetable TRAMPOLINE 1 False)
       (thenK (uvmunmap pagetable TRAPFRAME 1 False)
         (uvmfree pagetable sz))"

end
