(* ===== verification/Vm_Tree.thy ===== *)
theory Vm_Tree
  imports Vm
begin

unbundle bit_operations_syntax

section \<open>Page tables as trees\<close>

text \<open>
  The reading of a page table as a partial function.  \<open>ptab m pt p\<close> follows the path of
  indices \<open>p\<close> from the root \<open>pt\<close>; \<open>leaf m pt va\<close> is the level-0 entry that the hardware and
  \<^verbatim>\<open>walk\<close> find for \<open>va\<close>, 0 when a table on the way is missing.  The invariant \<open>vm_ok\<close> says that
  the tables form a tree of pages that the allocator handed out: no page is reached by two
  paths and none is on the free list.  The lemmas of this theory say what a write of an
  entry, a new table and \<^verbatim>\<open>walk\<close> do to \<open>leaf\<close>.
\<close>

definition ent :: "mem \<Rightarrow> addr \<Rightarrow> nat \<Rightarrow> u64" where
  "ent m t i = read64 m (pte_slot t i)"

definition valid_pte :: "u64 \<Rightarrow> bool" where
  "valid_pte e \<longleftrightarrow> e AND PTE_V \<noteq> 0"

primrec ptab :: "mem \<Rightarrow> addr \<Rightarrow> nat list \<Rightarrow> addr option" where
  "ptab m pt [] = Some pt"
| "ptab m pt (i # p) = (if valid_pte (ent m pt i) then ptab m (PTE2PA (ent m pt i)) p else None)"

definition path :: "nat list \<Rightarrow> bool" where
  "path p \<longleftrightarrow> length p \<le> 2 \<and> (\<forall>i \<in> set p. i < 512)"

definition pte_at :: "mem \<Rightarrow> addr \<Rightarrow> nat list \<Rightarrow> nat \<Rightarrow> u64" where
  "pte_at m pt q i = (case ptab m pt q of None \<Rightarrow> 0 | Some t \<Rightarrow> ent m t i)"

definition vpath :: "u64 \<Rightarrow> nat list" where
  "vpath va = [px 2 va, px 1 va]"

definition leaf :: "mem \<Rightarrow> addr \<Rightarrow> u64 \<Rightarrow> u64" where
  "leaf m pt va = pte_at m pt (vpath va) (px 0 va)"

definition tabs :: "mem \<Rightarrow> addr \<Rightarrow> addr set" where
  "tabs m pt = {a. \<exists>p. path p \<and> ptab m pt p = Some a}"

definition tree :: "mem \<Rightarrow> addr \<Rightarrow> bool" where
  "tree m pt \<longleftrightarrow>
     (\<forall>p q a. path p \<longrightarrow> path q \<longrightarrow> ptab m pt p = Some a \<longrightarrow> ptab m pt q = Some a \<longrightarrow> p = q) \<and>
     (\<forall>p i t. path (p @ [i]) \<longrightarrow> ptab m pt p = Some t \<longrightarrow> valid_pte (ent m t i) \<longrightarrow>
        ent m t i AND (PTE_R OR PTE_W OR PTE_X) = 0 \<and> (p = [] \<longrightarrow> i < 256))"

definition vm_ok :: "'z kmem_scheme \<Rightarrow> addr \<Rightarrow> bool" where
  "vm_ok s pt \<longleftrightarrow> kmem_ok s \<and> tree (ram s) pt \<and>
     (\<forall>a \<in> tabs (ram s) pt. good_page s a \<and> a \<notin> free_pages s)"

lemma px_less [simp]: "px l va < 512"
  by (simp add: px_def unat_PX_less)

lemma path_Nil [simp]: "path []"
  and path_snoc: "path (p @ [i]) \<longleftrightarrow> length p < 2 \<and> path p \<and> i < 512"
  by (auto simp: path_def)

lemma path_vpath [simp]: "path (vpath va)" "length (vpath va) = 2"
  by (simp_all add: path_def vpath_def)

lemma ptab_append: "ptab m pt (p @ q) = (case ptab m pt p of None \<Rightarrow> None | Some t \<Rightarrow> ptab m t q)"
  by (induction p arbitrary: pt) auto

lemma ptab_snoc:
  "ptab m pt (p @ [i]) = (case ptab m pt p of None \<Rightarrow> None
     | Some t \<Rightarrow> if valid_pte (ent m t i) then Some (PTE2PA (ent m t i)) else None)"
  by (simp add: ptab_append split: option.split)

lemma root_tabs [simp]: "pt \<in> tabs m pt"
  unfolding tabs_def by (auto intro!: exI [of _ "[]"])

lemma tabsI: "path p \<Longrightarrow> ptab m pt p = Some a \<Longrightarrow> a \<in> tabs m pt"
  by (auto simp: tabs_def)

lemma treeD: "tree m pt \<Longrightarrow> path p \<Longrightarrow> path q \<Longrightarrow> ptab m pt p = Some a \<Longrightarrow> ptab m pt q = Some a \<Longrightarrow> p = q"
  by (auto simp: tree_def)

lemma tree_inner:
  "tree m pt \<Longrightarrow> path (p @ [i]) \<Longrightarrow> ptab m pt p = Some t \<Longrightarrow> valid_pte (ent m t i) \<Longrightarrow>
   ent m t i AND (PTE_R OR PTE_W OR PTE_X) = 0 \<and> (p = [] \<longrightarrow> i < 256)"
  unfolding tree_def by blast

lemma treeI:
  assumes "\<And>p q a. path p \<Longrightarrow> path q \<Longrightarrow> ptab m pt p = Some a \<Longrightarrow> ptab m pt q = Some a \<Longrightarrow> p = q"
    and "\<And>p i t. path (p @ [i]) \<Longrightarrow> ptab m pt p = Some t \<Longrightarrow> valid_pte (ent m t i) \<Longrightarrow>
        ent m t i AND (PTE_R OR PTE_W OR PTE_X) = 0 \<and> (p = [] \<longrightarrow> i < 256)"
  shows "tree m pt"
  using assms unfolding tree_def by blast

lemma valid_pte_0 [simp]: "\<not> valid_pte 0"
  by (simp add: valid_pte_def)

lemma valid_pte_or [simp]: "valid_pte (e OR PTE_V)"
  by (simp add: valid_pte_def bit_simps and_exp_eq_0_iff_not_bit [of _ 0, simplified] bit_or_iff)

lemma valid_pte_bit: "valid_pte e \<longleftrightarrow> bit e 0"
  using and_exp_eq_0_iff_not_bit [of e 0] by (simp add: valid_pte_def)

lemma ent_write_same [simp]: "ent (write64 m (pte_slot t i) v) t i = v"
  by (simp add: ent_def)

lemma ent_write_other:
  "page_aligned t \<Longrightarrow> page_aligned a \<Longrightarrow> i < 512 \<Longrightarrow> j < 512 \<Longrightarrow> (t, i) \<noteq> (a, j) \<Longrightarrow>
   ent (write64 m (pte_slot t i) v) a j = ent m a j"
  unfolding ent_def pte_slot_def by (rule read64_write64_other)

lemma ent_memset_other:
  "page_aligned c \<Longrightarrow> page_aligned a \<Longrightarrow> c \<noteq> a \<Longrightarrow> j < 512 \<Longrightarrow> ent (memset m c b 4096) a j = ent m a j"
  unfolding ent_def pte_slot_def by (rule read64_memset_other)

lemma ent_memset_zero:
  assumes "j < 512"
  shows "ent (memset m c 0 4096) c j = 0"
proof -
  have "memset m c 0 4096 (pte_slot c j + of_nat i) = 0" if i: "i < 8" for i
  proof -
    have "pte_slot c j + of_nat i - c = of_nat (8 * j + i)" by (simp add: pte_slot_def)
    moreover have "unat (of_nat (8 * j + i) :: u64) < 4096"
      using i assms by (subst unat_of_nat_small) simp_all
    ultimately have "unat (pte_slot c j + of_nat i - c) < 4096" by metis
    then show ?thesis by (simp add: memset_spec)
  qed
  then have "mem_bytes (memset m c 0 4096) (pte_slot c j) 8 = replicate 8 0"
    by (intro nth_equalityI) simp_all
  moreover have "le_word (replicate 8 0) = (0 :: u64)"
    by (rule bit_word_eqI) (auto simp: bit_le_word)
  ultimately show ?thesis by (simp add: ent_def read64_def)
qed

subsection \<open>Frames\<close>

lemma ptab_cong:
  assumes "\<And>a i. a \<in> tabs m pt \<Longrightarrow> i < 512 \<Longrightarrow> ent m' a i = ent m a i" and "path p"
  shows "ptab m' pt p = ptab m pt p"
  using assms(2)
proof (induction p rule: rev_induct)
  case (snoc i p)
  then have IH: "ptab m' pt p = ptab m pt p" and i: "i < 512" "path p" by (auto simp: path_snoc)
  show ?case
  proof (cases "ptab m pt p")
    case (Some t)
    then have "ent m' t i = ent m t i" using i assms(1) tabsI by blast
    then show ?thesis using IH Some by (simp add: ptab_snoc)
  qed (simp add: ptab_snoc IH)
qed simp

lemma tables_cong:
  assumes "\<And>a i. a \<in> tabs m pt \<Longrightarrow> i < 512 \<Longrightarrow> ent m' a i = ent m a i"
  shows "tabs m' pt = tabs m pt" and "tree m pt \<Longrightarrow> tree m' pt"
    and "path q \<Longrightarrow> i < 512 \<Longrightarrow> pte_at m' pt q i = pte_at m pt q i"
proof -
  note eq = ptab_cong [of m pt m', OF assms]
  show "tabs m' pt = tabs m pt" using eq by (auto simp: tabs_def)
  show "tree m pt \<Longrightarrow> tree m' pt"
  proof (rule treeI)
    assume tr: "tree m pt"
    show "p = q" if "path p" "path q" "ptab m' pt p = Some a" "ptab m' pt q = Some a" for p q a
      using treeD [OF tr] that eq by metis
    show "ent m' t i AND (PTE_R OR PTE_W OR PTE_X) = 0 \<and> (p = [] \<longrightarrow> i < 256)"
      if "path (p @ [i])" "ptab m' pt p = Some t" "valid_pte (ent m' t i)" for p i t
    proof -
      have "path p" "i < 512" using that(1) by (simp_all add: path_snoc)
      then have "ptab m pt p = Some t" "ent m' t i = ent m t i"
        using eq that(2) assms tabsI by (simp, metis)
      then show ?thesis using tree_inner [OF tr that(1)] that(3) by metis
    qed
  qed
  show "path q \<Longrightarrow> i < 512 \<Longrightarrow> pte_at m' pt q i = pte_at m pt q i"
    using eq [of q] assms tabsI [of q m pt] by (auto simp: pte_at_def split: option.split)
qed

lemma ent_page_cong:
  assumes "\<And>k. k < 4096 \<Longrightarrow> m' (a + of_nat k) = m (a + of_nat k)" and "i < 512"
  shows "ent m' a i = ent m a i"
proof -
  have "m' (pte_slot a i + of_nat k) = m (pte_slot a i + of_nat k)" if "k < 8" for k
    using assms(1) [of "8 * i + k"] assms(2) that by (simp add: pte_slot_def add.assoc)
  then show ?thesis unfolding ent_def by (rule read64_cong)
qed

text \<open>A write of an entry changes the paths through that entry and no other.\<close>

lemma ptab_write_other:
  assumes tr: "tree m pt" and al: "\<And>a. a \<in> tabs m pt \<Longrightarrow> page_aligned a"
    and p: "path p" "ptab m pt p = Some t" and i: "i < 512"
    and q: "path q" and np: "\<And>r. q \<noteq> p @ i # r"
  shows "ptab (write64 m (pte_slot t i) v) pt q = ptab m pt q"
  using q np
proof (induction q rule: rev_induct)
  case (snoc j q)
  let ?m = "write64 m (pte_slot t i) v"
  have q: "path q" "j < 512" using snoc.prems(1) by (auto simp: path_snoc)
  have "q \<noteq> p @ i # r" for r using snoc.prems(2) [of "r @ [j]"] by auto
  then have IH: "ptab ?m pt q = ptab m pt q" using snoc.IH q by blast
  show ?case
  proof (cases "ptab m pt q")
    case (Some a)
    have "(t, i) \<noteq> (a, j)"
    proof
      assume "(t, i) = (a, j)"
      then have "q = p" using treeD [OF tr q(1) p(1) Some] p(2) by simp
      then show False using snoc.prems(2) [of "[]"] \<open>(t, i) = (a, j)\<close> by simp
    qed
    then have "ent ?m a j = ent m a j"
      using al tabsI p Some q i by (intro ent_write_other) blast+
    then show ?thesis using IH Some by (simp add: ptab_snoc)
  qed (simp add: ptab_snoc IH)
qed simp

lemma ptab_write_leaf:
  assumes "tree m pt" and "\<And>a. a \<in> tabs m pt \<Longrightarrow> page_aligned a"
    and "path p" "length p = 2" "ptab m pt p = Some t" "i < 512" "path q"
  shows "ptab (write64 m (pte_slot t i) v) pt q = ptab m pt q"
  using assms by (intro ptab_write_other [of m pt p t i q]) (auto simp: path_def)

lemma tree_write_leaf:
  assumes tr: "tree m pt" and al: "\<And>a. a \<in> tabs m pt \<Longrightarrow> page_aligned a"
    and p: "path p" "length p = 2" "ptab m pt p = Some t" "i < 512"
  shows "tree (write64 m (pte_slot t i) v) pt" and "tabs (write64 m (pte_slot t i) v) pt = tabs m pt"
proof -
  let ?m = "write64 m (pte_slot t i) v"
  note eq = ptab_write_leaf [OF tr al p]
  show "tree ?m pt"
  proof (rule treeI)
    show "q = r" if "path q" "path r" "ptab ?m pt q = Some a" "ptab ?m pt r = Some a" for q r a
      using treeD [OF tr that(1,2)] that eq by simp
  next
    fix q j a assume q: "path (q @ [j])" "ptab ?m pt q = Some a" "valid_pte (ent ?m a j)"
    then have pq: "path q" "j < 512" "q \<noteq> p" using p by (auto simp: path_snoc)
    then have qa: "ptab m pt q = Some a" using eq q(2) by simp
    then have "a \<noteq> t" using treeD [OF tr pq(1) p(1)] p(3) pq by auto
    then have "ent ?m a j = ent m a j"
      using al tabsI [OF p(1) p(3)] tabsI [OF pq(1) qa] pq p by (intro ent_write_other) auto
    then show "ent ?m a j AND (PTE_R OR PTE_W OR PTE_X) = 0 \<and> (q = [] \<longrightarrow> j < 256)"
      using tree_inner [OF tr q(1) qa] q(3) by simp
  qed
  show "tabs ?m pt = tabs m pt" using eq by (auto simp: tabs_def)
qed

lemma pte_at_write_leaf:
  assumes tr: "tree m pt" and al: "\<And>a. a \<in> tabs m pt \<Longrightarrow> page_aligned a"
    and p: "path p" "length p = 2" "ptab m pt p = Some t" "i < 512" and q: "path q" "j < 512"
  shows "pte_at (write64 m (pte_slot t i) v) pt q j =
    (if q = p \<and> j = i then v else pte_at m pt q j)"
proof (cases "ptab m pt q")
  case (Some a)
  have eq: "ptab (write64 m (pte_slot t i) v) pt q = Some a"
    using ptab_write_leaf [OF tr al p q(1)] Some by simp
  have "(t, i) = (a, j) \<longleftrightarrow> q = p \<and> j = i"
    using treeD [OF tr q(1) p(1)] Some p by auto
  moreover have "(t, i) \<noteq> (a, j) \<Longrightarrow> ent (write64 m (pte_slot t i) v) a j = ent m a j"
    using al tabsI p Some q by (intro ent_write_other) blast+
  ultimately show ?thesis using eq Some by (auto simp: pte_at_def)
next
  case None
  then show ?thesis using ptab_write_leaf [OF tr al p q(1)] p by (auto simp: pte_at_def)
qed

subsection \<open>Adding a table\<close>

lemma tabs_aligned: "vm_ok s pt \<Longrightarrow> a \<in> tabs (ram s) pt \<Longrightarrow> page_aligned a"
  by (auto simp: vm_ok_def good_page_def)

lemma kmem_ok_ram:
  assumes ok: "kmem_ok s" and same: "\<And>a. a \<in> free_pages s \<Longrightarrow> read64 m' a = read64 (ram s) a"
  shows "kmem_ok (s\<lparr>ram := m'\<rparr>)" and "free_pages (s\<lparr>ram := m'\<rparr>) = free_pages s"
proof -
  obtain fl where fl: "kmem_inv s fl" "free_pages s = set fl" using ok by (rule kmem_ok_pages)
  then have "chain m' (freelist s) fl"
    using same chain_cong [of "ram s" "freelist s" fl m'] by (simp add: kmem_inv_def)
  then have inv: "kmem_inv (s\<lparr>ram := m'\<rparr>) fl" using fl by (simp add: kmem_inv_def)
  show "kmem_ok (s\<lparr>ram := m'\<rparr>)" using inv by (auto simp: kmem_ok_def)
  show "free_pages (s\<lparr>ram := m'\<rparr>) = free_pages s" using free_pages_inv [OF inv] fl by simp
qed

text \<open>Writing inside a page that is not free does not disturb the free list.\<close>

lemma kmem_ok_ram_page:
  assumes ok: "kmem_ok s" and t: "page_aligned t" "t \<notin> free_pages s"
    and same: "\<And>a k. page_aligned a \<Longrightarrow> a \<noteq> t \<Longrightarrow> k < 4096 \<Longrightarrow> m' (a + of_nat k) = ram s (a + of_nat k)"
  shows "kmem_ok (s\<lparr>ram := m'\<rparr>)" and "free_pages (s\<lparr>ram := m'\<rparr>) = free_pages s"
proof -
  have "read64 m' a = read64 (ram s) a" if "a \<in> free_pages s" for a
  proof (rule read64_cong)
    have a: "page_aligned a" "a \<noteq> t" using that t kmem_ok_good [OF ok] by (auto simp: good_page_def)
    show "m' (a + of_nat i) = ram s (a + of_nat i)" if "i < 8" for i
      using same [OF a, of i] that by simp
  qed
  from kmem_ok_ram [OF ok this] show "kmem_ok (s\<lparr>ram := m'\<rparr>)"
    "free_pages (s\<lparr>ram := m'\<rparr>) = free_pages s" by blast+
qed

lemma write_slot_other_page:
  "page_aligned t \<Longrightarrow> page_aligned a \<Longrightarrow> a \<noteq> t \<Longrightarrow> i < 512 \<Longrightarrow> k < 4096 \<Longrightarrow>
   write64 m (pte_slot t i) v (a + of_nat k) = m (a + of_nat k)"
  unfolding pte_slot_def by (rule write64_other_page) auto

lemma memset_other_page:
  "page_aligned c \<Longrightarrow> page_aligned a \<Longrightarrow> a \<noteq> c \<Longrightarrow> k < 4096 \<Longrightarrow>
   memset m c b 4096 (a + of_nat k) = m (a + of_nat k)"
  using other_page [of c a k] by (simp add: memset_spec)

text \<open>What a page-table operation may do to memory outside the page table it works on.\<close>

definition frame :: "'z kmem_scheme \<Rightarrow> 'z kmem_scheme \<Rightarrow> addr set \<Rightarrow> bool" where
  "frame s s' A \<longleftrightarrow> (\<exists>m f. s' = s\<lparr>ram := m, freelist := f\<rparr>) \<and>
     (\<forall>a k. page_aligned a \<longrightarrow> a \<notin> A \<longrightarrow> k < 4096 \<longrightarrow> ram s' (a + of_nat k) = ram s (a + of_nat k))"

lemma frame_refl [simp]: "frame s s A"
  unfolding frame_def by (auto intro!: exI [of _ "ram s"] exI [of _ "freelist s"])

lemma frame_trans:
  assumes "frame s s' A" "frame s' s'' B"
  shows "frame s s'' (A \<union> B)"
proof -
  obtain m f m' f' where "s' = s\<lparr>ram := m, freelist := f\<rparr>" "s'' = s'\<lparr>ram := m', freelist := f'\<rparr>"
    using assms by (auto simp: frame_def)
  then have "s'' = s\<lparr>ram := m', freelist := f'\<rparr>" by simp
  moreover have "page_aligned a \<longrightarrow> a \<notin> A \<union> B \<longrightarrow> k < 4096 \<longrightarrow>
      ram s'' (a + of_nat k) = ram s (a + of_nat k)" for a k
    using assms by (simp add: frame_def)
  ultimately show ?thesis unfolding frame_def by blast
qed

lemma frame_mono: "frame s s' A \<Longrightarrow> A \<subseteq> B \<Longrightarrow> frame s s' B"
  unfolding frame_def by blast

lemma frame_good: "frame s s' A \<Longrightarrow> good_page s' = good_page s"
  by (auto simp: frame_def)

text \<open>
  \<open>grown s s' pt\<close>: tables have been added to \<open>pt\<close>, taken from the free list, without changing
  any leaf entry or any byte of another page.
\<close>

definition grown :: "'z kmem_scheme \<Rightarrow> 'z kmem_scheme \<Rightarrow> addr \<Rightarrow> bool" where
  "grown s s' pt \<longleftrightarrow> vm_ok s' pt \<and> tabs (ram s) pt \<subseteq> tabs (ram s') pt \<and>
     tabs (ram s') pt \<union> free_pages s' = tabs (ram s) pt \<union> free_pages s \<and>
     (\<forall>q i. path q \<longrightarrow> length q = 2 \<longrightarrow> i < 512 \<longrightarrow> pte_at (ram s') pt q i = pte_at (ram s) pt q i) \<and>
     frame s s' (tabs (ram s') pt)"

lemma grown_refl: "vm_ok s pt \<Longrightarrow> grown s s pt"
  by (simp add: grown_def)

lemma grown_trans:
  assumes "grown s s' pt" "grown s' s'' pt"
  shows "grown s s'' pt"
proof -
  have "frame s s'' (tabs (ram s'') pt)"
    using assms frame_trans [of s s' "tabs (ram s') pt" s'' "tabs (ram s'') pt"]
    by (auto simp: grown_def intro: frame_mono)
  with assms show ?thesis by (simp add: grown_def) blast
qed

lemma add_table:
  fixes s :: "'z kmem_scheme"
  assumes ok: "vm_ok s pt" and p: "path p" "length p < 2" "ptab (ram s) pt p = Some t" "i < 512"
    and inv: "\<not> valid_pte (ent (ram s) t i)" and low: "p = [] \<Longrightarrow> i < 256"
    and c: "page_aligned c" "good_page s c" "c \<notin> free_pages s" "c \<notin> tabs (ram s) pt"
    and zero: "\<And>j. j < 512 \<Longrightarrow> ent (ram s) c j = 0"
  defines "m \<equiv> write64 (ram s) (pte_slot t i) (PA2PTE c OR PTE_V)"
  shows "ptab m pt (p @ [i]) = Some c" and "tabs m pt = insert c (tabs (ram s) pt)" and "tree m pt"
    and "path q \<Longrightarrow> length q = 2 \<Longrightarrow> j < 512 \<Longrightarrow> pte_at m pt q j = pte_at (ram s) pt q j"
proof -
  have tr: "tree (ram s) pt" and al: "\<And>a. a \<in> tabs (ram s) pt \<Longrightarrow> page_aligned a"
    using ok tabs_aligned by (auto simp: vm_ok_def)
  have t: "t \<in> tabs (ram s) pt" using p tabsI by blast
  have tc: "t \<noteq> c" using t c by auto
  have c_ent: "ent m c j = 0" if "j < 512" for j
    using that zero tc al [OF t] c p ent_write_other [of t c i j "ram s"] by (simp add: m_def)
  have flags: "take_bit 10 (PTE_V :: u64) = PTE_V" by (simp add: take_bit_eq_mod)
  have other: "ptab m pt q = ptab (ram s) pt q" if "path q" "\<And>r. q \<noteq> p @ i # r" for q
    unfolding m_def using that p by (intro ptab_write_other [OF tr al]) auto
  have same_p: "ptab m pt p = Some t" using other p by simp
  have new: "ptab m pt (p @ [i]) = Some c"
    using same_p PTE2PA_PA2PTE [OF c(1) flags] by (simp add: ptab_snoc m_def)
  then show "ptab m pt (p @ [i]) = Some c" .
  have old: "ptab (ram s) pt (p @ i # r) = None" for r
    using p inv by (simp add: ptab_append)
  have deep: "ptab m pt (p @ i # r) = (if r = [] then Some c else None)" if "path (p @ i # r)" for r
  proof -
    have "ptab m pt (p @ i # r) = ptab m c r"
      using new ptab_append [of m pt "p @ [i]" r] by simp
    then show ?thesis using that c_ent by (cases r) (auto simp: path_def)
  qed
  have char: "ptab m pt q = (if q = p @ [i] then Some c else ptab (ram s) pt q)" if "path q" for q
  proof (cases "\<exists>r. q = p @ i # r")
    case True
    then obtain r where "q = p @ i # r" by blast
    then show ?thesis using deep [of r] old [of r] that by auto
  next
    case False
    then show ?thesis using other [OF that] by auto
  qed
  have pi: "path (p @ [i])" using p by (simp add: path_snoc)
  show "tabs m pt = insert c (tabs (ram s) pt)"
  proof (intro set_eqI iffI)
    fix a assume "a \<in> tabs m pt"
    then obtain q where q: "path q" "ptab m pt q = Some a" by (auto simp: tabs_def)
    then show "a \<in> insert c (tabs (ram s) pt)"
      using char [OF q(1)] tabsI [OF q(1)] by (cases "q = p @ [i]") simp_all
  next
    fix a assume "a \<in> insert c (tabs (ram s) pt)"
    then consider "a = c" | q where "path q" "ptab (ram s) pt q = Some a" by (auto simp: tabs_def)
    then show "a \<in> tabs m pt"
    proof cases
      case 1
      then show ?thesis using tabsI [OF pi new] by simp
    next
      case 2
      then have "q \<noteq> p @ [i]" using old [of "[]"] by auto
      then show ?thesis using char [OF 2(1)] 2 tabsI [OF 2(1)] by simp
    qed
  qed
  show "tree m pt"
  proof (rule treeI)
    fix q r a assume q: "path q" "path r" "ptab m pt q = Some a" "ptab m pt r = Some a"
    then show "q = r"
      using char [OF q(1)] char [OF q(2)] c(4) tabsI treeD [OF tr q(1,2)] by (auto split: if_splits)
  next
    fix q j a assume q: "path (q @ [j])" "ptab m pt q = Some a" "valid_pte (ent m a j)"
    then have pq: "path q" "j < 512" by (simp_all add: path_snoc)
    have "(PA2PTE c OR PTE_V) AND (PTE_R OR PTE_W OR PTE_X) = 0"
      by (rule bit_word_eqI)
        (auto simp: bit_and_iff bit_or_iff PA2PTE_bits bit_numeral_rec(1,2) bit_1_iff split: nat.splits)
    then have new_ok: "ent m a j AND (PTE_R OR PTE_W OR PTE_X) = 0 \<and> (q = [] \<longrightarrow> j < 256)"
      if "(t, i) = (a, j)" "q = p" using that low by (auto simp: m_def)
    show "ent m a j AND (PTE_R OR PTE_W OR PTE_X) = 0 \<and> (q = [] \<longrightarrow> j < 256)"
    proof (cases "q = p @ [i]")
      case True
      then show ?thesis using q new c_ent pq by simp
    next
      case False
      then have qa: "ptab (ram s) pt q = Some a" using char [OF pq(1)] q(2) by simp
      show ?thesis
      proof (cases "(t, i) = (a, j)")
        case True
        then show ?thesis using new_ok treeD [OF tr pq(1) p(1) qa] p(3) by blast
      next
        case False
        then have "ent m a j = ent (ram s) a j"
          unfolding m_def using al [OF t] al [OF tabsI [OF pq(1) qa]] p pq
          by (intro ent_write_other) auto
        then show ?thesis using tree_inner [OF tr q(1) qa] q(3) by simp
      qed
    qed
  qed
  show "pte_at m pt q j = pte_at (ram s) pt q j" if q: "path q" "length q = 2" "j < 512" for q j
  proof (cases "q = p @ [i]")
    case True
    then show ?thesis using new old [of "[]"] c_ent [OF q(3)] by (simp add: pte_at_def)
  next
    case False
    have "ent m a j = ent (ram s) a j" if a: "ptab (ram s) pt q = Some a" for a
    proof -
      have "p \<noteq> q" using p q by auto
      then have "a \<noteq> t" using treeD [OF tr q(1) p(1) a] p by auto
      then show ?thesis unfolding m_def
        using al [OF t] al [OF tabsI [OF q(1) a]] p q by (intro ent_write_other) auto
    qed
    then show ?thesis using char [OF q(1)] False by (auto simp: pte_at_def split: option.split)
  qed
qed

subsection \<open>Taking pages\<close>

text \<open>A page table whose pages are outside the frame of a step is untouched by it.\<close>

lemma untouched:
  assumes ok: "vm_ok s pt" and fr: "frame s s' A" and dj: "A \<inter> tabs (ram s) pt = {}"
  shows "tabs (ram s') pt = tabs (ram s) pt" and "path q \<Longrightarrow> ptab (ram s') pt q = ptab (ram s) pt q"
    and "path q \<Longrightarrow> i < 512 \<Longrightarrow> pte_at (ram s') pt q i = pte_at (ram s) pt q i"
    and "kmem_ok s' \<Longrightarrow> free_pages s' \<inter> tabs (ram s) pt = {} \<Longrightarrow> vm_ok s' pt"
proof -
  have same: "ent (ram s') a i = ent (ram s) a i" if "a \<in> tabs (ram s) pt" "i < 512" for a i
  proof (rule ent_page_cong [OF _ that(2)])
    have "page_aligned a" "a \<notin> A" using that dj tabs_aligned [OF ok] by auto
    then show "ram s' (a + of_nat k) = ram s (a + of_nat k)" if "k < 4096" for k
      using fr that by (simp add: frame_def)
  qed
  note cong = tables_cong [of "ram s" pt "ram s'", OF same]
  show "tabs (ram s') pt = tabs (ram s) pt" by (rule cong(1))
  show "path q \<Longrightarrow> ptab (ram s') pt q = ptab (ram s) pt q" by (rule ptab_cong [OF same])
  show "path q \<Longrightarrow> i < 512 \<Longrightarrow> pte_at (ram s') pt q i = pte_at (ram s) pt q i" by (rule cong(3))
  show "vm_ok s' pt" if "kmem_ok s'" "free_pages s' \<inter> tabs (ram s) pt = {}"
    using that ok cong(1) cong(2) frame_good [OF fr] unfolding vm_ok_def by auto
qed

lemma frame_ram:
  assumes "\<And>a k. page_aligned a \<Longrightarrow> a \<notin> A \<Longrightarrow> k < 4096 \<Longrightarrow> m (a + of_nat k) = ram s (a + of_nat k)"
  shows "frame s (s\<lparr>ram := m, freelist := f\<rparr>) A"
  using assms unfolding frame_def by auto

lemma frame_ram1:
  assumes "\<And>a k. page_aligned a \<Longrightarrow> a \<notin> A \<Longrightarrow> k < 4096 \<Longrightarrow> m (a + of_nat k) = ram s (a + of_nat k)"
  shows "frame s (s\<lparr>ram := m\<rparr>) A"
  using frame_ram [of A m s "freelist s", OF assms] by simp

lemma freelist_ram_commute:
  "s\<lparr>freelist := f, ram := m\<rparr> = s\<lparr>ram := m, freelist := f\<rparr>"
  by (cases s) simp

lemma kalloc_spec:
  assumes ok: "kmem_ok s"
  shows "free_pages s = {} \<and> kalloc s = Inr (0, s) \<or>
    (\<exists>c s1. kalloc s = Inr (c, s1) \<and> c \<noteq> 0 \<and> c \<in> free_pages s \<and> free_pages s1 = free_pages s - {c} \<and>
       kmem_ok s1 \<and> frame s s1 {c})"
proof -
  obtain fl where fl: "kmem_inv s fl" "free_pages s = set fl" using ok by (rule kmem_ok_pages)
  show ?thesis
  proof (cases fl)
    case Nil
    then show ?thesis using fl kalloc_run_empty by auto
  next
    case (Cons c fl')
    define s1 where "s1 = s\<lparr>freelist := read64 (ram s) c, ram := memset (ram s) c 5 4096\<rparr>"
    have inv: "kmem_inv s1 fl'" using fl Cons kmem_inv_kalloc by (simp add: s1_def)
    have "s1 = s\<lparr>ram := memset (ram s) c 5 4096, freelist := read64 (ram s) c\<rparr>"
      by (simp add: s1_def freelist_ram_commute)
    then have "frame s s1 {c}"
      using fl Cons frame_ram [of "{c}" "memset (ram s) c 5 4096" s "read64 (ram s) c"]
      by (simp add: memset_other_page kmem_inv_def good_page_def)
    moreover have "kalloc s = Inr (c, s1)" using kalloc_run fl Cons by (simp add: s1_def)
    moreover have "c \<noteq> 0" "free_pages s1 = free_pages s - {c}" "kmem_ok s1" "c \<in> free_pages s"
      using fl Cons inv free_pages_inv [OF inv] good_page_nonzero [of s c]
      by (auto simp: kmem_inv_def kmem_ok_def)
    ultimately show ?thesis by blast
  qed
qed

lemma memsetK_spec:
  assumes ok: "kmem_ok s" and c: "page_aligned c" "c \<notin> free_pages s"
  shows "\<exists>s1. memsetK c b 4096 s = Inr ((), s1) \<and> kmem_ok s1 \<and> free_pages s1 = free_pages s \<and>
    frame s s1 {c} \<and> ram s1 = memset (ram s) c b 4096"
proof -
  let ?s = "s\<lparr>ram := memset (ram s) c b 4096\<rparr>"
  have "memset (ram s) c b 4096 (a + of_nat k) = ram s (a + of_nat k)"
    if "page_aligned a" "a \<noteq> c" "k < 4096" for a k using that c memset_other_page by blast
  from kmem_ok_ram_page [OF ok c this] frame_ram1 [of "{c}", OF this]
  have "kmem_ok ?s" "free_pages ?s = free_pages s" "frame s ?s {c}" by simp_all
  then show ?thesis by (auto simp: memsetK_def run_simps)
qed

text \<open>A page taken from the free list and cleared.\<close>

lemma kalloc_zero_spec:
  assumes ok: "kmem_ok s"
  shows "free_pages s = {} \<and> kalloc s = Inr (0, s) \<or>
    (\<exists>c s1 s2. kalloc s = Inr (c, s1) \<and> memsetK c 0 4096 s1 = Inr ((), s2) \<and> c \<noteq> 0 \<and>
       c \<in> free_pages s \<and> good_page s c \<and> free_pages s2 = free_pages s - {c} \<and> kmem_ok s2 \<and>
       frame s s2 {c} \<and> (\<forall>k < 4096. ram s2 (c + of_nat k) = 0) \<and> (\<forall>j < 512. ent (ram s2) c j = 0))"
proof (rule disjCI)
  assume "\<not> (\<exists>c s1 s2. kalloc s = Inr (c, s1) \<and> memsetK c 0 4096 s1 = Inr ((), s2) \<and> c \<noteq> 0 \<and>
       c \<in> free_pages s \<and> good_page s c \<and> free_pages s2 = free_pages s - {c} \<and> kmem_ok s2 \<and>
       frame s s2 {c} \<and> (\<forall>k < 4096. ram s2 (c + of_nat k) = 0) \<and> (\<forall>j < 512. ent (ram s2) c j = 0))"
  moreover {
    fix c s1
    assume c: "kalloc s = Inr (c, s1)" "c \<noteq> 0" "c \<in> free_pages s" "free_pages s1 = free_pages s - {c}"
       "kmem_ok s1" "frame s s1 {c}"
    have good: "good_page s c" using kmem_ok_good [OF ok c(3)] .
    then obtain s2 where s2: "memsetK c 0 4096 s1 = Inr ((), s2)" "kmem_ok s2"
        "free_pages s2 = free_pages s1" "frame s1 s2 {c}" "ram s2 = memset (ram s1) c 0 4096"
      using memsetK_spec [OF c(5), of c 0] c(4) by (auto simp: good_page_def)
    have "ram s2 (c + of_nat k) = 0" if "k < 4096" for k
      using that s2 by (simp add: memset_spec unat_of_nat_small)
    moreover have "ent (ram s2) c j = 0" if "j < 512" for j
      using that s2 ent_memset_zero by simp
    moreover have "frame s s2 {c}" using frame_trans [OF c(6) s2(4)] by simp
    ultimately have "\<exists>c s1 s2. kalloc s = Inr (c, s1) \<and> memsetK c 0 4096 s1 = Inr ((), s2) \<and> c \<noteq> 0 \<and>
       c \<in> free_pages s \<and> good_page s c \<and> free_pages s2 = free_pages s - {c} \<and> kmem_ok s2 \<and>
       frame s s2 {c} \<and> (\<forall>k < 4096. ram s2 (c + of_nat k) = 0) \<and> (\<forall>j < 512. ent (ram s2) c j = 0)"
      using c s2 good by auto
  }
  ultimately show "free_pages s = {} \<and> kalloc s = Inr (0, s)" using kalloc_spec [OF ok] by blast
qed

end
