(* ===== verification/Vm_Map.thy ===== *)
theory Vm_Map
  imports Vm_Tree
begin

unbundle bit_operations_syntax

section \<open>What walk, mappages and uvmunmap do to a page table\<close>

text \<open>
  \<^verbatim>\<open>walk\<close> finds or makes the slot of an address without changing any mapping; \<^verbatim>\<open>mappages\<close> and
  \<^verbatim>\<open>uvmunmap\<close> refine updates of the abstract map \<open>leaf\<close> on a range of pages.
\<close>

subsection \<open>walk\<close>

lemma walk_from_lookup:
  "walk_from l t va False s = Inr (case ptab (ram s) t (rev (map (\<lambda>k. px (Suc k) va) [0..<l])) of
     None \<Rightarrow> 0 | Some t' \<Rightarrow> pte_slot t' (px 0 va), s)"
proof (induction l arbitrary: t)
  case (Suc l)
  show ?case
    by (simp add: Let_def run_simps get_pte_def Suc.IH ent_def valid_pte_def)
qed (simp add: run_simps)

definition walk_slot :: "mem \<Rightarrow> addr \<Rightarrow> u64 \<Rightarrow> addr" where
  "walk_slot m pt va =
     (case ptab m pt (vpath va) of None \<Rightarrow> 0 | Some t \<Rightarrow> pte_slot t (px 0 va))"

lemma walk_lookup:
  assumes "va < MAXVA"
  shows "walk pt va False s = Inr (walk_slot (ram s) pt va, s)"
proof -
  have "rev (map (\<lambda>k. px (Suc k) va) [0..<2]) = vpath va"
    by (simp add: upt_rec numeral_2_eq_2 vpath_def)
  then show ?thesis
    using assms [folded not_le] walk_from_lookup [of 2 pt va s] by (simp add: walk_def walk_slot_def)
qed

lemma pte_slot_nonzero:
  assumes "page_aligned t" "t \<noteq> 0" "i < 512"
  shows "pte_slot t i \<noteq> 0"
  using page_offset_unique [of t 0 "8 * i" 0] assms by (auto simp: pte_slot_def)

lemma tabs_nonzero: "vm_ok s pt \<Longrightarrow> a \<in> tabs (ram s) pt \<Longrightarrow> a \<noteq> 0"
  using good_page_nonzero [of s a] by (auto simp: vm_ok_def kmem_ok_def kmem_inv_def)

lemma read_walk_slot:
  assumes "vm_ok s pt" and "walk_slot (ram s) pt va \<noteq> 0"
  shows "read64 (ram s) (walk_slot (ram s) pt va) = leaf (ram s) pt va"
  using assms(2) by (auto simp: walk_slot_def leaf_def pte_at_def ent_def split: option.splits)

lemma walk_slot_leaf:
  "walk_slot (ram s) pt va = 0 \<Longrightarrow> vm_ok s pt \<Longrightarrow> leaf (ram s) pt va = 0"
  using pte_slot_nonzero tabs_nonzero tabs_aligned tabsI [OF path_vpath(1)]
  by (fastforce simp: walk_slot_def leaf_def pte_at_def split: option.splits)

lemma px2_low:
  assumes "va < MAXVA"
  shows "px 2 va < 256"
proof -
  have "unat va < 2 ^ 38" using assms by (simp add: word_less_nat_alt MAXVA_val)
  then have "unat (drop_bit 30 va) < 256"
    by (simp add: drop_bit_eq_div unat_div less_mult_imp_div_less)
  moreover have "PX 2 va \<le> drop_bit 30 va" by (simp add: PX_def word_and_le2)
  ultimately show ?thesis by (simp add: px_def word_le_nat_alt)
qed

lemma add_table_grown:
  assumes ok: "vm_ok s pt" and p: "path p" "length p < 2" "ptab (ram s) pt p = Some t" "i < 512"
    and inv: "\<not> valid_pte (ent (ram s) t i)" and low: "p = [] \<Longrightarrow> i < 256" and c: "c \<in> free_pages s" "good_page s c"
    and s2: "free_pages s2 = free_pages s - {c}" "kmem_ok s2" "frame s s2 {c}"
      "\<And>j. j < 512 \<Longrightarrow> ent (ram s2) c j = 0"
  defines "s3 \<equiv> s2\<lparr>ram := write64 (ram s2) (pte_slot t i) (PA2PTE c OR PTE_V)\<rparr>"
  shows "grown s s3 pt" and "ptab (ram s3) pt (p @ [i]) = Some c"
proof -
  have nt: "c \<notin> tabs (ram s) pt" using ok c by (auto simp: vm_ok_def)
  then have dj: "{c} \<inter> tabs (ram s) pt = {}" by simp
  note un = untouched [OF ok s2(3) dj]
  have free2: "free_pages s2 \<inter> tabs (ram s) pt = {}" using ok s2 by (auto simp: vm_ok_def)
  have ok2: "vm_ok s2 pt" using un(4) s2 free2 by blast
  have t: "t \<in> tabs (ram s) pt" using p tabsI by blast
  have tal: "page_aligned t" using tabs_aligned [OF ok t] .
  have tc: "t \<noteq> c" using t nt by auto
  have ent_t: "ent (ram s2) t i = ent (ram s) t i"
    using s2(3) tc tal p by (intro ent_page_cong) (auto simp: frame_def)
  have "page_aligned c" using c by (simp add: good_page_def)
  moreover have "good_page s2 c" using c frame_good [OF s2(3)] by simp
  ultimately
  have add: "ptab (ram s3) pt (p @ [i]) = Some c" "tabs (ram s3) pt = insert c (tabs (ram s) pt)"
    "tree (ram s3) pt"
    "\<And>q j. path q \<Longrightarrow> length q = 2 \<Longrightarrow> j < 512 \<Longrightarrow> pte_at (ram s3) pt q j = pte_at (ram s2) pt q j"
    using add_table [OF ok2 p(1,2) _ p(4), of t c] un(1,2) p inv ent_t s2 nt low by (simp_all add: s3_def)
  then show "ptab (ram s3) pt (p @ [i]) = Some c" by simp
  have other: "write64 (ram s2) (pte_slot t i) v (a + of_nat k) = ram s2 (a + of_nat k)"
    if "page_aligned a" "a \<noteq> t" "k < 4096" for a k v
    using that p tal by (intro write_slot_other_page) auto
  have "t \<notin> free_pages s2" using free2 t by auto
  from kmem_ok_ram_page [OF s2(2) tal this other]
  have km: "kmem_ok s3" "free_pages s3 = free_pages s2" by (simp_all add: s3_def)
  have "frame s2 s3 {t}" unfolding s3_def by (rule frame_ram1) (simp add: other)
  then have fr: "frame s s3 (tabs (ram s3) pt)"
    using frame_trans [OF s2(3), of s3 "{t}"] t add(2) by (auto intro: frame_mono)
  have "vm_ok s3 pt"
    using ok km add(2,3) s2 c frame_good [OF fr] by (auto simp: vm_ok_def)
  moreover have "tabs (ram s3) pt \<union> free_pages s3 = tabs (ram s) pt \<union> free_pages s"
    using add(2) km s2 c by auto
  ultimately show "grown s s3 pt"
    using fr add(2,4) un(3) by (simp add: grown_def subset_insertI)
qed

lemma walk_from_alloc:
  assumes "vm_ok s pt" "path p" "ptab (ram s) pt p = Some t" "l \<le> 2" "va < MAXVA"
    "p = take (2 - l) (vpath va)"
  shows "\<exists>r s'. walk_from l t va True s = Inr (r, s') \<and> grown s s' pt \<and>
    (if r = 0 then free_pages s' = {}
     else \<exists>t'. ptab (ram s') pt (vpath va) = Some t' \<and> r = pte_slot t' (px 0 va))"
  using assms
proof (induction l arbitrary: t p s)
  case 0
  have "t \<in> tabs (ram s) pt" using 0 tabsI by blast
  then have "pte_slot t (px 0 va) \<noteq> 0"
    using tabs_aligned [OF 0(1)] tabs_nonzero [OF 0(1)] by (intro pte_slot_nonzero) auto
  with 0 show ?case by (simp add: run_simps grown_refl)
next
  case (Suc l)
  let ?i = "px (Suc l) va" and ?p = "take (2 - l) (vpath va)"
  have "l = 0 \<or> l = 1" using Suc.prems(4) by auto
  then have p': "?p = p @ [?i]" "length p < 2" using Suc.prems(6) by (auto simp: numeral_2_eq_2 vpath_def)
  have pp: "path ?p" using p' Suc.prems(2) by (simp add: path_snoc)
  have low: "p = [] \<Longrightarrow> ?i < 256"
    using \<open>l = 0 \<or> l = 1\<close> p'(1) px2_low [OF Suc.prems(5)]
    by (auto simp: vpath_def numeral_2_eq_2)
  have e: "read64 (ram s) (pte_slot t ?i) = ent (ram s) t ?i" by (simp add: ent_def)
  show ?case
  proof (cases "valid_pte (ent (ram s) t ?i)")
    case True
    then have "ptab (ram s) pt ?p = Some (PTE2PA (ent (ram s) t ?i))"
      using Suc.prems(3) by (simp add: p' ptab_snoc)
    from Suc.IH [OF Suc.prems(1) pp this _ Suc.prems(5) refl] Suc.prems(4) True e
    show ?thesis by (simp add: Let_def run_simps get_pte_def valid_pte_def)
  next
    case inv: False
    have ok: "kmem_ok s" using Suc.prems(1) by (simp add: vm_ok_def)
    from kalloc_zero_spec [OF ok] show ?thesis
    proof (elim disjE exE conjE)
      assume "free_pages s = {}" "kalloc s = Inr (0, s)"
      then show ?thesis using inv e Suc.prems(1)
        by (simp add: Let_def run_simps get_pte_def valid_pte_def grown_refl)
    next
      fix c s1 s2
      assume c: "kalloc s = Inr (c, s1)" "memsetK c 0 4096 s1 = Inr ((), s2)" "c \<noteq> 0"
        "c \<in> free_pages s" "good_page s c" "free_pages s2 = free_pages s - {c}" "kmem_ok s2"
        "frame s s2 {c}" "\<forall>k < 4096. ram s2 (c + of_nat k) = 0" "\<forall>j < 512. ent (ram s2) c j = 0"
      define s3 where "s3 = s2\<lparr>ram := write64 (ram s2) (pte_slot t ?i) (PA2PTE c OR PTE_V)\<rparr>"
      have g: "grown s s3 pt" "ptab (ram s3) pt ?p = Some c"
        using add_table_grown [OF Suc.prems(1,2) p'(2) Suc.prems(3) px_less inv low c(4-8)] c(10)
        by (simp_all add: s3_def p')
      then have ok3: "vm_ok s3 pt" by (simp add: grown_def)
      obtain r s' where r: "walk_from l c va True s3 = Inr (r, s')" "grown s3 s' pt"
        "if r = 0 then free_pages s' = {}
         else \<exists>t'. ptab (ram s') pt (vpath va) = Some t' \<and> r = pte_slot t' (px 0 va)"
        using Suc.IH [OF ok3 pp g(2) _ Suc.prems(5) refl] Suc.prems(4) by auto
      have "walk_from (Suc l) t va True s = Inr (r, s')"
        using inv e c r(1) by (simp add: Let_def run_simps get_pte_def set_pte_def valid_pte_def s3_def)
      then show ?thesis using grown_trans [OF g(1) r(2)] r(3) by blast
    qed
  qed
qed

lemma walk_alloc:
  assumes "vm_ok s pt" "va < MAXVA"
  shows "\<exists>r s'. walk pt va True s = Inr (r, s') \<and> grown s s' pt \<and>
    (if r = 0 then free_pages s' = {}
     else \<exists>t'. ptab (ram s') pt (vpath va) = Some t' \<and> r = pte_slot t' (px 0 va))"
  using walk_from_alloc [OF assms(1), of "[]" pt 2 va] assms(2) assms(2) [folded not_le] by (simp add: walk_def)

subsection \<open>Writing the entry of one page\<close>

lemma PX_PGROUNDDOWN [simp]: "PX l (PGROUNDDOWN va) = PX l va"
  by (rule bit_word_eqI) (auto simp: PX_bits PGROUNDDOWN_bits)

lemma PGROUNDDOWN_le: "PGROUNDDOWN va \<le> va"
  by (simp add: word_le_nat_alt unat_PGROUNDDOWN)

lemma same_page_iff:
  assumes "va < MAXVA" "vb < MAXVA"
  shows "vpath va = vpath vb \<and> px 0 va = px 0 vb \<longleftrightarrow> PGROUNDDOWN va = PGROUNDDOWN vb"
proof
  assume "vpath va = vpath vb \<and> px 0 va = px 0 vb"
  then have "PX 2 va = PX 2 vb" "PX 1 va = PX 1 vb" "PX 0 va = PX 0 vb"
    by (simp_all add: vpath_def px_def word_unat_eq_iff)
  moreover have "PGROUNDDOWN va < MAXVA" "PGROUNDDOWN vb < MAXVA"
    using assms PGROUNDDOWN_le le_less_trans by blast+
  ultimately show "PGROUNDDOWN va = PGROUNDDOWN vb"
    by (intro PX_inj [of "PGROUNDDOWN va" "PGROUNDDOWN vb"])
      (simp_all only: PX_PGROUNDDOWN PGROUNDDOWN_aligned)
next
  assume eq: "PGROUNDDOWN va = PGROUNDDOWN vb"
  have "PX l va = PX l vb" for l
    using PX_PGROUNDDOWN [of l va] unfolding eq PX_PGROUNDDOWN by (rule sym)
  then show "vpath va = vpath vb \<and> px 0 va = px 0 vb" by (simp add: vpath_def px_def)
qed

text \<open>Every byte of a page has the same leaf entry.\<close>

lemma leaf_PGROUNDDOWN [simp]: "leaf m pt (PGROUNDDOWN va) = leaf m pt va"
  by (simp add: leaf_def vpath_def px_def)

definition put_leaf :: "'z kmem_scheme \<Rightarrow> 'z kmem_scheme \<Rightarrow> addr \<Rightarrow> u64 \<Rightarrow> u64 \<Rightarrow> bool" where
  "put_leaf s s' pt va v \<longleftrightarrow> vm_ok s' pt \<and> tabs (ram s') pt = tabs (ram s) pt \<and>
     free_pages s' = free_pages s \<and> frame s s' (tabs (ram s) pt) \<and>
     (\<forall>vb < MAXVA. leaf (ram s') pt vb =
        (if PGROUNDDOWN vb = PGROUNDDOWN va then v else leaf (ram s) pt vb))"

lemma write_leaf:
  assumes ok: "vm_ok s pt" and va: "va < MAXVA" and t: "ptab (ram s) pt (vpath va) = Some t"
  shows "put_leaf s (s\<lparr>ram := write64 (ram s) (pte_slot t (px 0 va)) v\<rparr>) pt va v"
proof -
  let ?m = "write64 (ram s) (pte_slot t (px 0 va)) v" and ?s = "s\<lparr>ram := write64 (ram s) (pte_slot t (px 0 va)) v\<rparr>"
  have tr: "tree (ram s) pt" and km: "kmem_ok s" using ok by (simp_all add: vm_ok_def)
  note al = tabs_aligned [OF ok]
  have tt: "t \<in> tabs (ram s) pt" using t tabsI path_vpath(1) by blast
  note tw = tree_write_leaf [OF tr al path_vpath t px_less]
  have other: "?m (a + of_nat k) = ram s (a + of_nat k)"
    if "page_aligned a" "a \<noteq> t" "k < 4096" for a k
    using that al [OF tt] by (intro write_slot_other_page) auto
  have nf: "t \<notin> free_pages s" using ok tt by (auto simp: vm_ok_def)
  note km' = kmem_ok_ram_page [OF km al [OF tt] nf other]
  have fr: "frame s ?s (tabs (ram s) pt)" using tt by (intro frame_ram1 other) auto
  have "leaf ?m pt vb = (if PGROUNDDOWN vb = PGROUNDDOWN va then v else leaf (ram s) pt vb)"
    if vb: "vb < MAXVA" for vb
    using pte_at_write_leaf [OF tr al path_vpath t px_less path_vpath(1) px_less,
        of 0 va v vb 0 vb] same_page_iff [OF vb va] by (simp add: leaf_def)
  moreover have "vm_ok ?s pt" unfolding vm_ok_def using km' tw(1) ok by (simp add: tw(2) vm_ok_def)
  ultimately show ?thesis using km'(2) fr unfolding put_leaf_def by (simp add: tw(2))
qed

subsection \<open>Ranges of pages\<close>

definition in_pages :: "u64 \<Rightarrow> nat \<Rightarrow> u64 \<Rightarrow> bool" where
  "in_pages a n va \<longleftrightarrow> unat a \<le> unat va \<and> unat va < unat a + 4096 * n"

text \<open>The abstract effect of \<^verbatim>\<open>mappages\<close> on the map of leaf entries.\<close>

definition map_range :: "u64 \<Rightarrow> nat \<Rightarrow> u64 \<Rightarrow> u64 \<Rightarrow> (u64 \<Rightarrow> u64) \<Rightarrow> u64 \<Rightarrow> u64" where
  "map_range a n pa perm f va =
     (if in_pages a n va then PA2PTE (pa + (PGROUNDDOWN va - a)) OR perm OR PTE_V else f va)"

lemma in_pages_0 [simp]: "\<not> in_pages a 0 va"
  by (simp add: in_pages_def)

lemma in_page_iff:
  assumes "page_aligned a"
  shows "in_pages a 1 va \<longleftrightarrow> PGROUNDDOWN va = a"
proof -
  have a: "unat a mod 4096 = 0" using assms by (simp add: page_aligned_nat dvd_eq_mod_eq_0)
  have "PGROUNDDOWN va = a \<longleftrightarrow> unat va - unat va mod 4096 = unat a"
    by (simp add: word_unat_eq_iff unat_PGROUNDDOWN)
  also have "\<dots> \<longleftrightarrow> unat a \<le> unat va \<and> unat va < unat a + 4096"
  proof
    assume "unat va - unat va mod 4096 = unat a"
    moreover have "unat va mod 4096 < 4096" "unat va mod 4096 \<le> unat va" by simp_all
    ultimately show "unat a \<le> unat va \<and> unat va < unat a + 4096" by linarith
  next
    assume le: "unat a \<le> unat va \<and> unat va < unat a + 4096"
    then obtain d where d: "unat va = unat a + d" "d < 4096" using le_Suc_ex by fastforce
    then have "unat va mod 4096 = d" using a mod_add_left_eq [of "unat a" 4096 d] by simp
    with d show "unat va - unat va mod 4096 = unat a" by simp
  qed
  finally show ?thesis by (simp add: in_pages_def)
qed

lemma unat_next_page:
  assumes "unat a + 4096 < 2 ^ 64"
  shows "unat (a + 4096 :: u64) = unat a + 4096"
  using assms by (simp add: unat_word_ariths)

lemma in_pages_Suc:
  assumes "page_aligned a" "unat a + 4096 < 2 ^ 64"
  shows "in_pages a (Suc n) va \<longleftrightarrow> PGROUNDDOWN va = a \<or> in_pages (a + 4096) n va"
  using assms in_page_iff [OF assms(1), of va] unat_next_page [OF assms(2)]
  by (auto simp: in_pages_def)

subsection \<open>mappages\<close>

definition mapped :: "'z kmem_scheme \<Rightarrow> 'z kmem_scheme \<Rightarrow> addr \<Rightarrow> u64 \<Rightarrow> nat \<Rightarrow> u64 \<Rightarrow> u64 \<Rightarrow> bool" where
  "mapped s s' pt a n pa perm \<longleftrightarrow> vm_ok s' pt \<and> tabs (ram s) pt \<subseteq> tabs (ram s') pt \<and>
     tabs (ram s') pt \<union> free_pages s' = tabs (ram s) pt \<union> free_pages s \<and>
     frame s s' (tabs (ram s') pt) \<and>
     (\<forall>va < MAXVA. leaf (ram s') pt va = map_range a n pa perm (leaf (ram s) pt) va)"

lemma grown_leaf: "grown s s' pt \<Longrightarrow> leaf (ram s') pt va = leaf (ram s) pt va"
  by (simp add: grown_def leaf_def)

lemma mapped_grown: "grown s s' pt \<Longrightarrow> mapped s s' pt a 0 pa perm"
  using grown_leaf by (auto simp: grown_def mapped_def map_range_def)

lemma mapped_one:
  assumes g: "grown s s1 pt" and al: "page_aligned a"
    and pl: "put_leaf s1 s2 pt a (PA2PTE pa OR perm OR PTE_V)"
  shows "mapped s s2 pt a 1 pa perm"
proof -
  have "frame s s2 (tabs (ram s2) pt)"
    using g pl frame_trans [of s s1 "tabs (ram s1) pt" s2 "tabs (ram s1) pt"]
    by (simp add: grown_def put_leaf_def)
  moreover have "leaf (ram s2) pt va = map_range a 1 pa perm (leaf (ram s) pt) va" if "va < MAXVA" for va
    using that pl grown_leaf [OF g] in_page_iff [OF al, of va] al
    by (auto simp: put_leaf_def map_range_def)
  ultimately show ?thesis using g pl by (simp add: mapped_def grown_def put_leaf_def)
qed

lemma mapped_trans:
  assumes m1: "mapped s s1 pt a 1 pa perm" and m2: "mapped s1 s2 pt (a + 4096) n (pa + 4096) perm"
    and al: "page_aligned a" "unat a + 4096 < 2 ^ 64"
  shows "mapped s s2 pt a (Suc n) pa perm"
proof -
  have "frame s s2 (tabs (ram s2) pt)"
    using m1 m2 frame_trans [of s s1 "tabs (ram s1) pt" s2 "tabs (ram s2) pt"]
    by (auto simp: mapped_def intro: frame_mono)
  moreover have "leaf (ram s2) pt va = map_range a (Suc n) pa perm (leaf (ram s) pt) va" if "va < MAXVA" for va
    using that m1 m2 in_pages_Suc [OF al, of n va] in_page_iff [OF al(1), of va]
    by (auto simp: mapped_def map_range_def algebra_simps)
  ultimately show ?thesis using m1 m2 unfolding mapped_def by blast
qed

lemma less_MAXVA_iff: "va < MAXVA \<longleftrightarrow> unat va < 2 ^ 38"
  by (simp add: word_less_nat_alt MAXVA_val)

lemma map_step:
  assumes ok: "vm_ok s pt" and al: "page_aligned a" and a: "a < MAXVA"
    and inv: "\<not> valid_pte (leaf (ram s) pt a)"
  obtains (none) s1 where "walk pt a True s = Inr (0, s1)" "mapped s s1 pt a 0 pa perm" "free_pages s1 = {}"
  | (some) r s1 s2 where "walk pt a True s = Inr (r, s1)" "r \<noteq> 0" "\<not> valid_pte (read64 (ram s1) r)"
      "set_pte r (PA2PTE pa OR perm OR PTE_V) s1 = Inr ((), s2)" "mapped s s2 pt a 1 pa perm"
proof -
  obtain r s1 where w: "walk pt a True s = Inr (r, s1)" "grown s s1 pt"
    "if r = 0 then free_pages s1 = {}
     else \<exists>t'. ptab (ram s1) pt (vpath a) = Some t' \<and> r = pte_slot t' (px 0 a)"
    using walk_alloc [OF ok a] by blast
  show thesis
  proof (cases "r = 0")
    case True
    then show thesis using none w mapped_grown [OF w(2)] by simp
  next
    case False
    then obtain t' where t': "ptab (ram s1) pt (vpath a) = Some t'" "r = pte_slot t' (px 0 a)"
      using w(3) by auto
    have ok1: "vm_ok s1 pt" using w(2) by (simp add: grown_def)
    have "read64 (ram s1) r = leaf (ram s1) pt a" using t' by (simp add: leaf_def pte_at_def ent_def)
    then have "\<not> valid_pte (read64 (ram s1) r)" using inv grown_leaf [OF w(2)] by simp
    moreover note mapped_one [OF w(2) al write_leaf [OF ok1 a t'(1)]]
    ultimately show thesis
      using some [OF w(1) False] t'(2) by (simp add: set_pte_def run_simps)
  qed
qed

lemma mappages_loop_spec:
  assumes "vm_ok s pt" "page_aligned a" "unat a + 4096 * Suc k \<le> 2 ^ 38"
    "\<And>va. va < MAXVA \<Longrightarrow> in_pages a (Suc k) va \<Longrightarrow> \<not> valid_pte (leaf (ram s) pt va)"
  shows "\<exists>r s' n. mappages_loop pt a (a + 4096 * of_nat k) pa perm s = Inr (r, s') \<and>
    mapped s s' pt a n pa perm \<and> (r = 0 \<and> n = Suc k \<or> r = -1 \<and> n \<le> k \<and> free_pages s' = {})"
  using assms
proof (induction k arbitrary: a pa s)
  case (0 a pa s)
  have a: "a < MAXVA" "in_pages a 1 a" using 0 by (simp_all add: less_MAXVA_iff in_pages_def)
  then have inv: "\<not> valid_pte (leaf (ram s) pt a)" using 0(4) by simp
  show ?case
  proof (rule map_step [OF 0(1,2) a(1) inv, of pa perm], goal_cases)
    case (1 s1)
    then show ?case by (subst mappages_loop.simps) (auto simp: run_simps)
  next
    case (2 r s1 s2)
    then show ?case
      by (subst mappages_loop.simps) (auto simp: run_simps get_pte_def valid_pte_def)
  qed
next
  case (Suc k)
  have a: "a < MAXVA" "in_pages a (Suc (Suc k)) a" using Suc.prems by (simp_all add: less_MAXVA_iff in_pages_def)
  then have inv: "\<not> valid_pte (leaf (ram s) pt a)" using Suc.prems(4) by simp
  have k: "4096 * Suc k < 2 ^ 38" using Suc.prems(3) by simp
  have na: "unat (a + 4096) = unat a + 4096" using Suc.prems(3) by (intro unat_next_page) simp
  have off: "a + 4096 * of_nat (Suc k) - a = of_nat (4096 * Suc k)" by simp
  have un: "unat (of_nat (4096 * Suc k) :: u64) = 4096 * Suc k" using k by (intro unat_of_nat_small) simp
  have ge: "4096 \<le> a + 4096 * of_nat (Suc k) - a"
    unfolding off word_le_nat_alt un by simp
  have ne: "a \<noteq> a + 4096 * of_nat (Suc k)" using ge by auto
  show ?case
  proof (rule map_step [OF Suc.prems(1,2) a(1) inv, of pa perm], goal_cases)
    case (1 s1)
    then show ?case by (subst mappages_loop.simps) (auto simp: run_simps)
  next
    case (2 r s1 s2)
    have ok2: "vm_ok s2 pt" using 2(5) by (simp add: mapped_def)
    have "\<not> valid_pte (leaf (ram s2) pt va)" if "va < MAXVA" "in_pages (a + 4096) (Suc k) va" for va
    proof -
      have "\<not> in_pages a 1 va" "in_pages a (Suc (Suc k)) va" using that(2) na by (auto simp: in_pages_def)
      then show ?thesis using Suc.prems(4) [OF that(1)] 2(5) that(1) by (simp add: mapped_def map_range_def)
    qed
    from Suc.IH [OF ok2 page_aligned_add [OF Suc.prems(2)] _ this, of "pa + 4096"] Suc.prems(3) na
    obtain r' s' n where IH: "mappages_loop pt (a + 4096) (a + 4096 + 4096 * of_nat k) (pa + 4096) perm s2 = Inr (r', s')"
      "mapped s2 s' pt (a + 4096) n (pa + 4096) perm"
      "r' = 0 \<and> n = Suc k \<or> r' = -1 \<and> n \<le> k \<and> free_pages s' = {}" by auto
    have "mapped s s' pt a (Suc n) pa perm"
      using mapped_trans [OF 2(5) IH(2) Suc.prems(2)] Suc.prems(3) by simp
    moreover have "a + 4096 + 4096 * of_nat k = a + 4096 * of_nat (Suc k)" by (simp add: algebra_simps)
    then have "mappages_loop pt a (a + 4096 * of_nat (Suc k)) pa perm s = Inr (r', s')"
      using 2 IH(1) ne ge by (subst mappages_loop.simps) (simp add: run_simps get_pte_def valid_pte_def add.assoc)
    ultimately show ?case using IH(3) by (intro exI [of _ r'] exI [of _ s'] exI [of _ "Suc n"]) auto
  qed
qed

lemma mappages_spec:
  assumes ok: "vm_ok s pt" and al: "page_aligned a" and n: "0 < n" "unat a + 4096 * n \<le> 2 ^ 38"
    and free: "\<And>va. va < MAXVA \<Longrightarrow> in_pages a n va \<Longrightarrow> \<not> valid_pte (leaf (ram s) pt va)"
  shows "\<exists>r s' k. mappages pt a (4096 * of_nat n) pa perm s = Inr (r, s') \<and>
    mapped s s' pt a k pa perm \<and> (r = 0 \<and> k = n \<or> r = -1 \<and> k < n \<and> free_pages s' = {})"
proof -
  obtain k where k: "n = Suc k" using n by (cases n) auto
  have "unat (of_nat (4096 * n) :: u64) = 4096 * n" using n by (intro unat_of_nat_small) simp
  then have nz: "4096 * of_nat n \<noteq> (0 :: u64)" using n by auto
  have "page_aligned (4096 * of_nat n)" using page_aligned_mult [of n] by (simp add: mult.commute)
  moreover have "a + 4096 * of_nat n - 4096 = a + 4096 * of_nat k" by (simp add: k algebra_simps)
  ultimately have "mappages pt a (4096 * of_nat n) pa perm s =
      mappages_loop pt a (a + 4096 * of_nat k) pa perm s"
    using al nz unfolding mappages_def page_aligned_def by (simp only: if_False not_True_eq_False simp_thms)
  then show ?thesis
    using mappages_loop_spec [OF ok al, of k pa perm] n free unfolding k by fastforce
qed

subsection \<open>uvmunmap\<close>

definition range_pages :: "mem \<Rightarrow> addr \<Rightarrow> u64 \<Rightarrow> nat \<Rightarrow> addr set" where
  "range_pages m pt a n =
     {PTE2PA (leaf m pt va) | va. va < MAXVA \<and> in_pages a n va \<and> valid_pte (leaf m pt va)}"

text \<open>The pages mapped in a range belong to this range alone.\<close>

definition owned :: "'z kmem_scheme \<Rightarrow> addr \<Rightarrow> u64 \<Rightarrow> nat \<Rightarrow> bool" where
  "owned s pt a n \<longleftrightarrow>
     (\<forall>p \<in> range_pages (ram s) pt a n. good_page s p \<and> p \<notin> free_pages s \<and> p \<notin> tabs (ram s) pt) \<and>
     (\<forall>va vb. va < MAXVA \<longrightarrow> vb < MAXVA \<longrightarrow> in_pages a n va \<longrightarrow> in_pages a n vb \<longrightarrow>
        valid_pte (leaf (ram s) pt va) \<longrightarrow> valid_pte (leaf (ram s) pt vb) \<longrightarrow>
        PTE2PA (leaf (ram s) pt va) = PTE2PA (leaf (ram s) pt vb) \<longrightarrow> PGROUNDDOWN va = PGROUNDDOWN vb)"

text \<open>The effect of \<^verbatim>\<open>uvmunmap\<close> on \<open>n\<close> pages from \<open>a\<close>; \<open>F\<close> is the set of freed pages.\<close>

definition unmapped :: "'z kmem_scheme \<Rightarrow> 'z kmem_scheme \<Rightarrow> addr \<Rightarrow> u64 \<Rightarrow> nat \<Rightarrow> addr set \<Rightarrow> bool" where
  "unmapped s s' pt a n F \<longleftrightarrow> vm_ok s' pt \<and> tabs (ram s') pt = tabs (ram s) pt \<and>
     free_pages s' = free_pages s \<union> F \<and> frame s s' (tabs (ram s) pt \<union> F) \<and>
     (\<forall>va < MAXVA. leaf (ram s') pt va = (if in_pages a n va \<and> valid_pte (leaf (ram s) pt va) then 0
        else leaf (ram s) pt va))"

lemma unmapped_refl: "vm_ok s pt \<Longrightarrow> unmapped s s pt a 0 {}"
  by (simp add: unmapped_def)

lemma kfree_spec:
  assumes ok: "kmem_ok s" and p: "good_page s p" "p \<notin> free_pages s"
  shows "\<exists>s'. kfree p s = Inr ((), s') \<and> kmem_ok s' \<and> free_pages s' = insert p (free_pages s) \<and>
    frame s s' {p}"
proof -
  let ?m = "write64 (memset (ram s) p 1 4096) p (freelist s)"
  have "frame s (s\<lparr>ram := ?m, freelist := p\<rparr>) {p}"
  proof (rule frame_ram)
    fix a k assume a: "page_aligned a" "a \<notin> {p}" "k < (4096 :: nat)"
    then have "?m (a + of_nat k) = memset (ram s) p 1 4096 (a + of_nat k)"
      using p write_slot_other_page [of p a 0 k] by (simp add: good_page_def pte_slot_def)
    then show "?m (a + of_nat k) = ram s (a + of_nat k)"
      using a p memset_other_page [of p a k] by (simp add: good_page_def)
  qed
  moreover obtain s' where s': "kfree p s = Inr ((), s')" "free_pages s' = insert p (free_pages s)" "kmem_ok s'"
    using kpages.free_valid [OF ok p] by blast
  ultimately show ?thesis using kfree_run [OF p(1)] by auto
qed

lemma leaf_same_page: "PGROUNDDOWN va = PGROUNDDOWN vb \<Longrightarrow> leaf m pt va = leaf m pt vb"
  by (metis leaf_PGROUNDDOWN)

lemma put_leaf_unmapped:
  assumes al: "page_aligned a" and v: "valid_pte (leaf (ram s) pt a)"
    and pl: "put_leaf s1 s' pt a 0" and fr: "frame s s1 F" "free_pages s1 = free_pages s \<union> F"
      "tabs (ram s1) pt = tabs (ram s) pt" "\<And>va. leaf (ram s1) pt va = leaf (ram s) pt va"
  shows "unmapped s s' pt a 1 F"
proof -
  have "leaf (ram s) pt va = leaf (ram s) pt a" if "PGROUNDDOWN va = a" for va
    using that al by (intro leaf_same_page) simp
  then have vv: "valid_pte (leaf (ram s) pt va)" if "PGROUNDDOWN va = a" for va
    using that v by metis
  have "leaf (ram s') pt va = (if in_pages a 1 va \<and> valid_pte (leaf (ram s) pt va) then 0
        else leaf (ram s) pt va)" if "va < MAXVA" for va
    using that vv pl fr(4) al in_page_iff [OF al, of va] by (simp add: put_leaf_def)
  moreover have "frame s s' (tabs (ram s) pt \<union> F)"
    using frame_trans [OF fr(1), of s' "tabs (ram s) pt"] pl fr(3) by (simp add: put_leaf_def Un_commute)
  ultimately show ?thesis using pl fr(2,3) by (simp add: unmapped_def put_leaf_def)
qed

lemma unmap_step:
  assumes ok: "vm_ok s pt" and al: "page_aligned a" and a: "a < MAXVA"
    and own: "do_free \<Longrightarrow> owned s pt a 1"
  shows "\<exists>s'. bindK (walk pt a False) (\<lambda>pte. if pte = 0 then returnK ()
       else bindK (get_pte pte) (\<lambda>e. if e AND PTE_V = 0 then returnK ()
         else thenK (whenK do_free (kfree (PTE2PA e))) (set_pte pte 0))) s = Inr ((), s') \<and>
     unmapped s s' pt a 1 (if do_free then range_pages (ram s) pt a 1 else {})"
    (is "\<exists>s'. ?body s = _ \<and> unmapped s s' pt a 1 ?F")
proof (cases "valid_pte (leaf (ram s) pt a)")
  case False
  have "leaf (ram s) pt va = leaf (ram s) pt a" if "in_pages a 1 va" for va
    using that al in_page_iff [OF al] by (intro leaf_same_page) simp
  then have none: "\<not> valid_pte (leaf (ram s) pt va)" if "in_pages a 1 va" for va using False that by metis
  then have "unmapped s s pt a 1 ?F" using ok by (auto simp: unmapped_def range_pages_def)
  moreover have "?body s = Inr ((), s)"
    using False read_walk_slot [OF ok, of a]
    by (simp add: walk_lookup [OF a] run_simps get_pte_def valid_pte_def)
  ultimately show ?thesis by blast
next
  case True
  then have nz: "walk_slot (ram s) pt a \<noteq> 0" using walk_slot_leaf [of s pt a] ok by auto
  then obtain t where t: "ptab (ram s) pt (vpath a) = Some t" "walk_slot (ram s) pt a = pte_slot t (px 0 a)"
    by (auto simp: walk_slot_def split: option.splits)
  let ?p = "PTE2PA (leaf (ram s) pt a)"
  have same: "leaf (ram s) pt va = leaf (ram s) pt a" if "in_pages a 1 va" for va
    using that al in_page_iff [OF al] by (intro leaf_same_page) simp
  have rp: "range_pages (ram s) pt a 1 = {?p}"
  proof (intro equalityI subsetI)
    fix x assume "x \<in> range_pages (ram s) pt a 1"
    then obtain va where "x = PTE2PA (leaf (ram s) pt va)" "in_pages a 1 va"
      by (auto simp: range_pages_def)
    then show "x \<in> {?p}" using same [of va] by simp
  next
    have "in_pages a 1 a" using al in_page_iff by simp
    then show "x \<in> range_pages (ram s) pt a 1" if "x \<in> {?p}" for x
      using that True a unfolding range_pages_def by blast
  qed
  have body: "?body s = thenK (whenK do_free (kfree ?p)) (set_pte (pte_slot t (px 0 a)) 0) s"
    using True nz read_walk_slot [OF ok nz] t(2)
    by (simp add: walk_lookup [OF a] run_simps get_pte_def valid_pte_def)
  have set: "set_pte sl 0 s1 = Inr ((), s1\<lparr>ram := write64 (ram s1) sl 0\<rparr>)" for sl and s1 :: "'a kmem_scheme"
    by (simp add: set_pte_def run_simps)
  show ?thesis
  proof (cases do_free)
    case False
    have "unmapped s (s\<lparr>ram := write64 (ram s) (pte_slot t (px 0 a)) 0\<rparr>) pt a 1 {}"
      by (rule put_leaf_unmapped [OF al True write_leaf [OF ok a t(1)]]) simp_all
    then show ?thesis using body False set by (simp add: run_simps)
  next
    case True
    then have p: "good_page s ?p" "?p \<notin> free_pages s" "?p \<notin> tabs (ram s) pt"
      using own rp by (auto simp: owned_def)
    then obtain s1 where s1: "kfree ?p s = Inr ((), s1)" "kmem_ok s1"
        "free_pages s1 = insert ?p (free_pages s)" "frame s s1 {?p}"
      using kfree_spec [of s ?p] ok by (auto simp: vm_ok_def)
    have dj: "{?p} \<inter> tabs (ram s) pt = {}" using p by simp
    note un = untouched [OF ok s1(4) dj]
    have "free_pages s1 \<inter> tabs (ram s) pt = {}" using ok p s1(3) by (auto simp: vm_ok_def)
    then have ok1: "vm_ok s1 pt" by (rule un(4) [OF s1(2)])
    have lf: "leaf (ram s1) pt va = leaf (ram s) pt va" for va
      by (simp add: leaf_def un(3))
    have t1: "ptab (ram s1) pt (vpath a) = Some t" using un(2) t(1) by simp
    have "unmapped s (s1\<lparr>ram := write64 (ram s1) (pte_slot t (px 0 a)) 0\<rparr>) pt a 1 {?p}"
      by (rule put_leaf_unmapped [OF al \<open>valid_pte _\<close> write_leaf [OF ok1 a t1] s1(4)])
        (use s1(3) un(1) lf in simp_all)
    then show ?thesis using body True set s1(1) rp by (simp add: run_simps)
  qed
qed

end
