(* ===== verification/Vm_User.thy ===== *)
theory Vm_User
  imports Vm_Map
begin

unbundle bit_operations_syntax

section \<open>User address spaces\<close>

text \<open>
  The routines that build, shrink, copy and free a user address space and move bytes between
  it and the kernel, on top of the specifications of \<^verbatim>\<open>mappages\<close> and \<^verbatim>\<open>uvmunmap\<close>.
\<close>

subsection \<open>uvmunmap\<close>

lemma in_pages_cases:
  assumes "page_aligned a" "unat a + 4096 * Suc n \<le> 2 ^ 38"
  shows "in_pages a (Suc n) va \<longleftrightarrow> in_pages a 1 va \<or> in_pages (a + 4096) n va"
    and "\<not> (in_pages a 1 va \<and> in_pages (a + 4096) n va)"
proof -
  have na: "unat (a + 4096) = unat a + 4096" using assms by (intro unat_next_page) simp
  show "in_pages a (Suc n) va \<longleftrightarrow> in_pages a 1 va \<or> in_pages (a + 4096) n va"
    using na by (auto simp: in_pages_def)
  show "\<not> (in_pages a 1 va \<and> in_pages (a + 4096) n va)" using na by (auto simp: in_pages_def)
qed

lemma range_pages_Suc:
  assumes "page_aligned a" "unat a + 4096 * Suc n \<le> 2 ^ 38"
  shows "range_pages m pt a (Suc n) = range_pages m pt a 1 \<union> range_pages m pt (a + 4096) n"
  unfolding range_pages_def in_pages_cases(1) [OF assms] by blast

lemma range_pages_0 [simp]: "range_pages m pt a 0 = {}"
  by (simp add: range_pages_def)

lemma range_pages_cong:
  "(\<And>va. va < MAXVA \<Longrightarrow> in_pages a n va \<Longrightarrow> leaf m' pt va = leaf m pt va) \<Longrightarrow>
   range_pages m' pt a n = range_pages m pt a n"
  unfolding range_pages_def by (intro Collect_cong ex_cong1) auto

lemma owned_mono:
  assumes "owned s pt a n" "\<And>va. in_pages b k va \<Longrightarrow> in_pages a n va"
  shows "owned s pt b k"
proof -
  have "range_pages (ram s) pt b k \<subseteq> range_pages (ram s) pt a n"
    using assms(2) unfolding range_pages_def by blast
  then show ?thesis using assms unfolding owned_def by blast
qed

text \<open>After the first page is unmapped the rest of the range is still owned.\<close>

lemma owned_rest:
  assumes own: "owned s pt a (Suc n)" and al: "page_aligned a" "unat a + 4096 * Suc n \<le> 2 ^ 38"
    and un: "unmapped s s1 pt a 1 (range_pages (ram s) pt a 1)"
  shows "owned s1 pt (a + 4096) n"
    and "range_pages (ram s1) pt (a + 4096) n = range_pages (ram s) pt (a + 4096) n"
proof -
  note cs = in_pages_cases [OF al]
  have lf: "leaf (ram s1) pt va = leaf (ram s) pt va" if "va < MAXVA" "in_pages (a + 4096) n va" for va
    using that un cs(2) [of va] by (simp add: unmapped_def)
  then show rp: "range_pages (ram s1) pt (a + 4096) n = range_pages (ram s) pt (a + 4096) n"
    by (rule range_pages_cong)
  have rest: "owned s pt (a + 4096) n" by (rule owned_mono [OF own]) (simp add: cs(1))
  have dj: "range_pages (ram s) pt a 1 \<inter> range_pages (ram s) pt (a + 4096) n = {}"
  proof (rule ccontr)
    assume "\<not> ?thesis"
    then obtain va vb where v: "va < MAXVA" "in_pages a 1 va" "valid_pte (leaf (ram s) pt va)"
      "vb < MAXVA" "in_pages (a + 4096) n vb" "valid_pte (leaf (ram s) pt vb)"
      "PTE2PA (leaf (ram s) pt va) = PTE2PA (leaf (ram s) pt vb)"
      unfolding range_pages_def by blast
    then have "PGROUNDDOWN va = PGROUNDDOWN vb"
      using own cs(1) unfolding owned_def by blast
    then have "in_pages a 1 vb" using v(2) in_page_iff [OF al(1)] by metis
    then show False using cs(2) v(5) by blast
  qed
  have tb: "tabs (ram s1) pt = tabs (ram s) pt" and fr: "good_page s1 = good_page s"
    and fp: "free_pages s1 = free_pages s \<union> range_pages (ram s) pt a 1"
    using un frame_good by (auto simp: unmapped_def)
  show "owned s1 pt (a + 4096) n"
    unfolding owned_def
  proof (intro conjI ballI allI impI)
    fix p assume "p \<in> range_pages (ram s1) pt (a + 4096) n"
    then have p: "p \<in> range_pages (ram s) pt (a + 4096) n" using rp by simp
    then have "good_page s p \<and> p \<notin> free_pages s \<and> p \<notin> tabs (ram s) pt"
      using rest unfolding owned_def by blast
    then show "good_page s1 p" "p \<notin> free_pages s1" "p \<notin> tabs (ram s1) pt"
      using p dj fp tb fr by auto
  next
    fix va vb
    assume v: "va < MAXVA" "vb < MAXVA" "in_pages (a + 4096) n va" "in_pages (a + 4096) n vb"
      "valid_pte (leaf (ram s1) pt va)" "valid_pte (leaf (ram s1) pt vb)"
      "PTE2PA (leaf (ram s1) pt va) = PTE2PA (leaf (ram s1) pt vb)"
    then show "PGROUNDDOWN va = PGROUNDDOWN vb"
      using rest unfolding owned_def lf [OF v(1,3)] lf [OF v(2,4)] by blast
  qed
qed

lemma unmapped_trans:
  assumes u1: "unmapped s s1 pt a 1 F" and u2: "unmapped s1 s2 pt (a + 4096) n G"
    and al: "page_aligned a" "unat a + 4096 * Suc n \<le> 2 ^ 38"
  shows "unmapped s s2 pt a (Suc n) (F \<union> G)"
proof -
  have "frame s s2 (tabs (ram s) pt \<union> (F \<union> G))"
    using u1 u2 frame_trans [of s s1 "tabs (ram s) pt \<union> F" s2 "tabs (ram s) pt \<union> G"]
    by (auto simp: unmapped_def elim!: frame_mono)
  then show ?thesis
    using u1 u2 in_pages_cases [OF al] unfolding unmapped_def by (auto simp: Un_assoc)
qed

lemma uvmunmap_loop_spec:
  assumes "vm_ok s pt" "page_aligned a" "unat a + 4096 * n \<le> 2 ^ 38"
    "do_free \<Longrightarrow> owned s pt a n"
  shows "\<exists>s'. uvmunmap_loop pt a (a + 4096 * of_nat n) do_free s = Inr ((), s') \<and>
    unmapped s s' pt a n (if do_free then range_pages (ram s) pt a n else {})"
  using assms
proof (induction n arbitrary: a s)
  case 0
  then show ?case
    by (subst uvmunmap_loop.simps) (simp add: run_simps unmapped_refl)
next
  case (Suc n)
  have a: "a < MAXVA" using Suc.prems by (simp add: less_MAXVA_iff)
  have na: "unat (a + 4096) = unat a + 4096" using Suc.prems(3) by (intro unat_next_page) simp
  have "unat (a + of_nat (4096 * Suc n)) = unat a + 4096 * Suc n"
    using Suc.prems(3) by (simp add: unat_word_ariths unat_of_nat_small)
  then have less: "a < a + 4096 * of_nat (Suc n)" by (simp add: word_less_nat_alt)
  have step: "a < a + 4096" using na by (simp add: word_less_nat_alt)
  have own1: "do_free \<Longrightarrow> owned s pt a 1"
    using Suc.prems(4) by (rule owned_mono) (auto simp: in_pages_def)
  obtain s1 where s1: "bindK (walk pt a False) (\<lambda>pte. if pte = 0 then returnK ()
       else bindK (get_pte pte) (\<lambda>e. if e AND PTE_V = 0 then returnK ()
         else thenK (whenK do_free (kfree (PTE2PA e))) (set_pte pte 0))) s = Inr ((), s1)"
     "unmapped s s1 pt a 1 (if do_free then range_pages (ram s) pt a 1 else {})"
    using unmap_step [OF Suc.prems(1,2) a own1] by blast
  have ok1: "vm_ok s1 pt" using s1(2) by (simp add: unmapped_def)
  have own': "do_free \<Longrightarrow> owned s1 pt (a + 4096) n"
    using owned_rest(1) [OF Suc.prems(4) Suc.prems(2,3)] s1(2) by simp
  obtain s2 where s2: "uvmunmap_loop pt (a + 4096) (a + 4096 + 4096 * of_nat n) do_free s1 = Inr ((), s2)"
     "unmapped s1 s2 pt (a + 4096) n (if do_free then range_pages (ram s1) pt (a + 4096) n else {})"
    using Suc.IH [OF ok1 page_aligned_add [OF Suc.prems(2)] _ own'] na Suc.prems(3) by auto
  have "a + 4096 + 4096 * of_nat n = a + 4096 * of_nat (Suc n)" by (simp add: algebra_simps)
  then have run: "uvmunmap_loop pt a (a + 4096 * of_nat (Suc n)) do_free s = Inr ((), s2)"
    using s1(1) s2(1) less step by (subst uvmunmap_loop.simps) (simp only: if_True run_simps, simp)
  have "unmapped s s2 pt a (Suc n) (if do_free then range_pages (ram s) pt a (Suc n) else {})"
    using unmapped_trans [OF s1(2) s2(2) Suc.prems(2,3)] owned_rest(2) [OF Suc.prems(4) Suc.prems(2,3)]
      s1(2) range_pages_Suc [OF Suc.prems(2,3)] by (cases do_free) simp_all
  then show ?case using run by blast
qed

lemma uvmunmap_spec:
  assumes "vm_ok s pt" "page_aligned a" "unat a + 4096 * n \<le> 2 ^ 38" "do_free \<Longrightarrow> owned s pt a n"
  shows "\<exists>s'. uvmunmap pt a (of_nat n) do_free s = Inr ((), s') \<and>
    unmapped s s' pt a n (if do_free then range_pages (ram s) pt a n else {})"
  using uvmunmap_loop_spec [OF assms] assms(2)
  by (simp add: uvmunmap_def page_aligned_def mult.commute)

subsection \<open>The user's view of memory\<close>

definition user_pte :: "u64 \<Rightarrow> bool" where
  "user_pte e \<longleftrightarrow> e AND PTE_U \<noteq> 0"

definition phys :: "mem \<Rightarrow> addr \<Rightarrow> u64 \<Rightarrow> addr" where
  "phys m pt va = PTE2PA (leaf m pt va) + (va - PGROUNDDOWN va)"

text \<open>
  What user code reads at \<open>va\<close>: the byte of a mapped user page; zero in a page below the
  process size that has not been touched yet; nothing elsewhere.
\<close>

definition uview :: "'z vm_scheme \<Rightarrow> addr \<Rightarrow> u64 \<Rightarrow> byte option" where
  "uview s pt va =
     (let e = leaf (ram s) pt va in
      if valid_pte e then (if user_pte e then Some (ram s (phys (ram s) pt va)) else None)
      else if PGROUNDDOWN va < p_sz s then Some 0 else None)"

definition uwritable :: "'z vm_scheme \<Rightarrow> addr \<Rightarrow> u64 \<Rightarrow> bool" where
  "uwritable s pt va \<longleftrightarrow>
     (let e = leaf (ram s) pt va in
      if valid_pte e then user_pte e \<and> e AND PTE_W \<noteq> 0 else PGROUNDDOWN va < p_sz s)"

text \<open>
  The pages below the trapframe belong to the process, the two pages above are the kernel's.
\<close>

definition uspace :: "'z vm_scheme \<Rightarrow> addr \<Rightarrow> bool" where
  "uspace s pt \<longleftrightarrow> vm_ok s pt \<and> owned s pt 0 0x3FFFFFE \<and>
     (\<forall>va < MAXVA. valid_pte (leaf (ram s) pt va) \<longrightarrow> user_pte (leaf (ram s) pt va) \<longrightarrow> va < TRAPFRAME) \<and>
     p_sz s \<le> TRAPFRAME \<and> p_pagetable s = pt"

lemma in_user_pages: "in_pages 0 0x3FFFFFE va \<longleftrightarrow> va < TRAPFRAME"
  by (simp add: in_pages_def word_less_nat_alt TRAPFRAME_val)

lemma below_TRAPFRAME: "va < TRAPFRAME \<Longrightarrow> va < MAXVA"
  by (simp add: word_less_nat_alt layout_vals)

lemma PGROUNDDOWN_less: "va < b \<Longrightarrow> PGROUNDDOWN va < b"
  using PGROUNDDOWN_le le_less_trans by blast

lemma PGROUNDDOWN_less_iff:
  assumes "page_aligned b"
  shows "PGROUNDDOWN va < b \<longleftrightarrow> va < b"
proof
  assume "PGROUNDDOWN va < b"
  then have less: "unat va - unat va mod 4096 < unat b"
    by (simp add: word_less_nat_alt unat_PGROUNDDOWN)
  obtain q where q: "unat b = 4096 * q" using assms by (auto simp: page_aligned_nat)
  obtain r where r: "unat va - unat va mod 4096 = 4096 * r" using dvd_minus_mod by blast
  have "unat va mod 4096 < 4096" "unat va mod 4096 \<le> unat va" by simp_all
  moreover have "r < q" using less q r by simp
  ultimately have "unat va < unat b" using q r by linarith
  then show "va < b" by (simp add: word_less_nat_alt)
qed (rule PGROUNDDOWN_less)

lemma TRAPFRAME_aligned [simp]: "page_aligned TRAPFRAME"
  by (simp add: page_aligned_def TRAPFRAME_val)

lemma uspace_page:
  assumes "uspace s pt" "va < TRAPFRAME" "valid_pte (leaf (ram s) pt va)"
  shows "good_page s (PTE2PA (leaf (ram s) pt va))" "PTE2PA (leaf (ram s) pt va) \<notin> free_pages s"
    "PTE2PA (leaf (ram s) pt va) \<notin> tabs (ram s) pt"
proof -
  have "PTE2PA (leaf (ram s) pt va) \<in> range_pages (ram s) pt 0 0x3FFFFFE"
    using assms(2,3) below_TRAPFRAME in_user_pages unfolding range_pages_def by blast
  then show "good_page s (PTE2PA (leaf (ram s) pt va))" "PTE2PA (leaf (ram s) pt va) \<notin> free_pages s"
    "PTE2PA (leaf (ram s) pt va) \<notin> tabs (ram s) pt"
    using assms(1) by (auto simp: uspace_def owned_def)
qed

lemma uspace_inj:
  assumes "uspace s pt" "va < TRAPFRAME" "vb < TRAPFRAME"
    "valid_pte (leaf (ram s) pt va)" "valid_pte (leaf (ram s) pt vb)"
    "PTE2PA (leaf (ram s) pt va) = PTE2PA (leaf (ram s) pt vb)"
  shows "PGROUNDDOWN va = PGROUNDDOWN vb"
  using assms below_TRAPFRAME unfolding uspace_def owned_def in_user_pages by blast

text \<open>A way to build the invariant: it is local to addresses below the trapframe.\<close>

lemma uspaceI:
  assumes "vm_ok s pt" "p_sz s \<le> TRAPFRAME" "p_pagetable s = pt"
    and "\<And>va. va < TRAPFRAME \<Longrightarrow> valid_pte (leaf (ram s) pt va) \<Longrightarrow>
       good_page s (PTE2PA (leaf (ram s) pt va)) \<and> PTE2PA (leaf (ram s) pt va) \<notin> free_pages s \<and>
       PTE2PA (leaf (ram s) pt va) \<notin> tabs (ram s) pt"
    and "\<And>va vb. va < TRAPFRAME \<Longrightarrow> vb < TRAPFRAME \<Longrightarrow> valid_pte (leaf (ram s) pt va) \<Longrightarrow>
       valid_pte (leaf (ram s) pt vb) \<Longrightarrow> PTE2PA (leaf (ram s) pt va) = PTE2PA (leaf (ram s) pt vb) \<Longrightarrow>
       PGROUNDDOWN va = PGROUNDDOWN vb"
    and "\<And>va. va < MAXVA \<Longrightarrow> valid_pte (leaf (ram s) pt va) \<Longrightarrow> user_pte (leaf (ram s) pt va) \<Longrightarrow>
       va < TRAPFRAME"
  shows "uspace s pt"
  using assms unfolding uspace_def owned_def in_user_pages range_pages_def by blast

lemma page_off:
  obtains k where "k < 4096" "va - PGROUNDDOWN va = of_nat k" "va = PGROUNDDOWN va + of_nat k"
proof -
  have eq: "va - PGROUNDDOWN va = va mod 4096" by (simp add: PGROUNDDOWN_eq_sub)
  have "va mod 4096 < 4096" by (simp add: word_mod_less_divisor)
  then have "unat (va mod 4096) < 4096" by (simp add: word_less_nat_alt)
  moreover have "va - PGROUNDDOWN va = of_nat (unat (va mod 4096))" using eq by simp
  moreover have "va = PGROUNDDOWN va + of_nat (unat (va mod 4096))"
    by (simp add: PGROUNDDOWN_eq_sub)
  ultimately show thesis using that by blast
qed

subsection \<open>Looking up user addresses\<close>

lemma walkaddr_run:
  assumes "vm_ok s pt" "va < MAXVA"
  shows "walkaddr pt va s = Inr (if valid_pte (leaf (ram s) pt va) \<and> user_pte (leaf (ram s) pt va)
     then PTE2PA (leaf (ram s) pt va) else 0, s)"
  using assms(2) [folded not_le] read_walk_slot [OF assms(1), of va] walk_slot_leaf [of s pt va] assms(1)
  by (auto simp: walkaddr_def walk_lookup [OF assms(2)] run_simps get_pte_def valid_pte_def user_pte_def)

lemma walkaddr_high: "MAXVA \<le> va \<Longrightarrow> walkaddr pt va s = Inr (0, s)"
  by (simp add: walkaddr_def run_simps)

lemma ismapped_run:
  assumes "vm_ok s pt" "va < MAXVA"
  shows "ismapped pt va s = Inr (valid_pte (leaf (ram s) pt va), s)"
  using read_walk_slot [OF assms(1), of va] walk_slot_leaf [of s pt va] assms(1)
  by (auto simp: ismapped_def walk_lookup [OF assms(2)] run_simps get_pte_def valid_pte_def)

subsection \<open>Steps that the user cannot see\<close>

definition uext :: "'z vm_scheme \<Rightarrow> 'z vm_scheme \<Rightarrow> addr \<Rightarrow> bool" where
  "uext s s' pt \<longleftrightarrow> uspace s' pt \<and>
     (\<forall>va < MAXVA. uview s' pt va = uview s pt va \<and> uwritable s' pt va = uwritable s pt va \<and>
        (valid_pte (leaf (ram s) pt va) \<longrightarrow> valid_pte (leaf (ram s') pt va))) \<and>
     (\<exists>m f. s' = s\<lparr>ram := m, freelist := f\<rparr>)"

lemma uext_refl: "uspace s pt \<Longrightarrow> uext s s pt"
  unfolding uext_def by (auto intro!: exI [of _ "ram s"] exI [of _ "freelist s"])

lemma uext_trans:
  assumes "uext s s1 pt" "uext s1 s2 pt"
  shows "uext s s2 pt"
proof -
  obtain m f m' f' where "s1 = s\<lparr>ram := m, freelist := f\<rparr>" "s2 = s1\<lparr>ram := m', freelist := f'\<rparr>"
    using assms by (auto simp: uext_def)
  then have "s2 = s\<lparr>ram := m', freelist := f'\<rparr>" by simp
  moreover have "\<forall>va < MAXVA. uview s2 pt va = uview s pt va \<and> uwritable s2 pt va = uwritable s pt va \<and>
      (valid_pte (leaf (ram s) pt va) \<longrightarrow> valid_pte (leaf (ram s2) pt va))"
    using assms unfolding uext_def by simp
  moreover have "uspace s2 pt" using assms(2) unfolding uext_def by simp
  ultimately show ?thesis unfolding uext_def by blast
qed

lemma frame_fields: "frame s s' A \<Longrightarrow> p_sz s' = p_sz s \<and> p_pagetable s' = p_pagetable s"
  for s s' :: "'z vm_scheme"
  by (auto simp: frame_def)

lemma frame_byte:
  assumes "frame s s' A" "page_aligned p" "p \<notin> A"
  shows "ram s' (p + (va - PGROUNDDOWN va)) = ram s (p + (va - PGROUNDDOWN va))"
proof -
  obtain k where "k < 4096" "va - PGROUNDDOWN va = of_nat k" using page_off by blast
  then show ?thesis using assms by (simp add: frame_def)
qed

lemma uext_add:
  fixes s s' :: "'z vm_scheme"
  assumes us: "uspace s pt" and ok: "vm_ok s' pt" and fr: "frame s s' A"
    and A: "A \<subseteq> tabs (ram s) pt \<union> free_pages s"
    and own: "tabs (ram s') pt \<union> free_pages s' \<subseteq> tabs (ram s) pt \<union> free_pages s"
    and lf: "\<And>va. va < MAXVA \<Longrightarrow> leaf (ram s') pt va = (if va \<in> P then e else leaf (ram s) pt va)"
    and P: "\<And>va. va \<in> P \<Longrightarrow> PGROUNDDOWN va = a \<and> \<not> valid_pte (leaf (ram s) pt va)"
    and a: "a < p_sz s" and e: "valid_pte e" "user_pte e" "e AND PTE_W \<noteq> 0" and c: "PTE2PA e = c"
    and cf: "P \<noteq> {} \<Longrightarrow> c \<in> free_pages s \<and> c \<notin> tabs (ram s') pt \<and> c \<notin> free_pages s' \<and>
       (\<forall>k < 4096. ram s' (c + of_nat k) = 0)"
  shows "uext s s' pt"
proof -
  have sz: "p_sz s \<le> TRAPFRAME" "p_pagetable s = pt" using us by (simp_all add: uspace_def)
  have Ptr: "va < TRAPFRAME" if "va \<in> P" for va
  proof -
    have "PGROUNDDOWN va < TRAPFRAME" using P [OF that] a sz by auto
    then show ?thesis using PGROUNDDOWN_less_iff by simp
  qed
  note pg = uspace_page [OF us]
  have old: "PTE2PA (leaf (ram s) pt va) \<noteq> c" if "va < TRAPFRAME" "valid_pte (leaf (ram s) pt va)" "P \<noteq> {}" for va
    using pg [OF that(1,2)] cf [OF that(3)] by auto
  have "uspace s' pt"
  proof (rule uspaceI [OF ok])
    show "p_sz s' \<le> TRAPFRAME" "p_pagetable s' = pt" using frame_fields [OF fr] sz by simp_all
    show "good_page s' (PTE2PA (leaf (ram s') pt va)) \<and> PTE2PA (leaf (ram s') pt va) \<notin> free_pages s' \<and>
       PTE2PA (leaf (ram s') pt va) \<notin> tabs (ram s') pt"
      if v: "va < TRAPFRAME" "valid_pte (leaf (ram s') pt va)" for va
    proof (cases "va \<in> P")
      case True
      then have "P \<noteq> {}" by auto
      then show ?thesis
        using cf True lf [OF below_TRAPFRAME [OF v(1)]] c frame_good [OF fr] kmem_ok_good [of s c] us
        by (auto simp: uspace_def vm_ok_def)
    next
      case False
      then have "leaf (ram s') pt va = leaf (ram s) pt va" using lf [OF below_TRAPFRAME [OF v(1)]] by simp
      then show ?thesis using pg [OF v(1)] v(2) own frame_good [OF fr] by auto
    qed
    show "PGROUNDDOWN va = PGROUNDDOWN vb"
      if v: "va < TRAPFRAME" "vb < TRAPFRAME" "valid_pte (leaf (ram s') pt va)"
        "valid_pte (leaf (ram s') pt vb)" "PTE2PA (leaf (ram s') pt va) = PTE2PA (leaf (ram s') pt vb)" for va vb
    proof -
      note lfa = lf [OF below_TRAPFRAME [OF v(1)]] and lfb = lf [OF below_TRAPFRAME [OF v(2)]]
      show ?thesis
    proof (cases "va \<in> P")
      case True
      have "vb \<in> P"
      proof (rule ccontr)
        assume n: "vb \<notin> P"
        then have "PTE2PA (leaf (ram s) pt vb) = c" "valid_pte (leaf (ram s) pt vb)"
          using v(4,5) lfa lfb True c by simp_all
        then show False using old [OF v(2)] True by blast
      qed
      then show ?thesis using P [OF True] P [of vb] by simp
    next
      case False
      have "vb \<notin> P"
      proof
        assume n: "vb \<in> P"
        then have "PTE2PA (leaf (ram s) pt va) = c" "valid_pte (leaf (ram s) pt va)"
          using v(3,5) lfa lfb False c by simp_all
        then show False using old [OF v(1)] n by blast
      qed
      then show ?thesis using uspace_inj [OF us v(1,2)] v lfa lfb False by simp
    qed
    qed
    show "va < TRAPFRAME"
      if "va < MAXVA" "valid_pte (leaf (ram s') pt va)" "user_pte (leaf (ram s') pt va)" for va
      using that lf [OF that(1)] Ptr us by (auto simp: uspace_def split: if_splits)
  qed
  moreover have "uview s' pt va = uview s pt va" if va: "va < MAXVA" for va
  proof (cases "va \<in> P")
    case True
    then have "P \<noteq> {}" by auto
    obtain k where k: "k < 4096" "va - PGROUNDDOWN va = of_nat k" using page_off by blast
    have "ram s' (phys (ram s') pt va) = 0"
      using cf [OF \<open>P \<noteq> {}\<close>] k lf [OF va] True c by (simp add: phys_def)
    then have "uview s' pt va = Some 0" using lf [OF va] True e by (simp add: uview_def)
    moreover have "uview s pt va = Some 0" using P [OF True] a by (simp add: uview_def)
    ultimately show ?thesis by simp
  next
    case False
    then have eq: "leaf (ram s') pt va = leaf (ram s) pt va" using lf [OF va] by simp
    have "ram s' (phys (ram s) pt va) = ram s (phys (ram s) pt va)"
      if v: "valid_pte (leaf (ram s) pt va)" "user_pte (leaf (ram s) pt va)"
    proof -
      have "va < TRAPFRAME" using us va v by (auto simp: uspace_def)
      then have "PTE2PA (leaf (ram s) pt va) \<notin> A" using pg v A by blast
      then show ?thesis unfolding phys_def by (intro frame_byte [OF fr]) simp_all
    qed
    then show ?thesis
      using eq frame_fields [OF fr] by (simp add: uview_def phys_def Let_def)
  qed
  moreover have "uwritable s' pt va = uwritable s pt va" if va: "va < MAXVA" for va
    using lf [OF va] P [of va] e a frame_fields [OF fr] by (auto simp: uwritable_def Let_def)
  moreover have "valid_pte (leaf (ram s') pt va)" if "va < MAXVA" "valid_pte (leaf (ram s) pt va)" for va
    using lf [OF that(1)] that(2) e by simp
  ultimately show ?thesis using fr unfolding uext_def frame_def by blast
qed

subsection \<open>Fields that do not matter\<close>

text \<open>The predicates of virtual memory only read memory, the free list and the process's fields.\<close>

lemma kmem_fields_cong:
  assumes "ram s' = ram s" "freelist s' = freelist s" "kend s' = kend s"
  shows "free_pages s' = free_pages s" "kmem_ok s' = kmem_ok s" "good_page s' = good_page s"
    "vm_ok s' pt = vm_ok s pt" "owned s' pt a n = owned s pt a n"
proof -
  show fp: "free_pages s' = free_pages s" by (simp add: free_pages_def assms)
  show gp: "good_page s' = good_page s" by (simp add: good_page_def assms fun_eq_iff)
  show km: "kmem_ok s' = kmem_ok s" by (simp add: kmem_ok_def kmem_inv_def assms gp)
  show "vm_ok s' pt = vm_ok s pt" by (simp add: vm_ok_def fp gp km assms)
  show "owned s' pt a n = owned s pt a n" unfolding owned_def fp gp assms ..
qed

lemma vm_fields_cong:
  assumes "ram s' = ram s" "freelist s' = freelist s" "kend s' = kend s"
    "p_sz s' = p_sz s" "p_pagetable s' = p_pagetable s"
  shows "uspace s' pt = uspace s pt" "uview s' pt va = uview s pt va" "uwritable s' pt va = uwritable s pt va"
  unfolding uspace_def uview_def uwritable_def kmem_fields_cong [of s' s, OF assms(1-3)] assms by (rule refl)+

end
