(* ===== verification/Vm_Copy.thy ===== *)
theory Vm_Copy
  imports Vm_User
begin

unbundle bit_operations_syntax

section \<open>Lazy allocation and copying to and from user space\<close>

lemma pte_fields:
  assumes "page_aligned c" "take_bit 10 perm = perm"
  shows "PTE2PA (PA2PTE c OR perm OR PTE_V) = c" "valid_pte (PA2PTE c OR perm OR PTE_V)"
    "PTE_FLAGS (PA2PTE c OR perm OR PTE_V) = perm OR PTE_V"
proof -
  have f: "take_bit 10 (perm OR PTE_V) = perm OR PTE_V"
    using assms(2) by (simp add: take_bit_or)
  show "PTE2PA (PA2PTE c OR perm OR PTE_V) = c" using PTE2PA_PA2PTE [OF assms(1) f] by (simp add: or.assoc)
  show "PTE_FLAGS (PA2PTE c OR perm OR PTE_V) = perm OR PTE_V"
    using PTE_FLAGS_PA2PTE [OF f] by (simp add: or.assoc)
qed (simp add: valid_pte_bit bit_or_iff)

lemma flag_bit: "e AND 2 ^ n \<noteq> 0 \<longleftrightarrow> bit (e :: u64) n"
  using and_exp_eq_0_iff_not_bit [of e n] by blast

lemma user_pte_bit: "user_pte e \<longleftrightarrow> bit e 4"
  using flag_bit [of e 4] by (simp add: user_pte_def)

lemma user_pte_perm: "bit perm 4 \<Longrightarrow> user_pte (PA2PTE c OR perm OR PTE_V)"
  by (simp add: user_pte_bit bit_or_iff)

lemma write_pte_perm: "bit perm 2 \<Longrightarrow> (PA2PTE c OR perm OR PTE_V) AND PTE_W \<noteq> 0"
  using flag_bit [of "PA2PTE c OR perm OR PTE_V" 2] by (simp add: bit_or_iff)

subsection \<open>vmfault\<close>

lemma vmfault_spec:
  fixes s :: "'z vm_scheme"
  assumes us: "uspace s pt"
  shows "\<exists>r s'. vmfault pt va s = Inr (r, s') \<and> uext s s' pt \<and>
    (if r = 0 then p_sz s \<le> va \<or> valid_pte (leaf (ram s) pt va) \<or> card (free_pages s') \<le> 1
     else va < p_sz s \<and> (\<forall>vb < MAXVA. leaf (ram s') pt vb =
       (if PGROUNDDOWN vb = PGROUNDDOWN va then PA2PTE r OR 22 OR PTE_V else leaf (ram s) pt vb)) \<and>
       page_aligned r)"
proof (cases "p_sz s \<le> va")
  case True
  then show ?thesis using us uext_refl by (simp add: vmfault_def run_simps)
next
  case False
  have ok: "vm_ok s pt" and km: "kmem_ok s" and pt: "p_pagetable s = pt"
    and sz: "p_sz s \<le> TRAPFRAME" using us by (simp_all add: uspace_def vm_ok_def)
  let ?a = "PGROUNDDOWN va"
  have va: "va < TRAPFRAME" "va < p_sz s" using False sz by auto
  have a: "?a < p_sz s" "?a < TRAPFRAME" "?a < MAXVA" using va PGROUNDDOWN_less below_TRAPFRAME by blast+
  show ?thesis
  proof (cases "valid_pte (leaf (ram s) pt va)")
    case True
    then show ?thesis
      using False us uext_refl ismapped_run [OF ok a(3)] by (simp add: vmfault_def run_simps)
  next
    case inv: False
    from kalloc_zero_spec [OF km] show ?thesis
    proof (elim disjE exE conjE)
      assume "free_pages s = {}" "kalloc s = Inr (0, s)"
      then show ?thesis
        using False inv us uext_refl ismapped_run [OF ok a(3)] by (simp add: vmfault_def run_simps)
    next
      fix c s1 s2
      assume c: "kalloc s = Inr (c, s1)" "memsetK c 0 4096 s1 = Inr ((), s2)" "c \<noteq> 0"
        "c \<in> free_pages s" "good_page s c" "free_pages s2 = free_pages s - {c}" "kmem_ok s2"
        "frame s s2 {c}" "\<forall>k < 4096. ram s2 (c + of_nat k) = 0" "\<forall>j < 512. ent (ram s2) c j = 0"
      have nt: "{c} \<inter> tabs (ram s) pt = {}" "free_pages s2 \<inter> tabs (ram s) pt = {}"
        using c ok by (auto simp: vm_ok_def)
      note un = untouched [OF ok c(8) nt(1)]
      have ok2: "vm_ok s2 pt" using un(4) c nt by blast
      have lf2: "leaf (ram s2) pt vb = leaf (ram s) pt vb" for vb by (simp add: leaf_def un(3))
      have al: "page_aligned c" using c by (simp add: good_page_def)
      have free: "\<not> valid_pte (leaf (ram s2) pt vb)" if "in_pages ?a 1 vb" for vb
        using that inv lf2 leaf_same_page [of vb va] in_page_iff [of ?a vb] by (metis PGROUNDDOWN_aligned)
      have lim: "unat ?a + 4096 * 1 \<le> 2 ^ 38"
        using a(2) by (simp add: word_less_nat_alt TRAPFRAME_val)
      obtain r s3 k where m: "mappages pt ?a 4096 c 22 s2 = Inr (r, s3)" "mapped s2 s3 pt ?a k c 22"
          "r = 0 \<and> k = 1 \<or> r = -1 \<and> k < 1 \<and> free_pages s3 = {}"
        using mappages_spec [OF ok2, of ?a 1 c 22] free lim by auto
      have pf: "p_pagetable s2 = pt" using frame_fields [OF c(8)] pt by simp
      have run: "vmfault pt va s =
          (if r \<noteq> 0 then thenK (kfree c) (returnK 0) s3 else Inr (c, s3))"
        using False inv c m(1) pf by (simp add: vmfault_def run_simps ismapped_run [OF ok a(3)])
      have tf: "tabs (ram s3) pt \<union> free_pages s3 = tabs (ram s) pt \<union> (free_pages s - {c})"
        using m(2) un(1) c(6) by (simp add: mapped_def)
      have ct: "c \<notin> tabs (ram s3) pt" "c \<notin> free_pages s3" using tf nt(1) by auto
      have fr3: "frame s s3 ({c} \<union> tabs (ram s3) pt)"
        using m(2) frame_trans [OF c(8)] by (simp add: mapped_def)
      have A: "{c} \<union> tabs (ram s3) pt \<subseteq> tabs (ram s) pt \<union> free_pages s" using tf c(4) by auto
      have lf3: "leaf (ram s3) pt vb = map_range ?a k c 22 (leaf (ram s) pt) vb" if "vb < MAXVA" for vb
        using m(2) that lf2 by (simp add: mapped_def map_range_def)
      have zero: "ram s3 (c + of_nat j) = 0" if "j < 4096" for j
        using m(2) c(9) that ct al by (simp add: mapped_def frame_def)
      have flags: "take_bit 10 (22 :: u64) = 22" by (simp add: take_bit_eq_mod)
      let ?e = "PA2PTE c OR 22 OR PTE_V"
      note e = pte_fields [OF al flags] user_pte_perm [of 22 c]
      show ?thesis
      proof (cases "r = 0")
        case True
        let ?P = "{vb. vb < MAXVA \<and> PGROUNDDOWN vb = ?a}"
        have lf: "leaf (ram s3) pt vb = (if vb \<in> ?P then ?e else leaf (ram s) pt vb)" if "vb < MAXVA" for vb
          using lf3 [OF that] True m(3) that in_page_iff [of ?a vb] by (simp add: map_range_def)
        have "uext s s3 pt"
        proof (rule uext_add [OF us _ fr3 A _ lf _ a(1) e(2) _ _ e(1)])
          show "vm_ok s3 pt" using m(2) by (simp add: mapped_def)
          show "tabs (ram s3) pt \<union> free_pages s3 \<subseteq> tabs (ram s) pt \<union> free_pages s" using tf by auto
          show "PGROUNDDOWN vb = ?a \<and> \<not> valid_pte (leaf (ram s) pt vb)" if "vb \<in> ?P" for vb
            using that inv leaf_same_page [of vb va] by simp
          show "user_pte ?e" using e(4) by (simp add: bit_numeral_rec)
          show "?e AND PTE_W \<noteq> 0" using write_pte_perm [of 22 c] by (simp add: bit_numeral_rec)
          show "c \<in> free_pages s \<and> c \<notin> tabs (ram s3) pt \<and> c \<notin> free_pages s3 \<and>
              (\<forall>k < 4096. ram s3 (c + of_nat k) = 0)" using c ct zero by simp
        qed
        then show ?thesis using run True lf c(3) va(2) al by simp
      next
        case False
        then have r: "r = -1" "k = 0" "free_pages s3 = {}" using m(3) by auto
        have km3: "kmem_ok s3" using m(2) by (simp add: mapped_def vm_ok_def)
        have "good_page s3 c" using c(5) frame_good [OF fr3] by simp
        then obtain s4 where s4: "kfree c s3 = Inr ((), s4)" "kmem_ok s4" "free_pages s4 = {c}" "frame s3 s4 {c}"
          using kfree_spec [OF km3 _ ct(2)] r by auto
        have ok3: "vm_ok s3 pt" using m(2) by (simp add: mapped_def)
        have dj: "{c} \<inter> tabs (ram s3) pt = {}" using ct by simp
        note un4 = untouched [OF ok3 s4(4) dj]
        have ok4: "vm_ok s4 pt" using un4(4) s4 dj by simp
        have lf4: "leaf (ram s4) pt vb = leaf (ram s) pt vb" if "vb < MAXVA" for vb
          using lf3 [OF that] r by (simp add: leaf_def un4(3) map_range_def)
        have fr4: "frame s s4 ({c} \<union> tabs (ram s3) pt)"
          using frame_trans [OF fr3 s4(4)] by (simp add: insert_commute)
        have "uext s s4 pt"
          by (rule uext_add [OF us ok4 fr4 A, of "{}" ?e ?a c])
            (use a e un4(1) s4(3) tf c(4) lf4 user_pte_perm [of 22 c] write_pte_perm [of 22 c] in \<open>auto simp: bit_numeral_rec\<close>)
        then show ?thesis using run r s4 by (simp add: run_simps)
      qed
    qed
  qed
qed

text \<open>The common prefix of \<^verbatim>\<open>copyin\<close> and \<^verbatim>\<open>copyout\<close>: find the page of an address, or fault it in.\<close>

definition fault_in :: "addr \<Rightarrow> u64 \<Rightarrow> ('z vm_scheme, u64) K" where
  "fault_in pt va0 =
     bindK (walkaddr pt va0) (\<lambda>pa. if pa = 0 then vmfault pt va0 else returnK pa)"

lemma uspace_user:
  assumes us: "uspace s pt" and va: "va < MAXVA" and e: "valid_pte (leaf (ram s) pt va)" "user_pte (leaf (ram s) pt va)"
  shows "va < TRAPFRAME" "PTE2PA (leaf (ram s) pt va) \<noteq> 0"
proof -
  show tr: "va < TRAPFRAME" using us va e by (auto simp: uspace_def)
  have "0 < kend s" using us by (auto simp: uspace_def vm_ok_def kmem_ok_def kmem_inv_def)
  then show "PTE2PA (leaf (ram s) pt va) \<noteq> 0"
    using good_page_nonzero uspace_page(1) [OF us tr e(1)] by blast
qed

lemma fault_in_spec:
  fixes s :: "'z vm_scheme"
  assumes us: "uspace s pt"
  shows "\<exists>pa s'. fault_in pt (PGROUNDDOWN va) s = Inr (pa, s') \<and> uext s s' pt \<and>
    (if pa = 0 then MAXVA \<le> va \<or> uview s pt va = None \<or>
       \<not> valid_pte (leaf (ram s) pt va) \<and> card (free_pages s') \<le> 1
     else va < MAXVA \<and> valid_pte (leaf (ram s') pt va) \<and> user_pte (leaf (ram s') pt va) \<and>
       PTE2PA (leaf (ram s') pt va) = pa)"
proof (cases "va < MAXVA")
  case False
  have "\<not> PGROUNDDOWN va < MAXVA"
    using False PGROUNDDOWN_less_iff [of MAXVA va] by (simp add: page_aligned_def MAXVA_val)
  then have hi: "MAXVA \<le> PGROUNDDOWN va" by simp
  moreover have "p_sz s \<le> TRAPFRAME" using us by (simp add: uspace_def)
  moreover have "TRAPFRAME \<le> MAXVA" by (simp add: layout_vals)
  ultimately have "p_sz s \<le> PGROUNDDOWN va" by (meson order_trans)
  then have "fault_in pt (PGROUNDDOWN va) s = Inr (0, s)"
    using hi by (simp add: fault_in_def walkaddr_high vmfault_def run_simps)
  then show ?thesis using False uext_refl [OF us] by (simp add: not_less)
next
  case va: True
  have a: "PGROUNDDOWN va < MAXVA" using va by (rule PGROUNDDOWN_less)
  have ok: "vm_ok s pt" using us by (simp add: uspace_def)
  show ?thesis
  proof (cases "valid_pte (leaf (ram s) pt va) \<and> user_pte (leaf (ram s) pt va)")
    case True
    then have "PTE2PA (leaf (ram s) pt va) \<noteq> 0" using uspace_user [OF us va] by blast
    then show ?thesis
      using True va uext_refl [OF us]
      by (simp add: fault_in_def walkaddr_run [OF ok a] run_simps)
  next
    case False
    then have run: "fault_in pt (PGROUNDDOWN va) s = vmfault pt (PGROUNDDOWN va) s"
      using uspace_user(2) [OF us va] by (auto simp: fault_in_def walkaddr_run [OF ok a] run_simps)
    obtain r s' where r: "vmfault pt (PGROUNDDOWN va) s = Inr (r, s')" "uext s s' pt"
      "if r = 0 then p_sz s \<le> PGROUNDDOWN va \<or> valid_pte (leaf (ram s) pt va) \<or> card (free_pages s') \<le> 1
       else PGROUNDDOWN va < p_sz s \<and> (\<forall>vb < MAXVA. leaf (ram s') pt vb =
         (if PGROUNDDOWN vb = PGROUNDDOWN va then PA2PTE r OR 22 OR PTE_V else leaf (ram s) pt vb)) \<and>
         page_aligned r"
      using vmfault_spec [OF us, of "PGROUNDDOWN va"]
      unfolding leaf_PGROUNDDOWN PGROUNDDOWN_id [OF PGROUNDDOWN_aligned] by blast
    show ?thesis
    proof (cases "r = 0")
      case True
      then have "uview s pt va = None \<or> \<not> valid_pte (leaf (ram s) pt va) \<and> card (free_pages s') \<le> 1"
        using r(3) False by (auto simp: uview_def Let_def)
      then show ?thesis using run r(1,2) True by simp
    next
      case nz: False
      have "take_bit 10 (22 :: u64) = 22" by (simp add: take_bit_eq_mod)
      then show ?thesis
        using run r nz va pte_fields [of r 22] user_pte_perm [of 22 r] by (simp add: bit_numeral_rec)
    qed
  qed
qed

subsection \<open>Chunks within a page\<close>

lemma page_chunk_le: "page_chunk va len \<le> len"
  by (simp add: page_chunk_def)

lemma unat_page_room: "unat (4096 - (va - PGROUNDDOWN va)) = 4096 - unat va mod 4096"
proof -
  have eq: "va - PGROUNDDOWN va = va mod 4096" by (simp add: PGROUNDDOWN_eq_sub)
  have "va mod 4096 < 4096" by (simp add: word_mod_less_divisor)
  then show ?thesis unfolding eq by (simp add: unat_sub unat_mod less_imp_le)
qed

lemma chunk_byte:
  assumes "i < page_chunk va len" "va < MAXVA"
  shows "PGROUNDDOWN (va + of_nat i) = PGROUNDDOWN va" "unat (va + of_nat i) = unat va + i"
    "va + of_nat i < MAXVA"
proof -
  have i: "i < 4096 - unat va mod 4096" using assms(1) by (simp add: page_chunk_def unat_page_room)
  have va: "unat va < 2 ^ 38" using assms(2) by (simp add: less_MAXVA_iff)
  have ui: "unat (of_nat i :: u64) = i" using i by (intro unat_of_nat_small) simp
  show u: "unat (va + of_nat i) = unat va + i"
    using i va ui by (simp add: unat_word_ariths)
  have "(unat va + i) mod 4096 = unat va mod 4096 + i"
  proof -
    have "(unat va + i) mod 4096 = (unat va mod 4096 + i) mod 4096" by (simp add: mod_add_left_eq)
    also have "\<dots> = unat va mod 4096 + i" using i by (intro mod_less) linarith
    finally show ?thesis .
  qed
  then have "unat (PGROUNDDOWN (va + of_nat i)) = unat (PGROUNDDOWN va)"
    unfolding unat_PGROUNDDOWN u by simp
  then show p: "PGROUNDDOWN (va + of_nat i) = PGROUNDDOWN va" by (simp add: word_unat_eq_iff)
  have "page_aligned MAXVA" by (simp add: page_aligned_def MAXVA_val)
  then show "va + of_nat i < MAXVA"
    using PGROUNDDOWN_less_iff [of MAXVA] assms(2) p by metis
qed

text \<open>When a chunk does not finish the copy, the next one starts at the next page.\<close>

lemma chunk_next:
  assumes "page_chunk va len < len"
  shows "PGROUNDDOWN va + 4096 = va + of_nat (page_chunk va len)"
proof -
  have c: "page_chunk va len = unat (4096 - (va - PGROUNDDOWN va))" using assms by (auto simp: page_chunk_def)
  show ?thesis unfolding c by simp
qed

lemma chunk_view:
  fixes s :: "'z vm_scheme"
  assumes "i < page_chunk va len" "va < MAXVA"
    "valid_pte (leaf (ram s) pt va)" "user_pte (leaf (ram s) pt va)"
  shows "uview s pt (va + of_nat i) =
    Some (ram s (PTE2PA (leaf (ram s) pt va) + (va - PGROUNDDOWN va) + of_nat i))"
proof -
  note cb = chunk_byte [OF assms(1,2)]
  have "leaf (ram s) pt (va + of_nat i) = leaf (ram s) pt va" using cb(1) by (rule leaf_same_page)
  moreover have "phys (ram s) pt (va + of_nat i) =
      PTE2PA (leaf (ram s) pt va) + (va - PGROUNDDOWN va) + of_nat i"
    unfolding phys_def cb(1) calculation by (simp add: algebra_simps)
  ultimately show ?thesis using assms(3,4) by (simp add: uview_def)
qed

subsection \<open>copyin\<close>

lemma copyin_loop_fault_in:
  "copyin_loop pt va len dst =
     (if len = 0 then returnK (0, dst)
      else bindK (fault_in pt (PGROUNDDOWN va)) (\<lambda>pa0.
        if pa0 = 0 then returnK (-1, dst)
        else bindK (getsK (\<lambda>s. mem_bytes (ram s) (pa0 + (va - PGROUNDDOWN va)) (page_chunk va len))) (\<lambda>bs.
          copyin_loop pt (PGROUNDDOWN va + 4096) (len - page_chunk va len) (dst @ bs))))"
  unfolding fault_in_def bindK_assoc by (subst copyin_loop.simps) (simp only: Let_def)

lemma copyin_loop_spec:
  fixes s :: "'z vm_scheme"
  assumes "uspace s pt"
  shows "\<exists>r bs s'. copyin_loop pt va len dst s = Inr ((r, dst @ bs), s') \<and> uext s s' pt \<and>
    (r = 0 \<and> length bs = len \<and> (\<forall>i < len. va + of_nat i < MAXVA \<and> uview s pt (va + of_nat i) = Some (bs ! i)) \<or>
     r = -1 \<and> (\<exists>i < len. MAXVA \<le> va + of_nat i \<or> uview s pt (va + of_nat i) = None \<or>
           \<not> valid_pte (leaf (ram s) pt (va + of_nat i)) \<and> card (free_pages s') \<le> 1))"
  using assms
proof (induction len arbitrary: va dst s rule: less_induct)
  case (less len)
  show ?case
  proof (cases "len = 0")
    case True
    then show ?thesis using less.prems uext_refl by (subst copyin_loop.simps) (auto simp: run_simps)
  next
    case False
    let ?n = "page_chunk va len"
    have n: "0 < ?n" "?n \<le> len" using False page_chunk_pos page_chunk_le by simp_all
    obtain pa s1 where f: "fault_in pt (PGROUNDDOWN va) s = Inr (pa, s1)" "uext s s1 pt"
      "if pa = 0 then MAXVA \<le> va \<or> uview s pt va = None \<or>
         \<not> valid_pte (leaf (ram s) pt va) \<and> card (free_pages s1) \<le> 1
       else va < MAXVA \<and> valid_pte (leaf (ram s1) pt va) \<and> user_pte (leaf (ram s1) pt va) \<and>
         PTE2PA (leaf (ram s1) pt va) = pa"
      using fault_in_spec [OF less.prems, of va] by blast
    show ?thesis
    proof (cases "pa = 0")
      case True
      then have "copyin_loop pt va len dst s = Inr ((-1, dst @ []), s1)"
        using f(1) False by (subst copyin_loop_fault_in) (simp add: run_simps)
      moreover have "(\<exists>i < len. MAXVA \<le> va + of_nat i \<or> uview s pt (va + of_nat i) = None \<or>
           \<not> valid_pte (leaf (ram s) pt (va + of_nat i)) \<and> card (free_pages s1) \<le> 1)"
        using f(3) True False by (auto intro: exI [of _ 0])
      ultimately show ?thesis using f(2) by blast
    next
      case pa: False
      then have va: "va < MAXVA" and e: "valid_pte (leaf (ram s1) pt va)" "user_pte (leaf (ram s1) pt va)"
        and pe: "PTE2PA (leaf (ram s1) pt va) = pa" using f(3) by simp_all
      let ?bs = "mem_bytes (ram s1) (pa + (va - PGROUNDDOWN va)) ?n" and ?va = "PGROUNDDOWN va + 4096"
      have us1: "uspace s1 pt" and v1: "\<And>vb. vb < MAXVA \<Longrightarrow> uview s1 pt vb = uview s pt vb \<and>
          (valid_pte (leaf (ram s) pt vb) \<longrightarrow> valid_pte (leaf (ram s1) pt vb))"
        using f(2) by (simp_all add: uext_def)
      have here: "va + of_nat i < MAXVA \<and> uview s pt (va + of_nat i) = Some (?bs ! i)" if "i < ?n" for i
        using chunk_byte [OF that va] chunk_view [OF that va e] v1 that pe by simp
      have "len - ?n < len" using n by simp
      from less.IH [OF this us1, of ?va "dst @ ?bs"] obtain r bs s' where IH:
        "copyin_loop pt ?va (len - ?n) ((dst @ ?bs)) s1 = Inr ((r, (dst @ ?bs) @ bs), s')" "uext s1 s' pt"
        "r = 0 \<and> length bs = len - ?n \<and> (\<forall>i < len - ?n. ?va + of_nat i < MAXVA \<and> uview s1 pt (?va + of_nat i) = Some (bs ! i)) \<or>
         r = -1 \<and> (\<exists>i < len - ?n. MAXVA \<le> ?va + of_nat i \<or> uview s1 pt (?va + of_nat i) = None \<or>
           \<not> valid_pte (leaf (ram s1) pt (?va + of_nat i)) \<and> card (free_pages s') \<le> 1)"
        by blast
      have shift: "?va + of_nat i = va + of_nat (?n + i)" if "i < len - ?n" for i
        using chunk_next [of va len] that by simp
      have "r = 0 \<and> length (?bs @ bs) = len \<and> (\<forall>i < len. va + of_nat i < MAXVA \<and> uview s pt (va + of_nat i) = Some ((?bs @ bs) ! i)) \<or>
         r = -1 \<and> (\<exists>i < len. MAXVA \<le> va + of_nat i \<or> uview s pt (va + of_nat i) = None \<or>
           \<not> valid_pte (leaf (ram s) pt (va + of_nat i)) \<and> card (free_pages s') \<le> 1)"
        using IH(3)
      proof (rule disjE; elim conjE exE)
        assume r: "r = 0" "length bs = len - ?n" and
          *: "\<forall>i < len - ?n. ?va + of_nat i < MAXVA \<and> uview s1 pt (?va + of_nat i) = Some (bs ! i)"
        have "va + of_nat i < MAXVA \<and> uview s pt (va + of_nat i) = Some ((?bs @ bs) ! i)" if "i < len" for i
        proof (cases "i < ?n")
          case False
          then obtain j where j: "i = ?n + j" using le_Suc_ex not_less by blast
          then have "j < len - ?n" using that by simp
          then have "va + of_nat i < MAXVA \<and> uview s1 pt (va + of_nat i) = Some (bs ! j)"
            using * shift [of j] unfolding j by metis
          then show ?thesis using v1 [of "va + of_nat i"] j by (simp add: nth_append)
        qed (use here in \<open>simp add: nth_append\<close>)
        then show ?thesis using r n by simp
      next
        fix i assume i: "r = -1" "i < len - ?n" and
          *: "MAXVA \<le> ?va + of_nat i \<or> uview s1 pt (?va + of_nat i) = None \<or>
             \<not> valid_pte (leaf (ram s1) pt (?va + of_nat i)) \<and> card (free_pages s') \<le> 1"
        have "MAXVA \<le> va + of_nat (?n + i) \<or> uview s pt (va + of_nat (?n + i)) = None \<or>
            \<not> valid_pte (leaf (ram s) pt (va + of_nat (?n + i))) \<and> card (free_pages s') \<le> 1"
          using * v1 [of "va + of_nat (?n + i)"] unfolding shift [OF i(2)] not_le [symmetric] by auto
        moreover have "?n + i < len" using i by simp
        ultimately show ?thesis using i(1) by blast
      qed
      moreover have "copyin_loop pt va len dst s = Inr ((r, dst @ (?bs @ bs)), s')"
        using f(1) False pa IH(1) by (subst copyin_loop_fault_in) (simp add: run_simps)
      ultimately show ?thesis using uext_trans [OF f(2) IH(2)] by blast
    qed
  qed
qed

subsection \<open>copyout\<close>

lemma mem_put_page:
  assumes p: "page_aligned p" and off: "off + length bs \<le> 4096" and a: "page_aligned a" "k < 4096"
  shows "mem_put m (p + of_nat off) bs (a + of_nat k) =
    (if a = p \<and> off \<le> k \<and> k < off + length bs then bs ! (k - off) else m (a + of_nat k))"
proof (cases "unat (a + of_nat k - (p + of_nat off)) < length bs")
  case True
  let ?d = "unat (a + of_nat k - (p + of_nat off))"
  have "a + of_nat k = p + of_nat off + of_nat ?d" by simp
  then have "a + of_nat k = p + of_nat (off + ?d)" by (simp only: of_nat_add add.assoc)
  moreover have "off + ?d < 4096" using off True by simp
  ultimately have "a = p \<and> k = off + ?d" using page_offset_unique [OF a(1) p a(2)] by blast
  then have "a = p" "off \<le> k" "k < off + length bs" "k - off = ?d" using True by linarith+
  then show ?thesis using True by (simp add: mem_put_def)
next
  case False
  have "\<not> (a = p \<and> off \<le> k \<and> k < off + length bs)"
  proof
    assume h: "a = p \<and> off \<le> k \<and> k < off + length bs"
    then have "a + of_nat k - (p + of_nat off) = of_nat (k - off)" by (simp add: of_nat_diff)
    moreover have "unat (of_nat (k - off) :: u64) = k - off" using a(2) by (intro unat_of_nat_small) simp
    ultimately show False using False h by (simp add: less_diff_conv2)
  qed
  then show ?thesis using False by (simp only: mem_put_def if_False)
qed

text \<open>A write of one chunk changes the user's view at the chunk's addresses only.\<close>

definition put_view :: "u64 \<Rightarrow> byte list \<Rightarrow> (u64 \<Rightarrow> byte option) \<Rightarrow> u64 \<Rightarrow> byte option" where
  "put_view va bs f vb =
     (if unat va \<le> unat vb \<and> unat vb < unat va + length bs then Some (bs ! (unat vb - unat va)) else f vb)"

lemma put_view_Nil [simp]: "put_view va [] f = f"
  by (auto simp: put_view_def fun_eq_iff)

lemma put_view_append:
  assumes "unat va + length bs < 2 ^ 64"
  shows "put_view (va + of_nat (length bs)) cs (put_view va bs f) = put_view va (bs @ cs) f"
proof
  fix vb
  have "unat (va + of_nat (length bs)) = unat va + length bs"
    using assms by (simp add: unat_word_ariths unat_of_nat_small)
  then show "put_view (va + of_nat (length bs)) cs (put_view va bs f) vb = put_view va (bs @ cs) f vb"
    by (auto simp: put_view_def nth_append)
qed

lemma unat_page_off: "unat (va - PGROUNDDOWN va) = unat va mod 4096"
  by (simp add: PGROUNDDOWN_eq_sub unat_mod)

lemma same_page_range:
  fixes v w l :: nat
  assumes "v mod 4096 + l \<le> 4096"
  shows "w - w mod 4096 = v - v mod 4096 \<and> v mod 4096 \<le> w mod 4096 \<and> w mod 4096 < v mod 4096 + l
    \<longleftrightarrow> v \<le> w \<and> w < v + l"
    and "w - w mod 4096 = v - v mod 4096 \<Longrightarrow> w mod 4096 - v mod 4096 = w - v"
proof -
  obtain a b c d where v: "v = 4096 * a + b" "b < 4096" and w: "w = 4096 * c + d" "d < 4096"
    using mult_div_mod_eq mod_less_divisor [of 4096] by (metis zero_less_numeral)
  have m: "v mod 4096 = b" "w mod 4096 = d" "w - d = 4096 * c" "v - b = 4096 * a" using v w by simp_all
  have "4096 * c = 4096 * a \<and> b \<le> d \<and> d < b + l \<longleftrightarrow> 4096 * a + b \<le> 4096 * c + d \<and> 4096 * c + d < 4096 * a + b + l"
    if bl: "b + l \<le> 4096"
  proof
    assume h: "4096 * a + b \<le> 4096 * c + d \<and> 4096 * c + d < 4096 * a + b + l"
    then have "a \<le> c" "c \<le> a" using v(2) w(2) bl by linarith+
    then show "4096 * c = 4096 * a \<and> b \<le> d \<and> d < b + l" using h by simp
  qed simp
  then show "w - w mod 4096 = v - v mod 4096 \<and> v mod 4096 \<le> w mod 4096 \<and> w mod 4096 < v mod 4096 + l
    \<longleftrightarrow> v \<le> w \<and> w < v + l" using assms unfolding m by (simp only: v(1) w(1))
  show "w mod 4096 - v mod 4096 = w - v" if "w - w mod 4096 = v - v mod 4096"
    using that unfolding m by (simp add: v w)
qed

lemma put_chunk:
  fixes s :: "'z vm_scheme"
  assumes us: "uspace s pt" and va: "va < MAXVA" and e: "valid_pte (leaf (ram s) pt va)" "user_pte (leaf (ram s) pt va)"
    and bs: "unat va mod 4096 + length bs \<le> 4096"
  defines "s' \<equiv> s\<lparr>ram := mem_put (ram s) (PTE2PA (leaf (ram s) pt va) + (va - PGROUNDDOWN va)) bs\<rparr>"
  shows "uspace s' pt" and "leaf (ram s') pt vb = leaf (ram s) pt vb" and "free_pages s' = free_pages s"
    and "vb < MAXVA \<Longrightarrow> uview s' pt vb = put_view va bs (uview s pt) vb"
proof -
  let ?p = "PTE2PA (leaf (ram s) pt va)" and ?off = "unat va mod 4096"
  have tr: "va < TRAPFRAME" using uspace_user [OF us va e] by simp
  note pg = uspace_page [OF us tr e(1)]
  have ok: "vm_ok s pt" using us by (simp add: uspace_def)
  have offw: "va - PGROUNDDOWN va = of_nat ?off" by (simp flip: unat_page_off)
  have al: "page_aligned ?p" by simp
  note mp = mem_put_page [OF al bs]
  have other: "ram s' (a + of_nat k) = ram s (a + of_nat k)" if "page_aligned a" "a \<noteq> ?p" "k < 4096" for a k
    using that mp [OF that(1,3)] unfolding s'_def offw by simp
  then have fr: "frame s s' {?p}" unfolding s'_def by (intro frame_ram1) (simp add: s'_def)
  have km: "kmem_ok s'" "free_pages s' = free_pages s"
    using kmem_ok_ram_page [of s ?p, OF _ al pg(2)] other ok by (simp_all add: s'_def vm_ok_def)
  show "free_pages s' = free_pages s" by (rule km(2))
  have dj: "{?p} \<inter> tabs (ram s) pt = {}" using pg(3) by simp
  note un = untouched [OF ok fr dj]
  have ok': "vm_ok s' pt" using un(4) km ok by (auto simp: vm_ok_def)
  have lf: "leaf (ram s') pt vb = leaf (ram s) pt vb" for vb by (simp add: leaf_def un(3))
  then show "leaf (ram s') pt vb = leaf (ram s) pt vb" .
  show "uspace s' pt"
    using us ok' unfolding uspace_def owned_def range_pages_def lf km(2) un(1) frame_good [OF fr]
      frame_fields [OF fr, THEN conjunct1] frame_fields [OF fr, THEN conjunct2] by blast
  show "uview s' pt vb = put_view va bs (uview s pt) vb" if vb: "vb < MAXVA"
  proof (cases "valid_pte (leaf (ram s) pt vb) \<and> user_pte (leaf (ram s) pt vb)")
    case False
    have "\<not> (unat va \<le> unat vb \<and> unat vb < unat va + length bs)"
    proof
      assume h: "unat va \<le> unat vb \<and> unat vb < unat va + length bs"
      have d: "vb = va + of_nat (unat vb - unat va)" using h by (simp add: of_nat_diff)
      have "unat vb - unat va < page_chunk va (length bs)"
        using h bs by (auto simp: page_chunk_def unat_page_room)
      then have "PGROUNDDOWN vb = PGROUNDDOWN va" using chunk_byte(1) [OF _ va] d by metis
      then show False using False e leaf_same_page by metis
    qed
    then show ?thesis using False frame_fields [OF fr] by (auto simp: put_view_def uview_def lf Let_def)
  next
    case True
    let ?q = "PTE2PA (leaf (ram s) pt vb)" and ?k = "unat vb mod 4096"
    have vtr: "vb < TRAPFRAME" using uspace_user [OF us vb] True by simp
    have kw: "vb - PGROUNDDOWN vb = of_nat ?k" by (simp flip: unat_page_off)
    have same: "?q = ?p \<longleftrightarrow> PGROUNDDOWN vb = PGROUNDDOWN va"
      using uspace_inj [OF us vtr tr] True e leaf_same_page by metis
    have page: "PGROUNDDOWN vb = PGROUNDDOWN va \<longleftrightarrow> unat vb - ?k = unat va - ?off"
      by (simp add: word_unat_eq_iff unat_PGROUNDDOWN)
    have "ram s' (?q + of_nat ?k) = (if ?q = ?p \<and> ?off \<le> ?k \<and> ?k < ?off + length bs
        then bs ! (?k - ?off) else ram s (?q + of_nat ?k))"
      using mp [of ?q ?k] unfolding s'_def offw by simp
    moreover have "?q = ?p \<and> ?off \<le> ?k \<and> ?k < ?off + length bs \<longleftrightarrow>
        unat va \<le> unat vb \<and> unat vb < unat va + length bs"
      unfolding same page by (rule same_page_range(1) [OF bs])
    moreover have "?q = ?p \<Longrightarrow> ?k - ?off = unat vb - unat va"
      unfolding same page by (rule same_page_range(2) [OF bs])
    ultimately show ?thesis using True by (auto simp: uview_def put_view_def phys_def lf kw)
  qed
qed

text \<open>A step that changes memory and the free list only.\<close>

definition memstep :: "'z kmem_scheme \<Rightarrow> 'z kmem_scheme \<Rightarrow> bool" where
  "memstep s s' \<longleftrightarrow> (\<exists>m f. s' = s\<lparr>ram := m, freelist := f\<rparr>)"

lemma memstep_refl: "memstep s s"
  unfolding memstep_def by (auto intro!: exI [of _ "ram s"] exI [of _ "freelist s"])

lemma memstep_trans: "memstep s s1 \<Longrightarrow> memstep s1 s2 \<Longrightarrow> memstep s s2"
  unfolding memstep_def by force

lemma memstep_ram: "memstep s (s\<lparr>ram := m\<rparr>)"
  unfolding memstep_def by (auto intro!: exI [of _ m] exI [of _ "freelist s"])

lemma uext_memstep: "uext s s' pt \<Longrightarrow> memstep s s'"
  by (simp add: uext_def memstep_def)

text \<open>One round of the loop of \<^verbatim>\<open>copyout\<close>: the page is found or faulted in, then checked for \<^verbatim>\<open>PTE_W\<close>.\<close>

lemma copyout_round:
  fixes s :: "'z vm_scheme" and va :: u64
  assumes us: "uspace s pt" and ne: "src \<noteq> []"
  defines "n \<equiv> page_chunk va (length src)"
  shows "(\<exists>s'. copyout pt va src s = Inr (-1, s') \<and> uext s s' pt \<and>
       (MAXVA \<le> va \<or> \<not> uwritable s pt va \<or> \<not> valid_pte (leaf (ram s) pt va) \<and> card (free_pages s') \<le> 1)) \<or>
    (\<exists>s2. copyout pt va src s = copyout pt (PGROUNDDOWN va + 4096) (drop n src) s2 \<and> uspace s2 pt \<and>
       memstep s s2 \<and> va < MAXVA \<and> uwritable s pt va \<and> valid_pte (leaf (ram s2) pt va) \<and>
       (\<forall>vb < MAXVA. uview s2 pt vb = put_view va (take n src) (uview s pt) vb \<and>
          uwritable s2 pt vb = uwritable s pt vb \<and>
          (valid_pte (leaf (ram s) pt vb) \<longrightarrow> valid_pte (leaf (ram s2) pt vb))))"
proof (cases "MAXVA \<le> PGROUNDDOWN va")
  case True
  then have "MAXVA \<le> va" using PGROUNDDOWN_le order_trans by blast
  moreover have "copyout pt va src s = Inr (-1, s)"
    using ne True by (subst copyout.simps) (simp add: run_simps)
  ultimately show ?thesis using uext_refl [OF us] by blast
next
  case False
  have run: "copyout pt va src = bindK (fault_in pt (PGROUNDDOWN va)) (\<lambda>pa0.
          if pa0 = 0 then returnK (-1)
          else
            bindK (walk pt (PGROUNDDOWN va) False) (\<lambda>pte.
            bindK (get_pte pte) (\<lambda>e.
            if e AND PTE_W = 0 then returnK (-1)
            else
              thenK (modifyK (\<lambda>s. s\<lparr>ram := mem_put (ram s) (pa0 + (va - PGROUNDDOWN va)) (take n src)\<rparr>))
                (copyout pt (PGROUNDDOWN va + 4096) (drop n src)))))"
    unfolding fault_in_def bindK_assoc n_def using ne False by (subst copyout.simps) (simp only: Let_def if_False)
  obtain pa s1 where f: "fault_in pt (PGROUNDDOWN va) s = Inr (pa, s1)" "uext s s1 pt"
      "if pa = 0 then MAXVA \<le> va \<or> uview s pt va = None \<or>
         \<not> valid_pte (leaf (ram s) pt va) \<and> card (free_pages s1) \<le> 1
       else va < MAXVA \<and> valid_pte (leaf (ram s1) pt va) \<and> user_pte (leaf (ram s1) pt va) \<and>
         PTE2PA (leaf (ram s1) pt va) = pa"
    using fault_in_spec [OF us, of va] by blast
  show ?thesis
  proof (cases "pa = 0")
    case True
    have "uview s pt va = None \<Longrightarrow> \<not> uwritable s pt va"
      by (auto simp: uview_def uwritable_def Let_def split: if_splits)
    then have "MAXVA \<le> va \<or> \<not> uwritable s pt va \<or>
        \<not> valid_pte (leaf (ram s) pt va) \<and> card (free_pages s1) \<le> 1"
      using f(3) True by auto
    then show ?thesis using f(1,2) True by (simp add: run run_simps)
  next
    case pa: False
    then have va: "va < MAXVA" and e: "valid_pte (leaf (ram s1) pt va)" "user_pte (leaf (ram s1) pt va)"
        and pe: "PTE2PA (leaf (ram s1) pt va) = pa" using f(3) by simp_all
    have us1: "uspace s1 pt" and ok1: "vm_ok s1 pt" and v1: "\<And>vb. vb < MAXVA \<Longrightarrow>
        uview s1 pt vb = uview s pt vb \<and> uwritable s1 pt vb = uwritable s pt vb \<and>
        (valid_pte (leaf (ram s) pt vb) \<longrightarrow> valid_pte (leaf (ram s1) pt vb))"
      using f(2) by (simp_all add: uext_def uspace_def)
    have a: "PGROUNDDOWN va < MAXVA" using va by (rule PGROUNDDOWN_less)
    have "leaf (ram s1) pt (PGROUNDDOWN va) \<noteq> 0" using e by auto
    then have slot: "read64 (ram s1) (walk_slot (ram s1) pt (PGROUNDDOWN va)) = leaf (ram s1) pt va"
      using read_walk_slot [OF ok1, of "PGROUNDDOWN va"] walk_slot_leaf [of s1 pt "PGROUNDDOWN va"] ok1 by auto
    show ?thesis
    proof (cases "leaf (ram s1) pt va AND PTE_W = 0")
      case True
      then have "\<not> uwritable s pt va" using v1 [OF va] e by (simp add: uwritable_def)
      then show ?thesis using f(1,2) pa slot True by (simp add: run run_simps walk_lookup [OF a] get_pte_def)
    next
      case w: False
      let ?s2 = "s1\<lparr>ram := mem_put (ram s1) (pa + (va - PGROUNDDOWN va)) (take n src)\<rparr>"
      have len: "unat va mod 4096 + length (take n src) \<le> 4096"
        by (simp add: n_def page_chunk_def unat_page_room)
      note pc = put_chunk [OF us1 va e len, unfolded pe]
      have "uwritable s pt va" using v1 [OF va] e w by (simp add: uwritable_def)
      moreover have wr: "uwritable ?s2 pt vb = uwritable s1 pt vb" for vb
        using pc(2) [of vb] by (simp add: uwritable_def)
      moreover have "uview ?s2 pt vb = put_view va (take n src) (uview s pt) vb \<and>
          uwritable ?s2 pt vb = uwritable s pt vb \<and>
          (valid_pte (leaf (ram s) pt vb) \<longrightarrow> valid_pte (leaf (ram ?s2) pt vb))" if "vb < MAXVA" for vb
        using pc(4) [OF that] v1 [OF that] wr [of vb] pc(2) [of vb] by (simp add: put_view_def)
      moreover have "valid_pte (leaf (ram ?s2) pt va)" using pc(2) [of va] e by simp
      moreover have "copyout pt va src s = copyout pt (PGROUNDDOWN va + 4096) (drop n src) ?s2"
        using f(1) pa slot w by (simp add: run run_simps walk_lookup [OF a] get_pte_def)
      moreover have "memstep s ?s2" by (rule memstep_trans [OF uext_memstep [OF f(2)] memstep_ram])
      ultimately show ?thesis using va pc(1) by blast
    qed
  qed
qed

lemma uwritable_same_page:
  "PGROUNDDOWN va = PGROUNDDOWN vb \<Longrightarrow> uwritable s pt va = uwritable s pt vb"
  using leaf_same_page [of va vb "ram s" pt] by (simp add: uwritable_def)

lemma copyout_spec:
  fixes s :: "'z vm_scheme"
  assumes "uspace s pt"
  shows "\<exists>r k s'. copyout pt va src s = Inr (r, s') \<and> uspace s' pt \<and> memstep s s' \<and>
    (\<forall>vb < MAXVA. uview s' pt vb = put_view va (take k src) (uview s pt) vb \<and>
       (valid_pte (leaf (ram s) pt vb) \<longrightarrow> valid_pte (leaf (ram s') pt vb))) \<and>
    (r = 0 \<and> k = length src \<and> (\<forall>i < k. va + of_nat i < MAXVA \<and> uwritable s pt (va + of_nat i) \<and>
        valid_pte (leaf (ram s') pt (va + of_nat i))) \<or>
     r = -1 \<and> k < length src \<and>
       (MAXVA \<le> va + of_nat k \<or> \<not> uwritable s pt (va + of_nat k) \<or>
        \<not> valid_pte (leaf (ram s) pt (va + of_nat k)) \<and> card (free_pages s') \<le> 1))"
  using assms
proof (induction "length src" arbitrary: va src s rule: less_induct)
  case less
  show ?case
  proof (cases "src = []")
    case True
    then show ?thesis using less.prems memstep_refl by (subst copyout.simps) (auto simp: run_simps)
  next
    case ne: False
    let ?n = "page_chunk va (length src)" and ?va = "PGROUNDDOWN va + 4096"
    let ?rest = "drop ?n src"
    show ?thesis
    proof (rule disjE [OF copyout_round [OF less.prems ne, of va]], goal_cases)
      case 1
      then obtain s' where "copyout pt va src s = Inr (-1, s')" "uext s s' pt"
        "MAXVA \<le> va \<or> \<not> uwritable s pt va \<or>
         \<not> valid_pte (leaf (ram s) pt va) \<and> card (free_pages s') \<le> 1" by blast
      then show ?case using ne by (intro exI [of _ "-1"] exI [of _ 0] exI [of _ s']) (auto simp: uext_def memstep_def)
    next
      case step: 2
      then obtain s2 where 2: "copyout pt va src s = copyout pt ?va ?rest s2" "uspace s2 pt"
        "va < MAXVA" "uwritable s pt va" "valid_pte (leaf (ram s2) pt va)"
        "\<forall>vb < MAXVA. uview s2 pt vb = put_view va (take ?n src) (uview s pt) vb \<and>
          uwritable s2 pt vb = uwritable s pt vb \<and>
          (valid_pte (leaf (ram s) pt vb) \<longrightarrow> valid_pte (leaf (ram s2) pt vb))" "memstep s s2" by blast
      have n: "0 < ?n" "?n \<le> length src" using ne page_chunk_pos page_chunk_le by simp_all
      then have "length ?rest < length src" by simp
      from less.hyps [OF this 2(2), of ?va] obtain r k s' where IH:
        "copyout pt ?va ?rest s2 = Inr (r, s')" "uspace s' pt \<and> memstep s2 s'"
        "\<forall>vb < MAXVA. uview s' pt vb = put_view ?va (take k ?rest) (uview s2 pt) vb \<and>
          (valid_pte (leaf (ram s2) pt vb) \<longrightarrow> valid_pte (leaf (ram s') pt vb))"
        "r = 0 \<and> k = length ?rest \<and> (\<forall>i < k. ?va + of_nat i < MAXVA \<and> uwritable s2 pt (?va + of_nat i) \<and>
           valid_pte (leaf (ram s') pt (?va + of_nat i))) \<or>
         r = -1 \<and> k < length ?rest \<and>
           (MAXVA \<le> ?va + of_nat k \<or> \<not> uwritable s2 pt (?va + of_nat k) \<or>
            \<not> valid_pte (leaf (ram s2) pt (?va + of_nat k)) \<and> card (free_pages s') \<le> 1)"
        by blast
      have wr: "uwritable s2 pt vb = uwritable s pt vb" if "vb < MAXVA" for vb using 2(6) that by blast
      have mono: "valid_pte (leaf (ram s) pt vb) \<Longrightarrow> valid_pte (leaf (ram s2) pt vb)" if "vb < MAXVA" for vb
        using 2(6) that by blast
      have shift: "?va + of_nat i = va + of_nat (?n + i)" if "?rest \<noteq> []" for i
        using chunk_next [of va "length src"] that by simp
      have here: "va + of_nat i < MAXVA \<and> uwritable s pt (va + of_nat i) \<and>
          valid_pte (leaf (ram s') pt (va + of_nat i))" if "i < ?n" for i
      proof -
        note cb = chunk_byte [OF that 2(3)]
        have "valid_pte (leaf (ram s2) pt (va + of_nat i))" using 2(5) leaf_same_page [OF cb(1)] by metis
        then show ?thesis using IH(3) cb 2(4) uwritable_same_page [OF cb(1)] by blast
      qed
      have lim: "unat va + length (take ?n src) < 2 ^ 64"
        using 2(3) by (simp add: less_MAXVA_iff page_chunk_def unat_page_room)
      have view: "put_view ?va (take k ?rest) (put_view va (take ?n src) (uview s pt)) =
          put_view va (take (?n + k) src) (uview s pt)"
      proof (cases "?rest = []")
        case True
        then show ?thesis by simp
      next
        case False
        then show ?thesis
          using put_view_append [OF lim, of "take k ?rest" "uview s pt"] shift [OF False, of 0] n
          by (simp add: take_add min_absorb2)
      qed
      have "uview s' pt vb = put_view va (take (?n + k) src) (uview s pt) vb \<and>
          (valid_pte (leaf (ram s) pt vb) \<longrightarrow> valid_pte (leaf (ram s') pt vb))" if "vb < MAXVA" for vb
        using IH(3) 2(6) that unfolding view [symmetric] by (simp add: put_view_def)
      moreover have "r = 0 \<and> ?n + k = length src \<and> (\<forall>i < ?n + k. va + of_nat i < MAXVA \<and>
           uwritable s pt (va + of_nat i) \<and> valid_pte (leaf (ram s') pt (va + of_nat i))) \<or>
         r = -1 \<and> ?n + k < length src \<and>
         (MAXVA \<le> va + of_nat (?n + k) \<or> \<not> uwritable s pt (va + of_nat (?n + k)) \<or>
          \<not> valid_pte (leaf (ram s) pt (va + of_nat (?n + k))) \<and> card (free_pages s') \<le> 1)"
        using IH(4)
      proof (rule disjE; elim conjE)
        assume 1: "r = 0" "k = length ?rest" "\<forall>i < k. ?va + of_nat i < MAXVA \<and>
           uwritable s2 pt (?va + of_nat i) \<and> valid_pte (leaf (ram s') pt (?va + of_nat i))"
        have "va + of_nat i < MAXVA \<and> uwritable s pt (va + of_nat i) \<and>
            valid_pte (leaf (ram s') pt (va + of_nat i))" if i: "i < ?n + k" for i
        proof (cases "i < ?n")
          case False
          then obtain j where j: "i = ?n + j" "j < k" using i le_Suc_ex [of ?n i] by auto
          then have "?rest \<noteq> []" using 1 by auto
          from 1(3) [rule_format, OF j(2)] show ?thesis unfolding shift [OF \<open>?rest \<noteq> []\<close>] j(1) using wr by blast
        qed (rule here)
        then show ?thesis using 1 n by simp
      next
        assume 2: "r = -1" "k < length ?rest" and
          *: "MAXVA \<le> ?va + of_nat k \<or> \<not> uwritable s2 pt (?va + of_nat k) \<or>
            \<not> valid_pte (leaf (ram s2) pt (?va + of_nat k)) \<and> card (free_pages s') \<le> 1"
        then have "?rest \<noteq> []" by auto
        have "MAXVA \<le> va + of_nat (?n + k) \<or> \<not> uwritable s pt (va + of_nat (?n + k)) \<or>
          \<not> valid_pte (leaf (ram s) pt (va + of_nat (?n + k))) \<and> card (free_pages s') \<le> 1"
          using * wr [of "va + of_nat (?n + k)"] mono [of "va + of_nat (?n + k)"]
          unfolding shift [OF \<open>?rest \<noteq> []\<close>] not_le [symmetric] by auto
        then show ?thesis using 2 by auto
      qed
      ultimately show ?case using 2(1) IH(1,2) memstep_trans [OF 2(7)] by (intro exI [of _ r] exI [of _ "?n + k"] exI [of _ s']) auto
    qed
  qed
qed

end
