(* ===== verification/Vm_Props.thy ===== *)
theory Vm_Props
  imports Vm_Copy
begin

unbundle bit_operations_syntax

section \<open>Correctness of virtual memory\<close>

subsection \<open>An address space with one page\<close>

text \<open>
  A concrete state for the witnesses: a root table, one table on each of the two lower levels
  and one user page at virtual address 0, with the free list empty.
\<close>

definition one_page_ram :: mem where
  "one_page_ram =
     write64 (write64 (write64 (\<lambda>_. 0) (pte_slot 0x80010000 0) (PA2PTE 0x80011000 OR PTE_V))
       (pte_slot 0x80011000 0) (PA2PTE 0x80012000 OR PTE_V))
       (pte_slot 0x80012000 0) (PA2PTE 0x80013000 OR 0x17)"

definition one_page :: vm where
  "one_page = \<lparr>ram = one_page_ram, kend = 0x80010000, etext = 0x80008000, trampoline = 0x80007000,
     freelist = 0, p_pagetable = 0x80010000, p_sz = 4096, p_pid = 1, p_killed = False, wakeups = []\<rparr>"

lemma ent_zero: "ent (\<lambda>_. 0) a i = 0"
proof -
  have "mem_bytes (\<lambda>_. 0) (pte_slot a i) 8 = replicate 8 0" by (intro nth_equalityI) simp_all
  moreover have "le_word (replicate 8 0) = (0 :: u64)" by (rule bit_word_eqI) (auto simp: bit_le_word)
  ultimately show ?thesis by (simp add: ent_def read64_def)
qed

lemma one_page_ent:
  assumes "page_aligned a" "i < 512"
  shows "ent one_page_ram a i = (if i = 0 \<and> a = 0x80010000 then PA2PTE 0x80011000 OR PTE_V
     else if i = 0 \<and> a = 0x80011000 then PA2PTE 0x80012000 OR PTE_V
     else if i = 0 \<and> a = 0x80012000 then PA2PTE 0x80013000 OR 0x17 else 0)"
proof -
  have al: "page_aligned 0x80010000" "page_aligned 0x80011000" "page_aligned 0x80012000"
    by (simp_all add: page_aligned_def)
  have w: "ent (write64 m (pte_slot t 0) v) a i = (if (t, 0) = (a, i) then v else ent m a i)"
    if "page_aligned t" for m t v
    using ent_write_other [OF that assms(1) _ assms(2), of 0 m v] by auto
  show ?thesis
    unfolding one_page_ram_def w [OF al(3)] w [OF al(2)] w [OF al(1)] ent_zero by auto
qed

lemma one_page_ptab:
  assumes "path p"
  shows "ptab one_page_ram 0x80010000 p = (if p = [] then Some 0x80010000 else if p = [0] then Some 0x80011000
     else if p = [0, 0] then Some 0x80012000 else None)"
proof -
  have al: "page_aligned 0x80010000" "page_aligned 0x80011000"
    by (simp_all add: page_aligned_def)
  have pa: "PTE2PA (PA2PTE 0x80011000 OR 1) = 0x80011000" "PTE2PA (PA2PTE 0x80012000 OR 1) = 0x80012000"
    by (simp_all add: PTE2PA_def PA2PTE_def)
  consider "p = []" | i where "p = [i]" | i j where "p = [i, j]"
    using assms by (cases p; cases "tl p") (auto simp: path_def)
  then show ?thesis
    using assms by cases (auto simp: path_def one_page_ent al pa valid_pte_def split: if_splits)
qed

lemma one_page_leaf:
  assumes "va < MAXVA"
  shows "leaf one_page_ram 0x80010000 va = (if PGROUNDDOWN va = 0 then PA2PTE 0x80013000 OR 0x17 else 0)"
proof -
  have al: "page_aligned 0x80012000" by (simp add: page_aligned_def)
  have z: "vpath 0 = [0, 0]" "px 0 0 = 0" "PGROUNDDOWN 0 = 0"
    by (simp_all add: vpath_def px_def PX_def PGROUNDDOWN_def)
  have "vpath va = [0, 0] \<and> px 0 va = 0 \<longleftrightarrow> PGROUNDDOWN va = 0"
    using same_page_iff [OF assms, of 0] z by (simp add: MAXVA_val)
  moreover have "vpath va \<noteq> []" "vpath va \<noteq> [0]" by (simp_all add: vpath_def)
  ultimately show ?thesis
    by (auto simp: leaf_def pte_at_def one_page_ptab one_page_ent al)
qed

lemma one_page_ok: "uspace one_page 0x80010000"
proof -
  let ?m = one_page_ram and ?r = "0x80010000 :: u64"
  have km: "kmem_inv one_page []" by (simp add: kmem_inv_def one_page_def)
  have fp: "free_pages one_page = {}" using free_pages_inv [OF km] by simp
  have tb: "tabs ?m ?r \<subseteq> {0x80010000, 0x80011000, 0x80012000}"
    using one_page_ptab by (auto simp: tabs_def split: if_splits)
  have tr: "tree ?m ?r"
  proof (rule treeI)
    show "p = q" if "path p" "path q" "ptab ?m ?r p = Some a" "ptab ?m ?r q = Some a" for p q a
      using that by (auto simp: one_page_ptab split: if_splits)
    show "ent ?m t i AND (PTE_R OR PTE_W OR PTE_X) = 0 \<and> (p = [] \<longrightarrow> i < 256)"
      if h: "path (p @ [i])" "ptab ?m ?r p = Some t" "valid_pte (ent ?m t i)" for p i t
    proof -
      have p: "path p" "i < 512" "length p < 2" using h(1) by (simp_all add: path_snoc)
      have "t = 0x80010000 \<or> t = 0x80011000"
        using h(2) p one_page_ptab [OF p(1)] by (auto split: if_splits)
      then show ?thesis
        using h(3) p(2) by (auto simp: one_page_ent page_aligned_def PA2PTE_def split: if_splits)
    qed
  qed
  have flds: "ram one_page = ?m" "p_sz one_page = 4096" "p_pagetable one_page = ?r" "kend one_page = ?r"
    by (simp_all add: one_page_def)
  have ok: "vm_ok one_page ?r"
    using km tr tb fp unfolding vm_ok_def kmem_ok_def
    by (auto simp: flds good_page_def page_aligned_def PHYSTOP_val)
  have pa: "PTE2PA (PA2PTE 0x80013000 OR 0x17) = 0x80013000" by (simp add: PTE2PA_def PA2PTE_def)
  show ?thesis
  proof (rule uspaceI [OF ok])
    fix va assume va: "va < TRAPFRAME" "valid_pte (leaf (ram one_page) ?r va)"
    then have "leaf ?m ?r va = PA2PTE 0x80013000 OR 0x17"
      using one_page_leaf [OF below_TRAPFRAME [OF va(1)]] by (auto simp: flds split: if_splits)
    then show "good_page one_page (PTE2PA (leaf (ram one_page) ?r va)) \<and>
       PTE2PA (leaf (ram one_page) ?r va) \<notin> free_pages one_page \<and>
       PTE2PA (leaf (ram one_page) ?r va) \<notin> tabs (ram one_page) ?r"
      using fp tb by (auto simp: flds pa good_page_def page_aligned_def PHYSTOP_val)
  next
    fix va vb assume "va < TRAPFRAME" "vb < TRAPFRAME" "valid_pte (leaf (ram one_page) ?r va)"
      "valid_pte (leaf (ram one_page) ?r vb)"
    then show "PGROUNDDOWN va = PGROUNDDOWN vb"
      using one_page_leaf below_TRAPFRAME by (auto simp: flds split: if_splits)
  next
    fix va assume "va < MAXVA" "valid_pte (leaf (ram one_page) ?r va)"
    then have "PGROUNDDOWN va < TRAPFRAME"
      using one_page_leaf [of va] by (auto simp: flds TRAPFRAME_val split: if_splits)
    then show "va < TRAPFRAME" using PGROUNDDOWN_less_iff by simp
  qed (simp_all add: flds TRAPFRAME_val)
qed

lemma one_page_writable:
  assumes "va < 4096"
  shows "va < MAXVA" "uwritable one_page 0x80010000 va" "valid_pte (leaf (ram one_page) 0x80010000 va)"
proof -
  show va: "va < MAXVA" using assms by (simp add: word_less_nat_alt MAXVA_val)
  have "PGROUNDDOWN va = 0"
    using assms by (simp add: word_unat_eq_iff unat_PGROUNDDOWN word_less_nat_alt)
  then have "leaf (ram one_page) 0x80010000 va = PA2PTE 0x80013000 OR 0x17"
    using one_page_leaf [OF va] by (simp add: one_page_def)
  then show "uwritable one_page 0x80010000 va" "valid_pte (leaf (ram one_page) 0x80010000 va)"
    by (simp_all add: uwritable_def PA2PTE_def valid_pte_def user_pte_def)
qed

subsection \<open>Page tables\<close>

text \<open>
  C16: Walking a page table with allocation either returns the slot of the address or fails for
  want of memory; in both cases every existing mapping, and every byte outside the table's own
  pages, is as before, and pages only move from the free list to the table.
\<close>

theorem walk_preserves_mappings:
  assumes "vm_ok s pt" "va < MAXVA"
  shows "\<exists>r s'. walk pt va True s = Inr (r, s') \<and> vm_ok s' pt \<and>
    (\<forall>vb. leaf (ram s') pt vb = leaf (ram s) pt vb) \<and> frame s s' (tabs (ram s') pt) \<and>
    tabs (ram s') pt \<union> free_pages s' = tabs (ram s) pt \<union> free_pages s \<and>
    (if r = 0 then free_pages s' = {} else r = walk_slot (ram s') pt va)"
proof -
  obtain r s' where w: "walk pt va True s = Inr (r, s')" "grown s s' pt"
    "if r = 0 then free_pages s' = {}
     else \<exists>t'. ptab (ram s') pt (vpath va) = Some t' \<and> r = pte_slot t' (px 0 va)"
    using walk_alloc [OF assms] by blast
  have "r \<noteq> 0 \<Longrightarrow> r = walk_slot (ram s') pt va" using w(3) by (auto simp: walk_slot_def)
  then show ?thesis using w grown_leaf [OF w(2)] by (auto simp: grown_def)
qed

theorem walk_preserves_mappings_witness:
  "\<exists>r s'. walk 0x80010000 0x5000 True one_page = Inr (r, s') \<and>
    leaf (ram s') 0x80010000 0 = leaf (ram one_page) 0x80010000 0"
  using walk_preserves_mappings [of one_page "0x80010000" "0x5000"] one_page_ok
  by (fastforce simp: uspace_def MAXVA_val)

text \<open>
  C11: Mapping a range of unmapped pages refines the update of the abstract page map on exactly
  that range: on success all pages are mapped to consecutive physical pages with the given
  permissions; on failure a prefix is, and the free list is empty.
\<close>

theorem mappages_refines:
  assumes "vm_ok s pt" "page_aligned a" "0 < n" "unat a + 4096 * n \<le> 2 ^ 38"
    and "\<And>va. va < MAXVA \<Longrightarrow> in_pages a n va \<Longrightarrow> \<not> valid_pte (leaf (ram s) pt va)"
  shows "\<exists>r s' k. mappages pt a (4096 * of_nat n) pa perm s = Inr (r, s') \<and> vm_ok s' pt \<and>
    (\<forall>va < MAXVA. leaf (ram s') pt va = map_range a k pa perm (leaf (ram s) pt) va) \<and>
    frame s s' (tabs (ram s') pt) \<and>
    (r = 0 \<and> k = n \<or> r = -1 \<and> k < n \<and> free_pages s' = {})"
  using mappages_spec [OF assms, of pa perm] unfolding mapped_def by blast

theorem mappages_refines_witness:
  "\<exists>r s' k. mappages 0x80010000 0x5000 (4096 * of_nat 1) 0x80014000 0x16 one_page = Inr (r, s') \<and>
    leaf (ram s') 0x80010000 0x5000 = map_range 0x5000 k 0x80014000 0x16 (leaf (ram one_page) 0x80010000) 0x5000"
proof -
  have "\<not> valid_pte (leaf (ram one_page) 0x80010000 va)" if "va < MAXVA" "in_pages 0x5000 1 va" for va
  proof -
    have "PGROUNDDOWN va = 0x5000" using in_page_iff [of "0x5000" va] that(2) by (simp add: page_aligned_def)
    then show ?thesis using one_page_leaf [OF that(1)] by (simp add: one_page_def)
  qed
  then show ?thesis
    using mappages_refines [of one_page "0x80010000" "0x5000" 1 "0x80014000" "0x16"] one_page_ok
    by (fastforce simp: uspace_def page_aligned_def MAXVA_val)
qed

text \<open>
  C19: Unmapping a range with \<^verbatim>\<open>do_free\<close> clears exactly the valid entries of the range and puts
  exactly the pages they mapped on the free list; no other mapping, table or byte changes.
\<close>

theorem uvmunmap_frees_range:
  assumes "vm_ok s pt" "page_aligned a" "unat a + 4096 * n \<le> 2 ^ 38" "owned s pt a n"
  shows "\<exists>s'. uvmunmap pt a (of_nat n) True s = Inr ((), s') \<and> vm_ok s' pt \<and>
    free_pages s' = free_pages s \<union> range_pages (ram s) pt a n \<and>
    tabs (ram s') pt = tabs (ram s) pt \<and>
    frame s s' (tabs (ram s) pt \<union> range_pages (ram s) pt a n) \<and>
    (\<forall>va < MAXVA. leaf (ram s') pt va =
       (if in_pages a n va \<and> valid_pte (leaf (ram s) pt va) then 0 else leaf (ram s) pt va))"
  using uvmunmap_spec [OF assms(1-3), of True] assms(4) unfolding unmapped_def if_True by blast

theorem uvmunmap_frees_range_witness:
  "\<exists>s'. uvmunmap 0x80010000 0 (of_nat 1) True one_page = Inr ((), s') \<and>
    leaf (ram s') 0x80010000 0 = 0"
proof -
  have "owned one_page 0x80010000 0 1"
    using one_page_ok by (auto simp: uspace_def in_pages_def intro: owned_mono)
  moreover have "in_pages 0 1 0" by (simp add: in_pages_def)
  moreover have "valid_pte (leaf (ram one_page) 0x80010000 0)" using one_page_writable(3) [of 0] by simp
  ultimately show ?thesis
    using uvmunmap_frees_range [of one_page "0x80010000" 0 1] one_page_ok
    by (fastforce simp: uspace_def MAXVA_val)
qed

subsection \<open>Lazy allocation\<close>

text \<open>
  C24: A page fault is invisible to the user program: whether it maps a page or fails, every user
  address reads as before, and no mapping other than that of the faulting page changes.
\<close>

theorem vmfault_transparent:
  fixes s :: "'z vm_scheme"
  assumes "uspace s pt"
  shows "\<exists>r s'. vmfault pt va s = Inr (r, s') \<and> uspace s' pt \<and>
    (\<forall>vb < MAXVA. uview s' pt vb = uview s pt vb) \<and>
    (if r = 0 then p_sz s \<le> va \<or> valid_pte (leaf (ram s) pt va) \<or> card (free_pages s') \<le> 1
     else \<forall>vb < MAXVA. leaf (ram s') pt vb =
       (if PGROUNDDOWN vb = PGROUNDDOWN va then PA2PTE r OR (PTE_W OR PTE_U OR PTE_R) OR PTE_V
        else leaf (ram s) pt vb))"
  using vmfault_spec [OF assms, of va] unfolding uext_def by (auto split: if_splits)

theorem vmfault_transparent_witness:
  "\<exists>r s'. vmfault 0x80010000 0x10 one_page = Inr (r, s') \<and> uview s' 0x80010000 0x20 = uview one_page 0x80010000 0x20"
  using vmfault_transparent [OF one_page_ok, of "0x10"] by (fastforce simp: MAXVA_val)

text \<open>
  C36: The process size must stay within \<^verbatim>\<open>MAXVA\<close>: for a process whose size lies beyond it, a fault
  on an address between the two is a kernel panic, because \<^verbatim>\<open>walk\<close> refuses the address.
\<close>

theorem vmfault_panics_beyond_MAXVA:
  assumes "va < p_sz s" "MAXVA \<le> va"
  shows "vmfault pt va s = Inl (Panic ''walk'')"
proof -
  have "page_aligned MAXVA" by (simp add: page_aligned_def MAXVA_val)
  then have "MAXVA \<le> PGROUNDDOWN va" using PGROUNDDOWN_less_iff [of MAXVA va] assms(2) by (simp flip: not_less)
  then show ?thesis
    using assms(1) by (simp add: vmfault_def ismapped_def walk_def run_simps not_le)
qed

theorem vmfault_panics_beyond_MAXVA_witness:
  "vmfault 0x80010000 MAXVA (one_page\<lparr>p_sz := MAXVA + 1\<rparr>) = Inl (Panic ''walk'')"
  by (rule vmfault_panics_beyond_MAXVA) (simp_all add: MAXVA_val)

subsection \<open>Copies between user and kernel\<close>

lemma no_wrap:
  assumes "\<And>i. i < k \<Longrightarrow> va + of_nat i < MAXVA" "i < k"
  shows "unat (va + of_nat i) = unat va + i"
  using assms(2)
proof (induction i)
  case (Suc i)
  have "va + of_nat i < MAXVA" using assms(1) Suc.prems by simp
  then have "unat (va + of_nat i) < 2 ^ 38" by (simp add: less_MAXVA_iff)
  moreover have "va + of_nat (Suc i) = (va + of_nat i) + 1" by simp
  ultimately show ?case using Suc by (simp only: unat_word_ariths) simp
qed simp

text \<open>
  \<^verbatim>\<open>copyin\<close> always returns, changes nothing the user can see, and succeeds with exactly the
  bytes the user would read; it fails only if some address of the range is inaccessible, or a
  page of it was never touched and memory has run out.
\<close>

lemma copyin_reads_user_memory:
  fixes s :: "'z vm_scheme"
  assumes "uspace s pt"
  shows "\<exists>r bs s'. copyin pt va len s = Inr ((r, bs), s') \<and> uext s s' pt \<and>
    (r = 0 \<and> length bs = len \<and> (\<forall>i < len. va + of_nat i < MAXVA \<and> uview s pt (va + of_nat i) = Some (bs ! i)) \<or>
     r = -1 \<and> (\<exists>i < len. MAXVA \<le> va + of_nat i \<or> uview s pt (va + of_nat i) = None \<or>
        \<not> valid_pte (leaf (ram s) pt (va + of_nat i)) \<and> card (free_pages s') \<le> 1))"
  using copyin_loop_spec [OF assms, of va len "[]"] unfolding copyin_def by simp

text \<open>
  \<^verbatim>\<open>copyout\<close> always returns and writes a prefix of its source: the user's memory is updated on
  the addresses of that prefix and nowhere else.  It is the whole source when the result is 0;
  otherwise the next address is out of range, not writable, or memory has run out.
\<close>

lemma copyout_writes_user_memory:
  fixes s :: "'z vm_scheme"
  assumes "uspace s pt"
  shows "\<exists>r k s'. copyout pt va src s = Inr (r, s') \<and> uspace s' pt \<and>
    (\<forall>vb < MAXVA. uview s' pt vb = put_view va (take k src) (uview s pt) vb) \<and>
    (r = 0 \<and> k = length src \<and> (\<forall>i < k. va + of_nat i < MAXVA \<and> uwritable s pt (va + of_nat i)) \<or>
     r = -1 \<and> k < length src \<and>
       (MAXVA \<le> va + of_nat k \<or> \<not> uwritable s pt (va + of_nat k) \<or>
        \<not> valid_pte (leaf (ram s) pt (va + of_nat k)) \<and> card (free_pages s') \<le> 1))"
proof -
  obtain r k s' where c: "copyout pt va src s = Inr (r, s')" "uspace s' pt"
    "\<forall>vb < MAXVA. uview s' pt vb = put_view va (take k src) (uview s pt) vb \<and>
       (valid_pte (leaf (ram s) pt vb) \<longrightarrow> valid_pte (leaf (ram s') pt vb))"
    "r = 0 \<and> k = length src \<and> (\<forall>i < k. va + of_nat i < MAXVA \<and> uwritable s pt (va + of_nat i) \<and>
        valid_pte (leaf (ram s') pt (va + of_nat i))) \<or>
     r = -1 \<and> k < length src \<and>
       (MAXVA \<le> va + of_nat k \<or> \<not> uwritable s pt (va + of_nat k) \<or>
        \<not> valid_pte (leaf (ram s) pt (va + of_nat k)) \<and> card (free_pages s') \<le> 1)"
    using copyout_spec [OF assms, of va src] by blast
  show ?thesis by (rule exI [of _ r], rule exI [of _ k], rule exI [of _ s']) (use c in blast)
qed

text \<open>
  C13: What \<^verbatim>\<open>copyout\<close> wrote, \<^verbatim>\<open>copyin\<close> reads back, across page boundaries and lazily allocated
  pages alike.
\<close>

theorem copyout_copyin_roundtrip:
  fixes s :: "'z vm_scheme"
  assumes us: "uspace s pt" and out: "copyout pt va src s = Inr (0, s1)"
  shows "\<exists>s2. copyin pt va (length src) s1 = Inr ((0, src), s2)"
proof -
  have c: "uspace s1 pt" "\<And>vb. vb < MAXVA \<Longrightarrow> uview s1 pt vb = put_view va src (uview s pt) vb"
    and v: "\<And>i. i < length src \<Longrightarrow> va + of_nat i < MAXVA"
      "\<And>i. i < length src \<Longrightarrow> valid_pte (leaf (ram s1) pt (va + of_nat i))"
    using copyout_spec [OF us, of va src] out by auto
  have view: "uview s1 pt (va + of_nat i) = Some (src ! i)" if "i < length src" for i
    using c(2) [OF v(1) [OF that]] no_wrap [OF v(1) that] that by (simp add: put_view_def)
  obtain r bs s2 where i: "copyin pt va (length src) s1 = Inr ((r, bs), s2)"
    "r = 0 \<and> length bs = length src \<and> (\<forall>i < length src. uview s1 pt (va + of_nat i) = Some (bs ! i)) \<or>
     r = -1 \<and> (\<exists>i < length src. MAXVA \<le> va + of_nat i \<or> uview s1 pt (va + of_nat i) = None \<or>
        \<not> valid_pte (leaf (ram s1) pt (va + of_nat i)) \<and> card (free_pages s2) \<le> 1)"
    using copyin_loop_spec [OF c(1), of va "length src" "[]"] unfolding copyin_def by auto
  have "r = 0 \<and> length bs = length src \<and> (\<forall>i < length src. uview s1 pt (va + of_nat i) = Some (bs ! i))"
    using i(2) view v by (auto simp flip: not_less)
  moreover then have "bs = src" using view by (intro nth_equalityI) auto
  ultimately show ?thesis using i(1) by blast
qed

theorem copyout_copyin_roundtrip_witness:
  "\<exists>s1 s2. copyout 0x80010000 0x10 [1, 2, 3] one_page = Inr (0, s1) \<and>
    copyin 0x80010000 0x10 (length [1, 2, 3 :: byte]) s1 = Inr ((0, [1, 2, 3]), s2)"
proof -
  have less: "(0x10 :: u64) + of_nat i < 4096" if "i < 3" for i
    using that by (auto simp: numeral_3_eq_3 less_Suc_eq)
  obtain r k s1 where c: "copyout 0x80010000 0x10 [1, 2, 3] one_page = Inr (r, s1)"
    "r = 0 \<or> k < 3 \<and> (MAXVA \<le> 0x10 + of_nat k \<or> \<not> uwritable one_page 0x80010000 (0x10 + of_nat k) \<or>
        \<not> valid_pte (leaf (ram one_page) 0x80010000 (0x10 + of_nat k)))"
    using copyout_spec [OF one_page_ok, of "0x10" "[1, 2, 3]"] by (auto simp: numeral_3_eq_3)
  have "r = 0" using c(2) one_page_writable [OF less, of k] by (auto simp flip: not_less)
  then show ?thesis using c(1) copyout_copyin_roundtrip [OF one_page_ok, of "0x10" "[1, 2, 3]" s1] by blast
qed

end
