(* ===== verification/Pipe.thy ===== *)
theory Pipe
  imports Vm_Props
begin

section \<open>Pipes (kernel/pipe.c)\<close>

text \<open>
  The pipes are objects in a store indexed by the address of their page.  The read and write
  counters are 32-bit words that wrap around.  \<^verbatim>\<open>pipewrite\<close> and \<^verbatim>\<open>piperead\<close> may sleep in the middle:
  a run of either up to the point where it sleeps is one operation, which yields \<open>Done r\<close> when
  the C function returns \<open>r\<close> and \<open>Waits c i\<close> when it sleeps on channel \<open>c\<close> with its loop variable at
  \<open>i\<close>; resumed, it continues from there.
\<close>

abbreviation (input) PIPESIZE :: nat where "PIPESIZE \<equiv> 512"

record pipe =
  pdata :: "byte list"
  nread :: u32
  nwrite :: u32
  readopen :: bool
  writeopen :: bool

record pipes = vm +
  pipe_at :: "addr \<Rightarrow> pipe"

datatype outcome = Done int | Waits chan nat

definition set_pipe :: "addr \<Rightarrow> (pipe \<Rightarrow> pipe) \<Rightarrow> ('z pipes_scheme, unit) K" where
  "set_pipe pi f = modifyK (\<lambda>s. s\<lparr>pipe_at := (pipe_at s)(pi := f (pipe_at s pi))\<rparr>)"

definition nread_chan :: "addr \<Rightarrow> chan" where "nread_chan pi = (''nread'', unat pi)"
definition nwrite_chan :: "addr \<Rightarrow> chan" where "nwrite_chan pi = (''nwrite'', unat pi)"

subsection \<open>Operations\<close>

text \<open>The initialisation of a pipe in \<^verbatim>\<open>pipealloc\<close>; the page's old contents stay in \<open>data\<close>.\<close>

definition pipe_init :: "addr \<Rightarrow> ('z pipes_scheme, unit) K" where
  "pipe_init pi =
     bindK (getsK (\<lambda>s. mem_bytes (ram s) pi PIPESIZE)) (\<lambda>junk.
     set_pipe pi (\<lambda>_. \<lparr>pdata = junk, nread = 0, nwrite = 0, readopen = True, writeopen = True\<rparr>))"

definition pipeclose :: "addr \<Rightarrow> bool \<Rightarrow> ('z pipes_scheme, unit) K" where
  "pipeclose pi writable =
     thenK
       (if writable then thenK (set_pipe pi (\<lambda>p. p\<lparr>writeopen := False\<rparr>)) (wakeup (nread_chan pi))
        else thenK (set_pipe pi (\<lambda>p. p\<lparr>readopen := False\<rparr>)) (wakeup (nwrite_chan pi)))
       (bindK (getsK (\<lambda>s. \<not> readopen (pipe_at s pi) \<and> \<not> writeopen (pipe_at s pi))) (\<lambda>b.
        whenK b (kfree pi)))"

definition pipe_put :: "byte \<Rightarrow> pipe \<Rightarrow> pipe" where
  "pipe_put ch p = p\<lparr>pdata := (pdata p)[unat (nwrite p) mod PIPESIZE := ch], nwrite := nwrite p + 1\<rparr>"

text \<open>The loop of \<^verbatim>\<open>pipewrite\<close> from loop variable \<open>i\<close>.\<close>

function pipewrite_from :: "addr \<Rightarrow> u64 \<Rightarrow> nat \<Rightarrow> nat \<Rightarrow> ('z pipes_scheme, outcome) K" where
  "pipewrite_from pi addr n i =
     (if i < n then
        bindK (getsK (\<lambda>s. \<not> readopen (pipe_at s pi))) (\<lambda>closed.
        bindK killed (\<lambda>k.
        if closed \<or> k then returnK (Done (-1))
        else
          bindK (getsK (\<lambda>s. nwrite (pipe_at s pi) = nread (pipe_at s pi) + 512)) (\<lambda>full.
          if full then thenK (wakeup (nread_chan pi)) (returnK (Waits (nwrite_chan pi) i))
          else
            bindK (getsK p_pagetable) (\<lambda>pagetable.
            bindK (copyin pagetable (addr + of_nat i) 1) (\<lambda>(r, ch).
            if r = -1 then thenK (wakeup (nread_chan pi)) (returnK (Done (int i)))
            else thenK (set_pipe pi (pipe_put (hd ch))) (pipewrite_from pi addr n (i + 1)))))))
      else thenK (wakeup (nread_chan pi)) (returnK (Done (int i))))"
  by pat_completeness auto
termination by (relation "measure (\<lambda>(pi, addr, n, i). n - i)") auto

declare pipewrite_from.simps [simp del]

text \<open>\<^verbatim>\<open>n\<close> is a C \<^verbatim>\<open>int\<close>; the loop does not run when it is negative.\<close>

definition pipewrite :: "addr \<Rightarrow> u64 \<Rightarrow> int \<Rightarrow> ('z pipes_scheme, outcome) K" where
  "pipewrite pi addr n = pipewrite_from pi addr (nat n) 0"

function piperead_copy :: "addr \<Rightarrow> u64 \<Rightarrow> nat \<Rightarrow> nat \<Rightarrow> ('z pipes_scheme, int) K" where
  "piperead_copy pi addr n i =
     (if i < n then
        bindK (getsK (\<lambda>s. pipe_at s pi)) (\<lambda>p.
        if nread p = nwrite p then returnK (int i)
        else
          (let ch = pdata p ! (unat (nread p) mod PIPESIZE) in
           thenK (set_pipe pi (\<lambda>p. p\<lparr>nread := nread p + 1\<rparr>))
           (bindK (getsK p_pagetable) (\<lambda>pagetable.
            bindK (copyout pagetable (addr + of_nat i) [ch]) (\<lambda>r.
            if r = -1 then returnK (int i) else piperead_copy pi addr n (i + 1))))))
      else returnK (int i))"
  by pat_completeness auto
termination by (relation "measure (\<lambda>(pi, addr, n, i). n - i)") auto

declare piperead_copy.simps [simp del]

definition piperead :: "addr \<Rightarrow> u64 \<Rightarrow> int \<Rightarrow> ('z pipes_scheme, outcome) K" where
  "piperead pi addr n =
     bindK (getsK (\<lambda>s. nread (pipe_at s pi) = nwrite (pipe_at s pi) \<and> writeopen (pipe_at s pi))) (\<lambda>wait.
     if wait then
       bindK killed (\<lambda>k. if k then returnK (Done (-1)) else returnK (Waits (nread_chan pi) 0))
     else
       bindK (piperead_copy pi addr (nat n) 0) (\<lambda>i.
       thenK (wakeup (nwrite_chan pi)) (returnK (Done i))))"

subsection \<open>The ring buffer as a queue\<close>

definition count :: "pipe \<Rightarrow> nat" where
  "count p = unat (nwrite p - nread p)"

definition contents :: "pipe \<Rightarrow> byte list" where
  "contents p = map (\<lambda>k. pdata p ! ((unat (nread p) + k) mod PIPESIZE)) [0..<count p]"

definition pipe_ok :: "pipe \<Rightarrow> bool" where
  "pipe_ok p \<longleftrightarrow> length (pdata p) = PIPESIZE \<and> count p \<le> PIPESIZE"

lemma length_contents [simp]: "length (contents p) = count p"
  by (simp add: contents_def)

lemma nwrite_eq: "nwrite p = nread p + of_nat (count p)"
  by (simp add: count_def)

lemma full_iff: "nwrite p = nread p + 512 \<longleftrightarrow> count p = 512"
proof -
  have "nwrite p = nread p + 512 \<longleftrightarrow> nwrite p - nread p = 512" by (metis add.commute diff_eq_eq)
  also have "\<dots> \<longleftrightarrow> unat (nwrite p - nread p) = unat (512 :: u32)" by (rule word_unat_eq_iff)
  finally show ?thesis by (simp add: count_def)
qed

lemma empty_iff: "nread p = nwrite p \<longleftrightarrow> count p = 0"
  by (auto simp: count_def unat_eq_0)

lemma pipe_put_ok:
  assumes ok: "pipe_ok p" and room: "count p < 512"
  shows "pipe_ok (pipe_put ch p)" "count (pipe_put ch p) = Suc (count p)"
    "contents (pipe_put ch p) = contents p @ [ch]"
proof -
  have "nwrite p + 1 - nread p = of_nat (Suc (count p))" by (subst nwrite_eq) simp
  moreover have "unat (of_nat (Suc (count p)) :: u32) = Suc (count p)"
    using room by (intro unat_of_nat_small) simp
  moreover have "count (pipe_put ch p) = unat (nwrite p + 1 - nread p)" by (simp add: count_def pipe_put_def)
  ultimately show c: "count (pipe_put ch p) = Suc (count p)" by metis
  show "pipe_ok (pipe_put ch p)" using ok room c by (simp add: pipe_ok_def pipe_put_def)
  have w: "unat (nwrite p) mod 512 = (unat (nread p) + count p) mod 512"
    by (subst nwrite_eq) (simp add: unat_add_mod)
  have ne: "(unat (nread p) + k) mod 512 \<noteq> (unat (nread p) + count p) mod 512" if "k < count p" for k
    using that room by (intro ring_index_neq) simp_all
  have "length (pdata p) = 512" using ok by (simp add: pipe_ok_def)
  then show "contents (pipe_put ch p) = contents p @ [ch]"
    unfolding contents_def c using ne w by (auto simp: pipe_put_def nth_list_update_neq [OF not_sym] intro!: map_cong)
qed

lemma pipe_get_ok:
  assumes ok: "pipe_ok p" and ne: "count p \<noteq> 0"
  defines "p' \<equiv> p\<lparr>nread := nread p + 1\<rparr>"
  shows "pipe_ok p'" "contents p = pdata p ! (unat (nread p) mod 512) # contents p'"
proof -
  have "nwrite p - (nread p + 1) = of_nat (count p) - 1" by (subst nwrite_eq) simp
  also have "\<dots> = of_nat (count p - 1)" using ne by (simp add: of_nat_diff)
  finally have "count p' = unat (of_nat (count p - 1) :: u32)" by (simp add: count_def p'_def)
  also have "\<dots> = count p - 1" using ok by (intro unat_of_nat_small) (auto simp: pipe_ok_def)
  finally have c: "count p = Suc (count p')" using ne by simp
  show "pipe_ok p'" using ok c by (simp add: pipe_ok_def p'_def)
  have "(unat (nread p + 1) + k) mod 512 = (unat (nread p) + Suc k) mod 512" for k
  proof -
    have "(unat (nread p + 1) + k) mod 512 = (unat (nread p + 1) mod 512 + k) mod 512" by (simp add: mod_add_left_eq)
    also have "unat (nread p + 1) mod 512 = (unat (nread p) + 1) mod 512" using unat_add_mod [of 512 "nread p" 1] by simp
    finally show ?thesis by (simp add: mod_add_left_eq)
  qed
  then show "contents p = pdata p ! (unat (nread p) mod 512) # contents p'"
    unfolding contents_def c upt_conv_Cons [OF zero_less_Suc] by (simp add: map_Suc_upt [symmetric] p'_def del: upt_Suc)
qed

subsection \<open>Writing and reading\<close>

lemma pipes_cong [simp]:
  "uspace (s\<lparr>pipe_at := x\<rparr>) pt = uspace s pt" "uview (s\<lparr>pipe_at := x\<rparr>) pt va = uview s pt va"
  "uspace (s\<lparr>wakeups := w\<rparr>) pt = uspace s pt" "uview (s\<lparr>wakeups := w\<rparr>) pt va = uview s pt va"
  for s :: "'z pipes_scheme"
  by (rule vm_fields_cong; simp)+

lemma uext_pipe: "uext s s' pt \<Longrightarrow> pipe_at s' = pipe_at s \<and> p_pagetable s' = p_pagetable s \<and>
    p_killed s' = p_killed s \<and> wakeups s' = wakeups s"
  for s :: "'z pipes_scheme"
  by (auto simp: uext_def)

text \<open>
  The effect of a run of \<^verbatim>\<open>pipewrite\<close>: \<open>ws\<close>, the bytes of the user's memory from \<open>va\<close> on, are appended
  to the queue.
\<close>

definition piped :: "'z pipes_scheme \<Rightarrow> 'z pipes_scheme \<Rightarrow> addr \<Rightarrow> addr \<Rightarrow> u64 \<Rightarrow> byte list \<Rightarrow> bool" where
  "piped s s' pt pi va ws \<longleftrightarrow> uspace s' pt \<and> (\<forall>vb < MAXVA. uview s' pt vb = uview s pt vb) \<and>
     p_killed s' = p_killed s \<and> readopen (pipe_at s' pi) = readopen (pipe_at s pi) \<and>
     pipe_ok (pipe_at s' pi) \<and> contents (pipe_at s' pi) = contents (pipe_at s pi) @ ws \<and>
     (\<forall>q. q \<noteq> pi \<longrightarrow> pipe_at s' q = pipe_at s q) \<and>
     (\<forall>k < length ws. va + of_nat k < MAXVA \<and> uview s pt (va + of_nat k) = Some (ws ! k))"

lemma piped_Nil: "uspace s pt \<Longrightarrow> pipe_ok (pipe_at s pi) \<Longrightarrow> piped s s pt pi va []"
  by (simp add: piped_def)

lemma piped_wakeup: "piped s s' pt pi va ws \<Longrightarrow> piped s (s'\<lparr>wakeups := w\<rparr>) pt pi va ws"
  by (simp add: piped_def)

lemma piped_Cons:
  assumes "uext s s1 pt" "pipe_ok (pipe_at s pi)" "count (pipe_at s pi) < 512"
    "va < MAXVA" "uview s pt va = Some w"
    "piped (s1\<lparr>pipe_at := (pipe_at s1)(pi := pipe_put w (pipe_at s1 pi))\<rparr>) s' pt pi (va + 1) ws"
  shows "piped s s' pt pi va (w # ws)"
proof -
  have "va + of_nat k < MAXVA \<and> uview s pt (va + of_nat k) = Some ((w # ws) ! k)" if "k < length (w # ws)" for k
  proof (cases k)
    case (Suc j)
    let ?x = "va + 1 + of_nat j"
    have x: "?x < MAXVA" "uview s1 pt ?x = Some (ws ! j)" using assms(6) that Suc by (simp_all add: piped_def)
    have eq: "va + of_nat k = ?x" using Suc by simp
    have "uview s1 pt ?x = uview s pt ?x" using assms(1) x(1) by (simp add: uext_def)
    then show ?thesis unfolding eq using x Suc by (simp only: nth_Cons_Suc)
  qed (use assms in simp)
  then show ?thesis
    using assms uext_pipe [OF assms(1)] pipe_put_ok [OF assms(2,3), of w]
    by (simp add: piped_def uext_def) (simp add: pipe_put_def)
qed

text \<open>
  A run of \<^verbatim>\<open>pipewrite\<close> from loop variable \<open>i\<close> appends the bytes it takes from the user, in order, and
  stops for the reason its result says.
\<close>

lemma pipewrite_from_spec:
  fixes s :: "'z pipes_scheme"
  assumes "uspace s pt" "pipe_ok (pipe_at s pi)" "i \<le> n"
  shows "\<exists>r s' ws. pipewrite_from pi addr n i s = Inr (r, s') \<and>
    piped s s' pt pi (addr + of_nat i) ws \<and> i + length ws \<le> n \<and>
    (r = Done (int (i + length ws)) \<or>
     r = Done (-1) \<and> ws = [] \<and> (\<not> readopen (pipe_at s pi) \<or> p_killed s) \<or>
     r = Waits (nwrite_chan pi) (i + length ws) \<and> count (pipe_at s' pi) = 512 \<and> i + length ws < n) \<and>
    wakeups s' = wakeups s @ (if r = Done (-1) then [] else [nread_chan pi])"
    (is "\<exists>r s' ws. _ \<and> ?Q s i r s' ws")
  using assms
proof (induction "n - i" arbitrary: i s)
  case 0
  let ?w = "s\<lparr>wakeups := wakeups s @ [nread_chan pi]\<rparr>"
  have "pipewrite_from pi addr n i s = Inr (Done (int i), ?w)"
    using 0 by (subst pipewrite_from.simps) (simp add: run_simps wakeup_def)
  moreover have "?Q s i (Done (int i)) ?w []" using 0 piped_wakeup [OF piped_Nil] by simp
  ultimately show ?case by blast
next
  case (Suc d)
  then have i: "i < n" by simp
  let ?w = "s\<lparr>wakeups := wakeups s @ [nread_chan pi]\<rparr>" and ?p = "pipe_at s pi"
  note nil = piped_Nil [OF Suc.prems(1,2)]
  consider (stop) "\<not> readopen ?p \<or> p_killed s" | (full) "readopen ?p" "\<not> p_killed s" "count ?p = 512"
    | (go) "readopen ?p" "\<not> p_killed s" "count ?p \<noteq> 512" by blast
  then show ?case
  proof cases
    case stop
    then have "pipewrite_from pi addr n i s = Inr (Done (-1), s)"
      using i by (subst pipewrite_from.simps) (simp add: run_simps killed_def)
    moreover have "?Q s i (Done (-1)) s []" using nil stop i by simp
    ultimately show ?thesis by blast
  next
    case full
    then have "pipewrite_from pi addr n i s = Inr (Waits (nwrite_chan pi) i, ?w)"
      using i full_iff [of ?p] by (subst pipewrite_from.simps) (simp add: run_simps killed_def wakeup_def)
    moreover have "?Q s i (Waits (nwrite_chan pi) i) ?w []" using piped_wakeup [OF nil] full i by simp
    ultimately show ?thesis by blast
  next
    case go
    have pt: "p_pagetable s = pt" using Suc.prems(1) by (simp add: uspace_def)
    let ?va = "addr + of_nat i"
    obtain r bs s1 where ci: "copyin pt ?va 1 s = Inr ((r, bs), s1)" "uext s s1 pt"
      "r = 0 \<and> length bs = 1 \<and> ?va < MAXVA \<and> uview s pt ?va = Some (bs ! 0) \<or> r = -1"
      using copyin_loop_spec [OF Suc.prems(1), of ?va 1 "[]"] unfolding copyin_def by fastforce
    note up = uext_pipe [OF ci(2)]
    let ?e = "s1\<lparr>wakeups := wakeups s1 @ [nread_chan pi]\<rparr>"
    let ?s2 = "s1\<lparr>pipe_at := (pipe_at s1)(pi := pipe_put (hd bs) (pipe_at s1 pi))\<rparr>"
    have body: "pipewrite_from pi addr n i s = (if r = -1 then Inr (Done (int i), ?e)
        else pipewrite_from pi addr n (i + 1) ?s2)"
      using i go full_iff [of ?p] ci(1) pt
      by (subst pipewrite_from.simps) (simp add: run_simps killed_def wakeup_def set_pipe_def)
    show ?thesis
    proof (cases "r = -1")
      case True
      have "piped s s1 pt pi ?va []" using ci(2) up Suc.prems(2) by (simp add: piped_def uext_def)
      then have "?Q s i (Done (int i)) ?e []" using i piped_wakeup up by auto
      moreover have "pipewrite_from pi addr n i s = Inr (Done (int i), ?e)" using body True by simp
      ultimately show ?thesis by blast
    next
      case False
      then have bs: "?va < MAXVA" "uview s pt ?va = Some (hd bs)" using ci(3)
        by (auto simp: hd_conv_nth length_Suc_conv)
      have room: "count ?p < 512" using go(3) Suc.prems(2) by (simp add: pipe_ok_def)
      have ok2: "uspace ?s2 pt" "pipe_ok (pipe_at ?s2 pi)"
        using ci(2) pipe_put_ok [OF Suc.prems(2) room] up by (simp_all add: uext_def)
      have "d = n - (i + 1)" "i + 1 \<le> n" using Suc.hyps(2) i by simp_all
      then obtain r' s' ws where IH: "pipewrite_from pi addr n (i + 1) ?s2 = Inr (r', s')"
        "?Q ?s2 (i + 1) r' s' ws" using Suc.hyps(1) [OF _ ok2, of "i + 1"] by blast
      have "piped s s' pt pi ?va (hd bs # ws)"
        using IH(2) piped_Cons [OF ci(2) Suc.prems(2) room bs, of s' ws]
        by (simp only: of_nat_add of_nat_1 add.assoc)
      then have "?Q s i r' s' (hd bs # ws)"
        using IH(2) up go by (auto simp: pipe_put_def)
      moreover have "pipewrite_from pi addr n i s = Inr (r', s')" using body False IH(1) by simp
      ultimately show ?thesis by blast
    qed
  qed
qed

lemma memstep_pipe: "memstep s s' \<Longrightarrow> pipe_at s' = pipe_at s"
  for s :: "'z pipes_scheme"
  by (auto simp: memstep_def)

text \<open>
  The effect of the copying loop of \<^verbatim>\<open>piperead\<close>: the bytes \<open>rs\<close> go from the front of the queue to the user;
  when a byte cannot be stored it has left the queue already and is \<open>lost\<close>.
\<close>

lemma piperead_copy_spec:
  fixes s :: "'z pipes_scheme"
  assumes "uspace s pt" "pipe_ok (pipe_at s pi)" "i \<le> n"
  shows "\<exists>s' rs lost. piperead_copy pi addr n i s = Inr (int (i + length rs), s') \<and>
    uspace s' pt \<and> pipe_ok (pipe_at s' pi) \<and> contents (pipe_at s pi) = rs @ lost @ contents (pipe_at s' pi) \<and>
    (\<forall>q. q \<noteq> pi \<longrightarrow> pipe_at s' q = pipe_at s q) \<and>
    (\<forall>vb < MAXVA. uview s' pt vb = put_view (addr + of_nat i) rs (uview s pt) vb) \<and>
    i + length rs \<le> n \<and> length lost \<le> 1 \<and>
    (lost = [] \<longrightarrow> i + length rs = n \<or> contents (pipe_at s' pi) = [])"
    (is "\<exists>s' rs lost. _ \<and> ?Q s i s' rs lost")
  using assms
proof (induction "n - i" arbitrary: i s)
  case 0
  then have "piperead_copy pi addr n i s = Inr (int (i + length ([] :: byte list)), s)"
    by (subst piperead_copy.simps) (simp add: run_simps)
  moreover have "?Q s i s [] []" using 0 by simp
  ultimately show ?case by blast
next
  case (Suc d)
  then have i: "i < n" by simp
  let ?p = "pipe_at s pi"
  show ?case
  proof (cases "count ?p = 0")
    case True
    then have "piperead_copy pi addr n i s = Inr (int (i + length ([] :: byte list)), s)"
      using i empty_iff [of ?p] by (subst piperead_copy.simps) (simp add: run_simps)
    moreover have "?Q s i s [] []" using Suc.prems True by (simp flip: length_0_conv)
    ultimately show ?thesis by blast
  next
    case False
    let ?ch = "pdata ?p ! (unat (nread ?p) mod 512)" and ?va = "addr + of_nat i"
    let ?s1 = "s\<lparr>pipe_at := (pipe_at s)(pi := ?p\<lparr>nread := nread ?p + 1\<rparr>)\<rparr>"
    note get = pipe_get_ok [OF Suc.prems(2) False]
    have us1: "uspace ?s1 pt" using Suc.prems(1) by simp
    have pt1: "p_pagetable ?s1 = pt" using Suc.prems(1) by (simp add: uspace_def)
    obtain r k s2 where co: "copyout pt ?va [?ch] ?s1 = Inr (r, s2)" "uspace s2 pt"
      "memstep ?s1 s2"
      "\<forall>vb < MAXVA. uview s2 pt vb = put_view ?va (take k [?ch]) (uview ?s1 pt) vb"
      "r = 0 \<and> k = 1 \<and> ?va < MAXVA \<or> r = -1 \<and> k = 0"
      using copyout_spec [OF us1, of ?va "[?ch]"] by fastforce
    have p2: "pipe_at s2 = pipe_at ?s1" using memstep_pipe [OF co(3)] .
    have body: "piperead_copy pi addr n i s = (if r = -1 then Inr (int i, s2) else piperead_copy pi addr n (i + 1) s2)"
      using i False empty_iff [of ?p] co(1) pt1
      by (subst piperead_copy.simps) (simp add: run_simps Let_def set_pipe_def)
    show ?thesis
    proof (cases "r = -1")
      case True
      then have "?Q s i s2 [] [?ch]" using co p2 get i by simp
      moreover have "piperead_copy pi addr n i s = Inr (int (i + length ([] :: byte list)), s2)" using body True by simp
      ultimately show ?thesis by blast
    next
      case False
      then have k: "k = 1" "?va < MAXVA" using co(5) by auto
      have "d = n - (i + 1)" "i + 1 \<le> n" using Suc.hyps(2) i by simp_all
      moreover have "pipe_ok (pipe_at s2 pi)" using p2 get by simp
      ultimately obtain s' rs lost where IH: "piperead_copy pi addr n (i + 1) s2 = Inr (int (i + 1 + length rs), s')"
        "?Q s2 (i + 1) s' rs lost" using Suc.hyps(1) [OF _ co(2), of "i + 1"] by blast
      have lim: "unat ?va + length [?ch] < 2 ^ 64" using k(2) by (simp add: less_MAXVA_iff)
      have "put_view (addr + of_nat (i + 1)) rs (put_view ?va [?ch] (uview s pt)) = put_view ?va (?ch # rs) (uview s pt)"
        using put_view_append [OF lim, of rs "uview s pt"] by (simp add: ac_simps)
      moreover have "uview s' pt vb = put_view (addr + of_nat (i + 1)) rs (put_view ?va [?ch] (uview s pt)) vb" if "vb < MAXVA" for vb
        using IH(2) co(4) k(1) that by (simp add: put_view_def)
      ultimately have "?Q s i s' (?ch # rs) lost" using IH(2) p2 get by simp
      moreover have "piperead_copy pi addr n i s = Inr (int (i + length (?ch # rs)), s')"
        using body False IH(1) by simp
      ultimately show ?thesis by blast
    qed
  qed
qed

subsection \<open>Properties\<close>


definition one_pipe :: pipes where
  "one_pipe = vm.extend one_page \<lparr>pipe_at = \<lambda>_. \<lparr>pdata = replicate 512 0, nread = 0xFFFFFFFF, nwrite = 0xFFFFFFFF,
     readopen = True, writeopen = True\<rparr>\<rparr>"

lemma one_pipe_ok: "uspace one_pipe 0x80010000" "pipe_ok (pipe_at one_pipe 5)"
proof -
  have "uspace one_pipe 0x80010000 = uspace one_page 0x80010000"
    by (rule vm_fields_cong(1)) (simp_all add: one_pipe_def one_page_def vm.defs)
  then show "uspace one_pipe 0x80010000" using one_page_ok by simp
  show "pipe_ok (pipe_at one_pipe 5)" by (simp add: one_pipe_def vm.defs pipe_ok_def count_def)
qed




end
