(* ===== verification/Console.thy ===== *)
theory Console
  imports Pipe
begin

section \<open>The console and the UART (kernel/console.c, kernel/uart.c)\<close>

text \<open>
  The UART is the device at \<^verbatim>\<open>UART0\<close>: its registers, the characters it has received and not yet
  delivered, and the history of the characters sent.  Waiting for the transmit register in
  \<^verbatim>\<open>uartputc_sync\<close> lets the device finish its current character.  The console's input ring has
  three 32-bit indices that wrap around.
\<close>

record console = pipes +
  uart_regs :: "nat \<Rightarrow> byte"   \<comment> \<open>written registers other than THR\<close>
  uart_rx :: "byte list"       \<comment> \<open>received characters waiting in RHR\<close>
  uart_tx_idle :: bool         \<comment> \<open>\<^verbatim>\<open>LSR_TX_IDLE\<close>\<close>
  uart_out :: "byte list"      \<comment> \<open>history: characters written to THR\<close>
  tx_busy :: bool
  panicking :: bool
  panicked :: bool
  cbuf :: "byte list"          \<comment> \<open>\<^verbatim>\<open>cons.buf\<close>\<close>
  cons_r :: u32
  cons_w :: u32
  cons_e :: u32
  proc_dumps :: nat            \<comment> \<open>history: calls of \<^verbatim>\<open>procdump\<close>\<close>

abbreviation (input) INPUT_BUF_SIZE :: nat where "INPUT_BUF_SIZE \<equiv> 128"
abbreviation (input) BACKSPACE :: int where "BACKSPACE \<equiv> 0x100"

text \<open>\<^verbatim>\<open>C(x)\<close>, the control characters.\<close>

definition ctl :: "int \<Rightarrow> int" where
  "ctl x = x - 64"

subsection \<open>The UART\<close>

definition write_reg :: "nat \<Rightarrow> byte \<Rightarrow> ('z console_scheme, unit) K" where
  "write_reg r v = modifyK (\<lambda>s. s\<lparr>uart_regs := (uart_regs s)(r := v)\<rparr>)"

definition write_thr :: "byte \<Rightarrow> ('z console_scheme, unit) K" where
  "write_thr c = modifyK (\<lambda>s. s\<lparr>uart_out := uart_out s @ [c], uart_tx_idle := False\<rparr>)"

definition uartinit :: "('z console_scheme, unit) K" where
  "uartinit =
     thenK (write_reg 1 0)
    (thenK (write_reg 3 0x80)
    (thenK (write_reg 0 3)
    (thenK (write_reg 1 0)
    (thenK (write_reg 3 3)
    (thenK (write_reg 2 7)
           (write_reg 1 3))))))"

text \<open>\<^verbatim>\<open>uartwrite\<close> from index \<open>i\<close>: sleeps on \<^verbatim>\<open>&tx_chan\<close> while a character is being sent.\<close>

definition tx_chan :: chan where "tx_chan = (''tx_chan'', 0)"

function uartwrite_from :: "byte list \<Rightarrow> nat \<Rightarrow> ('z console_scheme, outcome) K" where
  "uartwrite_from buf i =
     (if i < length buf then
        bindK (getsK tx_busy) (\<lambda>busy.
        if busy then returnK (Waits tx_chan i)
        else thenK (write_thr (buf ! i))
          (thenK (modifyK (\<lambda>s. s\<lparr>tx_busy := True\<rparr>)) (uartwrite_from buf (i + 1))))
      else returnK (Done 0))"
  by pat_completeness auto
termination by (relation "measure (\<lambda>(buf, i). length buf - i)") auto

declare uartwrite_from.simps [simp del]

definition uartputc_sync :: "int \<Rightarrow> ('z console_scheme, unit) K" where
  "uartputc_sync c =
     bindK (getsK panicked) (\<lambda>p.
     if p then divergeK
     else thenK (modifyK (\<lambda>s. s\<lparr>uart_tx_idle := True\<rparr>)) (write_thr (of_int c)))"

definition uartgetc :: "('z console_scheme, int) K" where
  "uartgetc =
     bindK (getsK uart_rx) (\<lambda>rx.
     case rx of [] \<Rightarrow> returnK (-1)
     | c # cs \<Rightarrow> thenK (modifyK (\<lambda>s. s\<lparr>uart_rx := cs\<rparr>)) (returnK (uint c)))"

subsection \<open>The console\<close>

definition consputc :: "int \<Rightarrow> ('z console_scheme, unit) K" where
  "consputc c =
     (if c = BACKSPACE then
        thenK (uartputc_sync 8) (thenK (uartputc_sync 32) (uartputc_sync 8))
      else uartputc_sync c)"

text \<open>
  \<^verbatim>\<open>consolewrite\<close> from index \<open>i\<close>.  While \<^verbatim>\<open>uartwrite\<close> sleeps, the pair of positions -- in the user's
  buffer and in the chunk -- is where the call continues.
\<close>

datatype cwrite = CDone int | CWaits chan nat "byte list" nat

function consolewrite_from :: "bool \<Rightarrow> u64 \<Rightarrow> byte list \<Rightarrow> nat \<Rightarrow> nat \<Rightarrow> ('z console_scheme, cwrite) K" where
  "consolewrite_from user_src src kbuf n i =
     (if i < n then
        let nn = (if n - i < 32 then n - i else 32) in
        bindK (either_copyin user_src src kbuf i nn) (\<lambda>(r, buf).
        if r = -1 then returnK (CDone (int i))
        else bindK (uartwrite_from buf 0) (\<lambda>res.
          case res of
            Waits c j \<Rightarrow> returnK (CWaits c i buf j)
          | Done _ \<Rightarrow> consolewrite_from user_src src kbuf n (i + nn)))
      else returnK (CDone (int i)))"
  by pat_completeness auto
termination by (relation "measure (\<lambda>(u, src, kbuf, n, i). n - i)") auto

declare consolewrite_from.simps [simp del]

definition consolewrite :: "bool \<Rightarrow> u64 \<Rightarrow> byte list \<Rightarrow> int \<Rightarrow> ('z console_scheme, cwrite) K" where
  "consolewrite user_src src kbuf n = consolewrite_from user_src src kbuf (nat n) 0"

definition cons_chan :: chan where "cons_chan = (''cons.r'', 0)"

text \<open>
  \<^verbatim>\<open>consoleread\<close> with \<open>n\<close> of \<open>target\<close> bytes left to read: it sleeps while no line is there.
\<close>

function consoleread_from :: "bool \<Rightarrow> u64 \<Rightarrow> byte list \<Rightarrow> nat \<Rightarrow> nat \<Rightarrow> ('z console_scheme, outcome \<times> byte list) K" where
  "consoleread_from user_dst dst kbuf n target =
     (if 0 < n then
        bindK (getsK (\<lambda>s. cons_r s = cons_w s)) (\<lambda>none.
        if none then
          bindK killed (\<lambda>k.
          returnK (if k then Done (-1) else Waits cons_chan (target - n), kbuf))
        else
          bindK (getsK (\<lambda>s. cbuf s ! (unat (cons_r s) mod INPUT_BUF_SIZE))) (\<lambda>c.
          thenK (modifyK (\<lambda>s. s\<lparr>cons_r := cons_r s + 1\<rparr>))
          (if uint c = ctl 68 then
             thenK (whenK (n < target) (modifyK (\<lambda>s. s\<lparr>cons_r := cons_r s - 1\<rparr>)))
               (returnK (Done (int (target - n)), kbuf))
           else
             bindK (either_copyout user_dst dst [c] kbuf) (\<lambda>(r, kbuf').
             if r = -1 then returnK (Done (int (target - n)), kbuf')
             else if c = 10 then returnK (Done (int (target - (n - 1))), kbuf')
             else consoleread_from user_dst (dst + 1) kbuf' (n - 1) target))))
      else returnK (Done (int (target - n)), kbuf))"
  by pat_completeness auto
termination by (relation "measure (\<lambda>(u, dst, kbuf, n, target). n)") auto

declare consoleread_from.simps [simp del]

definition consoleread :: "bool \<Rightarrow> u64 \<Rightarrow> int \<Rightarrow> ('z console_scheme, outcome \<times> byte list) K" where
  "consoleread user_dst dst n = consoleread_from user_dst dst [] (nat n) (nat n)"

text \<open>
  \<^verbatim>\<open>consoleintr\<close>.  The loop of the kill-line character runs at most \<^verbatim>\<open>cons.e - cons.w\<close> times, since it
  stops when the two are equal.
\<close>

primrec kill_loop :: "nat \<Rightarrow> ('z console_scheme, unit) K" where
  "kill_loop 0 = returnK ()"
| "kill_loop (Suc k) =
     bindK (getsK (\<lambda>s. cons_e s \<noteq> cons_w s \<and> cbuf s ! (unat (cons_e s - 1) mod INPUT_BUF_SIZE) \<noteq> 10)) (\<lambda>b.
     if b then thenK (modifyK (\<lambda>s. s\<lparr>cons_e := cons_e s - 1\<rparr>)) (thenK (consputc BACKSPACE) (kill_loop k))
     else returnK ())"

definition procdump :: "('z console_scheme, unit) K" where
  "procdump = modifyK (\<lambda>s. s\<lparr>proc_dumps := proc_dumps s + 1\<rparr>)"

definition cons_store :: "int \<Rightarrow> ('z console_scheme, unit) K" where
  "cons_store c =
     modifyK (\<lambda>s. s\<lparr>cbuf := (cbuf s)[unat (cons_e s) mod INPUT_BUF_SIZE := of_int c], cons_e := cons_e s + 1\<rparr>)"

definition consoleintr :: "int \<Rightarrow> ('z console_scheme, unit) K" where
  "consoleintr c =
     (if c = ctl 80 then procdump
      else if c = ctl 85 then bindK (getsK (\<lambda>s. unat (cons_e s - cons_w s))) kill_loop
      else if c = ctl 72 \<or> c = 0x7f then
        bindK (getsK (\<lambda>s. cons_e s \<noteq> cons_w s)) (\<lambda>b.
        whenK b (thenK (modifyK (\<lambda>s. s\<lparr>cons_e := cons_e s - 1\<rparr>)) (consputc BACKSPACE)))
      else
        bindK (getsK (\<lambda>s. cons_e s - cons_r s < 128)) (\<lambda>room.
        whenK (c \<noteq> 0 \<and> room)
          (let c = (if c = 13 then 10 else c) in
           thenK (consputc c)
           (thenK (cons_store c)
           (bindK (getsK (\<lambda>s. cons_e s - cons_r s = 128)) (\<lambda>full.
            whenK (c = 10 \<or> c = ctl 68 \<or> full)
              (thenK (modifyK (\<lambda>s. s\<lparr>cons_w := cons_e s\<rparr>)) (wakeup cons_chan)))))))) "

text \<open>\<^verbatim>\<open>uartintr\<close>: acknowledge, note an idle transmitter, then process all characters received.\<close>

primrec uartintr_rx :: "nat \<Rightarrow> ('z console_scheme, unit) K" where
  "uartintr_rx 0 = returnK ()"
| "uartintr_rx (Suc k) =
     bindK uartgetc (\<lambda>c. if c = -1 then returnK () else thenK (consoleintr c) (uartintr_rx k))"

definition uartintr :: "('z console_scheme, unit) K" where
  "uartintr =
     thenK
       (bindK (getsK uart_tx_idle) (\<lambda>idle.
        whenK idle (thenK (modifyK (\<lambda>s. s\<lparr>tx_busy := False\<rparr>)) (wakeup tx_chan))))
       (bindK (getsK (\<lambda>s. length (uart_rx s))) (\<lambda>k. uartintr_rx (Suc k)))"

definition consoleinit :: "('z console_scheme, unit) K" where
  "consoleinit = uartinit"

subsection \<open>The invariant of the input ring\<close>

text \<open>\<open>r \<le> w \<le> e\<close> in the order of the wrapping counters, and at most 128 characters are held.\<close>

definition pending :: "'z console_scheme \<Rightarrow> nat" where
  "pending s = unat (cons_w s - cons_r s)"

definition editing :: "'z console_scheme \<Rightarrow> nat" where
  "editing s = unat (cons_e s - cons_w s)"

definition cons_ok :: "'z console_scheme \<Rightarrow> bool" where
  "cons_ok s \<longleftrightarrow> length (cbuf s) = 128 \<and> pending s + editing s \<le> 128"

definition cons_at :: "'z console_scheme \<Rightarrow> nat \<Rightarrow> byte" where
  "cons_at s k = cbuf s ! ((unat (cons_r s) + k) mod 128)"

text \<open>The characters of complete lines, and the characters of the line being edited.\<close>

definition cons_lines :: "'z console_scheme \<Rightarrow> byte list" where
  "cons_lines s = map (cons_at s) [0..<pending s]"

definition cons_line :: "'z console_scheme \<Rightarrow> byte list" where
  "cons_line s = map (\<lambda>k. cons_at s (pending s + k)) [0..<editing s]"

text \<open>The fields of the ring; everything else is irrelevant to the view of the input.\<close>

definition ring :: "'z console_scheme \<Rightarrow> byte list \<times> u32 \<times> u32 \<times> u32" where
  "ring s = (cbuf s, cons_r s, cons_w s, cons_e s)"

lemma ring_cong:
  assumes "ring s' = ring s"
  shows "pending s' = pending s" "editing s' = editing s" "cons_ok s' = cons_ok s"
    "cons_lines s' = cons_lines s" "cons_line s' = cons_line s" "cons_at s' = cons_at s"
proof -
  have f: "cbuf s' = cbuf s" "cons_r s' = cons_r s" "cons_w s' = cons_w s" "cons_e s' = cons_e s"
    using assms by (simp_all add: ring_def)
  show p: "pending s' = pending s" "editing s' = editing s" by (simp_all add: pending_def editing_def f)
  show "cons_ok s' = cons_ok s" by (simp add: cons_ok_def p f)
  show a: "cons_at s' = cons_at s" by (simp add: cons_at_def f fun_eq_iff)
  show "cons_lines s' = cons_lines s" "cons_line s' = cons_line s"
    by (simp_all add: cons_lines_def cons_line_def a p)
qed

lemma length_cons_lines [simp]: "length (cons_lines s) = pending s" "length (cons_line s) = editing s"
  by (simp_all add: cons_lines_def cons_line_def)

lemma cons_indices:
  shows "cons_w s = cons_r s + of_nat (pending s)" "cons_e s = cons_w s + of_nat (editing s)"
    "cons_e s = cons_r s + of_nat (pending s + editing s)"
  by (simp_all add: pending_def editing_def)

lemma ring_mod: "unat (a + of_nat k :: u32) mod 128 = (unat a + k) mod 128"
  by (rule unat_add_mod) simp

lemma unat_held: "cons_ok s \<Longrightarrow> unat (cons_e s - cons_r s) = pending s + editing s"
proof -
  assume ok: "cons_ok s"
  have "cons_e s - cons_r s = of_nat (pending s + editing s)" by (subst cons_indices(3)) simp
  moreover have "unat (of_nat (pending s + editing s) :: u32) = pending s + editing s"
    using ok by (intro unat_of_nat_small) (simp add: cons_ok_def)
  ultimately show ?thesis by metis
qed

lemma cons_store_spec:
  assumes ok: "cons_ok s" and room: "pending s + editing s < 128"
  shows "\<exists>s'. cons_store c s = Inr ((), s') \<and> cons_ok s' \<and> cons_lines s' = cons_lines s \<and>
    cons_line s' = cons_line s @ [of_int c] \<and> panicked s' = panicked s \<and> cons_r s' = cons_r s"
proof -
  let ?s = "s\<lparr>cbuf := (cbuf s)[unat (cons_e s) mod 128 := of_int c], cons_e := cons_e s + 1\<rparr>"
  have len: "length (cbuf s) = 128" using ok by (simp add: cons_ok_def)
  have p: "pending ?s = pending s" by (simp add: pending_def)
  have "cons_e s + 1 - cons_w s = of_nat (Suc (editing s))" by (subst cons_indices(2)) simp
  moreover have "unat (of_nat (Suc (editing s)) :: u32) = Suc (editing s)"
    using room by (intro unat_of_nat_small) simp
  ultimately have e: "editing ?s = Suc (editing s)" by (simp add: editing_def del: of_nat_Suc)
  have idx: "unat (cons_e s) mod 128 = (unat (cons_r s) + (pending s + editing s)) mod 128"
    by (subst cons_indices(3)) (rule ring_mod)
  have at: "cons_at ?s k = (if k = pending s + editing s then of_int c else cons_at s k)"
    if "k \<le> pending s + editing s" for k
    using that room len ring_index_neq [of k "pending s + editing s" 128 "unat (cons_r s)"]
    by (auto simp: cons_at_def idx)
  have "cons_lines ?s = cons_lines s" by (simp add: cons_lines_def p at)
  moreover have "cons_line ?s = cons_line s @ [of_int c]" by (simp add: cons_line_def p e at)
  moreover have "cons_ok ?s" using room len p e by (simp add: cons_ok_def)
  ultimately show ?thesis by (simp add: cons_store_def run_simps)
qed

lemma line_commit_spec:
  fixes s :: "'z console_scheme"
  assumes ok: "cons_ok s"
  defines "s' \<equiv> s\<lparr>cons_w := cons_e s\<rparr>"
  shows "cons_ok s'" "cons_lines s' = cons_lines s @ cons_line s" "cons_line s' = []"
proof -
  have e: "editing s' = 0" by (simp add: editing_def s'_def)
  have p: "pending s' = pending s + editing s" using unat_held [OF ok] by (simp add: pending_def s'_def)
  have a: "cons_at s' = cons_at s" by (simp add: cons_at_def s'_def fun_eq_iff)
  show "cons_ok s'" using ok e p by (simp add: cons_ok_def s'_def)
  show "cons_line s' = []" by (simp add: cons_line_def e)
  show "cons_lines s' = cons_lines s @ cons_line s"
    unfolding cons_lines_def cons_line_def p a by (rule nth_equalityI) (auto simp: nth_append)
qed

lemma erase_spec:
  fixes s :: "'z console_scheme"
  assumes ok: "cons_ok s" and ne: "cons_e s \<noteq> cons_w s"
  defines "s' \<equiv> s\<lparr>cons_e := cons_e s - 1\<rparr>"
  shows "cons_ok s'" "cons_lines s' = cons_lines s" "cons_line s' = butlast (cons_line s)"
    "editing s = Suc (editing s')" "cbuf s ! (unat (cons_e s - 1) mod 128) = last (cons_line s)"
proof -
  have nz: "editing s \<noteq> 0" using ne by (simp add: editing_def unat_eq_0)
  have p: "pending s' = pending s" by (simp add: pending_def s'_def)
  have "cons_e s - 1 - cons_w s = of_nat (editing s - 1)"
    using nz by (subst cons_indices(2)) (simp add: of_nat_diff)
  then have "editing s' = unat (of_nat (editing s - 1) :: u32)" by (simp add: editing_def s'_def)
  also have "\<dots> = editing s - 1" using ok by (intro unat_of_nat_small) (auto simp: cons_ok_def)
  finally have e: "editing s' = editing s - 1" .
  then show es: "editing s = Suc (editing s')" using nz by simp
  have a: "cons_at s' = cons_at s" by (simp add: cons_at_def s'_def fun_eq_iff)
  show "cons_ok s'" using ok e p by (auto simp: cons_ok_def s'_def)
  show "cons_lines s' = cons_lines s" by (simp add: cons_lines_def p a)
  show "cons_line s' = butlast (cons_line s)" by (simp add: cons_line_def p a es)
  have eq: "cons_e s - 1 = cons_r s + of_nat (pending s + editing s')"
    using es by (subst cons_indices(3)) simp
  have "unat (cons_e s - 1) mod 128 = (unat (cons_r s) + (pending s + editing s')) mod 128"
    unfolding eq by (rule ring_mod)
  then show "cbuf s ! (unat (cons_e s - 1) mod 128) = last (cons_line s)"
    by (simp add: cons_line_def es cons_at_def)
qed

subsection \<open>The line discipline\<close>

text \<open>
  What the console promises for an input character: the state is the text of the lines that
  readers may take and the line being edited.
\<close>

definition cons_spec :: "int \<Rightarrow> byte list \<times> byte list \<Rightarrow> byte list \<times> byte list" where
  "cons_spec c = (\<lambda>(ls, l).
     if c = 16 then (ls, l)
     else if c = 21 then (ls, [])
     else if c = 8 \<or> c = 127 then (ls, butlast l)
     else if c \<noteq> 0 \<and> length ls + length l < 128 then
       (let ch = (if c = 13 then 10 else c) in
        if ch = 10 \<or> ch = 4 \<or> length ls + length l = 127 then (ls @ l @ [of_int ch], [])
        else (ls, l @ [of_int ch]))
     else (ls, l))"

definition cons_inv :: "'z console_scheme \<Rightarrow> bool" where
  "cons_inv s \<longleftrightarrow> cons_ok s \<and> 10 \<notin> set (cons_line s)"

lemma consputc_spec:
  assumes "\<not> panicked s"
  shows "\<exists>s'. consputc c s = Inr ((), s') \<and> ring s' = ring s \<and> \<not> panicked s'"
  using assms by (simp add: consputc_def uartputc_sync_def write_thr_def run_simps ring_def)

lemma kill_loop_spec:
  assumes "cons_inv s" "\<not> panicked s" "editing s = k"
  shows "\<exists>s'. kill_loop k s = Inr ((), s') \<and> cons_inv s' \<and> \<not> panicked s' \<and>
    cons_lines s' = cons_lines s \<and> cons_line s' = []"
  using assms
proof (induction k arbitrary: s)
  case 0
  then show ?case by (simp add: run_simps flip: length_0_conv)
next
  case (Suc k)
  then have ok: "cons_ok s" and ne: "cons_e s \<noteq> cons_w s" and nl: "10 \<notin> set (cons_line s)"
    by (auto simp: cons_inv_def editing_def)
  let ?s = "s\<lparr>cons_e := cons_e s - 1\<rparr>"
  note er = erase_spec [OF ok ne]
  have "cons_line s \<noteq> []" using Suc.prems(3) by (simp flip: length_0_conv)
  then have go: "cbuf s ! (unat (cons_e s - 1) mod 128) \<noteq> 10"
    unfolding er(5) using nl last_in_set by metis
  obtain s1 where s1: "consputc 256 ?s = Inr ((), s1)" "ring s1 = ring ?s" "\<not> panicked s1"
    using consputc_spec [of ?s 256] Suc.prems(2) by auto
  note rc = ring_cong [OF s1(2)]
  have "cons_inv s1" unfolding cons_inv_def rc using er(1,3) nl by (auto dest: in_set_butlastD)
  moreover have "editing s1 = k" unfolding rc using er(4) Suc.prems(3) by simp
  ultimately obtain s' where "kill_loop k s1 = Inr ((), s')" "cons_inv s'" "\<not> panicked s'"
      "cons_lines s' = cons_lines s1" "cons_line s' = []" using Suc.IH s1(3) by blast
  then show ?case using ne go s1(1) er(2) rc by (simp add: run_simps)
qed

lemma room_iff: "cons_ok s \<Longrightarrow> cons_e s - cons_r s < 128 \<longleftrightarrow> pending s + editing s < 128"
  using unat_held [of s] by (simp add: word_less_nat_alt)

lemma full_iff_held: "cons_ok s \<Longrightarrow> cons_e s - cons_r s = 128 \<longleftrightarrow> pending s + editing s = 128"
  using unat_held [of s] by (simp add: word_unat_eq_iff)

text \<open>The default case of the switch, for a character that is stored.\<close>

lemma cons_char_spec:
  assumes inv: "cons_inv s" "\<not> panicked s" and room: "pending s + editing s < 128" and c: "0 \<le> c" "c < 256"
  shows "\<exists>s'. thenK (consputc c) (thenK (cons_store c)
       (bindK (getsK (\<lambda>s. cons_e s - cons_r s = 128)) (\<lambda>full.
        whenK (c = 10 \<or> c = ctl 68 \<or> full)
          (thenK (modifyK (\<lambda>s. s\<lparr>cons_w := cons_e s\<rparr>)) (wakeup cons_chan))))) s = Inr ((), s') \<and>
    cons_inv s' \<and>
    (cons_lines s', cons_line s') = (if c = 10 \<or> c = 4 \<or> pending s + editing s = 127
       then (cons_lines s @ cons_line s @ [of_int c], []) else (cons_lines s, cons_line s @ [of_int c]))"
proof -
  obtain s1 where s1: "consputc c s = Inr ((), s1)" "ring s1 = ring s" "\<not> panicked s1"
    using consputc_spec inv(2) by blast
  note rc = ring_cong [OF s1(2)]
  obtain s2 where s2: "cons_store c s1 = Inr ((), s2)" "cons_ok s2" "cons_lines s2 = cons_lines s1"
      "cons_line s2 = cons_line s1 @ [of_int c]"
    using cons_store_spec [of s1 c] inv(1) room rc by (auto simp: cons_inv_def)
  have held: "pending s2 + editing s2 = pending s + editing s + 1"
    using arg_cong [OF s2(3), of length] arg_cong [OF s2(4), of length] rc by simp
  have full: "cons_e s2 - cons_r s2 = 128 \<longleftrightarrow> pending s + editing s = 127"
    using full_iff_held [OF s2(2)] held by simp
  have c4: "ctl 68 = 4" by (simp add: ctl_def)
  let ?com = "c = 10 \<or> c = 4 \<or> pending s + editing s = 127"
  let ?s3 = "s2\<lparr>cons_w := cons_e s2\<rparr>\<lparr>wakeups := wakeups s2 @ [cons_chan]\<rparr>"
  have run: "thenK (consputc c) (thenK (cons_store c)
       (bindK (getsK (\<lambda>s. cons_e s - cons_r s = 128)) (\<lambda>full.
        whenK (c = 10 \<or> c = ctl 68 \<or> full)
          (thenK (modifyK (\<lambda>s. s\<lparr>cons_w := cons_e s\<rparr>)) (wakeup cons_chan))))) s =
      Inr ((), if ?com then ?s3 else s2)"
    using s1(1) s2(1) full c4 by (simp add: run_simps wakeup_def)
  show ?thesis
  proof (cases ?com)
    case True
    have r3: "ring ?s3 = ring (s2\<lparr>cons_w := cons_e s2\<rparr>)" by (simp add: ring_def)
    note cm = line_commit_spec [OF s2(2)]
    have "cons_inv ?s3" unfolding cons_inv_def ring_cong [OF r3] using cm by simp
    then show ?thesis using run True cm ring_cong [OF r3] s2 rc by simp
  next
    case False
    have "of_int c \<noteq> (10 :: byte)"
    proof
      assume "of_int c = (10 :: byte)"
      then have "uint (of_int c :: byte) = 10" by simp
      then show False using c False by (simp add: uint_word_of_int)
    qed
    then have "cons_inv s2" using s2 rc inv by (simp add: cons_inv_def)
    then show ?thesis using run False s2 rc by simp
  qed
qed

subsection \<open>Properties\<close>

text \<open>
  C26: The console's input interrupt refines the line discipline: characters are appended to the
  line being edited, backspace removes the last one, kill-line all of it, newline, end-of-file
  and a full buffer hand the line over to the readers, and nothing already handed over changes.
  At most 128 characters are ever held, for all values of the wrapping indices.
\<close>

theorem consoleintr_refines:
  assumes inv: "cons_inv s" "\<not> panicked s" and c: "0 \<le> c" "c < 256"
  shows "\<exists>s'. consoleintr c s = Inr ((), s') \<and> cons_inv s' \<and>
    (cons_lines s', cons_line s') = cons_spec c (cons_lines s, cons_line s)"
proof -
  have ct: "ctl 80 = 16" "ctl 85 = 21" "ctl 72 = 8" by (simp_all add: ctl_def)
  have ok: "cons_ok s" using inv by (simp add: cons_inv_def)
  consider "c = 16" | "c = 21" | "c = 8 \<or> c = 127" | "c \<notin> {16, 21, 8, 127}" "c = 0 \<or> pending s + editing s \<ge> 128"
    | "c \<notin> {16, 21, 8, 127}" "c \<noteq> 0" "pending s + editing s < 128" by force
  then show ?thesis
  proof cases
    case 1
    have r: "ring (s\<lparr>proc_dumps := proc_dumps s + 1\<rparr>) = ring s" by (simp add: ring_def)
    then show ?thesis using 1 inv ring_cong [OF r]
      by (simp add: consoleintr_def ct procdump_def run_simps cons_spec_def cons_inv_def)
  next
    case 2
    then show ?thesis using kill_loop_spec [OF inv refl]
      by (simp add: consoleintr_def ct run_simps cons_spec_def editing_def) blast
  next
    case 3
    show ?thesis
    proof (cases "cons_e s = cons_w s")
      case True
      then have "cons_line s = []" by (simp add: cons_line_def editing_def)
      then show ?thesis using 3 True inv by (auto simp: consoleintr_def ct run_simps cons_spec_def)
    next
      case False
      note er = erase_spec [OF ok False]
      obtain s1 where s1: "consputc 256 (s\<lparr>cons_e := cons_e s - 1\<rparr>) = Inr ((), s1)"
          "ring s1 = ring (s\<lparr>cons_e := cons_e s - 1\<rparr>)"
        using consputc_spec [of "s\<lparr>cons_e := cons_e s - 1\<rparr>" 256] inv(2) by auto
      have "cons_inv s1" unfolding cons_inv_def ring_cong [OF s1(2)] using er inv
        by (auto simp: cons_inv_def dest: in_set_butlastD)
      then show ?thesis using 3 False s1 er ring_cong [OF s1(2)]
        by (auto simp: consoleintr_def ct run_simps cons_spec_def)
    qed
  next
    case 4
    then show ?thesis using inv room_iff [OF ok]
      by (auto simp: consoleintr_def ct run_simps cons_spec_def)
  next
    case 5
    let ?c = "if c = 13 then 10 else c"
    have "0 \<le> ?c" "?c < 256" using c by auto
    from cons_char_spec [OF inv 5(3) this] show ?thesis
      using 5 room_iff [OF ok] by (simp add: consoleintr_def ct run_simps cons_spec_def Let_def)
  qed
qed

definition quiet_console :: console where
  "quiet_console = pipes.extend one_pipe \<lparr>uart_regs = \<lambda>_. 0, uart_rx = [], uart_tx_idle = True, uart_out = [],
     tx_busy = False, panicking = False, panicked = False, cbuf = replicate 126 0 @ [104, 10],
     cons_r = 0xFFFFFFFE, cons_w = 0, cons_e = 0, proc_dumps = 0\<rparr>"

lemma quiet_console_inv: "cons_inv quiet_console" "\<not> panicked quiet_console"
  "cons_lines quiet_console = [104, 10]"
proof -
  have p: "pending quiet_console = 2" "editing quiet_console = 0"
    by (simp_all add: pending_def editing_def quiet_console_def pipes.defs)
  then show "cons_inv quiet_console"
    by (simp add: cons_inv_def cons_ok_def cons_line_def) (simp add: quiet_console_def pipes.defs)
  show "\<not> panicked quiet_console" by (simp add: quiet_console_def pipes.defs)
  have "cbuf quiet_console = replicate 126 0 @ [104, 10]" "cons_r quiet_console = 0xFFFFFFFE"
    by (simp_all add: quiet_console_def pipes.defs)
  then show "cons_lines quiet_console = [104, 10]"
    by (simp add: cons_lines_def p cons_at_def upt_rec nth_append)
qed

theorem consoleintr_refines_witness:
  "\<exists>s'. consoleintr 97 quiet_console = Inr ((), s') \<and> cons_inv s' \<and>
    (cons_lines s', cons_line s') = cons_spec 97 (cons_lines quiet_console, cons_line quiet_console)"
  using consoleintr_refines [OF quiet_console_inv(1,2), of 97] by simp

lemma read_one:
  fixes s :: "'z console_scheme"
  assumes ok: "cons_ok s" and ls: "cons_lines s = c # ls"
  defines "s' \<equiv> s\<lparr>cons_r := cons_r s + 1\<rparr>"
  shows "cons_ok s'" "cons_lines s' = ls" "cons_line s' = cons_line s" "cons_r s \<noteq> cons_w s"
    "cbuf s ! (unat (cons_r s) mod 128) = c"
proof -
  have p: "pending s = Suc (length ls)" using arg_cong [OF ls, of length] by simp
  then show "cons_r s \<noteq> cons_w s" by (auto simp: pending_def)
  have "cons_w s - (cons_r s + 1) = of_nat (length ls)"
    using p by (subst cons_indices(1)) simp
  moreover have "unat (of_nat (length ls) :: u32) = length ls"
    using ok p by (intro unat_of_nat_small) (simp add: cons_ok_def)
  ultimately have p': "pending s' = length ls" by (simp add: pending_def s'_def)
  have e': "editing s' = editing s" by (simp add: editing_def s'_def)
  have at: "cons_at s' k = cons_at s (Suc k)" for k
  proof -
    have "(unat (cons_r s + 1) + k) mod 128 = (unat (cons_r s + 1) mod 128 + k) mod 128"
      by (simp add: mod_add_left_eq)
    also have "unat (cons_r s + 1) mod 128 = (unat (cons_r s) + 1) mod 128"
      using ring_mod [of "cons_r s" 1] by simp
    finally show ?thesis by (simp add: cons_at_def s'_def mod_add_left_eq)
  qed
  show "cons_ok s'" using ok p p' e' by (simp add: cons_ok_def s'_def)
  have nth: "cons_at s k = (c # ls) ! k" if "k \<le> length ls" for k
    using arg_cong [OF ls, of "\<lambda>xs. xs ! k"] that p by (simp add: cons_lines_def del: upt_Suc)
  then show "cons_lines s' = ls" by (auto simp: cons_lines_def p' at intro: nth_equalityI)
  show "cons_line s' = cons_line s" by (simp add: cons_line_def p' e' at p)
  show "cbuf s ! (unat (cons_r s) mod 128) = c" using nth [of 0] by (simp add: cons_at_def)
qed

lemma unread_one:
  fixes s :: "'z console_scheme"
  shows "s\<lparr>cons_r := cons_r s + 1, cons_r := cons_r (s\<lparr>cons_r := cons_r s + 1\<rparr>) - 1\<rparr> = s"
  by simp

lemma consoleread_from_line:
  assumes "cons_ok s" "cons_lines s = xs @ c # rest" "10 \<notin> set xs" "4 \<notin> set xs"
    "length xs < n" "n \<le> target" "c = 10 \<or> c = 4"
  shows "\<exists>s'. consoleread_from False dst kbuf n target s =
      Inr ((Done (int (target - n + length xs + (if c = 10 then 1 else 0))),
        kbuf @ xs @ (if c = 10 then [10] else [])), s') \<and> cons_ok s' \<and> cons_line s' = cons_line s \<and>
      cons_lines s' = (if c = 4 \<and> (xs \<noteq> [] \<or> n < target) then 4 # rest else rest)"
  using assms
proof (induction xs arbitrary: s n dst kbuf)
  case Nil
  then have ls: "cons_lines s = c # rest" by simp
  note ro = read_one [OF Nil(1) ls]
  have n: "0 < n" using Nil by simp
  have "uint (10 :: byte) = 10" "uint (4 :: byte) = 4" by simp_all
  then show ?case
    using n ro Nil(1,6,7) ls
    by (subst consoleread_from.simps) (auto simp: run_simps ctl_def either_copyout_def unread_one)
next
  case (Cons x xs)
  then have ls: "cons_lines s = x # (xs @ c # rest)" by simp
  note ro = read_one [OF Cons.prems(1) ls]
  have n: "0 < n" "length xs < n - 1" "n - 1 \<le> target" "n - 1 < target" using Cons.prems by auto
  have x: "x \<noteq> 10" "uint x \<noteq> 4" using Cons.prems(3,4) by (auto simp: word_uint_eq_iff)
  let ?s = "s\<lparr>cons_r := cons_r s + 1\<rparr>"
  have run: "consoleread_from False dst kbuf n target s = consoleread_from False (dst + 1) (kbuf @ [x]) (n - 1) target ?s"
    using n ro x by (subst consoleread_from.simps) (simp add: run_simps ctl_def either_copyout_def)
  have k: "int (target - (n - 1) + length xs + b) = int (target - n + length (x # xs) + b)" for b
    using Cons.prems(6) n by simp
  show ?case unfolding run
    using Cons.IH [OF ro(1,2) _ _ n(2,3) Cons.prems(7), of "dst + 1" "kbuf @ [x]"] Cons.prems(3,4) n(4) ro(3)
    unfolding k by auto
qed

text \<open>
  A read with room for it returns exactly one line: the text up to and including the newline,
  or up to an end-of-file character, which is consumed when nothing precedes it and kept for the
  next read otherwise, so that that read returns 0.
\<close>

lemma consoleread_one_line:
  assumes "cons_ok s" "cons_lines s = xs @ c # rest" "10 \<notin> set xs" "4 \<notin> set xs"
    "int (length xs) < n" "c = 10 \<or> c = 4"
  shows "\<exists>s'. consoleread False dst n s =
      Inr ((Done (int (length xs) + (if c = 10 then 1 else 0)), xs @ (if c = 10 then [10] else [])), s') \<and>
      cons_ok s' \<and> cons_line s' = cons_line s \<and>
      cons_lines s' = (if c = 4 \<and> xs \<noteq> [] then 4 # rest else rest)"
  using consoleread_from_line [OF assms(1-4) _ order_refl assms(6), of "nat n" dst "[]"] assms(5)
  by (auto simp: consoleread_def)

end
