(* ===== verification/Bio.thy ===== *)
theory Bio
  imports Console
begin

section \<open>Sleep locks and the buffer cache (kernel/sleeplock.c, kernel/bio.c)\<close>

text \<open>
  The buffer cache is the array \<^verbatim>\<open>bcache.buf\<close>, a list of \<^verbatim>\<open>NBUF\<close> records, and the doubly linked list
  through it, the list of array indices from \<^verbatim>\<open>head.next\<close> (most recently used) to \<^verbatim>\<open>head.prev\<close>.  A
  buffer pointer is an index.  The disk behind \<^verbatim>\<open>virtio_disk_rw\<close> maps block numbers to blocks
  (the driver itself is modelled in \<open>Virtio\<close>); \<open>dwrites\<close> is the history of the blocks written, in
  order.  Waiting for a sleep lock that is held ends an uninterrupted run with the fault
  \<open>Sleep\<close>.
\<close>

abbreviation (input) BSIZE :: nat where "BSIZE \<equiv> 1024"

record sleeplock =
  sl_locked :: bool
  sl_name :: string
  sl_pid :: int

record buf =
  valid :: bool
  dev :: nat
  blockno :: nat
  block :: sleeplock   \<comment> \<open>\<^verbatim>\<open>lock\<close>\<close>
  refcnt :: int        \<comment> \<open>\<^verbatim>\<open>uint\<close>; only compared with 0\<close>
  data :: "byte list"

record bio = console +
  bufs :: "buf list"
  lru :: "nat list"
  disk :: "nat \<Rightarrow> byte list"
  dwrites :: "(nat \<times> byte list) list"

subsection \<open>Sleep locks\<close>

definition initsleeplock :: "string \<Rightarrow> sleeplock" where
  "initsleeplock nm = \<lparr>sl_locked = False, sl_name = nm, sl_pid = 0\<rparr>"

text \<open>Acquiring is possible when the lock is free; None means that the caller sleeps.\<close>

definition acquiresleep :: "int \<Rightarrow> sleeplock \<Rightarrow> sleeplock option" where
  "acquiresleep pid lk = (if sl_locked lk then None else Some (lk\<lparr>sl_locked := True, sl_pid := pid\<rparr>))"

definition releasesleep :: "sleeplock \<Rightarrow> sleeplock" where
  "releasesleep lk = lk\<lparr>sl_locked := False, sl_pid := 0\<rparr>"

definition holdingsleep :: "int \<Rightarrow> sleeplock \<Rightarrow> bool" where
  "holdingsleep pid lk \<longleftrightarrow> sl_locked lk \<and> sl_pid lk = pid"

subsection \<open>The cache\<close>

definition set_buf :: "nat \<Rightarrow> (buf \<Rightarrow> buf) \<Rightarrow> ('z bio_scheme, unit) K" where
  "set_buf b f = modifyK (\<lambda>s. s\<lparr>bufs := (bufs s)[b := f (bufs s ! b)]\<rparr>)"

definition get_buf :: "nat \<Rightarrow> ('z bio_scheme, buf) K" where
  "get_buf b = getsK (\<lambda>s. bufs s ! b)"

text \<open>\<^verbatim>\<open>binit\<close> pushes the buffers one by one to the front of the list.\<close>

definition binit :: "('z bio_scheme, unit) K" where
  "binit =
     thenK (modifyK (\<lambda>s. s\<lparr>lru := []\<rparr>))
       (forK [0..<NBUF] (\<lambda>b.
          thenK (set_buf b (\<lambda>k. k\<lparr>block := initsleeplock ''buffer''\<rparr>))
            (modifyK (\<lambda>s. s\<lparr>lru := b # lru s\<rparr>))))"

definition virtio_disk_rw :: "nat \<Rightarrow> bool \<Rightarrow> ('z bio_scheme, unit) K" where
  "virtio_disk_rw b write =
     bindK (get_buf b) (\<lambda>k.
     if write then modifyK (\<lambda>s. s\<lparr>disk := (disk s)(blockno k := data k),
       dwrites := dwrites s @ [(blockno k, data k)]\<rparr>)
     else bindK (getsK (\<lambda>s. disk s (blockno k))) (\<lambda>bs. set_buf b (\<lambda>k. k\<lparr>data := bs\<rparr>)))"

text \<open>Taking the sleep lock of a buffer.\<close>

definition lock_buf :: "nat \<Rightarrow> ('z bio_scheme, unit) K" where
  "lock_buf b =
     bindK (get_buf b) (\<lambda>k.
     bindK (getsK p_pid) (\<lambda>pid.
     case acquiresleep pid (block k) of
       None \<Rightarrow> sleepK ''buffer''
     | Some lk \<Rightarrow> set_buf b (\<lambda>k. k\<lparr>block := lk\<rparr>)))"

definition bget :: "nat \<Rightarrow> nat \<Rightarrow> ('z bio_scheme, nat) K" where
  "bget d bn =
     bindK (getsK (\<lambda>s. find (\<lambda>b. dev (bufs s ! b) = d \<and> blockno (bufs s ! b) = bn) (lru s))) (\<lambda>hit.
     case hit of
       Some b \<Rightarrow>
         thenK (set_buf b (\<lambda>k. k\<lparr>refcnt := refcnt k + 1\<rparr>)) (thenK (lock_buf b) (returnK b))
     | None \<Rightarrow>
         bindK (getsK (\<lambda>s. find (\<lambda>b. refcnt (bufs s ! b) = 0) (rev (lru s)))) (\<lambda>free.
         case free of
           None \<Rightarrow> panic ''bget: no buffers''
         | Some b \<Rightarrow>
             thenK (set_buf b (\<lambda>k. k\<lparr>dev := d, blockno := bn, valid := False, refcnt := 1\<rparr>))
               (thenK (lock_buf b) (returnK b))))"

definition bread :: "nat \<Rightarrow> nat \<Rightarrow> ('z bio_scheme, nat) K" where
  "bread d bn =
     bindK (bget d bn) (\<lambda>b.
     bindK (get_buf b) (\<lambda>k.
     thenK (whenK (\<not> valid k)
       (thenK (virtio_disk_rw b False) (set_buf b (\<lambda>k. k\<lparr>valid := True\<rparr>))))
     (returnK b)))"

definition bwrite :: "nat \<Rightarrow> ('z bio_scheme, unit) K" where
  "bwrite b =
     bindK (get_buf b) (\<lambda>k.
     bindK (getsK p_pid) (\<lambda>pid.
     if \<not> holdingsleep pid (block k) then panic ''bwrite'' else virtio_disk_rw b True))"

definition brelse :: "nat \<Rightarrow> ('z bio_scheme, unit) K" where
  "brelse b =
     bindK (get_buf b) (\<lambda>k.
     bindK (getsK p_pid) (\<lambda>pid.
     if \<not> holdingsleep pid (block k) then panic ''brelse''
     else
       thenK (set_buf b (\<lambda>k. k\<lparr>block := releasesleep (block k)\<rparr>))
       (thenK (wakeup (''sleeplock'', b))
       (thenK (set_buf b (\<lambda>k. k\<lparr>refcnt := refcnt k - 1\<rparr>))
       (bindK (getsK (\<lambda>s. refcnt (bufs s ! b) = 0)) (\<lambda>free.
        whenK free (modifyK (\<lambda>s. s\<lparr>lru := b # filter (\<lambda>x. x \<noteq> b) (lru s)\<rparr>))))))))"

definition bpin :: "nat \<Rightarrow> ('z bio_scheme, unit) K" where
  "bpin b = set_buf b (\<lambda>k. k\<lparr>refcnt := refcnt k + 1\<rparr>)"

definition bunpin :: "nat \<Rightarrow> ('z bio_scheme, unit) K" where
  "bunpin b = set_buf b (\<lambda>k. k\<lparr>refcnt := refcnt k - 1\<rparr>)"

text \<open>Code that holds a buffer changes its bytes in place.\<close>

definition put_data :: "nat \<Rightarrow> byte list \<Rightarrow> ('z bio_scheme, unit) K" where
  "put_data b bs = set_buf b (\<lambda>k. k\<lparr>data := bs\<rparr>)"

definition get_data :: "nat \<Rightarrow> ('z bio_scheme, byte list) K" where
  "get_data b = getsK (\<lambda>s. data (bufs s ! b))"

subsection \<open>The cache as seen by its clients\<close>

text \<open>
  Clients see, for each block number of the root device: the slot that caches it, the contents
  they read (\<open>bview\<close>), how many references there are to it and whether it is locked.
\<close>

definition caches :: "'z bio_scheme \<Rightarrow> nat \<Rightarrow> nat \<Rightarrow> bool" where
  "caches s bn i \<longleftrightarrow> dev (bufs s ! i) = ROOTDEV \<and> blockno (bufs s ! i) = bn"

definition slot :: "'z bio_scheme \<Rightarrow> nat \<Rightarrow> nat option" where
  "slot s bn = find (caches s bn) [0..<NBUF]"

definition bview :: "'z bio_scheme \<Rightarrow> nat \<Rightarrow> byte list" where
  "bview s bn = (case slot s bn of None \<Rightarrow> disk s bn
     | Some i \<Rightarrow> if valid (bufs s ! i) then data (bufs s ! i) else disk s bn)"

definition refs :: "'z bio_scheme \<Rightarrow> nat \<Rightarrow> int" where
  "refs s bn = (case slot s bn of None \<Rightarrow> 0 | Some i \<Rightarrow> refcnt (bufs s ! i))"

definition blocked :: "'z bio_scheme \<Rightarrow> nat \<Rightarrow> bool" where
  "blocked s bn = (case slot s bn of None \<Rightarrow> False | Some i \<Rightarrow> sl_locked (block (bufs s ! i)))"

text \<open>Buffer \<open>b\<close> is held by the running process and contains block \<open>bn\<close>.\<close>

definition held :: "'z bio_scheme \<Rightarrow> nat \<Rightarrow> nat \<Rightarrow> bool" where
  "held s b bn \<longleftrightarrow> slot s bn = Some b \<and> valid (bufs s ! b) \<and> holdingsleep (p_pid s) (block (bufs s ! b))"

definition buf_ok :: "'z bio_scheme \<Rightarrow> buf \<Rightarrow> bool" where
  "buf_ok s k \<longleftrightarrow> (dev k = 0 \<or> dev k = ROOTDEV) \<and> 0 \<le> refcnt k \<and>
     (sl_locked (block k) \<longrightarrow> 0 < refcnt k \<and> dev k = ROOTDEV) \<and> (0 < refcnt k \<longrightarrow> dev k = ROOTDEV) \<and>
     (valid k \<longrightarrow> dev k = ROOTDEV \<and> length (data k) = BSIZE \<and> (refcnt k = 0 \<longrightarrow> data k = disk s (blockno k)))"

definition bio_ok :: "'z bio_scheme \<Rightarrow> bool" where
  "bio_ok s \<longleftrightarrow> length (bufs s) = NBUF \<and> distinct (lru s) \<and> set (lru s) = {..<NBUF} \<and>
     (\<forall>i < NBUF. buf_ok s (bufs s ! i)) \<and>
     (\<forall>i < NBUF. \<forall>j < NBUF. dev (bufs s ! i) = ROOTDEV \<longrightarrow> dev (bufs s ! j) = ROOTDEV \<longrightarrow>
        blockno (bufs s ! i) = blockno (bufs s ! j) \<longrightarrow> i = j) \<and>
     (\<forall>bn. length (disk s bn) = BSIZE)"

lemma slot_Some: "slot s bn = Some i \<Longrightarrow> i < 30 \<and> caches s bn i"
  by (auto simp: slot_def find_Some_iff)

lemma slot_None: "slot s bn = None \<Longrightarrow> i < 30 \<Longrightarrow> \<not> caches s bn i"
  by (auto simp: slot_def find_None_iff)

lemma slot_eq:
  assumes "bio_ok s" "i < 30" "caches s bn i"
  shows "slot s bn = Some i"
proof -
  have "slot s bn \<noteq> None" using slot_None assms(2,3) by blast
  then obtain j where j: "slot s bn = Some j" by auto
  then have "j < 30" "caches s bn j" using slot_Some by blast+
  then have "j = i" using assms by (simp add: bio_ok_def caches_def)
  then show ?thesis using j by simp
qed

lemma bio_okD:
  assumes "bio_ok s"
  shows "length (bufs s) = 30" "distinct (lru s)" "set (lru s) = {..<30}"
    "i < 30 \<Longrightarrow> buf_ok s (bufs s ! i)" "length (disk s bn) = 1024"
  using assms by (auto simp: bio_ok_def)

lemma slot_buf:
  assumes "bio_ok s" "slot s bn = Some i"
  shows "i < 30" "dev (bufs s ! i) = ROOTDEV" "blockno (bufs s ! i) = bn" "buf_ok s (bufs s ! i)"
  using slot_Some [OF assms(2)] bio_okD(4) [OF assms(1)] by (simp_all add: caches_def)

lemma length_bview: "bio_ok s \<Longrightarrow> length (bview s bn) = 1024"
  using slot_buf(4) [of s bn] bio_okD(5) [of s bn] by (simp add: bview_def buf_ok_def split: option.split)

lemma refs_nonneg: "bio_ok s \<Longrightarrow> 0 \<le> refs s bn"
  using slot_buf(4) [of s bn] by (simp add: refs_def buf_ok_def split: option.split)

lemma free_bview: "bio_ok s \<Longrightarrow> refs s bn = 0 \<Longrightarrow> bview s bn = disk s bn"
  using slot_buf(3,4) [of s bn] by (auto simp: refs_def bview_def buf_ok_def split: option.split)

lemma cache_fields_cong:
  fixes s s' :: "'z bio_scheme"
  assumes "bufs s' = bufs s" "disk s' = disk s"
  shows "slot s' = slot s" "bview s' = bview s" "refs s' = refs s" "blocked s' = blocked s"
    "lru s' = lru s \<Longrightarrow> bio_ok s' = bio_ok s"
proof -
  have "caches s' = caches s" by (simp add: fun_eq_iff caches_def assms)
  then show sl: "slot s' = slot s" by (intro ext) (simp add: slot_def)
  show "bview s' = bview s" "refs s' = refs s" "blocked s' = blocked s"
    by (simp_all add: fun_eq_iff bview_def refs_def blocked_def sl assms split: option.split)
  show "lru s' = lru s \<Longrightarrow> bio_ok s' = bio_ok s" by (simp add: bio_ok_def buf_ok_def assms)
qed

text \<open>
  The general step: one buffer is replaced by another that satisfies the invariant, and the disk
  changes at most at that buffer's block.
\<close>

lemma bio_ok_upd:
  assumes ok: "bio_ok s" and b: "b < 30" and k: "buf_ok s' k"
    and s': "bufs s' = (bufs s)[b := k]" "set (lru s') = set (lru s)" "distinct (lru s')"
    and id: "dev k = ROOTDEV \<Longrightarrow> slot s (blockno k) = None \<or> slot s (blockno k) = Some b"
    and dk: "\<And>bn. length (disk s' bn) = BSIZE"
      "\<And>i. i < 30 \<Longrightarrow> i \<noteq> b \<Longrightarrow> dev (bufs s ! i) = ROOTDEV \<Longrightarrow> disk s' (blockno (bufs s ! i)) = disk s (blockno (bufs s ! i))"
  shows "bio_ok s'"
proof -
  have nth: "bufs s' ! i = (if i = b then k else bufs s ! i)" for i
    using bio_okD(1) [OF ok] b by (simp add: s'(1) nth_list_update)
  have bk: "buf_ok s' (bufs s' ! i)" if "i < 30" for i
    using that k bio_okD(4) [OF ok that] dk(2) [OF that] by (auto simp: nth buf_ok_def)
  have "i = j" if "i < 30" "j < 30" "dev (bufs s' ! i) = ROOTDEV" "dev (bufs s' ! j) = ROOTDEV"
    "blockno (bufs s' ! i) = blockno (bufs s' ! j)" for i j
  proof -
    have other: False if "j < 30" "j \<noteq> b" "dev k = ROOTDEV" "dev (bufs s ! j) = ROOTDEV" "blockno k = blockno (bufs s ! j)" for j
      using slot_eq [OF ok that(1), of "blockno k"] id that by (simp add: caches_def)
    show ?thesis
    proof (cases "i = b"; cases "j = b")
      assume "i \<noteq> b" "j \<noteq> b"
      then show ?thesis using that ok unfolding bio_ok_def by (simp add: nth)
    qed (use that other [of i] other [of j] in \<open>auto simp: nth\<close>)
  qed
  then show ?thesis using bk s' bio_okD [OF ok] dk(1) unfolding bio_ok_def by simp
qed

lemma slot_upd:
  assumes ok: "bio_ok s" and ok': "bio_ok s'" and b: "b < 30" and s': "bufs s' = (bufs s)[b := k]"
  shows "slot s' bn = (if dev k = ROOTDEV \<and> blockno k = bn then Some b
    else if slot s bn = Some b then None else slot s bn)"
proof -
  have nth: "bufs s' ! i = (if i = b then k else bufs s ! i)" for i
    using bio_okD(1) [OF ok] b by (simp add: s' nth_list_update)
  show ?thesis
  proof (cases "dev k = ROOTDEV \<and> blockno k = bn")
    case True
    then show ?thesis using slot_eq [OF ok' b, of bn] by (simp add: caches_def nth)
  next
    case no: False
    show ?thesis
    proof (cases "slot s' bn")
      case None
      have "slot s bn = Some i \<Longrightarrow> i = b" for i
        using slot_None [OF None, of i] slot_Some [of s bn i] by (auto simp: caches_def nth split: if_splits)
      then show ?thesis using None no by (cases "slot s bn") auto
    next
      case (Some i)
      then have i: "i < 30" "caches s' bn i" using slot_Some by blast+
      then have "i \<noteq> b" using no by (auto simp: caches_def nth)
      then have "slot s bn = Some i" using slot_eq [OF ok i(1)] i(2) by (simp add: caches_def nth)
      then show ?thesis using Some no \<open>i \<noteq> b\<close> by simp
    qed
  qed
qed

subsection \<open>What the operations do\<close>

lemma find_SomeD: "find P xs = Some x \<Longrightarrow> x \<in> set xs \<and> P x"
  by (induction xs) (auto split: if_splits)

lemma find_unique:
  assumes "x \<in> set xs" "P x" "\<And>y. y \<in> set xs \<Longrightarrow> P y \<Longrightarrow> y = x"
  shows "find P xs = Some x"
proof (cases "find P xs")
  case None
  then show ?thesis using assms(1,2) by (auto simp: find_None_iff)
next
  case (Some y)
  then show ?thesis using assms(3) find_SomeD by metis
qed

lemma lru_hit:
  assumes "bio_ok s"
  shows "find (caches s bn) (lru s) = slot s bn"
proof (cases "slot s bn")
  case None
  then show ?thesis using slot_None [OF None] bio_okD(3) [OF assms] by (auto simp: find_None_iff)
next
  case (Some i)
  have "i \<in> set (lru s)" "caches s bn i" using slot_Some [OF Some] bio_okD(3) [OF assms] by auto
  moreover have "y = i" if "y \<in> set (lru s)" "caches s bn y" for y
    using slot_eq [OF assms _ that(2)] that(1) bio_okD(3) [OF assms] Some by auto
  ultimately show ?thesis using Some find_unique by metis
qed

text \<open>The net effect of \<^verbatim>\<open>bread\<close> on the buffer it returns, and on no other.\<close>

definition bread_buf :: "'z bio_scheme \<Rightarrow> nat \<Rightarrow> nat \<Rightarrow> buf" where
  "bread_buf s b bn = (bufs s ! b)\<lparr>dev := ROOTDEV, blockno := bn, refcnt := refcnt (bufs s ! b) + 1,
     valid := True, block := (block (bufs s ! b))\<lparr>sl_locked := True, sl_pid := p_pid s\<rparr>,
     data := (if caches s bn b \<and> valid (bufs s ! b) then data (bufs s ! b) else disk s bn)\<rparr>"

lemma bread_hit:
  assumes ok: "bio_ok s" and b: "slot s bn = Some b" and nl: "\<not> blocked s bn"
  shows "bread ROOTDEV bn s = Inr (b, s\<lparr>bufs := (bufs s)[b := bread_buf s b bn]\<rparr>)"
proof -
  note sb = slot_buf [OF ok b]
  have len: "b < length (bufs s)" using sb bio_okD(1) [OF ok] by simp
  have find: "find (\<lambda>b. dev (bufs s ! b) = 1 \<and> blockno (bufs s ! b) = bn) (lru s) = Some b"
    using lru_hit [OF ok, of bn] b by (simp add: caches_def [abs_def])
  have unl: "\<not> sl_locked (block (bufs s ! b))" using nl b by (simp add: blocked_def)
  show ?thesis
    using find len unl sb
    by (cases "bufs s ! b")
       (auto simp: bread_def bget_def lock_buf_def set_buf_def get_buf_def run_simps acquiresleep_def
         virtio_disk_rw_def bread_buf_def caches_def)
qed

lemma bread_miss:
  assumes ok: "bio_ok s" and none: "slot s bn = None" and free: "i < 30" "refcnt (bufs s ! i) = 0"
  shows "\<exists>b < 30. refcnt (bufs s ! b) = 0 \<and>
    bread ROOTDEV bn s = Inr (b, s\<lparr>bufs := (bufs s)[b := bread_buf s b bn]\<rparr>)"
proof -
  have find: "find (\<lambda>b. dev (bufs s ! b) = 1 \<and> blockno (bufs s ! b) = bn) (lru s) = None"
    using lru_hit [OF ok, of bn] none by (simp add: caches_def [abs_def])
  have "find (\<lambda>b. refcnt (bufs s ! b) = 0) (rev (lru s)) \<noteq> None"
    using free bio_okD(3) [OF ok] by (auto simp: find_None_iff)
  then obtain b where b: "find (\<lambda>b. refcnt (bufs s ! b) = 0) (rev (lru s)) = Some b" by auto
  then have bp: "b \<in> set (rev (lru s))" "refcnt (bufs s ! b) = 0"
    using find_SomeD [OF b] by simp_all
  then have b30: "b < 30" using bio_okD(3) [OF ok] by auto
  have len: "b < length (bufs s)" using b30 bio_okD(1) [OF ok] by simp
  have unl: "\<not> sl_locked (block (bufs s ! b))" using bio_okD(4) [OF ok b30] bp(2) by (auto simp: buf_ok_def)
  have nc: "\<not> (dev (bufs s ! b) = 1 \<and> blockno (bufs s ! b) = bn)" using slot_None [OF none b30] by (simp add: caches_def)
  have bb: "bread_buf s b bn = (bufs s ! b)\<lparr>dev := ROOTDEV, blockno := bn, refcnt := refcnt (bufs s ! b) + 1,
     valid := True, block := (block (bufs s ! b))\<lparr>sl_locked := True, sl_pid := p_pid s\<rparr>, data := disk s bn\<rparr>"
    using nc by (auto simp: bread_buf_def caches_def)
  have "bread ROOTDEV bn s = Inr (b, s\<lparr>bufs := (bufs s)[b := bread_buf s b bn]\<rparr>)"
    using find b len unl bb bp(2)
    by (cases "bufs s ! b")
       (simp add: bread_def bget_def lock_buf_def set_buf_def get_buf_def run_simps acquiresleep_def
         virtio_disk_rw_def)
  then show ?thesis using b30 bp(2) by blast
qed

text \<open>
  How the clients' view changes when a buffer is replaced by one for a block of the root device:
  only at that block, provided that the buffer was free or already had that block.
\<close>

lemma upd_view:
  assumes ok: "bio_ok s" and ok': "bio_ok s'" and b: "b < 30" and s': "bufs s' = (bufs s)[b := k]"
    and k: "dev k = ROOTDEV" "blockno k = bn" "refcnt (bufs s ! b) = 0 \<or> slot s bn = Some b"
    and dk: "\<And>x. x \<noteq> bn \<Longrightarrow> disk s' x = disk s x"
  shows "slot s' bn = Some b"
    and "bview s' = (bview s)(bn := if valid k then data k else disk s' bn)"
    and "refs s' = (refs s)(bn := refcnt k)"
    and "blocked s' = (blocked s)(bn := sl_locked (block k))"
    and "p_pid s' = p_pid s \<Longrightarrow> x \<noteq> bn \<Longrightarrow> held s c x \<Longrightarrow> held s' c x"
proof -
  note sl = slot_upd [OF ok ok' b s']
  have nth: "bufs s' ! i = (if i = b then k else bufs s ! i)" for i
    using bio_okD(1) [OF ok] b by (simp add: s' nth_list_update)
  have bn: "slot s' bn = Some b" using sl k by simp
  have gone: "refcnt (bufs s ! b) = 0" "slot s' x = None" if "x \<noteq> bn" "slot s x = Some b" for x
    using sl [of x] that k slot_buf(3) [OF ok that(2)] slot_buf(3) [OF ok, of bn b] by auto
  have stay: "slot s' x = slot s x" "slot s x = Some i \<Longrightarrow> bufs s' ! i = bufs s ! i"
    if "x \<noteq> bn" "slot s x \<noteq> Some b" for x i
    using sl [of x] that k nth by auto
  have free: "bview s x = disk s x" "refs s x = 0" "\<not> blocked s x" if "x \<noteq> bn" "slot s x = Some b" for x
    using gone(1) [OF that] slot_buf(3,4) [OF ok that(2)] that(2)
    by (auto simp: bview_def refs_def blocked_def buf_ok_def)
  have other: "bview s' x = bview s x \<and> refs s' x = refs s x \<and> blocked s' x = blocked s x" if "x \<noteq> bn" for x
  proof (cases "slot s x = Some b")
    case True
    then show ?thesis using gone(2) free that dk [OF that] by (simp add: bview_def refs_def blocked_def)
  next
    case False
    then show ?thesis using stay [OF that False] dk [OF that]
      by (auto simp: bview_def refs_def blocked_def split: option.split)
  qed
  show "slot s' bn = Some b" by (rule bn)
  show "bview s' = (bview s)(bn := if valid k then data k else disk s' bn)"
    using other bn nth by (auto simp: fun_eq_iff bview_def)
  show "refs s' = (refs s)(bn := refcnt k)" using other bn nth by (auto simp: fun_eq_iff refs_def)
  show "blocked s' = (blocked s)(bn := sl_locked (block k))"
    using other bn nth by (auto simp: fun_eq_iff blocked_def)
  show "held s' c x" if "p_pid s' = p_pid s" "x \<noteq> bn" "held s c x"
  proof -
    have c: "slot s x = Some c" "sl_locked (block (bufs s ! c))"
      using that(3) by (auto simp: held_def holdingsleep_def)
    have "c \<noteq> b" using gone(1) [OF that(2)] c slot_buf(4) [OF ok c(1)] by (auto simp: buf_ok_def)
    then show ?thesis using that stay [OF that(2)] c by (auto simp: held_def)
  qed
qed

text \<open>A buffer is free as long as fewer than \<^verbatim>\<open>NBUF\<close> blocks are in use.\<close>

definition in_use :: "'z bio_scheme \<Rightarrow> nat set" where
  "in_use s = {bn. 0 < refs s bn}"

lemma in_use_sub: "in_use s \<subseteq> (\<lambda>i. blockno (bufs s ! i)) ` {i. i < 30 \<and> 0 < refcnt (bufs s ! i)}"
proof
  fix x assume "x \<in> in_use s"
  then obtain i where "slot s x = Some i" "0 < refcnt (bufs s ! i)"
    by (auto simp: in_use_def refs_def split: option.splits)
  then show "x \<in> (\<lambda>i. blockno (bufs s ! i)) ` {i. i < 30 \<and> 0 < refcnt (bufs s ! i)}"
    using slot_Some [of s x i] by (auto simp: caches_def)
qed

lemma finite_in_use: "finite (in_use s)"
  by (rule finite_subset [OF in_use_sub]) simp

lemma free_buffer:
  assumes ok: "bio_ok s" and card: "card (in_use s) < 30"
  shows "\<exists>i < 30. refcnt (bufs s ! i) = 0"
proof (rule ccontr)
  assume no: "\<not> ?thesis"
  have pos: "0 < refcnt (bufs s ! i)" "dev (bufs s ! i) = 1" if "i < 30" for i
    using no bio_okD(4) [OF ok that] that by (auto simp: buf_ok_def less_le)
  have sl: "slot s (blockno (bufs s ! i)) = Some i" if "i < 30" for i
    using slot_eq [OF ok that] pos [OF that] by (simp add: caches_def)
  have "inj_on (\<lambda>i. blockno (bufs s ! i)) {..<30}"
  proof (rule inj_onI)
    fix i j assume "i \<in> {..<30}" "j \<in> {..<30}" "blockno (bufs s ! i) = blockno (bufs s ! j)"
    then show "i = j" using sl by (metis lessThan_iff option.inject)
  qed
  moreover have "(\<lambda>i. blockno (bufs s ! i)) ` {..<30} \<subseteq> in_use s"
    using sl pos by (auto simp: in_use_def refs_def)
  ultimately have "card {..<30::nat} \<le> card (in_use s)" by (rule card_inj_on_le [OF _ _ finite_in_use])
  then show False using card by simp
qed

text \<open>What the cache operations leave alone: everything but the cache, the disk and the wakeups.\<close>

definition cache_frame :: "'z bio_scheme \<Rightarrow> 'z bio_scheme \<Rightarrow> bool" where
  "cache_frame s s' \<longleftrightarrow> (\<exists>bu lr wk dk dw.
     s' = s\<lparr>wakeups := wk, bufs := bu, lru := lr, disk := dk, dwrites := dw\<rparr>)"

lemma cache_frame_refl [simp]: "cache_frame s s"
  unfolding cache_frame_def
  by (intro exI [of _ "bufs s"] exI [of _ "lru s"] exI [of _ "wakeups s"] exI [of _ "disk s"] exI [of _ "dwrites s"]) simp

lemma cache_frame_trans [trans]: "cache_frame s s' \<Longrightarrow> cache_frame s' s'' \<Longrightarrow> cache_frame s s''"
  unfolding cache_frame_def by (elim exE) (simp, blast)

lemma cache_frame_fields:
  assumes "cache_frame s s'"
  shows "p_pid s' = p_pid s" "ram s' = ram s" "freelist s' = freelist s" "bio.more s' = bio.more s"
  using assms by (auto simp: cache_frame_def)

text \<open>The precondition of \<^verbatim>\<open>bread\<close>: nobody has the block locked and a buffer can be found.\<close>

definition can_read :: "'z bio_scheme \<Rightarrow> nat \<Rightarrow> bool" where
  "can_read s bn \<longleftrightarrow> \<not> blocked s bn \<and> (bn \<in> in_use s \<or> card (in_use s) < NBUF)"

lemma bread_spec:
  assumes ok: "bio_ok s" and can: "can_read s bn"
  shows "wp (bread ROOTDEV bn)
    (\<lambda>b s'. bio_ok s' \<and> held s' b bn \<and> cache_frame s s' \<and> bview s' = bview s \<and> disk s' = disk s \<and>
       dwrites s' = dwrites s \<and> refs s' = (refs s)(bn := refs s bn + 1) \<and>
       blocked s' = (blocked s)(bn := True) \<and> (\<forall>c x. x \<noteq> bn \<longrightarrow> held s c x \<longrightarrow> held s' c x))
    (\<lambda>_. False) s"
proof -
  have nl: "\<not> blocked s bn" using can by (simp add: can_read_def)
  obtain b where b: "b < 30" "refcnt (bufs s ! b) = 0 \<and> slot s bn = None \<or> slot s bn = Some b"
    and run: "bread ROOTDEV bn s = Inr (b, s\<lparr>bufs := (bufs s)[b := bread_buf s b bn]\<rparr>)"
  proof (cases "slot s bn")
    case (Some b)
    then show ?thesis using that [of b] bread_hit [OF ok Some nl] slot_Some [OF Some] by simp
  next
    case None
    then have "bn \<notin> in_use s" by (simp add: in_use_def refs_def)
    then obtain i where "i < 30" "refcnt (bufs s ! i) = 0"
      using free_buffer [OF ok] can by (auto simp: can_read_def)
    then show ?thesis using that bread_miss [OF ok None] None by blast
  qed
  define k where "k = bread_buf s b bn"
  define s' where "s' = s\<lparr>bufs := (bufs s)[b := k]\<rparr>"
  have kf: "dev k = 1" "blockno k = bn" "valid k" "sl_locked (block k)" "sl_pid (block k) = p_pid s"
    "refcnt k = refcnt (bufs s ! b) + 1" by (simp_all add: k_def bread_buf_def)
  have c: "caches s bn b \<longleftrightarrow> slot s bn = Some b"
    using slot_eq [OF ok b(1)] slot_Some [of s bn b] by blast
  have dat: "data k = bview s bn" "refcnt k = refs s bn + 1" "0 \<le> refcnt (bufs s ! b)"
    using b bio_okD(4) [OF ok b(1)] by (auto simp: k_def bread_buf_def bview_def refs_def c buf_ok_def)
  have ok': "bio_ok s'"
  proof (rule bio_ok_upd [OF ok b(1), where k = k])
    show "buf_ok s' k" using dat length_bview [OF ok, of bn] kf by (simp add: buf_ok_def)
  qed (use ok b kf bio_okD [OF ok] in \<open>auto simp: s'_def\<close>)
  have bufs': "bufs s' = (bufs s)[b := k]" by (simp add: s'_def)
  have id: "refcnt (bufs s ! b) = 0 \<or> slot s bn = Some b" using b(2) by blast
  note v = upd_view [OF ok ok' b(1) bufs' kf(1,2) id]
  have "cache_frame s s'" unfolding cache_frame_def s'_def
    by (intro exI [of _ "(bufs s)[b := k]"] exI [of _ "lru s"] exI [of _ "wakeups s"] exI [of _ "disk s"] exI [of _ "dwrites s"]) simp
  moreover have "held s' b bn" using v(1) kf b(1) bio_okD(1) [OF ok] by (simp add: held_def s'_def holdingsleep_def)
  moreover have "bview s' = bview s" using v(2) dat kf by (auto simp: s'_def fun_eq_iff)
  moreover have "refs s' = (refs s)(bn := refs s bn + 1)" using v(3) dat by (simp add: s'_def)
  moreover have "blocked s' = (blocked s)(bn := True)" using v(4) kf by (simp add: s'_def)
  moreover have "\<forall>c x. x \<noteq> bn \<longrightarrow> held s c x \<longrightarrow> held s' c x" using v(5) by (simp add: s'_def)
  ultimately show ?thesis using ok' run by (simp add: wp_def s'_def k_def)
qed

lemma bread_waits: "bio_ok s \<Longrightarrow> blocked s bn \<Longrightarrow> bread ROOTDEV bn s = Inl (Sleep ''buffer'')"
proof -
  assume ok: "bio_ok s" and bl: "blocked s bn"
  then obtain b where b: "slot s bn = Some b" "sl_locked (block (bufs s ! b))"
    by (auto simp: blocked_def split: option.splits)
  have find: "find (\<lambda>b. dev (bufs s ! b) = 1 \<and> blockno (bufs s ! b) = bn) (lru s) = Some b"
    using lru_hit [OF ok, of bn] b(1) by (simp add: caches_def [abs_def])
  have "b < length (bufs s)" using slot_Some [OF b(1)] bio_okD(1) [OF ok] by simp
  then show ?thesis using find b(2)
    by (simp add: bread_def bget_def lock_buf_def set_buf_def get_buf_def run_simps acquiresleep_def)
qed

lemma bread_no_buffers:
  assumes ok: "bio_ok s" and full: "card (in_use s) = 30" and bn: "bn \<notin> in_use s"
  shows "bread ROOTDEV bn s = Inl (Panic ''bget: no buffers'')"
proof -
  let ?A = "{i. i < 30 \<and> 0 < refcnt (bufs s ! i)}"
  have "30 \<le> card ?A"
    using card_mono [OF _ in_use_sub, of s] card_image_le [of ?A "\<lambda>i. blockno (bufs s ! i)"] full by simp
  moreover have "card ?A \<le> card {..<30::nat}" by (rule card_mono) auto
  ultimately have "?A = {..<30}" by (intro card_subset_eq) auto
  then have pos: "0 < refcnt (bufs s ! i)" if "i < 30" for i using that by blast
  have "slot s bn = None"
    using bn pos slot_Some [of s bn] by (cases "slot s bn") (auto simp: in_use_def refs_def)
  then have miss: "find (\<lambda>b. dev (bufs s ! b) = 1 \<and> blockno (bufs s ! b) = bn) (lru s) = None"
    using lru_hit [OF ok, of bn] by (simp add: caches_def [abs_def])
  have "find (\<lambda>b. refcnt (bufs s ! b) = 0) (rev (lru s)) = None"
    using pos bio_okD(3) [OF ok] by (fastforce simp: find_None_iff)
  then show ?thesis using miss by (simp add: bread_def bget_def run_simps)
qed

lemma held_facts:
  assumes ok: "bio_ok s" and h: "held s b bn"
  shows "b < 30" "dev (bufs s ! b) = ROOTDEV" "blockno (bufs s ! b) = bn" "valid (bufs s ! b)"
    "holdingsleep (p_pid s) (block (bufs s ! b))" "slot s bn = Some b" "0 < refcnt (bufs s ! b)"
    "data (bufs s ! b) = bview s bn" "refcnt (bufs s ! b) = refs s bn" "blocked s bn"
    "b < length (bufs s)" "buf_ok s (bufs s ! b)"
proof -
  have sl: "slot s bn = Some b" and v: "valid (bufs s ! b)" "holdingsleep (p_pid s) (block (bufs s ! b))"
    using h by (auto simp: held_def)
  note sb = slot_buf [OF ok sl]
  show "0 < refcnt (bufs s ! b)" using sb(4) v by (simp add: buf_ok_def holdingsleep_def)
  show "b < 30" "dev (bufs s ! b) = ROOTDEV" "blockno (bufs s ! b) = bn" "buf_ok s (bufs s ! b)"
    "b < length (bufs s)" using sb bio_okD(1) [OF ok] by simp_all
  show "valid (bufs s ! b)" "holdingsleep (p_pid s) (block (bufs s ! b))" "slot s bn = Some b" by fact+
  show "data (bufs s ! b) = bview s bn" "refcnt (bufs s ! b) = refs s bn" "blocked s bn"
    using sl v by (simp_all add: bview_def refs_def blocked_def holdingsleep_def)
qed

text \<open>Every operation on a held buffer is an instance of one update.\<close>

lemma held_upd:
  assumes ok: "bio_ok s" and h: "held s b bn"
    and s': "s' = s\<lparr>wakeups := wk, bufs := (bufs s)[b := k], lru := lr, disk := dk, dwrites := dw\<rparr>"
    and lr: "set lr = set (lru s)" "distinct lr"
    and k: "dev k = ROOTDEV" "blockno k = bn" "valid k" "buf_ok s' k"
    and dk: "\<And>x. x \<noteq> bn \<Longrightarrow> dk x = disk s x" "length (dk bn) = BSIZE"
  shows "bio_ok s'" "cache_frame s s'" "slot s' bn = Some b" "bview s' = (bview s)(bn := data k)"
    "refs s' = (refs s)(bn := refcnt k)" "blocked s' = (blocked s)(bn := sl_locked (block k))"
    "\<forall>c x. x \<noteq> bn \<longrightarrow> held s c x \<longrightarrow> held s' c x" "held s' b bn = holdingsleep (p_pid s) (block k)"
proof -
  note f = held_facts [OF ok h]
  have b': "bufs s' = (bufs s)[b := k]" by (simp add: s')
  show ok': "bio_ok s'"
  proof (rule bio_ok_upd [OF ok f(1) k(4) b'])
    show "length (disk s' x) = BSIZE" for x using dk bio_okD(5) [OF ok] by (cases "x = bn") (simp_all add: s')
    fix i assume i: "i < 30" "i \<noteq> b" "dev (bufs s ! i) = ROOTDEV"
    then have "blockno (bufs s ! i) \<noteq> bn" using slot_eq [OF ok i(1)] f(6) by (auto simp: caches_def)
    then show "disk s' (blockno (bufs s ! i)) = disk s (blockno (bufs s ! i))" using dk by (simp add: s')
  qed (use lr f k in \<open>auto simp: s'\<close>)
  show "cache_frame s s'" unfolding cache_frame_def s' by blast
  have d': "disk s' x = disk s x" if "x \<noteq> bn" for x using dk(1) [OF that] by (simp add: s')
  have id: "refcnt (bufs s ! b) = 0 \<or> slot s bn = Some b" using f(6) by blast
  note v = upd_view [OF ok ok' f(1) b' k(1,2) id d']
  show "slot s' bn = Some b" by (rule v(1))
  show "bview s' = (bview s)(bn := data k)" using v(2) k(3) by simp
  show "refs s' = (refs s)(bn := refcnt k)" by (rule v(3))
  show "blocked s' = (blocked s)(bn := sl_locked (block k))" by (rule v(4))
  show "\<forall>c x. x \<noteq> bn \<longrightarrow> held s c x \<longrightarrow> held s' c x" using v(5) by (simp add: s')
  show "held s' b bn = holdingsleep (p_pid s) (block k)"
    using v(1) k(3) f(11) by (simp add: held_def s')
qed

lemma put_data_spec:
  assumes ok: "bio_ok s" and h: "held s b bn" and bs: "length bs = BSIZE"
  shows "wp (put_data b bs)
    (\<lambda>_ s'. bio_ok s' \<and> held s' b bn \<and> cache_frame s s' \<and> bview s' = (bview s)(bn := bs) \<and> disk s' = disk s \<and>
       dwrites s' = dwrites s \<and> refs s' = refs s \<and> blocked s' = blocked s \<and>
       (\<forall>c x. x \<noteq> bn \<longrightarrow> held s c x \<longrightarrow> held s' c x)) (\<lambda>_. False) s"
proof -
  note f = held_facts [OF ok h]
  let ?k = "(bufs s ! b)\<lparr>data := bs\<rparr>"
  let ?s = "s\<lparr>wakeups := wakeups s, bufs := (bufs s)[b := ?k], lru := lru s, disk := disk s, dwrites := dwrites s\<rparr>"
  have k: "dev ?k = ROOTDEV" "blockno ?k = bn" "valid ?k" "buf_ok ?s ?k"
    using f bs by (simp_all add: buf_ok_def)
  note u = held_upd [OF ok h refl refl bio_okD(2) [OF ok] k refl bio_okD(5) [OF ok]]
  have "?s = s\<lparr>bufs := (bufs s)[b := ?k]\<rparr>" by simp
  then show ?thesis using u f
    by (auto simp: put_data_def set_buf_def fun_eq_iff holdingsleep_def)
qed

lemma get_data_spec:
  "bio_ok s \<Longrightarrow> held s b bn \<Longrightarrow> get_data b s = Inr (bview s bn, s)"
  using held_facts(8) [of s b bn] by (simp add: get_data_def run_simps)

lemma bwrite_spec:
  assumes ok: "bio_ok s" and h: "held s b bn"
  shows "wp (bwrite b)
    (\<lambda>_ s'. bio_ok s' \<and> held s' b bn \<and> cache_frame s s' \<and> bview s' = bview s \<and>
       disk s' = (disk s)(bn := bview s bn) \<and> dwrites s' = dwrites s @ [(bn, bview s bn)] \<and>
       refs s' = refs s \<and> blocked s' = blocked s \<and>
       (\<forall>c x. x \<noteq> bn \<longrightarrow> held s c x \<longrightarrow> held s' c x)) (\<lambda>_. False) s"
proof -
  note f = held_facts [OF ok h]
  let ?dk = "(disk s)(bn := bview s bn)" and ?dw = "dwrites s @ [(bn, bview s bn)]"
  let ?s = "s\<lparr>wakeups := wakeups s, bufs := (bufs s)[b := bufs s ! b], lru := lru s, disk := ?dk, dwrites := ?dw\<rparr>"
  have k: "buf_ok ?s (bufs s ! b)" using f by (simp add: buf_ok_def)
  have dk: "\<And>x. x \<noteq> bn \<Longrightarrow> ?dk x = disk s x" "length (?dk bn) = BSIZE"
    using length_bview [OF ok] by simp_all
  note u = held_upd [OF ok h refl refl bio_okD(2) [OF ok] f(2,3,4) k dk]
  have "?s = s\<lparr>disk := ?dk, dwrites := ?dw\<rparr>" by simp
  then show ?thesis using u f
    by (auto simp: bwrite_def get_buf_def virtio_disk_rw_def fun_eq_iff holdingsleep_def)
qed

lemma move_front:
  assumes "b \<in> set xs" "distinct xs"
  shows "set (b # filter (\<lambda>x. x \<noteq> b) xs) = set xs" "distinct (b # filter (\<lambda>x. x \<noteq> b) xs)"
  using assms by auto

text \<open>
  A buffer whose contents differ from the disk may be released only while it is pinned: otherwise
  it could be recycled and the change lost.
\<close>

lemma brelse_spec:
  assumes ok: "bio_ok s" and h: "held s b bn" and sync: "1 < refs s bn \<or> bview s bn = disk s bn"
  shows "wp (brelse b)
    (\<lambda>_ s'. bio_ok s' \<and> cache_frame s s' \<and> bview s' = bview s \<and> disk s' = disk s \<and>
       dwrites s' = dwrites s \<and> refs s' = (refs s)(bn := refs s bn - 1) \<and>
       blocked s' = (blocked s)(bn := False) \<and>
       (\<forall>c x. x \<noteq> bn \<longrightarrow> held s c x \<longrightarrow> held s' c x)) (\<lambda>_. False) s"
proof -
  note f = held_facts [OF ok h]
  let ?k = "(bufs s ! b)\<lparr>block := releasesleep (block (bufs s ! b)), refcnt := refcnt (bufs s ! b) - 1\<rparr>"
  define lr where "lr = (if refcnt (bufs s ! b) = 1 then b # filter (\<lambda>x. x \<noteq> b) (lru s) else lru s)"
  define wk where "wk = wakeups s @ [(''sleeplock'', b)]"
  define s' where "s' = s\<lparr>wakeups := wk, bufs := (bufs s)[b := ?k], lru := lr, disk := disk s, dwrites := dwrites s\<rparr>"
  have lr: "set lr = set (lru s)" "distinct lr"
    using move_front [of b "lru s"] bio_okD(2,3) [OF ok] f(1) by (simp_all add: lr_def)
  have k: "dev ?k = ROOTDEV" "blockno ?k = bn" "valid ?k" "buf_ok s' ?k"
    using f sync by (auto simp: buf_ok_def releasesleep_def s'_def)
  note u = held_upd [OF ok h s'_def lr k refl bio_okD(5) [OF ok]]
  have "brelse b s = Inr ((), s')"
    using f by (cases s; cases "bufs s ! b")
      (auto simp: brelse_def get_buf_def set_buf_def run_simps s'_def wakeup_def wk_def lr_def bio.defs)
  then show ?thesis using u f
    by (auto simp: wp_def fun_eq_iff releasesleep_def s'_def)
qed

lemma bpin_spec:
  assumes ok: "bio_ok s" and h: "held s b bn"
  shows "wp (bpin b)
    (\<lambda>_ s'. bio_ok s' \<and> held s' b bn \<and> cache_frame s s' \<and> bview s' = bview s \<and> disk s' = disk s \<and>
       dwrites s' = dwrites s \<and> refs s' = (refs s)(bn := refs s bn + 1) \<and> blocked s' = blocked s \<and>
       (\<forall>c x. x \<noteq> bn \<longrightarrow> held s c x \<longrightarrow> held s' c x)) (\<lambda>_. False) s"
proof -
  note f = held_facts [OF ok h]
  let ?k = "(bufs s ! b)\<lparr>refcnt := refcnt (bufs s ! b) + 1\<rparr>"
  let ?s = "s\<lparr>wakeups := wakeups s, bufs := (bufs s)[b := ?k], lru := lru s, disk := disk s, dwrites := dwrites s\<rparr>"
  have k: "dev ?k = ROOTDEV" "blockno ?k = bn" "valid ?k" "buf_ok ?s ?k"
    using f by (simp_all add: buf_ok_def)
  note u = held_upd [OF ok h refl refl bio_okD(2) [OF ok] k refl bio_okD(5) [OF ok]]
  have "?s = s\<lparr>bufs := (bufs s)[b := ?k]\<rparr>" by simp
  then show ?thesis using u f
    by (auto simp: bpin_def set_buf_def fun_eq_iff holdingsleep_def)
qed

lemma bunpin_spec:
  assumes ok: "bio_ok s" and h: "held s b bn" and r: "1 < refs s bn"
  shows "wp (bunpin b)
    (\<lambda>_ s'. bio_ok s' \<and> held s' b bn \<and> cache_frame s s' \<and> bview s' = bview s \<and> disk s' = disk s \<and>
       dwrites s' = dwrites s \<and> refs s' = (refs s)(bn := refs s bn - 1) \<and> blocked s' = blocked s \<and>
       (\<forall>c x. x \<noteq> bn \<longrightarrow> held s c x \<longrightarrow> held s' c x)) (\<lambda>_. False) s"
proof -
  note f = held_facts [OF ok h]
  let ?k = "(bufs s ! b)\<lparr>refcnt := refcnt (bufs s ! b) - 1\<rparr>"
  let ?s = "s\<lparr>wakeups := wakeups s, bufs := (bufs s)[b := ?k], lru := lru s, disk := disk s, dwrites := dwrites s\<rparr>"
  have k: "dev ?k = ROOTDEV" "blockno ?k = bn" "valid ?k" "buf_ok ?s ?k"
    using f r by (simp_all add: buf_ok_def)
  note u = held_upd [OF ok h refl refl bio_okD(2) [OF ok] k refl bio_okD(5) [OF ok]]
  have "?s = s\<lparr>bufs := (bufs s)[b := ?k]\<rparr>" by simp
  then show ?thesis using u f
    by (auto simp: bunpin_def set_buf_def fun_eq_iff holdingsleep_def)
qed

end
