(* ===== verification/Block_Cache.thy ===== *)
theory Block_Cache
  imports Bio
begin

section \<open>The interface of the buffer cache\<close>

text \<open>
  What the log and the file system rely on, independent of how the cache is built: an abstract
  cache state (contents of every block as readers see them, contents on disk, the sequence of
  disk writes, reference counts, locks), one abstract operation per routine of
  \<^verbatim>\<open>kernel/bio.c\<close>, and the contract that each routine returns and refines its abstract operation.
  The locale also proves, once, what the two-buffer idioms of the clients do.
\<close>

record cache =
  cview :: "nat \<Rightarrow> byte list"
  cdisk :: "nat \<Rightarrow> byte list"
  cwrites :: "(nat \<times> byte list) list"
  crefs :: "nat \<Rightarrow> int"
  clocked :: "nat \<Rightarrow> bool"

definition cacq :: "nat \<Rightarrow> cache \<Rightarrow> cache" where
  "cacq bn a = a\<lparr>crefs := (crefs a)(bn := crefs a bn + 1), clocked := (clocked a)(bn := True)\<rparr>"

definition crel :: "nat \<Rightarrow> cache \<Rightarrow> cache" where
  "crel bn a = a\<lparr>crefs := (crefs a)(bn := crefs a bn - 1), clocked := (clocked a)(bn := False)\<rparr>"

definition cput :: "nat \<Rightarrow> byte list \<Rightarrow> cache \<Rightarrow> cache" where
  "cput bn bs a = a\<lparr>cview := (cview a)(bn := bs)\<rparr>"

definition cflush :: "nat \<Rightarrow> cache \<Rightarrow> cache" where
  "cflush bn a = a\<lparr>cdisk := (cdisk a)(bn := cview a bn), cwrites := cwrites a @ [(bn, cview a bn)]\<rparr>"

definition cpin :: "nat \<Rightarrow> int \<Rightarrow> cache \<Rightarrow> cache" where
  "cpin bn d a = a\<lparr>crefs := (crefs a)(bn := crefs a bn + d)\<rparr>"

definition cused :: "cache \<Rightarrow> nat set" where
  "cused a = {bn. 0 < crefs a bn}"

definition can_acquire :: "cache \<Rightarrow> nat \<Rightarrow> bool" where
  "can_acquire a bn \<longleftrightarrow> \<not> clocked a bn \<and> (bn \<in> cused a \<or> card (cused a) < NBUF)"

text \<open>Facts that hold of every abstract state the cache is in.\<close>

definition cache_wf :: "cache \<Rightarrow> bool" where
  "cache_wf a \<longleftrightarrow> finite (cused a) \<and> (\<forall>bn. 0 \<le> crefs a bn) \<and> (\<forall>bn. crefs a bn = 0 \<longrightarrow> cview a bn = cdisk a bn) \<and>
     (\<forall>bn. length (cview a bn) = BSIZE)"

lemma cacq_view [simp]: "cview (cacq bn a) = cview a" "cdisk (cacq bn a) = cdisk a"
  by (simp_all add: cacq_def)

lemma crel_view [simp]: "cview (crel bn a) = cview a" "cdisk (crel bn a) = cdisk a"
  by (simp_all add: crel_def)

lemmas cache_ops = cacq_def crel_def cput_def cflush_def cpin_def

locale block_cache =
  fixes ok :: "'s \<Rightarrow> bool"
    and frm :: "'s \<Rightarrow> 's \<Rightarrow> bool"
    and abs :: "'s \<Rightarrow> cache"
    and holds :: "'s \<Rightarrow> nat \<Rightarrow> nat \<Rightarrow> bool"
    and rd :: "nat \<Rightarrow> ('s, nat) K"
    and get :: "nat \<Rightarrow> ('s, byte list) K"
    and put :: "nat \<Rightarrow> byte list \<Rightarrow> ('s, unit) K"
    and wr rel pin unpin :: "nat \<Rightarrow> ('s, unit) K"
  assumes frm_refl: "frm s s"
    and frm_trans: "frm s s' \<Longrightarrow> frm s' s'' \<Longrightarrow> frm s s''"
    and wf: "ok s \<Longrightarrow> cache_wf (abs s)"
    and rd_law: "ok s \<Longrightarrow> can_acquire (abs s) bn \<Longrightarrow>
      wp (rd bn) (\<lambda>b s'. ok s' \<and> frm s s' \<and> abs s' = cacq bn (abs s) \<and> holds s' b bn \<and>
        (\<forall>c x. x \<noteq> bn \<longrightarrow> holds s c x \<longrightarrow> holds s' c x)) (\<lambda>_. False) s"
    and get_law: "ok s \<Longrightarrow> holds s b bn \<Longrightarrow> get b s = Inr (cview (abs s) bn, s)"
    and put_law: "ok s \<Longrightarrow> holds s b bn \<Longrightarrow> length bs = BSIZE \<Longrightarrow>
      wp (put b bs) (\<lambda>_ s'. ok s' \<and> frm s s' \<and> abs s' = cput bn bs (abs s) \<and> holds s' b bn \<and>
        (\<forall>c x. x \<noteq> bn \<longrightarrow> holds s c x \<longrightarrow> holds s' c x)) (\<lambda>_. False) s"
    and wr_law: "ok s \<Longrightarrow> holds s b bn \<Longrightarrow>
      wp (wr b) (\<lambda>_ s'. ok s' \<and> frm s s' \<and> abs s' = cflush bn (abs s) \<and> holds s' b bn \<and>
        (\<forall>c x. x \<noteq> bn \<longrightarrow> holds s c x \<longrightarrow> holds s' c x)) (\<lambda>_. False) s"
    and rel_law: "ok s \<Longrightarrow> holds s b bn \<Longrightarrow> 1 < crefs (abs s) bn \<or> cview (abs s) bn = cdisk (abs s) bn \<Longrightarrow>
      wp (rel b) (\<lambda>_ s'. ok s' \<and> frm s s' \<and> abs s' = crel bn (abs s) \<and>
        (\<forall>c x. x \<noteq> bn \<longrightarrow> holds s c x \<longrightarrow> holds s' c x)) (\<lambda>_. False) s"
    and pin_law: "ok s \<Longrightarrow> holds s b bn \<Longrightarrow>
      wp (pin b) (\<lambda>_ s'. ok s' \<and> frm s s' \<and> abs s' = cpin bn 1 (abs s) \<and> holds s' b bn \<and>
        (\<forall>c x. x \<noteq> bn \<longrightarrow> holds s c x \<longrightarrow> holds s' c x)) (\<lambda>_. False) s"
    and unpin_law: "ok s \<Longrightarrow> holds s b bn \<Longrightarrow> 1 < crefs (abs s) bn \<Longrightarrow>
      wp (unpin b) (\<lambda>_ s'. ok s' \<and> frm s s' \<and> abs s' = cpin bn (- 1) (abs s) \<and> holds s' b bn \<and>
        (\<forall>c x. x \<noteq> bn \<longrightarrow> holds s c x \<longrightarrow> holds s' c x)) (\<lambda>_. False) s"
begin

lemma wp_rd:
  assumes "ok s" "frm s0 s" "can_acquire (abs s) bn"
    "\<And>b s'. ok s' \<Longrightarrow> frm s0 s' \<Longrightarrow> abs s' = cacq bn (abs s) \<Longrightarrow> holds s' b bn \<Longrightarrow>
      (\<And>c x. x \<noteq> bn \<Longrightarrow> holds s c x \<Longrightarrow> holds s' c x) \<Longrightarrow> Q b s'"
  shows "wp (rd bn) Q E s"
  by (rule wp_conseq [OF rd_law [OF assms(1,3)]]) (use assms(4) frm_trans [OF assms(2)] in auto)

lemma wp_get: "ok s \<Longrightarrow> holds s b bn \<Longrightarrow> Q (cview (abs s) bn) s \<Longrightarrow> wp (get b) Q E s"
  using get_law by (simp add: wp_def)

lemma wp_put:
  assumes "ok s" "frm s0 s" "holds s b bn" "length bs = 1024"
    "\<And>s'. ok s' \<Longrightarrow> frm s0 s' \<Longrightarrow> abs s' = cput bn bs (abs s) \<Longrightarrow> holds s' b bn \<Longrightarrow>
      (\<And>c x. x \<noteq> bn \<Longrightarrow> holds s c x \<Longrightarrow> holds s' c x) \<Longrightarrow> Q () s'"
  shows "wp (put b bs) Q E s"
  by (rule wp_conseq [OF put_law [OF assms(1,3,4)]]) (use assms(5) frm_trans [OF assms(2)] in auto)

lemma wp_wr:
  assumes "ok s" "frm s0 s" "holds s b bn"
    "\<And>s'. ok s' \<Longrightarrow> frm s0 s' \<Longrightarrow> abs s' = cflush bn (abs s) \<Longrightarrow> holds s' b bn \<Longrightarrow>
      (\<And>c x. x \<noteq> bn \<Longrightarrow> holds s c x \<Longrightarrow> holds s' c x) \<Longrightarrow> Q () s'"
  shows "wp (wr b) Q E s"
  by (rule wp_conseq [OF wr_law [OF assms(1,3)]]) (use assms(4) frm_trans [OF assms(2)] in auto)

lemma wp_rel:
  assumes "ok s" "frm s0 s" "holds s b bn" "1 < crefs (abs s) bn \<or> cview (abs s) bn = cdisk (abs s) bn"
    "\<And>s'. ok s' \<Longrightarrow> frm s0 s' \<Longrightarrow> abs s' = crel bn (abs s) \<Longrightarrow>
      (\<And>c x. x \<noteq> bn \<Longrightarrow> holds s c x \<Longrightarrow> holds s' c x) \<Longrightarrow> Q () s'"
  shows "wp (rel b) Q E s"
  by (rule wp_conseq [OF rel_law [OF assms(1,3,4)]]) (use assms(5) frm_trans [OF assms(2)] in auto)

lemma wp_pin:
  assumes "ok s" "frm s0 s" "holds s b bn"
    "\<And>s'. ok s' \<Longrightarrow> frm s0 s' \<Longrightarrow> abs s' = cpin bn 1 (abs s) \<Longrightarrow> holds s' b bn \<Longrightarrow>
      (\<And>c x. x \<noteq> bn \<Longrightarrow> holds s c x \<Longrightarrow> holds s' c x) \<Longrightarrow> Q () s'"
  shows "wp (pin b) Q E s"
  by (rule wp_conseq [OF pin_law [OF assms(1,3)]]) (use assms(4) frm_trans [OF assms(2)] in auto)

lemma wp_unpin:
  assumes "ok s" "frm s0 s" "holds s b bn" "1 < crefs (abs s) bn"
    "\<And>s'. ok s' \<Longrightarrow> frm s0 s' \<Longrightarrow> abs s' = cpin bn (- 1) (abs s) \<Longrightarrow> holds s' b bn \<Longrightarrow>
      (\<And>c x. x \<noteq> bn \<Longrightarrow> holds s c x \<Longrightarrow> holds s' c x) \<Longrightarrow> Q () s'"
  shows "wp (unpin b) Q E s"
  by (rule wp_conseq [OF unpin_law [OF assms(1,3,4)]]) (use assms(5) frm_trans [OF assms(2)] in auto)

text \<open>Reading a block leaves no trace.\<close>

lemma read_block:
  assumes "ok s" "can_acquire (abs s) bn"
  shows "wp (bindK (rd bn) (\<lambda>b. bindK (get b) (\<lambda>x. thenK (rel b) (returnK x))))
    (\<lambda>x s'. x = cview (abs s) bn \<and> ok s' \<and> frm s s' \<and> abs s' = abs s) (\<lambda>_. False) s"
proof -
  have free: "crefs (abs s) bn = 0 \<or> 0 < crefs (abs s) bn" "crefs (abs s) bn = 0 \<longrightarrow> cview (abs s) bn = cdisk (abs s) bn"
    using wf [OF assms(1)] by (auto simp: cache_wf_def le_less)
  have undo: "crel bn (cacq bn (abs s)) = abs s"
    using assms(2) by (auto simp: cache_ops can_acquire_def fun_upd_idem)
  show ?thesis
    unfolding wp_bind wp_then wp_return
    apply (rule wp_rd [OF assms(1) frm_refl assms(2)])
    apply (rule wp_get, assumption, assumption)
    apply (rule wp_rel, assumption, assumption, assumption)
    subgoal using free by (auto simp: cache_ops)
    subgoal using undo by simp
    done
qed

text \<open>Changing a block and writing it through to the disk.\<close>

lemma store_block:
  assumes ok: "ok s" and can: "can_acquire (abs s) bn" and len: "length (f (cview (abs s) bn)) = 1024"
  shows "wp (bindK (rd bn) (\<lambda>b. bindK (get b) (\<lambda>x. thenK (put b (f x)) (thenK (wr b) (rel b)))))
    (\<lambda>_ s'. ok s' \<and> frm s s' \<and> abs s' = cflush bn (cput bn (f (cview (abs s) bn)) (abs s))) (\<lambda>_. False) s"
proof -
  have undo: "crel bn (cflush bn (cput bn y (cacq bn (abs s)))) = cflush bn (cput bn y (abs s))" for y
    using can by (auto simp: cache_ops can_acquire_def fun_upd_idem)
  show ?thesis
    unfolding wp_bind wp_then wp_return
    apply (rule wp_rd [OF ok frm_refl can])
    apply (rule wp_get, assumption, assumption)
    apply (rule wp_put, assumption, assumption, assumption)
    subgoal using len by (simp add: cache_ops)
    apply (rule wp_wr, assumption, assumption, assumption)
    apply (rule wp_rel, assumption, assumption, assumption)
    subgoal by (simp add: cache_ops)
    subgoal using undo by simp
    done
qed

text \<open>Copying block \<open>h\<close>, which is in use, to block \<open>l\<close>: a step of \<^verbatim>\<open>write_log\<close>.\<close>

lemma copy_out:
  assumes ok: "ok s" and can: "can_acquire (abs s) l" and h: "h \<noteq> l" "\<not> clocked (abs s) h" "0 < crefs (abs s) h"
  shows "wp (bindK (rd l) (\<lambda>to. bindK (rd h) (\<lambda>from. bindK (get from) (\<lambda>x.
      thenK (put to x) (thenK (wr to) (thenK (rel from) (rel to)))))))
    (\<lambda>_ s'. ok s' \<and> frm s s' \<and> abs s' = cflush l (cput l (cview (abs s) h) (abs s))) (\<lambda>_. False) s"
proof -
  have len: "length (cview (abs s) x) = 1024" for x using wf [OF ok] by (simp add: cache_wf_def)
  have canh: "can_acquire (cacq l (abs s)) h"
    using h by (simp add: can_acquire_def cused_def cache_ops)
  have undo: "crel l (crel h (cflush l (cput l y (cacq h (cacq l (abs s)))))) = cflush l (cput l y (abs s))" for y
    using h can by (auto simp: cache_ops can_acquire_def fun_eq_iff)
  show ?thesis
    unfolding wp_bind wp_then wp_return
    apply (rule wp_rd [OF ok frm_refl can])
    apply (rule wp_rd, assumption, assumption)
    subgoal using canh by simp
    apply (rule wp_get, assumption, assumption)
    apply (rule wp_put [where bn = l], assumption, assumption)
    subgoal using h by auto
    subgoal using len by (simp add: cache_ops)
    apply (rule wp_wr [where bn = l], assumption, assumption, assumption)
    apply (rule wp_rel [where bn = h], assumption, assumption)
    subgoal using h by auto
    subgoal using h by (simp add: cache_ops)
    apply (rule wp_rel [where bn = l], assumption, assumption)
    subgoal using h by auto
    subgoal using h by (simp add: cache_ops)
    subgoal using undo by simp
    done
qed

text \<open>
  Copying the log block \<open>l\<close> to its home \<open>h\<close> and dropping the pin of \<open>h\<close> when it has one: a step of
  \<^verbatim>\<open>install_trans\<close>.
\<close>

lemma copy_home:
  assumes ok: "ok s" and can: "can_acquire (abs s) l" and hl: "h \<noteq> l" and nl: "\<not> clocked (abs s) h"
    and room: "pinned \<Longrightarrow> 0 < crefs (abs s) h" "\<not> pinned \<Longrightarrow> can_acquire (cacq l (abs s)) h"
  shows "wp (bindK (rd l) (\<lambda>lbuf. bindK (rd h) (\<lambda>dbuf. bindK (get lbuf) (\<lambda>x.
      thenK (put dbuf x) (thenK (wr dbuf) (thenK (whenK pinned (unpin dbuf)) (thenK (rel lbuf) (rel dbuf))))))))
    (\<lambda>_ s'. ok s' \<and> frm s s' \<and> abs s' = cpin h (if pinned then - 1 else 0) (cflush h (cput h (cview (abs s) l) (abs s))))
    (\<lambda>_. False) s"
proof -
  have len: "length (cview (abs s) x) = 1024" and nn: "0 \<le> crefs (abs s) x" for x
    using wf [OF ok] by (simp_all add: cache_wf_def)
  have canh: "can_acquire (cacq l (abs s)) h"
    using room hl nl by (cases pinned) (auto simp: can_acquire_def cused_def cache_ops)
  have sync: "1 < crefs (abs s) l + 1 \<or> cview (abs s) l = cdisk (abs s) l"
  proof (cases "crefs (abs s) l = 0")
    case True
    then show ?thesis using wf [OF ok] by (simp add: cache_wf_def)
  next
    case False
    then show ?thesis using nn [of l] by linarith
  qed
  have undo: "crel h (crel l (cflush h (cput h y (cacq h (cacq l (abs s)))))) = cpin h 0 (cflush h (cput h y (abs s)))"
    "crel h (crel l (cpin h (- 1) (cflush h (cput h y (cacq h (cacq l (abs s))))))) = cpin h (- 1) (cflush h (cput h y (abs s)))" for y
    using hl nl can by (auto simp: cache_ops can_acquire_def fun_eq_iff)
  note rule_end = wp_rel [where bn = l]
  show ?thesis
  proof (cases pinned)
    case True
    show ?thesis
      unfolding wp_bind wp_then wp_return wp_when if_P [OF True]
      apply (rule wp_rd [OF ok frm_refl can])
      apply (rule wp_rd, assumption, assumption)
      subgoal using canh by simp
      apply (rule wp_get [where bn = l], assumption)
      subgoal using hl by auto
      apply (rule wp_put [where bn = h], assumption, assumption, assumption)
      subgoal using len by simp
      apply (rule wp_wr [where bn = h], assumption, assumption, assumption)
      apply (rule wp_unpin [where bn = h], assumption, assumption, assumption)
      subgoal using room(1) [OF True] hl by (simp add: cache_ops)
      apply (rule wp_rel [where bn = l], assumption, assumption)
      subgoal using hl by auto
      subgoal using hl sync by (simp add: cache_ops)
      apply (rule wp_rel [where bn = h], assumption, assumption)
      subgoal using hl by auto
      subgoal using hl by (simp add: cache_ops)
      subgoal using undo by simp
      done
  next
    case False
    show ?thesis
      unfolding wp_bind wp_then wp_return wp_when if_not_P [OF False]
      apply (rule wp_rd [OF ok frm_refl can])
      apply (rule wp_rd, assumption, assumption)
      subgoal using canh by simp
      apply (rule wp_get [where bn = l], assumption)
      subgoal using hl by auto
      apply (rule wp_put [where bn = h], assumption, assumption, assumption)
      subgoal using len by simp
      apply (rule wp_wr [where bn = h], assumption, assumption, assumption)
      apply (rule wp_rel [where bn = l], assumption, assumption)
      subgoal using hl by auto
      subgoal using hl sync by (simp add: cache_ops)
      apply (rule wp_rel [where bn = h], assumption, assumption)
      subgoal using hl by auto
      subgoal using hl by (simp add: cache_ops)
      subgoal using undo by simp
      done
  qed
qed

end

subsection \<open>The cache of kernel/bio.c implements the interface\<close>

definition cache_of :: "'z bio_scheme \<Rightarrow> cache" where
  "cache_of s = \<lparr>cview = bview s, cdisk = disk s, cwrites = dwrites s, crefs = refs s, clocked = blocked s\<rparr>"

lemma cache_of_sel:
  "cview (cache_of s) = bview s" "cdisk (cache_of s) = disk s" "cwrites (cache_of s) = dwrites s"
  "crefs (cache_of s) = refs s" "clocked (cache_of s) = blocked s"
  by (simp_all add: cache_of_def)

lemma cache_of_used [simp]: "cused (cache_of s) = in_use s"
  by (simp add: cused_def in_use_def cache_of_def)

lemma cache_of_can [simp]: "can_acquire (cache_of s) bn = can_read s bn"
  by (simp add: can_acquire_def can_read_def) (simp add: cache_of_def)

interpretation bc: block_cache bio_ok cache_frame cache_of held "bread ROOTDEV" get_data put_data bwrite brelse bpin bunpin
proof unfold_locales
  show "cache_frame s s" for s :: "'a bio_scheme" by simp
  show "cache_frame s s' \<Longrightarrow> cache_frame s' s'' \<Longrightarrow> cache_frame s s''" for s s' s'' :: "'a bio_scheme"
    by (rule cache_frame_trans)
  show "cache_wf (cache_of s)" if "bio_ok s" for s :: "'a bio_scheme"
    using refs_nonneg [OF that] free_bview [OF that] length_bview [OF that] finite_in_use [of s]
    by (simp add: cache_wf_def) (simp add: cache_of_def)
next
  fix s :: "'a bio_scheme" and bn assume s: "bio_ok s" and can: "can_acquire (cache_of s) bn"
  show "wp (bread ROOTDEV bn) (\<lambda>b s'. bio_ok s' \<and> cache_frame s s' \<and> cache_of s' = cacq bn (cache_of s) \<and> held s' b bn \<and>
    (\<forall>c x. x \<noteq> bn \<longrightarrow> held s c x \<longrightarrow> held s' c x)) (\<lambda>_. False) s"
    by (rule wp_mono [OF bread_spec [OF s can [unfolded cache_of_can]]]) (simp add: cache_of_def cache_ops)
next
  fix s :: "'a bio_scheme" and b bn and bs :: "byte list" assume s: "bio_ok s" "held s b bn" "length bs = BSIZE"
  show "wp (put_data b bs) (\<lambda>_ s'. bio_ok s' \<and> cache_frame s s' \<and> cache_of s' = cput bn bs (cache_of s) \<and> held s' b bn \<and>
    (\<forall>c x. x \<noteq> bn \<longrightarrow> held s c x \<longrightarrow> held s' c x)) (\<lambda>_. False) s"
    by (rule wp_mono [OF put_data_spec [OF s]]) (simp add: cache_of_def cache_ops)
next
  fix s :: "'a bio_scheme" and b bn assume s: "bio_ok s" "held s b bn"
  show "get_data b s = Inr (cview (cache_of s) bn, s)" using get_data_spec [OF s] by (simp add: cache_of_def)
  show "wp (bwrite b) (\<lambda>_ s'. bio_ok s' \<and> cache_frame s s' \<and> cache_of s' = cflush bn (cache_of s) \<and> held s' b bn \<and>
    (\<forall>c x. x \<noteq> bn \<longrightarrow> held s c x \<longrightarrow> held s' c x)) (\<lambda>_. False) s"
    by (rule wp_mono [OF bwrite_spec [OF s]]) (simp add: cache_of_def cache_ops)
  show "wp (bpin b) (\<lambda>_ s'. bio_ok s' \<and> cache_frame s s' \<and> cache_of s' = cpin bn 1 (cache_of s) \<and> held s' b bn \<and>
    (\<forall>c x. x \<noteq> bn \<longrightarrow> held s c x \<longrightarrow> held s' c x)) (\<lambda>_. False) s"
    by (rule wp_mono [OF bpin_spec [OF s]]) (simp add: cache_of_def cache_ops)
  show "wp (bunpin b) (\<lambda>_ s'. bio_ok s' \<and> cache_frame s s' \<and> cache_of s' = cpin bn (- 1) (cache_of s) \<and> held s' b bn \<and>
    (\<forall>c x. x \<noteq> bn \<longrightarrow> held s c x \<longrightarrow> held s' c x)) (\<lambda>_. False) s" if "1 < crefs (cache_of s) bn"
    by (rule wp_mono [OF bunpin_spec [OF s that [unfolded cache_of_sel]]]) (simp add: cache_of_def cache_ops)
  show "wp (brelse b) (\<lambda>_ s'. bio_ok s' \<and> cache_frame s s' \<and> cache_of s' = crel bn (cache_of s) \<and>
    (\<forall>c x. x \<noteq> bn \<longrightarrow> held s c x \<longrightarrow> held s' c x)) (\<lambda>_. False) s"
    if "1 < crefs (cache_of s) bn \<or> cview (cache_of s) bn = cdisk (cache_of s) bn"
    by (rule wp_mono [OF brelse_spec [OF s that [unfolded cache_of_sel]]]) (simp add: cache_of_def cache_ops)
qed

subsection \<open>Properties\<close>

text \<open>A cache in which no block is in use yet, over a disk whose block \<open>n\<close> is filled with \<open>n\<close>.\<close>

definition empty_buf :: buf where
  "empty_buf = \<lparr>valid = False, dev = 0, blockno = 0, block = initsleeplock ''buffer'', refcnt = 0, data = []\<rparr>"

definition fresh_cache :: bio where
  "fresh_cache = \<lparr>ram = (\<lambda>_. 0), kend = 0, etext = 0, trampoline = 0, freelist = 0, p_pagetable = 0, p_sz = 0,
     p_pid = 1, p_killed = False, wakeups = [], pipe_at = (\<lambda>_. pipe_at one_pipe 0), uart_regs = (\<lambda>_. 0), uart_rx = [], uart_tx_idle = True,
     uart_out = [], tx_busy = False, panicking = False, panicked = False, cbuf = [], cons_r = 0, cons_w = 0,
     cons_e = 0, proc_dumps = 0, bufs = replicate 30 empty_buf, lru = rev [0..<30],
     disk = (\<lambda>n. replicate 1024 (of_nat n)), dwrites = []\<rparr>"

lemma fresh_cache_ok: "bio_ok fresh_cache"
  by (auto simp: bio_ok_def fresh_cache_def empty_buf_def buf_ok_def initsleeplock_def)

lemma fresh_cache_free: "slot fresh_cache bn = None" "refs fresh_cache bn = 0" "\<not> blocked fresh_cache bn"
  "in_use fresh_cache = {}"
proof -
  have c: "\<not> caches fresh_cache x i" if "i < 30" for i x
    using that by (simp add: caches_def fresh_cache_def empty_buf_def)
  have sl: "slot fresh_cache x = None" for x using slot_Some [of fresh_cache x] c by (cases "slot fresh_cache x") auto
  then show "slot fresh_cache bn = None" "refs fresh_cache bn = 0" "\<not> blocked fresh_cache bn" "in_use fresh_cache = {}"
    by (simp_all add: refs_def blocked_def in_use_def)
qed

text \<open>
  C10: \<^verbatim>\<open>bread\<close> behaves as the cache promises on every path: it waits for a block that another
  thread has locked, it panics when the block is not in use and all buffers are, and otherwise it
  returns a locked buffer of that very block, the only one in the cache, with the contents last
  stored for the block by any holder, changing neither the contents of any block nor the disk.
\<close>

theorem bread_returns_current_block:
  assumes ok: "bio_ok s"
  shows "(blocked s bn \<longrightarrow> bread ROOTDEV bn s = Inl (Sleep ''buffer'')) \<and>
    (\<not> blocked s bn \<longrightarrow> bn \<notin> in_use s \<longrightarrow> card (in_use s) \<ge> NBUF \<longrightarrow>
       bread ROOTDEV bn s = Inl (Panic ''bget: no buffers'')) \<and>
    (can_read s bn \<longrightarrow> (\<exists>b s'. bread ROOTDEV bn s = Inr (b, s') \<and> bio_ok s' \<and> held s' b bn \<and>
       data (bufs s' ! b) = bview s bn \<and> (\<forall>i < NBUF. caches s' bn i \<longrightarrow> i = b) \<and> bview s' = bview s \<and> disk s' = disk s))"
proof (intro conjI impI)
  assume "blocked s bn"
  then show "bread ROOTDEV bn s = Inl (Sleep ''buffer'')" using bread_waits [OF ok] by simp
next
  assume full: "card (in_use s) \<ge> NBUF" and bn: "bn \<notin> in_use s"
  have "card (in_use s) \<le> card {i. i < (30::nat) \<and> 0 < refcnt (bufs s ! i)}"
    by (rule surj_card_le [OF _ in_use_sub]) simp
  also have "\<dots> \<le> card {..<30::nat}" by (rule card_mono) auto
  finally show "bread ROOTDEV bn s = Inl (Panic ''bget: no buffers'')"
    using full bread_no_buffers [OF ok _ bn] by simp
next
  assume "can_read s bn"
  from bread_spec [OF ok this] obtain b s' where r: "bread ROOTDEV bn s = Inr (b, s')" "bio_ok s'" "held s' b bn"
    "bview s' = bview s" "disk s' = disk s" unfolding wp_total_ex by blast
  moreover have "i = b" if "i < 30" "caches s' bn i" for i
    using slot_eq [OF r(2) that] held_facts(6) [OF r(2,3)] by simp
  ultimately show "\<exists>b s'. bread ROOTDEV bn s = Inr (b, s') \<and> bio_ok s' \<and> held s' b bn \<and>
       data (bufs s' ! b) = bview s bn \<and> (\<forall>i < NBUF. caches s' bn i \<longrightarrow> i = b) \<and> bview s' = bview s \<and> disk s' = disk s"
    using held_facts(8) [OF r(2,3)] by (intro exI [of _ b] exI [of _ s']) auto
qed

theorem bread_returns_current_block_witness:
  "\<exists>b s'. bread ROOTDEV 7 fresh_cache = Inr (b, s') \<and> data (bufs s' ! b) = replicate 1024 7"
proof -
  have "can_read fresh_cache 7" by (simp add: can_read_def fresh_cache_free)
  moreover have "bview fresh_cache 7 = replicate 1024 7"
    by (simp add: bview_def fresh_cache_free) (simp add: fresh_cache_def)
  ultimately show ?thesis using bread_returns_current_block [OF fresh_cache_ok, of 7] by auto
qed

end
