(* ===== verification/Printf.thy ===== *)
theory Printf
  imports Console
begin

section \<open>Formatted output (kernel/printf.c)\<close>

text \<open>
  \<^verbatim>\<open>printf\<close> is a rendering of the format string and the arguments to a list of characters, which are
  sent to the console one by one.  An argument is a register, read at the width the directive
  asks for, or a string pointer; a directive without an argument of its kind has no defined
  behaviour and renders to None.  Characters are numbers because \<^verbatim>\<open>consputc\<close> takes an \<^verbatim>\<open>int\<close> (256 is
  its code for a backspace).
\<close>

datatype varg = Reg u64 | Ptr "byte list option"

text \<open>\<^verbatim>\<open>digits[d]\<close>\<close>

definition digit_char :: "nat \<Rightarrow> int" where
  "digit_char d = (if d < 10 then 48 + int d else 87 + int d)"

text \<open>
  The digits of \<open>x\<close>, least significant first, as the loop of \<^verbatim>\<open>printint\<close> stores them into \<^verbatim>\<open>buf\<close>.  Every call
  has base 10 or 16.
\<close>

function digits_of :: "nat \<Rightarrow> nat \<Rightarrow> nat list" where
  "digits_of base x = x mod base # (if 1 < base \<and> x div base \<noteq> 0 then digits_of base (x div base) else [])"
  by pat_completeness auto
termination by (relation "measure snd") (auto simp: div_greater_zero_iff)

declare digits_of.simps [simp del]

definition printint :: "u64 \<Rightarrow> nat \<Rightarrow> bool \<Rightarrow> int list" where
  "printint xx base sign =
     (let neg = (sign \<and> sint xx < 0);
          x = (if neg then - xx else xx)
      in rev (map digit_char (digits_of base (unat x)) @ (if neg then [45] else [])))"

primrec ptr_digits :: "nat \<Rightarrow> u64 \<Rightarrow> int list" where
  "ptr_digits 0 x = []"
| "ptr_digits (Suc n) x = digit_char (unat (drop_bit 60 x)) # ptr_digits n (push_bit 4 x)"

definition printptr :: "u64 \<Rightarrow> int list" where
  "printptr x = 48 # 120 # ptr_digits 16 x"

text \<open>\<^verbatim>\<open>va_arg(ap, int)\<close> and \<^verbatim>\<open>va_arg(ap, uint32)\<close>\<close>

definition arg_int :: "u64 \<Rightarrow> u64" where
  "arg_int w = signed_take_bit 31 w"

definition arg_uint :: "u64 \<Rightarrow> u64" where
  "arg_uint w = take_bit 32 w"

definition with_reg :: "varg list \<Rightarrow> (u64 \<Rightarrow> int list) \<Rightarrow> nat \<Rightarrow> (int list \<times> varg list \<times> nat) option" where
  "with_reg args f skip = (case args of Reg w # rest \<Rightarrow> Some (f w, rest, skip) | _ \<Rightarrow> None)"

text \<open>C string literals\<close>

definition str :: "string \<Rightarrow> byte list" where
  "str cs = map of_char cs"

abbreviation (input) c_d :: byte where "c_d \<equiv> 100"
abbreviation (input) c_l :: byte where "c_l \<equiv> 108"
abbreviation (input) c_u :: byte where "c_u \<equiv> 117"
abbreviation (input) c_x :: byte where "c_x \<equiv> 120"
abbreviation (input) c_p :: byte where "c_p \<equiv> 112"
abbreviation (input) c_c :: byte where "c_c \<equiv> 99"
abbreviation (input) c_s :: byte where "c_s \<equiv> 115"
abbreviation (input) c_pct :: byte where "c_pct \<equiv> 37"

definition null_text :: "byte list" where
  "null_text = str ''(null)''"

text \<open>One directive: its output, the remaining arguments and how far \<^verbatim>\<open>i\<close> is moved on.\<close>

definition directive :: "byte \<Rightarrow> byte \<Rightarrow> byte \<Rightarrow> varg list \<Rightarrow> (int list \<times> varg list \<times> nat) option" where
  "directive c0 c1 c2 args =
     (if c0 = c_d then with_reg args (\<lambda>w. printint (arg_int w) 10 True) 0
      else if c0 = c_l \<and> c1 = c_d then with_reg args (\<lambda>w. printint w 10 True) 1
      else if c0 = c_l \<and> c1 = c_l \<and> c2 = c_d then with_reg args (\<lambda>w. printint w 10 True) 2
      else if c0 = c_u then with_reg args (\<lambda>w. printint (arg_uint w) 10 False) 0
      else if c0 = c_l \<and> c1 = c_u then with_reg args (\<lambda>w. printint w 10 False) 1
      else if c0 = c_l \<and> c1 = c_l \<and> c2 = c_u then with_reg args (\<lambda>w. printint w 10 False) 2
      else if c0 = c_x then with_reg args (\<lambda>w. printint (arg_uint w) 16 False) 0
      else if c0 = c_l \<and> c1 = c_x then with_reg args (\<lambda>w. printint w 16 False) 1
      else if c0 = c_l \<and> c1 = c_l \<and> c2 = c_x then with_reg args (\<lambda>w. printint w 16 False) 2
      else if c0 = c_p then with_reg args printptr 0
      else if c0 = c_c then with_reg args (\<lambda>w. [sint (ucast w :: u32)]) 0
      else if c0 = c_s then
        (case args of Ptr p # rest \<Rightarrow> Some (map uint (case p of None \<Rightarrow> null_text | Some bs \<Rightarrow> bs), rest, 0) | _ \<Rightarrow> None)
      else if c0 = c_pct then Some ([37], args, 0)
      else Some ([37, uint c0], args, 0))"

definition char_at :: "byte list \<Rightarrow> nat \<Rightarrow> byte" where
  "char_at cs i = (if i < length cs then cs ! i else 0)"

function render :: "byte list \<Rightarrow> varg list \<Rightarrow> int list option" where
  "render [] args = Some []"
| "render (cx # cs) args =
     (if cx \<noteq> c_pct then map_option ((#) (uint cx)) (render cs args)
      else
        let c0 = char_at cs 0;
            c1 = (if c0 \<noteq> 0 then char_at cs 1 else 0);
            c2 = (if c1 \<noteq> 0 then char_at cs 2 else 0)
        in if c0 = 0 then Some []
           else case directive c0 c1 c2 args of
                  None \<Rightarrow> None
                | Some (out, args', skip) \<Rightarrow> map_option ((@) out) (render (drop (Suc skip) cs) args'))"
  by pat_completeness auto
termination by (relation "measure (length \<circ> fst)") auto

definition printf :: "byte list \<Rightarrow> varg list \<Rightarrow> ('z console_scheme, int) K" where
  "printf fmt args =
     (case render fmt args of
        None \<Rightarrow> undefK
      | Some out \<Rightarrow> thenK (forK out consputc) (returnK 0))"

text \<open>
  \<^verbatim>\<open>panic\<close> up to the endless loop at its end: the message is printed and the flag \<^verbatim>\<open>panicked\<close> stops
  every other CPU at its next character.
\<close>

definition panic_text :: "byte list" where
  "panic_text = str ''panic: ''"

definition panic_run :: "byte list \<Rightarrow> ('z console_scheme, unit) K" where
  "panic_run msg =
     thenK (modifyK (\<lambda>s. s\<lparr>panicking := True\<rparr>))
    (thenK (printf panic_text [])
    (thenK (printf [c_pct, c_s, 10] [Ptr (Some msg)])
           (modifyK (\<lambda>s. s\<lparr>panicked := True\<rparr>))))"

subsection \<open>Numbers\<close>

text \<open>The number that a list of digits denotes, least significant digit first.\<close>

primrec digits_value :: "nat \<Rightarrow> nat list \<Rightarrow> nat" where
  "digits_value base [] = 0"
| "digits_value base (d # ds) = d + base * digits_value base ds"

lemma digits_of_value: "1 < base \<Longrightarrow> digits_value base (digits_of base x) = x"
proof (induction base x rule: digits_of.induct)
  case (1 base x)
  then show ?case by (subst digits_of.simps) (auto simp: mult.commute div_eq_0_iff)
qed

lemma digits_of_less: "1 < base \<Longrightarrow> d \<in> set (digits_of base x) \<Longrightarrow> d < base"
proof (induction base x rule: digits_of.induct)
  case (1 base x)
  then show ?case by (subst (asm) (2) digits_of.simps) (auto split: if_splits)
qed

lemma length_digits_of: "1 < base \<Longrightarrow> x < base ^ Suc n \<Longrightarrow> length (digits_of base x) \<le> Suc n"
proof (induction n arbitrary: x)
  case 0
  then show ?case by (subst digits_of.simps) simp
next
  case (Suc n)
  have "x div base < base ^ Suc n" using Suc.prems by (simp add: less_mult_imp_div_less mult.commute)
  then show ?case using Suc by (subst digits_of.simps) auto
qed

lemma digits_of_lead: "1 < base \<Longrightarrow> x \<noteq> 0 \<Longrightarrow> last (digits_of base x) \<noteq> 0"
proof (induction base x rule: digits_of.induct)
  case (1 base x)
  show ?case
  proof (cases "x div base = 0")
    case True
    then have "x < base" using 1 by (simp add: div_eq_0_iff)
    then show ?thesis using True 1 by (subst digits_of.simps) simp
  next
    case False
    then show ?thesis using 1 by (subst digits_of.simps) (auto simp: digits_of.simps [of base "x div base"])
  qed
qed

lemma uint_u64: "0 \<le> uint (x :: u64)" "uint x < 2 ^ 64"
  using unsigned_less [of x, where 'a = int] by simp_all

lemma sint_u64: "sint (x :: u64) = (if uint x < 2 ^ 63 then uint x else uint x - 2 ^ 64)"
proof -
  note u = uint_u64 [of x]
  have m: "(uint x + 2 ^ 63) mod 2 ^ 64 = (if uint x < 2 ^ 63 then uint x + 2 ^ 63 else uint x - 2 ^ 63)"
  proof (cases "uint x < 2 ^ 63")
    case False
    have "(uint x + 2 ^ 63) mod 2 ^ 64 = (uint x + 2 ^ 63 - 2 ^ 64) mod 2 ^ 64"
      by (rule minus_mod_self2 [symmetric])
    then show ?thesis using False u by simp
  qed (use u in simp)
  have "sint x = (uint x + 2 ^ 63) mod 2 ^ 64 - 2 ^ 63"
    by (simp add: sint_uint signed_take_bit_eq_take_bit_shift take_bit_eq_mod)
  then show ?thesis unfolding m by simp
qed

lemma uint_neg_sint:
  assumes "sint (x :: u64) < 0"
  shows "uint (- x) = - sint x"
proof -
  note u = uint_u64 [of x]
  have big: "\<not> uint x < 2 ^ 63" using assms u by (simp add: sint_u64 split: if_splits)
  have "uint (- x) = (- uint x) mod 2 ^ 64" by (simp add: uint_word_ariths)
  also have "\<dots> = (- uint x + 2 ^ 64) mod 2 ^ 64" by (rule mod_add_self2 [symmetric])
  also have "\<dots> = 2 ^ 64 - uint x" using u big by (subst mod_pos_pos_trivial) auto
  finally show ?thesis using big by (simp add: sint_u64)
qed

subsection \<open>What reaches the console\<close>

definition cons_bytes :: "int \<Rightarrow> byte list" where
  "cons_bytes c = (if c = BACKSPACE then [8, 32, 8] else [of_int c])"

definition output_only :: "'z console_scheme \<Rightarrow> byte list \<Rightarrow> 'z console_scheme \<Rightarrow> bool" where
  "output_only s bs s' \<longleftrightarrow> (\<exists>t. s' = s\<lparr>uart_tx_idle := t, uart_out := uart_out s @ bs\<rparr>)"

lemma consputc_run: "\<not> panicked s \<Longrightarrow>
    consputc c s = Inr ((), s\<lparr>uart_tx_idle := False, uart_out := uart_out s @ cons_bytes c\<rparr>)"
  by (simp add: consputc_def uartputc_sync_def write_thr_def run_simps cons_bytes_def)

lemma consputs_run:
  "\<not> panicked s \<Longrightarrow> wp (forK out consputc) (\<lambda>_ s'. output_only s (concat (map cons_bytes out)) s') E s"
proof (induction out arbitrary: s)
  case Nil
  show ?case by (auto simp: output_only_def intro!: exI [of _ "uart_tx_idle s"])
next
  case (Cons c out)
  let ?s = "s\<lparr>uart_tx_idle := False, uart_out := uart_out s @ cons_bytes c\<rparr>"
  have "wp (forK out consputc) (\<lambda>_ s'. output_only ?s (concat (map cons_bytes out)) s') E ?s"
    using Cons by simp
  then have "wp (forK out consputc) (\<lambda>_ s'. output_only s (concat (map cons_bytes (c # out))) s') E ?s"
    by (rule wp_mono) (auto simp: output_only_def)
  then show ?case by (simp only: forK.simps wp_then wp_Inr [of "consputc c" s, OF consputc_run [OF Cons.prems]])
qed

lemma printf_run:
  assumes "\<not> panicked s" "render fmt args = Some out"
  shows "wp (printf fmt args) (\<lambda>_ s'. output_only s (concat (map cons_bytes out)) s') E s"
  unfolding printf_def assms(2) option.case wp_then
  by (rule wp_mono [OF consputs_run [OF assms(1)]]) simp

subsection \<open>Properties\<close>

text \<open>
  C34: \<^verbatim>\<open>printint\<close> prints the number it is given: with sign, the decimal text is a minus sign exactly
  for negative numbers followed by digits that denote the absolute value without leading zeros,
  also for the most negative 64-bit number; and the text, at most 20 characters, fits the buffer
  \<^verbatim>\<open>buf[20]\<close> of the function.
\<close>

theorem printint_decimal:
  "\<exists>ds. printint xx 10 True = (if sint xx < 0 then [45] else []) @ map digit_char (rev ds) \<and>
     int (digits_value 10 ds) = \<bar>sint xx\<bar> \<and> (\<forall>d \<in> set ds. d < 10) \<and> (sint xx \<noteq> 0 \<longrightarrow> last ds \<noteq> 0) \<and>
     length (printint xx 10 True) \<le> 20 \<and> length (printint xx 10 False) \<le> 20 \<and> length (printint xx 16 False) \<le> 20"
proof -
  define x where "x = unat (if sint xx < 0 then - xx else xx)"
  let ?ds = "digits_of 10 x"
  have r: "- (2 ^ 63) \<le> sint xx" "sint xx < 2 ^ 63" using sint_greater_eq [of xx] sint_less [of xx] by simp_all
  have pos: "uint xx = sint xx" if "\<not> sint xx < 0"
    using that uint_u64 [of xx] by (simp add: sint_u64 split: if_splits)
  have ix: "int x = \<bar>sint xx\<bar>"
    using uint_neg_sint [of xx] pos by (simp add: x_def)
  have "x < 10 ^ Suc 18" using ix r by simp
  then have len: "length ?ds \<le> 19" using length_digits_of [of 10 x 18] by simp
  have u64: "unat xx < 2 ^ 64" using unat_less_pow(4) [of xx] .
  have "unat xx < 10 ^ Suc 19" "unat xx < 16 ^ Suc 19" using u64 by simp_all
  then have len': "length (digits_of 10 (unat xx)) \<le> 20" "length (digits_of 16 (unat xx)) \<le> 20"
    using length_digits_of [of 10 "unat xx" 19] length_digits_of [of 16 "unat xx" 19] by simp_all
  have out: "printint xx 10 True = (if sint xx < 0 then [45] else []) @ map digit_char (rev ?ds)"
    by (simp add: printint_def x_def rev_map)
  have "int (digits_value 10 ?ds) = \<bar>sint xx\<bar>" using ix by (simp add: digits_of_value)
  moreover have "\<forall>d \<in> set ?ds. d < 10" using digits_of_less [of 10] by simp
  moreover have "sint xx \<noteq> 0 \<longrightarrow> last ?ds \<noteq> 0" using digits_of_lead [of 10 x] ix by auto
  moreover have "length (printint xx 10 True) \<le> 20" using len by (simp add: out)
  moreover have "length (printint xx 10 False) \<le> 20" "length (printint xx 16 False) \<le> 20"
    using len' by (simp_all add: printint_def)
  ultimately show ?thesis using out by blast
qed

theorem printint_decimal_witness:
  "\<exists>ds. printint (- 9223372036854775808) 10 True = [45] @ map digit_char (rev ds) \<and> length ds \<le> 19"
proof -
  have "sint (- 9223372036854775808 :: u64) < 0" by simp
  then show ?thesis using printint_decimal [of "- 9223372036854775808"] by auto
qed

end
