(* ===== verification/Log.thy ===== *)
theory Log
  imports Block_Cache Printf
begin

section \<open>The write-ahead log (kernel/log.c)\<close>

text \<open>
  The state of \<^verbatim>\<open>struct log\<close> extends the state of the buffer cache.  Block numbers are the naturals that
  the 32-bit fields hold; the in-memory header's count is a C \<^verbatim>\<open>int\<close>.  The on-disk header occupies
  block \<open>log_start\<close>: four bytes of count, then the block numbers.  A call that has to wait
  for the log to be committed ends with \<open>Sleep\<close>.
\<close>

record logst = bio +
  log_start :: nat
  log_outstanding :: int
  log_committing :: bool
  log_dev :: nat
  lh_n :: int
  lh_block :: "nat list"

definition hdr_n :: "byte list \<Rightarrow> int" where
  "hdr_n d = sint32 (get_le 4 d 0)"

definition hdr_block :: "byte list \<Rightarrow> nat \<Rightarrow> nat" where
  "hdr_block d i = get_le 4 d (4 + 4 * i)"

text \<open>An assignment \<^verbatim>\<open>log.lh.block[i] = v\<close>.\<close>

definition set_lh_block :: "nat \<Rightarrow> nat \<Rightarrow> ('z logst_scheme, unit) K" where
  "set_lh_block i v = (if i < LOGBLOCKS then modifyK (\<lambda>s. s\<lparr>lh_block := (lh_block s)[i := v]\<rparr>) else undefK)"

definition read_head :: "('z logst_scheme, unit) K" where
  "read_head =
     bindK (getsK (\<lambda>s. (log_dev s, log_start s))) (\<lambda>(d, start).
     bindK (bread d start) (\<lambda>b.
     bindK (get_data b) (\<lambda>lh.
     thenK (modifyK (\<lambda>s. s\<lparr>lh_n := hdr_n lh\<rparr>))
    (thenK (forK [0..<nat (hdr_n lh)] (\<lambda>i. set_lh_block i (hdr_block lh i)))
           (brelse b)))))"

text \<open>The header block with the in-memory header stored into it.\<close>

definition fill_head :: "int \<Rightarrow> nat list \<Rightarrow> byte list \<Rightarrow> byte list" where
  "fill_head n blocks d =
     fold (\<lambda>i d. put_le 4 (4 + 4 * i) (blocks ! i) d) [0..<nat n] (put_le 4 0 (nat (n mod 2 ^ 32)) d)"

definition write_head :: "('z logst_scheme, unit) K" where
  "write_head =
     bindK (getsK (\<lambda>s. (log_dev s, log_start s, lh_n s, lh_block s))) (\<lambda>(d, start, n, blocks).
     bindK (bread d start) (\<lambda>b.
     bindK (get_data b) (\<lambda>hb.
     thenK (put_data b (fill_head n blocks hb)) (thenK (bwrite b) (brelse b)))))"

definition recover_text :: "byte list" where
  "recover_text = str ''recovering tail %d dst %d'' @ [10]"

definition install_trans :: "bool \<Rightarrow> ('z logst_scheme, unit) K" where
  "install_trans recovering =
     bindK (getsK (\<lambda>s. (log_dev s, log_start s, lh_n s, lh_block s))) (\<lambda>(d, start, n, blocks).
     forK [0..<nat n] (\<lambda>tail.
       thenK (whenK recovering
         (thenK (printf recover_text [Reg (of_nat tail), Reg (of_nat (blocks ! tail))]) (returnK ())))
      (bindK (bread d (start + tail + 1)) (\<lambda>lbuf.
       bindK (bread d (blocks ! tail)) (\<lambda>dbuf.
       bindK (get_data lbuf) (\<lambda>x.
       thenK (put_data dbuf x)
      (thenK (bwrite dbuf)
      (thenK (whenK (\<not> recovering) (bunpin dbuf))
      (thenK (brelse lbuf) (brelse dbuf))))))))))"

definition recover_from_log :: "('z logst_scheme, unit) K" where
  "recover_from_log =
     thenK read_head
    (thenK (install_trans True)
    (thenK (modifyK (\<lambda>s. s\<lparr>lh_n := 0\<rparr>)) write_head))"

text \<open>\<^verbatim>\<open>sizeof(struct logheader)\<close> is 124, below \<^verbatim>\<open>BSIZE\<close>, so the panic of \<^verbatim>\<open>initlog\<close> is compiled away.\<close>

definition initlog :: "nat \<Rightarrow> nat \<Rightarrow> ('z logst_scheme, unit) K" where
  "initlog d logstart =
     thenK (modifyK (\<lambda>s. s\<lparr>log_start := logstart, log_dev := d\<rparr>)) recover_from_log"

definition begin_op :: "('z logst_scheme, unit) K" where
  "begin_op =
     bindK (getsK (\<lambda>s. (log_committing s, lh_n s, log_outstanding s))) (\<lambda>(committing, n, outstanding).
     if committing then sleepK ''log''
     else if n + (outstanding + 1) * int MAXOPBLOCKS > int LOGBLOCKS then sleepK ''log''
     else modifyK (\<lambda>s. s\<lparr>log_outstanding := log_outstanding s + 1\<rparr>))"

definition write_log :: "('z logst_scheme, unit) K" where
  "write_log =
     bindK (getsK (\<lambda>s. (log_dev s, log_start s, lh_n s, lh_block s))) (\<lambda>(d, start, n, blocks).
     forK [0..<nat n] (\<lambda>tail.
       bindK (bread d (start + tail + 1)) (\<lambda>to.
       bindK (bread d (blocks ! tail)) (\<lambda>from.
       bindK (get_data from) (\<lambda>x.
       thenK (put_data to x) (thenK (bwrite to) (thenK (brelse from) (brelse to))))))))"

definition commit :: "('z logst_scheme, unit) K" where
  "commit =
     bindK (getsK lh_n) (\<lambda>n.
     whenK (n > 0)
      (thenK write_log
      (thenK write_head
      (thenK (install_trans False)
      (thenK (modifyK (\<lambda>s. s\<lparr>lh_n := 0\<rparr>)) write_head)))))"

definition log_chan :: chan where "log_chan = (''log'', 0)"

definition end_op :: "('z logst_scheme, unit) K" where
  "end_op =
     thenK (modifyK (\<lambda>s. s\<lparr>log_outstanding := log_outstanding s - 1\<rparr>))
    (bindK (getsK (\<lambda>s. (log_committing s, log_outstanding s))) (\<lambda>(committing, outstanding).
     if committing then panic ''log.committing''
     else if outstanding = 0 then
       thenK (modifyK (\<lambda>s. s\<lparr>log_committing := True\<rparr>))
      (thenK commit
      (thenK (modifyK (\<lambda>s. s\<lparr>log_committing := False\<rparr>)) (wakeup log_chan)))
     else wakeup log_chan))"

definition log_write :: "nat \<Rightarrow> ('z logst_scheme, unit) K" where
  "log_write b =
     bindK (getsK (\<lambda>s. (lh_n s, log_outstanding s, lh_block s, blockno (bufs s ! b)))) (\<lambda>(n, outstanding, blocks, bn).
     if n \<ge> int LOGBLOCKS then panic ''too big a transaction''
     else if outstanding < 1 then panic ''log_write outside of trans''
     else
       let i = (case find_index (\<lambda>x. x = bn) (take (nat n) blocks) of Some i \<Rightarrow> i | None \<Rightarrow> nat n)
       in thenK (set_lh_block i bn)
            (whenK (int i = n) (thenK (bpin b) (modifyK (\<lambda>s. s\<lparr>lh_n := lh_n s + 1\<rparr>)))))"

end
