(* ===== verification/Log_Spec.thy ===== *)
theory Log_Spec
  imports Log
begin

section \<open>What the log routines write\<close>

text \<open>
  Each routine of the log is described by the list of blocks it writes, in order.  The lists are
  what a crash cuts short, so the crash theorems are statements about their prefixes.
\<close>

type_synonym diskmap = "nat \<Rightarrow> byte list"

definition dapply :: "(nat \<times> byte list) list \<Rightarrow> diskmap \<Rightarrow> diskmap" where
  "dapply ws d = fold (\<lambda>(b, x) d. d(b := x)) ws d"

lemma dapply_Nil [simp]: "dapply [] d = d"
  by (simp add: dapply_def)

lemma dapply_append: "dapply (ws @ ws') d = dapply ws' (dapply ws d)"
  by (simp add: dapply_def)

lemma dapply_single [simp]: "dapply [(b, x)] d = d(b := x)"
  by (simp add: dapply_def)

lemma dapply_other: "b \<notin> fst ` set ws \<Longrightarrow> dapply ws d b = d b"
proof (induction ws rule: rev_induct)
  case (snoc w ws)
  then show ?case by (cases w) (auto simp: dapply_append)
qed simp

lemma dapply_map:
  assumes "distinct (map f xs)" "x \<in> set xs"
  shows "dapply (map (\<lambda>x. (f x, g x)) xs) d (f x) = g x"
  using assms
proof (induction xs rule: rev_induct)
  case (snoc y xs)
  show ?case
  proof (cases "x = y")
    case True
    then show ?thesis by (simp add: dapply_append)
  next
    case False
    then have x: "x \<in> set xs" using snoc.prems by auto
    then have "f x \<in> f ` set xs" by simp
    then have "f x \<noteq> f y" using snoc.prems(1) by (simp del: image_eqI) metis
    then show ?thesis using snoc x by (simp add: dapply_append)
  qed
qed simp

lemma dapply_idem:
  assumes "distinct (map f xs)"
  shows "dapply (map (\<lambda>x. (f x, g x)) xs) (dapply (take k (map (\<lambda>x. (f x, g x)) xs)) d) = dapply (map (\<lambda>x. (f x, g x)) xs) d"
proof
  fix b
  show "dapply (map (\<lambda>x. (f x, g x)) xs) (dapply (take k (map (\<lambda>x. (f x, g x)) xs)) d) b = dapply (map (\<lambda>x. (f x, g x)) xs) d b"
  proof (cases "b \<in> f ` set xs")
    case True
    then show ?thesis using dapply_map [OF assms] by auto
  next
    case False
    then have "b \<notin> fst ` set (map (\<lambda>x. (f x, g x)) xs)" by auto
    moreover have "b \<notin> fst ` set (take k (map (\<lambda>x. (f x, g x)) xs))"
      using calculation set_take_subset [of k "map (\<lambda>x. (f x, g x)) xs"] by blast
    ultimately show ?thesis by (simp add: dapply_other)
  qed
qed

subsection \<open>The header block\<close>

lemma fill_head_props:
  assumes len: "length d = 1024" and n: "m \<le> 30" and bs: "\<And>i. i < m \<Longrightarrow> blocks ! i < 2 ^ 32"
  shows "length (fold (\<lambda>i d. put_le 4 (4 + 4 * i) (blocks ! i) d) [0..<m] d) = 1024 \<and>
    get_le 4 (fold (\<lambda>i d. put_le 4 (4 + 4 * i) (blocks ! i) d) [0..<m] d) 0 = get_le 4 d 0 \<and>
    (\<forall>i < m. hdr_block (fold (\<lambda>i d. put_le 4 (4 + 4 * i) (blocks ! i) d) [0..<m] d) i = blocks ! i)"
  using n bs
proof (induction m)
  case 0
  then show ?case using len by simp
next
  case (Suc m)
  let ?d = "fold (\<lambda>i d. put_le 4 (4 + 4 * i) (blocks ! i) d) [0..<m] d"
  have ih: "length ?d = 1024" "get_le 4 ?d 0 = get_le 4 d 0" "\<forall>i < m. hdr_block ?d i = blocks ! i"
    using Suc by auto
  let ?d' = "put_le 4 (4 + 4 * m) (blocks ! m) ?d"
  have "hdr_block ?d' i = blocks ! i" if "i < Suc m" for i
  proof (cases "i = m")
    case True
    then show ?thesis using ih(1) Suc.prems by (simp add: hdr_block_def)
  next
    case False
    then show ?thesis using that ih(1,3) Suc.prems by (auto simp: hdr_block_def get_put_le_other)
  qed
  moreover have "get_le 4 ?d' 0 = get_le 4 d 0" using ih(1,2) Suc.prems by (simp add: get_put_le_other)
  ultimately show ?case using ih(1) Suc.prems by simp
qed

lemma fill_head:
  assumes "length d = 1024" "0 \<le> n" "n \<le> 30" "\<And>i. i < nat n \<Longrightarrow> blocks ! i < 2 ^ 32"
  shows "length (fill_head n blocks d) = 1024" "hdr_n (fill_head n blocks d) = n"
    "i < nat n \<Longrightarrow> hdr_block (fill_head n blocks d) i = blocks ! i"
proof -
  let ?d = "put_le 4 0 (nat (n mod 2 ^ 32)) d"
  have "length ?d = 1024" using assms(1) by simp
  note f = fill_head_props [OF this, of "nat n" blocks]
  show "length (fill_head n blocks d) = 1024" using f assms by (simp add: fill_head_def)
  have "get_le 4 ?d 0 = nat n" using assms(1-3) by simp
  then show "hdr_n (fill_head n blocks d) = n" using f assms by (simp add: fill_head_def hdr_n_def)
  show "i < nat n \<Longrightarrow> hdr_block (fill_head n blocks d) i = blocks ! i"
    using f assms by (simp add: fill_head_def)
qed

subsection \<open>Sequences of writes through the cache\<close>

definition wr_all :: "(nat \<times> byte list) list \<Rightarrow> cache \<Rightarrow> cache" where
  "wr_all ws a = a\<lparr>cview := dapply ws (cview a), cdisk := dapply ws (cdisk a), cwrites := cwrites a @ ws\<rparr>"

lemma wr_all_Nil [simp]: "wr_all [] a = a"
  by (simp add: wr_all_def)

lemma wr_all_append: "wr_all (ws @ ws') a = wr_all ws' (wr_all ws a)"
  by (simp add: wr_all_def dapply_append)

lemma wr_all_single: "wr_all [(b, x)] a = cflush b (cput b x a)"
  by (simp add: wr_all_def cache_ops)

lemma wr_all_sel [simp]: "crefs (wr_all ws a) = crefs a" "clocked (wr_all ws a) = clocked a"
  "cview (wr_all ws a) = dapply ws (cview a)" "cdisk (wr_all ws a) = dapply ws (cdisk a)"
  by (simp_all add: wr_all_def)

lemma can_wr_all [simp]: "can_acquire (wr_all ws a) bn = can_acquire a bn"
  by (simp add: can_acquire_def cused_def)

lemma thenK_assoc: "thenK (thenK f g) h = thenK f (thenK g h)"
  by (simp add: thenK_def bindK_assoc)

text \<open>A loop over an index, with an invariant for each iteration.\<close>

lemma wp_forK_upt:
  assumes "\<And>t s. t < n \<Longrightarrow> I t s \<Longrightarrow> wp (f t) (\<lambda>_. I (Suc t)) E s" and "I 0 s"
  shows "wp (forK [0..<n] f) (\<lambda>_. I n) E s"
proof -
  have "wp (forK [m..<n] f) (\<lambda>_. I n) E s" if "I m s" "m \<le> n" for m s
    using that
  proof (induction "n - m" arbitrary: m s)
    case 0
    then show ?case by simp
  next
    case (Suc k)
    then have "m < n" by simp
    then have e: "[m..<n] = m # [Suc m..<n]" by (rule upt_conv_Cons)
    show ?case unfolding e forK.simps wp_then
      by (rule wp_mono [OF assms(1) [OF \<open>m < n\<close> Suc.prems(1)]]) (use Suc \<open>m < n\<close> in simp)
  qed
  then show ?thesis using assms(2) by simp
qed

subsection \<open>The state of the log\<close>

definition log_area :: "nat \<Rightarrow> nat set" where
  "log_area st = {st..st + LOGBLOCKS}"

definition logged :: "'z logst_scheme \<Rightarrow> nat list" where
  "logged s = take (nat (lh_n s)) (lh_block s)"

text \<open>
  Between calls: the logged blocks are distinct, lie outside the log area, and are pinned in the
  cache.
\<close>

definition log_ok :: "'z logst_scheme \<Rightarrow> bool" where
  "log_ok s \<longleftrightarrow> bio_ok s \<and> log_dev s = ROOTDEV \<and> 0 \<le> lh_n s \<and> lh_n s \<le> int LOGBLOCKS \<and> length (lh_block s) = LOGBLOCKS \<and>
     distinct (logged s) \<and> set (logged s) \<inter> log_area (log_start s) = {} \<and> (\<forall>b \<in> set (logged s). b < 2 ^ 32 \<and> 0 < refs s b)"

lemma cache_frame_log:
  assumes "cache_frame s s'"
  shows "log_start s' = log_start s" "log_outstanding s' = log_outstanding s" "log_committing s' = log_committing s"
    "log_dev s' = log_dev s" "lh_n s' = lh_n s" "lh_block s' = lh_block s" "logged s' = logged s" "panicked s' = panicked s"
  using assms by (auto simp: cache_frame_def logged_def)

lemma logged_nth:
  assumes "log_ok s" "t < nat (lh_n s)"
  shows "lh_block s ! t \<in> set (logged s)" "lh_block s ! t \<notin> log_area (log_start s)" "lh_block s ! t < 2 ^ 32"
    "0 < refs s (lh_block s ! t)" "log_start s + t + 1 \<in> log_area (log_start s)"
proof -
  have "nat (lh_n s) \<le> 30" using assms(1) by (simp add: log_ok_def nat_le_iff)
  then have "t < length (logged s)" using assms by (simp add: logged_def log_ok_def)
  then show m: "lh_block s ! t \<in> set (logged s)" using assms(2) by (auto simp: logged_def in_set_conv_nth)
  then show "lh_block s ! t \<notin> log_area (log_start s)" "lh_block s ! t < 2 ^ 32" "0 < refs s (lh_block s ! t)"
    using assms(1) by (auto simp: log_ok_def)
  show "log_start s + t + 1 \<in> log_area (log_start s)" using assms by (auto simp: log_area_def log_ok_def)
qed

text \<open>The writes of \<^verbatim>\<open>write_log\<close>, of \<^verbatim>\<open>install_trans\<close> and of \<^verbatim>\<open>commit\<close>.\<close>

definition log_writes :: "'z logst_scheme \<Rightarrow> nat \<Rightarrow> (nat \<times> byte list) list" where
  "log_writes s n = map (\<lambda>t. (log_start s + t + 1, bview s (lh_block s ! t))) [0..<n]"

definition home_writes :: "'z logst_scheme \<Rightarrow> nat \<Rightarrow> (nat \<times> byte list) list" where
  "home_writes s n = map (\<lambda>t. (lh_block s ! t, bview s (lh_block s ! t))) [0..<n]"

lemma write_log_spec:
  assumes ok: "log_ok s" and nl: "\<And>b. \<not> blocked s b" and room: "card (in_use s) < 30"
  shows "wp write_log (\<lambda>_ s'. bio_ok s' \<and> cache_frame s s' \<and>
    cache_of s' = wr_all (log_writes s (nat (lh_n s))) (cache_of s)) (\<lambda>_. False) s"
proof -
  have dev: "log_dev s = 1" and bok: "bio_ok s" using ok by (simp_all add: log_ok_def)
  let ?I = "\<lambda>t s'. bio_ok s' \<and> cache_frame s s' \<and> cache_of s' = wr_all (log_writes s t) (cache_of s)"
  have "wp (forK [0..<nat (lh_n s)] (\<lambda>tail.
       bindK (bread 1 (log_start s + tail + 1)) (\<lambda>to.
       bindK (bread 1 (lh_block s ! tail)) (\<lambda>from.
       bindK (get_data from) (\<lambda>x.
       thenK (put_data to x) (thenK (bwrite to) (thenK (brelse from) (brelse to))))))))
     (\<lambda>_. ?I (nat (lh_n s))) (\<lambda>_. False) s"
  proof (rule wp_forK_upt)
    fix t s' assume t: "t < nat (lh_n s)" and I: "?I t s'"
    let ?l = "log_start s + t + 1" and ?h = "lh_block s ! t"
    note lg = logged_nth [OF ok t]
    have can: "can_acquire (cache_of s') ?l" using I nl room by (simp add: can_read_def)
    have h: "?h \<noteq> ?l" "\<not> clocked (cache_of s') ?h" "0 < crefs (cache_of s') ?h"
      using I lg nl by (auto simp: cache_of_sel)
    have "?h \<notin> fst ` set (log_writes s t)"
      using lg(2) t ok by (auto simp: log_writes_def log_area_def log_ok_def)
    then have v: "cview (cache_of s') ?h = bview s ?h" using I by (simp add: dapply_other cache_of_sel)
    show "wp (bindK (bread 1 ?l) (\<lambda>to. bindK (bread 1 ?h) (\<lambda>from. bindK (get_data from) (\<lambda>x.
       thenK (put_data to x) (thenK (bwrite to) (thenK (brelse from) (brelse to))))))) (\<lambda>_. ?I (Suc t)) (\<lambda>_. False) s'"
      by (rule wp_mono [OF bc.copy_out [OF _ can h]])
        (use I v cache_frame_trans in \<open>auto simp: log_writes_def wr_all_append wr_all_single\<close>)
  qed (use bok in \<open>simp add: log_writes_def\<close>)
  then show ?thesis by (simp only: write_log_def wp_bind [of "getsK _"] wp_gets prod.case dev)
qed

lemma write_head_spec:
  assumes ok: "bio_ok s" and dev: "log_dev s = ROOTDEV" and can: "can_read s (log_start s)"
    and n: "0 \<le> lh_n s" "lh_n s \<le> int LOGBLOCKS" "\<And>i. i < nat (lh_n s) \<Longrightarrow> lh_block s ! i < 2 ^ 32"
  shows "wp write_head (\<lambda>_ s'. bio_ok s' \<and> cache_frame s s' \<and>
    cache_of s' = wr_all [(log_start s, fill_head (lh_n s) (lh_block s) (bview s (log_start s)))] (cache_of s)) (\<lambda>_. False) s"
proof -
  have len: "length (fill_head (lh_n s) (lh_block s) (cview (cache_of s) (log_start s))) = 1024"
    using fill_head(1) [OF length_bview [OF ok]] n by (simp add: cache_of_sel)
  have can': "can_acquire (cache_of s) (log_start s)" using can by simp
  have "wp (bindK (bread 1 (log_start s)) (\<lambda>b. bindK (get_data b) (\<lambda>hb.
     thenK (put_data b (fill_head (lh_n s) (lh_block s) hb)) (thenK (bwrite b) (brelse b)))))
    (\<lambda>_ s'. bio_ok s' \<and> cache_frame s s' \<and>
    cache_of s' = wr_all [(log_start s, fill_head (lh_n s) (lh_block s) (bview s (log_start s)))] (cache_of s)) (\<lambda>_. False) s"
    by (rule wp_mono [OF bc.store_block [OF ok can', of "fill_head (lh_n s) (lh_block s)", OF len]]) (simp add: wr_all_single cache_of_sel)
  then show ?thesis by (simp only: write_head_def wp_bind [of "getsK _"] wp_gets prod.case dev)
qed

text \<open>Dropping the pins of a list of blocks.\<close>

definition unpin_all :: "nat set \<Rightarrow> cache \<Rightarrow> cache" where
  "unpin_all B a = a\<lparr>crefs := (\<lambda>b. crefs a b - (if b \<in> B then 1 else 0))\<rparr>"

lemma unpin_all_sel [simp]: "cview (unpin_all B a) = cview a" "cdisk (unpin_all B a) = cdisk a"
  "clocked (unpin_all B a) = clocked a" "cwrites (unpin_all B a) = cwrites a"
  "crefs (unpin_all B a) b = crefs a b - (if b \<in> B then 1 else 0)"
  by (simp_all add: unpin_all_def)

lemma unpin_all_empty [simp]: "unpin_all {} a = a"
  by (simp add: unpin_all_def)

lemma cused_unpin: "(\<And>b. 0 \<le> crefs a b) \<Longrightarrow> cused (unpin_all B a) \<subseteq> cused a"
  by (auto simp: cused_def split: if_splits)

lemma install_step:
  assumes "h \<notin> B"
  shows "cpin h (- 1) (cflush h (cput h x (unpin_all B (wr_all ws a)))) = unpin_all (insert h B) (wr_all (ws @ [(h, x)]) a)"
  using assms by (auto simp: cache_ops unpin_all_def wr_all_def dapply_append fun_eq_iff)

lemma install_trans_spec:
  assumes ok: "log_ok s" and nl: "\<And>b. \<not> blocked s b" and room: "card (in_use s) < 30"
    and lg: "\<And>t. t < nat (lh_n s) \<Longrightarrow> bview s (log_start s + t + 1) = bview s (lh_block s ! t)"
  shows "wp (install_trans False) (\<lambda>_ s'. bio_ok s' \<and> cache_frame s s' \<and>
    cache_of s' = unpin_all (set (logged s)) (wr_all (home_writes s (nat (lh_n s))) (cache_of s))) (\<lambda>_. False) s"
proof -
  have dev: "log_dev s = 1" and bok: "bio_ok s" using ok by (simp_all add: log_ok_def)
  have n: "nat (lh_n s) \<le> 30" using ok by (simp add: log_ok_def nat_le_iff)
  let ?B = "\<lambda>t. set (take t (lh_block s))"
  let ?I = "\<lambda>t s'. bio_ok s' \<and> cache_frame s s' \<and> cache_of s' = unpin_all (?B t) (wr_all (home_writes s t) (cache_of s))"
  have "wp (forK [0..<nat (lh_n s)] (\<lambda>tail.
       thenK (whenK False
         (thenK (printf recover_text [Reg (of_nat tail), Reg (of_nat (lh_block s ! tail))]) (returnK ())))
      (bindK (bread 1 (log_start s + tail + 1)) (\<lambda>lbuf. bindK (bread 1 (lh_block s ! tail)) (\<lambda>dbuf.
       bindK (get_data lbuf) (\<lambda>x. thenK (put_data dbuf x) (thenK (bwrite dbuf)
      (thenK (whenK (\<not> False) (bunpin dbuf)) (thenK (brelse lbuf) (brelse dbuf))))))))))
     (\<lambda>_. ?I (nat (lh_n s))) (\<lambda>_. False) s"
  proof (rule wp_forK_upt)
    fix t s' assume t: "t < nat (lh_n s)" and I: "?I t s'"
    let ?l = "log_start s + t + 1" and ?h = "lh_block s ! t"
    note f = logged_nth [OF ok t]
    have t30: "t < length (lh_block s)" using t n ok by (simp add: log_ok_def)
    have new: "?h \<notin> ?B t"
    proof
      assume "?h \<in> ?B t"
      then obtain u where "u < t" "lh_block s ! u = ?h" using t30 by (auto simp: in_set_conv_nth)
      moreover have "distinct (logged s)" using ok by (simp add: log_ok_def)
      ultimately show False using t t30 by (auto simp: logged_def distinct_conv_nth)
    qed
    have sub: "?B t \<subseteq> set (logged s)" using t by (simp add: logged_def set_take_subset_set_take)
    have l: "?l \<notin> ?B t" using sub f(5) ok by (auto simp: log_ok_def)
    have lw: "?l \<notin> fst ` set (home_writes s t)"
    proof
      assume "?l \<in> fst ` set (home_writes s t)"
      then obtain u where "u < t" "lh_block s ! u = ?l" by (auto simp: home_writes_def)
      then show False using logged_nth(2) [OF ok, of u] f(5) t by simp
    qed
    have v: "cview (cache_of s') ?l = bview s ?h" using I lw lg [OF t] by (simp add: dapply_other cache_of_sel)
    have "cused (cache_of s') \<subseteq> in_use s"
      using cused_unpin [of "wr_all (home_writes s t) (cache_of s)" "?B t"] refs_nonneg [OF bok] I
      by (simp add: cused_def in_use_def cache_of_sel)
    then have "card (cused (cache_of s')) < 30" using card_mono [OF finite_in_use] room by (meson le_less_trans)
    then have can: "can_acquire (cache_of s') ?l" using I nl by (simp add: can_acquire_def cache_of_sel)
    have h: "?h \<noteq> ?l" "\<not> clocked (cache_of s') ?h" "0 < crefs (cache_of s') ?h"
      using I f nl new by (auto simp: cache_of_sel)
    have B: "?B (Suc t) = insert ?h (?B t)" using t30 by (simp add: take_Suc_conv_app_nth)
    have hw: "home_writes s (Suc t) = home_writes s t @ [(?h, bview s ?h)]" by (simp add: home_writes_def)
    show "wp (thenK (whenK False
         (thenK (printf recover_text [Reg (of_nat t), Reg (of_nat ?h)]) (returnK ())))
      (bindK (bread 1 ?l) (\<lambda>lbuf. bindK (bread 1 ?h) (\<lambda>dbuf.
       bindK (get_data lbuf) (\<lambda>x. thenK (put_data dbuf x) (thenK (bwrite dbuf)
      (thenK (whenK (\<not> False) (bunpin dbuf)) (thenK (brelse lbuf) (brelse dbuf))))))))) (\<lambda>_. ?I (Suc t)) (\<lambda>_. False) s'"
      unfolding wp_then [of "whenK False _"] wp_when if_False
      by (rule wp_mono [OF bc.copy_home [OF _ can h(1,2), of "\<not> False"]])
        (use I v h(3) cache_frame_trans install_step [OF new] in \<open>auto simp: B hw\<close>)
  qed (use bok in \<open>simp add: home_writes_def\<close>)
  then show ?thesis by (simp only: install_trans_def wp_bind [of "getsK _"] wp_gets prod.case dev logged_def)
qed

lemma log_fields_cache [simp]:
  "cache_of (s\<lparr>lh_n := n\<rparr>) = cache_of s" "bio_ok (s\<lparr>lh_n := n\<rparr>) = bio_ok s"
  "can_read (s\<lparr>lh_n := n\<rparr>) b = can_read s b" "bview (s\<lparr>lh_n := n\<rparr>) = bview s"
proof -
  note c = cache_fields_cong [of "s\<lparr>lh_n := n\<rparr>" s]
  show "cache_of (s\<lparr>lh_n := n\<rparr>) = cache_of s" using c by (simp add: cache_of_def)
  show "bio_ok (s\<lparr>lh_n := n\<rparr>) = bio_ok s" "bview (s\<lparr>lh_n := n\<rparr>) = bview s" using c by simp_all
  show "can_read (s\<lparr>lh_n := n\<rparr>) b = can_read s b" using c by (simp add: can_read_def in_use_def)
qed

lemma cache_frame_lh:
  "cache_frame s s' \<Longrightarrow> cache_frame (s\<lparr>lh_n := n\<rparr>) (s'\<lparr>lh_n := n\<rparr>)"
  by (cases s) (auto simp: cache_frame_def)

lemma log_ok_frame:
  assumes "log_ok s" "cache_frame s s'" "bio_ok s'" "refs s' = refs s"
  shows "log_ok s'"
  using assms by (simp add: log_ok_def cache_frame_log)

lemma cache_of_views:
  assumes "cache_of s' = a"
  shows "bview s' = cview a" "disk s' = cdisk a" "dwrites s' = cwrites a" "refs s' = crefs a" "blocked s' = clocked a"
  using assms by (auto simp: cache_of_sel)

lemma in_use_refs: "in_use s = {b. 0 < refs s b}"
  by (simp add: in_use_def)

definition commit_head :: "'z logst_scheme \<Rightarrow> byte list" where
  "commit_head s = fill_head (lh_n s) (lh_block s) (bview s (log_start s))"

definition commit_writes :: "'z logst_scheme \<Rightarrow> (nat \<times> byte list) list" where
  "commit_writes s = log_writes s (nat (lh_n s)) @ [(log_start s, commit_head s)] @
     home_writes s (nat (lh_n s)) @ [(log_start s, fill_head 0 (lh_block s) (commit_head s))]"

lemma log_writes_fst: "fst ` set (log_writes s n) = {log_start s + 1..log_start s + n}"
proof -
  have "b \<in> (\<lambda>t. log_start s + t + 1) ` {0..<n}" if "log_start s + 1 \<le> b" "b \<le> log_start s + n" for b
    using that by (intro image_eqI [where x = "b - log_start s - 1"]) auto
  then have "(\<lambda>t. log_start s + t + 1) ` {0..<n} = {log_start s + 1..log_start s + n}" by auto
  then show ?thesis by (simp add: log_writes_def image_image)
qed

lemma home_writes_fst: "log_ok s \<Longrightarrow> fst ` set (home_writes s (nat (lh_n s))) = set (logged s)"
  by (simp add: home_writes_def logged_def log_ok_def image_image nth_image nat_le_iff)

lemma logged_distinct: "log_ok s \<Longrightarrow> distinct (map ((!) (lh_block s)) [0..<nat (lh_n s)])"
proof -
  assume ok: "log_ok s"
  have "nat (lh_n s) \<le> length (lh_block s)" using ok by (simp add: log_ok_def nat_le_iff)
  then have "map ((!) (lh_block s)) [0..<nat (lh_n s)] = logged s"
    by (intro nth_equalityI) (simp_all add: logged_def)
  then show ?thesis using ok by (simp add: log_ok_def)
qed

text \<open>The first half of \<^verbatim>\<open>commit\<close>, up to and including the commit point.\<close>

lemma commit_first:
  assumes ok: "log_ok s" and nl: "\<And>b. \<not> blocked s b" and room: "card (in_use s) < 30"
  shows "wp (thenK write_log write_head) (\<lambda>_ s'. log_ok s' \<and> cache_frame s s' \<and>
    cache_of s' = wr_all (log_writes s (nat (lh_n s)) @ [(log_start s, commit_head s)]) (cache_of s)) (\<lambda>_. False) s"
  unfolding wp_then
proof (rule wp_mono [OF write_log_spec [OF ok nl room]])
  fix s1 assume "bio_ok s1 \<and> cache_frame s s1 \<and> cache_of s1 = wr_all (log_writes s (nat (lh_n s))) (cache_of s)"
  then have s1: "bio_ok s1" "cache_frame s s1" "cache_of s1 = wr_all (log_writes s (nat (lh_n s))) (cache_of s)" by simp_all
  note f = cache_frame_log [OF s1(2)] and v = cache_of_views [OF s1(3)]
  have r: "refs s1 = refs s" using v by (simp add: cache_of_sel)
  note ok1 = log_ok_frame [OF ok s1(2,1) r]
  have can: "can_read s1 (log_start s1)"
    using v nl room r by (simp add: can_read_def in_use_def cache_of_sel)
  have "log_start s \<notin> fst ` set (log_writes s (nat (lh_n s)))" by (simp add: log_writes_fst)
  then have "bview s1 (log_start s) = bview s (log_start s)" using v by (simp add: dapply_other cache_of_sel)
  then have hd: "fill_head (lh_n s1) (lh_block s1) (bview s1 (log_start s1)) = commit_head s"
    by (simp add: f commit_head_def)
  have n: "log_dev s1 = 1" "0 \<le> lh_n s1" "lh_n s1 \<le> int 30" using ok1 by (simp_all add: log_ok_def)
  show "wp write_head (\<lambda>_ s'. log_ok s' \<and> cache_frame s s' \<and>
    cache_of s' = wr_all (log_writes s (nat (lh_n s)) @ [(log_start s, commit_head s)]) (cache_of s)) (\<lambda>_. False) s1"
  proof (rule wp_mono [OF write_head_spec [OF s1(1) n(1) can n(2,3) logged_nth(3) [OF ok1]]])
    fix s2 assume s2: "bio_ok s2 \<and> cache_frame s1 s2 \<and>
       cache_of s2 = wr_all [(log_start s1, fill_head (lh_n s1) (lh_block s1) (bview s1 (log_start s1)))] (cache_of s1)"
    then have "refs s2 = refs s1" using cache_of_views(4) [of s2] by (simp add: cache_of_sel)
    then show "log_ok s2 \<and> cache_frame s s2 \<and>
        cache_of s2 = wr_all (log_writes s (nat (lh_n s)) @ [(log_start s, commit_head s)]) (cache_of s)"
      using s2 log_ok_frame [OF ok1] cache_frame_trans [OF s1(2)] by (simp add: hd [unfolded f] f s1(3) wr_all_append)
  qed
qed

lemma commit_views:
  assumes ok: "log_ok s" and t: "t < nat (lh_n s)"
    and v: "v = dapply (log_writes s (nat (lh_n s)) @ [(log_start s, x)]) (bview s)"
  shows "v (log_start s + t + 1) = bview s (lh_block s ! t)" "v (lh_block s ! t) = bview s (lh_block s ! t)"
    "v (log_start s) = x"
proof -
  let ?f = "\<lambda>t. log_start s + t + 1"
  have "distinct (map ?f [0..<nat (lh_n s)])" by (simp add: distinct_map inj_on_def)
  then have "dapply (log_writes s (nat (lh_n s))) (bview s) (?f t) = bview s (lh_block s ! t)"
    using dapply_map [of ?f "[0..<nat (lh_n s)]" t "\<lambda>t. bview s (lh_block s ! t)"] t by (simp add: log_writes_def)
  then show "v (log_start s + t + 1) = bview s (lh_block s ! t)" by (simp add: v dapply_append)
  have n: "nat (lh_n s) \<le> 30" using ok by (simp add: log_ok_def nat_le_iff)
  have "lh_block s ! t \<notin> fst ` set (log_writes s (nat (lh_n s)) @ [(log_start s, x)])"
    using logged_nth(2) [OF ok t] n log_writes_fst [of s "nat (lh_n s)"] by (auto simp: log_area_def image_Un)
  then show "v (lh_block s ! t) = bview s (lh_block s ! t)" by (simp add: v dapply_other)
  show "v (log_start s) = x" by (simp add: v dapply_append)
qed

lemma unpin_wr: "wr_all ws (unpin_all B a) = unpin_all B (wr_all ws a)"
  by (simp add: wr_all_def unpin_all_def)

text \<open>\<^verbatim>\<open>commit\<close> writes \<open>commit_writes\<close>, in that order, and drops the pins.\<close>

lemma commit_spec:
  assumes ok: "log_ok s" and nl: "\<And>b. \<not> blocked s b" and room: "card (in_use s) < 30" and pos: "0 < lh_n s"
  shows "wp commit (\<lambda>_ s'. bio_ok s' \<and> cache_frame (s\<lparr>lh_n := 0\<rparr>) s' \<and>
    cache_of s' = unpin_all (set (logged s)) (wr_all (commit_writes s) (cache_of s))) (\<lambda>_. False) s"
proof -
  let ?n = "nat (lh_n s)" and ?st = "log_start s"
  have cw: "wr_all (commit_writes s) a = wr_all [(?st, fill_head 0 (lh_block s) (commit_head s))]
      (wr_all (home_writes s ?n) (wr_all [(?st, commit_head s)] (wr_all (log_writes s ?n) a)))" for a
    by (simp only: commit_writes_def wr_all_append)
  have second: "wp (thenK (install_trans False) (thenK (modifyK (\<lambda>s. s\<lparr>lh_n := 0\<rparr>)) write_head))
     (\<lambda>_ s'. bio_ok s' \<and> cache_frame (s\<lparr>lh_n := 0\<rparr>) s' \<and>
       cache_of s' = unpin_all (set (logged s)) (wr_all (commit_writes s) (cache_of s))) (\<lambda>_. False) s2"
    if "log_ok s2 \<and> cache_frame s s2 \<and> cache_of s2 = wr_all (log_writes s ?n @ [(?st, commit_head s)]) (cache_of s)" for s2
  proof -
    have s2: "log_ok s2" "cache_frame s s2" "cache_of s2 = wr_all (log_writes s ?n @ [(?st, commit_head s)]) (cache_of s)"
      using that by simp_all
    note f = cache_frame_log [OF s2(2)] and v = cache_of_views [OF s2(3), unfolded wr_all_sel cache_of_sel]
    have lg: "bview s2 (log_start s2 + t + 1) = bview s2 (lh_block s2 ! t)" if "t < nat (lh_n s2)" for t
      using commit_views [OF ok _ v(1)] that by (simp add: f)
    have hw: "home_writes s2 ?n = home_writes s ?n"
      using commit_views(2) [OF ok _ v(1)] by (simp add: home_writes_def f)
    have iu: "in_use s2 = in_use s" using v by (simp add: in_use_def)
    have nl2: "\<not> blocked s2 b" and room2: "card (in_use s2) < 30" for b using v(5) nl iu room by simp_all
    have inst: "wp (install_trans False) (\<lambda>_ s'. bio_ok s' \<and> cache_frame s2 s' \<and>
        cache_of s' = unpin_all (set (logged s)) (wr_all (home_writes s ?n) (cache_of s2))) (\<lambda>_. False) s2"
      using install_trans_spec [OF s2(1) nl2 room2 lg] by (simp add: f hw)
    show ?thesis unfolding wp_then
    proof (rule wp_mono [OF inst], elim conjE)
      fix s3 assume s3: "bio_ok s3" "cache_frame s2 s3" "cache_of s3 = unpin_all (set (logged s)) (wr_all (home_writes s ?n) (cache_of s2))"
      note f3 = cache_frame_log [OF cache_frame_trans [OF s2(2) s3(2)]] and v3 = cache_of_views [OF s3(3)]
      have "?st \<notin> fst ` set (home_writes s ?n)"
        using ok home_writes_fst [OF ok] by (auto simp: log_ok_def log_area_def)
      then have hd: "bview s3 ?st = commit_head s"
        using v3(1) v(1) by (simp add: dapply_other cache_of_sel dapply_append)
      have "crefs (cache_of s3) b \<le> refs s b" for b using v3 v by (simp add: s3(3) cache_of_sel)
      then have "in_use s3 \<subseteq> in_use s" by (auto simp: in_use_def cache_of_sel) (meson less_le_trans)
      then have c3: "card (in_use s3) < 30" using card_mono [OF finite_in_use] room by (meson le_less_trans)
      have "can_read s3 (log_start s3)" using c3 v3(5) v(5) nl by (simp add: can_read_def cache_of_sel)
      then have can: "can_read (s3\<lparr>lh_n := 0\<rparr>) (log_start (s3\<lparr>lh_n := 0\<rparr>))" by simp
      have dev: "log_dev (s3\<lparr>lh_n := 0\<rparr>) = 1" using ok by (simp add: f3 log_ok_def)
      have fr: "cache_frame (s\<lparr>lh_n := 0\<rparr>) (s3\<lparr>lh_n := 0\<rparr>)"
        by (rule cache_frame_lh [OF cache_frame_trans [OF s2(2) s3(2)]])
      have b3: "bio_ok (s3\<lparr>lh_n := 0\<rparr>)" using s3(1) by simp
      show "wp (modifyK (\<lambda>s. s\<lparr>lh_n := 0\<rparr>)) (\<lambda>_. wp write_head (\<lambda>_ s'. bio_ok s' \<and> cache_frame (s\<lparr>lh_n := 0\<rparr>) s' \<and>
         cache_of s' = unpin_all (set (logged s)) (wr_all (commit_writes s) (cache_of s))) (\<lambda>_. False)) (\<lambda>_. False) s3"
        unfolding wp_modify
        by (rule wp_mono [OF write_head_spec [OF b3 dev can]])
          (use fr cache_frame_trans in \<open>auto simp: f3 hd s3(3) s2(3) cw wr_all_append unpin_wr\<close>)
    qed
  qed
  have "wp (thenK (thenK write_log write_head) (thenK (install_trans False) (thenK (modifyK (\<lambda>s. s\<lparr>lh_n := 0\<rparr>)) write_head)))
     (\<lambda>_ s'. bio_ok s' \<and> cache_frame (s\<lparr>lh_n := 0\<rparr>) s' \<and>
       cache_of s' = unpin_all (set (logged s)) (wr_all (commit_writes s) (cache_of s))) (\<lambda>_. False) s"
    unfolding wp_then [of "thenK write_log write_head"]
    by (rule wp_mono [OF commit_first [OF ok nl room]]) (rule second)
  then show ?thesis using pos by (simp only: commit_def wp_bind wp_gets wp_when if_True thenK_assoc)
qed

subsection \<open>Recovery\<close>

text \<open>A disk whose log header is well formed, and what recovery writes on it.\<close>

definition hdr_valid :: "nat \<Rightarrow> diskmap \<Rightarrow> bool" where
  "hdr_valid st d \<longleftrightarrow> length (d st) = BSIZE \<and> 0 \<le> hdr_n (d st) \<and> hdr_n (d st) \<le> int LOGBLOCKS \<and>
     distinct (map (hdr_block (d st)) [0..<nat (hdr_n (d st))]) \<and>
     (\<forall>t < nat (hdr_n (d st)). hdr_block (d st) t \<notin> log_area st)"

definition replay :: "nat \<Rightarrow> diskmap \<Rightarrow> nat \<Rightarrow> (nat \<times> byte list) list" where
  "replay st d n = map (\<lambda>t. (hdr_block (d st) t, d (st + t + 1))) [0..<n]"

definition recover_writes :: "nat \<Rightarrow> diskmap \<Rightarrow> (nat \<times> byte list) list" where
  "recover_writes st d = replay st d (nat (hdr_n (d st))) @ [(st, fill_head 0 [] (d st))]"

lemma fill_head_0: "fill_head 0 bl d = fill_head 0 [] d"
  by (simp add: fill_head_def)

lemma lh_block_cache [simp]:
  "cache_of (s\<lparr>lh_n := n, lh_block := l\<rparr>) = cache_of s" "bio_ok (s\<lparr>lh_n := n, lh_block := l\<rparr>) = bio_ok s"
  "held (s\<lparr>lh_n := n, lh_block := l\<rparr>) b bn = held s b bn"
  using cache_fields_cong [of "s\<lparr>lh_n := n, lh_block := l\<rparr>" s] by (simp_all add: cache_of_def held_def)

lemma read_blocks:
  assumes "n \<le> 30" "length (lh_block s) = 30"
  shows "wp (forK [0..<n] (\<lambda>i. set_lh_block i (g i)))
    (\<lambda>_ s'. \<exists>l. s' = s\<lparr>lh_block := l\<rparr> \<and> length l = 30 \<and> take n l = map g [0..<n]) (\<lambda>_. False) s"
proof (rule wp_forK_upt)
  fix t s' assume t: "t < n" and "\<exists>l. s' = s\<lparr>lh_block := l\<rparr> \<and> length l = 30 \<and> take t l = map g [0..<t]"
  then obtain l where l: "s' = s\<lparr>lh_block := l\<rparr>" "length l = 30" "take t l = map g [0..<t]" by auto
  have "take (Suc t) (l[t := g t]) = map g [0..<Suc t]"
    using l(2,3) t assms(1) by (simp add: take_Suc_conv_app_nth)
  then show "wp (set_lh_block t (g t)) (\<lambda>_ s'. \<exists>l. s' = s\<lparr>lh_block := l\<rparr> \<and> length l = 30 \<and>
      take (Suc t) l = map g [0..<Suc t]) (\<lambda>_. False) s'"
    using l t assms(1) by (auto simp: set_lh_block_def intro!: exI [of _ "l[t := g t]"])
qed (use assms(2) in \<open>auto intro!: exI [of _ "lh_block s"]\<close>)

lemma read_head_spec:
  assumes ok: "bio_ok s" and dev: "log_dev s = ROOTDEV" and can: "can_read s (log_start s)"
    and len: "length (lh_block s) = LOGBLOCKS"
    and n: "0 \<le> hdr_n (bview s (log_start s))" "hdr_n (bview s (log_start s)) \<le> int LOGBLOCKS"
  shows "wp read_head (\<lambda>_ s'. bio_ok s' \<and> cache_of s' = cache_of s \<and> panicked s' = panicked s \<and>
    log_start s' = log_start s \<and> log_dev s' = log_dev s \<and> log_outstanding s' = log_outstanding s \<and>
    log_committing s' = log_committing s \<and> lh_n s' = hdr_n (bview s (log_start s)) \<and> length (lh_block s') = LOGBLOCKS \<and>
    logged s' = map (hdr_block (bview s (log_start s))) [0..<nat (hdr_n (bview s (log_start s)))]) (\<lambda>_. False) s"
proof -
  let ?st = "log_start s" and ?H = "bview s (log_start s)"
  have can': "can_acquire (cache_of s) ?st" using can by simp
  have n30: "nat (hdr_n ?H) \<le> 30" using n by (simp add: nat_le_iff)
  have undo: "crel ?st (cacq ?st (cache_of s)) = cache_of s"
    using can by (auto simp: cache_ops can_read_def fun_upd_idem cache_of_sel)
  have sync: "1 < crefs (cacq ?st (cache_of s)) ?st \<or> cview (cacq ?st (cache_of s)) ?st = cdisk (cacq ?st (cache_of s)) ?st"
    using free_bview [OF ok, of ?st] refs_nonneg [OF ok, of ?st] by (auto simp: cacq_def cache_of_sel le_less)
  show ?thesis
    unfolding read_head_def wp_bind [of "getsK _"] wp_gets prod.case dev wp_bind [of "bread _ _"]
  proof (rule bc.wp_rd [OF ok cache_frame_refl can'])
    fix b s1 assume s1: "bio_ok s1" "cache_frame s s1" "cache_of s1 = cacq ?st (cache_of s)" "held s1 b ?st"
    note f = cache_frame_log [OF s1(2)]
    have H: "cview (cache_of s1) ?st = ?H" using s1(3) by (simp add: cache_of_sel)
    let ?Q = "\<lambda>_ s'. bio_ok s' \<and> cache_of s' = cache_of s \<and> panicked s' = panicked s \<and>
      log_start s' = ?st \<and> log_dev s' = 1 \<and> log_outstanding s' = log_outstanding s \<and>
      log_committing s' = log_committing s \<and> lh_n s' = hdr_n ?H \<and> length (lh_block s') = 30 \<and>
      logged s' = map (hdr_block ?H) [0..<nat (hdr_n ?H)]"
    have rel: "wp (brelse b) ?Q (\<lambda>_. False) (s1\<lparr>lh_n := hdr_n ?H, lh_block := l\<rparr>)"
      if l: "length l = 30" "take (nat (hdr_n ?H)) l = map (hdr_block ?H) [0..<nat (hdr_n ?H)]" for l
    proof (rule bc.wp_rel [OF _ cache_frame_refl])
      let ?s = "s1\<lparr>lh_n := hdr_n ?H, lh_block := l\<rparr>"
      show "bio_ok ?s" "held ?s b ?st" using s1 by simp_all
      show "1 < crefs (cache_of ?s) ?st \<or> cview (cache_of ?s) ?st = cdisk (cache_of ?s) ?st"
        using sync by (simp only: lh_block_cache s1(3))
      fix s2 assume s2: "bio_ok s2" "cache_frame ?s s2" "cache_of s2 = crel ?st (cache_of ?s)"
      show "?Q () s2" using s2(1,3) cache_frame_log [OF s2(2)] l f undo s1(3) dev by (simp add: logged_def)
    qed
    have l1: "length (lh_block (s1\<lparr>lh_n := hdr_n ?H\<rparr>)) = 30" using len f by simp
    have "wp (forK [0..<nat (hdr_n ?H)] (\<lambda>i. set_lh_block i (hdr_block ?H i)))
        (\<lambda>_. wp (brelse b) ?Q (\<lambda>_. False)) (\<lambda>_. False) (s1\<lparr>lh_n := hdr_n ?H\<rparr>)"
      by (rule wp_mono [OF read_blocks [OF n30 l1]]) (use rel in auto)
    then show "wp (bindK (get_data b) (\<lambda>lh. thenK (modifyK (\<lambda>s. s\<lparr>lh_n := hdr_n lh\<rparr>))
       (thenK (forK [0..<nat (hdr_n lh)] (\<lambda>i. set_lh_block i (hdr_block lh i))) (brelse b)))) ?Q (\<lambda>_. False) s1"
      unfolding wp_bind [of "get_data _"] wp_then wp_modify
      by (intro bc.wp_get [OF s1(1,4)]) (simp only: H)
  qed
qed

text \<open>A machine that has just booted: nothing is cached or in use, and no panic has happened.\<close>

definition booted :: "'z logst_scheme \<Rightarrow> bool" where
  "booted s \<longleftrightarrow> bio_ok s \<and> \<not> panicked s \<and> length (lh_block s) = LOGBLOCKS \<and> (\<forall>b. refs s b = 0 \<and> \<not> blocked s b)"

lemma idle_can:
  assumes "\<And>b. crefs a b = 0" "\<And>b. \<not> clocked a b"
  shows "can_acquire a b" "h \<noteq> l \<Longrightarrow> can_acquire (cacq l a) h"
proof -
  have "cused a = {}" "cused (cacq l a) = {l}" using assms by (auto simp: cused_def cacq_def)
  then show "can_acquire a b" "h \<noteq> l \<Longrightarrow> can_acquire (cacq l a) h"
    using assms by (simp_all add: can_acquire_def cacq_def)
qed

lemma render_recover: "\<exists>out. render recover_text [Reg a, Reg b] = Some out"
  by (simp add: recover_text_def str_def directive_def with_reg_def char_at_def)

definition quiet_frame :: "'z logst_scheme \<Rightarrow> 'z logst_scheme \<Rightarrow> bool" where
  "quiet_frame s s' \<longleftrightarrow> bio.more s' = bio.more s \<and> panicked s' = panicked s"

lemma quiet_frame_log:
  assumes "quiet_frame s s'"
  shows "log_start s' = log_start s" "log_outstanding s' = log_outstanding s" "log_committing s' = log_committing s"
    "log_dev s' = log_dev s" "lh_n s' = lh_n s" "lh_block s' = lh_block s" "panicked s' = panicked s"
  using assms by (cases s; cases s'; simp add: quiet_frame_def)+

lemma print_recover:
  assumes "\<not> panicked s" "bio_ok s"
  shows "wp (thenK (printf recover_text [Reg a, Reg b]) (returnK ()))
    (\<lambda>_ s'. bio_ok s' \<and> cache_of s' = cache_of s \<and> quiet_frame s s') E s"
proof -
  obtain out where "render recover_text [Reg a, Reg b] = Some out" using render_recover by blast
  note p = printf_run [OF assms(1) this]
  show ?thesis unfolding wp_then
  proof (rule wp_mono [OF p])
    fix s' assume "output_only s (concat (map cons_bytes out)) s'"
    then obtain i o' where s': "s' = s\<lparr>uart_tx_idle := i, uart_out := o'\<rparr>" by (auto simp: output_only_def)
    have "bufs s' = bufs s" "disk s' = disk s" "lru s' = lru s" "dwrites s' = dwrites s" "panicked s' = panicked s"
      "bio.more s' = bio.more s" by (simp_all add: s')
    then show "wp (returnK ()) (\<lambda>_ s'. bio_ok s' \<and> cache_of s' = cache_of s \<and> quiet_frame s s') E s'"
      using cache_fields_cong [of s' s] assms(2) by (simp add: cache_of_def quiet_frame_def)
  qed
qed

lemma recover_install:
  assumes ok: "bio_ok s" and p: "\<not> panicked s" and dev: "log_dev s = ROOTDEV"
    and idle: "\<And>b. refs s b = 0" "\<And>b. \<not> blocked s b"
    and n: "0 \<le> lh_n s" "lh_n s \<le> int LOGBLOCKS" "length (lh_block s) = LOGBLOCKS"
    and out: "set (logged s) \<inter> log_area (log_start s) = {}"
    and W: "W = (\<lambda>n. map (\<lambda>t. (lh_block s ! t, bview s (log_start s + t + 1))) [0..<n])"
  shows "wp (install_trans True) (\<lambda>_ s'. bio_ok s' \<and> quiet_frame s s' \<and>
    cache_of s' = wr_all (W (nat (lh_n s))) (cache_of s)) (\<lambda>_. False) s"
proof -
  have n30: "nat (lh_n s) \<le> 30" using n by (simp add: nat_le_iff)
  let ?I = "\<lambda>t s'. bio_ok s' \<and> quiet_frame s s' \<and> cache_of s' = wr_all (W t) (cache_of s)"
  have blk: "lh_block s ! t \<in> set (logged s)" if "t < nat (lh_n s)" for t
    using that n n30 by (auto simp: logged_def in_set_conv_nth)
  have area: "log_start s + t + 1 \<in> log_area (log_start s)" if "t < nat (lh_n s)" for t
    using that n30 by (simp add: log_area_def)
  have "wp (forK [0..<nat (lh_n s)] (\<lambda>tail.
       thenK (whenK True
         (thenK (printf recover_text [Reg (of_nat tail), Reg (of_nat (lh_block s ! tail))]) (returnK ())))
      (bindK (bread 1 (log_start s + tail + 1)) (\<lambda>lbuf. bindK (bread 1 (lh_block s ! tail)) (\<lambda>dbuf.
       bindK (get_data lbuf) (\<lambda>x. thenK (put_data dbuf x) (thenK (bwrite dbuf)
      (thenK (whenK (\<not> True) (bunpin dbuf)) (thenK (brelse lbuf) (brelse dbuf))))))))))
     (\<lambda>_. ?I (nat (lh_n s))) (\<lambda>_. False) s"
  proof (rule wp_forK_upt)
    fix t s' assume t: "t < nat (lh_n s)" and I: "?I t s'"
    let ?l = "log_start s + t + 1" and ?h = "lh_block s ! t"
    have hl: "?h \<noteq> ?l" using blk [OF t] area [OF t] out by auto
    have "?l \<notin> fst ` set (W t)"
    proof
      assume "?l \<in> fst ` set (W t)"
      then obtain u where "u < t" "lh_block s ! u = ?l" by (auto simp: W)
      then show False using blk [of u] area [OF t] out t by auto
    qed
    then have v: "cview (wr_all (W t) (cache_of s)) ?l = bview s ?l" by (simp add: dapply_other cache_of_sel)
    have p': "\<not> panicked s'" using I p quiet_frame_log(7) by blast
    show "wp (thenK (whenK True
         (thenK (printf recover_text [Reg (of_nat t), Reg (of_nat ?h)]) (returnK ())))
      (bindK (bread 1 ?l) (\<lambda>lbuf. bindK (bread 1 ?h) (\<lambda>dbuf.
       bindK (get_data lbuf) (\<lambda>x. thenK (put_data dbuf x) (thenK (bwrite dbuf)
      (thenK (whenK (\<not> True) (bunpin dbuf)) (thenK (brelse lbuf) (brelse dbuf))))))))) (\<lambda>_. ?I (Suc t)) (\<lambda>_. False) s'"
      unfolding wp_then [of "whenK True _"] wp_when if_True
    proof (rule wp_mono [OF print_recover [OF p']], use I in simp, elim conjE)
      fix s1 assume s1: "bio_ok s1" "cache_of s1 = cache_of s'" "quiet_frame s' s1"
      have c1: "cache_of s1 = wr_all (W t) (cache_of s)" using s1 I by simp
      have i1: "crefs (cache_of s1) b = 0" "\<not> clocked (cache_of s1) b" for b
        using idle by (simp_all add: c1 cache_of_sel)
      note can = idle_can [of "cache_of s1", OF i1]
      show "wp (bindK (bread 1 ?l) (\<lambda>lbuf. bindK (bread 1 ?h) (\<lambda>dbuf.
         bindK (get_data lbuf) (\<lambda>x. thenK (put_data dbuf x) (thenK (bwrite dbuf)
        (thenK (whenK (\<not> True) (bunpin dbuf)) (thenK (brelse lbuf) (brelse dbuf)))))))) (\<lambda>_. ?I (Suc t)) (\<lambda>_. False) s1"
      proof (rule wp_mono [OF bc.copy_home [OF s1(1) can(1) hl i1(2), of "\<not> True"]])
        fix s2 assume s2: "bio_ok s2 \<and> cache_frame s1 s2 \<and>
          cache_of s2 = cpin ?h (if \<not> True then - 1 else 0) (cflush ?h (cput ?h (cview (cache_of s1) ?l) (cache_of s1)))"
        have "cpin ?h 0 a = a" for a by (simp add: cpin_def)
        then have "cache_of s2 = wr_all (W (Suc t)) (cache_of s)"
          using s2 v by (simp add: c1 W wr_all_append flip: wr_all_single)
        moreover have "quiet_frame s s2" using s2 s1(3) I cache_frame_fields(4) [of s1 s2] cache_frame_log(8) [of s1 s2]
          by (simp add: quiet_frame_def)
        ultimately show "?I (Suc t) s2" using s2 by simp
      qed (use can(2) [OF hl] in simp_all)
    qed
  qed (use ok in \<open>simp add: W quiet_frame_def\<close>)
  then show ?thesis by (simp only: install_trans_def wp_bind [of "getsK _"] wp_gets prod.case dev)
qed

lemma log_start_cache [simp]:
  "cache_of (s\<lparr>log_start := x, log_dev := y\<rparr>) = cache_of s" "bio_ok (s\<lparr>log_start := x, log_dev := y\<rparr>) = bio_ok s"
  "bview (s\<lparr>log_start := x, log_dev := y\<rparr>) = bview s" "refs (s\<lparr>log_start := x, log_dev := y\<rparr>) = refs s"
  "blocked (s\<lparr>log_start := x, log_dev := y\<rparr>) = blocked s"
  using cache_fields_cong [of "s\<lparr>log_start := x, log_dev := y\<rparr>" s] by (simp_all add: cache_of_def)

lemma recover_from_log_spec:
  assumes ok: "bio_ok s" and p: "\<not> panicked s" and dev: "log_dev s = ROOTDEV" and len: "length (lh_block s) = LOGBLOCKS"
    and idle: "\<And>b. refs s b = 0" "\<And>b. \<not> blocked s b" and v: "hdr_valid (log_start s) (disk s)"
  shows "wp recover_from_log (\<lambda>_ s'. booted s' \<and> log_dev s' = ROOTDEV \<and> log_start s' = log_start s \<and> lh_n s' = 0 \<and>
     log_outstanding s' = log_outstanding s \<and> log_committing s' = log_committing s \<and>
     cache_of s' = wr_all (recover_writes (log_start s) (disk s)) (cache_of s)) (\<lambda>_. False) s"
proof -
  let ?st = "log_start s" and ?H = "disk s (log_start s)"
  have view: "bview s = disk s" using free_bview [OF ok idle(1)] by auto
  have idle': "crefs (cache_of s) b = 0" "\<not> clocked (cache_of s) b" for b using idle by (simp_all add: cache_of_sel)
  have n: "0 \<le> hdr_n (bview s ?st)" "hdr_n (bview s ?st) \<le> int 30" using v by (simp_all add: hdr_valid_def view)
  have can: "can_read s ?st" using idle_can(1) [OF idle'] by simp
  show ?thesis unfolding recover_from_log_def wp_then
  proof (rule wp_mono [OF read_head_spec [OF ok dev can len n]], elim conjE)
    fix s1 assume c1: "bio_ok s1" "cache_of s1 = cache_of s" and f1: "panicked s1 = panicked s" "log_start s1 = ?st"
      "log_dev s1 = log_dev s" "log_outstanding s1 = log_outstanding s" "log_committing s1 = log_committing s"
      and h1: "lh_n s1 = hdr_n (bview s ?st)" "length (lh_block s1) = 30"
      "logged s1 = map (hdr_block (bview s ?st)) [0..<nat (hdr_n (bview s ?st))]"
    note v1 = cache_of_views [OF c1(2), unfolded cache_of_sel]
    have i1: "refs s1 b = 0" "\<not> blocked s1 b" for b using v1 idle by simp_all
    have n1: "\<not> panicked s1" "log_dev s1 = 1" "0 \<le> lh_n s1" "lh_n s1 \<le> int 30"
      using p dev n by (simp_all add: f1 h1)
    have out: "set (logged s1) \<inter> log_area (log_start s1) = {}"
      using v by (auto simp: h1(3) view f1 hdr_valid_def)
    have blk: "lh_block s1 ! t = hdr_block ?H t" if "t < nat (hdr_n ?H)" for t
      using arg_cong [OF h1(3), of "\<lambda>l. l ! t"] that by (simp add: logged_def h1(1) view)
    have W: "map (\<lambda>t. (lh_block s1 ! t, bview s1 (log_start s1 + t + 1))) [0..<nat (lh_n s1)] = replay ?st (disk s) (nat (hdr_n ?H))"
      using blk by (simp add: replay_def v1 view f1 h1(1))
    show "wp (install_trans True) (\<lambda>_. wp (modifyK (\<lambda>s. s\<lparr>lh_n := 0\<rparr>)) (\<lambda>_. wp write_head (\<lambda>_ s'. booted s' \<and> log_dev s' = ROOTDEV \<and>
       log_start s' = log_start s \<and> lh_n s' = 0 \<and> log_outstanding s' = log_outstanding s \<and> log_committing s' = log_committing s \<and>
       cache_of s' = wr_all (recover_writes (log_start s) (disk s)) (cache_of s)) (\<lambda>_. False)) (\<lambda>_. False)) (\<lambda>_. False) s1"
    proof (rule wp_mono [OF recover_install [OF c1(1) n1(1,2) i1 n1(3,4) h1(2) out refl, unfolded W]], elim conjE)
      fix s2 assume s2: "bio_ok s2" "quiet_frame s1 s2" "cache_of s2 = wr_all (replay ?st (disk s) (nat (hdr_n ?H))) (cache_of s1)"
      note f2 = quiet_frame_log [OF s2(2)] and v2 = cache_of_views [OF s2(3), unfolded wr_all_sel cache_of_sel]
      have "?st \<notin> fst ` set (replay ?st (disk s) (nat (hdr_n ?H)))"
        using v by (force simp: replay_def hdr_valid_def log_area_def)
      then have hd: "bview s2 ?st = ?H" using v2(1) by (simp add: dapply_other v1 view)
      have i2: "crefs (cache_of s2) b = 0" "\<not> clocked (cache_of s2) b" for b
        using v2 i1 by (simp_all add: cache_of_sel)
      let ?s = "s2\<lparr>lh_n := 0\<rparr>"
      have ok3: "bio_ok ?s" and d3: "log_dev ?s = 1" using s2(1) n1 f2 by simp_all
      have can3: "can_read ?s (log_start ?s)" using idle_can(1) [OF i2] by simp
      show "wp (modifyK (\<lambda>s. s\<lparr>lh_n := 0\<rparr>)) (\<lambda>_. wp write_head (\<lambda>_ s'. booted s' \<and> log_dev s' = ROOTDEV \<and>
         log_start s' = log_start s \<and> lh_n s' = 0 \<and> log_outstanding s' = log_outstanding s \<and> log_committing s' = log_committing s \<and>
         cache_of s' = wr_all (recover_writes (log_start s) (disk s)) (cache_of s)) (\<lambda>_. False)) (\<lambda>_. False) s2"
        unfolding wp_modify
      proof (rule wp_mono [OF write_head_spec [OF ok3 d3 can3]])
        fix s3 assume s3: "bio_ok s3 \<and> cache_frame ?s s3 \<and>
          cache_of s3 = wr_all [(log_start ?s, fill_head (lh_n ?s) (lh_block ?s) (bview ?s (log_start ?s)))] (cache_of ?s)"
        have f3: "log_start s3 = ?st" "log_dev s3 = 1" "lh_n s3 = 0" "log_outstanding s3 = log_outstanding s"
          "log_committing s3 = log_committing s" "length (lh_block s3) = 30" "\<not> panicked s3"
          using cache_frame_log [of ?s s3] s3 f2 f1 dev h1(2) n1 by simp_all
        have c3: "cache_of s3 = wr_all (recover_writes ?st (disk s)) (cache_of s)"
          using s3 by (simp add: f2 f1 hd fill_head_0 [of "lh_block s1"] recover_writes_def wr_all_append s2(3) c1(2))
        then have "refs s3 b = 0" "\<not> blocked s3 b" for b
          using cache_of_views [OF c3] idle by (simp_all add: cache_of_sel)
        then have "booted s3" using s3 f3 by (simp add: booted_def)
        then show "booted s3 \<and> log_dev s3 = ROOTDEV \<and> log_start s3 = log_start s \<and> lh_n s3 = 0 \<and>
          log_outstanding s3 = log_outstanding s \<and> log_committing s3 = log_committing s \<and>
          cache_of s3 = wr_all (recover_writes (log_start s) (disk s)) (cache_of s)"
          using c3 f3 by simp
      qed simp_all
    qed
  qed
qed

lemma initlog_spec:
  assumes b: "booted s" and v: "hdr_valid st (disk s)"
  shows "wp (initlog ROOTDEV st) (\<lambda>_ s'. booted s' \<and> log_dev s' = ROOTDEV \<and> log_start s' = st \<and> lh_n s' = 0 \<and>
     log_outstanding s' = log_outstanding s \<and> log_committing s' = log_committing s \<and>
     cache_of s' = wr_all (recover_writes st (disk s)) (cache_of s)) (\<lambda>_. False) s"
proof -
  let ?s = "s\<lparr>log_start := st, log_dev := 1\<rparr>"
  have "bio_ok ?s" "\<not> panicked ?s" "log_dev ?s = 1" "length (lh_block ?s) = 30" "\<And>b. refs ?s b = 0" "\<And>b. \<not> blocked ?s b"
    "hdr_valid (log_start ?s) (disk ?s)" using b v by (simp_all add: booted_def)
  note r = recover_from_log_spec [OF this]
  show ?thesis unfolding initlog_def wp_then wp_modify using r by simp
qed

end
