(* ===== verification/Log_Crash.thy ===== *)
theory Log_Crash
  imports Log_Spec
begin

section \<open>Crash atomicity of the log\<close>

text \<open>
  A crash keeps the disk and loses everything else: what is left after a crash during \<^verbatim>\<open>commit\<close> is
  the old disk with a prefix of the commit's writes applied.  On restart \<^verbatim>\<open>initlog\<close> runs, and it may
  crash itself, any number of times.  A disk represents the file system contents \<open>f\<close> when its
  header is well formed and recovery from it would yield \<open>f\<close> on every block outside the log.
\<close>

definition represents :: "nat \<Rightarrow> diskmap \<Rightarrow> diskmap \<Rightarrow> bool" where
  "represents st d f \<longleftrightarrow> hdr_valid st d \<and> (\<forall>b. b \<notin> log_area st \<longrightarrow> dapply (recover_writes st d) d b = f b)"

lemma dapply_Cons [simp]: "dapply ((b, x) # ws) d = dapply ws (d(b := x))"
  by (simp add: dapply_def)

lemma replay_cong:
  assumes "d st = h" "\<And>t. t < n \<Longrightarrow> hdr_block h t = g t" "\<And>t. t < n \<Longrightarrow> d (Suc (st + t)) = x t"
  shows "replay st d n = map (\<lambda>t. (g t, x t)) [0..<n]"
  using assms by (simp add: replay_def)

lemma replay_fst: "fst ` set (replay st d n) = hdr_block (d st) ` {0..<n}"
  by (simp add: replay_def image_image)

lemma replay_outside: "hdr_valid st d \<Longrightarrow> b \<in> log_area st \<Longrightarrow> n \<le> nat (hdr_n (d st)) \<Longrightarrow> b \<notin> fst ` set (replay st d n)"
  by (auto simp: replay_fst hdr_valid_def)

lemma start_in_area [simp]: "st \<in> log_area st" "t < 30 \<Longrightarrow> Suc (st + t) \<in> log_area st"
  by (simp_all add: log_area_def)

lemma replay_distinct:
  "hdr_valid st d \<Longrightarrow> distinct (map (hdr_block (d st)) [0..<nat (hdr_n (d st))])"
  by (simp add: hdr_valid_def)

lemma fill_head_empty: "length h = 1024 \<Longrightarrow> length (fill_head 0 [] h) = 1024 \<and> hdr_n (fill_head 0 [] h) = 0"
  using fill_head(1,2) [of h 0 "[]"] by simp

lemma cleared_represents:
  assumes "length (d st) = 1024" "hdr_n (d st) = 0"
  shows "represents st d d"
  using assms by (auto simp: represents_def hdr_valid_def recover_writes_def replay_def)

lemma represents_cong: "(\<And>b. b \<notin> log_area st \<Longrightarrow> f b = g b) \<Longrightarrow> represents st d f = represents st d g"
  by (simp add: represents_def)

text \<open>An interrupted recovery does not change what the disk represents.\<close>

lemma represents_prefix:
  assumes rep: "represents st d f"
  shows "represents st (dapply (take k (recover_writes st d)) d) f"
proof -
  let ?n = "nat (hdr_n (d st))" and ?R = "replay st d (nat (hdr_n (d st)))" and ?RW = "recover_writes st d"
  have v: "hdr_valid st d" and f: "\<And>b. b \<notin> log_area st \<Longrightarrow> dapply ?RW d b = f b"
    using rep by (simp_all add: represents_def)
  have n: "?n \<le> 30" using v by (simp add: hdr_valid_def nat_le_iff)
  have len: "length ?R = ?n" by (simp add: replay_def)
  show ?thesis
  proof (cases "k \<le> ?n")
    case True
    let ?d = "dapply (take k ?R) d"
    have tk: "take k ?RW = take k ?R" using True len by (simp add: recover_writes_def)
    have keep: "?d b = d b" if "b \<in> log_area st" for b
    proof (rule dapply_other)
      show "b \<notin> fst ` set (take k ?R)"
        using replay_outside [OF v that, of ?n] set_take_subset [of k ?R] by (auto simp: image_iff subset_iff)
    qed
    have st: "?d st = d st" and blk: "\<And>t. t < ?n \<Longrightarrow> ?d (Suc (st + t)) = d (Suc (st + t))" using keep n by simp_all
    have "replay st ?d ?n = map (\<lambda>t. (hdr_block (d st) t, d (Suc (st + t)))) [0..<?n]"
      by (rule replay_cong [where h = "d st"], rule st, rule refl, erule blk)
    then have rp: "replay st ?d ?n = ?R" by (simp only: replay_def Suc_eq_plus1)
    have rw: "recover_writes st ?d = ?RW" unfolding recover_writes_def st rp ..
    have "dapply ?R ?d = dapply ?R d" unfolding replay_def by (rule dapply_idem [OF replay_distinct [OF v]])
    then have "dapply ?RW ?d = dapply ?RW d" by (simp add: recover_writes_def dapply_append)
    then show ?thesis using f v tk rw by (simp add: represents_def hdr_valid_def st)
  next
    case False
    then have tk: "take k ?RW = ?RW" using len by (simp add: recover_writes_def)
    have "length (d st) = 1024" using v by (simp add: hdr_valid_def)
    note fh = fill_head_empty [OF this]
    have "dapply ?RW d st = fill_head 0 [] (d st)" by (simp add: recover_writes_def dapply_append)
    then have "represents st (dapply ?RW d) (dapply ?RW d)"
      using fh by (intro cleared_represents) simp_all
    then show ?thesis using f by (simp add: tk represents_cong [of st f "dapply ?RW d"])
  qed
qed

subsection \<open>A crash during commit\<close>

text \<open>
  The state in which a transaction can be committed: the log on disk is empty and only logged
  blocks differ from their contents on disk.
\<close>

definition log_inv :: "'z logst_scheme \<Rightarrow> bool" where
  "log_inv s \<longleftrightarrow> log_ok s \<and> hdr_n (disk s (log_start s)) = 0 \<and>
     (\<forall>b. b \<notin> set (logged s) \<longrightarrow> bview s b = disk s b)"

lemma home_views:
  assumes "log_ok s"
  shows "dapply (home_writes s (nat (lh_n s))) d b = (if b \<in> set (logged s) then bview s b else d b)"
proof (cases "b \<in> set (logged s)")
  case True
  then obtain t where t: "t < nat (lh_n s)" "b = lh_block s ! t" by (auto simp: logged_def in_set_conv_nth)
  then show ?thesis using dapply_map [OF logged_distinct [OF assms], of t "\<lambda>t. bview s (lh_block s ! t)"] True
    by (simp add: home_writes_def)
next
  case False
  then show ?thesis using dapply_other home_writes_fst [OF assms] by simp
qed

lemma commit_prefix:
  assumes inv: "log_inv s" and W: "W = commit_writes s"
  shows "represents (log_start s) (dapply (take k W) (disk s)) (disk s) \<or>
         represents (log_start s) (dapply (take k W) (disk s)) (bview s)"
proof -
  let ?st = "log_start s" and ?n = "nat (lh_n s)"
  let ?LW = "log_writes s ?n" and ?HW = "home_writes s ?n" and ?hd = "commit_head s"
  have ok: "log_ok s" and h0: "hdr_n (disk s ?st) = 0" and clean: "\<And>b. b \<notin> set (logged s) \<Longrightarrow> bview s b = disk s b"
    using inv by (simp_all add: log_inv_def)
  have bok: "bio_ok s" and n: "0 \<le> lh_n s" "lh_n s \<le> 30" using ok by (simp_all add: log_ok_def)
  have n30: "?n \<le> 30" using n by (simp add: nat_le_iff)
  have len: "length (disk s b) = 1024" "length (bview s b) = 1024" for b
    using bio_okD(5) [OF bok] length_bview [OF bok] by simp_all
  have b32: "lh_block s ! t < 2 ^ 32" if "t < ?n" for t using logged_nth(3) [OF ok that] .
  have hd: "length ?hd = 1024" "hdr_n ?hd = lh_n s" "\<And>t. t < ?n \<Longrightarrow> hdr_block ?hd t = lh_block s ! t"
    using fill_head [OF len(2) n b32] by (simp_all add: commit_head_def)
  have lens: "length ?LW = ?n" "length ?HW = ?n" by (simp_all add: log_writes_def home_writes_def)
  have homeHW: "b \<notin> fst ` set (take j ?HW)" if "b \<in> log_area ?st" for b j
    using home_writes_fst [OF ok] that ok set_take_subset [of j ?HW] by (auto simp: log_ok_def image_iff subset_iff)
  have outL: "dapply (?LW @ [(?st, x)]) d b = d b" if "b \<notin> log_area ?st" for b d x
    using that n30 log_writes_fst [of s ?n] by (intro dapply_other) (auto simp: log_area_def image_Un)
  consider (early) "k \<le> ?n" | (mid) j where "k = Suc ?n + j" "j \<le> ?n" | (late) "k \<ge> 2 * ?n + 2"
    by (cases "k \<le> ?n"; cases "k \<ge> 2 * ?n + 2") (auto intro: that(2) [of "k - Suc ?n"])
  then show ?thesis
  proof cases
    case early
    let ?d = "dapply (take k ?LW) (disk s)"
    have tk: "take k W = take k ?LW" using early lens by (simp add: W commit_writes_def)
    have fst: "fst ` set (take k ?LW) \<subseteq> {?st + 1..?st + ?n}"
      using log_writes_fst [of s ?n] set_take_subset [of k ?LW] by (metis image_mono)
    then have st: "?d ?st = disk s ?st" by (intro dapply_other) auto
    then have "represents ?st ?d ?d" using h0 len by (intro cleared_represents) simp_all
    moreover have "?d b = disk s b" if "b \<notin> log_area ?st" for b
      using fst that n30 by (intro dapply_other) (auto simp: log_area_def)
    ultimately show ?thesis using tk represents_cong [of ?st ?d "disk s"] by simp
  next
    case mid
    define d1 where "d1 = dapply (?LW @ [(?st, ?hd)]) (disk s)"
    define d where "d = dapply (take j ?HW) d1"
    have tk: "take k W = ?LW @ [(?st, ?hd)] @ take j ?HW" using mid lens by (simp add: W commit_writes_def)
    have area: "d b = d1 b" if "b \<in> log_area ?st" for b unfolding d_def using homeHW [OF that] by (rule dapply_other)
    have st: "d ?st = ?hd" using area by (simp add: d1_def dapply_append)
    have "distinct (map (\<lambda>t. ?st + t + 1) [0..<?n])" by (simp add: distinct_map inj_on_def)
    then have "d1 (?st + t + 1) = bview s (lh_block s ! t)" if "t < ?n" for t
      using dapply_map [of "\<lambda>t. ?st + t + 1" "[0..<?n]" t "\<lambda>t. bview s (lh_block s ! t)"] that
      by (simp add: d1_def dapply_append log_writes_def)
    then have blk: "d (Suc (?st + t)) = bview s (lh_block s ! t)" if "t < ?n" for t
      using area [of "Suc (?st + t)"] that n30 by simp
    have "replay ?st d ?n = map (\<lambda>t. (lh_block s ! t, bview s (lh_block s ! t))) [0..<?n]"
      by (rule replay_cong [where h = ?hd], rule st, erule hd(3), erule blk)
    then have "replay ?st d ?n = ?HW" by (simp only: home_writes_def)
    then have rw: "recover_writes ?st d = ?HW @ [(?st, fill_head 0 [] ?hd)]"
      by (simp add: recover_writes_def st hd(2))
    have map: "map (hdr_block ?hd) [0..<?n] = map ((!) (lh_block s)) [0..<?n]" using hd(3) by simp
    have "hdr_valid ?st d"
      using hd n logged_distinct [OF ok] logged_nth(2) [OF ok] by (simp add: hdr_valid_def st map)
    moreover have "dapply (recover_writes ?st d) d b = bview s b" if "b \<notin> log_area ?st" for b
    proof -
      have "dapply (recover_writes ?st d) d b = dapply ?HW d b"
        using that start_in_area(1) [of ?st] by (auto simp: rw dapply_append)
      also have "\<dots> = dapply ?HW d1 b"
        unfolding d_def home_writes_def by (simp only: dapply_idem [OF logged_distinct [OF ok]])
      also have "\<dots> = bview s b" using clean outL [OF that] by (simp add: home_views [OF ok] d1_def)
      finally show ?thesis .
    qed
    ultimately show ?thesis unfolding represents_def tk by (simp add: d_def d1_def dapply_append)
  next
    case late
    let ?d = "dapply W (disk s)"
    have tk: "take k W = W" using late lens by (simp add: W commit_writes_def)
    have st: "?d ?st = fill_head 0 [] ?hd" by (simp add: W commit_writes_def dapply_append fill_head_0 [of "lh_block s"])
    then have "represents ?st ?d ?d" using fill_head_empty [OF hd(1)] by (intro cleared_represents) simp_all
    moreover have "?d b = bview s b" if "b \<notin> log_area ?st" for b
      using that start_in_area(1) [of ?st] outL [OF that] clean
      by (auto simp: W commit_writes_def dapply_append home_views [OF ok])
    ultimately show ?thesis using tk represents_cong [of ?st ?d "bview s"] by simp
  qed
qed

subsection \<open>Restarts\<close>

text \<open>
  What can be on the disk after the machine has restarted from the disk \<open>d\<close>: recovery ran to its
  end, or crashed after some of its writes and the machine restarted again.
\<close>

inductive restarts :: "nat \<Rightarrow> diskmap \<Rightarrow> diskmap \<Rightarrow> bool" for st where
  finished: "booted (r :: logst) \<Longrightarrow> disk r = d \<Longrightarrow> initlog ROOTDEV st r = Inr ((), r') \<Longrightarrow> restarts st d (disk r')"
| crashed: "booted (r :: logst) \<Longrightarrow> disk r = d \<Longrightarrow> initlog ROOTDEV st r = Inr ((), r') \<Longrightarrow>
    dwrites r' = dwrites r @ W \<Longrightarrow> restarts st (dapply (take k W) d) d' \<Longrightarrow> restarts st d d'"

lemma initlog_run:
  assumes "booted r" "hdr_valid st (disk r)"
  obtains r' where "initlog ROOTDEV st r = Inr ((), r')" "dwrites r' = dwrites r @ recover_writes st (disk r)"
    "disk r' = dapply (recover_writes st (disk r)) (disk r)"
proof -
  from initlog_spec [OF assms] obtain r' where
    r': "initlog ROOTDEV st r = Inr ((), r')" "cache_of r' = wr_all (recover_writes st (disk r)) (cache_of r)"
    unfolding wp_total_ex by auto
  then show ?thesis using that [of r'] cache_of_views [OF r'(2)] by (simp add: wr_all_def cache_of_sel)
qed

lemma restarts_represents:
  assumes "restarts st d d'" "represents st d f"
  shows "\<forall>b. b \<notin> log_area st \<longrightarrow> d' b = f b"
  using assms
proof (induction rule: restarts.induct)
  case (finished r d r')
  then have v: "hdr_valid st (disk r)" by (simp add: represents_def)
  obtain r1 where "initlog ROOTDEV st r = Inr ((), r1)" "disk r1 = dapply (recover_writes st (disk r)) (disk r)"
    by (rule initlog_run [OF finished(1) v])
  then show ?case using finished by (simp add: represents_def)
next
  case (crashed r d r' W k d')
  then have v: "hdr_valid st (disk r)" by (simp add: represents_def)
  obtain r1 where "initlog ROOTDEV st r = Inr ((), r1)" "dwrites r1 = dwrites r @ recover_writes st (disk r)"
    by (rule initlog_run [OF crashed(1) v])
  then have "W = recover_writes st d" using crashed by simp
  then show ?case using crashed.IH represents_prefix [OF crashed.prems, of k] by simp
qed

text \<open>The blocks a transaction leaves on the disk when it commits.\<close>

lemma commit_run:
  assumes inv: "log_inv s" and nl: "\<And>b. \<not> blocked s b" and room: "card (in_use s) < 30"
  obtains s' W where "commit s = Inr ((), s')" "dwrites s' = dwrites s @ W" "disk s' = dapply W (disk s)"
    "lh_n s' = 0" "W = commit_writes s \<or> W = [] \<and> lh_n s = 0"
proof (cases "0 < lh_n s")
  case True
  have ok: "log_ok s" using inv by (simp add: log_inv_def)
  from commit_spec [OF ok nl room True] obtain s' where
    s': "commit s = Inr ((), s')" "cache_frame (s\<lparr>lh_n := 0\<rparr>) s'"
      "cache_of s' = unpin_all (set (logged s)) (wr_all (commit_writes s) (cache_of s))"
    unfolding wp_total_ex by auto
  then show ?thesis using that [of s' "commit_writes s"] cache_of_views [OF s'(3)] cache_frame_log(5) [OF s'(2)]
    by (simp add: wr_all_def cache_of_sel)
next
  case False
  then have "lh_n s = 0" using inv by (simp add: log_inv_def log_ok_def)
  then show ?thesis using that [of s "[]"] by (simp add: commit_def run_simps)
qed

subsection \<open>Properties\<close>

text \<open>A state with one logged block: block 50, all zero on disk, filled with 7 by the transaction.\<close>

definition one_logged :: logst where
  "one_logged = bio.extend
     (fresh_cache\<lparr>disk := (\<lambda>_. replicate 1024 0),
        bufs := (replicate 30 empty_buf)[0 := \<lparr>valid = True, dev = 1, blockno = 50, block = initsleeplock ''buffer'',
          refcnt = 1, data = replicate 1024 7\<rparr>]\<rparr>)
     (logst.fields 2 0 True 1 1 (50 # replicate 29 0))"

lemma one_logged_slot: "slot one_logged b = (if b = 50 then Some 0 else None)"
proof (cases "b = 50")
  case True
  have e: "[0..<30::nat] = 0 # [1..<30]" by (simp add: upt_conv_Cons)
  show ?thesis using True
    by (simp only: slot_def e) (simp add: caches_def one_logged_def bio.defs logst.defs)
next
  case False
  have "\<not> caches one_logged b i" if "i < 30" for i
    using that False by (cases i) (simp_all add: caches_def one_logged_def bio.defs logst.defs empty_buf_def)
  then have "slot one_logged b \<noteq> Some i" for i using slot_Some [of one_logged b i] by blast
  then show ?thesis using False by (cases "slot one_logged b") auto
qed

lemma one_logged_views:
  "bview one_logged b = replicate 1024 (if b = 50 then 7 else 0)" "refs one_logged b = (if b = 50 then 1 else 0)"
  "\<not> blocked one_logged b" "disk one_logged b = replicate 1024 0" "in_use one_logged = {50}"
  "logged one_logged = [50]" "log_start one_logged = 2"
proof -
  have d: "disk one_logged = (\<lambda>_. replicate 1024 0)" by (simp add: one_logged_def bio.defs logst.defs)
  have b0: "bufs one_logged ! 0 = \<lparr>valid = True, dev = 1, blockno = 50, block = initsleeplock ''buffer'',
          refcnt = 1, data = replicate 1024 7\<rparr>" by (simp add: one_logged_def bio.defs logst.defs)
  show "bview one_logged b = replicate 1024 (if b = 50 then 7 else 0)" "\<not> blocked one_logged b"
    by (simp_all add: bview_def blocked_def one_logged_slot b0 d initsleeplock_def)
  show r: "refs one_logged b = (if b = 50 then 1 else 0)" for b by (simp add: refs_def one_logged_slot b0)
  show "disk one_logged b = replicate 1024 0" by (simp add: d)
  show "in_use one_logged = {50}" by (auto simp: in_use_def r split: if_splits)
  show "logged one_logged = [50]" "log_start one_logged = 2" by (simp_all add: one_logged_def bio.defs logst.defs logged_def)
qed

lemma dec_zeros [simp]: "dec (replicate n 0) = 0"
  by (induction n) auto

lemma one_logged_inv: "log_inv one_logged"
proof -
  have e: "i < 30 \<Longrightarrow> bufs one_logged ! i = (if i = 0 then \<lparr>valid = True, dev = 1, blockno = 50, block = initsleeplock ''buffer'',
          refcnt = 1, data = replicate 1024 7\<rparr> else empty_buf)" for i
    by (cases i) (simp_all add: one_logged_def bio.defs logst.defs)
  have "bio_ok one_logged"
    by (auto simp: bio_ok_def buf_ok_def e empty_buf_def initsleeplock_def one_logged_views)
       (auto simp: one_logged_def bio.defs logst.defs fresh_cache_def)
  moreover have "hdr_n (replicate 1024 0) = 0" by (simp add: hdr_n_def get_le_def)
  ultimately show ?thesis
    by (simp add: log_inv_def log_ok_def one_logged_views log_area_def)
       (simp add: one_logged_def bio.defs logst.defs)
qed

text \<open>
  C1: A transaction is atomic with respect to crashes.  \<^verbatim>\<open>commit\<close> returns with the transaction's blocks
  on disk; and if the machine stops after any number of the disk writes of \<^verbatim>\<open>commit\<close>, then after
  the restart -- with \<^verbatim>\<open>initlog\<close> itself possibly crashing and starting over, any number of times --
  the disk outside the log holds either all of the transaction's changes or none of them.
  Recovery from such a disk always runs to its end.
\<close>

theorem commit_crash_atomic:
  fixes s :: logst
  assumes inv: "log_inv s" and idle: "\<forall>b. \<not> blocked s b" and room: "card (in_use s) < NBUF"
  shows "\<exists>s' W. commit s = Inr ((), s') \<and> dwrites s' = dwrites s @ W \<and>
    (\<forall>b. b \<notin> log_area (log_start s) \<longrightarrow> disk s' b = bview s b) \<and>
    (\<forall>k d. restarts (log_start s) (dapply (take k W) (disk s)) d \<longrightarrow>
       (\<forall>b. b \<notin> log_area (log_start s) \<longrightarrow> d b = disk s b) \<or> (\<forall>b. b \<notin> log_area (log_start s) \<longrightarrow> d b = bview s b)) \<and>
    (\<forall>k r. booted (r :: logst) \<longrightarrow> disk r = dapply (take k W) (disk s) \<longrightarrow> (\<exists>r'. initlog ROOTDEV (log_start s) r = Inr ((), r')))"
proof -
  from commit_run [OF inv _ room] idle obtain s' W where
    run: "commit s = Inr ((), s')" "dwrites s' = dwrites s @ W" "disk s' = dapply W (disk s)"
    and W: "W = commit_writes s \<or> W = [] \<and> lh_n s = 0" by metis
  have rep: "represents (log_start s) (dapply (take k W) (disk s)) (disk s) \<or>
         represents (log_start s) (dapply (take k W) (disk s)) (bview s)" for k
  proof (cases "W = commit_writes s")
    case True
    then show ?thesis using commit_prefix [OF inv] by simp
  next
    case False
    have "length (disk s (log_start s)) = 1024" using inv bio_okD(5) [of s] by (simp add: log_inv_def log_ok_def)
    then show ?thesis using False W cleared_represents [of "disk s" "log_start s"] inv by (simp add: log_inv_def)
  qed
  have ok: "log_ok s" using inv by (simp add: log_inv_def)
  have "disk s' b = bview s b" if "b \<notin> log_area (log_start s)" for b
  proof (cases "W = commit_writes s")
    case True
    have n: "nat (lh_n s) \<le> 30" using ok by (simp add: log_ok_def nat_le_iff)
    have "b \<notin> fst ` set (log_writes s (nat (lh_n s)))" "b \<noteq> log_start s"
      using that n log_writes_fst [of s "nat (lh_n s)"] by (auto simp: log_area_def)
    then show ?thesis using True run inv
      by (auto simp: commit_writes_def dapply_append home_views [OF ok] dapply_other log_inv_def)
  next
    case False
    then show ?thesis using W run inv by (simp add: log_inv_def logged_def)
  qed
  moreover have "(\<forall>b. b \<notin> log_area (log_start s) \<longrightarrow> d b = disk s b) \<or> (\<forall>b. b \<notin> log_area (log_start s) \<longrightarrow> d b = bview s b)"
    if "restarts (log_start s) (dapply (take k W) (disk s)) d" for k d
    using restarts_represents [OF that] rep [of k] by blast
  moreover have "\<exists>r'. initlog ROOTDEV (log_start s) r = Inr ((), r')"
    if "booted r" "disk r = dapply (take k W) (disk s)" for k and r :: logst
    using initlog_run [OF that(1)] rep [of k] that(2) by (metis represents_def)
  ultimately show ?thesis using run by blast
qed

theorem commit_crash_atomic_witness:
  "\<exists>s' W. commit one_logged = Inr ((), s') \<and> dwrites s' = dwrites one_logged @ W \<and> disk s' 50 = replicate 1024 7 \<and>
    (\<forall>k d. restarts 2 (dapply (take k W) (disk one_logged)) d \<longrightarrow> d 50 = replicate 1024 0 \<or> d 50 = replicate 1024 7)"
proof -
  have "\<forall>b. \<not> blocked one_logged b" "card (in_use one_logged) < 30" by (simp_all add: one_logged_views)
  from commit_crash_atomic [OF one_logged_inv this] obtain s' W where
    c: "commit one_logged = Inr ((), s')" "dwrites s' = dwrites one_logged @ W"
      "\<forall>b. b \<notin> log_area 2 \<longrightarrow> disk s' b = bview one_logged b"
      "\<forall>k d. restarts 2 (dapply (take k W) (disk one_logged)) d \<longrightarrow>
         (\<forall>b. b \<notin> log_area 2 \<longrightarrow> d b = disk one_logged b) \<or> (\<forall>b. b \<notin> log_area 2 \<longrightarrow> d b = bview one_logged b)"
    unfolding one_logged_views(7) by blast
  have "(50::nat) \<notin> log_area 2" by (simp add: log_area_def)
  moreover have "bview one_logged 50 = replicate 1024 7" "disk one_logged 50 = replicate 1024 0"
    by (simp_all add: one_logged_views)
  ultimately show ?thesis using c by metis
qed

end
