(* ===== verification/Log_Ops.thy ===== *)
theory Log_Ops
  imports Log_Crash
begin

section \<open>Transactions: log_write and the reservation of log space\<close>

text \<open>
  What \<^verbatim>\<open>log_write\<close>, \<^verbatim>\<open>begin_op\<close> and \<^verbatim>\<open>end_op\<close> keep of the state of the log, over every sequence of transactions: the log never
  runs out of the space that was reserved.
\<close>

lemma find_index_eq:
  assumes "distinct xs"
  shows "find_index (\<lambda>x. x = a) xs = None \<longleftrightarrow> a \<notin> set xs"
    and "find_index (\<lambda>x. x = a) xs = Some i \<Longrightarrow> i < length xs \<and> xs ! i = a"
  using find_index_SomeD [of "\<lambda>x. x = a" xs i] by auto

text \<open>
  \<^verbatim>\<open>log_write\<close> of a held buffer: the block is logged from now on, and pinned when it was not logged
  before (absorption).
\<close>

lemma log_write_spec:
  assumes ok: "log_ok s" and h: "held s b bn" and bn: "bn \<notin> log_area (log_start s)" "bn < 2 ^ 32"
    and op: "0 < log_outstanding s" and room: "lh_n s < int LOGBLOCKS"
  shows "wp (log_write b) (\<lambda>_ s'. log_ok s' \<and> held s' b bn \<and>
     logged s' = (if bn \<in> set (logged s) then logged s else logged s @ [bn]) \<and>
     cache_of s' = (if bn \<in> set (logged s) then cache_of s else cpin bn 1 (cache_of s)) \<and>
     (\<forall>c x. x \<noteq> bn \<longrightarrow> held s c x \<longrightarrow> held s' c x) \<and>
     (\<exists>n l. cache_frame (s\<lparr>lh_n := n, lh_block := l\<rparr>) s')) (\<lambda>_. False) s"
proof -
  have bok: "bio_ok s" and n: "0 \<le> lh_n s" "length (lh_block s) = 30" and dis: "distinct (logged s)"
    and lg: "set (logged s) \<inter> log_area (log_start s) = {}" "\<forall>b \<in> set (logged s). b < 2 ^ 32 \<and> 0 < refs s b"
    and dev: "log_dev s = 1" using ok by (simp_all add: log_ok_def)
  have bno: "blockno (bufs s ! b) = bn" using held_facts(3) [OF bok h] .
  have n30: "nat (lh_n s) < 30" using room n by simp
  have take: "take (nat (lh_n s)) (lh_block s) = logged s" by (simp add: logged_def)
  have len: "length (logged s) = nat (lh_n s)" using n n30 by (simp add: logged_def)
  show ?thesis
  proof (cases "bn \<in> set (logged s)")
    case True
    then obtain i where i: "find_index (\<lambda>x. x = bn) (logged s) = Some i"
      using find_index_eq(1) [OF dis, of bn] by (cases "find_index (\<lambda>x. x = bn) (logged s)") auto
    have ii: "i < nat (lh_n s)" "lh_block s ! i = bn"
      using find_index_eq(2) [OF dis i] len by (auto simp: logged_def)
    have "(lh_block s)[i := bn] = lh_block s" "int i \<noteq> lh_n s" using ii n by (auto simp: list_update_same_conv)
    then have "log_write b s = Inr ((), s)"
      using ii i room op n30 by (simp add: log_write_def run_simps bno take set_lh_block_def Let_def)
    then show ?thesis using True ok h by (auto simp: wp_def intro!: exI [of _ "lh_n s"] exI [of _ "lh_block s"])
  next
    case False
    then have none: "find_index (\<lambda>x. x = bn) (logged s) = None" using find_index_eq(1) [OF dis] by blast
    let ?l = "(lh_block s)[nat (lh_n s) := bn]"
    let ?s = "s\<lparr>lh_n := lh_n s, lh_block := ?l\<rparr>"
    have s: "?s = s\<lparr>lh_block := ?l\<rparr>" by simp
    have hs: "bio_ok ?s" "held ?s b bn" using bok h by (simp_all only: lh_block_cache)
    have lw: "wp (log_write b) Q (\<lambda>_. False) s = wp (thenK (bpin b) (modifyK (\<lambda>s. s\<lparr>lh_n := lh_n s + 1\<rparr>))) Q (\<lambda>_. False) ?s" for Q
      using room op n30 n
      by (simp add: log_write_def bno take set_lh_block_def Let_def none del: find_index_None)
    show ?thesis unfolding lw wp_then
    proof (rule bc.wp_pin [OF hs(1) cache_frame_refl hs(2)])
      fix s1 assume s1: "bio_ok s1" "cache_frame ?s s1" "cache_of s1 = cpin bn 1 (cache_of ?s)" "held s1 b bn"
        and hp: "\<And>c x. x \<noteq> bn \<Longrightarrow> held ?s c x \<Longrightarrow> held s1 c x"
      let ?s2 = "s1\<lparr>lh_n := lh_n s1 + 1\<rparr>"
      note f = cache_frame_log [OF s1(2)]
      have c1: "cache_of s1 = cpin bn 1 (cache_of s)" using s1(3) by (simp only: lh_block_cache)
      have r: "refs s1 = (refs s)(bn := refs s bn + 1)"
        using cache_of_views(4) [OF c1] by (simp add: cpin_def cache_of_sel)
      have hu: "held ?s2 c x = held s1 c x" for c x
        using cache_fields_cong(1) [of ?s2 s1] by (simp add: held_def)
      have lg2: "logged ?s2 = logged s @ [bn]"
        using n n30 by (simp add: logged_def f nat_add_distrib take_Suc_conv_app_nth)
      have "refs ?s2 = refs s1" using cache_fields_cong(3) [of ?s2 s1] by simp
      then have "log_ok ?s2"
        using s1(1) f n n30 dev dis False lg bn refs_nonneg [OF bok, of bn]
        unfolding log_ok_def lg2 by (auto simp: r)
      moreover have "cache_frame (s\<lparr>lh_n := lh_n s + 1, lh_block := ?l\<rparr>) ?s2"
        using cache_frame_lh [OF s1(2), of "lh_n s + 1"] by (cases s) (simp add: f)
      moreover have "\<forall>c x. x \<noteq> bn \<longrightarrow> held s c x \<longrightarrow> held ?s2 c x"
        using hp unfolding hu lh_block_cache by blast
      ultimately show "wp (modifyK (\<lambda>s. s\<lparr>lh_n := lh_n s + 1\<rparr>)) (\<lambda>_ s'. log_ok s' \<and> held s' b bn \<and>
         logged s' = (if bn \<in> set (logged s) then logged s else logged s @ [bn]) \<and>
         cache_of s' = (if bn \<in> set (logged s) then cache_of s else cpin bn 1 (cache_of s)) \<and>
         (\<forall>c x. x \<noteq> bn \<longrightarrow> held s c x \<longrightarrow> held s' c x) \<and> (\<exists>n l. cache_frame (s\<lparr>lh_n := n, lh_block := l\<rparr>) s')) (\<lambda>_. False) s1"
        using False lg2 c1 hu s1(4) unfolding wp_modify by auto
    qed
  qed
qed

subsection \<open>Space in the log\<close>

text \<open>
  The file system calls in progress, each with the number of blocks it may still log.  A call
  starts with \<^verbatim>\<open>begin_op\<close>, logs blocks with \<^verbatim>\<open>log_write\<close> and finishes with \<^verbatim>\<open>end_op\<close>; the calls of
  different processes interleave in any order.
\<close>

inductive tx_step :: "logst \<times> nat list \<Rightarrow> logst \<times> nat list \<Rightarrow> bool" where
  tx_begin: "begin_op s = Inr ((), s') \<Longrightarrow> tx_step (s, ops) (s', MAXOPBLOCKS # ops)"
| tx_write: "i < length ops \<Longrightarrow> 0 < ops ! i \<Longrightarrow> log_write b s = Inr ((), s') \<Longrightarrow>
    tx_step (s, ops) (s', ops[i := ops ! i - 1])"
| tx_end: "i < length ops \<Longrightarrow> end_op s = Inr ((), s') \<Longrightarrow> tx_step (s, ops) (s', take i ops @ drop (Suc i) ops)"

inductive tx_run :: "logst \<Rightarrow> logst \<times> nat list \<Rightarrow> bool" for s0 where
  tx_start: "tx_run s0 (s0, [])"
| tx_more: "tx_run s0 c \<Longrightarrow> tx_step c c' \<Longrightarrow> tx_run s0 c'"

definition space_inv :: "logst \<times> nat list \<Rightarrow> bool" where
  "space_inv c \<longleftrightarrow> (case c of (s, ops) \<Rightarrow> log_outstanding s = int (length ops) \<and> 0 \<le> lh_n s \<and>
     lh_n s + int (sum_list ops) \<le> int LOGBLOCKS \<and> (\<forall>k \<in> set ops. k \<le> MAXOPBLOCKS))"

text \<open>The cache routines leave the log's own fields alone, whatever the state.\<close>

definition keeps_log :: "(logst, 'a) K \<Rightarrow> bool" where
  "keeps_log f \<longleftrightarrow> (\<forall>s. wp f (\<lambda>_ s'. logst.more s' = logst.more s \<and> log_outstanding s' = log_outstanding s \<and>
     lh_n s' = lh_n s) (\<lambda>_. True) s)"

lemma keeps_bind: "keeps_log f \<Longrightarrow> (\<And>x. keeps_log (g x)) \<Longrightarrow> keeps_log (bindK f g)"
  unfolding keeps_log_def wp_bind
proof
  fix s
  assume f: "\<forall>s. wp f (\<lambda>_ s'. logst.more s' = logst.more s \<and> log_outstanding s' = log_outstanding s \<and> lh_n s' = lh_n s) (\<lambda>_. True) s"
    and g: "\<And>x. \<forall>s. wp (g x) (\<lambda>_ s'. logst.more s' = logst.more s \<and> log_outstanding s' = log_outstanding s \<and> lh_n s' = lh_n s) (\<lambda>_. True) s"
  show "wp f (\<lambda>x. wp (g x) (\<lambda>_ s'. logst.more s' = logst.more s \<and> log_outstanding s' = log_outstanding s \<and> lh_n s' = lh_n s) (\<lambda>_. True)) (\<lambda>_. True) s"
    by (rule wp_mono [OF f [rule_format]], rule wp_mono [OF g [rule_format]]) simp
qed

lemma keeps_then: "keeps_log f \<Longrightarrow> keeps_log g \<Longrightarrow> keeps_log (thenK f g)"
  unfolding thenK_def by (rule keeps_bind)

lemma keeps_return [simp]: "keeps_log (returnK x)" and keeps_gets [simp]: "keeps_log (getsK g)"
  and keeps_panic [simp]: "keeps_log (panic m)" and keeps_sleep [simp]: "keeps_log (sleepK c)"
  and keeps_undef [simp]: "keeps_log undefK"
  by (simp_all add: keeps_log_def)

lemma keeps_when: "keeps_log f \<Longrightarrow> keeps_log (whenK b f)"
  by (simp add: whenK_def)

lemma keeps_forK: "(\<And>x. keeps_log (f x)) \<Longrightarrow> keeps_log (forK xs f)"
  by (induction xs) (auto intro: keeps_then)

lemma keeps_set_buf: "keeps_log (set_buf b f)"
  by (simp add: keeps_log_def set_buf_def)

lemmas keeps_rules = keeps_bind keeps_then keeps_when keeps_forK keeps_set_buf keeps_return keeps_gets
  keeps_panic keeps_sleep keeps_undef

lemma keeps_ops: "keeps_log (bread d bn)" "keeps_log (bwrite b)" "keeps_log (brelse b)" "keeps_log (bpin b)"
  "keeps_log (bunpin b)" "keeps_log (get_data b)" "keeps_log (put_data b x)"
proof -
  have lb: "keeps_log (lock_buf b)" for b
    unfolding lock_buf_def get_buf_def by (intro keeps_rules) (auto split: option.split intro!: keeps_rules)
  have vd: "keeps_log (virtio_disk_rw b w)" for b w
    unfolding virtio_disk_rw_def get_buf_def
    by (intro keeps_rules) (auto simp: keeps_log_def set_buf_def)
  have bg: "keeps_log (bget d bn)" for d bn
    unfolding bget_def by (intro keeps_rules) (auto split: option.split intro!: keeps_rules lb)
  show "keeps_log (bread d bn)" unfolding bread_def get_buf_def by (intro keeps_rules bg vd)
  show "keeps_log (bwrite b)" unfolding bwrite_def get_buf_def by (auto intro!: keeps_rules vd)
  have mv: "keeps_log (modifyK (\<lambda>s. s\<lparr>lru := f s\<rparr>))" "keeps_log (wakeup c)" for f c
    by (simp_all add: keeps_log_def wakeup_def)
  show "keeps_log (brelse b)" unfolding brelse_def get_buf_def by (auto intro!: keeps_rules mv)
  show "keeps_log (bpin b)" "keeps_log (bunpin b)" "keeps_log (get_data b)" "keeps_log (put_data b x)"
    unfolding bpin_def bunpin_def get_data_def put_data_def by (intro keeps_rules)+
qed

lemma commit_clears:
  fixes s :: logst
  assumes "0 \<le> lh_n s" "commit s = Inr ((), s')"
  shows "lh_n s' = 0 \<and> log_outstanding s' = log_outstanding s"
proof (cases "0 < lh_n s")
  case True
  have wl: "keeps_log write_log" unfolding write_log_def by (intro keeps_rules) (auto intro!: keeps_rules keeps_ops)
  have wh: "keeps_log write_head" unfolding write_head_def by (intro keeps_rules) (auto intro!: keeps_rules keeps_ops)
  have it: "keeps_log (install_trans False)"
    unfolding install_trans_def whenK_def by (intro keeps_rules) (auto intro!: keeps_rules keeps_ops)
  have first: "keeps_log (thenK write_log (thenK write_head (install_trans False)))" by (intro keeps_rules wl wh it)
  have "wp (thenK (thenK write_log (thenK write_head (install_trans False))) (thenK (modifyK (\<lambda>s. s\<lparr>lh_n := 0\<rparr>)) write_head))
     (\<lambda>_ s'. lh_n s' = 0 \<and> log_outstanding s' = log_outstanding s) (\<lambda>_. True) s"
    unfolding wp_then [of "thenK write_log (thenK write_head (install_trans False))"]
  proof (rule wp_mono [OF first [unfolded keeps_log_def, rule_format]])
    fix s1 :: logst assume s1: "logst.more s1 = logst.more s \<and> log_outstanding s1 = log_outstanding s \<and> lh_n s1 = lh_n s"
    show "wp (thenK (modifyK (\<lambda>s. s\<lparr>lh_n := 0\<rparr>)) write_head) (\<lambda>_ s'. lh_n s' = 0 \<and> log_outstanding s' = log_outstanding s) (\<lambda>_. True) s1"
      unfolding wp_then wp_modify
      by (rule wp_mono [OF wh [unfolded keeps_log_def, rule_format]]) (simp add: s1)
  qed
  then have "wp commit (\<lambda>_ s'. lh_n s' = 0 \<and> log_outstanding s' = log_outstanding s) (\<lambda>_. True) s"
    using True by (simp only: commit_def wp_bind wp_gets wp_when if_True thenK_assoc)
  then show ?thesis using assms(2) by (simp add: wp_partial_all)
next
  case False
  then show ?thesis using assms by (simp add: commit_def run_simps)
qed

lemma log_write_count:
  fixes s :: logst
  assumes "log_write b s = Inr ((), s')"
  shows "(lh_n s' = lh_n s \<or> lh_n s' = lh_n s + 1) \<and> log_outstanding s' = log_outstanding s"
  using assms
  by (auto simp: log_write_def run_simps Let_def set_lh_block_def bpin_def set_buf_def split: if_splits)

lemma begin_op_count:
  fixes s :: logst
  assumes "begin_op s = Inr ((), s')"
  shows "lh_n s' = lh_n s" "log_outstanding s' = log_outstanding s + 1" "lh_n s + (log_outstanding s + 1) * 10 \<le> 30"
  using assms by (auto simp: begin_op_def run_simps split: if_splits)

lemma end_op_count:
  fixes s :: logst
  assumes "end_op s = Inr ((), s')" "0 \<le> lh_n s"
  shows "0 \<le> lh_n s' \<and> lh_n s' \<le> lh_n s \<and> log_outstanding s' = log_outstanding s - 1"
proof (cases "log_outstanding s = 1")
  case True
  let ?s = "s\<lparr>log_outstanding := log_outstanding s - 1, log_committing := True\<rparr>"
  from assms(1) True obtain s1 where "commit ?s = Inr ((), s1)" "lh_n s' = lh_n s1" "log_outstanding s' = log_outstanding s1"
    by (auto simp: end_op_def run_simps wakeup_def split: if_splits sum.splits)
  then show ?thesis using commit_clears [of ?s s1] assms(2) by simp
next
  case False
  then show ?thesis using assms by (auto simp: end_op_def run_simps wakeup_def split: if_splits)
qed

lemma sum_list_bound: "(\<forall>k \<in> set ops. k \<le> (10::nat)) \<Longrightarrow> sum_list ops \<le> 10 * length ops"
  by (induction ops) auto

lemma space_step:
  assumes "tx_step c c'" "space_inv c"
  shows "space_inv c'"
  using assms
proof (induction rule: tx_step.induct)
  case (tx_begin s s' ops)
  then have inv: "log_outstanding s = int (length ops)" "0 \<le> lh_n s" "\<forall>k \<in> set ops. k \<le> 10" by (simp_all add: space_inv_def)
  note b = begin_op_count [OF tx_begin.hyps]
  have "int (sum_list ops) \<le> 10 * int (length ops)" using sum_list_bound [OF inv(3)] by simp
  then show ?case using b inv by (simp add: space_inv_def)
next
  case (tx_write i ops b s s')
  then have inv: "log_outstanding s = int (length ops)" "0 \<le> lh_n s" "lh_n s + int (sum_list ops) \<le> 30" "\<forall>k \<in> set ops. k \<le> 10"
    by (simp_all add: space_inv_def)
  have m: "ops ! i \<le> sum_list ops" using tx_write.hyps(1) by (rule elem_le_sum_list)
  have "sum_list (ops[i := ops ! i - 1]) = sum_list ops - 1"
    using sum_list_update [OF tx_write.hyps(1), of "ops ! i - 1"] tx_write.hyps(2) m by simp
  moreover have "\<forall>k \<in> set (ops[i := ops ! i - 1]). k \<le> 10"
    using inv(4) tx_write.hyps(1) set_update_subset_insert [of ops i "ops ! i - 1"] nth_mem [of i ops] by fastforce
  moreover have "1 \<le> sum_list ops" using m tx_write.hyps(2) by simp
  ultimately show ?case using inv log_write_count [OF tx_write.hyps(3)] by (auto simp: space_inv_def)
next
  case (tx_end i ops s s')
  then have inv: "log_outstanding s = int (length ops)" "0 \<le> lh_n s" "lh_n s + int (sum_list ops) \<le> 30" "\<forall>k \<in> set ops. k \<le> 10"
    by (simp_all add: space_inv_def)
  have ops: "ops = take i ops @ ops ! i # drop (Suc i) ops" using tx_end.hyps(1) by (rule id_take_nth_drop)
  have "sum_list ops = sum_list (take i ops) + ops ! i + sum_list (drop (Suc i) ops)" by (subst ops) simp
  moreover have "\<forall>k \<in> set (take i ops @ drop (Suc i) ops). k \<le> 10" using inv(4) by (auto dest: in_set_takeD in_set_dropD)
  ultimately show ?case using inv end_op_count [OF tx_end.hyps(2)] tx_end.hyps(1) by (simp add: space_inv_def)
qed

lemma space_run: "tx_run s0 c \<Longrightarrow> lh_n s0 = 0 \<Longrightarrow> log_outstanding s0 = 0 \<Longrightarrow> space_inv c"
proof (induction rule: tx_run.induct)
  case tx_start
  then show ?case by (simp add: space_inv_def)
next
  case (tx_more c c')
  then show ?case using space_step by blast
qed

subsection \<open>Properties\<close>


definition idle_log :: "int \<Rightarrow> logst" where
  "idle_log n = one_logged\<lparr>log_outstanding := n, log_committing := False, lh_n := 0\<rparr>"


text \<open>A log filled by one transaction: blocks 100 to 129, each in its own buffer and pinned once.\<close>

definition full_buf :: "nat \<Rightarrow> buf" where
  "full_buf i = \<lparr>valid = True, dev = 1, blockno = 100 + i, block = initsleeplock ''buffer'', refcnt = 1,
     data = replicate 1024 1\<rparr>"

definition full_log :: logst where
  "full_log = one_logged\<lparr>bufs := map full_buf [0..<30], lh_n := 30, lh_block := map (\<lambda>i. 100 + i) [0..<30]\<rparr>"

lemma full_log_sel: "i < 30 \<Longrightarrow> bufs full_log ! i = full_buf i" "lh_n full_log = 30" "lh_block full_log = map (\<lambda>i. 100 + i) [0..<30]"
  "length (bufs full_log) = 30" "log_start full_log = 2" "log_dev full_log = 1" "lru full_log = rev [0..<30]"
  "disk full_log b = replicate 1024 0" "logged full_log = map (\<lambda>i. 100 + i) [0..<30]"
  by (simp_all add: full_log_def one_logged_def bio.defs logst.defs fresh_cache_def logged_def)

lemma full_log_bio: "bio_ok full_log"
  by (auto simp: bio_ok_def full_log_sel buf_ok_def full_buf_def initsleeplock_def)

lemma full_log_slot: "slot full_log b = (if 100 \<le> b \<and> b < 130 then Some (b - 100) else None)"
proof (cases "100 \<le> b \<and> b < 130")
  case True
  then have "b - 100 < 30" by auto
  then show ?thesis using True slot_eq [OF full_log_bio, of "b - 100" b] by (simp add: caches_def full_log_sel full_buf_def)
next
  case False
  have "slot full_log b \<noteq> Some i" for i
    using slot_Some [of full_log b i] False by (auto simp: caches_def full_log_sel full_buf_def)
  then show ?thesis using False by (cases "slot full_log b") auto
qed

lemma full_log_views: "refs full_log b = (if 100 \<le> b \<and> b < 130 then 1 else 0)" "\<not> blocked full_log b"
  "in_use full_log = {100..<130}"
proof -
  show r: "refs full_log b = (if 100 \<le> b \<and> b < 130 then 1 else 0)" for b
    by (auto simp: refs_def full_log_slot full_log_sel full_buf_def)
  show "\<not> blocked full_log b" by (auto simp: blocked_def full_log_slot full_log_sel full_buf_def initsleeplock_def)
  show "in_use full_log = {100..<130}" by (auto simp: in_use_def r split: if_splits)
qed

lemma full_log_set: "set (logged full_log) = {100..<130}"
  unfolding full_log_sel(9) by (simp add: image_add_atLeastLessThan)

lemma full_log_ok: "log_ok full_log"
  unfolding log_ok_def full_log_set full_log_sel
  by (auto simp: full_log_bio full_log_views distinct_map inj_on_def log_area_def)

text \<open>
  C37: The cache has no buffer to spare for the log: when a transaction has filled the log with
  \<^verbatim>\<open>LOGBLOCKS\<close> pinned blocks, all \<^verbatim>\<open>NBUF\<close> buffers are in use and \<^verbatim>\<open>commit\<close> panics at the first log block.
\<close>

theorem commit_panics_on_full_log:
  assumes ok: "log_ok s" and full: "lh_n s = int LOGBLOCKS" and own: "in_use s = set (logged s)"
    and idle: "\<forall>b. \<not> blocked s b"
  shows "commit s = Inl (Panic ''bget: no buffers'')"
proof -
  have bok: "bio_ok s" and dev: "log_dev s = 1" and dis: "distinct (logged s)" and len: "length (lh_block s) = 30"
    and area: "set (logged s) \<inter> log_area (log_start s) = {}" using ok by (simp_all add: log_ok_def)
  have "card (in_use s) = 30" using distinct_card [OF dis] own full len by (simp add: logged_def)
  moreover have "log_start s + 1 \<notin> in_use s" using own area by (auto simp: log_area_def)
  ultimately have "bread 1 (log_start s + 1) s = Inl (Panic ''bget: no buffers'')"
    by (rule bread_no_buffers [OF bok])
  then show ?thesis using full
    by (simp add: commit_def write_log_def run_simps dev upt_conv_Cons)
qed

theorem commit_panics_on_full_log_witness: "commit full_log = Inl (Panic ''bget: no buffers'')"
  by (rule commit_panics_on_full_log [OF full_log_ok])
    (simp_all add: full_log_sel(2) full_log_views full_log_set)

end
