(* ===== verification/Fs.thy ===== *)
theory Fs
  imports Log_Ops
begin

section \<open>The file system (kernel/fs.c)\<close>

text \<open>
  Definitions for every routine of \<^verbatim>\<open>kernel/fs.c\<close>, in its order: blocks, inodes, inode contents,
  directories, paths.  An inode pointer is an index into the table \<^verbatim>\<open>itable.inode\<close>; a null
  pointer is None.  The 32-bit and 16-bit fields of the disk structures are kept at
  their width by the encoding; numbers in memory are naturals below \<open>2 ^ 32\<close> and the C
  \<^verbatim>\<open>short\<close> fields are integers.  \<open>kbuf\<close> arguments are kernel buffers, see \<open>either_copyout\<close>.
\<close>

abbreviation (input) ROOTINO :: nat where "ROOTINO \<equiv> 1"
abbreviation (input) FSMAGIC :: nat where "FSMAGIC \<equiv> 0x10203040"
abbreviation (input) NDIRECT :: nat where "NDIRECT \<equiv> 12"
abbreviation (input) NINDIRECT :: nat where "NINDIRECT \<equiv> 256"
abbreviation (input) MAXFILE :: nat where "MAXFILE \<equiv> 268"
abbreviation (input) IPB :: nat where "IPB \<equiv> 16"
abbreviation (input) BPB :: nat where "BPB \<equiv> 8192"
abbreviation (input) DIRSIZ :: nat where "DIRSIZ \<equiv> 14"
abbreviation (input) T_DIR :: int where "T_DIR \<equiv> 1"
abbreviation (input) T_FILE :: int where "T_FILE \<equiv> 2"
abbreviation (input) T_DEVICE :: int where "T_DEVICE \<equiv> 3"

record superblock =
  sb_magic :: nat
  sb_size :: nat
  sb_nblocks :: nat
  sb_ninodes :: nat
  sb_nlog :: nat
  sb_logstart :: nat
  sb_inodestart :: nat
  sb_bmapstart :: nat

record inode =
  i_dev :: nat
  i_inum :: nat
  i_ref :: int
  i_lock :: sleeplock
  i_valid :: bool
  i_type :: int
  i_major :: int
  i_minor :: int
  i_nlink :: int
  i_size :: nat
  i_addrs :: "nat list"

record fs = logst +
  sb :: superblock
  itable :: "inode list"
  p_cwd :: nat   \<comment> \<open>\<^verbatim>\<open>myproc()->cwd\<close>\<close>

definition IBLOCK :: "nat \<Rightarrow> superblock \<Rightarrow> nat" where
  "IBLOCK i sb' = i div IPB + sb_inodestart sb'"

definition BBLOCK :: "nat \<Rightarrow> superblock \<Rightarrow> nat" where
  "BBLOCK b sb' = b div BPB + sb_bmapstart sb'"

text \<open>A C \<^verbatim>\<open>short\<close>: 16 bits, signed.\<close>

definition short :: "int \<Rightarrow> int" where
  "short x = (let y = x mod 2 ^ 16 in if y < 2 ^ 15 then y else y - 2 ^ 16)"

definition get_short :: "byte list \<Rightarrow> nat \<Rightarrow> int" where
  "get_short d off = short (int (get_le 2 d off))"

definition put_short :: "nat \<Rightarrow> int \<Rightarrow> byte list \<Rightarrow> byte list" where
  "put_short off v d = put_le 2 off (nat (v mod 2 ^ 16)) d"

definition get_inode :: "nat \<Rightarrow> ('z fs_scheme, inode) K" where
  "get_inode ip = getsK (\<lambda>s. itable s ! ip)"

definition set_inode :: "nat \<Rightarrow> (inode \<Rightarrow> inode) \<Rightarrow> ('z fs_scheme, unit) K" where
  "set_inode ip f = modifyK (\<lambda>s. s\<lparr>itable := (itable s)[ip := f (itable s ! ip)]\<rparr>)"

subsection \<open>The super block\<close>

definition decode_sb :: "byte list \<Rightarrow> superblock" where
  "decode_sb d = \<lparr>sb_magic = get_le 4 d 0, sb_size = get_le 4 d 4, sb_nblocks = get_le 4 d 8, sb_ninodes = get_le 4 d 12,
     sb_nlog = get_le 4 d 16, sb_logstart = get_le 4 d 20, sb_inodestart = get_le 4 d 24, sb_bmapstart = get_le 4 d 28\<rparr>"

definition readsb :: "nat \<Rightarrow> ('z fs_scheme, unit) K" where
  "readsb d =
     bindK (bread d 1) (\<lambda>bp.
     bindK (get_data bp) (\<lambda>x.
     thenK (modifyK (\<lambda>s. s\<lparr>sb := decode_sb x\<rparr>)) (brelse bp)))"

subsection \<open>Blocks\<close>

definition bzero :: "nat \<Rightarrow> nat \<Rightarrow> ('z fs_scheme, unit) K" where
  "bzero d bno =
     bindK (bread d bno) (\<lambda>bp.
     thenK (put_data bp (replicate BSIZE 0)) (thenK (log_write bp) (brelse bp)))"

text \<open>\<^verbatim>\<open>bp->data[bi/8] & (1 << (bi % 8))\<close>, and the two updates of that bit.\<close>

definition bit_at :: "byte list \<Rightarrow> nat \<Rightarrow> bool" where
  "bit_at x bi \<longleftrightarrow> (x ! (bi div 8)) AND push_bit (bi mod 8) 1 \<noteq> 0"

definition bit_set :: "nat \<Rightarrow> byte list \<Rightarrow> byte list" where
  "bit_set bi x = x[bi div 8 := (x ! (bi div 8)) OR push_bit (bi mod 8) 1]"

definition bit_clear :: "nat \<Rightarrow> byte list \<Rightarrow> byte list" where
  "bit_clear bi x = x[bi div 8 := (x ! (bi div 8)) AND NOT (push_bit (bi mod 8) 1)]"

text \<open>\<^verbatim>\<open>balloc\<close> from bitmap block \<open>g\<close> on; \<^verbatim>\<open>b\<close> is \<open>g * BPB\<close>.\<close>

definition out_of_blocks :: "byte list" where
  "out_of_blocks = str ''balloc: out of blocks'' @ [10]"

function balloc_from :: "nat \<Rightarrow> nat \<Rightarrow> nat \<Rightarrow> ('z fs_scheme, nat) K" where
  "balloc_from d lim g =
     (if g * BPB < lim then
        bindK (getsK (\<lambda>s. BBLOCK (g * BPB) (sb s))) (\<lambda>bb.
        bindK (bread d bb) (\<lambda>bp.
        bindK (get_data bp) (\<lambda>x.
        case find (\<lambda>bi. \<not> bit_at x bi) [0..<min BPB (lim - g * BPB)] of
          Some bi \<Rightarrow>
            thenK (put_data bp (bit_set bi x))
           (thenK (log_write bp)
           (thenK (brelse bp)
           (thenK (bzero d (g * BPB + bi)) (returnK (g * BPB + bi)))))
        | None \<Rightarrow> thenK (brelse bp) (balloc_from d lim (g + 1)))))
      else thenK (printf out_of_blocks []) (returnK 0))"
  by pat_completeness auto
termination by (relation "measure (\<lambda>(d, lim, g). lim - g * BPB)") auto

declare balloc_from.simps [simp del]

definition balloc :: "nat \<Rightarrow> ('z fs_scheme, nat) K" where
  "balloc d = bindK (getsK (\<lambda>s. sb_size (sb s))) (\<lambda>lim. balloc_from d lim 0)"

definition bfree :: "nat \<Rightarrow> nat \<Rightarrow> ('z fs_scheme, unit) K" where
  "bfree d b =
     bindK (getsK (\<lambda>s. BBLOCK b (sb s))) (\<lambda>bb.
     bindK (bread d bb) (\<lambda>bp.
     bindK (get_data bp) (\<lambda>x.
     let bi = b mod BPB in
     if \<not> bit_at x bi then panic ''freeing free block''
     else thenK (put_data bp (bit_clear bi x)) (thenK (log_write bp) (brelse bp)))))"

subsection \<open>Inodes\<close>

definition iinit :: "('z fs_scheme, unit) K" where
  "iinit = forK [0..<NINODE] (\<lambda>i. set_inode i (\<lambda>ip. ip\<lparr>i_lock := initsleeplock ''inode''\<rparr>))"

text \<open>The disk inode \<open>inum % IPB\<close> of a block, and its update.\<close>

definition dinode_off :: "nat \<Rightarrow> nat" where
  "dinode_off inum = 64 * (inum mod IPB)"

definition dinode_type :: "byte list \<Rightarrow> nat \<Rightarrow> int" where
  "dinode_type x inum = get_short x (dinode_off inum)"

definition dinode_nlink :: "byte list \<Rightarrow> nat \<Rightarrow> int" where
  "dinode_nlink x inum = get_short x (dinode_off inum + 6)"

definition load_dinode :: "byte list \<Rightarrow> nat \<Rightarrow> inode \<Rightarrow> inode" where
  "load_dinode x inum ip =
     (let o' = dinode_off inum in
      ip\<lparr>i_type := get_short x o', i_major := get_short x (o' + 2), i_minor := get_short x (o' + 4),
         i_nlink := get_short x (o' + 6), i_size := get_le 4 x (o' + 8),
         i_addrs := map (\<lambda>k. get_le 4 x (o' + 12 + 4 * k)) [0..<NDIRECT + 1]\<rparr>)"

definition store_dinode :: "inode \<Rightarrow> byte list \<Rightarrow> byte list" where
  "store_dinode ip x =
     (let o' = dinode_off (i_inum ip) in
      fold (\<lambda>k. put_le 4 (o' + 12 + 4 * k) (i_addrs ip ! k)) [0..<NDIRECT + 1]
        (put_le 4 (o' + 8) (i_size ip)
        (put_short (o' + 6) (i_nlink ip)
        (put_short (o' + 4) (i_minor ip)
        (put_short (o' + 2) (i_major ip)
        (put_short o' (i_type ip) x))))))"

definition clear_dinode :: "nat \<Rightarrow> byte list \<Rightarrow> byte list" where
  "clear_dinode inum x = overwrite x (dinode_off inum) (replicate 64 0)"

text \<open>\<^verbatim>\<open>iget\<close>: a referenced entry with these numbers, or the first unreferenced one.\<close>

definition iget :: "nat \<Rightarrow> nat \<Rightarrow> ('z fs_scheme, nat) K" where
  "iget d inum =
     bindK (getsK itable) (\<lambda>t.
     case find_index (\<lambda>ip. 0 < i_ref ip \<and> i_dev ip = d \<and> i_inum ip = inum) t of
       Some ip \<Rightarrow> thenK (set_inode ip (\<lambda>n. n\<lparr>i_ref := i_ref n + 1\<rparr>)) (returnK ip)
     | None \<Rightarrow>
         (case find_index (\<lambda>ip. i_ref ip = 0) t of
            None \<Rightarrow> panic ''iget: no inodes''
          | Some ip \<Rightarrow>
              thenK (set_inode ip (\<lambda>n. n\<lparr>i_dev := d, i_inum := inum, i_ref := 1, i_valid := False\<rparr>)) (returnK ip)))"

definition no_inodes :: "byte list" where
  "no_inodes = str ''ialloc: no inodes'' @ [10]"

function ialloc_from :: "nat \<Rightarrow> int \<Rightarrow> nat \<Rightarrow> nat \<Rightarrow> ('z fs_scheme, nat option) K" where
  "ialloc_from d type ninodes inum =
     (if inum < ninodes then
        bindK (getsK (\<lambda>s. IBLOCK inum (sb s))) (\<lambda>ib.
        bindK (bread d ib) (\<lambda>bp.
        bindK (get_data bp) (\<lambda>x.
        if dinode_type x inum = 0 then
          thenK (put_data bp (put_short (dinode_off inum) type (clear_dinode inum x)))
         (thenK (log_write bp)
         (thenK (brelse bp)
         (bindK (iget d inum) (\<lambda>ip. returnK (Some ip)))))
        else thenK (brelse bp) (ialloc_from d type ninodes (inum + 1)))))
      else thenK (printf no_inodes []) (returnK None))"
  by pat_completeness auto
termination by (relation "measure (\<lambda>(d, type, ninodes, inum). ninodes - inum)") auto

declare ialloc_from.simps [simp del]

definition ialloc :: "nat \<Rightarrow> int \<Rightarrow> ('z fs_scheme, nat option) K" where
  "ialloc d type = bindK (getsK (\<lambda>s. sb_ninodes (sb s))) (\<lambda>n. ialloc_from d type n 1)"

definition iupdate :: "nat \<Rightarrow> ('z fs_scheme, unit) K" where
  "iupdate ip =
     bindK (get_inode ip) (\<lambda>n.
     bindK (getsK (\<lambda>s. IBLOCK (i_inum n) (sb s))) (\<lambda>ib.
     bindK (bread (i_dev n) ib) (\<lambda>bp.
     bindK (get_data bp) (\<lambda>x.
     thenK (put_data bp (store_dinode n x)) (thenK (log_write bp) (brelse bp))))))"

definition idup :: "nat \<Rightarrow> ('z fs_scheme, nat) K" where
  "idup ip = thenK (set_inode ip (\<lambda>n. n\<lparr>i_ref := i_ref n + 1\<rparr>)) (returnK ip)"

text \<open>\<^verbatim>\<open>acquiresleep\<close> and \<^verbatim>\<open>releasesleep\<close> on an inode.\<close>

definition lock_inode :: "nat \<Rightarrow> ('z fs_scheme, unit) K" where
  "lock_inode ip =
     bindK (get_inode ip) (\<lambda>n.
     bindK (getsK p_pid) (\<lambda>pid.
     case acquiresleep pid (i_lock n) of
       None \<Rightarrow> sleepK ''inode''
     | Some lk \<Rightarrow> set_inode ip (\<lambda>n. n\<lparr>i_lock := lk\<rparr>)))"

definition unlock_inode :: "nat \<Rightarrow> ('z fs_scheme, unit) K" where
  "unlock_inode ip =
     thenK (set_inode ip (\<lambda>n. n\<lparr>i_lock := releasesleep (i_lock n)\<rparr>)) (wakeup (''inode'', ip))"

definition ilock :: "nat \<Rightarrow> ('z fs_scheme, unit) K" where
  "ilock ip =
     bindK (get_inode ip) (\<lambda>n0.
     if i_ref n0 < 1 then panic ''ilock''
     else
       thenK (lock_inode ip)
      (bindK (get_inode ip) (\<lambda>n.
       whenK (\<not> i_valid n)
        (bindK (getsK (\<lambda>s. IBLOCK (i_inum n) (sb s))) (\<lambda>ib.
         bindK (bread (i_dev n) ib) (\<lambda>bp.
         bindK (get_data bp) (\<lambda>x.
         thenK (set_inode ip (load_dinode x (i_inum n)))
        (thenK (brelse bp)
        (thenK (set_inode ip (\<lambda>n. n\<lparr>i_valid := True\<rparr>))
        (bindK (get_inode ip) (\<lambda>n'.
         if i_type n' = 0 then panic ''ilock: no type'' else returnK ())))))))))))"

definition iunlock :: "nat \<Rightarrow> ('z fs_scheme, unit) K" where
  "iunlock ip =
     bindK (get_inode ip) (\<lambda>n.
     bindK (getsK p_pid) (\<lambda>pid.
     if \<not> holdingsleep pid (i_lock n) \<or> i_ref n < 1 then panic ''iunlock'' else unlock_inode ip))"

subsection \<open>Inode contents\<close>

definition bmap :: "nat \<Rightarrow> nat \<Rightarrow> ('z fs_scheme, nat) K" where
  "bmap ip bn =
     bindK (get_inode ip) (\<lambda>n.
     if bn < NDIRECT then
       (if i_addrs n ! bn \<noteq> 0 then returnK (i_addrs n ! bn)
        else
          bindK (balloc (i_dev n)) (\<lambda>addr.
          if addr = 0 then returnK 0
          else thenK (set_inode ip (\<lambda>n. n\<lparr>i_addrs := (i_addrs n)[bn := addr]\<rparr>)) (returnK addr)))
     else if bn - NDIRECT < NINDIRECT then
       bindK (if i_addrs n ! NDIRECT \<noteq> 0 then returnK (i_addrs n ! NDIRECT)
              else
                bindK (balloc (i_dev n)) (\<lambda>addr.
                if addr = 0 then returnK 0
                else thenK (set_inode ip (\<lambda>n. n\<lparr>i_addrs := (i_addrs n)[NDIRECT := addr]\<rparr>)) (returnK addr))) (\<lambda>ind.
       if ind = 0 then returnK 0
       else
         bindK (bread (i_dev n) ind) (\<lambda>bp.
         bindK (get_data bp) (\<lambda>a.
         let addr = get_le 4 a (4 * (bn - NDIRECT)) in
         if addr \<noteq> 0 then thenK (brelse bp) (returnK addr)
         else
           bindK (balloc (i_dev n)) (\<lambda>addr'.
           thenK (whenK (addr' \<noteq> 0)
             (thenK (put_data bp (put_le 4 (4 * (bn - NDIRECT)) addr' a)) (log_write bp)))
          (thenK (brelse bp) (returnK addr'))))))
     else panic ''bmap: out of range'')"

definition itrunc :: "nat \<Rightarrow> ('z fs_scheme, unit) K" where
  "itrunc ip =
     thenK (forK [0..<NDIRECT] (\<lambda>i.
       bindK (get_inode ip) (\<lambda>n.
       whenK (i_addrs n ! i \<noteq> 0)
         (thenK (bfree (i_dev n) (i_addrs n ! i)) (set_inode ip (\<lambda>n. n\<lparr>i_addrs := (i_addrs n)[i := 0]\<rparr>))))))
    (thenK (bindK (get_inode ip) (\<lambda>n.
       whenK (i_addrs n ! NDIRECT \<noteq> 0)
        (bindK (bread (i_dev n) (i_addrs n ! NDIRECT)) (\<lambda>bp.
         bindK (get_data bp) (\<lambda>a.
         thenK (forK [0..<NINDIRECT] (\<lambda>j. whenK (get_le 4 a (4 * j) \<noteq> 0) (bfree (i_dev n) (get_le 4 a (4 * j)))))
        (thenK (brelse bp)
        (thenK (bfree (i_dev n) (i_addrs n ! NDIRECT))
               (set_inode ip (\<lambda>n. n\<lparr>i_addrs := (i_addrs n)[NDIRECT := 0]\<rparr>)))))))))
    (thenK (set_inode ip (\<lambda>n. n\<lparr>i_size := 0\<rparr>)) (iupdate ip)))"

definition iput :: "nat \<Rightarrow> ('z fs_scheme, unit) K" where
  "iput ip =
     bindK (get_inode ip) (\<lambda>n.
     thenK (whenK (i_ref n = 1 \<and> i_valid n \<and> i_nlink n = 0)
       (thenK (lock_inode ip)
       (thenK (itrunc ip)
       (thenK (set_inode ip (\<lambda>n. n\<lparr>i_type := 0\<rparr>))
       (thenK (iupdate ip)
       (thenK (set_inode ip (\<lambda>n. n\<lparr>i_valid := False\<rparr>)) (unlock_inode ip)))))))
     (set_inode ip (\<lambda>n. n\<lparr>i_ref := i_ref n - 1\<rparr>)))"

definition iunlockput :: "nat \<Rightarrow> ('z fs_scheme, unit) K" where
  "iunlockput ip = thenK (iunlock ip) (iput ip)"

definition orphan_text :: "byte list" where
  "orphan_text = str ''ireclaim: orphaned inode %d'' @ [10]"

definition ireclaim :: "nat \<Rightarrow> ('z fs_scheme, unit) K" where
  "ireclaim d =
     bindK (getsK (\<lambda>s. sb_ninodes (sb s))) (\<lambda>ninodes.
     forK [1..<ninodes] (\<lambda>inum.
       bindK (getsK (\<lambda>s. IBLOCK inum (sb s))) (\<lambda>ib.
       bindK (bread d ib) (\<lambda>bp.
       bindK (get_data bp) (\<lambda>x.
       bindK (if dinode_type x inum \<noteq> 0 \<and> dinode_nlink x inum = 0
              then thenK (printf orphan_text [Reg (of_nat inum)]) (bindK (iget d inum) (\<lambda>ip. returnK (Some ip)))
              else returnK None) (\<lambda>orphan.
       thenK (brelse bp)
         (case orphan of
            None \<Rightarrow> returnK ()
          | Some ip \<Rightarrow>
              thenK begin_op (thenK (ilock ip) (thenK (iunlock ip) (thenK (iput ip) end_op))))))))))"

definition fsinit :: "nat \<Rightarrow> ('z fs_scheme, unit) K" where
  "fsinit d =
     thenK (readsb d)
    (bindK (getsK sb) (\<lambda>sb'.
     if sb_magic sb' \<noteq> FSMAGIC then panic ''invalid file system''
     else thenK (initlog d (sb_logstart sb')) (ireclaim d)))"

text \<open>\<^verbatim>\<open>struct stat\<close>\<close>

record stat =
  st_dev :: nat
  st_ino :: nat
  st_type :: int
  st_nlink :: int
  st_size :: nat

definition stati :: "inode \<Rightarrow> stat" where
  "stati ip = \<lparr>st_dev = i_dev ip, st_ino = i_inum ip, st_type = i_type ip, st_nlink = i_nlink ip, st_size = i_size ip\<rparr>"

text \<open>The bytes that one round of the copy loops moves: to the end of the block, or all.\<close>

definition block_chunk :: "nat \<Rightarrow> nat \<Rightarrow> nat" where
  "block_chunk off rest = min rest (BSIZE - off mod BSIZE)"

lemma block_chunk_pos: "0 < rest \<Longrightarrow> 0 < block_chunk off rest"
  by (simp add: block_chunk_def)

lemma block_chunk_less: "tot < n \<Longrightarrow> n - (tot + block_chunk off (n - tot)) < n - tot"
  using block_chunk_pos [of "n - tot" off] by simp

function readi_loop :: "nat \<Rightarrow> bool \<Rightarrow> u64 \<Rightarrow> nat \<Rightarrow> nat \<Rightarrow> nat \<Rightarrow> byte list \<Rightarrow> ('z fs_scheme, int \<times> byte list) K" where
  "readi_loop ip user_dst dst off n tot kbuf =
     (if tot < n then
        bindK (bmap ip (off div BSIZE)) (\<lambda>addr.
        if addr = 0 then returnK (int tot, kbuf)
        else
          bindK (get_inode ip) (\<lambda>i.
          bindK (bread (i_dev i) addr) (\<lambda>bp.
          bindK (get_data bp) (\<lambda>x.
          let m = block_chunk off (n - tot) in
          bindK (either_copyout user_dst dst (take m (drop (off mod BSIZE) x)) kbuf) (\<lambda>(r, kbuf').
          if r = -1 then thenK (brelse bp) (returnK (-1, kbuf'))
          else thenK (brelse bp) (readi_loop ip user_dst (dst + of_nat m) (off + m) n (tot + m) kbuf'))))))
      else returnK (int tot, kbuf))"
  by pat_completeness auto
termination
  by (relation "measure (\<lambda>(ip, user_dst, dst, off, n, tot, kbuf). n - tot)") (auto simp: block_chunk_less)

declare readi_loop.simps [simp del]

definition readi :: "nat \<Rightarrow> bool \<Rightarrow> u64 \<Rightarrow> nat \<Rightarrow> nat \<Rightarrow> ('z fs_scheme, int \<times> byte list) K" where
  "readi ip user_dst dst off n =
     bindK (get_inode ip) (\<lambda>i.
     if off > i_size i \<or> (off + n) mod 2 ^ 32 < off then returnK (0, [])
     else readi_loop ip user_dst dst off (if off + n > i_size i then i_size i - off else n) 0 [])"

text \<open>\<^verbatim>\<open>writei\<close>'s loop yields \<^verbatim>\<open>tot\<close> and the final \<^verbatim>\<open>off\<close>.\<close>

function writei_loop :: "nat \<Rightarrow> bool \<Rightarrow> u64 \<Rightarrow> byte list \<Rightarrow> nat \<Rightarrow> nat \<Rightarrow> nat \<Rightarrow> ('z fs_scheme, nat \<times> nat) K" where
  "writei_loop ip user_src src kbuf off n tot =
     (if tot < n then
        bindK (bmap ip (off div BSIZE)) (\<lambda>addr.
        if addr = 0 then returnK (tot, off)
        else
          bindK (get_inode ip) (\<lambda>i.
          bindK (bread (i_dev i) addr) (\<lambda>bp.
          bindK (get_data bp) (\<lambda>x.
          let m = block_chunk off (n - tot) in
          bindK (either_copyin user_src src kbuf tot m) (\<lambda>(r, bs).
          thenK (put_data bp (overwrite x (off mod BSIZE) bs))
           (if r = -1 then thenK (brelse bp) (returnK (tot, off))
            else thenK (log_write bp) (thenK (brelse bp)
              (writei_loop ip user_src src kbuf (off + m) n (tot + m)))))))))
      else returnK (tot, off))"
  by pat_completeness auto
termination
  by (relation "measure (\<lambda>(ip, user_src, src, kbuf, off, n, tot). n - tot)") (auto simp: block_chunk_less)

declare writei_loop.simps [simp del]

definition writei :: "nat \<Rightarrow> bool \<Rightarrow> u64 \<Rightarrow> byte list \<Rightarrow> nat \<Rightarrow> nat \<Rightarrow> ('z fs_scheme, int) K" where
  "writei ip user_src src kbuf off n =
     bindK (get_inode ip) (\<lambda>i.
     if off > i_size i \<or> (off + n) mod 2 ^ 32 < off then returnK (-1)
     else if off + n > MAXFILE * BSIZE then returnK (-1)
     else
       bindK (writei_loop ip user_src src kbuf off n 0) (\<lambda>(tot, off').
       thenK (set_inode ip (\<lambda>i. if off' > i_size i then i\<lparr>i_size := off'\<rparr> else i))
      (thenK (iupdate ip) (returnK (int tot)))))"

subsection \<open>Directories\<close>

text \<open>\<^verbatim>\<open>strncmp\<close> and \<^verbatim>\<open>strncpy\<close> on the bytes of names; beyond the end of a list there is a NUL.\<close>

fun name_cmp :: "nat \<Rightarrow> byte list \<Rightarrow> byte list \<Rightarrow> int" where
  "name_cmp 0 p q = 0"
| "name_cmp (Suc n) p q =
     (let a = char_at p 0; b = char_at q 0 in
      if a \<noteq> 0 \<and> a = b then name_cmp n (tl p) (tl q) else uint a - uint b)"

definition namecmp :: "byte list \<Rightarrow> byte list \<Rightarrow> int" where
  "namecmp p q = name_cmp DIRSIZ p q"

definition dirent_name :: "byte list \<Rightarrow> byte list" where
  "dirent_name nm = take DIRSIZ (takeWhile (\<lambda>c. c \<noteq> 0) nm @ replicate DIRSIZ 0)"

text \<open>A directory entry: two bytes of inode number and the name.\<close>

definition de_inum :: "byte list \<Rightarrow> nat" where
  "de_inum de = get_le 2 de 0"

definition de_name :: "byte list \<Rightarrow> byte list" where
  "de_name de = drop 2 de"

definition mk_dirent :: "nat \<Rightarrow> byte list \<Rightarrow> byte list" where
  "mk_dirent inum nm = enc 2 inum @ dirent_name nm"

text \<open>The scan of \<^verbatim>\<open>dirlookup\<close> from offset \<open>off\<close>: the inode and the offset of the entry.\<close>

function dirlookup_from :: "nat \<Rightarrow> byte list \<Rightarrow> nat \<Rightarrow> nat \<Rightarrow> ('z fs_scheme, (nat \<times> nat) option) K" where
  "dirlookup_from dp nm lim off =
     (if off < lim then
        bindK (readi dp False 0 off 16) (\<lambda>(r, de).
        if r \<noteq> 16 then panic ''dirlookup read''
        else if de_inum de = 0 then dirlookup_from dp nm lim (off + 16)
        else if namecmp nm (de_name de) = 0 then
          bindK (get_inode dp) (\<lambda>i. bindK (iget (i_dev i) (de_inum de)) (\<lambda>ip. returnK (Some (ip, off))))
        else dirlookup_from dp nm lim (off + 16))
      else returnK None)"
  by pat_completeness auto
termination by (relation "measure (\<lambda>(dp, nm, lim, off). lim - off)") auto

declare dirlookup_from.simps [simp del]

definition dirlookup :: "nat \<Rightarrow> byte list \<Rightarrow> ('z fs_scheme, (nat \<times> nat) option) K" where
  "dirlookup dp nm =
     bindK (get_inode dp) (\<lambda>i.
     if i_type i \<noteq> T_DIR then panic ''dirlookup not DIR'' else dirlookup_from dp nm (i_size i) 0)"

text \<open>The offset of the first empty entry, or the size of the directory.\<close>

function empty_dirent :: "nat \<Rightarrow> nat \<Rightarrow> nat \<Rightarrow> ('z fs_scheme, nat) K" where
  "empty_dirent dp lim off =
     (if off < lim then
        bindK (readi dp False 0 off 16) (\<lambda>(r, de).
        if r \<noteq> 16 then panic ''dirlink read''
        else if de_inum de = 0 then returnK off
        else empty_dirent dp lim (off + 16))
      else returnK off)"
  by pat_completeness auto
termination by (relation "measure (\<lambda>(dp, lim, off). lim - off)") auto

declare empty_dirent.simps [simp del]

definition dirlink :: "nat \<Rightarrow> byte list \<Rightarrow> nat \<Rightarrow> ('z fs_scheme, int) K" where
  "dirlink dp nm inum =
     bindK (dirlookup dp nm) (\<lambda>found.
     case found of
       Some (ip, _) \<Rightarrow> thenK (iput ip) (returnK (-1))
     | None \<Rightarrow>
         bindK (get_inode dp) (\<lambda>i.
         bindK (empty_dirent dp (i_size i) 0) (\<lambda>off.
         bindK (writei dp False 0 (mk_dirent inum nm) off 16) (\<lambda>r.
         returnK (if r \<noteq> 16 then -1 else 0)))))"

subsection \<open>Paths\<close>

abbreviation (input) slash :: byte where "slash \<equiv> 47"

text \<open>
  \<^verbatim>\<open>skipelem\<close>: the next element, cut to \<^verbatim>\<open>DIRSIZ\<close> bytes, and the rest of the path; None when there
  is no element.  A path is the list of its bytes up to the NUL.
\<close>

definition skipelem :: "byte list \<Rightarrow> (byte list \<times> byte list) option" where
  "skipelem pth =
     (let path1 = dropWhile (\<lambda>c. c = slash) pth in
      if path1 = [] then None
      else Some (take DIRSIZ (takeWhile (\<lambda>c. c \<noteq> slash) path1),
                 dropWhile (\<lambda>c. c = slash) (dropWhile (\<lambda>c. c \<noteq> slash) path1)))"

lemma skipelem_shorter: "skipelem pth = Some (nm, rest) \<Longrightarrow> length rest < length pth"
proof -
  assume "skipelem pth = Some (nm, rest)"
  then obtain c cs where d: "dropWhile (\<lambda>c. c = slash) pth = c # cs"
    and r: "rest = dropWhile (\<lambda>c. c = slash) (dropWhile (\<lambda>c. c \<noteq> slash) (c # cs))"
    by (cases "dropWhile (\<lambda>c. c = slash) pth") (auto simp: skipelem_def)
  then have p: "dropWhile (\<lambda>c. c = slash) pth = c # cs" "c \<noteq> slash" by (auto simp: dropWhile_eq_Cons_conv)
  have "length rest \<le> length cs" using p(2) by (simp add: r) (meson le_trans length_dropWhile_le)
  also have "\<dots> < length (dropWhile (\<lambda>c. c = slash) pth)" using p by simp
  also have "\<dots> \<le> length pth" by (rule length_dropWhile_le)
  finally show ?thesis .
qed

text \<open>The loop of \<^verbatim>\<open>namex\<close>; the name of the last element is returned with the inode.\<close>

function namex_loop :: "nat \<Rightarrow> byte list \<Rightarrow> bool \<Rightarrow> byte list \<Rightarrow> ('z fs_scheme, (nat \<times> byte list) option) K" where
  "namex_loop ip pth parent nm0 =
     (case skipelem pth of
        None \<Rightarrow> if parent then thenK (iput ip) (returnK None) else returnK (Some (ip, nm0))
      | Some (nm, rest) \<Rightarrow>
          thenK (ilock ip)
         (bindK (get_inode ip) (\<lambda>i.
          if i_type i \<noteq> T_DIR then thenK (iunlockput ip) (returnK None)
          else if parent \<and> rest = [] then thenK (iunlock ip) (returnK (Some (ip, nm)))
          else
            bindK (dirlookup ip nm) (\<lambda>next.
            case next of
              None \<Rightarrow> thenK (iunlockput ip) (returnK None)
            | Some (ip', _) \<Rightarrow> thenK (iunlockput ip) (namex_loop ip' rest parent nm)))))"
  by pat_completeness auto
termination
  by (relation "measure (\<lambda>(ip, pth, parent, nm0). length pth)") (auto dest: skipelem_shorter)

declare namex_loop.simps [simp del]

definition namex :: "byte list \<Rightarrow> bool \<Rightarrow> ('z fs_scheme, (nat \<times> byte list) option) K" where
  "namex pth parent =
     bindK (if char_at pth 0 = slash then iget ROOTDEV ROOTINO
            else bindK (getsK p_cwd) (\<lambda>cwd. idup cwd)) (\<lambda>ip.
     namex_loop ip pth parent [])"

definition namei :: "byte list \<Rightarrow> ('z fs_scheme, nat option) K" where
  "namei pth = bindK (namex pth False) (\<lambda>r. returnK (map_option fst r))"

definition nameiparent :: "byte list \<Rightarrow> ('z fs_scheme, (nat \<times> byte list) option) K" where
  "nameiparent pth = namex pth True"

end
