(* ===== verification/Fs_Props.thy ===== *)
theory Fs_Props
  imports Fs
begin

section \<open>Correctness of the file system's parts\<close>

text \<open>Path names, the inodes on disk, and the table of inodes in memory.\<close>

subsection \<open>Path names\<close>

text \<open>The components of a path: what stands between slashes, without the empty ones.\<close>

fun split_path :: "byte list \<Rightarrow> byte list \<Rightarrow> byte list list" where
  "split_path [] cur = [cur]"
| "split_path (c # cs) cur = (if c = slash then cur # split_path cs [] else split_path cs (cur @ [c]))"

definition components :: "byte list \<Rightarrow> byte list list" where
  "components p = filter (\<lambda>e. e \<noteq> []) (split_path p [])"

text \<open>The names that repeated calls of \<^verbatim>\<open>skipelem\<close> produce, as in the loop of \<^verbatim>\<open>namex\<close>.\<close>

function elems :: "byte list \<Rightarrow> byte list list" where
  "elems p = (case skipelem p of None \<Rightarrow> [] | Some (nm, rest) \<Rightarrow> nm # elems rest)"
  by pat_completeness auto
termination by (relation "measure length") (auto dest: skipelem_shorter)

declare elems.simps [simp del]

lemma split_path_slashes:
  "filter (\<lambda>e. e \<noteq> []) (split_path (dropWhile (\<lambda>c. c = slash) p) []) = filter (\<lambda>e. e \<noteq> []) (split_path p [])"
  by (induction p) auto

lemma split_path_name:
  "filter (\<lambda>e. e \<noteq> []) (split_path p cur) =
     (if cur @ takeWhile (\<lambda>c. c \<noteq> slash) p = [] then [] else [cur @ takeWhile (\<lambda>c. c \<noteq> slash) p]) @
     filter (\<lambda>e. e \<noteq> []) (case dropWhile (\<lambda>c. c \<noteq> slash) p of [] \<Rightarrow> [] | _ # r \<Rightarrow> split_path r [])"
  by (induction p arbitrary: cur) auto

lemma components_skip:
  assumes "skipelem p = Some (nm, rest)"
  shows "\<exists>e. e \<noteq> [] \<and> nm = take DIRSIZ e \<and> components p = e # components rest"
proof -
  define p1 where "p1 = dropWhile (\<lambda>c. c = slash) p"
  let ?e = "takeWhile (\<lambda>c. c \<noteq> slash) p1" and ?r = "dropWhile (\<lambda>c. c \<noteq> slash) p1"
  have p1: "p1 \<noteq> []" and nm: "nm = take DIRSIZ ?e" and rest: "rest = dropWhile (\<lambda>c. c = slash) ?r"
    using assms by (auto simp: skipelem_def p1_def Let_def split: if_splits)
  then obtain c cs where c: "p1 = c # cs" by (cases p1) auto
  then have "c \<noteq> slash" using p1_def by (metis (mono_tags, lifting) dropWhile_eq_Cons_conv)
  then have e: "?e \<noteq> []" using c by simp
  have "components p = filter (\<lambda>e. e \<noteq> []) (split_path p1 [])"
    by (simp add: components_def p1_def split_path_slashes)
  also have "\<dots> = ?e # filter (\<lambda>e. e \<noteq> []) (case ?r of [] \<Rightarrow> [] | _ # r \<Rightarrow> split_path r [])"
    using e by (subst split_path_name) simp
  also have "filter (\<lambda>e. e \<noteq> []) (case ?r of [] \<Rightarrow> [] | _ # r \<Rightarrow> split_path r []) = components rest"
  proof (cases ?r)
    case Nil
    show ?thesis unfolding rest Nil by (simp add: components_def)
  next
    case (Cons x r)
    then have "x = slash" by (metis (mono_tags, lifting) dropWhile_eq_Cons_conv)
    then show ?thesis using Cons split_path_slashes [of r] by (simp add: rest components_def)
  qed
  finally show ?thesis using e nm by blast
qed

text \<open>
  Walking a path with \<^verbatim>\<open>skipelem\<close> visits exactly the components of the path, in order, each cut to
  \<^verbatim>\<open>DIRSIZ\<close> bytes: repeated, leading and trailing slashes make no difference.
\<close>

lemma skipelem_walks_components: "elems p = map (take DIRSIZ) (components p)"
proof (induction p rule: elems.induct)
  case (1 p)
  show ?case
  proof (cases "skipelem p")
    case None
    then have "dropWhile (\<lambda>c. c = slash) p = []" by (simp add: skipelem_def Let_def split: if_splits)
    then have "components p = filter (\<lambda>e. e \<noteq> []) (split_path [] [])"
      using split_path_slashes [of p] by (metis components_def)
    then have "components p = []" by simp
    then show ?thesis using None by (simp add: elems.simps [of p])
  next
    case (Some x)
    obtain nm rest where x: "x = (nm, rest)" by (cases x)
    from components_skip [of p nm rest] Some x obtain e where "nm = take DIRSIZ e" "components p = e # components rest"
      by auto
    then show ?thesis using 1 [OF Some x [symmetric]] Some x by (simp add: elems.simps [of p])
  qed
qed

subsection \<open>Disk inodes\<close>

lemma short_mod: "short (x mod 2 ^ 16) = short x"
  by (simp add: short_def)

lemma get_put_short:
  assumes "off + 2 \<le> length x"
  shows "get_short (put_short off v x) off = short v"
proof -
  have "int (nat (v mod 2 ^ 16) mod 256 ^ 2) = v mod 2 ^ 16" by (simp add: zmod_int)
  then show ?thesis using assms short_mod [of v] by (simp add: get_short_def put_short_def)
qed

lemma get_put_short_other:
  assumes "off + 2 \<le> length x" "o' + 2 \<le> off \<or> off + 2 \<le> o'" "o' + 2 \<le> length x"
  shows "get_short (put_short off v x) o' = get_short x o'"
  using assms by (simp add: get_short_def put_short_def get_put_le_other)

lemma length_put_short [simp]: "off + 2 \<le> length x \<Longrightarrow> length (put_short off v x) = length x"
  by (simp add: put_short_def)

lemma get_le_put_short:
  assumes "off + 2 \<le> length x" "o' + n \<le> off \<or> off + 2 \<le> o'" "o' + n \<le> length x"
  shows "get_le n (put_short off v x) o' = get_le n x o'"
  using assms by (simp add: put_short_def get_put_le_other)

lemma get_short_put_le:
  assumes "off + n \<le> length x" "o' + 2 \<le> off \<or> off + n \<le> o'" "o' + 2 \<le> length x"
  shows "get_short (put_le n off v x) o' = get_short x o'"
  using assms by (simp add: get_short_def get_put_le_other)

lemma store_addrs:
  assumes "m \<le> 13" "base + 52 \<le> length x"
  shows "length (fold (\<lambda>k. put_le 4 (base + 4 * k) (a ! k)) [0..<m] x) = length x \<and>
    (\<forall>k < m. get_le 4 (fold (\<lambda>k. put_le 4 (base + 4 * k) (a ! k)) [0..<m] x) (base + 4 * k) = a ! k mod 2 ^ 32) \<and>
    (\<forall>o' n. o' + n \<le> length x \<longrightarrow> o' + n \<le> base \<or> base + 52 \<le> o' \<longrightarrow>
       get_le n (fold (\<lambda>k. put_le 4 (base + 4 * k) (a ! k)) [0..<m] x) o' = get_le n x o')"
  using assms(1)
proof (induction m)
  case (Suc m)
  let ?y = "fold (\<lambda>k. put_le 4 (base + 4 * k) (a ! k)) [0..<m] x"
  have ih: "length ?y = length x" "\<forall>k < m. get_le 4 ?y (base + 4 * k) = a ! k mod 2 ^ 32"
    "\<forall>o' n. o' + n \<le> length x \<longrightarrow> o' + n \<le> base \<or> base + 52 \<le> o' \<longrightarrow> get_le n ?y o' = get_le n x o'"
    using Suc by auto
  have fits: "base + 4 * m + 4 \<le> length ?y" using Suc.prems assms(2) ih(1) by simp
  have "get_le 4 (put_le 4 (base + 4 * m) (a ! m) ?y) (base + 4 * k) = a ! k mod 2 ^ 32" if "k < Suc m" for k
  proof (cases "k = m")
    case True
    then show ?thesis using fits by simp
  next
    case False
    then have k: "k < m" using that by simp
    then have "get_le 4 (put_le 4 (base + 4 * m) (a ! m) ?y) (base + 4 * k) = get_le 4 ?y (base + 4 * k)"
      using fits by (intro get_put_le_other) auto
    then show ?thesis using ih(2) k by simp
  qed
  moreover have "get_le n (put_le 4 (base + 4 * m) (a ! m) ?y) o' = get_le n x o'"
    if "o' + n \<le> length x" "o' + n \<le> base \<or> base + 52 \<le> o'" for o' n
  proof -
    have "get_le n (put_le 4 (base + 4 * m) (a ! m) ?y) o' = get_le n ?y o'"
      using that fits Suc.prems ih(1) by (intro get_put_le_other) auto
    then show ?thesis using ih(3) [rule_format, OF that] by simp
  qed
  ultimately show ?case using fits ih(1) by simp
qed simp

definition inode_fits :: "inode \<Rightarrow> bool" where
  "inode_fits ip \<longleftrightarrow> short (i_type ip) = i_type ip \<and> short (i_major ip) = i_major ip \<and> short (i_minor ip) = i_minor ip \<and>
     short (i_nlink ip) = i_nlink ip \<and> i_size ip < 2 ^ 32 \<and> length (i_addrs ip) = NDIRECT + 1 \<and> (\<forall>a \<in> set (i_addrs ip). a < 2 ^ 32)"

lemma dinode_off_fits: "dinode_off n + 64 \<le> 1024"
proof -
  have "n mod 16 \<le> 15" using mod_less_divisor [of 16 n] by simp
  then show ?thesis by (simp add: dinode_off_def)
qed

lemma dinode_off_apart: "m mod 16 \<noteq> n mod 16 \<Longrightarrow> dinode_off m + 64 \<le> dinode_off n \<or> dinode_off n + 64 \<le> dinode_off m"
  unfolding dinode_off_def by linarith

text \<open>
  \<^verbatim>\<open>iupdate\<close> followed by \<^verbatim>\<open>ilock\<close> gives the inode back: storing an inode into its block and loading
  it again yields the same fields, and the other inodes of the block are not touched.
\<close>

lemma dinode_roundtrip:
  assumes fits: "inode_fits ip" and len: "length x = BSIZE"
  shows "load_dinode (store_dinode ip x) (i_inum ip) ip' = ip'\<lparr>i_type := i_type ip, i_major := i_major ip,
       i_minor := i_minor ip, i_nlink := i_nlink ip, i_size := i_size ip, i_addrs := i_addrs ip\<rparr> \<and>
     length (store_dinode ip x) = BSIZE \<and>
     (\<forall>m. m mod IPB \<noteq> i_inum ip mod IPB \<longrightarrow> load_dinode (store_dinode ip x) m ip' = load_dinode x m ip')"
proof -
  define b where "b = dinode_off (i_inum ip)"
  define y where "y = put_le 4 (b + 8) (i_size ip) (put_short (b + 6) (i_nlink ip) (put_short (b + 4) (i_minor ip)
    (put_short (b + 2) (i_major ip) (put_short b (i_type ip) x))))"
  let ?z = "fold (\<lambda>k. put_le 4 (b + 12 + 4 * k) (i_addrs ip ! k)) [0..<13] y"
  have st: "store_dinode ip x = ?z" by (simp add: store_dinode_def Let_def y_def b_def)
  have b: "b + 64 \<le> 1024" using dinode_off_fits by (simp add: b_def)
  have ly: "length y = 1024" using b len by (simp add: y_def)
  have s: "length ?z = length y" "\<forall>k < 13. get_le 4 ?z (b + 12 + 4 * k) = i_addrs ip ! k mod 2 ^ 32"
    "\<forall>o' n. o' + n \<le> length y \<longrightarrow> o' + n \<le> b + 12 \<or> b + 12 + 52 \<le> o' \<longrightarrow> get_le n ?z o' = get_le n y o'"
    using store_addrs [of 13 "b + 12" y "i_addrs ip"] b ly by auto
  have sh: "get_short ?z o' = get_short y o'" if "o' + 2 \<le> b + 12 \<or> b + 64 \<le> o'" "o' + 2 \<le> 1024" for o'
  proof -
    have "get_le 2 ?z o' = get_le 2 y o'" by (rule s(3) [rule_format]) (use that ly in auto)
    then show ?thesis by (simp add: get_short_def)
  qed
  have y: "get_short y b = short (i_type ip)" "get_short y (b + 2) = short (i_major ip)" "get_short y (b + 4) = short (i_minor ip)"
    "get_short y (b + 6) = short (i_nlink ip)" "get_le 4 y (b + 8) = i_size ip mod 2 ^ 32"
    using b len by (simp_all add: y_def get_short_put_le get_put_short get_put_short_other)
  have adr: "map (\<lambda>k. get_le 4 ?z (b + 12 + 4 * k)) [0..<13] = i_addrs ip"
    using s(2) fits by (intro nth_equalityI) (auto simp: inode_fits_def)
  have own: "load_dinode ?z (i_inum ip) ip' = ip'\<lparr>i_type := i_type ip, i_major := i_major ip,
       i_minor := i_minor ip, i_nlink := i_nlink ip, i_size := i_size ip, i_addrs := i_addrs ip\<rparr>"
    using sh y s(3) [rule_format, of "b + 8" 4] adr fits b ly
    by (simp add: load_dinode_def Let_def b_def [symmetric] inode_fits_def del: upt_Suc)
  have other: "load_dinode ?z m ip' = load_dinode x m ip'" if "m mod 16 \<noteq> i_inum ip mod 16" for m
  proof -
    let ?o = "dinode_off m"
    have o: "?o + 64 \<le> b \<or> b + 64 \<le> ?o" "?o + 64 \<le> 1024"
      using dinode_off_apart [OF that] dinode_off_fits by (simp_all add: b_def)
    have gl: "get_le n ?z (?o + j) = get_le n x (?o + j)" if "j + n \<le> 64" for j n
    proof -
      have "get_le n ?z (?o + j) = get_le n y (?o + j)" using s(3) [rule_format, of "?o + j" n] o that ly by auto
      also have "\<dots> = get_le n x (?o + j)" unfolding y_def using o that len b
        by (auto simp: get_put_le_other get_le_put_short)
      finally show ?thesis .
    qed
    have gs: "get_short ?z (?o + j) = get_short x (?o + j)" if "j + 2 \<le> 64" for j
      using gl [OF that] by (simp add: get_short_def)
    have ga: "map (\<lambda>k. get_le 4 ?z (?o + 12 + 4 * k)) [0..<13] = map (\<lambda>k. get_le 4 x (?o + 12 + 4 * k)) [0..<13]"
      using gl [of _ 4] by (intro map_cong refl) (auto simp: add.assoc)
    show ?thesis using gs [of 0] gs [of 2] gs [of 4] gs [of 6] gl [of 8 4] ga
      by (simp add: load_dinode_def Let_def del: upt_Suc)
  qed
  show ?thesis using own other s(1) ly st by simp
qed

definition plain_inode :: inode where
  "plain_inode = \<lparr>i_dev = 1, i_inum = 18, i_ref = 1, i_lock = initsleeplock ''inode'', i_valid = True, i_type = 2,
     i_major = 0, i_minor = 0, i_nlink = -1, i_size = 5000, i_addrs = [46..<59]\<rparr>"

subsection \<open>The inode table\<close>

text \<open>No two referenced entries of the table stand for the same inode.\<close>

definition itable_ok :: "inode list \<Rightarrow> bool" where
  "itable_ok t \<longleftrightarrow> (\<forall>i < length t. 0 \<le> i_ref (t ! i)) \<and>
     (\<forall>i < length t. \<forall>j < length t. 0 < i_ref (t ! i) \<longrightarrow> 0 < i_ref (t ! j) \<longrightarrow>
        i_dev (t ! i) = i_dev (t ! j) \<longrightarrow> i_inum (t ! i) = i_inum (t ! j) \<longrightarrow> i = j)"

text \<open>The table after an entry has been chosen and overwritten.\<close>

definition got_entry :: "nat \<Rightarrow> nat \<Rightarrow> 'z fs_scheme \<Rightarrow> nat \<Rightarrow> 'z fs_scheme \<Rightarrow> bool" where
  "got_entry d inum s ip s' \<longleftrightarrow> ip < length (itable s) \<and> itable_ok (itable s') \<and>
     i_dev (itable s' ! ip) = d \<and> i_inum (itable s' ! ip) = inum \<and> 0 < i_ref (itable s' ! ip) \<and>
     (\<forall>j < length (itable s). j \<noteq> ip \<longrightarrow> itable s' ! j = itable s ! j) \<and>
     (\<forall>j < length (itable s). 0 < i_ref (itable s ! j) \<longrightarrow> i_dev (itable s ! j) = d \<longrightarrow> i_inum (itable s ! j) = inum \<longrightarrow>
        j = ip \<and> itable s' ! ip = (itable s ! ip)\<lparr>i_ref := i_ref (itable s ! ip) + 1\<rparr>)"

lemma got_entryI:
  assumes "ip < length (itable s)" "i_dev e = d" "i_inum e = inum" "0 < i_ref e" "itable_ok ((itable s)[ip := e])"
    and uniq: "\<And>j. j < length (itable s) \<Longrightarrow> 0 < i_ref (itable s ! j) \<Longrightarrow> i_dev (itable s ! j) = d \<Longrightarrow>
      i_inum (itable s ! j) = inum \<Longrightarrow> j = ip \<and> e = (itable s ! ip)\<lparr>i_ref := i_ref (itable s ! ip) + 1\<rparr>"
  shows "got_entry d inum s ip (s\<lparr>itable := (itable s)[ip := e]\<rparr>)"
proof -
  let ?t = "(itable s)[ip := e]"
  have "?t ! ip = e" "\<And>j. j \<noteq> ip \<Longrightarrow> ?t ! j = itable s ! j" using assms(1) by simp_all
  moreover have "itable (s\<lparr>itable := ?t\<rparr>) = ?t" by simp
  ultimately show ?thesis unfolding got_entry_def using assms(1-5) uniq by (metis (no_types, lifting))
qed


definition fresh_fs :: fs where
  "fresh_fs = logst.extend (idle_log 1)
     (fs.fields \<lparr>sb_magic = FSMAGIC, sb_size = 2000, sb_nblocks = 1900, sb_ninodes = 200, sb_nlog = 31, sb_logstart = 2,
        sb_inodestart = 33, sb_bmapstart = 46\<rparr> (replicate 50 (plain_inode\<lparr>i_ref := 0\<rparr>)) 0)"


end
