(* ===== verification/Tx.thy ===== *)
theory Tx
  imports Log_Ops
begin

section \<open>Changing blocks inside a transaction\<close>

text \<open>
  What the file system code relies on inside \<^verbatim>\<open>begin_op\<close>/\<^verbatim>\<open>end_op\<close>: it reads a block with \<^verbatim>\<open>bread\<close>, and
  either only looks at it and calls \<^verbatim>\<open>brelse\<close>, or changes it, calls \<^verbatim>\<open>log_write\<close> and then
  \<^verbatim>\<open>brelse\<close>.  The rules below give the effect of the two idioms on the contents of the blocks.
\<close>

definition tx_ok :: "'z logst_scheme \<Rightarrow> bool" where
  "tx_ok s \<longleftrightarrow> log_inv s \<and> 0 < log_outstanding s"

text \<open>
  \<open>tx_post s V B s'\<close>: \<open>s'\<close> is reached from \<open>s\<close> inside the transaction, the blocks' contents are now
  \<open>V\<close>, nothing has been written to disk, and at most the blocks in \<open>B\<close> have been pinned.
\<close>

definition tx_post :: "'z logst_scheme \<Rightarrow> (nat \<Rightarrow> byte list) \<Rightarrow> nat set \<Rightarrow> 'z logst_scheme \<Rightarrow> bool" where
  "tx_post s V B s' \<longleftrightarrow> tx_ok s' \<and> bview s' = V \<and> disk s' = disk s \<and> blocked s' = blocked s \<and> in_use s' \<subseteq> in_use s \<union> B \<and>
     (\<exists>n l. cache_frame (s\<lparr>lh_n := n, lh_block := l\<rparr>) s')"

lemma cache_frame_lh_trans:
  assumes "cache_frame (s\<lparr>lh_n := n, lh_block := l\<rparr>) s1" "cache_frame (s1\<lparr>lh_n := n', lh_block := l'\<rparr>) s2"
  shows "cache_frame (s\<lparr>lh_n := n', lh_block := l'\<rparr>) s2"
  using assms by (cases s) (auto simp: cache_frame_def)

lemma tx_post_refl: "tx_ok s \<Longrightarrow> tx_post s (bview s) B s"
  unfolding tx_post_def by (auto intro!: exI [of _ "lh_n s"] exI [of _ "lh_block s"])

lemma tx_post_trans: "tx_post s V B s1 \<Longrightarrow> tx_post s1 V' B' s2 \<Longrightarrow> tx_post s V' (B \<union> B') s2"
  unfolding tx_post_def using cache_frame_lh_trans by (fastforce simp del: Un_iff simp: Un_assoc)

lemma tx_post_fields:
  assumes "tx_post s V B s'"
  shows "tx_ok s'" "bview s' = V" "disk s' = disk s" "blocked s' = blocked s" "in_use s' \<subseteq> in_use s \<union> B"
    "logst.more s' = logst.more s" "log_start s' = log_start s" "ram s' = ram s" "freelist s' = freelist s" "p_pid s' = p_pid s"
  using assms by (auto simp: tx_post_def cache_frame_def)

lemma tx_log_size:
  assumes "tx_ok s" "card (in_use s) < 30"
  shows "lh_n s < int LOGBLOCKS"
proof -
  have ok: "log_ok s" using assms by (simp add: tx_ok_def log_inv_def)
  have "set (logged s) \<subseteq> in_use s" using ok by (auto simp: log_ok_def in_use_def)
  then have "card (set (logged s)) \<le> card (in_use s)" by (rule card_mono [OF finite_in_use])
  moreover have "card (set (logged s)) = nat (lh_n s)"
    using ok distinct_card [of "logged s"] by (simp add: log_ok_def logged_def nat_le_iff)
  ultimately show ?thesis using assms(2) by simp
qed

text \<open>After a \<^verbatim>\<open>bread\<close>: what \<^verbatim>\<open>brelse\<close> alone does.\<close>

lemma crefs_acq_rel:
  assumes "\<not> clocked a bn"
  shows "crel bn (cacq bn a) = a"
  using assms by (auto simp: cache_ops fun_upd_idem)

lemma tx_release:
  assumes tx: "tx_ok s" and nl: "\<not> blocked s bn"
    and s1: "bio_ok s1" "cache_frame s s1" "cache_of s1 = cacq bn (cache_of s)" "held s1 b bn"
    and Q: "\<And>s'. tx_post s (bview s) {} s' \<Longrightarrow> Q () s'"
  shows "wp (brelse b) Q E s1"
proof -
  have inv: "log_inv s" "0 < log_outstanding s" using tx by (simp_all add: tx_ok_def)
  have ok: "log_ok s" and bok: "bio_ok s" using inv by (simp_all add: log_inv_def log_ok_def)
  show ?thesis
  proof (rule bc.wp_rel [OF s1(1,2,4)])
    show "1 < crefs (cache_of s1) bn \<or> cview (cache_of s1) bn = cdisk (cache_of s1) bn"
      using free_bview [OF bok, of bn] refs_nonneg [OF bok, of bn] by (auto simp: s1(3) cacq_def cache_of_sel le_less)
    fix s2 assume s2: "bio_ok s2" "cache_frame s s2" "cache_of s2 = crel bn (cache_of s1)"
    have c: "cache_of s2 = cache_of s" using s2(3) nl crefs_acq_rel [of "cache_of s" bn] by (simp add: s1(3) cache_of_sel)
    note v = cache_of_views [OF c, unfolded cache_of_sel] and f = cache_frame_log [OF s2(2)]
    have "log_ok s2" by (rule log_ok_frame [OF ok s2(2,1) v(4)])
    then have "tx_ok s2" using inv by (simp add: tx_ok_def log_inv_def f v)
    moreover have "s\<lparr>lh_n := lh_n s, lh_block := lh_block s\<rparr> = s" by simp
    ultimately show "Q () s2" using s2(2) v by (intro Q) (auto simp: tx_post_def in_use_def intro!: exI [of _ "lh_n s"] exI [of _ "lh_block s"])
  qed
qed

text \<open>After a \<^verbatim>\<open>bread\<close>: storing into the buffer, \<^verbatim>\<open>log_write\<close> and \<^verbatim>\<open>brelse\<close>.\<close>

lemma tx_update:
  assumes tx: "tx_ok s" and nl: "\<not> blocked s bn" and room: "card (in_use s) < 30"
    and bn: "bn \<notin> log_area (log_start s)" "bn < 2 ^ 32" and y: "length y = 1024"
    and s1: "bio_ok s1" "cache_frame s s1" "cache_of s1 = cacq bn (cache_of s)" "held s1 b bn"
    and Q: "\<And>s'. tx_post s ((bview s)(bn := y)) {bn} s' \<Longrightarrow> wp f Q E s'"
  shows "wp (thenK (put_data b y) (thenK (log_write b) (thenK (brelse b) f))) Q E s1"
proof -
  have inv: "log_inv s" "0 < log_outstanding s" using tx by (simp_all add: tx_ok_def)
  have ok: "log_ok s" and bok: "bio_ok s" and dirty: "\<And>b. b \<notin> set (logged s) \<Longrightarrow> bview s b = disk s b"
    and hd: "hdr_n (disk s (log_start s)) = 0" using inv by (simp_all add: log_inv_def log_ok_def)
  note size = tx_log_size [OF tx room]
  show ?thesis unfolding wp_then
  proof (rule bc.wp_put [OF s1(1,2,4) y])
    fix s2 assume s2: "bio_ok s2" "cache_frame s s2" "cache_of s2 = cput bn y (cache_of s1)" "held s2 b bn"
    note f = cache_frame_log [OF s2(2)]
    have c2: "cache_of s2 = cput bn y (cacq bn (cache_of s))" by (simp add: s2(3) s1(3))
    note v2 = cache_of_views [OF c2]
    have r2: "refs s2 = (refs s)(bn := refs s bn + 1)" by (simp add: v2 cache_ops cache_of_sel)
    have ok2: "log_ok s2" using ok s2(1) f by (auto simp: log_ok_def r2)
    have bn2: "bn \<notin> log_area (log_start s2)" "bn < 2 ^ 32" "0 < log_outstanding s2" "lh_n s2 < int 30"
      using bn inv size by (simp_all add: f)
    show "wp (log_write b) (\<lambda>_. wp (brelse b) (\<lambda>_. wp f Q E) E) E s2"
    proof (rule wp_conseq [OF log_write_spec [OF ok2 s2(4) bn2]]; (elim conjE exE)?)
      fix s3 n l assume s3: "log_ok s3" "held s3 b bn"
        and lg: "logged s3 = (if bn \<in> set (logged s2) then logged s2 else logged s2 @ [bn])"
        and c3: "cache_of s3 = (if bn \<in> set (logged s2) then cache_of s2 else cpin bn 1 (cache_of s2))"
        and fr: "cache_frame (s2\<lparr>lh_n := n, lh_block := l\<rparr>) s3"
      have b3: "bio_ok s3" using s3(1) by (simp add: log_ok_def)
      define a where "a = (if bn \<in> set (logged s) then cache_of s else cpin bn 1 (cache_of s))"
      have ca: "cache_of s3 = cput bn y (cacq bn a)"
        by (simp add: c3 c2 f a_def) (simp add: cache_ops)
      have pos: "0 < crefs a bn"
        using ok refs_nonneg [OF bok, of bn] by (auto simp: a_def cpin_def cache_of_sel log_ok_def)
      have na: "\<not> clocked a bn" using nl by (simp add: a_def cpin_def cache_of_sel)
      show "wp (brelse b) (\<lambda>_. wp f Q E) E s3"
      proof (rule bc.wp_rel [OF b3 cache_frame_refl s3(2)])
        show "1 < crefs (cache_of s3) bn \<or> cview (cache_of s3) bn = cdisk (cache_of s3) bn"
          using pos by (simp add: ca cput_def cacq_def)
        fix s4 assume s4: "bio_ok s4" "cache_frame s3 s4" "cache_of s4 = crel bn (cache_of s3)"
        have c4: "cache_of s4 = cput bn y a"
          using crefs_acq_rel [OF na] na by (auto simp: s4(3) ca cache_ops fun_upd_idem)
        note v4 = cache_of_views [OF c4] and f3 = cache_frame_log [OF fr] and f4 = cache_frame_log [OF s4(2)]
        have lg4: "logged s4 = (if bn \<in> set (logged s) then logged s else logged s @ [bn])" by (simp add: f4 lg f)
        have r4: "refs s4 = crefs a" by (simp add: v4 cput_def)
        have frame: "cache_frame (s\<lparr>lh_n := n, lh_block := l\<rparr>) s4"
        proof -
          have "cache_frame (s\<lparr>lh_n := n, lh_block := l\<rparr>) (s2\<lparr>lh_n := n, lh_block := l\<rparr>)"
            using s2(2) by (cases s) (auto simp: cache_frame_def)
          then show ?thesis using fr s4(2) cache_frame_trans by blast
        qed
        have st: "log_start s4 = log_start s" "log_outstanding s4 = log_outstanding s" "disk s4 = disk s"
          using f3 f4 f by (simp_all add: v4 a_def cput_def cpin_def cache_of_sel)
        have "0 < refs s4 x" if "x \<in> set (logged s3)" for x
        proof (cases "x = bn")
          case True
          then show ?thesis using pos by (simp add: r4)
        next
          case False
          then have "refs s4 x = refs s3 x" by (simp add: r4 cache_of_views(4) [OF ca] cput_def cacq_def)
          then show ?thesis using s3(1) that by (simp add: log_ok_def)
        qed
        then have ok4: "log_ok s4" using s3(1) s4(1) f4(4-7) unfolding log_ok_def f4(1) by simp
        have "bview s4 x = disk s4 x" if "x \<notin> set (logged s4)" for x
          using that dirty [of x] by (auto simp: lg4 v4 a_def cput_def cpin_def cache_of_sel split: if_splits)
        then have "tx_ok s4" using ok4 inv hd st by (simp add: tx_ok_def log_inv_def)
        moreover have "bview s4 = (bview s)(bn := y)" "blocked s4 = blocked s"
          by (auto simp: v4 a_def cput_def cpin_def cache_of_sel)
        moreover have "in_use s4 \<subseteq> in_use s \<union> {bn}"
          by (auto simp: in_use_def r4 a_def cpin_def cache_of_sel split: if_splits)
        ultimately show "wp f Q E s4" using st frame by (intro Q) (auto simp: tx_post_def)
      qed
    qed simp
  qed
qed

end
