(* ===== verification/Fs_Blocks.thy ===== *)
theory Fs_Blocks
  imports Fs_Props Tx
begin

section \<open>The block allocator\<close>

text \<open>
  \<^verbatim>\<open>balloc\<close> and \<^verbatim>\<open>bfree\<close> against the set of allocated blocks that the bitmap on disk, as the cache and
  the log present it, describes.
\<close>

subsection \<open>Bits of a block\<close>

lemma bit_at_bit: "bit_at x i = bit (x ! (i div 8)) (i mod 8)"
  by (simp add: bit_at_def bit_iff_and_push_bit_not_eq_0)

lemma bit_set_at:
  assumes "i < 8 * length x" "j < 8 * length x"
  shows "bit_at (bit_set i x) j = (j = i \<or> bit_at x j)"
proof -
  have i: "i div 8 < length x" using assms by (simp add: div_less_iff_less_mult mult.commute)
  have eq: "j = i \<longleftrightarrow> j div 8 = i div 8 \<and> j mod 8 = i mod 8" by (metis mult_div_mod_eq)
  have "i mod 8 < 8" "j mod 8 < 8" by simp_all
  then show ?thesis using i eq
    by (cases "j div 8 = i div 8") (auto simp: bit_at_bit bit_set_def bit_or_iff bit_exp_iff)
qed

lemma bit_clear_at:
  assumes "i < 8 * length x" "j < 8 * length x"
  shows "bit_at (bit_clear i x) j = (j \<noteq> i \<and> bit_at x j)"
proof -
  have i: "i div 8 < length x" using assms by (simp add: div_less_iff_less_mult mult.commute)
  have eq: "j = i \<longleftrightarrow> j div 8 = i div 8 \<and> j mod 8 = i mod 8" by (metis mult_div_mod_eq)
  have "i mod 8 < 8" "j mod 8 < 8" by simp_all
  then show ?thesis using i eq
    by (cases "j div 8 = i div 8") (auto simp: bit_at_bit bit_clear_def bit_and_iff bit_not_iff bit_exp_iff)
qed

lemma length_bits [simp]: "length (bit_set i x) = length x" "length (bit_clear i x) = length x"
  by (simp_all add: bit_set_def bit_clear_def)

subsection \<open>The bitmap\<close>

definition allocated :: "'z fs_scheme \<Rightarrow> nat \<Rightarrow> bool" where
  "allocated s b = bit_at (bview s (BBLOCK b (sb s))) (b mod BPB)"

text \<open>
  The layout that mkfs produces: the bitmap lies outside the log, and blocks that are free are
  neither in the log nor in the bitmap.
\<close>

definition layout_ok :: "'z fs_scheme \<Rightarrow> bool" where
  "layout_ok s \<longleftrightarrow> sb_size (sb s) < 2 ^ 32 \<and> allocated s 0 \<and>
     (\<forall>b < sb_size (sb s). BBLOCK b (sb s) \<notin> log_area (log_start s) \<and> BBLOCK b (sb s) < 2 ^ 32) \<and>
     (\<forall>b < sb_size (sb s). \<not> allocated s b \<longrightarrow> b \<notin> log_area (log_start s) \<and> (\<forall>c < sb_size (sb s). b \<noteq> BBLOCK c (sb s)))"

text \<open>The contents of the blocks after block \<open>b\<close> has been allocated.\<close>

definition alloc_view :: "'z fs_scheme \<Rightarrow> nat \<Rightarrow> nat \<Rightarrow> byte list" where
  "alloc_view s b = (bview s)(BBLOCK b (sb s) := bit_set (b mod BPB) (bview s (BBLOCK b (sb s))), b := replicate BSIZE 0)"

lemma find_first:
  assumes "find P [0..<n] = Some i"
  shows "i < n \<and> P i \<and> (\<forall>j < i. \<not> P j)"
  using assms by (auto simp: find_Some_iff) 

lemma tx_can:
  assumes "\<And>b. \<not> blocked s b" "card (in_use s) < 30"
  shows "can_acquire (cache_of s) b"
  using assms by (simp add: can_read_def)

lemma card_use:
  assumes "tx_post s V B s'" "finite B"
  shows "card (in_use s') \<le> card (in_use s) + card B"
proof -
  have "card (in_use s') \<le> card (in_use s \<union> B)"
    using tx_post_fields(5) [OF assms(1)] assms(2) finite_in_use by (intro card_mono) auto
  also have "\<dots> \<le> card (in_use s) + card B" by (rule card_Un_le)
  finally show ?thesis .
qed

lemma thenK_return: "thenK f (returnK ()) = f"
  by (auto simp: fun_eq_iff thenK_def bindK_def returnK_def split: sum.split)

lemma wp_return_fun: "wp (returnK x) Q E = Q x"
  by (simp add: fun_eq_iff)

lemma bzero_spec:
  assumes tx: "tx_ok s" and nl: "\<And>b. \<not> blocked s b" and room: "card (in_use s) < 30"
    and b: "b \<notin> log_area (log_start s)" "b < 2 ^ 32"
    and Q: "\<And>s'. tx_post s ((bview s)(b := replicate 1024 0)) {b} s' \<Longrightarrow> Q () s'"
  shows "wp (bzero 1 b) Q E s"
proof -
  have ok: "bio_ok s" using tx by (simp add: tx_ok_def log_inv_def log_ok_def)
  have "wp (bindK (bread 1 b) (\<lambda>bp. thenK (put_data bp (replicate 1024 0)) (thenK (log_write bp) (thenK (brelse bp) (returnK ()))))) Q E s"
    unfolding wp_bind
  proof (rule bc.wp_rd [OF ok cache_frame_refl tx_can [OF nl room]])
    fix bp s1 assume s1: "bio_ok s1" "cache_frame s s1" "cache_of s1 = cacq b (cache_of s)" "held s1 bp b"
    show "wp (thenK (put_data bp (replicate 1024 0)) (thenK (log_write bp) (thenK (brelse bp) (returnK ())))) Q E s1"
      by (rule tx_update [OF tx nl room b _ s1]) (use Q in auto)
  qed
  then show ?thesis by (simp add: bzero_def thenK_return)
qed

lemma balloc_from_spec:
  assumes "tx_ok s" "\<And>b. \<not> blocked s b" "card (in_use s) < 29" "layout_ok s" "\<not> panicked s"
    and "\<forall>b < min (g * 8192) (sb_size (sb s)). allocated s b"
    and full: "\<And>s'. \<forall>b < sb_size (sb s). allocated s b \<Longrightarrow> tx_post s (bview s) {} s' \<Longrightarrow> wp (printf out_of_blocks []) (\<lambda>_. Q 0) E s'"
    and got: "\<And>s' b. b < sb_size (sb s) \<Longrightarrow> \<not> allocated s b \<Longrightarrow> \<forall>c < b. allocated s c \<Longrightarrow>
      tx_post s (alloc_view s b) {BBLOCK b (sb s), b} s' \<Longrightarrow> Q b s'"
  shows "wp (balloc_from 1 (sb_size (sb s)) g) Q E s"
  using assms
proof (induction "sb_size (sb s) - g * 8192" arbitrary: g s rule: less_induct)
  case less
  let ?lim = "sb_size (sb s)"
  show ?case
  proof (cases "g * 8192 < ?lim")
    case False
    then have all: "\<forall>b < ?lim. allocated s b" using less.prems(6) by simp
    show ?thesis using False less.prems(7) [OF all tx_post_refl [OF less.prems(1)]]
      by (subst balloc_from.simps) (simp add: wp_return_fun)
  next
    case True
    have tx: "tx_ok s" and room: "card (in_use s) < 30" using less.prems by simp_all
    have ok: "bio_ok s" using tx by (simp add: tx_ok_def log_inv_def log_ok_def)
    have lay: "BBLOCK (g * 8192) (sb s) \<notin> log_area (log_start s)" "BBLOCK (g * 8192) (sb s) < 2 ^ 32" "?lim < 2 ^ 32"
      using less.prems(4) True by (simp_all add: layout_ok_def)
    let ?bb = "BBLOCK (g * 8192) (sb s)" and ?x = "bview s (BBLOCK (g * 8192) (sb s))"
    have inblk: "BBLOCK (g * 8192 + i) (sb s) = ?bb" "(g * 8192 + i) mod 8192 = i" if "i < 8192" for i
      using that by (simp_all add: BBLOCK_def div_mult_self4 [of 8192 i g, simplified mult.commute] mod_less)
    have len: "length ?x = 1024" by (rule length_bview [OF ok])
    have bodyK: "wp (case find (\<lambda>bi. \<not> bit_at ?x bi) [0..<min 8192 (?lim - g * 8192)] of
          Some bi \<Rightarrow> thenK (put_data bp (bit_set bi ?x)) (thenK (log_write bp) (thenK (brelse bp)
             (thenK (bzero 1 (g * 8192 + bi)) (returnK (g * 8192 + bi)))))
        | None \<Rightarrow> thenK (brelse bp) (balloc_from 1 ?lim (g + 1))) Q E s1"
      if s1: "bio_ok s1" "cache_frame s s1" "cache_of s1 = cacq ?bb (cache_of s)" "held s1 bp ?bb" for bp s1
    proof (cases "find (\<lambda>bi. \<not> bit_at ?x bi) [0..<min 8192 (?lim - g * 8192)]")
      case None
      then have bits: "bit_at ?x i" if "i < 8192" "g * 8192 + i < ?lim" for i using that by (simp add: find_None_iff)
      have upto: "\<forall>b < min ((g + 1) * 8192) ?lim. allocated s b"
      proof (intro allI impI)
        fix b assume b: "b < min ((g + 1) * 8192) ?lim"
        show "allocated s b"
        proof (cases "b < g * 8192")
          case True
          then show ?thesis using less.prems(6) b by simp
        next
          case False
          then obtain i where "b = g * 8192 + i" "i < 8192" using b le_Suc_ex by fastforce
          then show ?thesis using bits [of i] inblk [of i] b by (simp add: allocated_def)
        qed
      qed
      have "wp (thenK (brelse bp) (balloc_from 1 ?lim (g + 1))) Q E s1"
        unfolding wp_then
      proof (rule tx_release [OF tx less.prems(2) s1])
        fix s' assume p: "tx_post s (bview s) {} s'"
        note f = tx_post_fields [OF p]
        have sb: "sb s' = sb s" using f(6) by (cases s; cases s') simp
        have al: "allocated s' = allocated s" by (simp add: fun_eq_iff allocated_def sb f(2))
        have av: "alloc_view s' = alloc_view s" by (simp add: fun_eq_iff alloc_view_def sb f(2))
        have pan: "\<not> panicked s'" using less.prems(5) p by (auto simp: tx_post_def cache_frame_def)
        have "wp (balloc_from 1 (sb_size (sb s')) (g + 1)) Q E s'"
        proof (rule less.hyps)
          show "sb_size (sb s') - (g + 1) * 8192 < ?lim - g * 8192" using True by (simp add: sb)
          show "tx_ok s'" "\<not> blocked s' b" "card (in_use s') < 29" for b
            using f less.prems(2,3) card_use [OF p] by simp_all
          show "layout_ok s'" using less.prems(4) by (simp add: layout_ok_def al sb f(7))
          show "\<not> panicked s'" by (rule pan)
          show "\<forall>b < min ((g + 1) * 8192) (sb_size (sb s')). allocated s' b" using upto by (simp add: al sb)
          show "wp (printf out_of_blocks []) (\<lambda>_. Q 0) E s2" if "\<forall>b < sb_size (sb s'). allocated s' b" "tx_post s' (bview s') {} s2" for s2
            using less.prems(7) that tx_post_trans [OF p that(2)] by (simp add: al sb f(2))
          show "Q b s2" if "b < sb_size (sb s')" "\<not> allocated s' b" "\<forall>c < b. allocated s' c"
            "tx_post s' (alloc_view s' b) {BBLOCK b (sb s'), b} s2" for s2 b
            using less.prems(8) [of b s2] that tx_post_trans [OF p that(4)] by (simp add: al sb av)
        qed
        then show "wp (balloc_from 1 ?lim (g + 1)) Q E s'" by (simp add: sb)
      qed
      then show ?thesis using None by simp
    next
      case (Some i)
      have i: "i < 8192" "g * 8192 + i < ?lim" "\<not> bit_at ?x i" "\<forall>j < i. bit_at ?x j"
        using find_first [OF Some] by auto
      let ?b = "g * 8192 + i"
      have nb: "\<not> allocated s ?b" using i inblk [of i] by (simp add: allocated_def)
      have below: "\<forall>c < ?b. allocated s c"
      proof (intro allI impI)
        fix c assume c: "c < ?b"
        show "allocated s c"
        proof (cases "c < g * 8192")
          case True
          then show ?thesis using less.prems(6) c i by simp
        next
          case False
          then obtain j where "c = g * 8192 + j" "j < i" using c le_Suc_ex by fastforce
          then show ?thesis using i inblk [of j] by (simp add: allocated_def)
        qed
      qed
      have free: "?b \<notin> log_area (log_start s)" "?b \<noteq> ?bb" using less.prems(4) nb i True by (auto simp: layout_ok_def)
      have "wp (thenK (put_data bp (bit_set i ?x)) (thenK (log_write bp) (thenK (brelse bp)
             (thenK (bzero 1 ?b) (returnK ?b))))) Q E s1"
      proof (rule tx_update [OF tx less.prems(2) room lay(1,2) _ s1])
        show "length (bit_set i ?x) = 1024" using len by simp
        fix s' assume p: "tx_post s ((bview s)(?bb := bit_set i ?x)) {?bb} s'"
        note f = tx_post_fields [OF p]
        show "wp (thenK (bzero 1 ?b) (returnK ?b)) Q E s'" unfolding wp_then
        proof (rule bzero_spec [OF f(1)])
          show "\<not> blocked s' b" for b using f(4) less.prems(2) by simp
          show "card (in_use s') < 30" using card_use [OF p] less.prems(3) by simp
          show "?b \<notin> log_area (log_start s')" "?b < 2 ^ 32" using free f(7) i lay(3) by simp_all
          fix s2 assume p2: "tx_post s' ((bview s')(?b := replicate 1024 0)) {?b} s2"
          have "tx_post s (alloc_view s ?b) {BBLOCK ?b (sb s), ?b} s2"
            using tx_post_trans [OF p p2] f(2) inblk [of i] i by (simp add: alloc_view_def insert_commute)
          then show "wp (returnK ?b) Q E s2" using less.prems(8) [OF i(2) nb below] by simp
        qed
      qed
      then show ?thesis using Some by simp
    qed
    have "wp (bindK (bread 1 ?bb) (\<lambda>bp. bindK (get_data bp) (\<lambda>x.
        case find (\<lambda>bi. \<not> bit_at x bi) [0..<min 8192 (?lim - g * 8192)] of
          Some bi \<Rightarrow> thenK (put_data bp (bit_set bi x)) (thenK (log_write bp) (thenK (brelse bp)
             (thenK (bzero 1 (g * 8192 + bi)) (returnK (g * 8192 + bi)))))
        | None \<Rightarrow> thenK (brelse bp) (balloc_from 1 ?lim (g + 1))))) Q E s"
      unfolding wp_bind [of "bread _ _"]
    proof (rule bc.wp_rd [OF ok cache_frame_refl tx_can [OF less.prems(2) room]])
      fix bp s1 assume s1: "bio_ok s1" "cache_frame s s1" "cache_of s1 = cacq ?bb (cache_of s)" "held s1 bp ?bb"
      have v: "cview (cache_of s1) ?bb = ?x" by (simp add: s1(3) cache_of_sel)
      show "wp (bindK (get_data bp) (\<lambda>x. case find (\<lambda>bi. \<not> bit_at x bi) [0..<min 8192 (?lim - g * 8192)] of
          Some bi \<Rightarrow> thenK (put_data bp (bit_set bi x)) (thenK (log_write bp) (thenK (brelse bp)
             (thenK (bzero 1 (g * 8192 + bi)) (returnK (g * 8192 + bi)))))
        | None \<Rightarrow> thenK (brelse bp) (balloc_from 1 ?lim (g + 1)))) Q E s1"
        unfolding wp_bind by (rule bc.wp_get [OF s1(1,4)]) (use bodyK [OF s1] in \<open>simp only: v\<close>)
    qed
    then show ?thesis using True by (subst balloc_from.simps) (simp only: if_True wp_bind [of "getsK _"] wp_gets)
  qed
qed

subsection \<open>A disk with the blocks 0 to 46 allocated, inside a transaction\<close>

definition first_bitmap :: "byte list" where
  "first_bitmap = replicate 5 255 @ 127 # replicate 1018 0"

definition small_fs :: fs where
  "small_fs = logst.extend
     (bio.extend (fresh_cache\<lparr>disk := (\<lambda>b. if b = 46 then first_bitmap else replicate 1024 0)\<rparr>)
        (logst.fields 2 1 False 1 0 (replicate 30 0)))
     (fs.fields \<lparr>sb_magic = FSMAGIC, sb_size = 2000, sb_nblocks = 1953, sb_ninodes = 200, sb_nlog = 31, sb_logstart = 2,
        sb_inodestart = 33, sb_bmapstart = 46\<rparr> (replicate 50 (plain_inode\<lparr>i_ref := 0\<rparr>)) 0)"

lemma small_fs_sel: "disk small_fs = (\<lambda>b. if b = 46 then first_bitmap else replicate 1024 0)" "bufs small_fs = replicate 30 empty_buf"
  "lru small_fs = rev [0..<30]" "log_start small_fs = 2" "log_outstanding small_fs = 1" "lh_n small_fs = 0" "logged small_fs = []"
  "sb_size (sb small_fs) = 2000" "sb_bmapstart (sb small_fs) = 46" "\<not> panicked small_fs" "\<not> log_committing small_fs" "log_dev small_fs = 1"
  "length (lh_block small_fs) = 30"
  by (simp_all add: small_fs_def fresh_cache_def bio.defs logst.defs fs.defs logged_def)

lemma small_fs_free: "slot small_fs b = None" "bview small_fs b = disk small_fs b" "refs small_fs b = 0" "\<not> blocked small_fs b"
  "in_use small_fs = {}"
proof -
  have "\<not> caches small_fs b i" if "i < 30" for i b using that by (simp add: caches_def small_fs_sel empty_buf_def)
  then show sl: "slot small_fs b = None" for b by (simp add: slot_def find_None_iff)
  show "bview small_fs b = disk small_fs b" "\<not> blocked small_fs b" and r: "refs small_fs b = 0" for b
    by (simp_all add: bview_def blocked_def refs_def sl)
  show "in_use small_fs = {}" by (simp add: in_use_def r)
qed

lemma small_fs_tx: "tx_ok small_fs"
proof -
  have "bio_ok small_fs" by (auto simp: bio_ok_def small_fs_sel empty_buf_def buf_ok_def initsleeplock_def first_bitmap_def)
  moreover have "hdr_n (replicate 1024 0) = 0" by (simp add: hdr_n_def get_le_def)
  ultimately show ?thesis by (simp add: tx_ok_def log_inv_def log_ok_def small_fs_sel small_fs_free)
qed

lemma small_fs_allocated:
  assumes "b < 2000"
  shows "allocated small_fs b = (b < 47)"
proof -
  have a: "allocated small_fs c = bit (first_bitmap ! (c div 8)) (c mod 8)" if "c < 2000" for c
    using that by (simp add: allocated_def BBLOCK_def small_fs_sel small_fs_free bit_at_bit)
  have ff: "(255 :: byte) = -1" by simp
  consider "b < 40" | "b \<in> {40..<48}" | "48 \<le> b" by fastforce
  then show ?thesis
  proof cases
    case 1
    then have "b div 8 < 5" by simp
    then show ?thesis using 1 assms by (simp add: a first_bitmap_def nth_append ff bit_minus_1_iff)
  next
    case 2
    then have "b = 40 \<or> b = 41 \<or> b = 42 \<or> b = 43 \<or> b = 44 \<or> b = 45 \<or> b = 46 \<or> b = 47" by (simp, presburger)
    then show ?thesis by (elim disjE) (simp_all add: a first_bitmap_def nth_append)
  next
    case 3
    then have "5 < b div 8" "b div 8 - 6 < 1018" using assms by auto
    then show ?thesis using 3 assms by (simp add: a first_bitmap_def nth_append nth_Cons')
  qed
qed

lemma small_fs_layout: "layout_ok small_fs"
  by (auto simp: layout_ok_def small_fs_allocated small_fs_sel BBLOCK_def log_area_def)

subsection \<open>Properties\<close>

lemma tx_post_sb:
  fixes s s' :: "'z fs_scheme"
  assumes "tx_post s V B s'"
  shows "sb s' = sb s"
  using tx_post_fields(6) [OF assms] by (cases s; cases s') simp

lemma output_only_views: "output_only s bs s' \<Longrightarrow> disk s' = disk s \<and> bview s' = bview s"
  by (auto simp: output_only_def cache_fields_cong [of "s\<lparr>uart_tx_idle := t, uart_out := u\<rparr>" s for t u])

lemma render_plain: "c_pct \<notin> set fmt \<Longrightarrow> render fmt args = Some (map uint fmt)"
  by (induction fmt) auto

lemma same_block: "BBLOCK c sb' = BBLOCK b sb' \<Longrightarrow> (c mod BPB = b mod BPB) = (c = b)"
  by (auto simp: BBLOCK_def) (metis mult_div_mod_eq)

lemma allocated_after:
  assumes "bio_ok s" "bview s' = alloc_view s r" "sb s' = sb s" "\<forall>c < lim. r \<noteq> BBLOCK c (sb s)" "c < lim"
  shows "allocated s' c = (c = r \<or> allocated s c)"
proof -
  have len: "length (bview s (BBLOCK c (sb s))) = 1024" by (rule length_bview [OF assms(1)])
  have m: "c mod 8192 < 8 * 1024" "r mod 8192 < 8 * 1024" by simp_all
  show ?thesis
  proof (cases "BBLOCK c (sb s) = BBLOCK r (sb s)")
    case True
    then show ?thesis using assms(2-5) same_block [OF True] bit_set_at [of "r mod 8192" "bview s (BBLOCK r (sb s))" "c mod 8192"] m len
      by (auto simp: allocated_def alloc_view_def)
  next
    case False
    then show ?thesis using assms(2-5) by (auto simp: allocated_def alloc_view_def)
  qed
qed

text \<open>
  C6: \<^verbatim>\<open>balloc\<close>, inside a transaction with room for two more blocks, returns the lowest-numbered free
  block, marks it and no other block as allocated, and zeroes its contents; nothing reaches the disk before
  the commit.  With no free block left it returns 0 and leaves all blocks alone.
\<close>

theorem balloc_takes_first_free:
  assumes "tx_ok s" "\<forall>b. \<not> blocked s b" "card (in_use s) < 29" "layout_ok s" "\<not> panicked s"
  shows "\<exists>r s'. balloc 1 s = Inr (r, s') \<and> disk s' = disk s \<and>
    (if \<forall>b < sb_size (sb s). allocated s b then r = 0 \<and> bview s' = bview s
     else r \<noteq> 0 \<and> r < sb_size (sb s) \<and> \<not> allocated s r \<and> (\<forall>c < r. allocated s c) \<and> tx_ok s' \<and>
       (\<forall>c < sb_size (sb s). allocated s' c = (c = r \<or> allocated s c)) \<and>
       bview s' r = replicate 1024 0 \<and> (\<forall>b. b \<noteq> r \<longrightarrow> b \<noteq> BBLOCK r (sb s) \<longrightarrow> bview s' b = bview s b))"
    (is "\<exists>r s'. _ \<and> ?Q r s'")
proof -
  have bok: "bio_ok s" using assms(1) by (simp add: tx_ok_def log_inv_def log_ok_def)
  have "wp (balloc_from 1 (sb_size (sb s)) 0) ?Q (\<lambda>_. False) s"
  proof (rule balloc_from_spec)
    fix s' assume all: "\<forall>b < sb_size (sb s). allocated s b" and p: "tx_post s (bview s) {} s'"
    note f = tx_post_fields [OF p]
    have "\<not> panicked s'" using assms(5) p by (auto simp: tx_post_def cache_frame_def)
    moreover have "render out_of_blocks [] = Some (map uint out_of_blocks)"
      by (rule render_plain) (simp add: out_of_blocks_def str_def)
    ultimately show "wp (printf out_of_blocks []) (\<lambda>_. ?Q 0) (\<lambda>_. False) s'"
      using all f(2,3) by (intro wp_mono [OF printf_run]) (auto dest: output_only_views)
  next
    fix s' b assume b: "b < sb_size (sb s)" "\<not> allocated s b" "\<forall>c < b. allocated s c"
      and p: "tx_post s (alloc_view s b) {BBLOCK b (sb s), b} s'"
    note f = tx_post_fields [OF p]
    have "b \<noteq> 0" using b assms(4) by (auto simp: layout_ok_def intro!: Nat.gr0I)
    moreover have nb: "\<forall>c < sb_size (sb s). b \<noteq> BBLOCK c (sb s)" using assms(4) b by (simp add: layout_ok_def)
    moreover have "\<forall>c < sb_size (sb s). allocated s' c = (c = b \<or> allocated s c)"
      using allocated_after [OF bok f(2) tx_post_sb [OF p] nb] by blast
    ultimately show "?Q b s'" using b f(1,2,3) by (auto simp: alloc_view_def)
  qed (use assms in auto)
  from iffD1 [OF wp_total_ex this] show ?thesis by (simp only: balloc_def bindK_def getsK_def sum.case prod.case)
qed

theorem balloc_takes_first_free_witness:
  "\<exists>s'. balloc 1 small_fs = Inr (47, s') \<and> bview s' 47 = replicate 1024 0 \<and> allocated s' 47 \<and> \<not> allocated s' 48"
proof -
  have "\<not> (\<forall>b < sb_size (sb small_fs). allocated small_fs b)" using small_fs_allocated [of 47]
    by (auto simp: small_fs_sel intro!: exI [of _ 47])
  moreover have "\<forall>b. \<not> blocked small_fs b" "card (in_use small_fs) < 29" by (simp_all add: small_fs_free)
  ultimately obtain r s' where r: "balloc 1 small_fs = Inr (r, s')" "r < 2000" "\<not> allocated small_fs r" "\<forall>c < r. allocated small_fs c"
      "\<forall>c < 2000. allocated s' c = (c = r \<or> allocated small_fs c)" "bview s' r = replicate 1024 0"
    using balloc_takes_first_free [of small_fs] small_fs_tx small_fs_layout small_fs_sel(8,10) by metis
  have "\<not> r < 47" using r(2,3) small_fs_allocated [of r] by blast
  moreover have "\<not> 47 < r" using r(4) small_fs_allocated [of 47] by auto
  ultimately have "r = 47" by simp
  moreover have "allocated s' 47" "\<not> allocated s' 48" using r(5) small_fs_allocated [of 48] \<open>r = 47\<close> by simp_all
  ultimately show ?thesis using r by auto
qed

text \<open>
  \<^verbatim>\<open>bfree\<close>, inside a transaction, frees exactly the given block: the bit of the block is cleared,
  and no other block changes.  Freeing a block that is free already panics.
\<close>

lemma bfree_clears_one_bit:
  assumes "tx_ok s" "\<forall>b. \<not> blocked s b" "card (in_use s) < 30" "layout_ok s" "b < sb_size (sb s)"
  shows "if allocated s b
    then \<exists>s'. bfree 1 b s = Inr ((), s') \<and> tx_ok s' \<and> disk s' = disk s \<and> (\<forall>c. allocated s' c = (c \<noteq> b \<and> allocated s c)) \<and>
      (\<forall>c. c \<noteq> BBLOCK b (sb s) \<longrightarrow> bview s' c = bview s c)
    else bfree 1 b s = Inl (Panic ''freeing free block'')"
proof -
  have tx: "tx_ok s" and nl: "\<And>b. \<not> blocked s b" and room: "card (in_use s) < 30" using assms by simp_all
  have bok: "bio_ok s" using tx by (simp add: tx_ok_def log_inv_def log_ok_def)
  have lay: "BBLOCK b (sb s) \<notin> log_area (log_start s)" "BBLOCK b (sb s) < 2 ^ 32" using assms(4,5) by (simp_all add: layout_ok_def)
  let ?bb = "BBLOCK b (sb s)" and ?x = "bview s (BBLOCK b (sb s))"
  have len: "length (bview s c) = 1024" for c by (rule length_bview [OF bok])
  let ?Q = "\<lambda>u s'. allocated s b \<and> tx_ok s' \<and> disk s' = disk s \<and> (\<forall>c. allocated s' c = (c \<noteq> b \<and> allocated s c)) \<and>
      (\<forall>c. c \<noteq> ?bb \<longrightarrow> bview s' c = bview s c)"
  let ?E = "\<lambda>e. \<not> allocated s b \<and> e = Panic ''freeing free block''"
  have w: "wp (bfree 1 b) ?Q ?E s"
    unfolding bfree_def wp_bind [of "getsK _"] wp_gets wp_bind [of "bread _ _"]
  proof (rule bc.wp_rd [OF bok cache_frame_refl tx_can [OF nl room]])
    fix bp s1 assume s1: "bio_ok s1" "cache_frame s s1" "cache_of s1 = cacq ?bb (cache_of s)" "held s1 bp ?bb"
    have v: "cview (cache_of s1) ?bb = ?x" by (simp add: s1(3) cache_of_sel)
    have "wp (thenK (put_data bp (bit_clear (b mod 8192) ?x)) (thenK (log_write bp) (brelse bp))) ?Q ?E s1" if al: "allocated s b"
    proof -
      have "wp (thenK (put_data bp (bit_clear (b mod 8192) ?x)) (thenK (log_write bp) (thenK (brelse bp) (returnK ())))) ?Q ?E s1"
      proof (rule tx_update [OF tx nl room lay _ s1])
        show "length (bit_clear (b mod 8192) ?x) = 1024" by (simp add: len)
        fix s' assume p: "tx_post s ((bview s)(?bb := bit_clear (b mod 8192) ?x)) {?bb} s'"
        note f = tx_post_fields [OF p]
        have "allocated s' c = (c \<noteq> b \<and> allocated s c)" for c
          using bit_clear_at [of "b mod 8192" ?x "c mod 8192"] len [of ?bb] same_block [of c "sb s" b]
          by (auto simp: allocated_def tx_post_sb [OF p] f(2))
        then show "wp (returnK ()) ?Q ?E s'" using al f(1-3) by simp
      qed
      then show ?thesis by (simp only: thenK_return)
    qed
    then have "wp (if \<not> bit_at ?x (b mod BPB) then panic ''freeing free block''
         else thenK (put_data bp (bit_clear (b mod BPB) ?x)) (thenK (log_write bp) (brelse bp))) ?Q ?E s1"
      by (cases "allocated s b") (simp_all add: allocated_def)
    then show "wp (bindK (get_data bp) (\<lambda>x. let bi = b mod BPB in if \<not> bit_at x bi then panic ''freeing free block''
         else thenK (put_data bp (bit_clear bi x)) (thenK (log_write bp) (brelse bp)))) ?Q ?E s1"
      unfolding wp_bind by (intro bc.wp_get [OF s1(1,4)]) (simp only: v Let_def)
  qed
  show ?thesis
  proof (cases "allocated s b")
    case True
    then have "wp (bfree 1 b) ?Q (\<lambda>_. False) s" using w by (simp add: wp_def split: sum.splits)
    from iffD1 [OF wp_total_ex this] show ?thesis using True by auto
  next
    case False
    then show ?thesis using w by (auto simp: wp_def split: sum.splits)
  qed
qed

end
