(* ===== verification/File.thy ===== *)
theory File
  imports Fs
begin

unbundle bit_operations_syntax

section \<open>Open files (kernel/file.c, and pipealloc of kernel/pipe.c)\<close>

text \<open>
  A \<^verbatim>\<open>struct file *\<close> is an index into the table of open files.  The device switch holds, for each
  major number, the device whose functions are installed; the console is the only device that installs any.
  Reading and writing a pipe or the console may have to wait: then the run ends with the position at
  which the called function continues.
\<close>

datatype fdtype = FD_NONE | FD_PIPE | FD_INODE | FD_DEVICE

record openfile =
  f_type :: fdtype
  f_ref :: int
  f_readable :: bool
  f_writable :: bool
  f_pipe :: addr
  f_ip :: nat
  f_off :: nat
  f_major :: int

datatype dev_fn = consoleread_fn | consolewrite_fn

record devsw =
  dev_read :: "dev_fn option"
  dev_write :: "dev_fn option"

record ftab = fs +
  ftable :: "openfile list"
  devsws :: "devsw list"

datatype io = Ret int | IoWaits chan nat | ConsWaits chan nat "byte list" nat

definition of_outcome :: "outcome \<Rightarrow> io" where
  "of_outcome r = (case r of Done x \<Rightarrow> Ret x | Waits c i \<Rightarrow> IoWaits c i)"

definition of_cwrite :: "cwrite \<Rightarrow> io" where
  "of_cwrite r = (case r of CDone x \<Rightarrow> Ret x | CWaits c i buf j \<Rightarrow> ConsWaits c i buf j)"

definition get_file :: "nat \<Rightarrow> ('z ftab_scheme, openfile) K" where
  "get_file f = getsK (\<lambda>s. ftable s ! f)"

definition set_file :: "nat \<Rightarrow> (openfile \<Rightarrow> openfile) \<Rightarrow> ('z ftab_scheme, unit) K" where
  "set_file f h = modifyK (\<lambda>s. s\<lparr>ftable := (ftable s)[f := h (ftable s ! f)]\<rparr>)"

text \<open>The part of \<^verbatim>\<open>consoleinit\<close> that connects the read and write system calls to the console.\<close>

abbreviation (input) CONSOLE :: nat where "CONSOLE \<equiv> 1"

definition console_attach :: "('z ftab_scheme, unit) K" where
  "console_attach =
     thenK consoleinit
       (modifyK (\<lambda>s. s\<lparr>devsws := (devsws s)[CONSOLE := \<lparr>dev_read = Some consoleread_fn, dev_write = Some consolewrite_fn\<rparr>]\<rparr>))"

subsection \<open>Operations\<close>

definition filealloc :: "('z ftab_scheme, nat option) K" where
  "filealloc =
     bindK (getsK (\<lambda>s. find_index (\<lambda>f. f_ref f = 0) (ftable s))) (\<lambda>r.
     case r of
       None \<Rightarrow> returnK None
     | Some f \<Rightarrow> thenK (set_file f (\<lambda>x. x\<lparr>f_ref := 1\<rparr>)) (returnK (Some f)))"

definition filedup :: "nat \<Rightarrow> ('z ftab_scheme, nat) K" where
  "filedup f =
     bindK (get_file f) (\<lambda>x.
     if f_ref x < 1 then panic ''filedup''
     else thenK (set_file f (\<lambda>x. x\<lparr>f_ref := f_ref x + 1\<rparr>)) (returnK f))"

definition fileclose :: "nat \<Rightarrow> ('z ftab_scheme, unit) K" where
  "fileclose f =
     bindK (get_file f) (\<lambda>x.
     if f_ref x < 1 then panic ''fileclose''
     else
       thenK (set_file f (\<lambda>x. x\<lparr>f_ref := f_ref x - 1\<rparr>))
      (bindK (get_file f) (\<lambda>ff.
       if f_ref ff > 0 then returnK ()
       else
         thenK (set_file f (\<lambda>x. x\<lparr>f_ref := 0, f_type := FD_NONE\<rparr>))
          (if f_type ff = FD_PIPE then pipeclose (f_pipe ff) (f_writable ff)
           else whenK (f_type ff = FD_INODE \<or> f_type ff = FD_DEVICE)
             (thenK begin_op (thenK (iput (f_ip ff)) end_op))))))"

text \<open>
  \<^verbatim>\<open>struct stat\<close> as it lies in memory: between \<^verbatim>\<open>nlink\<close> and \<^verbatim>\<open>size\<close> there are four bytes of padding, which
  keep what the stack held before.
\<close>

definition stat_bytes :: "byte list \<Rightarrow> stat \<Rightarrow> byte list" where
  "stat_bytes pad st =
     enc 4 (st_dev st) @ enc 4 (st_ino st) @ enc 2 (nat (st_type st mod 2 ^ 16)) @ enc 2 (nat (st_nlink st mod 2 ^ 16)) @
     pad @ enc 8 (st_size st)"

definition filestat :: "byte list \<Rightarrow> nat \<Rightarrow> u64 \<Rightarrow> ('z ftab_scheme, int) K" where
  "filestat pad f addr =
     bindK (get_file f) (\<lambda>x.
     if f_type x = FD_INODE \<or> f_type x = FD_DEVICE then
       thenK (ilock (f_ip x))
      (bindK (get_inode (f_ip x)) (\<lambda>i.
       let st = stati i in
       thenK (iunlock (f_ip x))
      (bindK (getsK p_pagetable) (\<lambda>pagetable.
       bindK (copyout pagetable addr (stat_bytes pad st)) (\<lambda>r.
       returnK (if r < 0 then -1 else 0))))))
     else returnK (-1))"

text \<open>The functions of the device switch, called with \<^verbatim>\<open>user_dst = 1\<close> and \<^verbatim>\<open>user_src = 1\<close>.\<close>

definition call_dev :: "dev_fn \<Rightarrow> u64 \<Rightarrow> int \<Rightarrow> ('z ftab_scheme, io) K" where
  "call_dev g addr n =
     (case g of
        consoleread_fn \<Rightarrow> bindK (consoleread True addr n) (\<lambda>(r, _). returnK (of_outcome r))
      | consolewrite_fn \<Rightarrow> bindK (consolewrite True addr [] n) (\<lambda>r. returnK (of_cwrite r)))"

definition devfn :: "(devsw \<Rightarrow> dev_fn option) \<Rightarrow> int \<Rightarrow> ('z ftab_scheme, dev_fn option) K" where
  "devfn sel major =
     (if major < 0 \<or> major \<ge> int NDEV then returnK None else getsK (\<lambda>s. sel (devsws s ! nat major)))"

text \<open>The offset of an open file is a \<^verbatim>\<open>uint\<close>; so is the count that \<^verbatim>\<open>readi\<close> and \<^verbatim>\<open>writei\<close> take.\<close>

definition advance :: "nat \<Rightarrow> int \<Rightarrow> ('z ftab_scheme, unit) K" where
  "advance f r = whenK (r > 0) (set_file f (\<lambda>x. x\<lparr>f_off := (f_off x + nat r) mod 2 ^ 32\<rparr>))"

definition fileread :: "nat \<Rightarrow> u64 \<Rightarrow> int \<Rightarrow> ('z ftab_scheme, io) K" where
  "fileread f addr n =
     bindK (get_file f) (\<lambda>x.
     if \<not> f_readable x then returnK (Ret (-1))
     else case f_type x of
       FD_PIPE \<Rightarrow> bindK (piperead (f_pipe x) addr n) (\<lambda>r. returnK (of_outcome r))
     | FD_DEVICE \<Rightarrow>
         bindK (devfn dev_read (f_major x)) (\<lambda>g.
         case g of None \<Rightarrow> returnK (Ret (-1)) | Some g \<Rightarrow> call_dev g addr n)
     | FD_INODE \<Rightarrow>
         thenK (ilock (f_ip x))
        (bindK (readi (f_ip x) True addr (f_off x) (nat (n mod 2 ^ 32))) (\<lambda>(r, _).
         thenK (advance f r)
        (thenK (iunlock (f_ip x)) (returnK (Ret r)))))
     | FD_NONE \<Rightarrow> panic ''fileread'')"

abbreviation (input) filewrite_max :: nat where "filewrite_max \<equiv> ((10 - 1 - 1 - 2) div 2) * 1024"

text \<open>The loop of \<^verbatim>\<open>filewrite\<close> on an inode, one transaction per round; it yields the final \<^verbatim>\<open>i\<close>.\<close>

function filewrite_loop :: "nat \<Rightarrow> nat \<Rightarrow> u64 \<Rightarrow> nat \<Rightarrow> nat \<Rightarrow> ('z ftab_scheme, nat) K" where
  "filewrite_loop f ip addr n i =
     (if i < n then
        let n1 = min (n - i) filewrite_max in
        thenK begin_op
       (thenK (ilock ip)
       (bindK (get_file f) (\<lambda>x.
        bindK (writei ip True (addr + of_nat i) [] (f_off x) n1) (\<lambda>r.
        thenK (advance f r)
       (thenK (iunlock ip)
       (thenK end_op
         (if r \<noteq> int n1 then returnK i else filewrite_loop f ip addr n (i + n1))))))))
      else returnK i)"
  by pat_completeness auto
termination by (relation "measure (\<lambda>(f, ip, addr, n, i). n - i)") auto

declare filewrite_loop.simps [simp del]

definition filewrite :: "nat \<Rightarrow> u64 \<Rightarrow> int \<Rightarrow> ('z ftab_scheme, io) K" where
  "filewrite f addr n =
     bindK (get_file f) (\<lambda>x.
     if \<not> f_writable x then returnK (Ret (-1))
     else case f_type x of
       FD_PIPE \<Rightarrow> bindK (pipewrite (f_pipe x) addr n) (\<lambda>r. returnK (of_outcome r))
     | FD_DEVICE \<Rightarrow>
         bindK (devfn dev_write (f_major x)) (\<lambda>g.
         case g of None \<Rightarrow> returnK (Ret (-1)) | Some g \<Rightarrow> call_dev g addr n)
     | FD_INODE \<Rightarrow>
         bindK (filewrite_loop f (f_ip x) addr (nat n) 0) (\<lambda>i.
         returnK (Ret (if int i = n then n else -1)))
     | FD_NONE \<Rightarrow> panic ''filewrite'')"

text \<open>\<^verbatim>\<open>pipealloc\<close>: the read end and the write end, or None for the return value -1.\<close>

definition pipe_end :: "bool \<Rightarrow> addr \<Rightarrow> openfile \<Rightarrow> openfile" where
  "pipe_end writable pi f = f\<lparr>f_type := FD_PIPE, f_readable := \<not> writable, f_writable := writable, f_pipe := pi\<rparr>"

definition pipealloc :: "('z ftab_scheme, (nat \<times> nat) option) K" where
  "pipealloc =
     bindK filealloc (\<lambda>r0.
     case r0 of
       None \<Rightarrow> returnK None
     | Some f0 \<Rightarrow>
         bindK filealloc (\<lambda>r1.
         case r1 of
           None \<Rightarrow> thenK (fileclose f0) (returnK None)
         | Some f1 \<Rightarrow>
             bindK kalloc (\<lambda>pi.
             if pi = 0 then thenK (fileclose f0) (thenK (fileclose f1) (returnK None))
             else
               thenK (pipe_init pi)
              (thenK (set_file f0 (pipe_end False pi))
              (thenK (set_file f1 (pipe_end True pi)) (returnK (Some (f0, f1))))))))"

end
