(* ===== verification/Proc.thy ===== *)
theory Proc
  imports File
begin

section \<open>Processes (kernel/proc.c)\<close>

text \<open>
  The process table, with the current process \<open>cur\<close>.  The page table, size, pid, killed flag and
  directory of the current process are the fields \<open>p_pagetable\<close>, \<open>p_sz\<close>, \<open>p_pid\<close>, \<open>p_killed\<close> and \<open>p_cwd\<close> of
  the state that the lower layers use; \<open>proc_at\<close> reads a table entry with these in place, and \<open>set_proc\<close>
  updates both.  Each routine is one uninterrupted run, so the locks taken and released inside
  it leave no trace; \<^verbatim>\<open>sched\<close> ends a run.  The interleaving of \<^verbatim>\<open>sleep\<close>, \<^verbatim>\<open>wakeup\<close> and the scheduler at
  the granularity of the locks is the subject of the theory \<open>Sched\<close>.  A trapframe is a page of memory;
  its fields are read and written at their offsets in \<^verbatim>\<open>struct trapframe\<close>.
\<close>

datatype procstate = UNUSED | USED | SLEEPING | RUNNABLE | RUNNING | ZOMBIE

record cpu_context =
  ctx_ra :: u64
  ctx_sp :: u64
  ctx_s :: "u64 list"   \<comment> \<open>\<^verbatim>\<open>s0\<close> to \<^verbatim>\<open>s11\<close>\<close>

record proc =
  state :: procstate
  pchan :: "chan option"
  pkilled :: bool
  xstate :: int
  pid :: int
  parent :: "nat option"
  kstack :: u64
  psz :: u64
  pagetable :: addr
  trapframe :: addr
  pcontext :: cpu_context
  ofile :: "nat option list"
  cwd :: "nat option"
  pname :: "byte list"

record kern = ftab +
  procs :: "proc list"
  cur :: nat           \<comment> \<open>\<^verbatim>\<open>myproc()\<close>\<close>
  initproc :: nat
  nextpid :: int
  forkret_addr :: u64  \<comment> \<open>address of the function \<^verbatim>\<open>forkret\<close>\<close>
  ticks :: u32

definition proc_at :: "'z kern_scheme \<Rightarrow> nat \<Rightarrow> proc" where
  "proc_at s i =
     (let p = procs s ! i in
      if i = cur s then p\<lparr>pagetable := p_pagetable s, psz := p_sz s, pid := p_pid s, pkilled := p_killed s,
        cwd := map_option (\<lambda>_. p_cwd s) (cwd p)\<rparr>
      else p)"

definition put_proc :: "nat \<Rightarrow> proc \<Rightarrow> 'z kern_scheme \<Rightarrow> 'z kern_scheme" where
  "put_proc i p s =
     (let s' = s\<lparr>procs := (procs s)[i := p]\<rparr> in
      if i = cur s then s'\<lparr>p_pagetable := pagetable p, p_sz := psz p, p_pid := pid p, p_killed := pkilled p,
        p_cwd := (case cwd p of None \<Rightarrow> p_cwd s | Some c \<Rightarrow> c)\<rparr>
      else s')"

definition get_proc :: "nat \<Rightarrow> ('z kern_scheme, proc) K" where
  "get_proc i = getsK (\<lambda>s. proc_at s i)"

definition set_proc :: "nat \<Rightarrow> (proc \<Rightarrow> proc) \<Rightarrow> ('z kern_scheme, unit) K" where
  "set_proc i f = modifyK (\<lambda>s. put_proc i (f (proc_at s i)) s)"

text \<open>Trapframe fields\<close>

abbreviation (input) tf_kernel_satp :: u64 where "tf_kernel_satp \<equiv> 0"
abbreviation (input) tf_kernel_sp :: u64 where "tf_kernel_sp \<equiv> 8"
abbreviation (input) tf_kernel_trap :: u64 where "tf_kernel_trap \<equiv> 16"
abbreviation (input) tf_epc :: u64 where "tf_epc \<equiv> 24"
abbreviation (input) tf_kernel_hartid :: u64 where "tf_kernel_hartid \<equiv> 32"
abbreviation (input) tf_sp :: u64 where "tf_sp \<equiv> 48"
abbreviation (input) tf_a0 :: u64 where "tf_a0 \<equiv> 112"
abbreviation (input) tf_a1 :: u64 where "tf_a1 \<equiv> 120"
abbreviation (input) tf_a7 :: u64 where "tf_a7 \<equiv> 168"
abbreviation (input) tf_size :: nat where "tf_size \<equiv> 288"

definition tf_get :: "addr \<Rightarrow> u64 \<Rightarrow> ('z kern_scheme, u64) K" where
  "tf_get tf off = getsK (\<lambda>s. read64 (ram s) (tf + off))"

definition tf_set :: "addr \<Rightarrow> u64 \<Rightarrow> u64 \<Rightarrow> ('z kern_scheme, unit) K" where
  "tf_set tf off v = modifyK (\<lambda>s. s\<lparr>ram := write64 (ram s) (tf + off) v\<rparr>)"

subsection \<open>Wakeups\<close>

definition proc_chan :: "nat \<Rightarrow> chan" where
  "proc_chan i = (''proc'', i)"

text \<open>What \<^verbatim>\<open>wakeup(chan)\<close> does to the table; the lower layers record the channel only.\<close>

definition wake_all :: "chan \<Rightarrow> ('z kern_scheme, unit) K" where
  "wake_all c =
     forK [0..<NPROC] (\<lambda>i.
       bindK (getsK cur) (\<lambda>me.
       whenK (i \<noteq> me)
         (bindK (get_proc i) (\<lambda>p.
          whenK (state p = SLEEPING \<and> pchan p = Some c) (set_proc i (\<lambda>p. p\<lparr>state := RUNNABLE\<rparr>))))))"

text \<open>A run of kernel code, with the wakeups of the lower layers applied to the table at its end.\<close>

definition deliver :: "('z kern_scheme, 'a) K \<Rightarrow> ('z kern_scheme, 'a) K" where
  "deliver f =
     thenK (modifyK (\<lambda>s. s\<lparr>wakeups := []\<rparr>))
    (bindK f (\<lambda>r.
     bindK (getsK wakeups) (\<lambda>cs.
     thenK (forK cs wake_all) (returnK r))))"

subsection \<open>Creating and freeing processes\<close>

definition procinit :: "('z kern_scheme, unit) K" where
  "procinit = forK [0..<NPROC] (\<lambda>i. set_proc i (\<lambda>p. p\<lparr>state := UNUSED, kstack := KSTACK i\<rparr>))"

text \<open>The pid counter is a C \<^verbatim>\<open>int\<close>; its overflow has no defined behaviour.\<close>

definition allocpid :: "('z kern_scheme, int) K" where
  "allocpid =
     bindK (getsK nextpid) (\<lambda>n.
     if n = 2 ^ 31 - 1 then undefK
     else thenK (modifyK (\<lambda>s. s\<lparr>nextpid := n + 1\<rparr>)) (returnK n))"

definition freeproc :: "nat \<Rightarrow> ('z kern_scheme, unit) K" where
  "freeproc i =
     bindK (get_proc i) (\<lambda>p.
     thenK (whenK (trapframe p \<noteq> 0) (kfree (trapframe p)))
    (thenK (set_proc i (\<lambda>p. p\<lparr>trapframe := 0\<rparr>))
    (thenK (whenK (pagetable p \<noteq> 0) (proc_freepagetable (pagetable p) (psz p)))
     (set_proc i (\<lambda>p. p\<lparr>pagetable := 0, psz := 0, pid := 0, parent := None, pname := (pname p)[0 := 0], pchan := None,
        pkilled := False, xstate := 0, state := UNUSED\<rparr>)))))"

definition zero_context :: cpu_context where
  "zero_context = \<lparr>ctx_ra = 0, ctx_sp = 0, ctx_s = replicate 12 0\<rparr>"

definition allocproc :: "('z kern_scheme, nat option) K" where
  "allocproc =
     bindK (getsK (\<lambda>s. find_index (\<lambda>p. state p = UNUSED) (procs s))) (\<lambda>r.
     case r of
       None \<Rightarrow> returnK None
     | Some i \<Rightarrow>
         bindK allocpid (\<lambda>n.
         thenK (set_proc i (\<lambda>p. p\<lparr>pid := n, state := USED\<rparr>))
        (bindK kalloc (\<lambda>tf.
         thenK (set_proc i (\<lambda>p. p\<lparr>trapframe := tf\<rparr>))
          (if tf = 0 then thenK (freeproc i) (returnK None)
           else
             bindK (proc_pagetable tf) (\<lambda>pt.
             thenK (set_proc i (\<lambda>p. p\<lparr>pagetable := pt\<rparr>))
              (if pt = 0 then thenK (freeproc i) (returnK None)
               else
                 bindK (getsK forkret_addr) (\<lambda>ra.
                 thenK (set_proc i (\<lambda>p. p\<lparr>pcontext := zero_context\<lparr>ctx_ra := ra, ctx_sp := kstack p + PGSIZE\<rparr>\<rparr>))
                   (returnK (Some i))))))))))"

definition root_path :: "byte list" where
  "root_path = str ''/''"

definition userinit :: "('z kern_scheme, unit) K" where
  "userinit =
     bindK allocproc (\<lambda>r.
     case r of
       None \<Rightarrow> undefK
     | Some i \<Rightarrow>
         thenK (modifyK (\<lambda>s. s\<lparr>initproc := i\<rparr>))
        (bindK (namei root_path) (\<lambda>ip.
         set_proc i (\<lambda>p. p\<lparr>cwd := ip, state := RUNNABLE\<rparr>))))"

definition growproc :: "int \<Rightarrow> ('z kern_scheme, int) K" where
  "growproc n =
     bindK (getsK p_sz) (\<lambda>sz.
     bindK (getsK p_pagetable) (\<lambda>pt.
     if n > 0 then
       bindK (uvmalloc pt sz (sz + of_int n) PTE_W) (\<lambda>sz'.
       if sz' = 0 then returnK (-1)
       else thenK (modifyK (\<lambda>s. s\<lparr>p_sz := sz'\<rparr>)) (returnK 0))
     else if n < 0 then
       bindK (uvmdealloc pt sz (sz + of_int n)) (\<lambda>sz'.
       thenK (modifyK (\<lambda>s. s\<lparr>p_sz := sz'\<rparr>)) (returnK 0))
     else thenK (modifyK (\<lambda>s. s\<lparr>p_sz := sz\<rparr>)) (returnK 0)))"

text \<open>\<^verbatim>\<open>safestrcpy(np->name, p->name, sizeof(p->name))\<close>\<close>

definition copy_name :: "byte list \<Rightarrow> byte list \<Rightarrow> byte list" where
  "copy_name dst src = overwrite dst 0 (take 15 (takeWhile (\<lambda>c. c \<noteq> 0) src) @ [0])"

definition kfork :: "('z kern_scheme, int) K" where
  "kfork =
     bindK (getsK cur) (\<lambda>me.
     bindK allocproc (\<lambda>r.
     case r of
       None \<Rightarrow> returnK (-1)
     | Some np \<Rightarrow>
         bindK (get_proc me) (\<lambda>p.
         bindK (get_proc np) (\<lambda>q.
         bindK (uvmcopy (pagetable p) (pagetable q) (psz p)) (\<lambda>rc.
         if rc < 0 then thenK (freeproc np) (returnK (-1))
         else
           thenK (set_proc np (\<lambda>q. q\<lparr>psz := psz p\<rparr>))
          (thenK (modifyK (\<lambda>s. s\<lparr>ram := mem_put (ram s) (trapframe q) (mem_bytes (ram s) (trapframe p) tf_size)\<rparr>))
          (thenK (tf_set (trapframe q) tf_a0 0)
          (thenK (forK [0..<NOFILE] (\<lambda>fd.
             case ofile p ! fd of
               None \<Rightarrow> returnK ()
             | Some f \<Rightarrow> bindK (filedup f) (\<lambda>f'. set_proc np (\<lambda>q. q\<lparr>ofile := (ofile q)[fd := Some f']\<rparr>))))
          (bindK (case cwd p of None \<Rightarrow> undefK | Some ip \<Rightarrow> idup ip) (\<lambda>ip'.
           thenK (set_proc np (\<lambda>q. q\<lparr>cwd := Some ip'\<rparr>))
          (thenK (set_proc np (\<lambda>q. q\<lparr>pname := copy_name (pname q) (pname p)\<rparr>))
          (thenK (set_proc np (\<lambda>q. q\<lparr>parent := Some me\<rparr>))
          (thenK (set_proc np (\<lambda>q. q\<lparr>state := RUNNABLE\<rparr>))
           (returnK (pid q)))))))))))))))"

subsection \<open>Exit, wait and kill\<close>

definition reparent :: "nat \<Rightarrow> ('z kern_scheme, unit) K" where
  "reparent i =
     bindK (getsK initproc) (\<lambda>ini.
     forK [0..<NPROC] (\<lambda>pp.
       bindK (get_proc pp) (\<lambda>q.
       whenK (parent q = Some i)
         (thenK (set_proc pp (\<lambda>q. q\<lparr>parent := Some ini\<rparr>)) (wake_all (proc_chan ini))))))"

text \<open>\<^verbatim>\<open>kexit\<close> up to its call of \<^verbatim>\<open>sched\<close>, which does not return.\<close>

definition kexit :: "int \<Rightarrow> ('z kern_scheme, unit) K" where
  "kexit status =
     bindK (getsK cur) (\<lambda>me.
     bindK (getsK initproc) (\<lambda>ini.
     if me = ini then panic ''init exiting''
     else
       thenK (forK [0..<NOFILE] (\<lambda>fd.
         bindK (get_proc me) (\<lambda>p.
         case ofile p ! fd of
           None \<Rightarrow> returnK ()
         | Some f \<Rightarrow> thenK (fileclose f) (set_proc me (\<lambda>p. p\<lparr>ofile := (ofile p)[fd := None]\<rparr>)))))
      (thenK begin_op
      (bindK (get_proc me) (\<lambda>p.
       thenK (case cwd p of None \<Rightarrow> undefK | Some ip \<Rightarrow> iput ip)
      (thenK end_op
      (thenK (set_proc me (\<lambda>p. p\<lparr>cwd := None\<rparr>))
      (thenK (reparent me)
      (bindK (get_proc me) (\<lambda>p'.
       thenK (case parent p' of None \<Rightarrow> returnK () | Some q \<Rightarrow> wake_all (proc_chan q))
        (set_proc me (\<lambda>p. p\<lparr>xstate := status, state := ZOMBIE\<rparr>))))))))))))"

text \<open>The scan of \<^verbatim>\<open>kwait\<close>: \<open>Inl r\<close> when it returns \<open>r\<close>, else \<open>Inr havekids\<close>.\<close>

primrec kwait_scan :: "u64 \<Rightarrow> nat list \<Rightarrow> bool \<Rightarrow> ('z kern_scheme, int + bool) K" where
  "kwait_scan addr [] havekids = returnK (Inr havekids)"
| "kwait_scan addr (pp # rest) havekids =
     bindK (getsK cur) (\<lambda>me.
     bindK (get_proc pp) (\<lambda>q.
     if parent q = Some me then
       if state q = ZOMBIE then
         bindK (getsK p_pagetable) (\<lambda>pt.
         bindK (if addr \<noteq> 0 then copyout pt addr (enc 4 (nat (xstate q mod 2 ^ 32))) else returnK 0) (\<lambda>r.
         if r < 0 then returnK (Inl (-1))
         else thenK (freeproc pp) (returnK (Inl (pid q)))))
       else kwait_scan addr rest True
     else kwait_scan addr rest havekids))"

definition kwait :: "u64 \<Rightarrow> ('z kern_scheme, outcome) K" where
  "kwait addr =
     bindK (getsK cur) (\<lambda>me.
     bindK (kwait_scan addr [0..<NPROC] False) (\<lambda>r.
     case r of
       Inl x \<Rightarrow> returnK (Done x)
     | Inr havekids \<Rightarrow>
         bindK (getsK p_killed) (\<lambda>k.
         if \<not> havekids \<or> k then returnK (Done (-1)) else returnK (Waits (proc_chan me) 0))))"

definition kkill :: "int \<Rightarrow> ('z kern_scheme, int) K" where
  "kkill n =
     bindK (getsK (\<lambda>s. find (\<lambda>i. pid (proc_at s i) = n) [0..<NPROC])) (\<lambda>r.
     case r of
       None \<Rightarrow> returnK (-1)
     | Some i \<Rightarrow>
         thenK (set_proc i (\<lambda>p. p\<lparr>pkilled := True\<rparr>))
        (bindK (get_proc i) (\<lambda>p.
         thenK (whenK (state p = SLEEPING) (set_proc i (\<lambda>p. p\<lparr>state := RUNNABLE\<rparr>)))
           (returnK 0))))"

definition setkilled :: "nat \<Rightarrow> ('z kern_scheme, unit) K" where
  "setkilled i = set_proc i (\<lambda>p. p\<lparr>pkilled := True\<rparr>)"

text \<open>\<^verbatim>\<open>yield\<close> up to \<^verbatim>\<open>sched\<close>.\<close>

definition yield_to :: "('z kern_scheme, unit) K" where
  "yield_to = bindK (getsK cur) (\<lambda>me. set_proc me (\<lambda>p. p\<lparr>state := RUNNABLE\<rparr>))"

subsection \<open>The process listing\<close>

definition state_name :: "procstate \<Rightarrow> byte list" where
  "state_name st =
     str (case st of UNUSED \<Rightarrow> ''unused'' | USED \<Rightarrow> ''used'' | SLEEPING \<Rightarrow> ''sleep '' | RUNNABLE \<Rightarrow> ''runble''
            | RUNNING \<Rightarrow> ''run   '' | ZOMBIE \<Rightarrow> ''zombie'')"

definition dump_format :: "byte list" where
  "dump_format = str ''%d %s %s''"

definition cstring :: "byte list \<Rightarrow> byte list" where
  "cstring bs = takeWhile (\<lambda>c. c \<noteq> 0) bs"

definition proc_listing :: "('z kern_scheme, unit) K" where
  "proc_listing =
     thenK (printf [10] [])
      (forK [0..<NPROC] (\<lambda>i.
         bindK (get_proc i) (\<lambda>p.
         whenK (state p \<noteq> UNUSED)
           (thenK (printf dump_format [Reg (of_int (pid p)), Ptr (Some (state_name (state p))), Ptr (Some (cstring (pname p)))])
             (thenK (printf [10] []) (returnK ()))))))"

end
