(* ===== verification/Exec.thy ===== *)
theory Exec
  imports Proc
begin

unbundle bit_operations_syntax

section \<open>System call arguments and exec (kernel/syscall.c, kernel/exec.c)\<close>

text \<open>
  Fetching the arguments of a system call from the trapframe and from user memory, and \<^verbatim>\<open>kexec\<close>.  A string
  argument is returned as the list of its bytes.  The argument vector of \<^verbatim>\<open>kexec\<close> is the list of the
  addresses of its strings in kernel memory; the \<^verbatim>\<open>goto bad\<close> exits are a left value with what they clean up.
\<close>

subsection \<open>Arguments of system calls\<close>

definition fetchaddr :: "u64 \<Rightarrow> ('z kern_scheme, int \<times> u64) K" where
  "fetchaddr addr =
     bindK (getsK p_sz) (\<lambda>sz.
     if addr \<ge> sz \<or> addr + 8 > sz then returnK (-1, 0)
     else
       bindK (getsK p_pagetable) (\<lambda>pt.
       bindK (copyin pt addr 8) (\<lambda>(r, bs).
       returnK (if r \<noteq> 0 then (-1, 0) else (0, le_word bs)))))"

definition fetchstr :: "u64 \<Rightarrow> nat \<Rightarrow> ('z kern_scheme, int \<times> byte list) K" where
  "fetchstr addr maxn =
     bindK (getsK p_pagetable) (\<lambda>pt.
     bindK (copyinstr pt addr maxn) (\<lambda>(r, buf).
     returnK (if r < 0 then (-1, buf) else (int (length (cstring buf)), buf))))"

definition my_trapframe :: "('z kern_scheme, addr) K" where
  "my_trapframe = getsK (\<lambda>s. trapframe (procs s ! cur s))"

definition argraw :: "nat \<Rightarrow> ('z kern_scheme, u64) K" where
  "argraw n =
     bindK my_trapframe (\<lambda>tf.
     if n \<le> 5 then tf_get tf (tf_a0 + of_nat (8 * n)) else panic ''argraw'')"

definition argint :: "nat \<Rightarrow> ('z kern_scheme, int) K" where
  "argint n = bindK (argraw n) (\<lambda>x. returnK (sint (ucast x :: u32)))"

definition argaddr :: "nat \<Rightarrow> ('z kern_scheme, u64) K" where
  "argaddr n = argraw n"

definition argstr :: "nat \<Rightarrow> nat \<Rightarrow> ('z kern_scheme, int \<times> byte list) K" where
  "argstr n maxn =
     bindK (argaddr n) (\<lambda>addr.
     bindK (fetchstr addr maxn) (\<lambda>(r, buf). returnK (r, cstring buf)))"

subsection \<open>ELF headers\<close>

abbreviation (input) ELF_MAGIC :: nat where "ELF_MAGIC \<equiv> 0x464C457F"
abbreviation (input) ELF_PROG_LOAD :: nat where "ELF_PROG_LOAD \<equiv> 1"

record elfhdr =
  e_magic :: nat
  e_entry :: u64
  e_phoff :: u64
  e_phnum :: nat

record proghdr =
  ph_type :: nat
  ph_flags :: u32
  ph_off :: u64
  ph_vaddr :: u64
  ph_filesz :: u64
  ph_memsz :: u64

definition decode_elfhdr :: "byte list \<Rightarrow> elfhdr" where
  "decode_elfhdr bs =
     \<lparr>e_magic = get_le 4 bs 0, e_entry = of_nat (get_le 8 bs 24), e_phoff = of_nat (get_le 8 bs 32), e_phnum = get_le 2 bs 56\<rparr>"

definition decode_proghdr :: "byte list \<Rightarrow> proghdr" where
  "decode_proghdr bs =
     \<lparr>ph_type = get_le 4 bs 0, ph_flags = of_nat (get_le 4 bs 4), ph_off = of_nat (get_le 8 bs 8), ph_vaddr = of_nat (get_le 8 bs 16),
      ph_filesz = of_nat (get_le 8 bs 32), ph_memsz = of_nat (get_le 8 bs 40)\<rparr>"

definition flags2perm :: "u32 \<Rightarrow> u64" where
  "flags2perm flags =
     (let perm = (if flags AND 1 \<noteq> 0 then PTE_X else 0) in
      if flags AND 2 \<noteq> 0 then perm OR PTE_W else perm)"

subsection \<open>Loading a program\<close>

text \<open>
  \<^verbatim>\<open>loadseg\<close> from loop variable \<open>i\<close>; the bytes that \<^verbatim>\<open>readi\<close> delivers go to the physical page.  \<^verbatim>\<open>i\<close> is
  a \<^verbatim>\<open>uint\<close>: a segment that ends in the last page below 4 GB would make the loop start over.
\<close>

function loadseg_from :: "addr \<Rightarrow> u64 \<Rightarrow> nat \<Rightarrow> nat \<Rightarrow> nat \<Rightarrow> nat \<Rightarrow> ('z kern_scheme, int) K" where
  "loadseg_from pt va ip offset sz i =
     (if i < sz then
        bindK (walkaddr pt (va + of_nat i)) (\<lambda>pa.
        if pa = 0 then panic ''loadseg: address should exist''
        else
          let n = (if sz - i < 4096 then sz - i else 4096) in
          bindK (readi ip False pa ((offset + i) mod 2 ^ 32) n) (\<lambda>(r, bs).
          thenK (modifyK (\<lambda>s. s\<lparr>ram := mem_put (ram s) pa bs\<rparr>))
           (if r \<noteq> int n then returnK (-1)
            else if i + 4096 \<ge> 2 ^ 32 then divergeK
            else loadseg_from pt va ip offset sz (i + 4096))))
      else returnK 0)"
  by pat_completeness auto
termination by (relation "measure (\<lambda>(pt, va, ip, offset, sz, i). sz - i)") auto

declare loadseg_from.simps [simp del]

definition loadseg :: "addr \<Rightarrow> u64 \<Rightarrow> nat \<Rightarrow> u64 \<Rightarrow> u64 \<Rightarrow> ('z kern_scheme, int) K" where
  "loadseg pt va ip offset sz = loadseg_from pt va ip (unat offset mod 2 ^ 32) (unat sz mod 2 ^ 32) 0"

text \<open>The loop over the program headers: \<open>Inr sz\<close> at its end, \<open>Inl sz\<close> on \<^verbatim>\<open>goto bad\<close>.\<close>

primrec load_segments :: "nat \<Rightarrow> u32 \<Rightarrow> nat \<Rightarrow> addr \<Rightarrow> u64 \<Rightarrow> ('z kern_scheme, u64 + u64) K" where
  "load_segments 0 off ip pt sz = returnK (Inr sz)"
| "load_segments (Suc k) off ip pt sz =
     bindK (readi ip False 0 (unat off) 56) (\<lambda>(r, bs).
     if r \<noteq> 56 then returnK (Inl sz)
     else
       let ph = decode_proghdr bs in
       if ph_type ph \<noteq> ELF_PROG_LOAD then load_segments k (off + 56) ip pt sz
       else if ph_memsz ph < ph_filesz ph then returnK (Inl sz)
       else if ph_vaddr ph + ph_memsz ph < ph_vaddr ph then returnK (Inl sz)
       else if ph_vaddr ph mod PGSIZE \<noteq> 0 then returnK (Inl sz)
       else
         bindK (uvmalloc pt sz (ph_vaddr ph + ph_memsz ph) (flags2perm (ph_flags ph))) (\<lambda>sz1.
         if sz1 = 0 then returnK (Inl sz)
         else
           bindK (loadseg pt (ph_vaddr ph) ip (ph_off ph) (ph_filesz ph)) (\<lambda>rc.
           if rc < 0 then returnK (Inl sz1) else load_segments k (off + 56) ip pt sz1)))"

text \<open>A string in kernel memory\<close>

definition kstring :: "addr \<Rightarrow> ('z kern_scheme, byte list) K" where
  "kstring a =
     bindK (getsK (\<lambda>s. strlen (ram s) a)) (\<lambda>n.
     case n of None \<Rightarrow> undefK | Some n \<Rightarrow> getsK (\<lambda>s. mem_bytes (ram s) a n))"

text \<open>Pushing the argument strings: the stack pointer and \<^verbatim>\<open>ustack\<close>, or None on \<^verbatim>\<open>goto bad\<close>.\<close>

definition align16 :: "u64 \<Rightarrow> u64" where
  "align16 sp = sp - sp mod 16"

primrec push_args :: "addr \<Rightarrow> u64 \<Rightarrow> addr list \<Rightarrow> u64 \<Rightarrow> u64 list \<Rightarrow> ('z kern_scheme, (u64 \<times> u64 list) option) K" where
  "push_args pt stackbase [] sp ustack = returnK (Some (sp, ustack))"
| "push_args pt stackbase (a # argv) sp ustack =
     (if length ustack \<ge> MAXARG then returnK None
      else
        bindK (kstring a) (\<lambda>arg.
        let sp' = align16 (sp - of_nat (length arg + 1)) in
        if sp' < stackbase then returnK None
        else
          bindK (copyout pt sp' (arg @ [0])) (\<lambda>r.
          if r < 0 then returnK None else push_args pt stackbase argv sp' (ustack @ [sp']))))"

text \<open>
  From the user stack to the commit: None on \<^verbatim>\<open>goto bad\<close>, with the size that is freed then, or the
  final stack pointer, the number of arguments and the size.
\<close>

definition build_stack :: "addr \<Rightarrow> addr list \<Rightarrow> u64 \<Rightarrow> ('z kern_scheme, u64 + u64 \<times> nat \<times> u64) K" where
  "build_stack pt argv sz0 =
     (let sz = PGROUNDUP sz0 in
      bindK (uvmalloc pt sz (sz + (of_nat USERSTACK + 1) * PGSIZE) PTE_W) (\<lambda>sz1.
      if sz1 = 0 then returnK (Inl sz)
      else
        thenK (uvmclear pt (sz1 - (of_nat USERSTACK + 1) * PGSIZE))
       (let stackbase = sz1 - of_nat USERSTACK * PGSIZE in
        bindK (push_args pt stackbase argv sz1 []) (\<lambda>res.
        case res of
          None \<Rightarrow> returnK (Inl sz1)
        | Some (sp, ustack) \<Rightarrow>
            if length ustack \<ge> MAXARG then undefK
            else
              let argc = length ustack; sp' = align16 (sp - of_nat ((argc + 1) * 8)) in
              if sp' < stackbase then returnK (Inl sz1)
              else
                bindK (copyout pt sp' (concat (map (le_bytes 8) (ustack @ [0])))) (\<lambda>r.
                if r < 0 then returnK (Inl sz1) else returnK (Inr (sp', argc, sz1)))))))"

definition last_elem :: "byte list \<Rightarrow> byte list" where
  "last_elem pth = rev (takeWhile (\<lambda>c. c \<noteq> slash) (rev pth))"

definition commit_image :: "addr \<Rightarrow> u64 \<Rightarrow> u64 \<Rightarrow> byte list \<Rightarrow> u64 \<Rightarrow> ('z kern_scheme, unit) K" where
  "commit_image pt sz sp pth entry =
     bindK (getsK cur) (\<lambda>me.
     bindK (get_proc me) (\<lambda>p.
     thenK (tf_set (trapframe p) tf_a1 sp)
    (thenK (set_proc me (\<lambda>p. p\<lparr>pname := copy_name (pname p) (last_elem pth)\<rparr>))
    (thenK (set_proc me (\<lambda>p. p\<lparr>pagetable := pt, psz := sz\<rparr>))
    (thenK (tf_set (trapframe p) tf_epc entry)
    (thenK (tf_set (trapframe p) tf_sp sp)
     (proc_freepagetable (pagetable p) (psz p))))))))"

definition kexec :: "byte list \<Rightarrow> addr list \<Rightarrow> ('z kern_scheme, int) K" where
  "kexec pth argv =
     thenK begin_op
    (bindK (namei pth) (\<lambda>r.
     case r of
       None \<Rightarrow> thenK end_op (returnK (-1))
     | Some ip \<Rightarrow>
         thenK (ilock ip)
        (bindK (readi ip False 0 0 64) (\<lambda>(rc, bs).
         let elf = decode_elfhdr bs; bad = thenK (iunlockput ip) (thenK end_op (returnK (-1))) in
         if rc \<noteq> 64 then bad
         else if e_magic elf \<noteq> ELF_MAGIC then bad
         else
           bindK my_trapframe (\<lambda>tf.
           bindK (proc_pagetable tf) (\<lambda>pt.
           if pt = 0 then bad
           else
             bindK (load_segments (e_phnum elf) (ucast (e_phoff elf)) ip pt 0) (\<lambda>loaded.
             case loaded of
               Inl sz \<Rightarrow> thenK (proc_freepagetable pt sz) bad
             | Inr sz \<Rightarrow>
                 thenK (iunlockput ip)
                (thenK end_op
                (bindK (build_stack pt argv sz) (\<lambda>built.
                 case built of
                   Inl sz' \<Rightarrow> thenK (proc_freepagetable pt sz') (returnK (-1))
                 | Inr (sp, argc, sz') \<Rightarrow>
                     thenK (commit_image pt sz' sp pth (e_entry elf)) (returnK (int argc))))))))))))"

end
