(* ===== verification/Sysfile.thy ===== *)
theory Sysfile
  imports Exec
begin

unbundle bit_operations_syntax

section \<open>File system calls (kernel/sysfile.c)\<close>

text \<open>
  Each system call is one run from its arguments in the trapframe to its return value, an \<^verbatim>\<open>int\<close>; reads and
  writes that wait yield the waiting value of \<open>io\<close>.  A call that returns -1 early is a branch of the definition.
\<close>

definition argfd :: "nat \<Rightarrow> ('z kern_scheme, (nat \<times> nat) option) K" where
  "argfd n =
     bindK (argint n) (\<lambda>fd.
     if fd < 0 \<or> fd \<ge> int NOFILE then returnK None
     else getsK (\<lambda>s. map_option (\<lambda>f. (nat fd, f)) (ofile (procs s ! cur s) ! nat fd)))"

definition set_fd :: "nat \<Rightarrow> nat option \<Rightarrow> ('z kern_scheme, unit) K" where
  "set_fd fd f = bindK (getsK cur) (\<lambda>me. set_proc me (\<lambda>p. p\<lparr>ofile := (ofile p)[fd := f]\<rparr>))"

definition fdalloc :: "nat \<Rightarrow> ('z kern_scheme, int) K" where
  "fdalloc f =
     bindK (getsK (\<lambda>s. find (\<lambda>fd. ofile (procs s ! cur s) ! fd = None) [0..<NOFILE])) (\<lambda>r.
     case r of
       None \<Rightarrow> returnK (-1)
     | Some fd \<Rightarrow> thenK (set_fd fd (Some f)) (returnK (int fd)))"

definition sys_dup :: "('z kern_scheme, int) K" where
  "sys_dup =
     bindK (argfd 0) (\<lambda>a.
     case a of
       None \<Rightarrow> returnK (-1)
     | Some (_, f) \<Rightarrow>
         bindK (fdalloc f) (\<lambda>fd.
         if fd < 0 then returnK (-1) else thenK (filedup f) (returnK fd)))"

definition sys_read :: "('z kern_scheme, io) K" where
  "sys_read =
     bindK (argaddr 1) (\<lambda>p.
     bindK (argint 2) (\<lambda>n.
     bindK (argfd 0) (\<lambda>a.
     case a of None \<Rightarrow> returnK (Ret (-1)) | Some (_, f) \<Rightarrow> fileread f p n)))"

definition sys_write :: "('z kern_scheme, io) K" where
  "sys_write =
     bindK (argaddr 1) (\<lambda>p.
     bindK (argint 2) (\<lambda>n.
     bindK (argfd 0) (\<lambda>a.
     case a of None \<Rightarrow> returnK (Ret (-1)) | Some (_, f) \<Rightarrow> filewrite f p n)))"

definition sys_close :: "('z kern_scheme, int) K" where
  "sys_close =
     bindK (argfd 0) (\<lambda>a.
     case a of
       None \<Rightarrow> returnK (-1)
     | Some (fd, f) \<Rightarrow> thenK (set_fd fd None) (thenK (fileclose f) (returnK 0)))"

text \<open>\<open>pad\<close>: the bytes the kernel stack holds between the fields of \<^verbatim>\<open>struct stat\<close>.\<close>

definition sys_fstat :: "byte list \<Rightarrow> ('z kern_scheme, int) K" where
  "sys_fstat pad =
     bindK (argaddr 1) (\<lambda>st.
     bindK (argfd 0) (\<lambda>a.
     case a of None \<Rightarrow> returnK (-1) | Some (_, f) \<Rightarrow> filestat pad f st))"

subsection \<open>Links\<close>

definition add_nlink :: "nat \<Rightarrow> int \<Rightarrow> ('z kern_scheme, unit) K" where
  "add_nlink ip d = thenK (set_inode ip (\<lambda>n. n\<lparr>i_nlink := short (i_nlink n + d)\<rparr>)) (iupdate ip)"

definition sys_link :: "('z kern_scheme, int) K" where
  "sys_link =
     bindK (argstr 0 MAXPATH) (\<lambda>(r0, old).
     if r0 < 0 then returnK (-1)
     else bindK (argstr 1 MAXPATH) (\<lambda>(r1, new).
       if r1 < 0 then returnK (-1)
       else
         thenK begin_op
        (bindK (namei old) (\<lambda>r.
         case r of
           None \<Rightarrow> thenK end_op (returnK (-1))
         | Some ip \<Rightarrow>
             thenK (ilock ip)
            (bindK (get_inode ip) (\<lambda>i.
             if i_type i = T_DIR then thenK (iunlockput ip) (thenK end_op (returnK (-1)))
             else
               thenK (add_nlink ip 1)
              (thenK (iunlock ip)
              (let bad = thenK (ilock ip) (thenK (add_nlink ip (-1)) (thenK (iunlockput ip) (thenK end_op (returnK (-1)))))
               in bindK (nameiparent new) (\<lambda>d.
                  case d of
                    None \<Rightarrow> bad
                  | Some (dp, nm) \<Rightarrow>
                      thenK (ilock dp)
                     (bindK (get_inode dp) (\<lambda>di.
                      bindK (get_inode ip) (\<lambda>i'.
                      bindK (if i_dev di \<noteq> i_dev i' then returnK (-1) else dirlink dp nm (i_inum i')) (\<lambda>rc.
                      if rc < 0 then thenK (iunlockput dp) bad
                      else thenK (iunlockput dp) (thenK (iput ip) (thenK end_op (returnK 0))))))))))))))))"

function isdirempty_from :: "nat \<Rightarrow> nat \<Rightarrow> nat \<Rightarrow> ('z kern_scheme, bool) K" where
  "isdirempty_from dp lim off =
     (if off < lim then
        bindK (readi dp False 0 off 16) (\<lambda>(r, de).
        if r \<noteq> 16 then panic ''isdirempty: readi''
        else if de_inum de \<noteq> 0 then returnK False
        else isdirempty_from dp lim (off + 16))
      else returnK True)"
  by pat_completeness auto
termination by (relation "measure (\<lambda>(dp, lim, off). lim - off)") auto

declare isdirempty_from.simps [simp del]

definition isdirempty :: "nat \<Rightarrow> ('z kern_scheme, bool) K" where
  "isdirempty dp = bindK (get_inode dp) (\<lambda>i. isdirempty_from dp (i_size i) 32)"

definition dot :: "byte list" where "dot = str ''.''"
definition dotdot :: "byte list" where "dotdot = str ''..''"

definition sys_unlink :: "('z kern_scheme, int) K" where
  "sys_unlink =
     bindK (argstr 0 MAXPATH) (\<lambda>(r0, pth).
     if r0 < 0 then returnK (-1)
     else
       thenK begin_op
      (bindK (nameiparent pth) (\<lambda>d.
       case d of
         None \<Rightarrow> thenK end_op (returnK (-1))
       | Some (dp, nm) \<Rightarrow>
           thenK (ilock dp)
          (let bad = thenK (iunlockput dp) (thenK end_op (returnK (-1))) in
           if namecmp nm dot = 0 \<or> namecmp nm dotdot = 0 then bad
           else
             bindK (dirlookup dp nm) (\<lambda>e.
             case e of
               None \<Rightarrow> bad
             | Some (ip, off) \<Rightarrow>
                 thenK (ilock ip)
                (bindK (get_inode ip) (\<lambda>i.
                 if i_nlink i < 1 then panic ''unlink: nlink < 1''
                 else
                   bindK (if i_type i = T_DIR then isdirempty ip else returnK True) (\<lambda>emp.
                   if \<not> emp then thenK (iunlockput ip) bad
                   else
                     bindK (writei dp False 0 (replicate 16 0) off 16) (\<lambda>w.
                     if w \<noteq> 16 then panic ''unlink: writei''
                     else
                       thenK (whenK (i_type i = T_DIR) (add_nlink dp (-1)))
                      (thenK (iunlockput dp)
                      (thenK (add_nlink ip (-1))
                      (thenK (iunlockput ip)
                      (thenK end_op (returnK 0))))))))))))))"

subsection \<open>Creating and opening files\<close>

definition create :: "byte list \<Rightarrow> int \<Rightarrow> int \<Rightarrow> int \<Rightarrow> ('z kern_scheme, nat option) K" where
  "create pth type major minor =
     bindK (nameiparent pth) (\<lambda>d.
     case d of
       None \<Rightarrow> returnK None
     | Some (dp, nm) \<Rightarrow>
         thenK (ilock dp)
        (bindK (dirlookup dp nm) (\<lambda>e.
         case e of
           Some (ip, _) \<Rightarrow>
             thenK (iunlockput dp)
            (thenK (ilock ip)
            (bindK (get_inode ip) (\<lambda>i.
             if type = T_FILE \<and> (i_type i = T_FILE \<or> i_type i = T_DEVICE) then returnK (Some ip)
             else thenK (iunlockput ip) (returnK None))))
         | None \<Rightarrow>
             bindK (get_inode dp) (\<lambda>di.
             bindK (ialloc (i_dev di) type) (\<lambda>r.
             case r of
               None \<Rightarrow> thenK (iunlockput dp) (returnK None)
             | Some ip \<Rightarrow>
                 thenK (ilock ip)
                (thenK (set_inode ip (\<lambda>n. n\<lparr>i_major := major, i_minor := minor, i_nlink := 1\<rparr>))
                (thenK (iupdate ip)
                (bindK (get_inode ip) (\<lambda>i.
                 let fail = thenK (set_inode ip (\<lambda>n. n\<lparr>i_nlink := 0\<rparr>))
                       (thenK (iupdate ip) (thenK (iunlockput ip) (thenK (iunlockput dp) (returnK None))))
                 in bindK
                      (if type = T_DIR then
                         bindK (dirlink ip dot (i_inum i)) (\<lambda>r1.
                         if r1 < 0 then returnK False
                         else bindK (dirlink ip dotdot (i_inum di)) (\<lambda>r2. returnK (\<not> r2 < 0)))
                       else returnK True) (\<lambda>ok.
                    if \<not> ok then fail
                    else
                      bindK (dirlink dp nm (i_inum i)) (\<lambda>r3.
                      if r3 < 0 then fail
                      else
                        thenK (whenK (type = T_DIR) (add_nlink dp 1))
                       (thenK (iunlockput dp) (returnK (Some ip))))))))))))))"

abbreviation (input) O_WRONLY :: u32 where "O_WRONLY \<equiv> 0x001"
abbreviation (input) O_RDWR :: u32 where "O_RDWR \<equiv> 0x002"
abbreviation (input) O_CREATE :: u32 where "O_CREATE \<equiv> 0x200"
abbreviation (input) O_TRUNC :: u32 where "O_TRUNC \<equiv> 0x400"

text \<open>What the descriptor of a freshly opened inode records.\<close>

definition open_entry :: "u32 \<Rightarrow> nat \<Rightarrow> inode \<Rightarrow> openfile \<Rightarrow> openfile" where
  "open_entry omode ip i f =
     (if i_type i = T_DEVICE then f\<lparr>f_type := FD_DEVICE, f_major := i_major i\<rparr> else f\<lparr>f_type := FD_INODE, f_off := 0\<rparr>)
       \<lparr>f_ip := ip, f_readable := (omode AND O_WRONLY = 0), f_writable := (omode AND O_WRONLY \<noteq> 0 \<or> omode AND O_RDWR \<noteq> 0)\<rparr>"

definition sys_open :: "('z kern_scheme, int) K" where
  "sys_open =
     bindK (argint 1) (\<lambda>om.
     bindK (argstr 0 MAXPATH) (\<lambda>(n, pth).
     let omode = (of_int om :: u32) in
     if n < 0 then returnK (-1)
     else
       thenK begin_op
      (bindK
        (if omode AND O_CREATE \<noteq> 0 then create pth T_FILE 0 0
         else
           bindK (namei pth) (\<lambda>r.
           case r of
             None \<Rightarrow> returnK None
           | Some ip \<Rightarrow>
               thenK (ilock ip)
              (bindK (get_inode ip) (\<lambda>i.
               if i_type i = T_DIR \<and> omode \<noteq> 0 then thenK (iunlockput ip) (returnK None)
               else returnK (Some ip))))) (\<lambda>opened.
       case opened of
         None \<Rightarrow> thenK end_op (returnK (-1))
       | Some ip \<Rightarrow>
           bindK (get_inode ip) (\<lambda>i.
           let bad = thenK (iunlockput ip) (thenK end_op (returnK (-1))) in
           if i_type i = T_DEVICE \<and> (i_major i < 0 \<or> i_major i \<ge> int NDEV) then bad
           else
             bindK filealloc (\<lambda>fr.
             case fr of
               None \<Rightarrow> bad
             | Some f \<Rightarrow>
                 bindK (fdalloc f) (\<lambda>fd.
                 if fd < 0 then thenK (fileclose f) bad
                 else
                   thenK (set_file f (open_entry omode ip i))
                  (thenK (whenK (omode AND O_TRUNC \<noteq> 0 \<and> i_type i = T_FILE) (itrunc ip))
                  (thenK (iunlock ip)
                  (thenK end_op (returnK fd)))))))))))"

definition sys_mkdir :: "('z kern_scheme, int) K" where
  "sys_mkdir =
     thenK begin_op
    (bindK (argstr 0 MAXPATH) (\<lambda>(n, pth).
     bindK (if n < 0 then returnK None else create pth T_DIR 0 0) (\<lambda>r.
     case r of
       None \<Rightarrow> thenK end_op (returnK (-1))
     | Some ip \<Rightarrow> thenK (iunlockput ip) (thenK end_op (returnK 0)))))"

definition sys_mknod :: "('z kern_scheme, int) K" where
  "sys_mknod =
     thenK begin_op
    (bindK (argint 1) (\<lambda>major.
     bindK (argint 2) (\<lambda>minor.
     bindK (argstr 0 MAXPATH) (\<lambda>(n, pth).
     bindK (if n < 0 then returnK None else create pth T_DEVICE (short major) (short minor)) (\<lambda>r.
     case r of
       None \<Rightarrow> thenK end_op (returnK (-1))
     | Some ip \<Rightarrow> thenK (iunlockput ip) (thenK end_op (returnK 0)))))))"

definition sys_chdir :: "('z kern_scheme, int) K" where
  "sys_chdir =
     thenK begin_op
    (bindK (argstr 0 MAXPATH) (\<lambda>(n, pth).
     bindK (if n < 0 then returnK None else namei pth) (\<lambda>r.
     case r of
       None \<Rightarrow> thenK end_op (returnK (-1))
     | Some ip \<Rightarrow>
         thenK (ilock ip)
        (bindK (get_inode ip) (\<lambda>i.
         if i_type i \<noteq> T_DIR then thenK (iunlockput ip) (thenK end_op (returnK (-1)))
         else
           thenK (iunlock ip)
          (bindK (getsK p_cwd) (\<lambda>old.
           thenK (iput old)
          (thenK end_op
          (bindK (getsK cur) (\<lambda>me.
           thenK (set_proc me (\<lambda>p. p\<lparr>cwd := Some ip\<rparr>)) (returnK 0)))))))))))"

subsection \<open>Exec and pipe\<close>

text \<open>
  The loop of \<^verbatim>\<open>sys_exec\<close> that copies the arguments into pages of their own: whether it ended with the null
  pointer, and the pages allocated so far.
\<close>

function fetch_argv :: "u64 \<Rightarrow> nat \<Rightarrow> addr list \<Rightarrow> ('z kern_scheme, bool \<times> addr list) K" where
  "fetch_argv uargv i argv =
     (if i \<ge> MAXARG then returnK (False, argv)
      else
        bindK (fetchaddr (uargv + of_nat (8 * i))) (\<lambda>(r, uarg).
        if r < 0 then returnK (False, argv)
        else if uarg = 0 then returnK (True, argv)
        else
          bindK kalloc (\<lambda>page.
          if page = 0 then returnK (False, argv)
          else
            bindK (fetchstr uarg 4096) (\<lambda>(n, bs).
            thenK (modifyK (\<lambda>s. s\<lparr>ram := mem_put (ram s) page bs\<rparr>))
             (if n < 0 then returnK (False, argv @ [page]) else fetch_argv uargv (i + 1) (argv @ [page]))))))"
  by pat_completeness auto
termination by (relation "measure (\<lambda>(uargv, i, argv). MAXARG - i)") auto

declare fetch_argv.simps [simp del]

definition sys_exec :: "('z kern_scheme, int) K" where
  "sys_exec =
     bindK (argaddr 1) (\<lambda>uargv.
     bindK (argstr 0 MAXPATH) (\<lambda>(n, pth).
     if n < 0 then returnK (-1)
     else
       bindK (fetch_argv uargv 0 []) (\<lambda>(ok, argv).
       bindK (if ok then kexec pth argv else returnK (-1)) (\<lambda>ret.
       thenK (forK argv kfree) (returnK ret)))))"

definition sys_pipe :: "('z kern_scheme, int) K" where
  "sys_pipe =
     bindK (argaddr 0) (\<lambda>fdarray.
     bindK pipealloc (\<lambda>r.
     case r of
       None \<Rightarrow> returnK (-1)
     | Some (rf1, wf1) \<Rightarrow>
         bindK (fdalloc rf1) (\<lambda>fd0.
         bindK (if fd0 < 0 then returnK (-1) else fdalloc wf1) (\<lambda>fd1.
         if fd0 < 0 \<or> fd1 < 0 then
           thenK (whenK (fd0 \<ge> 0) (set_fd (nat fd0) None))
          (thenK (fileclose rf1) (thenK (fileclose wf1) (returnK (-1))))
         else
           bindK (getsK p_pagetable) (\<lambda>pt.
           bindK (copyout pt fdarray (enc 4 (nat fd0))) (\<lambda>r0.
           bindK (if r0 < 0 then returnK (-1) else copyout pt (fdarray + 4) (enc 4 (nat fd1))) (\<lambda>r1.
           if r1 < 0 then
             thenK (set_fd (nat fd0) None)
            (thenK (set_fd (nat fd1) None)
            (thenK (fileclose rf1) (thenK (fileclose wf1) (returnK (-1)))))
           else returnK 0)))))))"

end
