(* ===== verification/Syscall.thy ===== *)
theory Syscall
  imports Sysfile
begin

section \<open>System calls (kernel/sysproc.c, kernel/syscall.c)\<close>

text \<open>
  The process-related system calls and the dispatch on the system call number.  A call ends with a value for
  \<^verbatim>\<open>a0\<close>, waits, or ends the process.
\<close>

subsection \<open>kernel/sysproc.c\<close>

definition sys_exit :: "('z kern_scheme, unit) K" where
  "sys_exit = bindK (argint 0) kexit"

definition sys_getpid :: "('z kern_scheme, int) K" where
  "sys_getpid = getsK p_pid"

definition sys_fork :: "('z kern_scheme, int) K" where
  "sys_fork = kfork"

definition sys_wait :: "('z kern_scheme, outcome) K" where
  "sys_wait = bindK (argaddr 0) kwait"

abbreviation (input) SBRK_EAGER :: int where "SBRK_EAGER \<equiv> 1"

definition sys_sbrk :: "('z kern_scheme, u64) K" where
  "sys_sbrk =
     bindK (argint 0) (\<lambda>n.
     bindK (argint 1) (\<lambda>t.
     bindK (getsK p_sz) (\<lambda>addr.
     if t = SBRK_EAGER \<or> n < 0 then
       bindK (growproc n) (\<lambda>r. returnK (if r < 0 then -1 else addr))
     else if addr + of_int n < addr then returnK (-1)
     else thenK (modifyK (\<lambda>s. s\<lparr>p_sz := p_sz s + of_int n\<rparr>)) (returnK addr))))"

definition ticks_chan :: chan where
  "ticks_chan = (''ticks'', 0)"

text \<open>The loop of \<^verbatim>\<open>sys_pause\<close>, entered again after each wakeup; the comparison is one of \<^verbatim>\<open>uint\<close>s.\<close>

definition pause_from :: "u32 \<Rightarrow> int \<Rightarrow> ('z kern_scheme, outcome) K" where
  "pause_from ticks0 n =
     bindK (getsK ticks) (\<lambda>t.
     if t - ticks0 < of_int n then
       bindK (getsK p_killed) (\<lambda>k.
       if k then returnK (Done (-1)) else returnK (Waits ticks_chan (unat ticks0)))
     else returnK (Done 0))"

definition sys_pause :: "('z kern_scheme, outcome) K" where
  "sys_pause =
     bindK (argint 0) (\<lambda>n.
     bindK (getsK ticks) (\<lambda>ticks0. pause_from ticks0 (if n < 0 then 0 else n)))"

definition sys_kill :: "('z kern_scheme, int) K" where
  "sys_kill = bindK (argint 0) kkill"

definition sys_uptime :: "('z kern_scheme, u32) K" where
  "sys_uptime = getsK ticks"

subsection \<open>Dispatch\<close>

datatype sysres = SysRet u64 | SysWaits io | SysExit

definition of_io :: "io \<Rightarrow> sysres" where
  "of_io r = (case r of Ret x \<Rightarrow> SysRet (of_int x) | _ \<Rightarrow> SysWaits r)"

definition ret_int :: "('z kern_scheme, int) K \<Rightarrow> ('z kern_scheme, sysres) K" where
  "ret_int f = bindK f (\<lambda>r. returnK (SysRet (of_int r)))"

definition ret_io :: "('z kern_scheme, io) K \<Rightarrow> ('z kern_scheme, sysres) K" where
  "ret_io f = bindK f (\<lambda>r. returnK (of_io r))"

definition ret_outcome :: "('z kern_scheme, outcome) K \<Rightarrow> ('z kern_scheme, sysres) K" where
  "ret_outcome f = bindK f (\<lambda>r. returnK (of_io (of_outcome r)))"

text \<open>The table \<^verbatim>\<open>syscalls[]\<close>, by the numbers of \<^verbatim>\<open>kernel/syscall.h\<close>.\<close>

definition syscalls :: "byte list \<Rightarrow> int \<Rightarrow> ('z kern_scheme, sysres) K option" where
  "syscalls pad num =
     (if num = 1 then Some (ret_int sys_fork)
      else if num = 2 then Some (thenK sys_exit (returnK SysExit))
      else if num = 3 then Some (ret_outcome sys_wait)
      else if num = 4 then Some (ret_int sys_pipe)
      else if num = 5 then Some (ret_io sys_read)
      else if num = 6 then Some (ret_int sys_kill)
      else if num = 7 then Some (ret_int sys_exec)
      else if num = 8 then Some (ret_int (sys_fstat pad))
      else if num = 9 then Some (ret_int sys_chdir)
      else if num = 10 then Some (ret_int sys_dup)
      else if num = 11 then Some (ret_int sys_getpid)
      else if num = 12 then Some (bindK sys_sbrk (\<lambda>r. returnK (SysRet r)))
      else if num = 13 then Some (ret_outcome sys_pause)
      else if num = 14 then Some (bindK sys_uptime (\<lambda>r. returnK (SysRet (ucast r))))
      else if num = 15 then Some (ret_int sys_open)
      else if num = 16 then Some (ret_io sys_write)
      else if num = 17 then Some (ret_int sys_mknod)
      else if num = 18 then Some (ret_int sys_unlink)
      else if num = 19 then Some (ret_int sys_link)
      else if num = 20 then Some (ret_int sys_mkdir)
      else if num = 21 then Some (ret_int sys_close)
      else None)"

definition unknown_format :: "byte list" where
  "unknown_format = str ''%d %s: unknown sys call %d'' @ [10]"

definition syscall :: "byte list \<Rightarrow> ('z kern_scheme, sysres) K" where
  "syscall pad =
     bindK my_trapframe (\<lambda>tf.
     bindK (tf_get tf tf_a7) (\<lambda>a7.
     let num = sint (ucast a7 :: u32) in
     case syscalls pad num of
       Some f \<Rightarrow>
         bindK f (\<lambda>r.
         case r of
           SysRet v \<Rightarrow> thenK (tf_set tf tf_a0 v) (returnK r)
         | _ \<Rightarrow> returnK r)
     | None \<Rightarrow>
         bindK (getsK cur) (\<lambda>me.
         bindK (get_proc me) (\<lambda>p.
         thenK (printf unknown_format [Reg (of_int (pid p)), Ptr (Some (cstring (pname p))), Reg (of_int num)])
        (thenK (tf_set tf tf_a0 (-1)) (returnK (SysRet (-1))))))))"

end
