(* ===== verification/Virtio.thy ===== *)
theory Virtio
  imports Proc
begin

unbundle bit_operations_syntax

section \<open>The disk driver (kernel/virtio_disk.c)\<close>

text \<open>
  The virtqueue between the driver and the disk: descriptors, the ring of available requests and the ring of used ones.
  An address that a descriptor holds is one of the objects it can point to.  \<^verbatim>\<open>virtio_disk_rw\<close> is cut
  at its waits into \<open>virtio_start\<close> and \<open>virtio_finish\<close>.  The device itself is the step \<open>device_serve\<close>, which takes the next
  available request and carries it out as the virtio specification says; a chain of another form has no defined effect.
\<close>

abbreviation (input) NUM :: nat where "NUM \<equiv> 8"
abbreviation (input) VRING_DESC_F_NEXT :: u16 where "VRING_DESC_F_NEXT \<equiv> 1"
abbreviation (input) VRING_DESC_F_WRITE :: u16 where "VRING_DESC_F_WRITE \<equiv> 2"
abbreviation (input) VIRTIO_BLK_T_IN :: nat where "VIRTIO_BLK_T_IN \<equiv> 0"
abbreviation (input) VIRTIO_BLK_T_OUT :: nat where "VIRTIO_BLK_T_OUT \<equiv> 1"

datatype dptr = Null | OpAddr nat | DataAddr nat | StatusAddr nat

record virtq_desc =
  d_addr :: dptr
  d_len :: nat
  d_flags :: u16
  d_next :: nat

record virtio_blk_req =
  r_type :: nat
  r_sector :: nat

record vinfo =
  v_b :: "nat option"
  v_status :: byte

record vdisk = kern +
  desc :: "virtq_desc list"
  avail_ring :: "nat list"
  avail_idx :: u16
  used_ring :: "nat list"
  used_ptr :: u16          \<comment> \<open>\<^verbatim>\<open>disk.used->idx\<close>\<close>
  vfree :: "bool list"
  used_idx :: u16          \<comment> \<open>\<^verbatim>\<open>disk.used_idx\<close>\<close>
  vinfos :: "vinfo list"
  vops :: "virtio_blk_req list"
  b_disk :: "nat \<Rightarrow> bool"    \<comment> \<open>\<^verbatim>\<open>b->disk\<close>\<close>
  vregs :: "nat \<Rightarrow> u32"      \<comment> \<open>the registers \<^verbatim>\<open>R(r)\<close>\<close>
  features_ok :: bool      \<comment> \<open>whether the device accepts the features\<close>
  dev_idx :: u16           \<comment> \<open>how far the device has read the available ring\<close>

subsection \<open>Descriptors\<close>

definition zero_desc :: virtq_desc where
  "zero_desc = \<lparr>d_addr = Null, d_len = 0, d_flags = 0, d_next = 0\<rparr>"

definition free_chan :: chan where
  "free_chan = (''disk.free'', 0)"

definition alloc_desc :: "('z vdisk_scheme, nat option) K" where
  "alloc_desc =
     bindK (getsK (\<lambda>s. find_index (\<lambda>b. b) (vfree s))) (\<lambda>r.
     case r of
       None \<Rightarrow> returnK None
     | Some i \<Rightarrow> thenK (modifyK (\<lambda>s. s\<lparr>vfree := (vfree s)[i := False]\<rparr>)) (returnK (Some i)))"

definition free_desc :: "nat \<Rightarrow> ('z vdisk_scheme, unit) K" where
  "free_desc i =
     (if i \<ge> NUM then panic ''free_desc 1''
      else
        bindK (getsK (\<lambda>s. vfree s ! i)) (\<lambda>free.
        if free then panic ''free_desc 2''
        else
          thenK (modifyK (\<lambda>s. s\<lparr>desc := (desc s)[i := zero_desc], vfree := (vfree s)[i := True]\<rparr>))
            (wakeup free_chan)))"

text \<open>
  A chain visits a descriptor at most once, since \<^verbatim>\<open>free_desc\<close> panics the second time: \<^verbatim>\<open>NUM\<close> + 1 rounds
  are enough.
\<close>

primrec free_chain_fuel :: "nat \<Rightarrow> nat \<Rightarrow> ('z vdisk_scheme, unit) K" where
  "free_chain_fuel 0 i = divergeK"
| "free_chain_fuel (Suc k) i =
     (if i \<ge> NUM then panic ''free_desc 1''
      else
        bindK (getsK (\<lambda>s. d_flags (desc s ! i))) (\<lambda>flag.
        bindK (getsK (\<lambda>s. d_next (desc s ! i))) (\<lambda>nxt.
        thenK (free_desc i)
         (if flag AND VRING_DESC_F_NEXT \<noteq> 0 then free_chain_fuel k nxt else returnK ()))))"

definition free_chain :: "nat \<Rightarrow> ('z vdisk_scheme, unit) K" where
  "free_chain i = free_chain_fuel (NUM + 1) i"

definition alloc3_desc :: "('z vdisk_scheme, (nat \<times> nat \<times> nat) option) K" where
  "alloc3_desc =
     bindK alloc_desc (\<lambda>r0.
     case r0 of
       None \<Rightarrow> returnK None
     | Some i0 \<Rightarrow>
         bindK alloc_desc (\<lambda>r1.
         case r1 of
           None \<Rightarrow> thenK (free_desc i0) (returnK None)
         | Some i1 \<Rightarrow>
             bindK alloc_desc (\<lambda>r2.
             case r2 of
               None \<Rightarrow> thenK (free_desc i0) (thenK (free_desc i1) (returnK None))
             | Some i2 \<Rightarrow> returnK (Some (i0, i1, i2)))))"

subsection \<open>Requests\<close>

definition set_desc :: "nat \<Rightarrow> virtq_desc \<Rightarrow> ('z vdisk_scheme, unit) K" where
  "set_desc i d = modifyK (\<lambda>s. s\<lparr>desc := (desc s)[i := d]\<rparr>)"

definition buf_chan :: "nat \<Rightarrow> chan" where
  "buf_chan b = (''buf'', b)"

text \<open>\<^verbatim>\<open>virtio_disk_rw\<close> up to the wait for the request: None when it has to wait for free descriptors.\<close>

definition virtio_start :: "nat \<Rightarrow> bool \<Rightarrow> ('z vdisk_scheme, nat option) K" where
  "virtio_start b write =
     bindK (get_buf b) (\<lambda>k.
     let sector = (blockno k * (BSIZE div 512)) mod 2 ^ 32 in
     bindK alloc3_desc (\<lambda>r.
     case r of
       None \<Rightarrow> returnK None
     | Some (i0, i1, i2) \<Rightarrow>
         thenK (modifyK (\<lambda>s. s\<lparr>vops := (vops s)[i0 := \<lparr>r_type = (if write then VIRTIO_BLK_T_OUT else VIRTIO_BLK_T_IN), r_sector = sector\<rparr>]\<rparr>))
        (thenK (set_desc i0 \<lparr>d_addr = OpAddr i0, d_len = 16, d_flags = VRING_DESC_F_NEXT, d_next = i1\<rparr>)
        (thenK (set_desc i1 \<lparr>d_addr = DataAddr b, d_len = BSIZE,
           d_flags = (if write then 0 else VRING_DESC_F_WRITE) OR VRING_DESC_F_NEXT, d_next = i2\<rparr>)
        (thenK (modifyK (\<lambda>s. s\<lparr>vinfos := (vinfos s)[i0 := (vinfos s ! i0)\<lparr>v_status := 0xff\<rparr>]\<rparr>))
        (thenK (set_desc i2 \<lparr>d_addr = StatusAddr i0, d_len = 1, d_flags = VRING_DESC_F_WRITE, d_next = 0\<rparr>)
        (thenK (modifyK (\<lambda>s. s\<lparr>b_disk := (b_disk s)(b := True), vinfos := (vinfos s)[i0 := (vinfos s ! i0)\<lparr>v_b := Some b\<rparr>]\<rparr>))
        (thenK (modifyK (\<lambda>s. s\<lparr>avail_ring := (avail_ring s)[unat (avail_idx s) mod NUM := i0]\<rparr>))
        (thenK (modifyK (\<lambda>s. s\<lparr>avail_idx := avail_idx s + 1\<rparr>))
        (thenK (modifyK (\<lambda>s. s\<lparr>vregs := (vregs s)(0x050 := 0)\<rparr>))
         (returnK (Some i0))))))))))))"

text \<open>
  The rest of \<^verbatim>\<open>virtio_disk_rw\<close>, when it has been woken up: None while the request has not finished.
\<close>

definition virtio_finish :: "nat \<Rightarrow> nat \<Rightarrow> ('z vdisk_scheme, unit option) K" where
  "virtio_finish b i0 =
     bindK (getsK (\<lambda>s. b_disk s b)) (\<lambda>busy.
     if busy then returnK None
     else
       thenK (modifyK (\<lambda>s. s\<lparr>vinfos := (vinfos s)[i0 := (vinfos s ! i0)\<lparr>v_b := None\<rparr>]\<rparr>))
      (thenK (free_chain i0) (returnK (Some ()))))"

text \<open>One pass of the interrupt handler's loop, and the loop: it ends when \<^verbatim>\<open>used_idx\<close> has caught up.\<close>

definition complete_one :: "('z vdisk_scheme, unit) K" where
  "complete_one =
     bindK (getsK (\<lambda>s. used_ring s ! (unat (used_idx s) mod NUM))) (\<lambda>id.
     if id \<ge> NUM then undefK
     else
       bindK (getsK (\<lambda>s. vinfos s ! id)) (\<lambda>inf.
       if v_status inf \<noteq> 0 then panic ''virtio_disk_intr status''
       else case v_b inf of
         None \<Rightarrow> undefK
       | Some b \<Rightarrow>
           thenK (modifyK (\<lambda>s. s\<lparr>b_disk := (b_disk s)(b := False)\<rparr>))
          (thenK (wakeup (buf_chan b))
           (modifyK (\<lambda>s. s\<lparr>used_idx := used_idx s + 1\<rparr>)))))"

primrec intr_loop :: "nat \<Rightarrow> ('z vdisk_scheme, unit) K" where
  "intr_loop 0 = returnK ()"
| "intr_loop (Suc k) = thenK complete_one (intr_loop k)"

definition virtio_disk_intr :: "('z vdisk_scheme, unit) K" where
  "virtio_disk_intr =
     thenK (modifyK (\<lambda>s. s\<lparr>vregs := (vregs s)(0x064 := vregs s 0x060 AND 3)\<rparr>))
      (bindK (getsK (\<lambda>s. unat (used_ptr s - used_idx s))) intr_loop)"

subsection \<open>The device\<close>

text \<open>The transfer that a chain describes.\<close>

definition transfer :: "virtio_blk_req \<Rightarrow> virtq_desc \<Rightarrow> ('z vdisk_scheme, unit) K" where
  "transfer req d =
     (case d_addr d of
        DataAddr b \<Rightarrow>
          if r_type req = VIRTIO_BLK_T_OUT \<and> d_flags d AND VRING_DESC_F_WRITE = 0 then
            bindK (get_buf b) (\<lambda>k.
            modifyK (\<lambda>s. s\<lparr>disk := (disk s)(r_sector req div 2 := data k), dwrites := dwrites s @ [(r_sector req div 2, data k)]\<rparr>))
          else if r_type req = VIRTIO_BLK_T_IN \<and> d_flags d AND VRING_DESC_F_WRITE \<noteq> 0 then
            bindK (getsK (\<lambda>s. disk s (r_sector req div 2))) (\<lambda>bs. set_buf b (\<lambda>k. k\<lparr>data := bs\<rparr>))
          else undefK
      | _ \<Rightarrow> undefK)"

definition device_serve :: "('z vdisk_scheme, unit) K" where
  "device_serve =
     bindK (getsK (\<lambda>s. avail_ring s ! (unat (dev_idx s) mod NUM))) (\<lambda>head.
     bindK (getsK (\<lambda>s. desc s ! head)) (\<lambda>d0.
     bindK (getsK (\<lambda>s. desc s ! d_next d0)) (\<lambda>d1.
     bindK (getsK (\<lambda>s. desc s ! d_next d1)) (\<lambda>d2.
     case (d_addr d0, d_addr d2) of
       (OpAddr j, StatusAddr i) \<Rightarrow>
         bindK (getsK (\<lambda>s. vops s ! j)) (\<lambda>req.
         thenK (transfer req d1)
        (thenK (modifyK (\<lambda>s. s\<lparr>vinfos := (vinfos s)[i := (vinfos s ! i)\<lparr>v_status := 0\<rparr>]\<rparr>))
         (modifyK (\<lambda>s. s\<lparr>used_ring := (used_ring s)[unat (used_ptr s) mod NUM := head], used_ptr := used_ptr s + 1,
            dev_idx := dev_idx s + 1\<rparr>))))
     | _ \<Rightarrow> undefK))))"

subsection \<open>Initialisation\<close>

definition put_reg :: "nat \<Rightarrow> u32 \<Rightarrow> ('z vdisk_scheme, unit) K" where
  "put_reg r v = modifyK (\<lambda>s. s\<lparr>vregs := (vregs s)(r := v)\<rparr>)"

definition set_addr :: "nat \<Rightarrow> addr \<Rightarrow> ('z vdisk_scheme, unit) K" where
  "set_addr r a = thenK (put_reg r (ucast a)) (put_reg (r + 4) (ucast (drop_bit 32 a)))"

text \<open>The status register reads back without \<^verbatim>\<open>FEATURES_OK\<close> when the device rejects the features.\<close>

definition virtio_disk_init :: "('z vdisk_scheme, unit) K" where
  "virtio_disk_init =
     bindK (getsK vregs) (\<lambda>R.
     if R 0x000 \<noteq> 0x74726976 \<or> R 0x004 \<noteq> 2 \<or> R 0x008 \<noteq> 2 \<or> R 0x00c \<noteq> 0x554d4551
     then panic ''could not find virtio disk''
     else
       thenK (put_reg 0x070 0) (thenK (put_reg 0x070 1) (thenK (put_reg 0x070 3)
      (thenK (put_reg 0x020 (R 0x010 AND NOT (push_bit 5 1 OR push_bit 7 1 OR push_bit 11 1 OR push_bit 12 1 OR
          push_bit 27 1 OR push_bit 29 1 OR push_bit 28 1)))
      (thenK (put_reg 0x070 11)
      (bindK (getsK features_ok) (\<lambda>ok.
       if \<not> ok then panic ''virtio disk FEATURES_OK unset''
       else
         thenK (put_reg 0x030 0)
          (if R 0x044 \<noteq> 0 then panic ''virtio disk should not be ready''
           else if R 0x034 = 0 then panic ''virtio disk has no queue 0''
           else if R 0x034 < 8 then panic ''virtio disk max queue too short''
           else
             bindK kalloc (\<lambda>a1. bindK kalloc (\<lambda>a2. bindK kalloc (\<lambda>a3.
             if a1 = 0 \<or> a2 = 0 \<or> a3 = 0 then panic ''virtio disk kalloc''
             else
               thenK (memsetK a1 0 4096) (thenK (memsetK a2 0 4096) (thenK (memsetK a3 0 4096)
              (thenK (modifyK (\<lambda>s. s\<lparr>desc := replicate NUM zero_desc, avail_ring := replicate NUM 0, avail_idx := 0,
                 used_ring := replicate NUM 0, used_ptr := 0\<rparr>))
              (thenK (put_reg 0x038 8)
              (thenK (set_addr 0x080 a1) (thenK (set_addr 0x090 a2) (thenK (set_addr 0x0a0 a3)
              (thenK (put_reg 0x044 1)
              (thenK (modifyK (\<lambda>s. s\<lparr>vfree := replicate NUM True\<rparr>))
               (put_reg 0x070 15)))))))))))))))))))))"

end
