(* ===== verification/Trap.thy ===== *)
theory Trap
  imports Syscall Virtio
begin

unbundle bit_operations_syntax

section \<open>Traps and interrupts (kernel/trap.c, kernel/plic.c, forkret of kernel/proc.c)\<close>

text \<open>
  The state adds the supervisor registers of the running hart and the registers of the interrupt controller.  A trap
  handler that gives up the CPU ends its run; what it does when it is scheduled again is a definition of its own
  (\<open>usertrap_return\<close>, \<open>kerneltrap_return\<close>).  Addresses of code are fields of the state.
\<close>

abbreviation (input) SSTATUS_SPP :: u64 where "SSTATUS_SPP \<equiv> 0x100"
abbreviation (input) SSTATUS_SPIE :: u64 where "SSTATUS_SPIE \<equiv> 0x20"
abbreviation (input) SSTATUS_SIE :: u64 where "SSTATUS_SIE \<equiv> 0x2"
abbreviation (input) UART0_IRQ :: nat where "UART0_IRQ \<equiv> 10"
abbreviation (input) VIRTIO0_IRQ :: nat where "VIRTIO0_IRQ \<equiv> 1"

record trapst = vdisk +
  sstatus :: u64
  scause :: u64
  sepc :: u64
  stval :: u64
  stvec :: u64
  satp :: u64
  hartid :: nat
  mtime :: u64
  stimecmp :: u64
  plic_regs :: "u64 \<Rightarrow> u32"
  kernelvec_addr :: u64
  usertrap_addr :: u64
  uservec_addr :: u64
  first_ret :: bool      \<comment> \<open>\<^verbatim>\<open>static int first\<close> of \<^verbatim>\<open>forkret\<close>\<close>

definition MAKE_SATP :: "addr \<Rightarrow> u64" where
  "MAKE_SATP pt = push_bit 60 8 OR drop_bit 12 pt"

definition intr_off_hart :: "('z trapst_scheme, unit) K" where
  "intr_off_hart = modifyK (\<lambda>s. s\<lparr>sstatus := sstatus s AND NOT SSTATUS_SIE\<rparr>)"

definition intr_on_hart :: "('z trapst_scheme, unit) K" where
  "intr_on_hart = modifyK (\<lambda>s. s\<lparr>sstatus := sstatus s OR SSTATUS_SIE\<rparr>)"

subsection \<open>The interrupt controller\<close>

definition PLIC_SENABLE :: "nat \<Rightarrow> u64" where "PLIC_SENABLE hart = PLIC + 0x2080 + of_nat hart * 0x100"
definition PLIC_SPRIORITY :: "nat \<Rightarrow> u64" where "PLIC_SPRIORITY hart = PLIC + 0x201000 + of_nat hart * 0x2000"
definition PLIC_SCLAIM :: "nat \<Rightarrow> u64" where "PLIC_SCLAIM hart = PLIC + 0x201004 + of_nat hart * 0x2000"

definition plic_put :: "u64 \<Rightarrow> u32 \<Rightarrow> ('z trapst_scheme, unit) K" where
  "plic_put a v = modifyK (\<lambda>s. s\<lparr>plic_regs := (plic_regs s)(a := v)\<rparr>)"

definition plicinit :: "('z trapst_scheme, unit) K" where
  "plicinit = thenK (plic_put (PLIC + of_nat UART0_IRQ * 4) 1) (plic_put (PLIC + of_nat VIRTIO0_IRQ * 4) 1)"

definition plicinithart :: "('z trapst_scheme, unit) K" where
  "plicinithart =
     bindK (getsK hartid) (\<lambda>hart.
     thenK (plic_put (PLIC_SENABLE hart) (push_bit UART0_IRQ 1 OR push_bit VIRTIO0_IRQ 1))
       (plic_put (PLIC_SPRIORITY hart) 0))"

definition plic_claim :: "('z trapst_scheme, nat) K" where
  "plic_claim = bindK (getsK hartid) (\<lambda>hart. getsK (\<lambda>s. unat (plic_regs s (PLIC_SCLAIM hart))))"

definition plic_complete :: "nat \<Rightarrow> ('z trapst_scheme, unit) K" where
  "plic_complete irq = bindK (getsK hartid) (\<lambda>hart. plic_put (PLIC_SCLAIM hart) (of_nat irq))"

subsection \<open>Interrupts\<close>

definition trapinithart :: "('z trapst_scheme, unit) K" where
  "trapinithart = modifyK (\<lambda>s. s\<lparr>stvec := kernelvec_addr s\<rparr>)"

definition clockintr :: "('z trapst_scheme, unit) K" where
  "clockintr =
     bindK (getsK hartid) (\<lambda>hart.
     thenK (whenK (hart = 0) (thenK (modifyK (\<lambda>s. s\<lparr>ticks := ticks s + 1\<rparr>)) (wake_all ticks_chan)))
       (modifyK (\<lambda>s. s\<lparr>stimecmp := mtime s + 1000000\<rparr>)))"

definition irq_format :: "byte list" where
  "irq_format = str ''unexpected interrupt irq=%d'' @ [10]"

definition devintr :: "('z trapst_scheme, int) K" where
  "devintr =
     bindK (getsK scause) (\<lambda>cause.
     if cause = 0x8000000000000009 then
       bindK plic_claim (\<lambda>irq.
       thenK
         (if irq = UART0_IRQ then uartintr
          else if irq = VIRTIO0_IRQ then virtio_disk_intr
          else whenK (irq \<noteq> 0) (thenK (printf irq_format [Reg (of_nat irq)]) (returnK ())))
      (thenK (whenK (irq \<noteq> 0) (plic_complete irq)) (returnK 1)))
     else if cause = 0x8000000000000005 then thenK clockintr (returnK 2)
     else returnK 0)"

subsection \<open>Traps from user space\<close>

definition prepare_return :: "('z trapst_scheme, unit) K" where
  "prepare_return =
     bindK (getsK cur) (\<lambda>me.
     bindK (get_proc me) (\<lambda>p.
     let tf = trapframe p in
     thenK intr_off_hart
    (thenK (modifyK (\<lambda>s. s\<lparr>stvec := TRAMPOLINE + (uservec_addr s - trampoline s)\<rparr>))
    (bindK (getsK satp) (\<lambda>ksatp.
     thenK (tf_set tf tf_kernel_satp ksatp)
    (thenK (tf_set tf tf_kernel_sp (kstack p + PGSIZE))
    (bindK (getsK usertrap_addr) (\<lambda>ut.
     thenK (tf_set tf tf_kernel_trap ut)
    (bindK (getsK hartid) (\<lambda>hart.
     thenK (tf_set tf tf_kernel_hartid (of_nat hart))
    (thenK (modifyK (\<lambda>s. s\<lparr>sstatus := (sstatus s AND NOT SSTATUS_SPP) OR SSTATUS_SPIE\<rparr>))
    (bindK (tf_get tf tf_epc) (\<lambda>epc.
     modifyK (\<lambda>s. s\<lparr>sepc := epc\<rparr>))))))))))))))"

datatype trapres = TrapReturn u64 | TrapYield | TrapWaits io | TrapExit

definition usertrap_return :: "('z trapst_scheme, trapres) K" where
  "usertrap_return =
     thenK prepare_return
    (bindK (getsK p_pagetable) (\<lambda>pt. returnK (TrapReturn (MAKE_SATP pt))))"

text \<open>The part of \<^verbatim>\<open>usertrap\<close> after the cause has been handled.\<close>

definition usertrap_end :: "int \<Rightarrow> ('z trapst_scheme, trapres) K" where
  "usertrap_end which_dev =
     bindK (getsK p_killed) (\<lambda>k.
     if k then thenK (kexit (-1)) (returnK TrapExit)
     else if which_dev = 2 then thenK yield_to (returnK TrapYield)
     else usertrap_return)"

definition cause_format :: "byte list" where
  "cause_format = str ''usertrap(): unexpected scause 0x%lx pid=%d'' @ [10]"

definition epc_format :: "byte list" where
  "epc_format = str ''            sepc=0x%lx stval=0x%lx'' @ [10]"

definition usertrap :: "byte list \<Rightarrow> ('z trapst_scheme, trapres) K" where
  "usertrap pad =
     bindK (getsK (\<lambda>s. sstatus s AND SSTATUS_SPP)) (\<lambda>spp.
     if spp \<noteq> 0 then panic ''usertrap: not from user mode''
     else
       thenK (modifyK (\<lambda>s. s\<lparr>stvec := kernelvec_addr s\<rparr>))
      (bindK (getsK cur) (\<lambda>me.
       bindK (get_proc me) (\<lambda>p.
       let tf = trapframe p in
       bindK (getsK sepc) (\<lambda>pc.
       thenK (tf_set tf tf_epc pc)
      (bindK (getsK scause) (\<lambda>cause.
       if cause = 8 then
         bindK (getsK p_killed) (\<lambda>k.
         if k then thenK (kexit (-1)) (returnK TrapExit)
         else
           bindK (tf_get tf tf_epc) (\<lambda>epc.
           thenK (tf_set tf tf_epc (epc + 4))
          (thenK intr_on_hart
          (bindK (syscall pad) (\<lambda>r.
           case r of
             SysRet _ \<Rightarrow> usertrap_end 0
           | SysWaits w \<Rightarrow> returnK (TrapWaits w)
           | SysExit \<Rightarrow> returnK TrapExit)))))
       else
         bindK devintr (\<lambda>which_dev.
         if which_dev \<noteq> 0 then usertrap_end which_dev
         else
           bindK (getsK stval) (\<lambda>va.
           bindK (if cause = 15 \<or> cause = 13 then vmfault (pagetable p) va else returnK 0) (\<lambda>mem.
           if mem \<noteq> 0 then usertrap_end 0
           else
             thenK (printf cause_format [Reg cause, Reg (of_int (pid p))])
            (thenK (printf epc_format [Reg pc, Reg va])
            (thenK (setkilled me) (usertrap_end 0)))))))))))))"

text \<open>The first return of a process to user space.  \<open>init_argv\<close>: where the kernel holds the string \<^verbatim>\<open>/init\<close>.\<close>

definition init_path :: "byte list" where
  "init_path = str ''/init''"

definition forkret :: "addr list \<Rightarrow> ('z trapst_scheme, trapres) K" where
  "forkret init_argv =
     bindK (getsK first_ret) (\<lambda>first.
     thenK
       (whenK first
         (thenK (fsinit ROOTDEV)
         (thenK (modifyK (\<lambda>s. s\<lparr>first_ret := False\<rparr>))
         (bindK (kexec init_path init_argv) (\<lambda>r.
          bindK my_trapframe (\<lambda>tf.
          thenK (tf_set tf tf_a0 (of_int r))
            (if r = -1 then panic ''exec'' else returnK ())))))))
       usertrap_return)"

subsection \<open>Traps from the kernel\<close>

definition scause_format :: "byte list" where
  "scause_format = str ''scause=0x%lx sepc=0x%lx stval=0x%lx'' @ [10]"

definition kerneltrap_return :: "u64 \<Rightarrow> u64 \<Rightarrow> ('z trapst_scheme, bool) K" where
  "kerneltrap_return pc status = thenK (modifyK (\<lambda>s. s\<lparr>sepc := pc, sstatus := status\<rparr>)) (returnK True)"

text \<open>
  \<open>in_proc\<close>: whether a process runs on this CPU.  The result is False when the handler yields; it then continues with
  \<open>kerneltrap_return\<close> and the saved registers.
\<close>

definition kerneltrap :: "bool \<Rightarrow> ('z trapst_scheme, bool) K" where
  "kerneltrap in_proc =
     bindK (getsK sepc) (\<lambda>pc.
     bindK (getsK sstatus) (\<lambda>status.
     bindK (getsK scause) (\<lambda>cause.
     if status AND SSTATUS_SPP = 0 then panic ''kerneltrap: not from supervisor mode''
     else if status AND SSTATUS_SIE \<noteq> 0 then panic ''kerneltrap: interrupts enabled''
     else
       bindK devintr (\<lambda>which_dev.
       if which_dev = 0 then
         bindK (getsK stval) (\<lambda>va.
         thenK (printf scause_format [Reg cause, Reg pc, Reg va]) (panic ''kerneltrap''))
       else if which_dev = 2 \<and> in_proc then thenK yield_to (returnK False)
       else kerneltrap_return pc status))))"

end
