(* ===== verification/Frame.thy ===== *)
theory Frame
  imports Trap
begin

section \<open>What the lower layers leave alone\<close>

text \<open>
  \<open>leaves g f\<close>: a run of \<open>f\<close> that returns does not change the part \<open>g\<close> of the state.  Every operation up to the file system leaves
  the part of the state that the layers above it add, \<open>fs.more\<close>: the table of open files, the process table and what follows.
\<close>

definition leaves :: "('s \<Rightarrow> 'b) \<Rightarrow> ('s, 'a) K \<Rightarrow> bool" where
  "leaves g f \<longleftrightarrow> (\<forall>s r s'. f s = Inr (r, s') \<longrightarrow> g s' = g s)"

named_theorems leaves_intros
named_theorems more_ops

lemma leavesD: "leaves g f \<Longrightarrow> f s = Inr (r, s') \<Longrightarrow> g s' = g s"
  by (simp add: leaves_def)

lemma leaves_fault [leaves_intros]: "leaves g (panic m)" "leaves g (sleepK m)" "leaves g divergeK" "leaves g undefK"
  by (simp_all add: leaves_def panic_def sleepK_def divergeK_def undefK_def)

lemma leaves_return [leaves_intros]: "leaves g (returnK x)" "leaves g (getsK h)"
  by (simp_all add: leaves_def returnK_def getsK_def)

lemma leaves_bind [leaves_intros]: "leaves g f \<Longrightarrow> (\<And>x. leaves g (h x)) \<Longrightarrow> leaves g (bindK f h)"
  unfolding leaves_def bindK_def by (auto split: sum.splits)

lemma leaves_then [leaves_intros]: "leaves g f \<Longrightarrow> leaves g h \<Longrightarrow> leaves g (thenK f h)"
  unfolding thenK_def by (intro leaves_bind)

lemma leaves_when [leaves_intros]: "leaves g f \<Longrightarrow> leaves g (whenK b f)"
  by (simp add: whenK_def leaves_return)

lemma leaves_if [leaves_intros]: "(b \<Longrightarrow> leaves g f) \<Longrightarrow> (\<not> b \<Longrightarrow> leaves g h) \<Longrightarrow> leaves g (if b then f else h)"
  by simp

lemma leaves_option [leaves_intros]: "(ov = None \<Longrightarrow> leaves g f) \<Longrightarrow> (\<And>x. ov = Some x \<Longrightarrow> leaves g (h x)) \<Longrightarrow> leaves g (case ov of None \<Rightarrow> f | Some x \<Rightarrow> h x)"
  by (cases ov) auto

lemma leaves_prod [leaves_intros]: "(\<And>x y. p = (x, y) \<Longrightarrow> leaves g (h x y)) \<Longrightarrow> leaves g (case p of (x, y) \<Rightarrow> h x y)"
  by (cases p) auto

lemma leaves_sum [leaves_intros]: "(\<And>x. ov = Inl x \<Longrightarrow> leaves g (f x)) \<Longrightarrow> (\<And>x. ov = Inr x \<Longrightarrow> leaves g (h x)) \<Longrightarrow> leaves g (case ov of Inl x \<Rightarrow> f x | Inr x \<Rightarrow> h x)"
  by (cases ov) auto

lemma leaves_let [leaves_intros]: "leaves g (f x) \<Longrightarrow> leaves g (let y = x in f y)"
  by simp

lemma leaves_forK [leaves_intros]: "(\<And>x. leaves g (f x)) \<Longrightarrow> leaves g (forK xs f)"
  by (induction xs) (auto intro: leaves_intros)

lemma leaves_modify: "(\<And>s. g (h s) = g s) \<Longrightarrow> leaves g (modifyK h)"
  by (auto simp: leaves_def modifyK_def)

lemma leaves_outcome [leaves_intros]: "(\<And>x. leaves g (f x)) \<Longrightarrow> (\<And>c i. leaves g (h c i)) \<Longrightarrow> leaves g (case ov of Done x \<Rightarrow> f x | Waits c i \<Rightarrow> h c i)"
  by (cases ov) auto

subsection \<open>Memory\<close>

lemma more_kalloc [more_ops]: "leaves fs.more kalloc" "leaves fs.more (kfree a)" "leaves fs.more (get_pte a)" "leaves fs.more (set_pte a v)"
    "leaves fs.more (memsetK a c n)" "leaves fs.more (wakeup ch)" "leaves fs.more killed"
  unfolding kalloc_def kfree_def get_pte_def set_pte_def memsetK_def wakeup_def killed_def
  by (intro leaves_intros more_ops leaves_modify; simp)+

lemma more_walk_from [more_ops]: "leaves fs.more (walk_from l pt va alloc)"
  by (induction l arbitrary: pt) (auto intro!: leaves_intros more_ops)

lemma more_walk [more_ops]: "leaves fs.more (walk pt va alloc)" "leaves fs.more (walkaddr pt va)"
  unfolding walk_def walkaddr_def by (intro leaves_intros more_ops)+

lemma more_mappages_loop [more_ops]: "leaves fs.more (mappages_loop pt a lst pa perm)"
  by (induction pt a lst pa perm rule: mappages_loop.induct) (subst mappages_loop.simps, intro leaves_intros more_ops; blast)

lemma more_mappages [more_ops]: "leaves fs.more (mappages pt va sz pa perm)"
  unfolding mappages_def by (intro leaves_intros more_ops)

lemma more_uvmunmap_loop [more_ops]: "leaves fs.more (uvmunmap_loop pt a e free)"
  by (induction pt a e free rule: uvmunmap_loop.induct) (subst uvmunmap_loop.simps, intro leaves_intros more_ops; blast)

lemma more_uvmunmap [more_ops]: "leaves fs.more (uvmunmap pt va n free)" "leaves fs.more (uvmdealloc pt old new)"
  unfolding uvmunmap_def uvmdealloc_def by (intro leaves_intros more_ops)+

lemma more_uvmalloc_loop [more_ops]: "leaves fs.more (uvmalloc_loop pt old a new xperm)"
  by (induction pt old a new xperm rule: uvmalloc_loop.induct) (subst uvmalloc_loop.simps, intro leaves_intros more_ops; blast)

lemma more_freewalk_fuel [more_ops]: "leaves fs.more (freewalk_fuel k pt)"
  by (induction k arbitrary: pt) (auto intro!: leaves_intros more_ops)

lemma more_uvm [more_ops]: "leaves fs.more (uvmalloc pt old new xperm)" "leaves fs.more (freewalk pt)" "leaves fs.more (uvmfree pt sz)"
    "leaves fs.more uvmcreate" "leaves fs.more (uvmclear pt va)" "leaves fs.more (ismapped pt va)"
  unfolding uvmalloc_def freewalk_def uvmfree_def uvmcreate_def uvmclear_def ismapped_def by (intro leaves_intros more_ops)+

lemma more_uvmcopy_loop [more_ops]: "leaves fs.more (uvmcopy_loop old new i sz)"
  by (induction old new i sz rule: uvmcopy_loop.induct) (subst uvmcopy_loop.simps, intro leaves_intros more_ops leaves_modify; simp)

lemma more_user [more_ops]: "leaves fs.more (uvmcopy old new sz)" "leaves fs.more (vmfault pt va)" "leaves fs.more (proc_pagetable tf)"
    "leaves fs.more (proc_freepagetable pt sz)"
  unfolding uvmcopy_def vmfault_def proc_pagetable_def proc_freepagetable_def by (intro leaves_intros more_ops leaves_modify)+

lemma more_copyout [more_ops]: "leaves fs.more (copyout pt va src)"
  by (induction pt va src rule: copyout.induct) (subst copyout.simps, intro leaves_intros more_ops leaves_modify; simp)

lemma more_copyin_loop [more_ops]: "leaves fs.more (copyin_loop pt va n dst)"
  by (induction pt va n dst rule: copyin_loop.induct) (subst copyin_loop.simps, intro leaves_intros more_ops leaves_modify; simp)

lemma more_copyinstr_loop [more_ops]: "leaves fs.more (copyinstr_loop pt va n dst)"
  by (induction pt va n dst rule: copyinstr_loop.induct) (subst copyinstr_loop.simps, intro leaves_intros more_ops leaves_modify; simp)

lemma more_copies [more_ops]: "leaves fs.more (copyin pt va n)" "leaves fs.more (copyinstr pt va n)"
    "leaves fs.more (either_copyout u dst src kbuf)" "leaves fs.more (either_copyin u sa kbuf off len)"
  unfolding copyin_def copyinstr_def either_copyout_def either_copyin_def by (intro leaves_intros more_ops)+

subsection \<open>Devices and pipes\<close>

lemma more_pipe [more_ops]: "leaves fs.more (set_pipe pi f)" "leaves fs.more (pipe_init pi)" "leaves fs.more (pipeclose pi w)"
  unfolding set_pipe_def pipe_init_def pipeclose_def set_pipe_def by (intro leaves_intros more_ops leaves_modify; simp)+

lemma more_uart [more_ops]: "leaves fs.more (write_thr ch)" "leaves fs.more (uartputc_sync c)" "leaves fs.more (consputc c)"
  unfolding consputc_def uartputc_sync_def write_thr_def by (intro leaves_intros more_ops leaves_modify; simp)+

lemma more_printf [more_ops]: "leaves fs.more (printf fmt args)"
  unfolding printf_def by (intro leaves_intros more_ops)

lemma more_pipewrite_from [more_ops]: "leaves fs.more (pipewrite_from pi a n i)"
  by (induction pi a n i rule: pipewrite_from.induct) (subst pipewrite_from.simps, intro leaves_intros more_ops; simp)

lemma more_piperead_copy [more_ops]: "leaves fs.more (piperead_copy pi a n i)"
  by (induction pi a n i rule: piperead_copy.induct) (subst piperead_copy.simps, intro leaves_intros more_ops; simp)

lemma more_uartwrite_from [more_ops]: "leaves fs.more (uartwrite_from bs i)"
  by (induction bs i rule: uartwrite_from.induct) (subst uartwrite_from.simps, intro leaves_intros more_ops leaves_modify; simp)

lemma more_consolewrite_from [more_ops]: "leaves fs.more (consolewrite_from u sa kb n i)"
  by (induction u sa kb n i rule: consolewrite_from.induct) (subst consolewrite_from.simps, intro leaves_intros more_ops; simp)

lemma more_consoleread_from [more_ops]: "leaves fs.more (consoleread_from u dst kb n t)"
  by (induction u dst kb n t rule: consoleread_from.induct) (subst consoleread_from.simps, intro leaves_intros more_ops leaves_modify; simp)

lemma more_rw [more_ops]: "leaves fs.more (pipewrite pi a m)" "leaves fs.more (piperead pi a m)" "leaves fs.more (consolewrite u a kb m)" "leaves fs.more (consoleread u a m)"
  unfolding pipewrite_def piperead_def consolewrite_def consoleread_def by (intro leaves_intros more_ops)+

subsection \<open>Blocks\<close>

lemma more_buf [more_ops]: "leaves fs.more (set_buf b f)" "leaves fs.more (get_buf b)" "leaves fs.more (virtio_disk_rw b w)"
    "leaves fs.more (lock_buf b)"
  unfolding set_buf_def get_buf_def virtio_disk_rw_def lock_buf_def set_buf_def get_buf_def
  by (intro leaves_intros more_ops leaves_modify; simp)+

lemma more_bio [more_ops]: "leaves fs.more (bget d bn)" "leaves fs.more (bread d bn)" "leaves fs.more (bwrite b)"
    "leaves fs.more (brelse b)" "leaves fs.more (bpin b)" "leaves fs.more (bunpin b)" "leaves fs.more (put_data b x)" "leaves fs.more (get_data b)"
  unfolding bread_def bget_def bwrite_def brelse_def bpin_def bunpin_def put_data_def get_data_def
  by (intro leaves_intros more_ops leaves_modify; simp)+

lemma more_log [more_ops]: "leaves fs.more read_head" "leaves fs.more write_head" "leaves fs.more (install_trans r)"
    "leaves fs.more write_log" "leaves fs.more (log_write b)" "leaves fs.more begin_op"
  unfolding read_head_def write_head_def install_trans_def write_log_def log_write_def begin_op_def set_lh_block_def
  by (intro leaves_intros more_ops leaves_modify; simp)+

lemma more_commit [more_ops]: "leaves fs.more commit" "leaves fs.more end_op" "leaves fs.more recover_from_log" "leaves fs.more (initlog d st)"
  unfolding end_op_def commit_def recover_from_log_def initlog_def
  by (intro leaves_intros more_ops leaves_modify; simp)+

subsection \<open>The file system\<close>

lemma more_inode [more_ops]: "leaves fs.more (get_inode i)" "leaves fs.more (set_inode i f)" "leaves fs.more (bzero d b)"
  unfolding get_inode_def set_inode_def bzero_def by (intro leaves_intros more_ops leaves_modify; simp)+

lemma more_balloc_from [more_ops]: "leaves fs.more (balloc_from d lim g)"
  by (induction d lim g rule: balloc_from.induct) (subst balloc_from.simps, intro leaves_intros more_ops; simp)

lemma more_blocks [more_ops]: "leaves fs.more (balloc d)" "leaves fs.more (bfree d b)" "leaves fs.more (iget d n)" "leaves fs.more (iupdate i)"
    "leaves fs.more (idup i)" "leaves fs.more (lock_inode i)" "leaves fs.more (unlock_inode i)"
  unfolding balloc_def bfree_def iget_def iupdate_def idup_def lock_inode_def unlock_inode_def by (intro leaves_intros more_ops leaves_modify; simp)+

lemma more_ialloc_from [more_ops]: "leaves fs.more (ialloc_from d t lim inum)"
  by (induction d t lim inum rule: ialloc_from.induct) (subst ialloc_from.simps, intro leaves_intros more_ops; simp)

lemma more_inodes [more_ops]: "leaves fs.more (ialloc d t)" "leaves fs.more (ilock i)" "leaves fs.more (iunlock i)" "leaves fs.more (bmap i bn)"
    "leaves fs.more (itrunc i)"
  unfolding ialloc_def ilock_def iunlock_def bmap_def itrunc_def by (intro leaves_intros more_ops leaves_modify; simp)+

lemma more_iput [more_ops]: "leaves fs.more (iput i)" "leaves fs.more (iunlockput i)"
  unfolding iunlockput_def iput_def by (intro leaves_intros more_ops)+

lemma more_readi_loop [more_ops]: "leaves fs.more (readi_loop ip u dst off n tot kbuf)"
  by (induction ip u dst off n tot kbuf rule: readi_loop.induct) (subst readi_loop.simps, intro leaves_intros more_ops; simp)

lemma more_writei_loop [more_ops]: "leaves fs.more (writei_loop ip u sa kbuf off n tot)"
  by (induction ip u sa kbuf off n tot rule: writei_loop.induct) (subst writei_loop.simps, intro leaves_intros more_ops; simp)

lemma more_file [more_ops]: "leaves fs.more (readi ip u dst off n)" "leaves fs.more (writei ip u sa kbuf off n)"
  unfolding readi_def writei_def by (intro leaves_intros more_ops)+

lemma more_dirlookup_from [more_ops]: "leaves fs.more (dirlookup_from dp nm lim off)"
  by (induction dp nm lim off rule: dirlookup_from.induct) (subst dirlookup_from.simps, intro leaves_intros more_ops; simp)

lemma more_empty_dirent [more_ops]: "leaves fs.more (empty_dirent dp lim off)"
  by (induction dp lim off rule: empty_dirent.induct) (subst empty_dirent.simps, intro leaves_intros more_ops; simp)

lemma more_dir [more_ops]: "leaves fs.more (dirlookup dp nm)" "leaves fs.more (dirlink dp nm inum)"
  unfolding dirlink_def dirlookup_def by (intro leaves_intros more_ops)+

lemma more_namex_loop [more_ops]: "leaves fs.more (namex_loop ip pth par nm)"
  by (induction ip pth par nm rule: namex_loop.induct) (subst namex_loop.simps, intro leaves_intros more_ops; simp)

lemma more_name [more_ops]: "leaves fs.more (namei pth)" "leaves fs.more (nameiparent pth)"
  unfolding namei_def nameiparent_def namex_def by (intro leaves_intros more_ops)+

end
