(* ===== verification/Descriptors.thy ===== *)
theory Descriptors
  imports Frame Fs_Blocks
begin

section \<open>File descriptors and reference counts\<close>

text \<open>
  The reference count of every open file equals the number of descriptors, over all processes, that refer to it.  The part of the
  state this speaks about is \<open>dview\<close>: the reference counts, the descriptor tables, for each process whether it is unused
  or a zombie, and the current process.
\<close>

type_synonym dview = "int list \<times> nat option list list \<times> bool list \<times> nat"

definition dead :: "procstate \<Rightarrow> bool" where
  "dead st \<longleftrightarrow> st = UNUSED \<or> st = ZOMBIE"

definition dview :: "'z kern_scheme \<Rightarrow> dview" where
  "dview s = (map f_ref (ftable s), map ofile (procs s), map (\<lambda>p. dead (state p)) (procs s), cur s)"

definition holds_at :: "nat option list list \<Rightarrow> nat \<Rightarrow> (nat \<times> nat) set" where
  "holds_at T f = {(i, fd). i < 64 \<and> fd < 16 \<and> T ! i ! fd = Some f}"

definition dinv :: "dview \<Rightarrow> bool" where
  "dinv v \<longleftrightarrow> (case v of (R, T, S, c) \<Rightarrow>
     length R = 100 \<and> length T = 64 \<and> length S = 64 \<and> c < 64 \<and> (\<forall>i < 64. length (T ! i) = 16) \<and>
     (\<forall>i < 64. \<forall>fd < 16. \<forall>f. T ! i ! fd = Some f \<longrightarrow> f < 100) \<and>
     (\<forall>i < 64. S ! i \<longrightarrow> (\<forall>fd < 16. T ! i ! fd = None)) \<and>
     (\<forall>f < 100. R ! f = int (card (holds_at T f))))"

lemma finite_holds_at [simp]: "finite (holds_at T f)"
proof -
  have "holds_at T f \<subseteq> {..<64} \<times> {..<16}" by (auto simp: holds_at_def)
  then show ?thesis by (rule finite_subset) simp
qed

lemma holds_at_upd:
  assumes "length T = 64" "i < 64" "length (T ! i) = 16" "fd < 16"
  shows "holds_at (T[i := (T ! i)[fd := x]]) f = (if x = Some f then insert (i, fd) (holds_at T f) else holds_at T f - {(i, fd)})"
  using assms by (auto simp: holds_at_def nth_list_update split: if_splits)

lemma card_holds_upd:
  assumes "length T = 64" "i < 64" "length (T ! i) = 16" "fd < 16"
  shows "int (card (holds_at (T[i := (T ! i)[fd := x]]) f)) =
    int (card (holds_at T f)) + (if x = Some f then 1 else 0) - (if T ! i ! fd = Some f then 1 else 0)"
proof -
  have m: "(i, fd) \<in> holds_at T f \<longleftrightarrow> T ! i ! fd = Some f" using assms by (simp add: holds_at_def)
  show ?thesis
    using card_Suc_Diff1 [of "holds_at T f" "(i, fd)"] m
    by (auto simp: holds_at_upd [OF assms] insert_absorb)
qed

text \<open>Giving a descriptor to a file and taking one away, with the reference count moving along.\<close>

lemma dinv_give:
  assumes "dinv (R, T, S, c)" "i < 64" "fd < 16" "f < 100" "T ! i ! fd = None" "\<not> S ! i"
  shows "dinv (R[f := R ! f + 1], T[i := (T ! i)[fd := Some f]], S, c)"
  using assms card_holds_upd [of T i fd "Some f"]
  by (auto simp: dinv_def nth_list_update split: if_splits)

lemma dinv_take:
  assumes "dinv (R, T, S, c)" "i < 64" "fd < 16" "T ! i ! fd = Some f"
  shows "dinv (R[f := R ! f - 1], T[i := (T ! i)[fd := None]], S, c)"
  using assms card_holds_upd [of T i fd None]
  by (auto simp: dinv_def nth_list_update split: if_splits)

subsection \<open>The effect of the operations on the view\<close>

lemma dview_more: "fs.more s' = fs.more s \<Longrightarrow> dview s' = dview s"
  by (cases s; cases s') (simp add: dview_def)

lemma leaves_dview: "leaves fs.more f \<Longrightarrow> leaves dview f"
  by (auto simp: leaves_def intro: dview_more)

lemmas dview_ops = more_ops [THEN leaves_dview]

lemma leaves_wp: "leaves g f \<Longrightarrow> (\<And>r s'. g s' = g s \<Longrightarrow> Q r s') \<Longrightarrow> wp f Q (\<lambda>_. True) s"
  by (auto simp: wp_def leaves_def split: sum.split)

lemma map_upd_same: "g y = g (xs ! i) \<Longrightarrow> map g (xs[i := y]) = map g xs"
  by (cases "i < length xs") (auto intro!: nth_equalityI simp: nth_list_update)

lemma map_upd_id [simp]: "(map g xs)[i := g (xs ! i)] = map g xs"
  by (cases "i < length xs") (auto intro!: nth_equalityI simp: nth_list_update)

lemma dview_set_file: "(\<And>x. f_ref (h x) = f_ref x) \<Longrightarrow> leaves dview (set_file f h)"
  unfolding set_file_def by (rule leaves_modify) (simp add: dview_def map_upd_same)

lemma proc_at_fields [simp]: "ofile (proc_at s i) = ofile (procs s ! i)" "state (proc_at s i) = state (procs s ! i)"
  "trapframe (proc_at s i) = trapframe (procs s ! i)" "parent (proc_at s i) = parent (procs s ! i)"
  by (simp_all add: proc_at_def Let_def)

lemma put_proc_fields [simp]: "ftable (put_proc i p s) = ftable s" "procs (put_proc i p s) = (procs s)[i := p]" "cur (put_proc i p s) = cur s"
  by (simp_all add: put_proc_def Let_def)

lemma dview_set_proc: "(\<And>p. ofile (h p) = ofile p) \<Longrightarrow> (\<And>p. state (h p) = state p) \<Longrightarrow> leaves dview (set_proc i h)"
  unfolding set_proc_def by (rule leaves_modify) (simp add: dview_def map_upd_same)

lemma dview_get [leaves_intros]: "leaves g (get_file f)" "leaves g (get_proc i)" "leaves g my_trapframe" "leaves g (tf_get tf off)"
  unfolding get_file_def get_proc_def my_trapframe_def tf_get_def by (intro leaves_intros)+

lemma dview_tf_set: "leaves dview (tf_set tf off v)"
  unfolding tf_set_def by (rule leaves_modify) (simp add: dview_def)

lemma dview_args: "leaves dview (argraw n)" "leaves dview (argint n)" "leaves dview (argaddr n)" "leaves dview (fetchstr a m)" "leaves dview (argstr n m)"
  unfolding argint_def argaddr_def argraw_def argstr_def fetchstr_def argaddr_def argraw_def
  by (intro leaves_intros dview_ops)+

lemma filealloc_dview:
  assumes "dview s = (R, T, S, c)"
  shows "wp filealloc (\<lambda>r s'. case r of None \<Rightarrow> dview s' = dview s
      | Some f \<Rightarrow> f < length R \<and> R ! f = 0 \<and> dview s' = (R[f := 1], T, S, c)) (\<lambda>_. True) s"
proof (cases "find_index (\<lambda>f. f_ref f = 0) (ftable s)")
  case None
  then show ?thesis by (simp add: filealloc_def del: find_index_None)
next
  case (Some f)
  then show ?thesis using assms find_index_SomeD [OF Some]
    by (auto simp: filealloc_def set_file_def dview_def map_update)
qed

lemma filedup_dview:
  assumes "dview s = (R, T, S, c)" "f < length R"
  shows "wp (filedup f) (\<lambda>r s'. r = f \<and> dview s' = (R[f := R ! f + 1], T, S, c)) (\<lambda>_. True) s"
  using assms by (auto simp: filedup_def get_file_def set_file_def dview_def map_update)

lemma fileclose_dview:
  assumes "dview s = (R, T, S, c)" "f < length R"
  shows "wp (fileclose f) (\<lambda>_ s'. dview s' = (R[f := R ! f - 1], T, S, c)) (\<lambda>_. True) s"
proof -
  let ?x = "ftable s ! f" and ?s1 = "s\<lparr>ftable := (ftable s)[f := (ftable s ! f)\<lparr>f_ref := 0, f_type := FD_NONE\<rparr>]\<rparr>"
  let ?tail = "if f_type ?x = FD_PIPE then pipeclose (f_pipe ?x) (f_writable ?x)
    else whenK (f_type ?x = FD_INODE \<or> f_type ?x = FD_DEVICE) (thenK begin_op (thenK (iput (f_ip ?x)) end_op))"
  have f: "f < length (ftable s)" using assms by (auto simp: dview_def)
  consider "f_ref ?x < 1" | "f_ref ?x > 1" | "f_ref ?x = 1" by linarith
  then show ?thesis
  proof cases
    case 3
    have "leaves dview ?tail" by (intro leaves_intros dview_ops)
    then have "wp ?tail (\<lambda>_ s'. dview s' = (R[f := R ! f - 1], T, S, c)) (\<lambda>_. True) ?s1"
      by (rule leaves_wp) (use assms 3 f in \<open>auto simp: dview_def map_update\<close>)
    moreover have "fileclose f s = ?tail ?s1" using 3 f by (simp add: fileclose_def get_file_def set_file_def run_simps)
    ultimately show ?thesis by (simp add: wp_def)
  qed (use assms f in \<open>auto simp: fileclose_def get_file_def set_file_def dview_def map_update\<close>)
qed

lemma set_fd_dview:
  assumes "dview s = (R, T, S, c)" "c < length T"
  shows "wp (set_fd fd x) (\<lambda>_ s'. dview s' = (R, T[c := (T ! c)[fd := x]], S, c)) E s"
  using assms map_upd_id [of "\<lambda>p. dead (state p)" "procs s" "cur s"]
  by (auto simp: set_fd_def set_proc_def dview_def map_update)

lemma fdalloc_dview:
  assumes "dview s = (R, T, S, c)" "c < length T"
  shows "wp (fdalloc f) (\<lambda>r s'. if r < 0 then r = -1 \<and> dview s' = dview s
     else nat r < 16 \<and> T ! c ! nat r = None \<and> dview s' = (R, T[c := (T ! c)[nat r := Some f]], S, c)) E s"
proof (cases "find (\<lambda>fd. ofile (procs s ! cur s) ! fd = None) [0..<16]")
  case None
  then show ?thesis by (simp add: fdalloc_def)
next
  case (Some fd)
  then have "fd < 16" "ofile (procs s ! cur s) ! fd = None" by (auto simp: find_Some_iff)
  then show ?thesis using assms Some wp_mono [OF set_fd_dview [OF assms, of fd "Some f" E]]
    by (auto simp: fdalloc_def dview_def)
qed

subsection \<open>Rules for running an operation and continuing\<close>

abbreviation (input) reach_ok :: "('z kern_scheme, 'a) K \<Rightarrow> 'z kern_scheme \<Rightarrow> bool" where
  "reach_ok f s \<equiv> wp f (\<lambda>_ s'. dinv (dview s')) (\<lambda>_. True) s"

lemma L_bind:
  assumes "leaves dview f" "dview s = V" "\<And>r s'. dview s' = V \<Longrightarrow> wp (k r) Q (\<lambda>_. True) s'"
  shows "wp (bindK f k) Q (\<lambda>_. True) s"
  unfolding wp_bind by (rule leaves_wp [OF assms(1)]) (use assms in simp)

lemma L_then:
  assumes "leaves dview f" "dview s = V" "\<And>s'. dview s' = V \<Longrightarrow> wp k Q (\<lambda>_. True) s'"
  shows "wp (thenK f k) Q (\<lambda>_. True) s"
  unfolding wp_then by (rule leaves_wp [OF assms(1)]) (use assms in simp)

lemma L_bindE: "dview s = V \<Longrightarrow> leaves dview f \<Longrightarrow> (\<And>r s'. dview s' = V \<Longrightarrow> wp (k r) Q (\<lambda>_. True) s') \<Longrightarrow> wp (bindK f k) Q (\<lambda>_. True) s"
  by (rule L_bind)

lemma L_thenE: "dview s = V \<Longrightarrow> leaves dview f \<Longrightarrow> (\<And>s'. dview s' = V \<Longrightarrow> wp k Q (\<lambda>_. True) s') \<Longrightarrow> wp (thenK f k) Q (\<lambda>_. True) s"
  by (rule L_then)

lemma argfd_bind:
  fixes s :: "'z kern_scheme"
  assumes "dview s = (R, T, S, c)" "c < length T" "\<And>s'. dview s' = (R, T, S, c) \<Longrightarrow> wp (k None) Q (\<lambda>_. True) s'"
    "\<And>fd f s'. dview s' = (R, T, S, c) \<Longrightarrow> fd < 16 \<Longrightarrow> T ! c ! fd = Some f \<Longrightarrow> wp (k (Some (fd, f))) Q (\<lambda>_. True) s'"
  shows "wp (bindK (argfd n) k) Q (\<lambda>_. True) s"
proof -
  have "wp (argint n) (\<lambda>r s'. dview s' = dview s) (\<lambda>_. True) s" by (rule leaves_wp [OF dview_args(2)])
  then have "wp (argfd n) (\<lambda>r s'. wp (k r) Q (\<lambda>_. True) s') (\<lambda>_. True) s" unfolding argfd_def wp_bind
  proof (rule wp_mono)
    fix fd and s' :: "'z kern_scheme" assume v: "dview s' = dview s"
    show "wp (if fd < 0 \<or> fd \<ge> int 16 then returnK None else getsK (\<lambda>s. map_option (\<lambda>f. (nat fd, f)) (ofile (procs s ! cur s) ! nat fd)))
        (\<lambda>r s'. wp (k r) Q (\<lambda>_. True) s') (\<lambda>_. True) s'"
    proof -
      have v': "dview s' = (R, T, S, c)" using v assms(1) by simp
      then have "ofile (procs s' ! cur s') = T ! c" using assms(2) by (auto simp: dview_def)
      then show ?thesis using assms(3) [OF v'] assms(4) [OF v', of "nat fd"] by (cases "T ! c ! nat fd") auto
    qed
  qed
  then show ?thesis unfolding wp_bind .
qed

lemma fdalloc_bind:
  fixes s :: "'z kern_scheme"
  assumes "dview s = (R, T, S, c)" "c < length T" "\<And>s'. dview s' = (R, T, S, c) \<Longrightarrow> wp (k (-1)) Q E s'"
    "\<And>fd s'. dview s' = (R, T[c := (T ! c)[fd := Some f]], S, c) \<Longrightarrow> fd < 16 \<Longrightarrow> T ! c ! fd = None \<Longrightarrow> wp (k (int fd)) Q E s'"
  shows "wp (bindK (fdalloc f) k) Q E s"
  unfolding wp_bind
proof (rule wp_mono [OF fdalloc_dview [OF assms(1,2)]])
  fix r and s' :: "'z kern_scheme" assume r: "if r < 0 then r = - 1 \<and> dview s' = dview s else nat r < 16 \<and> T ! c ! nat r = None \<and> dview s' = (R, T[c := (T ! c)[nat r := Some f]], S, c)"
  show "wp (k r) Q E s'"
    using r assms(1) assms(3) [of s'] assms(4) [of s' "nat r"] by (cases "r < 0") auto
qed

lemma filealloc_bind:
  fixes s :: "'z kern_scheme"
  assumes "dview s = (R, T, S, c)" "\<And>s'. dview s' = (R, T, S, c) \<Longrightarrow> wp (k None) Q (\<lambda>_. True) s'"
    "\<And>f s'. dview s' = (R[f := R ! f + 1], T, S, c) \<Longrightarrow> f < length R \<Longrightarrow> R ! f = 0 \<Longrightarrow> wp (k (Some f)) Q (\<lambda>_. True) s'"
  shows "wp (bindK filealloc k) Q (\<lambda>_. True) s"
  unfolding wp_bind
proof (rule wp_mono [OF filealloc_dview [OF assms(1)]])
  fix r and s' :: "'z kern_scheme" assume r: "case r of None \<Rightarrow> dview s' = dview s | Some f \<Rightarrow> f < length R \<and> R ! f = 0 \<and> dview s' = (R[f := 1], T, S, c)"
  show "wp (k r) Q (\<lambda>_. True) s'"
    using r assms(1) assms(2) [of s'] assms(3) [of s'] by (cases r) auto
qed

lemma fileclose_then:
  assumes "dview s = (R, T, S, c)" "f < length R" "\<And>s'. dview s' = (R[f := R ! f - 1], T, S, c) \<Longrightarrow> wp k Q (\<lambda>_. True) s'"
  shows "wp (thenK (fileclose f) k) Q (\<lambda>_. True) s"
  unfolding wp_then by (rule wp_mono [OF fileclose_dview [OF assms(1,2)]]) (rule assms(3))

lemma set_fd_then:
  assumes "dview s = (R, T, S, c)" "c < length T" "\<And>s'. dview s' = (R, T[c := (T ! c)[fd := x]], S, c) \<Longrightarrow> wp k Q E s'"
  shows "wp (thenK (set_fd fd x) k) Q E s"
  unfolding wp_then by (rule wp_mono [OF set_fd_dview [OF assms(1,2)]]) (rule assms(3))

subsection \<open>System calls keep the invariant\<close>

definition keeps_dinv :: "('z kern_scheme, 'a) K \<Rightarrow> bool" where
  "keeps_dinv f \<longleftrightarrow> (\<forall>s. dinv (dview s) \<longrightarrow> \<not> dead (state (procs s ! cur s)) \<longrightarrow> reach_ok f s)"

lemma dinvD:
  assumes "dinv (R, T, S, c)"
  shows "length R = 100" "length T = 64" "length S = 64" "c < 64" "\<And>i. i < 64 \<Longrightarrow> length (T ! i) = 16"
    "\<And>i fd f. i < 64 \<Longrightarrow> fd < 16 \<Longrightarrow> T ! i ! fd = Some f \<Longrightarrow> f < 100" "c < length T" "c < length S"
    "\<And>i fd f. i < 64 \<Longrightarrow> fd < 16 \<Longrightarrow> T ! i ! fd = Some f \<Longrightarrow> f < length R"
  using assms by (auto simp: dinv_def)

lemma keeps_dinvI:
  fixes f :: "('z kern_scheme, 'a) K"
  assumes "\<And>s R T S c. dview s = (R, T, S, c) \<Longrightarrow> dinv (R, T, S, c) \<Longrightarrow> \<not> S ! c \<Longrightarrow> reach_ok f s"
  shows "keeps_dinv f"
  unfolding keeps_dinv_def
proof (intro allI impI)
  fix s :: "'z kern_scheme"
  assume s: "dinv (dview s)" "\<not> dead (state (procs s ! cur s))"
  obtain R T S c where v: "dview s = (R, T, S, c)" by (cases "dview s")
  show "reach_ok f s" by (rule assms [OF v]) (use s v in \<open>auto simp: dview_def dinv_def\<close>)
qed

lemma sys_dup_keeps: "keeps_dinv sys_dup"
proof (rule keeps_dinvI)
  fix s :: "'z kern_scheme" and R T S c
  assume v: "dview s = (R, T, S, c)" and d: "dinv (R, T, S, c)" and run: "\<not> S ! c"
  note D = dinvD [OF d]
  show "reach_ok sys_dup s" unfolding sys_dup_def
  proof (rule argfd_bind [OF v D(7)]; simp only: option.case prod.case)
    fix fd0 f and s1 :: "'z kern_scheme" assume v1: "dview s1 = (R, T, S, c)" and f: "fd0 < 16" "T ! c ! fd0 = Some f"
    note f' = D(6) [OF D(4) f] D(9) [OF D(4) f]
    show "reach_ok (bindK (fdalloc f) (\<lambda>fd. if fd < 0 then returnK (-1) else thenK (filedup f) (returnK fd))) s1"
    proof (rule fdalloc_bind [OF v1 D(7)])
      fix fd and s2 :: "'z kern_scheme" assume v2: "dview s2 = (R, T[c := (T ! c)[fd := Some f]], S, c)" and fd: "fd < 16" "T ! c ! fd = None"
      show "reach_ok (if int fd < 0 then returnK (-1) else thenK (filedup f) (returnK (int fd))) s2"
        using wp_mono [OF filedup_dview [OF v2 f'(2)]] dinv_give [OF d D(4) fd(1) f'(1) fd(2)] run by simp
    qed (use d in simp)
  qed (use d in simp)
qed

lemma sys_close_keeps: "keeps_dinv sys_close"
proof (rule keeps_dinvI)
  fix s :: "'z kern_scheme" and R T S c
  assume v: "dview s = (R, T, S, c)" and d: "dinv (R, T, S, c)" and run: "\<not> S ! c"
  note D = dinvD [OF d]
  show "reach_ok sys_close s" unfolding sys_close_def
  proof (rule argfd_bind [OF v D(7)]; simp only: option.case prod.case)
    fix fd f and s1 :: "'z kern_scheme" assume v1: "dview s1 = (R, T, S, c)" and f: "fd < 16" "T ! c ! fd = Some f"
    show "reach_ok (thenK (set_fd fd None) (thenK (fileclose f) (returnK 0))) s1"
    proof (rule set_fd_then [OF v1 D(7)])
      fix s2 :: "'z kern_scheme" assume v2: "dview s2 = (R, T[c := (T ! c)[fd := None]], S, c)"
      show "reach_ok (thenK (fileclose f) (returnK 0)) s2"
        by (rule fileclose_then [OF v2 D(9) [OF D(4) f]]) (use dinv_take [OF d D(4) f] in simp)
    qed
  qed (use d in simp)
qed

subsubsection \<open>Opening\<close>

lemma more_create [more_ops]: "leaves fs.more (add_nlink ip d)" "leaves fs.more (create pth t ma mi)"
  unfolding create_def add_nlink_def by (intro leaves_intros more_ops)+

lemmas create_dview = more_create [THEN leaves_dview]

lemma open_entry_ref: "f_ref (open_entry om ip i x) = f_ref x"
  by (simp add: open_entry_def)

lemma give_then:
  fixes s :: "'z kern_scheme"
  assumes "dinv (R, T, S, c)" "\<not> S ! c" "f < length R" "fd < 16" "T ! c ! fd = None"
    and "dview s = (R[f := R ! f + 1], T[c := (T ! c)[fd := Some f]], S, c)" and g: "leaves dview g"
  shows "reach_ok g s"
  using leaves_wp [OF g] dinv_give [OF assms(1) dinvD(4) [OF assms(1)] assms(4) _ assms(5), of f] assms dinvD(1) [OF assms(1)] by simp

lemma undo_alloc: "f < length R \<Longrightarrow> (R[f := R ! f + 1])[f := R[f := R ! f + 1] ! f - 1] = (R :: int list)"
  by simp

lemma wp_ifI: "(b \<Longrightarrow> wp f Q E s) \<Longrightarrow> (\<not> b \<Longrightarrow> wp g Q E s) \<Longrightarrow> wp (if b then f else g) Q E s"
  by simp

lemma quiet_ok: "dview s = V \<Longrightarrow> dinv V \<Longrightarrow> leaves dview f \<Longrightarrow> reach_ok f s"
  by (rule leaves_wp) auto

lemma open_tail:
  fixes s1 :: "'z kern_scheme"
  assumes v: "dview s1 = (R, T, S, c)" and d: "dinv (R, T, S, c)" and run: "\<not> S ! c"
    and bad: "leaves dview bad" and tail: "\<And>fd. leaves dview (tail fd)" and h: "\<And>x. f_ref (h x) = f_ref x"
  shows "reach_ok (bindK filealloc (\<lambda>fr. case fr of None \<Rightarrow> bad
      | Some f \<Rightarrow> bindK (fdalloc f) (\<lambda>fd. if fd < 0 then thenK (fileclose f) bad else thenK (set_file f h) (tail fd)))) s1"
proof (rule filealloc_bind [OF v]; simp (no_asm) only: option.case)
  note D = dinvD [OF d]
  fix f and s2 :: "'z kern_scheme"
  assume v2: "dview s2 = (R[f := R ! f + 1], T, S, c)" and f: "f < length R" "R ! f = 0"
  show "reach_ok (bindK (fdalloc f) (\<lambda>fd. if fd < 0 then thenK (fileclose f) bad else thenK (set_file f h) (tail fd))) s2"
  proof (rule fdalloc_bind [OF v2 D(7)])
    fix s3 :: "'z kern_scheme" assume v3: "dview s3 = (R[f := R ! f + 1], T, S, c)"
    have "reach_ok (thenK (fileclose f) bad) s3"
      by (rule fileclose_then [OF v3]) (use f d bad undo_alloc [of f R] in \<open>auto intro: quiet_ok\<close>)
    then show "reach_ok (if (-1 :: int) < 0 then thenK (fileclose f) bad else thenK (set_file f h) (tail (-1))) s3" by simp
  next
    fix fd and s3 :: "'z kern_scheme"
    assume v3: "dview s3 = (R[f := R ! f + 1], T[c := (T ! c)[fd := Some f]], S, c)" and fd: "fd < 16" "T ! c ! fd = None"
    have "leaves dview (thenK (set_file f h) (tail (int fd)))" by (intro leaves_intros dview_set_file h tail)
    then show "reach_ok (if int fd < 0 then thenK (fileclose f) bad else thenK (set_file f h) (tail (int fd))) s3"
      using give_then [OF d run f(1) fd v3] by (simp del: wp_then)
  qed
qed (erule quiet_ok [OF _ d bad])

lemma sys_open_keeps: "keeps_dinv sys_open"
proof (rule keeps_dinvI)
  fix s :: "'z kern_scheme" and R T S c
  assume v: "dview s = (R, T, S, c)" and d: "dinv (R, T, S, c)" and run: "\<not> S ! c"
  note lv = leaves_intros dview_ops create_dview and q = quiet_ok [OF _ d]
  show "reach_ok sys_open s" unfolding sys_open_def Let_def
    apply (rule L_bind [OF dview_args(2) v])
    apply (erule L_bind [OF dview_args(5)])
    apply (simp only: split_beta, rule wp_ifI)
     apply (erule q, intro lv)
    apply (erule L_thenE, intro lv)
    apply (erule L_bindE, intro lv)
    apply (rename_tac opened s4, case_tac opened; simp only: option.case)
     apply (erule q, intro lv)
    apply (erule L_bindE, intro lv)
    apply (rule wp_ifI)
     apply (erule q, intro lv)
    apply (erule open_tail [OF _ d run], (intro lv open_entry_ref)+)
    done
qed

subsubsection \<open>Pipes\<close>

lemma undo_first: "f0 \<noteq> f1 \<Longrightarrow> f0 < length R \<Longrightarrow>
    R[f0 := R ! f0 + 1, f1 := R ! f1 + 1, f0 := R[f0 := R ! f0 + 1, f1 := R ! f1 + 1] ! f0 - 1] = (R[f1 := R ! f1 + 1] :: int list)"
  by (cases "f1 < length R") (auto intro!: nth_equalityI simp: nth_list_update)

lemma pipealloc_bind:
  fixes s :: "'z kern_scheme"
  assumes v: "dview s = (R, T, S, c)" and none: "\<And>s'. dview s' = (R, T, S, c) \<Longrightarrow> wp (k None) Q (\<lambda>_. True) s'"
    and some: "\<And>f0 f1 s'. f0 < length R \<Longrightarrow> f1 < length R \<Longrightarrow> f0 \<noteq> f1 \<Longrightarrow>
      dview s' = (R[f0 := R ! f0 + 1, f1 := R ! f1 + 1], T, S, c) \<Longrightarrow> wp (k (Some (f0, f1))) Q (\<lambda>_. True) s'"
  shows "wp (bindK pipealloc k) Q (\<lambda>_. True) s"
proof -
  let ?Q = "\<lambda>r. wp (k r) Q (\<lambda>_. True)"
  have "wp pipealloc ?Q (\<lambda>_. True) s" unfolding pipealloc_def
  proof (rule filealloc_bind [OF v]; simp (no_asm) only: option.case)
    fix f0 and s1 :: "'z kern_scheme"
    assume v1: "dview s1 = (R[f0 := R ! f0 + 1], T, S, c)" and f0: "f0 < length R" "R ! f0 = 0"
    let ?R1 = "R[f0 := R ! f0 + 1]"
    show "wp (bindK filealloc (\<lambda>r1. case r1 of None \<Rightarrow> thenK (fileclose f0) (returnK None)
         | Some f1 \<Rightarrow> bindK kalloc (\<lambda>pi. if pi = 0 then thenK (fileclose f0) (thenK (fileclose f1) (returnK None))
             else thenK (pipe_init pi) (thenK (set_file f0 (pipe_end False pi)) (thenK (set_file f1 (pipe_end True pi)) (returnK (Some (f0, f1)))))))) ?Q (\<lambda>_. True) s1"
    proof (rule filealloc_bind [OF v1]; simp (no_asm) only: option.case)
      fix s2 :: "'z kern_scheme" assume v2: "dview s2 = (?R1, T, S, c)"
      show "wp (thenK (fileclose f0) (returnK None)) ?Q (\<lambda>_. True) s2"
        by (rule fileclose_then [OF v2]) (use f0(1) none in auto)
    next
      fix f1 and s2 :: "'z kern_scheme"
      assume v2: "dview s2 = (?R1[f1 := ?R1 ! f1 + 1], T, S, c)" and f1: "f1 < length ?R1" "?R1 ! f1 = 0"
      have ne: "f0 \<noteq> f1" using f0 f1 by auto
      have v2': "dview s2 = (R[f0 := R ! f0 + 1, f1 := R ! f1 + 1], T, S, c)" using v2 ne by simp
      show "wp (bindK kalloc (\<lambda>pi. if pi = 0 then thenK (fileclose f0) (thenK (fileclose f1) (returnK None))
             else thenK (pipe_init pi) (thenK (set_file f0 (pipe_end False pi)) (thenK (set_file f1 (pipe_end True pi)) (returnK (Some (f0, f1))))))) ?Q (\<lambda>_. True) s2"
      proof (rule L_bindE [OF v2' dview_ops(1)], rule wp_ifI)
        fix pi and s3 :: "'z kern_scheme" assume v3: "dview s3 = (R[f0 := R ! f0 + 1, f1 := R ! f1 + 1], T, S, c)"
        show "wp (thenK (fileclose f0) (thenK (fileclose f1) (returnK None))) ?Q (\<lambda>_. True) s3"
        proof (rule fileclose_then [OF v3])
          fix s4 :: "'z kern_scheme"
          assume "dview s4 = (R[f0 := R ! f0 + 1, f1 := R ! f1 + 1, f0 := R[f0 := R ! f0 + 1, f1 := R ! f1 + 1] ! f0 - 1], T, S, c)"
          then have v4: "dview s4 = (R[f1 := R ! f1 + 1], T, S, c)" using undo_first [OF ne f0(1)] by simp
          show "wp (thenK (fileclose f1) (returnK None)) ?Q (\<lambda>_. True) s4"
            by (rule fileclose_then [OF v4]) (use f1(1) none in auto)
        qed (use f0 in simp)
        show "wp (thenK (pipe_init pi) (thenK (set_file f0 (pipe_end False pi)) (thenK (set_file f1 (pipe_end True pi)) (returnK (Some (f0, f1)))))) ?Q (\<lambda>_. True) s3"
          apply (rule L_thenE [OF v3], intro leaves_intros dview_ops)
          apply (erule L_thenE, rule dview_set_file, simp add: pipe_end_def)
          apply (erule L_thenE, rule dview_set_file, simp add: pipe_end_def)
          using some [OF f0(1) _ ne] f1(1) by simp
      qed
    qed
  qed (use none in auto)
  then show ?thesis unfolding wp_bind .
qed

lemma close_both:
  fixes s :: "'z kern_scheme"
  assumes "dview s = (R[f0 := R ! f0 + 1, f1 := R ! f1 + 1], T, S, c)" "dinv (R, T, S, c)" "f0 < length R" "f1 < length R" "f0 \<noteq> f1"
  shows "reach_ok (thenK (fileclose f0) (thenK (fileclose f1) (returnK x))) s"
proof (rule fileclose_then [OF assms(1)])
  fix s1 :: "'z kern_scheme"
  assume "dview s1 = (R[f0 := R ! f0 + 1, f1 := R ! f1 + 1, f0 := R[f0 := R ! f0 + 1, f1 := R ! f1 + 1] ! f0 - 1], T, S, c)"
  then have v: "dview s1 = (R[f1 := R ! f1 + 1], T, S, c)" using undo_first [OF assms(5,3)] by simp
  show "reach_ok (thenK (fileclose f1) (returnK x)) s1"
    by (rule fileclose_then [OF v]) (use assms(2,4) in auto)
qed (use assms in simp)

lemma undo_fd: "c < length T \<Longrightarrow> T ! c ! fd = None \<Longrightarrow> (T[c := (T ! c)[fd := x]])[c := (T[c := (T ! c)[fd := x]] ! c)[fd := None]] = T"
  by (simp) (metis list_update_id)

lemma sys_pipe_fds:
  fixes s :: "'z kern_scheme"
  assumes v: "dview s = (R[f0 := R ! f0 + 1, f1 := R ! f1 + 1], T, S, c)" and d: "dinv (R, T, S, c)" and run: "\<not> S ! c"
    and f: "f0 < length R" "f1 < length R" "f0 \<noteq> f1" and fin: "\<And>a b. leaves dview (copies a b)"
  shows "reach_ok (bindK (fdalloc f0) (\<lambda>fd0. bindK (if fd0 < 0 then returnK (-1) else fdalloc f1) (\<lambda>fd1.
     if fd0 < 0 \<or> fd1 < 0 then thenK (whenK (fd0 \<ge> 0) (set_fd (nat fd0) None)) (thenK (fileclose f0) (thenK (fileclose f1) (returnK (-1))))
     else bindK (copies fd0 fd1) (\<lambda>r1 :: int. if r1 < 0
       then thenK (set_fd (nat fd0) None) (thenK (set_fd (nat fd1) None) (thenK (fileclose f0) (thenK (fileclose f1) (returnK (-1)))))
       else returnK 0)))) s" (is "reach_ok (bindK _ ?k) s")
proof (rule fdalloc_bind [OF v])
  note D = dinvD [OF d]
  let ?R = "R[f0 := R ! f0 + 1, f1 := R ! f1 + 1]"
  show "c < length T" by (rule D(7))
  fix s1 :: "'z kern_scheme" assume v1: "dview s1 = (?R, T, S, c)"
  show "reach_ok (?k (-1)) s1" using close_both [OF v1 d f, of "-1"] by simp
next
  note D = dinvD [OF d]
  let ?R = "R[f0 := R ! f0 + 1, f1 := R ! f1 + 1]"
  fix fd0 and s1 :: "'z kern_scheme"
  let ?T = "T[c := (T ! c)[fd0 := Some f0]]"
  assume v1: "dview s1 = (?R, ?T, S, c)" and fd0: "fd0 < 16" "T ! c ! fd0 = None"
  have c: "c < length ?T" using D(7) by simp
  have d1: "dinv (R[f0 := R ! f0 + 1], ?T, S, c)" using dinv_give [OF d D(4) fd0(1) _ fd0(2), of f0] run f D(1) by simp
  show "reach_ok (?k (int fd0)) s1" unfolding if_not_P [of "int fd0 < 0", simplified]
  proof (simp only: of_nat_less_0_iff if_False, rule fdalloc_bind [OF v1 c])
    fix s2 :: "'z kern_scheme" assume v2: "dview s2 = (?R, ?T, S, c)"
    have "reach_ok (thenK (set_fd fd0 None) (thenK (fileclose f0) (thenK (fileclose f1) (returnK (-1))))) s2"
      by (rule set_fd_then [OF v2 c]) (use undo_fd [OF D(7) fd0(2)] close_both [OF _ d f] in simp)
    then show "reach_ok (if False \<or> (-1 :: int) < 0 then thenK (whenK (int fd0 \<ge> 0) (set_fd (nat (int fd0)) None)) (thenK (fileclose f0) (thenK (fileclose f1) (returnK (-1))))
     else bindK (copies (int fd0) (-1)) (\<lambda>r1 :: int. if r1 < 0
       then thenK (set_fd (nat (int fd0)) None) (thenK (set_fd (nat (-1)) None) (thenK (fileclose f0) (thenK (fileclose f1) (returnK (-1)))))
       else returnK 0)) s2" by (simp add: whenK_def)
  next
    fix fd1 and s2 :: "'z kern_scheme"
    let ?T2 = "?T[c := (?T ! c)[fd1 := Some f1]]"
    assume v2: "dview s2 = (?R, ?T2, S, c)" and fd1: "fd1 < 16" "?T ! c ! fd1 = None"
    have c2: "c < length ?T2" using D(7) by simp
    have "R[f0 := R ! f0 + 1] ! f1 = R ! f1" using f by simp
    then have d2: "dinv (?R, ?T2, S, c)" using dinv_give [OF d1 D(4) fd1(1) _ fd1(2), of f1] run f D(1) by simp
    have ne: "fd0 \<noteq> fd1" using fd1 fd0 D(4,5,7) by auto
    have bad: "reach_ok (thenK (set_fd fd0 None) (thenK (set_fd fd1 None) (thenK (fileclose f0) (thenK (fileclose f1) (returnK (-1)))))) s3"
      if v3: "dview s3 = (?R, ?T2, S, c)" for s3 :: "'z kern_scheme"
    proof (rule set_fd_then [OF v3 c2])
      fix s4 :: "'z kern_scheme" assume v4: "dview s4 = (?R, ?T2[c := (?T2 ! c)[fd0 := None]], S, c)"
      show "reach_ok (thenK (set_fd fd1 None) (thenK (fileclose f0) (thenK (fileclose f1) (returnK (-1))))) s4"
      proof (rule set_fd_then [OF v4])
        fix s5 :: "'z kern_scheme"
        assume "dview s5 = (?R, ?T2[c := (?T2 ! c)[fd0 := None], c := (?T2[c := (?T2 ! c)[fd0 := None]] ! c)[fd1 := None]], S, c)"
        then have "dview s5 = (?R, T, S, c)"
          using ne D(7) fd0(2) fd1(2) list_update_id [of "T ! c" fd0] list_update_id [of "T ! c" fd1] list_update_id [of T c]
          by (simp add: list_update_swap [of fd0 fd1])
        then show "reach_ok (thenK (fileclose f0) (thenK (fileclose f1) (returnK (-1)))) s5" by (rule close_both [OF _ d f])
      qed (use D in simp)
    qed
    have "reach_ok (bindK (copies (int fd0) (int fd1)) (\<lambda>r1 :: int. if r1 < 0
       then thenK (set_fd fd0 None) (thenK (set_fd fd1 None) (thenK (fileclose f0) (thenK (fileclose f1) (returnK (-1)))))
       else returnK 0)) s2"
      by (rule L_bindE [OF v2 fin], rule wp_ifI) (use bad d2 in auto)
    then show "reach_ok (if False \<or> int fd1 < 0 then thenK (whenK (int fd0 \<ge> 0) (set_fd (nat (int fd0)) None)) (thenK (fileclose f0) (thenK (fileclose f1) (returnK (-1))))
     else bindK (copies (int fd0) (int fd1)) (\<lambda>r1 :: int. if r1 < 0
       then thenK (set_fd (nat (int fd0)) None) (thenK (set_fd (nat (int fd1)) None) (thenK (fileclose f0) (thenK (fileclose f1) (returnK (-1)))))
       else returnK 0)) s2" by (simp only: of_nat_less_0_iff simp_thms if_False nat_int)
  qed
qed

lemma sys_pipe_keeps: "keeps_dinv sys_pipe"
proof (rule keeps_dinvI)
  fix s :: "'z kern_scheme" and R T S c
  assume v: "dview s = (R, T, S, c)" and d: "dinv (R, T, S, c)" and run: "\<not> S ! c"
  show "reach_ok sys_pipe s" unfolding sys_pipe_def
    apply (rule L_bind [OF dview_args(3) v])
    apply (erule pipealloc_bind; simp (no_asm) only: option.case prod.case)
     apply (use d in simp)
    subgoal for fdarray s1 f0 f1 s2
      using sys_pipe_fds [of s2 R f0 f1 T S c "\<lambda>fd0 fd1. bindK (getsK p_pagetable) (\<lambda>pt.
           bindK (copyout pt fdarray (enc 4 (nat fd0))) (\<lambda>r0.
           if r0 < 0 then returnK (-1) else copyout pt (fdarray + 4) (enc 4 (nat fd1))))"] d run
      by (simp only: bindK_assoc) (intro impI leaves_intros dview_ops | blast intro: leaves_intros dview_ops)+
    done
qed

subsubsection \<open>Calls that leave the descriptors alone\<close>

lemma dview_modify_low: "leaves dview (modifyK (\<lambda>s. s\<lparr>ram := f s\<rparr>))" "leaves dview (modifyK (\<lambda>s. s\<lparr>p_sz := g s\<rparr>))"
  by (rule leaves_modify, simp add: dview_def)+

lemma dview_wake_one:
  assumes "\<And>p. P p \<Longrightarrow> state p = SLEEPING"
  shows "leaves dview (bindK (get_proc i) (\<lambda>p. whenK (P p) (set_proc i (\<lambda>p. p\<lparr>state := RUNNABLE\<rparr>))))"
proof -
  have "\<not> dead (state (procs s ! i))" if "P (proc_at s i)" for s :: "'a kern_scheme"
    using assms [OF that] by (simp add: dead_def)
  then show ?thesis
    by (auto simp: leaves_def run_simps get_proc_def set_proc_def dview_def map_upd_same dead_def split: if_splits)
qed

lemma dview_wake_all: "leaves dview (wake_all ch)"
  unfolding wake_all_def by (intro leaves_intros dview_wake_one) simp

lemma dview_kkill: "leaves dview (kkill n)"
proof -
  have e: "bindK (get_proc i) (\<lambda>p. thenK (f p) (returnK x)) = thenK (bindK (get_proc i) f) (returnK x)"
    for i x and f :: "proc \<Rightarrow> ('a kern_scheme, unit) K"
    by (simp add: thenK_def bindK_assoc)
  show ?thesis unfolding kkill_def e by (intro leaves_intros dview_set_proc dview_wake_one) simp_all
qed

lemma dview_ops_high: "leaves dview (growproc n)" "leaves dview (setkilled i)" "leaves dview (fetchaddr a)" "leaves dview (kstring a)"
    "leaves dview (reparent i)" "leaves dview (advance f r)"
  unfolding growproc_def setkilled_def fetchaddr_def kstring_def reparent_def advance_def
  by (intro leaves_intros dview_ops dview_set_proc dview_modify_low dview_wake_all dview_set_file; simp)+

lemma leaves_dev_fn [leaves_intros]: "leaves g f \<Longrightarrow> leaves g h \<Longrightarrow> leaves g (case x of consoleread_fn \<Rightarrow> f | consolewrite_fn \<Rightarrow> h)"
  by (cases x) auto

lemma leaves_fdtype [leaves_intros]: "leaves g f1 \<Longrightarrow> leaves g f2 \<Longrightarrow> leaves g f3 \<Longrightarrow> leaves g f4 \<Longrightarrow>
    leaves g (case x of FD_NONE \<Rightarrow> f1 | FD_PIPE \<Rightarrow> f2 | FD_INODE \<Rightarrow> f3 | FD_DEVICE \<Rightarrow> f4)"
  by (cases x) auto

lemmas dv = dview_ops create_dview dview_args dview_tf_set dview_wake_all dview_kkill dview_ops_high dview_modify_low

lemma dview_filewrite_loop: "leaves dview (filewrite_loop f ip a n i)"
  by (induction f ip a n i rule: filewrite_loop.induct) (subst filewrite_loop.simps, intro leaves_intros dv; simp)

lemma dview_file: "leaves dview (fileread f a n)" "leaves dview (filewrite f a n)" "leaves dview (filestat pad f a)"
  unfolding fileread_def filewrite_def filestat_def devfn_def call_dev_def by (intro leaves_intros dv dview_filewrite_loop)+

lemma dview_argfd: "leaves dview (argfd n)"
  unfolding argfd_def by (intro leaves_intros dv)

lemma dview_isdirempty_from: "leaves dview (isdirempty_from dp lim off)"
  by (induction dp lim off rule: isdirempty_from.induct) (subst isdirempty_from.simps, intro leaves_intros dv; simp)

lemma dview_sysfile: "leaves dview sys_read" "leaves dview sys_write" "leaves dview (sys_fstat pad)" "leaves dview sys_link"
    "leaves dview sys_unlink" "leaves dview sys_mkdir" "leaves dview sys_mknod" "leaves dview sys_chdir"
  unfolding sys_read_def sys_write_def sys_fstat_def sys_link_def sys_unlink_def sys_mkdir_def sys_mknod_def sys_chdir_def isdirempty_def
  by (intro leaves_intros dv dview_file dview_argfd dview_isdirempty_from dview_set_proc; simp)+

lemma dview_loadseg_from: "leaves dview (loadseg_from pt va ip off sz i)"
  by (induction pt va ip off sz i rule: loadseg_from.induct) (subst loadseg_from.simps, intro leaves_intros dv; simp)

lemma dview_load_segments: "leaves dview (load_segments k off ip pt sz)"
  by (induction k arbitrary: off sz) (auto simp: loadseg_def intro!: leaves_intros dv dview_loadseg_from)

lemma dview_push_args: "leaves dview (push_args pt base argv sp us)"
  by (induction argv arbitrary: sp us) (auto simp: Let_def intro!: leaves_intros dv)

lemma dview_exec: "leaves dview (build_stack pt argv sz)" "leaves dview (commit_image pt sz sp pth e)"
  unfolding build_stack_def commit_image_def by (intro leaves_intros dv dview_push_args dview_set_proc; simp)+

lemma dview_kexec: "leaves dview (kexec pth argv)"
  unfolding kexec_def by (intro leaves_intros dv dview_exec dview_load_segments)

lemma dview_fetch_argv: "leaves dview (fetch_argv ua i argv)"
  by (induction ua i argv rule: fetch_argv.induct) (subst fetch_argv.simps, intro leaves_intros dv; simp)

lemma dview_sysproc: "leaves dview sys_exec" "leaves dview sys_sbrk" "leaves dview sys_pause" "leaves dview sys_kill" "leaves dview sys_uptime" "leaves dview sys_getpid"
  unfolding sys_exec_def sys_sbrk_def sys_pause_def pause_from_def sys_kill_def sys_uptime_def sys_getpid_def
  by (intro leaves_intros dv dview_kexec dview_fetch_argv)+

subsubsection \<open>Wait, fork and exit\<close>

lemma set_state_dview:
  fixes s :: "'z kern_scheme"
  assumes "dview s = (R, T, S, c)" "i < length S" "\<And>p. ofile (h p) = ofile p" "\<And>p. state (h p) = st"
  shows "wp (set_proc i h) (\<lambda>_ s'. dview s' = (R, T, S[i := dead st], c)) E s"
  using assms map_upd_id [of ofile "procs s" i] by (auto simp: set_proc_def dview_def map_update)

lemma set_state_then:
  fixes s :: "'z kern_scheme"
  assumes "dview s = (R, T, S, c)" "i < length S" "\<And>p. ofile (h p) = ofile p" "\<And>p. state (h p) = st"
    "\<And>s'. dview s' = (R, T, S[i := dead st], c) \<Longrightarrow> wp k Q E s'"
  shows "wp (thenK (set_proc i h) k) Q E s"
  unfolding wp_then by (rule wp_mono [OF set_state_dview [OF assms(1-4)]]) (rule assms(5))

lemma freeproc_dview:
  fixes s :: "'z kern_scheme"
  assumes v: "dview s = (R, T, S, c)" and i: "i < length S"
  shows "wp (freeproc i) (\<lambda>_ s'. dview s' = (R, T, S[i := True], c)) (\<lambda>_. True) s"
  unfolding freeproc_def
  apply (rule L_bind [OF _ v], intro leaves_intros)
  apply (erule L_thenE, intro leaves_intros dv)
  apply (erule L_thenE, rule dview_set_proc, simp, simp)
  apply (erule L_thenE, intro leaves_intros dv)
  apply (erule wp_mono [OF set_state_dview [OF _ i, where st = UNUSED]]; simp add: dead_def)
  done

lemma kwait_scan_dview:
  fixes s :: "'z kern_scheme"
  assumes "dview s = (R, T, S, c)" "\<forall>i \<in> set is. i < length S"
  shows "wp (kwait_scan a is kids) (\<lambda>_ s'. dview s' = (R, T, S, c)) (\<lambda>_. True) s"
  using assms
proof (induction "is" arbitrary: kids s)
  case (Cons pp rest)
  let ?Q = "\<lambda>_ s' :: 'z kern_scheme. dview s' = (R, T, S, c)"
  have pp: "pp < length S" "S ! pp = dead (state (procs s ! pp))" using Cons.prems by (auto simp: dview_def)
  have free: "wp (bindK (getsK p_pagetable) (\<lambda>pt. bindK (if a \<noteq> 0 then copyout pt a bs else returnK 0) (\<lambda>r.
      if r < 0 then returnK (Inl (-1)) else thenK (freeproc pp) (returnK (Inl n))))) ?Q (\<lambda>_. True) s"
    if "S ! pp" for bs n
    apply (rule L_bind [OF _ Cons.prems(1)], intro leaves_intros)
    apply (erule L_bindE, intro leaves_intros dv)
    apply (rule wp_ifI, simp)
    apply (unfold wp_then, erule wp_mono [OF freeproc_dview [OF _ pp(1)]])
    using that list_update_id [of S pp] by simp
  show ?case unfolding kwait_scan.simps get_proc_def wp_bind [of "getsK cur"] wp_gets wp_bind [of "getsK (\<lambda>s. proc_at s pp)"]
  proof (intro wp_ifI)
    assume "state (proc_at s pp) = ZOMBIE"
    then have "S ! pp" using pp by (simp add: dead_def)
    then show "wp (bindK (getsK p_pagetable) (\<lambda>pt. bindK (if a \<noteq> 0 then copyout pt a (enc 4 (nat (xstate (proc_at s pp) mod 2 ^ 32))) else returnK 0) (\<lambda>r.
        if r < 0 then returnK (Inl (-1)) else thenK (freeproc pp) (returnK (Inl (pid (proc_at s pp))))))) ?Q (\<lambda>_. True) s"
      by (rule free)
  qed (use Cons in auto)
qed simp

lemma kwait_dview:
  fixes s :: "'z kern_scheme"
  assumes "dview s = (R, T, S, c)" "length S = 64"
  shows "wp (kwait a) (\<lambda>_ s'. dview s' = (R, T, S, c)) (\<lambda>_. True) s"
  unfolding kwait_def wp_bind [of "getsK cur"] wp_gets wp_bind [of "kwait_scan _ _ _"]
  by (rule wp_mono [OF kwait_scan_dview [OF assms(1)]]) (use assms in \<open>auto split: sum.split\<close>)

lemma set_ofile_dview:
  fixes s :: "'z kern_scheme"
  assumes "dview s = (R, T, S, c)" "i < length T"
  shows "wp (set_proc i (\<lambda>p. p\<lparr>ofile := (ofile p)[fd := x]\<rparr>)) (\<lambda>_ s'. dview s' = (R, T[i := (T ! i)[fd := x]], S, c)) E s"
  using assms map_upd_id [of "\<lambda>p. dead (state p)" "procs s" i] by (auto simp: set_proc_def dview_def map_update)

text \<open>The state of \<^verbatim>\<open>kexit\<close> after the first \<open>k\<close> descriptors have been closed.\<close>

definition closing :: "nat \<Rightarrow> bool list \<Rightarrow> nat \<Rightarrow> 'z kern_scheme \<Rightarrow> bool" where
  "closing k S c s \<longleftrightarrow> (\<exists>R T. dview s = (R, T, S, c) \<and> dinv (R, T, S, c) \<and> (\<forall>fd < k. T ! c ! fd = None))"

lemma exit_close:
  assumes "closing fd S c s" "fd < 16"
  shows "wp (bindK (get_proc c) (\<lambda>p. case ofile p ! fd of None \<Rightarrow> returnK ()
      | Some f \<Rightarrow> thenK (fileclose f) (set_proc c (\<lambda>p. p\<lparr>ofile := (ofile p)[fd := None]\<rparr>)))) (\<lambda>_. closing (Suc fd) S c) (\<lambda>_. True) s"
proof -
  obtain R T where v: "dview s = (R, T, S, c)" and d: "dinv (R, T, S, c)" and cl: "\<forall>j < fd. T ! c ! j = None"
    using assms by (auto simp: closing_def)
  note D = dinvD [OF d]
  have of: "ofile (procs s ! c) = T ! c" using v D by (auto simp: dview_def)
  show ?thesis
  proof (cases "T ! c ! fd")
    case None
    then show ?thesis using v d cl by (auto simp: get_proc_def of closing_def less_Suc_eq)
  next
    case (Some f)
    have "wp (thenK (fileclose f) (set_proc c (\<lambda>p. p\<lparr>ofile := (ofile p)[fd := None]\<rparr>))) (\<lambda>_. closing (Suc fd) S c) (\<lambda>_. True) s"
    proof (rule fileclose_then [OF v D(9) [OF D(4) assms(2) Some]], erule wp_mono [OF set_ofile_dview [OF _ D(7)]])
      fix s' :: "'a kern_scheme" assume v': "dview s' = (R[f := R ! f - 1], T[c := (T ! c)[fd := None]], S, c)"
      have "T[c := (T ! c)[fd := None]] ! c ! j = None" if "j < Suc fd" for j
        using that cl D(4,5,7) assms(2) by (auto simp: nth_list_update less_Suc_eq)
      then show "closing (Suc fd) S c s'" using v' dinv_take [OF d D(4) assms(2) Some] by (auto simp: closing_def)
    qed
    then show ?thesis using Some by (simp add: get_proc_def of)
  qed
qed

lemma kexit_keeps: "keeps_dinv (kexit st)"
proof (rule keeps_dinvI)
  fix s :: "'z kern_scheme" and R T S c
  assume v: "dview s = (R, T, S, c)" and d: "dinv (R, T, S, c)" and run: "\<not> S ! c"
  have c: "cur s = c" using v by (simp add: dview_def)
  have cl: "closing 0 S c s" using v d by (auto simp: closing_def)
  let ?rest = "thenK begin_op (bindK (get_proc c) (\<lambda>p. thenK (case cwd p of None \<Rightarrow> undefK | Some ip \<Rightarrow> iput ip)
      (thenK end_op (thenK (set_proc c (\<lambda>p. p\<lparr>cwd := None\<rparr>)) (thenK (reparent c) (bindK (get_proc c) (\<lambda>p'.
       thenK (case parent p' of None \<Rightarrow> returnK () | Some q \<Rightarrow> wake_all (proc_chan q))
        (set_proc c (\<lambda>p. p\<lparr>xstate := st, state := ZOMBIE\<rparr>)))))))))"
  have rest: "reach_ok ?rest s1" if s1: "closing 16 S c s1" for s1 :: "'z kern_scheme"
  proof -
    obtain R1 T1 where v1: "dview s1 = (R1, T1, S, c)" and d1: "dinv (R1, T1, S, c)" and none: "\<forall>fd < 16. T1 ! c ! fd = None"
      using s1 by (auto simp: closing_def)
    have dz: "dinv (R1, T1, S[c := True], c)" using d1 none by (auto simp: dinv_def nth_list_update)
    show ?thesis
      apply (rule L_thenE [OF v1], intro leaves_intros dv)
      apply (erule L_bindE, intro leaves_intros)
      apply (erule L_thenE, intro leaves_intros dv)
      apply (erule L_thenE, intro leaves_intros dv)
      apply (erule L_thenE, rule dview_set_proc, simp, simp)
      apply (erule L_thenE, intro leaves_intros dv)
      apply (erule L_bindE, intro leaves_intros)
      apply (erule L_thenE, intro leaves_intros dv)
      apply (erule wp_mono [OF set_state_dview [OF _ dinvD(8) [OF d1], where st = ZOMBIE]]; simp add: dead_def dz)
      done
  qed
  have "wp (forK [0..<16] (\<lambda>fd. bindK (get_proc c) (\<lambda>p. case ofile p ! fd of None \<Rightarrow> returnK ()
      | Some f \<Rightarrow> thenK (fileclose f) (set_proc c (\<lambda>p. p\<lparr>ofile := (ofile p)[fd := None]\<rparr>))))) (\<lambda>_. closing 16 S c) (\<lambda>_. True) s"
    by (rule wp_forK_upt [where I = "\<lambda>k. closing k S c", OF exit_close cl])
  then show "reach_ok (kexit st) s"
    unfolding kexit_def wp_bind [of "getsK _"] wp_gets c
    by (intro wp_ifI) (simp, unfold wp_then [of "forK _ _"], erule wp_mono, rule rest)
qed

text \<open>\<^verbatim>\<open>allocproc\<close> turns an unused entry into a live one that holds no descriptor.\<close>

lemma allocproc_bind:
  fixes s :: "'z kern_scheme"
  assumes v: "dview s = (R, T, S, c)" and none: "\<And>s'. dview s' = (R, T, S, c) \<Longrightarrow> wp (k None) Q (\<lambda>_. True) s'"
    and some: "\<And>i s'. i < length S \<Longrightarrow> S ! i \<Longrightarrow> dview s' = (R, T, S[i := False], c) \<Longrightarrow> wp (k (Some i)) Q (\<lambda>_. True) s'"
  shows "wp (bindK allocproc k) Q (\<lambda>_. True) s"
proof -
  let ?Q = "\<lambda>r. wp (k r) Q (\<lambda>_. True)"
  have "wp allocproc ?Q (\<lambda>_. True) s"
  proof (cases "find_index (\<lambda>p. state p = UNUSED) (procs s)")
    case None
    then show ?thesis using none [OF v] by (simp add: allocproc_def del: find_index_None)
  next
    case (Some i)
    have i: "i < length S" "S ! i" using find_index_SomeD [OF Some] v by (auto simp: dview_def dead_def)
    have undo: "wp (thenK (freeproc i) (returnK None)) ?Q (\<lambda>_. True) s1" if "dview s1 = (R, T, S[i := False], c)" for s1 :: "'z kern_scheme"
      unfolding wp_then
      by (rule wp_mono [OF freeproc_dview [OF that]]) (use i none list_update_id [of S i] in auto)
    have live: "dead USED = False" by (simp add: dead_def)
    have "leaves dview allocpid" unfolding allocpid_def by (intro leaves_intros leaves_modify; simp add: dview_def)
    then have "wp (bindK allocpid (\<lambda>n. thenK (set_proc i (\<lambda>p. p\<lparr>pid := n, state := USED\<rparr>)) (bindK kalloc (\<lambda>tf.
         thenK (set_proc i (\<lambda>p. p\<lparr>trapframe := tf\<rparr>)) (if tf = 0 then thenK (freeproc i) (returnK None)
           else bindK (proc_pagetable tf) (\<lambda>pt. thenK (set_proc i (\<lambda>p. p\<lparr>pagetable := pt\<rparr>))
              (if pt = 0 then thenK (freeproc i) (returnK None)
               else bindK (getsK forkret_addr) (\<lambda>ra.
                 thenK (set_proc i (\<lambda>p. p\<lparr>pcontext := zero_context\<lparr>ctx_ra := ra, ctx_sp := kstack p + PGSIZE\<rparr>\<rparr>))
                   (returnK (Some i)))))))))) ?Q (\<lambda>_. True) s"
      apply (rule L_bind [OF _ v])
      apply (erule set_state_then [OF _ i(1), where st = USED], simp, simp)
      apply (simp (no_asm_use) only: live)
      apply (erule L_bindE, intro leaves_intros dv)
      apply (erule L_thenE, rule dview_set_proc, simp, simp)
      apply (rule wp_ifI, erule undo)
      apply (erule L_bindE, intro leaves_intros dv)
      apply (erule L_thenE, rule dview_set_proc, simp, simp)
      apply (rule wp_ifI, erule undo)
      apply (erule L_bindE, intro leaves_intros)
      apply (erule L_thenE, rule dview_set_proc, simp, simp)
      by (simp add: some [OF i])
    then show ?thesis using Some by (simp only: allocproc_def wp_bind [of "getsK _"] wp_gets option.case)
  qed
  then show ?thesis unfolding wp_bind .
qed

text \<open>The state of \<^verbatim>\<open>kfork\<close> after the first \<open>k\<close> descriptors have been shared with the child.\<close>

definition sharing :: "nat \<Rightarrow> nat option list \<Rightarrow> nat \<Rightarrow> bool list \<Rightarrow> nat \<Rightarrow> 'z kern_scheme \<Rightarrow> bool" where
  "sharing k fds np S c s \<longleftrightarrow> (\<exists>R T. dview s = (R, T, S, c) \<and> dinv (R, T, S, c) \<and> np < 64 \<and> \<not> S ! np \<and>
     (\<forall>fd < 16. \<forall>f. fds ! fd = Some f \<longrightarrow> f < 100) \<and> (\<forall>fd < 16. k \<le> fd \<longrightarrow> T ! np ! fd = None))"

lemma sharing_E:
  assumes "sharing k fds np S c s"
  obtains R T where "dview s = (R, T, S, c)" "dinv (R, T, S, c)" "np < length S" "dead RUNNABLE = S ! np"
  using assms that by (auto simp: sharing_def dinv_def dead_def)

lemma fork_share:
  assumes "sharing fd fds np S c s" "fd < 16"
  shows "wp (case fds ! fd of None \<Rightarrow> returnK ()
      | Some f \<Rightarrow> bindK (filedup f) (\<lambda>f'. set_proc np (\<lambda>q. q\<lparr>ofile := (ofile q)[fd := Some f']\<rparr>)))
    (\<lambda>_. sharing (Suc fd) fds np S c) (\<lambda>_. True) s"
proof -
  obtain R T where v: "dview s = (R, T, S, c)" and d: "dinv (R, T, S, c)" and np: "np < 64" "\<not> S ! np"
    and fds: "\<forall>fd < 16. \<forall>f. fds ! fd = Some f \<longrightarrow> f < 100" and free: "\<forall>j < 16. fd \<le> j \<longrightarrow> T ! np ! j = None"
    using assms by (auto simp: sharing_def)
  note D = dinvD [OF d]
  show ?thesis
  proof (cases "fds ! fd")
    case None
    then show ?thesis using assms by (auto simp: sharing_def)
  next
    case (Some f)
    then have f: "f < 100" "f < length R" using fds assms(2) D(1) by auto
    have np': "np < length T" using np D by simp
    have "wp (bindK (filedup f) (\<lambda>f'. set_proc np (\<lambda>q. q\<lparr>ofile := (ofile q)[fd := Some f']\<rparr>))) (\<lambda>_. sharing (Suc fd) fds np S c) (\<lambda>_. True) s"
      unfolding wp_bind
    proof (rule wp_mono [OF filedup_dview [OF v f(2)]], elim conjE, hypsubst, erule wp_mono [OF set_ofile_dview [OF _ np']])
      fix s' :: "'a kern_scheme" assume v': "dview s' = (R[f := R ! f + 1], T[np := (T ! np)[fd := Some f]], S, c)"
      have "dinv (R[f := R ! f + 1], T[np := (T ! np)[fd := Some f]], S, c)"
        using dinv_give [OF d np(1) assms(2) f(1) _ np(2)] free assms(2) by simp
      then show "sharing (Suc fd) fds np S c s'" using v' np np' fds free D(5) by (auto simp: sharing_def nth_list_update)
    qed
    then show ?thesis using Some by simp
  qed
qed

lemma kfork_keeps: "keeps_dinv kfork"
proof (rule keeps_dinvI)
  fix s :: "'z kern_scheme" and R T S c
  assume v: "dview s = (R, T, S, c)" and d: "dinv (R, T, S, c)" and run: "\<not> S ! c"
  have c: "cur s = c" using v by (simp add: dview_def)
  note D = dinvD [OF d]
  show "reach_ok kfork s" unfolding kfork_def wp_bind [of "getsK cur"] wp_gets c
  proof (rule allocproc_bind [OF v]; simp (no_asm) only: option.case)
    fix np and s1 :: "'z kern_scheme"
    assume np: "np < length S" "S ! np" and v1: "dview s1 = (R, T, S[np := False], c)"
    have none: "\<forall>fd < 16. T ! np ! fd = None" using d np by (auto simp: dinv_def)
    have d1: "dinv (R, T, S[np := False], c)" using d none np(1) by (auto simp: dinv_def nth_list_update split: if_splits)
    have of: "ofile (proc_at s1 c) = T ! c" using v1 D by (auto simp: dview_def)
    have undo: "reach_ok (thenK (freeproc np) (returnK x)) s2" if "dview s2 = (R, T, S[np := False], c)" for x and s2 :: "'z kern_scheme"
      unfolding wp_then
      by (rule wp_mono [OF freeproc_dview [OF that]]) (use np d list_update_id [of S np] in auto)
    have share: "sharing 0 (T ! c) np (S[np := False]) c s2" if "dview s2 = (R, T, S[np := False], c)" for s2 :: "'z kern_scheme"
      using that d1 np none D by (auto simp: sharing_def)
    let ?loop = "\<lambda>fds. forK [0..<16] (\<lambda>fd. case fds ! fd of None \<Rightarrow> returnK ()
             | Some f \<Rightarrow> bindK (filedup f) (\<lambda>f'. set_proc np (\<lambda>q. q\<lparr>ofile := (ofile q)[fd := Some f']\<rparr>)))"
    have loop: "wp (thenK (?loop (T ! c)) g) (\<lambda>_ s'. dinv (dview s')) (\<lambda>_. True) s2"
      if g: "\<And>s3 :: 'z kern_scheme. sharing 16 (T ! c) np (S[np := False]) c s3 \<Longrightarrow> reach_ok g s3"
        and v2: "dview s2 = (R, T, S[np := False], c)" for s2 and g :: "('z kern_scheme, int) K"
      unfolding wp_then
      by (rule wp_mono [OF wp_forK_upt [where I = "\<lambda>k. sharing k (T ! c) np (S[np := False]) c", OF fork_share share [OF v2]]]) (assumption, assumption, rule g)
    show "reach_ok (bindK (get_proc c) (\<lambda>p. bindK (get_proc np) (\<lambda>q. bindK (uvmcopy (pagetable p) (pagetable q) (psz p)) (\<lambda>rc.
         if rc < 0 then thenK (freeproc np) (returnK (-1))
         else thenK (set_proc np (\<lambda>q. q\<lparr>psz := psz p\<rparr>))
          (thenK (modifyK (\<lambda>s. s\<lparr>ram := mem_put (ram s) (trapframe q) (mem_bytes (ram s) (trapframe p) tf_size)\<rparr>))
          (thenK (tf_set (trapframe q) tf_a0 0)
          (thenK (?loop (ofile p))
          (bindK (case cwd p of None \<Rightarrow> undefK | Some ip \<Rightarrow> idup ip) (\<lambda>ip'.
           thenK (set_proc np (\<lambda>q. q\<lparr>cwd := Some ip'\<rparr>))
          (thenK (set_proc np (\<lambda>q. q\<lparr>pname := copy_name (pname q) (pname p)\<rparr>))
          (thenK (set_proc np (\<lambda>q. q\<lparr>parent := Some c\<rparr>))
          (thenK (set_proc np (\<lambda>q. q\<lparr>state := RUNNABLE\<rparr>))
           (returnK (pid q))))))))))))) ) s1"
      unfolding get_proc_def wp_bind [of "getsK _"] wp_gets of
      apply (rule L_bind [OF _ v1], intro leaves_intros dv)
      apply (rule wp_ifI, erule undo)
      apply (erule L_thenE, rule dview_set_proc, simp, simp)
      apply (erule L_thenE, intro dv)
      apply (erule L_thenE, intro dv)
      apply (erule loop [rotated])
      apply (elim sharing_E)
      apply (erule L_bindE, intro leaves_intros dv)
      apply (erule L_thenE, rule dview_set_proc, simp, simp)
      apply (erule L_thenE, rule dview_set_proc, simp, simp)
      apply (erule L_thenE, rule dview_set_proc, simp, simp)
      apply (erule set_state_then [where st = RUNNABLE], simp, simp, simp)
      by simp
  qed (use d in simp)
qed

subsection \<open>The system call interface\<close>

lemma keeps_leaves: "leaves dview f \<Longrightarrow> keeps_dinv f"
  unfolding keeps_dinv_def by (auto intro: leaves_wp)

lemma keeps_before: "leaves dview f \<Longrightarrow> (\<And>x. keeps_dinv (g x)) \<Longrightarrow> keeps_dinv (bindK f g)"
proof (rule keeps_dinvI)
  fix s :: "'a kern_scheme" and R T S c
  assume f: "leaves dview f" and g: "\<And>x. keeps_dinv (g x)" and v: "dview s = (R, T, S, c)" "dinv (R, T, S, c)" "\<not> S ! c"
  show "reach_ok (bindK f g) s"
  proof (rule L_bind [OF f v(1)])
    fix r and s' :: "'a kern_scheme" assume "dview s' = (R, T, S, c)"
    moreover from this have "\<not> dead (state (procs s' ! cur s'))" using v dinvD(8) [OF v(2)] by (auto simp: dview_def)
    ultimately show "reach_ok (g r) s'" using g [of r] v by (simp add: keeps_dinv_def)
  qed
qed

lemma keeps_after: "keeps_dinv f \<Longrightarrow> (\<And>x. leaves dview (g x)) \<Longrightarrow> keeps_dinv (bindK f g)"
  unfolding keeps_dinv_def wp_bind
proof (intro allI impI)
  fix s :: "'a kern_scheme"
  assume f: "\<forall>s. dinv (dview s) \<longrightarrow> \<not> dead (state (procs s ! cur s)) \<longrightarrow> reach_ok f s" and g: "\<And>x. leaves dview (g x)"
    and s: "dinv (dview s)" "\<not> dead (state (procs s ! cur s))"
  show "wp f (\<lambda>r. reach_ok (g r)) (\<lambda>_. True) s"
    by (rule wp_mono [OF f [rule_format, OF s]]) (rule leaves_wp [OF g], simp)
qed

lemma sys_wait_keeps: "keeps_dinv sys_wait"
  unfolding sys_wait_def
proof (rule keeps_before)
  show "leaves dview (argaddr 0)" by (intro dv)
  fix a show "keeps_dinv (kwait a)"
    by (rule keeps_dinvI, rule wp_mono [OF kwait_dview]) (auto simp: dinv_def)
qed

lemma sys_exit_keeps: "keeps_dinv sys_exit"
  unfolding sys_exit_def by (rule keeps_before [OF _ kexit_keeps]) (intro dv)

lemma syscalls_keep:
  assumes "syscalls pad num = Some f"
  shows "keeps_dinv f"
proof -
  have ret: "leaves dview (returnK x)" for x :: sysres by (rule leaves_return)
  note simple = dview_sysfile dview_sysproc
  show ?thesis using assms unfolding syscalls_def ret_int_def ret_io_def ret_outcome_def thenK_def sys_fork_def
    by (auto split: if_splits intro!: keeps_after ret kfork_keeps sys_exit_keeps sys_wait_keeps sys_pipe_keeps sys_dup_keeps sys_open_keeps
        sys_close_keeps simple [THEN keeps_leaves])
qed

lemma keeps_option:
  "(m = None \<Longrightarrow> keeps_dinv f) \<Longrightarrow> (\<And>x. m = Some x \<Longrightarrow> keeps_dinv (g x)) \<Longrightarrow>
   keeps_dinv (case m of None \<Rightarrow> f | Some x \<Rightarrow> g x)"
  by (cases m) auto

lemma syscall_keeps: "keeps_dinv (syscall pad)"
proof -
  have store: "leaves dview (case r of SysRet v \<Rightarrow> thenK (tf_set tf tf_a0 v) (returnK r) | _ \<Rightarrow> returnK r)" for r tf
    by (cases r) (auto intro!: leaves_intros dv)
  show ?thesis unfolding syscall_def Let_def
    by (rule keeps_before [OF _ keeps_before] keeps_option
        | rule keeps_after, erule syscalls_keep, rule store
        | rule keeps_leaves, intro leaves_intros dv | intro leaves_intros dv)+
qed


subsection \<open>Property\<close>

text \<open>
  C2: every system call, from the dispatch on the number in \<^verbatim>\<open>a7\<close> to the value stored in \<^verbatim>\<open>a0\<close>, keeps the
  reference count of every entry of the table of open files equal to the number of descriptors, over all
  processes, that refer to it, and keeps unused and zombie processes free of descriptors.  This covers open,
  close, dup, pipe, fork, exit and every error path that has to give a file or a descriptor back.
\<close>

theorem syscall_keeps_refcounts:
  assumes "dinv (dview s)" "\<not> dead (state (procs s ! cur s))" "syscall pad s = Inr (r, s')"
  shows "dinv (dview s') \<and>
    (\<forall>f < 100. f_ref (ftable s' ! f) = int (card {(i, fd). i < 64 \<and> fd < 16 \<and> ofile (procs s' ! i) ! fd = Some f}))"
proof -
  have inv: "dinv (dview s')" using syscall_keeps [of pad] assms by (auto simp: keeps_dinv_def wp_def)
  then have len: "length (ftable s') = 100" "length (procs s') = 64" by (auto simp: dinv_def dview_def)
  have "holds_at (map ofile (procs s')) f = {(i, fd). i < 64 \<and> fd < 16 \<and> ofile (procs s' ! i) ! fd = Some f}" for f
    using len by (auto simp: holds_at_def)
  moreover
  have "\<forall>f < 100. map f_ref (ftable s') ! f = int (card (holds_at (map ofile (procs s')) f))"
    using inv unfolding dinv_def dview_def prod.case by blast
  then have "\<forall>f < 100. f_ref (ftable s' ! f) = int (card (holds_at (map ofile (procs s')) f))" using len by simp
  ultimately show ?thesis using inv by simp
qed

text \<open>A kernel whose first process has one open file and asks for a second descriptor of it.\<close>

definition dup_proc :: proc where
  "dup_proc = \<lparr>state = RUNNING, pchan = None, pkilled = False, xstate = 0, pid = 1, parent = None, kstack = 0, psz = 0,
     pagetable = 0, trapframe = 0x1000, pcontext = zero_context, ofile = Some 0 # replicate 15 None, cwd = Some 0,
     pname = replicate 16 0\<rparr>"

definition dup_kern :: kern where
  "dup_kern = ftab.extend
     (fs.extend (small_fs\<lparr>ram := write64 (\<lambda>_. 0) 0x10A8 10\<rparr>)
        (ftab.fields (\<lparr>f_type = FD_INODE, f_ref = 1, f_readable = True, f_writable = True, f_pipe = 0, f_ip = 0, f_off = 0, f_major = 0\<rparr> #
             replicate 99 \<lparr>f_type = FD_NONE, f_ref = 0, f_readable = False, f_writable = False, f_pipe = 0, f_ip = 0, f_off = 0, f_major = 0\<rparr>)
           (replicate 10 \<lparr>dev_read = None, dev_write = None\<rparr>)))
     (kern.fields (dup_proc # replicate 63 (dup_proc\<lparr>state := UNUSED, ofile := replicate 16 None\<rparr>)) 0 0 2 0 0)"

lemma dup_kern_sel: "cur dup_kern = 0" "ram dup_kern = write64 (\<lambda>_. 0) 0x10A8 10"
  "procs dup_kern = dup_proc # replicate 63 (dup_proc\<lparr>state := UNUSED, ofile := replicate 16 None\<rparr>)"
  "ftable dup_kern = \<lparr>f_type = FD_INODE, f_ref = 1, f_readable = True, f_writable = True, f_pipe = 0, f_ip = 0, f_off = 0, f_major = 0\<rparr> #
     replicate 99 \<lparr>f_type = FD_NONE, f_ref = 0, f_readable = False, f_writable = False, f_pipe = 0, f_ip = 0, f_off = 0, f_major = 0\<rparr>"
  by (simp_all add: dup_kern_def ftab.defs fs.defs kern.defs)

lemma dup_kern_inv: "dinv (dview dup_kern)"
proof -
  let ?T = "map ofile (procs dup_kern)"
  have T: "?T ! i ! fd = (if i = 0 \<and> fd = 0 then Some 0 else None)" if "i < 64" "fd < 16" for i fd
    using that by (auto simp: dup_kern_sel dup_proc_def nth_Cons')
  then have "holds_at ?T f = (if f = 0 then {(0, 0)} else {})" for f by (auto simp: holds_at_def split: if_splits)
  moreover have "length (?T ! i) = 16" if "i < 64" for i using that by (auto simp: dup_kern_sel dup_proc_def nth_Cons')
  moreover have "map f_ref (ftable dup_kern) ! f = (if f = 0 then 1 else 0)" if "f < 100" for f
    using that by (auto simp: dup_kern_sel nth_Cons')
  moreover have "?T ! i ! fd = None" if "i < 64" "fd < 16" "map (\<lambda>p. dead (state p)) (procs dup_kern) ! i" for i fd
    using that by (cases i) (auto simp: dup_kern_sel dup_proc_def dead_def)
  moreover have "length (ftable dup_kern) = 100" "length (procs dup_kern) = 64" by (simp_all add: dup_kern_sel)
  ultimately show ?thesis using T by (auto simp: dinv_def dview_def dup_kern_sel(1))
qed

lemma dup_kern_args: "read64 (ram dup_kern) 0x10A8 = 10" "read64 (ram dup_kern) 0x1070 = 0"
proof -
  show "read64 (ram dup_kern) 0x10A8 = 10" by (simp add: dup_kern_sel)
  have "read64 (ram dup_kern) 0x1070 = read64 (\<lambda>_. 0) 0x1070"
    using read64_write64_other [of 4096 4096 21 14 "\<lambda>_. 0" 10]
    by (simp add: dup_kern_sel page_aligned_def)
  also have "\<dots> = 0" by (simp add: read64_def mem_bytes_def upt_conv_Cons)
  finally show "read64 (ram dup_kern) 0x1070 = 0" .
qed

lemma dup_kern_run: "\<exists>s'. syscall [] dup_kern = Inr (SysRet 1, s') \<and> ftable s' ! 0 = (ftable dup_kern ! 0)\<lparr>f_ref := 2\<rparr>"
proof -
  have "find (\<lambda>fd. ofile (procs dup_kern ! cur dup_kern) ! fd = None) [0..<16] = Some 1"
    by (simp add: dup_kern_sel dup_proc_def upt_conv_Cons)
  moreover have "trapframe dup_proc = 0x1000" "ofile dup_proc ! 0 = Some 0" by (simp_all add: dup_proc_def)
  ultimately show ?thesis
    using dup_kern_args
    by (simp add: syscall_def my_trapframe_def tf_get_def tf_set_def syscalls_def ret_int_def sys_dup_def argfd_def argint_def argraw_def
        fdalloc_def set_fd_def set_proc_def put_proc_def filedup_def get_file_def set_file_def run_simps dup_kern_sel Let_def)
qed

theorem syscall_keeps_refcounts_witness:
  "\<exists>s'. syscall [] dup_kern = Inr (SysRet 1, s') \<and> f_ref (ftable s' ! 0) = 2 \<and>
     card {(i, fd). i < 64 \<and> fd < 16 \<and> ofile (procs s' ! i) ! fd = Some 0} = 2"
proof -
  obtain s' where s': "syscall [] dup_kern = Inr (SysRet 1, s')" "ftable s' ! 0 = (ftable dup_kern ! 0)\<lparr>f_ref := 2\<rparr>"
    using dup_kern_run by blast
  moreover have "\<not> dead (state (procs dup_kern ! cur dup_kern))" by (simp add: dup_kern_sel dup_proc_def dead_def)
  ultimately show ?thesis using syscall_keeps_refcounts [OF dup_kern_inv _ s'(1)] by force
qed

end
