(* ===== verification/Sched.thy ===== *)
theory Sched
  imports Proc Spinlock
begin

section \<open>Scheduling, sleep and wakeup (kernel/proc.c)\<close>

text \<open>
  The kernel threads of all processes and the scheduler threads of all CPUs, interleaved.  Lock number \<^verbatim>\<open>i\<close> below
  \<^verbatim>\<open>NPROC\<close> is \<^verbatim>\<open>proc[i].lock\<close>, the other numbers are the locks of the rest of the kernel; acquiring and
  releasing one are the operations of theory \<open>Spinlock\<close>.  \<open>tpc\<close> is the position of a kernel thread, which \<^verbatim>\<open>swtch\<close> keeps
  in \<^verbatim>\<open>p->context\<close> while the thread is away, and \<open>spc\<close> the position of a CPU's \<^verbatim>\<open>scheduler\<close>.  \<open>wpc\<close> is the
  position in a call of \<^verbatim>\<open>wakeup\<close>, made by a thread or by an interrupt handler.  \<open>clk\<close>
  gives the condition lock that \<^verbatim>\<open>sleep\<close> is called with for a channel.
\<close>

datatype resume = AfterYield | AfterSleep nat | AfterExit | AtForkret

datatype tpc =
    Body                    \<comment> \<open>any other code, in user space or in the kernel\<close>
  | YieldHave               \<comment> \<open>\<^verbatim>\<open>yield\<close>: holds \<^verbatim>\<open>p->lock\<close>\<close>
  | SleepHave chan nat      \<comment> \<open>\<^verbatim>\<open>sleep(chan, lk)\<close>: holds \<^verbatim>\<open>p->lock\<close> and \<^verbatim>\<open>lk\<close>\<close>
  | SleepFree chan nat      \<comment> \<open>\<^verbatim>\<open>sleep(chan, lk)\<close>: \<^verbatim>\<open>lk\<close> released, not yet asleep\<close>
  | ExitHave nat            \<comment> \<open>\<^verbatim>\<open>kexit\<close>: holds \<^verbatim>\<open>p->lock\<close> and \<^verbatim>\<open>wait_lock\<close>\<close>
  | AtSched resume          \<comment> \<open>at the call of \<^verbatim>\<open>sched\<close>\<close>
  | Away resume bool        \<comment> \<open>in \<^verbatim>\<open>swtch\<close>, with the saved \<^verbatim>\<open>intena\<close>\<close>
  | Back resume bool        \<comment> \<open>\<^verbatim>\<open>swtch\<close> has returned\<close>
  | Tidy resume             \<comment> \<open>\<^verbatim>\<open>sched\<close> has returned\<close>
  | Reacquire nat           \<comment> \<open>\<^verbatim>\<open>sleep\<close>: at \<^verbatim>\<open>acquire(lk)\<close>\<close>

datatype spc =
    Window                  \<comment> \<open>between \<^verbatim>\<open>intr_on()\<close> and \<^verbatim>\<open>intr_off()\<close>\<close>
  | Scan nat bool           \<comment> \<open>at \<^verbatim>\<open>acquire(&p->lock)\<close>, with \<^verbatim>\<open>found\<close>\<close>
  | Test nat bool           \<comment> \<open>holds \<^verbatim>\<open>p->lock\<close>\<close>
  | In nat                  \<comment> \<open>in \<^verbatim>\<open>swtch\<close>: the CPU runs the process\<close>
  | Ran nat                 \<comment> \<open>\<^verbatim>\<open>swtch\<close> has returned\<close>

record sch = locks +
  pstate :: "nat \<Rightarrow> procstate"
  p_chan :: "nat \<Rightarrow> chan option"
  tpc :: "nat \<Rightarrow> tpc"
  spc :: "nat \<Rightarrow> spc"
  wpc :: "nat \<Rightarrow> (chan \<times> nat \<times> bool) option"
  cproc :: "nat \<Rightarrow> nat option"   \<comment> \<open>\<^verbatim>\<open>c->proc\<close>\<close>

definition set_tpc :: "nat \<Rightarrow> tpc \<Rightarrow> (sch, unit) K" where
  "set_tpc p x = modifyK (\<lambda>s. s\<lparr>tpc := (tpc s)(p := x)\<rparr>)"

definition set_spc :: "nat \<Rightarrow> spc \<Rightarrow> (sch, unit) K" where
  "set_spc c x = modifyK (\<lambda>s. s\<lparr>spc := (spc s)(c := x)\<rparr>)"

definition set_wpc :: "nat \<Rightarrow> (chan \<times> nat \<times> bool) option \<Rightarrow> (sch, unit) K" where
  "set_wpc c x = modifyK (\<lambda>s. s\<lparr>wpc := (wpc s)(c := x)\<rparr>)"

definition set_cproc :: "nat \<Rightarrow> nat option \<Rightarrow> (sch, unit) K" where
  "set_cproc c x = modifyK (\<lambda>s. s\<lparr>cproc := (cproc s)(c := x)\<rparr>)"

definition set_pstate :: "nat \<Rightarrow> procstate \<Rightarrow> (sch, unit) K" where
  "set_pstate p x = modifyK (\<lambda>s. s\<lparr>pstate := (pstate s)(p := x)\<rparr>)"

definition set_chan :: "nat \<Rightarrow> chan option \<Rightarrow> (sch, unit) K" where
  "set_chan p x = modifyK (\<lambda>s. s\<lparr>p_chan := (p_chan s)(p := x)\<rparr>)"

subsection \<open>Threads\<close>

definition yield_enter :: "nat \<Rightarrow> nat \<Rightarrow> (sch, unit) K" where
  "yield_enter c p = thenK (acquire c p) (set_tpc p YieldHave)"

definition yield_set :: "nat \<Rightarrow> (sch, unit) K" where
  "yield_set p = thenK (set_pstate p RUNNABLE) (set_tpc p (AtSched AfterYield))"

definition sleep_enter :: "nat \<Rightarrow> nat \<Rightarrow> chan \<Rightarrow> nat \<Rightarrow> (sch, unit) K" where
  "sleep_enter c p ch l = thenK (acquire c p) (set_tpc p (SleepHave ch l))"

definition sleep_release :: "nat \<Rightarrow> nat \<Rightarrow> chan \<Rightarrow> nat \<Rightarrow> (sch, unit) K" where
  "sleep_release c p ch l = thenK (release c l) (set_tpc p (SleepFree ch l))"

definition sleep_set :: "nat \<Rightarrow> chan \<Rightarrow> nat \<Rightarrow> (sch, unit) K" where
  "sleep_set p ch l =
     thenK (set_chan p (Some ch)) (thenK (set_pstate p SLEEPING) (set_tpc p (AtSched (AfterSleep l))))"

definition exit_enter :: "nat \<Rightarrow> nat \<Rightarrow> nat \<Rightarrow> (sch, unit) K" where
  "exit_enter c p l = thenK (acquire c p) (set_tpc p (ExitHave l))"

definition exit_set :: "nat \<Rightarrow> nat \<Rightarrow> nat \<Rightarrow> (sch, unit) K" where
  "exit_set c p l = thenK (set_pstate p ZOMBIE) (thenK (release c l) (set_tpc p (AtSched AfterExit)))"

text \<open>\<^verbatim>\<open>sched\<close> up to \<^verbatim>\<open>swtch\<close>, which continues the scheduler of this CPU, and after it.\<close>

definition sched :: "nat \<Rightarrow> nat \<Rightarrow> resume \<Rightarrow> (sch, unit) K" where
  "sched c p k =
     bindK (holding c p) (\<lambda>h.
     if \<not> h then panic ''sched p->lock''
     else bindK (getsK (\<lambda>s. noff (cpus s c))) (\<lambda>n.
     if n \<noteq> 1 then panic ''sched locks''
     else bindK (getsK (\<lambda>s. pstate s p)) (\<lambda>st.
     if st = RUNNING then panic ''sched RUNNING''
     else bindK (intr_get c) (\<lambda>on.
     if on then panic ''sched interruptible''
     else bindK (getsK (\<lambda>s. intena (cpus s c))) (\<lambda>ie.
       thenK (set_tpc p (Away k ie)) (set_spc c (Ran p)))))))"

definition sched_return :: "nat \<Rightarrow> nat \<Rightarrow> resume \<Rightarrow> bool \<Rightarrow> (sch, unit) K" where
  "sched_return c p k ie = thenK (whenK (k \<noteq> AtForkret) (set_cpu c (\<lambda>x. x\<lparr>intena := ie\<rparr>))) (set_tpc p (Tidy k))"

text \<open>What follows the call of \<^verbatim>\<open>sched\<close> in \<^verbatim>\<open>yield\<close>, \<^verbatim>\<open>sleep\<close> and \<^verbatim>\<open>kexit\<close>, and the start of \<^verbatim>\<open>forkret\<close>.\<close>

definition after_sched :: "nat \<Rightarrow> nat \<Rightarrow> resume \<Rightarrow> (sch, unit) K" where
  "after_sched c p k =
     (case k of
        AfterYield \<Rightarrow> thenK (release c p) (set_tpc p Body)
      | AfterSleep l \<Rightarrow> thenK (set_chan p None) (thenK (release c p) (set_tpc p (Reacquire l)))
      | AfterExit \<Rightarrow> panic ''zombie exit''
      | AtForkret \<Rightarrow> thenK (release c p) (set_tpc p Body))"

definition reacquire :: "nat \<Rightarrow> nat \<Rightarrow> nat \<Rightarrow> (sch, unit) K" where
  "reacquire c p l = thenK (acquire c l) (set_tpc p Body)"

definition thread_next :: "nat \<Rightarrow> nat \<Rightarrow> tpc \<Rightarrow> (sch, unit) K option" where
  "thread_next c p pc =
     (case pc of
        Body \<Rightarrow> None
      | YieldHave \<Rightarrow> Some (yield_set p)
      | SleepHave ch l \<Rightarrow> Some (sleep_release c p ch l)
      | SleepFree ch l \<Rightarrow> Some (sleep_set p ch l)
      | ExitHave l \<Rightarrow> Some (exit_set c p l)
      | AtSched k \<Rightarrow> Some (sched c p k)
      | Away k ie \<Rightarrow> None
      | Back k ie \<Rightarrow> Some (sched_return c p k ie)
      | Tidy k \<Rightarrow> Some (after_sched c p k)
      | Reacquire l \<Rightarrow> Some (reacquire c p l))"

subsection \<open>The scheduler\<close>

definition sched_window_end :: "nat \<Rightarrow> (sch, unit) K" where
  "sched_window_end c = thenK (intr_off c) (set_spc c (Scan 0 False))"

text \<open>\<^verbatim>\<open>swtch\<close> continues the thread of the process where it is away.\<close>

definition swtch_to :: "nat \<Rightarrow> (sch, unit) K" where
  "swtch_to p = modifyK (\<lambda>s. case tpc s p of Away k ie \<Rightarrow> s\<lparr>tpc := (tpc s)(p := Back k ie)\<rparr> | _ \<Rightarrow> s)"

definition scheduler_test :: "nat \<Rightarrow> nat \<Rightarrow> bool \<Rightarrow> (sch, unit) K" where
  "scheduler_test c p found =
     bindK (getsK (\<lambda>s. pstate s p)) (\<lambda>st.
     if st = RUNNABLE then
       thenK (set_pstate p RUNNING) (thenK (set_cproc c (Some p)) (thenK (set_spc c (In p)) (swtch_to p)))
     else thenK (release c p) (set_spc c (Scan (p + 1) found)))"

definition scheduler_next :: "nat \<Rightarrow> spc \<Rightarrow> (sch, unit) K option" where
  "scheduler_next c pc =
     (case pc of
        Window \<Rightarrow> None
      | Scan i found \<Rightarrow>
          if i < NPROC then Some (thenK (acquire c i) (set_spc c (Test i found)))
          else Some (thenK (intr_on c) (set_spc c Window))
      | Test i found \<Rightarrow> Some (scheduler_test c i found)
      | In i \<Rightarrow> None
      | Ran i \<Rightarrow> Some (thenK (set_cproc c None) (thenK (release c i) (set_spc c (Scan (i + 1) True)))))"

subsection \<open>Wakeup\<close>

definition wakeup_next :: "nat \<Rightarrow> chan \<times> nat \<times> bool \<Rightarrow> (sch, unit) K" where
  "wakeup_next c w =
     (case w of (ch, i, have) \<Rightarrow>
        if i \<ge> NPROC then set_wpc c None
        else if \<not> have then
          bindK (getsK (\<lambda>s. cproc s c)) (\<lambda>me.
          if me = Some i then set_wpc c (Some (ch, i + 1, False))
          else thenK (acquire c i) (set_wpc c (Some (ch, i, True))))
        else
          bindK (getsK (\<lambda>s. pstate s i = SLEEPING \<and> p_chan s i = Some ch)) (\<lambda>b.
          thenK (whenK b (set_pstate i RUNNABLE))
         (thenK (release c i) (set_wpc c (Some (ch, i + 1, False))))))"

subsection \<open>Changes of another process\<close>

text \<open>
  The critical sections of \<^verbatim>\<open>kkill\<close>, of the callers of \<^verbatim>\<open>freeproc\<close>, of \<^verbatim>\<open>allocproc\<close>, and of \<^verbatim>\<open>kfork\<close> where it makes the child
  runnable, as far as they concern the state, the channel and the saved context of the process.
\<close>

definition locked_change :: "nat \<Rightarrow> nat \<Rightarrow> (sch, unit) K \<Rightarrow> (sch, unit) K" where
  "locked_change c q f = thenK (acquire c q) (thenK f (release c q))"

definition kill_change :: "nat \<Rightarrow> (sch, unit) K" where
  "kill_change q = bindK (getsK (\<lambda>s. pstate s q)) (\<lambda>st. whenK (st = SLEEPING) (set_pstate q RUNNABLE))"

definition free_change :: "nat \<Rightarrow> (sch, unit) K" where
  "free_change q =
     bindK (getsK (\<lambda>s. pstate s q)) (\<lambda>st.
     whenK (st = ZOMBIE \<or> st = USED) (thenK (set_chan q None) (set_pstate q UNUSED)))"

definition alloc_change :: "nat \<Rightarrow> (sch, unit) K" where
  "alloc_change q =
     bindK (getsK (\<lambda>s. pstate s q)) (\<lambda>st.
     whenK (st = UNUSED) (thenK (set_pstate q USED) (set_tpc q (Away AtForkret False))))"

definition start_change :: "nat \<Rightarrow> (sch, unit) K" where
  "start_change q = bindK (getsK (\<lambda>s. pstate s q)) (\<lambda>st. whenK (st = USED) (set_pstate q RUNNABLE))"

definition changes :: "nat \<Rightarrow> (sch, unit) K set" where
  "changes q = {kill_change q, free_change q, alloc_change q, start_change q}"

subsection \<open>Interleaving\<close>

text \<open>A CPU runs code that may take and release locks, change other processes or call \<^verbatim>\<open>wakeup\<close>.\<close>

definition in_body :: "nat \<Rightarrow> sch \<Rightarrow> bool" where
  "in_body c s \<longleftrightarrow> wpc s c = None \<and> (case spc s c of In p \<Rightarrow> tpc s p = Body | Window \<Rightarrow> True | _ \<Rightarrow> False)"

definition who :: "sch \<Rightarrow> nat \<Rightarrow> nat option" where
  "who s l = lkcpu (lk s l)"

definition held :: "sch \<Rightarrow> nat \<Rightarrow> nat set" where
  "held s c = {l. who s l = Some c}"

inductive sched_step :: "(chan \<Rightarrow> nat) \<Rightarrow> sch \<Rightarrow> sch \<Rightarrow> bool" for clk where
  body_acquire: "in_body c s \<Longrightarrow> NPROC \<le> l \<Longrightarrow> l \<notin> held s c \<Longrightarrow> acquire c l s = Inr ((), s') \<Longrightarrow> sched_step clk s s'"
| body_release: "in_body c s \<Longrightarrow> NPROC \<le> l \<Longrightarrow> l \<in> held s c \<Longrightarrow> release c l s = Inr ((), s') \<Longrightarrow> sched_step clk s s'"
| body_change: "in_body c s \<Longrightarrow> q < NPROC \<Longrightarrow> f \<in> changes q \<Longrightarrow>
    locked_change c q f s = Inr ((), s') \<Longrightarrow> sched_step clk s s'"
| wakeup_call: "in_body c s \<Longrightarrow> set_wpc c (Some (ch, 0, False)) s = Inr ((), s') \<Longrightarrow> sched_step clk s s'"
| wakeup_loop: "wpc s c = Some w \<Longrightarrow> wakeup_next c w s = Inr ((), s') \<Longrightarrow> sched_step clk s s'"
| yield_call: "in_body c s \<Longrightarrow> spc s c = In p \<Longrightarrow> held s c = {} \<Longrightarrow> yield_enter c p s = Inr ((), s') \<Longrightarrow> sched_step clk s s'"
| sleep_call: "in_body c s \<Longrightarrow> spc s c = In p \<Longrightarrow> held s c = {clk ch} \<Longrightarrow> sleep_enter c p ch (clk ch) s = Inr ((), s') \<Longrightarrow>
    sched_step clk s s'"
| exit_call: "in_body c s \<Longrightarrow> spc s c = In p \<Longrightarrow> held s c = {l} \<Longrightarrow> exit_enter c p l s = Inr ((), s') \<Longrightarrow> sched_step clk s s'"
| thread: "wpc s c = None \<Longrightarrow> spc s c = In p \<Longrightarrow> thread_next c p (tpc s p) = Some f \<Longrightarrow> f s = Inr ((), s') \<Longrightarrow>
    sched_step clk s s'"
| window_end: "spc s c = Window \<Longrightarrow> wpc s c = None \<Longrightarrow> held s c = {} \<Longrightarrow> sched_window_end c s = Inr ((), s') \<Longrightarrow> sched_step clk s s'"
| scheduler: "scheduler_next c (spc s c) = Some f \<Longrightarrow> f s = Inr ((), s') \<Longrightarrow> sched_step clk s s'"

inductive sched_reach :: "(chan \<Rightarrow> nat) \<Rightarrow> sch \<Rightarrow> sch \<Rightarrow> bool" for clk where
  start: "sched_reach clk s s"
| step: "sched_reach clk s s' \<Longrightarrow> sched_step clk s' s'' \<Longrightarrow> sched_reach clk s s''"

text \<open>Before the first process: no lock held, no process running, every CPU at the top of its scheduler.\<close>

definition sched_boot :: "sch \<Rightarrow> bool" where
  "sched_boot s \<longleftrightarrow>
     (\<forall>l. locked (lk s l) = 0 \<and> who s l = None) \<and> (\<forall>c. noff (cpus s c) = 0 \<and> spc s c = Window \<and> wpc s c = None \<and> cproc s c = None) \<and>
     (\<forall>p. pstate s p = UNUSED \<and> p_chan s p = None \<and> tpc s p = Away AtForkret False)"

end
