(* ===== verification/Sched_Inv.thy ===== *)
theory Sched_Inv
  imports Sched
begin

section \<open>The invariant of the scheduling code\<close>

text \<open>
  Which locks a CPU holds follows from the positions of its scheduler, its thread and its call of \<^verbatim>\<open>wakeup\<close>; a process is
  \<^verbatim>\<open>RUNNING\<close> exactly when a CPU runs it; a call of \<^verbatim>\<open>wakeup\<close> under the condition lock has left nobody asleep behind it.
  Every step preserves this: \<open>sinv_step\<close> reduces a step of one CPU to what it does to that CPU and one process.
\<close>

subsection \<open>Locks\<close>

definition lock_ok :: "sch \<Rightarrow> bool" where
  "lock_ok s \<longleftrightarrow> (\<forall>l. locked (lk s l) \<noteq> 0 \<longleftrightarrow> who s l \<noteq> None) \<and>
     (\<forall>c. finite (held s c) \<and> noff (cpus s c) = int (card (held s c)) \<and> (0 < noff (cpus s c) \<longrightarrow> \<not> sie (cpus s c)))"

text \<open>The rest of the state, which the lock operations leave alone.\<close>

definition rest :: "sch \<Rightarrow> (nat \<Rightarrow> procstate) \<times> (nat \<Rightarrow> chan option) \<times> (nat \<Rightarrow> tpc) \<times> (nat \<Rightarrow> spc) \<times>
    (nat \<Rightarrow> (chan \<times> nat \<times> bool) option) \<times> (nat \<Rightarrow> nat option)" where
  "rest s = (pstate s, p_chan s, tpc s, spc s, wpc s, cproc s)"

lemma acquire_step:
  assumes "acquire c l s = Inr ((), s')" "lock_ok s"
  shows "who s l = None" "who s' = (who s)(l := Some c)" "lock_ok s'" "rest s' = rest s"
proof -
  have free: "locked (lk s l) = 0" using assms(1)
    by (auto simp: acquire_def lock_defs run_simps split: if_splits)
  then show w: "who s l = None" using assms(2) by (auto simp: lock_ok_def)
  have s': "s' = s\<lparr>lk := (lk s)(l := (lk s l)\<lparr>locked := 1, lkcpu := Some c\<rparr>),
      cpus := (cpus s)(c := (cpus s c)\<lparr>noff := noff (cpus s c) + 1, sie := False,
        intena := if noff (cpus s c) = 0 then sie (cpus s c) else intena (cpus s c)\<rparr>)\<rparr>"
    using assms(1) free by (cases "cpus s c"; cases "lk s l") (auto simp: acquire_def lock_defs run_simps)
  show who': "who s' = (who s)(l := Some c)" by (auto simp: s' who_def)
  show "rest s' = rest s" by (simp add: s' rest_def)
  have "held s' d = (if d = c then insert l (held s c) else held s d)" for d using w by (auto simp: held_def who')
  moreover have "l \<notin> held s c" using w by (simp add: held_def)
  ultimately show "lock_ok s'" using assms(2) w by (auto simp: lock_ok_def s' who_def)
qed

lemma acquire_total: "lock_ok s \<Longrightarrow> who s l = None \<Longrightarrow> \<exists>s'. acquire c l s = Inr ((), s')"
  by (auto simp: acquire_def lock_defs run_simps lock_ok_def who_def)

lemma acquire_no_panic: "lock_ok s \<Longrightarrow> who s l \<noteq> Some c \<Longrightarrow> acquire c l s \<noteq> Inl (Panic m)"
  by (auto simp: acquire_def lock_defs run_simps who_def)

lemma release_run:
  assumes "who s l = Some c" "lock_ok s"
  shows "\<exists>s'. release c l s = Inr ((), s') \<and> who s' = (who s)(l := None) \<and> lock_ok s' \<and> rest s' = rest s"
proof -
  have l: "l \<in> held s c" using assms(1) by (simp add: held_def)
  then have "0 < card (held s c)" using assms(2) by (auto simp: lock_ok_def card_gt_0_iff)
  then have n: "1 \<le> noff (cpus s c)" "\<not> sie (cpus s c)" "locked (lk s l) \<noteq> 0" using assms by (auto simp: lock_ok_def)
  let ?s = "s\<lparr>lk := (lk s)(l := (lk s l)\<lparr>locked := 0, lkcpu := None\<rparr>),
      cpus := (cpus s)(c := (cpus s c)\<lparr>noff := noff (cpus s c) - 1, sie := noff (cpus s c) = 1 \<and> intena (cpus s c)\<rparr>)\<rparr>"
  have "release c l s = Inr ((), ?s)"
    using assms(1) n by (cases "cpus s c"; cases "lk s l") (auto simp: release_def lock_defs run_simps who_def)
  moreover have w: "who ?s = (who s)(l := None)" by (auto simp: who_def)
  moreover have "held ?s d = (if d = c then held s c - {l} else held s d)" for d using assms(1) by (auto simp: held_def w)
  then have "lock_ok ?s" using assms(2) n l by (auto simp: lock_ok_def w) (auto simp: who_def)
  ultimately show ?thesis by (intro exI [of _ ?s]) (simp add: rest_def)
qed

lemma lock_fields [simp]:
  "who (s\<lparr>pstate := a\<rparr>) = who s" "who (s\<lparr>p_chan := b\<rparr>) = who s" "who (s\<lparr>tpc := t\<rparr>) = who s" "who (s\<lparr>spc := x\<rparr>) = who s"
  "who (s\<lparr>wpc := w\<rparr>) = who s" "who (s\<lparr>cproc := k\<rparr>) = who s"
  "lock_ok (s\<lparr>pstate := a\<rparr>) = lock_ok s" "lock_ok (s\<lparr>p_chan := b\<rparr>) = lock_ok s" "lock_ok (s\<lparr>tpc := t\<rparr>) = lock_ok s"
  "lock_ok (s\<lparr>spc := x\<rparr>) = lock_ok s" "lock_ok (s\<lparr>wpc := w\<rparr>) = lock_ok s" "lock_ok (s\<lparr>cproc := k\<rparr>) = lock_ok s"
  by (simp_all add: who_def lock_ok_def held_def fun_eq_iff)

lemma rest_fields: "rest s' = rest s \<Longrightarrow>
    pstate s' = pstate s \<and> p_chan s' = p_chan s \<and> tpc s' = tpc s \<and> spc s' = spc s \<and> wpc s' = wpc s \<and> cproc s' = cproc s"
  by (simp add: rest_def)

lemmas set_defs = set_tpc_def set_spc_def set_wpc_def set_cproc_def set_pstate_def set_chan_def

subsection \<open>The invariant\<close>

fun owns_lock :: "tpc \<Rightarrow> bool" where
  "owns_lock Body = False"
| "owns_lock (Reacquire l) = False"
| "owns_lock _ = True"

fun is_away :: "tpc \<Rightarrow> bool" where
  "is_away (Away k ie) = True"
| "is_away _ = False"

fun at_sched :: "tpc \<Rightarrow> bool" where
  "at_sched (AtSched k) = True"
| "at_sched _ = False"

text \<open>The condition lock that a thread in \<^verbatim>\<open>sleep\<close> is going to acquire again.\<close>

fun resume_lock :: "resume \<Rightarrow> nat option" where
  "resume_lock (AfterSleep l) = Some l"
| "resume_lock _ = None"

fun cond_lock :: "tpc \<Rightarrow> nat option" where
  "cond_lock (SleepHave ch l) = Some l"
| "cond_lock (SleepFree ch l) = Some l"
| "cond_lock (AtSched k) = resume_lock k"
| "cond_lock (Away k ie) = resume_lock k"
| "cond_lock (Back k ie) = resume_lock k"
| "cond_lock (Tidy k) = resume_lock k"
| "cond_lock (Reacquire l) = Some l"
| "cond_lock _ = None"

text \<open>The locks of processes that a CPU holds, and the other locks it may hold.\<close>

definition low :: "sch \<Rightarrow> nat \<Rightarrow> nat set" where
  "low s c =
     (case wpc s c of Some (ch, i, True) \<Rightarrow> {i} | _ \<Rightarrow> {}) \<union>
     (case spc s c of Test i _ \<Rightarrow> {i} | Ran i \<Rightarrow> {i} | In p \<Rightarrow> (if owns_lock (tpc s p) then {p} else {}) | _ \<Rightarrow> {})"

definition high :: "sch \<Rightarrow> nat \<Rightarrow> nat \<Rightarrow> bool" where
  "high s c l =
     (case spc s c of
        Window \<Rightarrow> True
      | In p \<Rightarrow> (case tpc s p of Body \<Rightarrow> True | SleepHave ch m \<Rightarrow> l = m | ExitHave m \<Rightarrow> l = m | _ \<Rightarrow> False)
      | _ \<Rightarrow> False)"

definition place_ok :: "(chan \<Rightarrow> nat) \<Rightarrow> sch \<Rightarrow> nat \<Rightarrow> bool" where
  "place_ok clk s c =
     (case spc s c of
        Window \<Rightarrow> cproc s c = None
      | Scan i _ \<Rightarrow> cproc s c = None \<and> i \<le> 64
      | Test i _ \<Rightarrow> cproc s c = None \<and> i < 64
      | Ran p \<Rightarrow> cproc s c = Some p \<and> p < 64
      | In p \<Rightarrow> cproc s c = Some p \<and> p < 64 \<and> \<not> is_away (tpc s p) \<and>
          (case tpc s p of SleepHave ch l \<Rightarrow> l = clk ch \<and> 64 \<le> l \<and> who s l = Some c | ExitHave l \<Rightarrow> 64 \<le> l \<and> who s l = Some c | _ \<Rightarrow> True))"

definition cpu_ok :: "(chan \<Rightarrow> nat) \<Rightarrow> sch \<Rightarrow> nat \<Rightarrow> bool" where
  "cpu_ok clk s c \<longleftrightarrow>
     (\<forall>l < 64. who s l = Some c \<longleftrightarrow> l \<in> low s c) \<and> (\<forall>l \<ge> 64. who s l = Some c \<longrightarrow> high s c l) \<and>
     (\<forall>ch i b. wpc s c = Some (ch, i, b) \<longrightarrow> i \<le> 64 \<and> (b \<longrightarrow> i < 64 \<and> cproc s c \<noteq> Some i) \<and>
        (case spc s c of In p \<Rightarrow> tpc s p = Body | Window \<Rightarrow> True | _ \<Rightarrow> False)) \<and>
     place_ok clk s c"

definition thr_ok :: "sch \<Rightarrow> nat \<Rightarrow> bool" where
  "thr_ok s p \<longleftrightarrow>
     (\<not> is_away (tpc s p) \<longrightarrow> (\<exists>c. spc s c = In p)) \<and>
     (pstate s p = RUNNING \<longleftrightarrow> \<not> is_away (tpc s p) \<and> \<not> at_sched (tpc s p)) \<and>
     (tpc s p = AtSched AfterExit \<longrightarrow> pstate s p = ZOMBIE) \<and>
     (\<forall>ie. tpc s p = Away AfterExit ie \<longrightarrow> pstate s p = ZOMBIE \<or> pstate s p = UNUSED) \<and>
     (\<forall>ie. tpc s p \<noteq> Back AfterExit ie) \<and> tpc s p \<noteq> Tidy AfterExit \<and>
     (\<forall>l. cond_lock (tpc s p) = Some l \<longrightarrow> 64 \<le> l)"

text \<open>Asleep on a channel, or past the point of \<^verbatim>\<open>sleep\<close> where the condition lock is released.\<close>

definition drowsy :: "sch \<Rightarrow> nat \<Rightarrow> chan \<Rightarrow> bool" where
  "drowsy s q ch \<longleftrightarrow> pstate s q = SLEEPING \<and> p_chan s q = Some ch \<or> (\<exists>l. tpc s q = SleepFree ch l)"

definition wake_ok :: "(chan \<Rightarrow> nat) \<Rightarrow> sch \<Rightarrow> nat \<Rightarrow> bool" where
  "wake_ok clk s c \<longleftrightarrow> (\<forall>ch i b q. wpc s c = Some (ch, i, b) \<longrightarrow> who s (clk ch) = Some c \<longrightarrow> q < i \<longrightarrow> q < 64 \<longrightarrow>
     cproc s c \<noteq> Some q \<longrightarrow> \<not> drowsy s q ch)"

definition sinv :: "(chan \<Rightarrow> nat) \<Rightarrow> sch \<Rightarrow> bool" where
  "sinv clk s \<longleftrightarrow> lock_ok s \<and> (\<forall>c. cpu_ok clk s c) \<and> (\<forall>p < 64. thr_ok s p) \<and>
     (\<forall>c d p. spc s c = In p \<longrightarrow> spc s d = In p \<longrightarrow> c = d) \<and> (\<forall>c. wake_ok clk s c)"

lemma cpu_frame:
  assumes "cpu_ok clk s d" "spc s' d = spc s d" "wpc s' d = wpc s d" "cproc s' d = cproc s d"
    and "\<And>l. who s' l = Some d \<longleftrightarrow> who s l = Some d" "\<And>p. spc s d = In p \<Longrightarrow> tpc s' p = tpc s p"
  shows "cpu_ok clk s' d"
proof -
  have "low s' d = low s d" "high s' d = high s d" using assms(2,3,6) by (auto simp: low_def high_def split: spc.splits)
  moreover have "place_ok clk s' d = place_ok clk s d"
    using assms(2,4,5,6) by (auto simp: place_ok_def split: spc.splits tpc.splits)
  ultimately show ?thesis using assms(1,2,3,4,5,6) by (auto simp: cpu_ok_def split: spc.splits)
qed

text \<open>A step of CPU \<open>c\<close> that concerns process \<open>p\<close>.\<close>

lemma sinv_step:
  assumes inv: "sinv clk s" and lk: "lock_ok s'"
    and others: "\<And>d. d \<noteq> c \<Longrightarrow> spc s' d = spc s d" "\<And>d. d \<noteq> c \<Longrightarrow> wpc s' d = wpc s d" "\<And>d. d \<noteq> c \<Longrightarrow> cproc s' d = cproc s d"
      "\<And>d l. d \<noteq> c \<Longrightarrow> who s' l = Some d \<longleftrightarrow> who s l = Some d"
    and same: "\<And>q. q \<noteq> p \<Longrightarrow> pstate s' q = pstate s q" "\<And>q. q \<noteq> p \<Longrightarrow> p_chan s' q = p_chan s q" "\<And>q. q \<noteq> p \<Longrightarrow> tpc s' q = tpc s q"
      "\<And>q. q \<noteq> p \<Longrightarrow> spc s' c = In q \<longleftrightarrow> spc s c = In q"
    and nobody: "\<And>d. d \<noteq> c \<Longrightarrow> spc s d = In p \<Longrightarrow> tpc s' p = tpc s p \<and> (spc s' c = In p \<longrightarrow> spc s c = In p)"
    and here: "cpu_ok clk s' c" "p < 64 \<Longrightarrow> thr_ok s' p" "wake_ok clk s' c"
    and asleep: "\<And>ch. drowsy s' p ch \<Longrightarrow> drowsy s p ch \<or> who s (clk ch) = Some c"
  shows "sinv clk s'"
proof -
  have "cpu_ok clk s' d" for d
  proof (cases "d = c")
    case False
    have "tpc s' q = tpc s q" if "spc s d = In q" for q using that same(3) nobody [OF False] by (cases "q = p") auto
    with False others inv show ?thesis by (intro cpu_frame [of clk s d s']) (auto simp: sinv_def)
  qed (use here in simp)
  moreover have "thr_ok s' q" if q: "q < 64" for q
  proof (cases "q = p")
    case False
    have t: "thr_ok s q" using inv q by (simp add: sinv_def)
    have "\<exists>d. spc s' d = In q" if "spc s d = In q" for d using that others(1) [of d] same(4) [OF False]
      by (intro exI [of _ d]) (cases "d = c"; simp)
    with t same [OF False] show ?thesis by (auto simp: thr_ok_def)
  qed (use here q in simp)
  moreover have "a = b" if ab: "spc s' a = In q" "spc s' b = In q" for a b q
  proof (cases "q = p")
    case True
    have "spc s x = In p" if xy: "spc s' x = In p" "spc s' y = In p" "x \<noteq> y" for x y
    proof (cases "x = c")
      case True
      then have "spc s y = In p" using others(1) [of y] xy by simp
      then show ?thesis using nobody [of y] xy True by simp
    qed (use others(1) [of x] xy in simp)
    then have "a \<noteq> b \<Longrightarrow> spc s a = In p \<and> spc s b = In p" using ab True by blast
    then show ?thesis using inv unfolding sinv_def by blast
  next
    case False
    have "spc s x = In q" if "spc s' x = In q" for x using that others(1) [of x] same(4) [OF False] by (cases "x = c") simp_all
    then show ?thesis using ab inv unfolding sinv_def by blast
  qed
  moreover have "wake_ok clk s' d" for d
  proof (cases "d = c")
    case False
    have w: "wake_ok clk s d" using inv by (simp add: sinv_def)
    have "drowsy s q ch \<or> who s (clk ch) \<noteq> Some d" if "drowsy s' q ch" for q ch
      using that same [of q] asleep [of ch] False by (cases "q = p") (auto simp: drowsy_def)
    then show ?thesis using w others(2-4) [OF False] unfolding wake_ok_def by metis
  qed (use here in simp)
  ultimately show ?thesis using lk by (simp add: sinv_def)
qed

text \<open>Steps that only take or release a lock.\<close>

lemma sinv_locks:
  assumes "sinv clk s" "lock_ok s'" "rest s' = rest s" "cpu_ok clk s' c" "wpc s c = None"
    and "\<And>d l. d \<noteq> c \<Longrightarrow> who s' l = Some d \<longleftrightarrow> who s l = Some d"
  shows "sinv clk s'"
proof (rule sinv_step [where c = c and p = 64, OF assms(1,2)])
  have r: "pstate s' = pstate s" "p_chan s' = p_chan s" "tpc s' = tpc s" "spc s' = spc s" "wpc s' = wpc s" "cproc s' = cproc s"
    using rest_fields [OF assms(3)] by auto
  show "wake_ok clk s' c" by (simp add: wake_ok_def r assms(5))
  show "drowsy s' 64 ch \<Longrightarrow> drowsy s 64 ch \<or> who s (clk ch) = Some c" for ch by (simp add: drowsy_def r)
qed (use assms rest_fields [OF assms(3)] in auto)

lemma step_body_acquire:
  assumes "sinv clk s" "in_body c s" "64 \<le> l" "acquire c l s = Inr ((), s')"
  shows "sinv clk s'"
proof -
  have lk: "lock_ok s" and ok: "cpu_ok clk s c" using assms(1) by (auto simp: sinv_def)
  note a = acquire_step [OF assms(4) lk]
  note r = rest_fields [OF a(4)]
  have "cpu_ok clk s' c" using ok assms(2,3) a(2) r
    by (auto simp: cpu_ok_def low_def high_def place_ok_def in_body_def split: spc.splits tpc.splits)
  then show ?thesis using assms a by (intro sinv_locks [of clk s s' c]) (auto simp: in_body_def)
qed

lemma step_body_release:
  assumes "sinv clk s" "in_body c s" "64 \<le> l" "l \<in> held s c" "release c l s = Inr ((), s')"
  shows "sinv clk s'"
proof -
  have lk: "lock_ok s" and ok: "cpu_ok clk s c" and w: "who s l = Some c" using assms(1,4) by (auto simp: sinv_def held_def)
  have a: "who s' = (who s)(l := None)" "lock_ok s'" "rest s' = rest s" using release_run [OF w lk] assms(5) by auto
  note r = rest_fields [OF a(3)]
  have "cpu_ok clk s' c" using ok assms(2,3) a(1) r
    by (auto simp: cpu_ok_def low_def high_def place_ok_def in_body_def split: spc.splits tpc.splits)
  then show ?thesis using assms a w by (intro sinv_locks [of clk s s' c]) (auto simp: in_body_def)
qed

text \<open>Steps of the thread that a CPU runs.\<close>

lemma sinv_own:
  assumes inv: "sinv clk s" and run: "spc s c = In p" "wpc s c = None" and lk: "lock_ok s'"
    and fields: "pstate s' = (pstate s)(p := a)" "p_chan s' = (p_chan s)(p := b)" "tpc s' = (tpc s)(p := t)" "spc s' = (spc s)(c := x)"
      "wpc s' = wpc s" "cproc s' = cproc s" "x = In p \<or> x = Ran p"
    and others: "\<And>d l. d \<noteq> c \<Longrightarrow> who s' l = Some d \<longleftrightarrow> who s l = Some d"
    and here: "cpu_ok clk s' c" "thr_ok s' p"
    and asleep: "\<And>ch. drowsy s' p ch \<Longrightarrow> drowsy s p ch \<or> who s (clk ch) = Some c"
  shows "sinv clk s'"
proof (rule sinv_step [where c = c and p = p, OF inv lk _ _ _ others _ _ _ _ _ here(1) _ _ asleep])
  fix d assume "d \<noteq> c" "spc s d = In p"
  then show "tpc s' p = tpc s p \<and> (spc s' c = In p \<longrightarrow> spc s c = In p)" using inv run unfolding sinv_def by metis
qed (use assms in \<open>auto simp: wake_ok_def\<close>)

lemma own_facts:
  assumes "sinv clk s" "spc s c = In p" "wpc s c = None"
  shows "lock_ok s" "p < 64" "cproc s c = Some p" "thr_ok s p" "\<not> is_away (tpc s p)" "who s p = Some c \<longleftrightarrow> owns_lock (tpc s p)"
    "\<And>l. l < 64 \<Longrightarrow> l \<noteq> p \<Longrightarrow> who s l \<noteq> Some c" "\<And>l. 64 \<le> l \<Longrightarrow> who s l = Some c \<Longrightarrow> high s c l" "place_ok clk s c"
proof -
  have ok: "cpu_ok clk s c" using assms(1) by (simp add: sinv_def)
  then show pl: "place_ok clk s c" by (simp add: cpu_ok_def)
  then show p: "p < 64" "cproc s c = Some p" "\<not> is_away (tpc s p)" using assms(2) by (auto simp: place_ok_def)
  then show "lock_ok s" "thr_ok s p" using assms(1) by (auto simp: sinv_def)
  show "who s p = Some c \<longleftrightarrow> owns_lock (tpc s p)" "\<And>l. l < 64 \<Longrightarrow> l \<noteq> p \<Longrightarrow> who s l \<noteq> Some c"
    "\<And>l. 64 \<le> l \<Longrightarrow> who s l = Some c \<Longrightarrow> high s c l"
    using ok p assms(2,3) by (auto simp: cpu_ok_def low_def)
qed

lemma cpu_ok_own:
  assumes "spc s c = In p" "wpc s c = None" "p < 64" "cproc s c = Some p" "who s p = Some c \<longleftrightarrow> owns_lock (tpc s p)"
    "\<And>l. l < 64 \<Longrightarrow> l \<noteq> p \<Longrightarrow> who s l \<noteq> Some c" "\<And>l. 64 \<le> l \<Longrightarrow> who s l = Some c \<Longrightarrow> high s c l" "place_ok clk s c"
  shows "cpu_ok clk s c"
  using assms by (auto simp: cpu_ok_def low_def)

text \<open>The start of \<^verbatim>\<open>yield\<close>, \<^verbatim>\<open>sleep\<close> and \<^verbatim>\<open>kexit\<close>: the thread acquires the lock of its process.\<close>

lemma step_call:
  assumes inv: "sinv clk s" and body: "in_body c s" "spc s c = In p" and s': "thenK (acquire c p) (set_tpc p t) s = Inr ((), s')"
    and t: "owns_lock t" "\<not> is_away t" "\<not> at_sched t" "\<And>k ie. t \<noteq> Back k ie" "\<And>k. t \<noteq> Tidy k" "\<And>ch l. t \<noteq> SleepFree ch l"
    and locks: "\<And>l. 64 \<le> l \<Longrightarrow> who s l = Some c \<Longrightarrow> (case t of SleepHave ch m \<Rightarrow> l = m | ExitHave m \<Rightarrow> l = m | _ \<Rightarrow> False)"
      "\<And>ch l. t = SleepHave ch l \<Longrightarrow> l = clk ch \<and> who s l = Some c" "\<And>l. t = ExitHave l \<Longrightarrow> who s l = Some c"
  shows "sinv clk s'"
proof -
  have b: "wpc s c = None" "tpc s p = Body" using body by (auto simp: in_body_def)
  note f = own_facts [OF inv body(2) b(1)]
  obtain s1 where s1: "acquire c p s = Inr ((), s1)" "s' = s1\<lparr>tpc := (tpc s1)(p := t)\<rparr>"
    using s' by (auto simp: run_simps set_defs split: sum.splits prod.splits)
  note a = acquire_step [OF s1(1) f(1)]
  note r = rest_fields [OF a(4)]
  have nl: "64 \<le> l" if "who s l = Some c" for l using f(6) f(7) [of l] that b(2) a(1) by (cases "l = p"; cases "l < 64") auto
  have other: "who s' l = Some d \<longleftrightarrow> who s l = Some d" if "d \<noteq> c" for d l using that a(1,2) by (auto simp: s1(2))
  have "cpu_ok clk s' c"
  proof (rule cpu_ok_own [of _ _ p])
    show "high s' c l" if "64 \<le> l" "who s' l = Some c" for l
      using that locks(1) [of l] f(2) a(2) r body(2) t by (cases t) (auto simp: s1(2) high_def)
    show "place_ok clk s' c" using f(2,3) a(2) r body(2) t locks(2,3) nl
      by (cases t) (auto simp: s1(2) place_ok_def)
  qed (use f b r a(2) body(2) t in \<open>auto simp: s1(2)\<close>)
  moreover have "64 \<le> l" if "cond_lock t = Some l" for l using that t locks(2) nl by (cases t) auto
  then have "thr_ok s' p" using f(4) b r body(2) t by (auto simp: thr_ok_def s1(2))
  ultimately show ?thesis using r a other t(6)
    by (intro sinv_own [of clk s c p s' "pstate s p" "p_chan s p" t "In p", OF inv body(2) b(1)])
       (auto simp: s1(2) drowsy_def body(2) fun_upd_idem)
qed

text \<open>The steps inside these functions.\<close>

lemma step_yield_set:
  assumes inv: "sinv clk s" and run: "spc s c = In p" "wpc s c = None" "tpc s p = YieldHave" and s': "yield_set p s = Inr ((), s')"
  shows "sinv clk s'"
proof -
  note f = own_facts [OF inv run(1,2)]
  have s': "s' = s\<lparr>pstate := (pstate s)(p := RUNNABLE), tpc := (tpc s)(p := AtSched AfterYield)\<rparr>"
    using s' by (auto simp: yield_set_def set_defs run_simps)
  have "cpu_ok clk s' c" by (rule cpu_ok_own [of _ _ p]) (use f run in \<open>auto simp: s' high_def place_ok_def\<close>)
  moreover have "thr_ok s' p" using f(4) run by (auto simp: thr_ok_def s')
  ultimately show ?thesis using f
    by (intro sinv_own [of clk s c p s' RUNNABLE "p_chan s p" "AtSched AfterYield" "In p", OF inv run(1,2)])
       (auto simp: s' drowsy_def run fun_upd_idem)
qed

lemma step_sleep_release:
  assumes inv: "sinv clk s" and run: "spc s c = In p" "wpc s c = None" "tpc s p = SleepHave ch l"
    and s': "sleep_release c p ch l s = Inr ((), s')"
  shows "sinv clk s'"
proof -
  note f = own_facts [OF inv run(1,2)]
  have l: "who s l = Some c" "64 \<le> l" "l = clk ch" using f(9) run by (auto simp: place_ok_def)
  obtain s1 where s1: "who s1 = (who s)(l := None)" "lock_ok s1" "rest s1 = rest s" "s' = s1\<lparr>tpc := (tpc s1)(p := SleepFree ch l)\<rparr>"
    using s' release_run [OF l(1) f(1)] by (auto simp: sleep_release_def run_simps set_defs)
  note r = rest_fields [OF s1(3)]
  have only: "m = l" if "64 \<le> m" "who s m = Some c" for m using f(8) [OF that] run by (simp add: high_def)
  have "cpu_ok clk s' c"
  proof (rule cpu_ok_own [of _ _ p])
    show "high s' c m" if "64 \<le> m" "who s' m = Some c" for m using that only [of m] by (simp add: s1(1,4) split: if_splits)
    show "who s' m \<noteq> Some c" if "m < 64" "m \<noteq> p" for m using that f(7) [of m] by (simp add: s1(1,4))
    show "place_ok clk s' c" using f(2,3) run r by (simp add: s1(4) place_ok_def)
    show "who s' p = Some c \<longleftrightarrow> owns_lock (tpc s' p)" using f(2,6) run l(2) by (simp add: s1(1,4))
  qed (use f(2,3) run r in \<open>simp_all add: s1(4)\<close>)
  moreover have "thr_ok s' p" using f(4) run r l(2) by (auto simp: thr_ok_def s1(4))
  ultimately show ?thesis using r s1(2) l
    by (intro sinv_own [of clk s c p s' "pstate s p" "p_chan s p" "SleepFree ch l" "In p", OF inv run(1,2)])
       (auto simp: s1(1,4) drowsy_def run fun_upd_idem)
qed

lemma step_sleep_set:
  assumes inv: "sinv clk s" and run: "spc s c = In p" "wpc s c = None" "tpc s p = SleepFree ch l"
    and s': "sleep_set p ch l s = Inr ((), s')"
  shows "sinv clk s'"
proof -
  note f = own_facts [OF inv run(1,2)]
  have s': "s' = s\<lparr>p_chan := (p_chan s)(p := Some ch), pstate := (pstate s)(p := SLEEPING), tpc := (tpc s)(p := AtSched (AfterSleep l))\<rparr>"
    using s' by (auto simp: sleep_set_def set_defs run_simps)
  have "cpu_ok clk s' c" by (rule cpu_ok_own [of _ _ p]) (use f run in \<open>auto simp: s' high_def place_ok_def\<close>)
  moreover have "thr_ok s' p" using f(4) run by (auto simp: thr_ok_def s')
  ultimately show ?thesis using f
    by (intro sinv_own [of clk s c p s' SLEEPING "Some ch" "AtSched (AfterSleep l)" "In p", OF inv run(1,2)])
       (auto simp: s' drowsy_def run fun_upd_idem)
qed

lemma step_exit_set:
  assumes inv: "sinv clk s" and run: "spc s c = In p" "wpc s c = None" "tpc s p = ExitHave l"
    and s': "exit_set c p l s = Inr ((), s')"
  shows "sinv clk s'"
proof -
  note f = own_facts [OF inv run(1,2)]
  let ?z = "s\<lparr>pstate := (pstate s)(p := ZOMBIE)\<rparr>"
  have l: "who ?z l = Some c" "64 \<le> l" using f(9) run by (auto simp: place_ok_def)
  obtain s1 where s1: "who s1 = (who s)(l := None)" "lock_ok s1" "rest s1 = rest ?z" "s' = s1\<lparr>tpc := (tpc s1)(p := AtSched AfterExit)\<rparr>"
    using s' release_run [OF l(1)] f(1) by (auto simp: exit_set_def run_simps set_defs)
  have r: "pstate s1 = (pstate s)(p := ZOMBIE)" "p_chan s1 = p_chan s" "tpc s1 = tpc s" "spc s1 = spc s" "wpc s1 = wpc s" "cproc s1 = cproc s"
    using rest_fields [OF s1(3)] by auto
  have only: "m = l" if "64 \<le> m" "who s m = Some c" for m using f(8) [OF that] run by (simp add: high_def)
  have "cpu_ok clk s' c"
  proof (rule cpu_ok_own [of _ _ p])
    show "high s' c m" if "64 \<le> m" "who s' m = Some c" for m using that only [of m] by (simp add: s1(1,4) split: if_splits)
    show "who s' m \<noteq> Some c" if "m < 64" "m \<noteq> p" for m using that f(7) [of m] by (simp add: s1(1,4))
    show "place_ok clk s' c" using f(2,3) run r by (simp add: s1(4) place_ok_def)
    show "who s' p = Some c \<longleftrightarrow> owns_lock (tpc s' p)" using f(2,6) run l(2) by (simp add: s1(1,4))
  qed (use f(2,3) run r in \<open>simp_all add: s1(4)\<close>)
  moreover have "thr_ok s' p" using f(4) run r l(2) by (auto simp: thr_ok_def s1(4))
  ultimately show ?thesis using r s1(2) l
    by (intro sinv_own [of clk s c p s' ZOMBIE "p_chan s p" "AtSched AfterExit" "In p", OF inv run(1,2)])
       (auto simp: s1(1,4) drowsy_def run fun_upd_idem)
qed

lemma sched_run:
  assumes inv: "sinv clk s" and run: "spc s c = In p" "wpc s c = None" "tpc s p = AtSched k"
  shows "sched c p k s = Inr ((), s\<lparr>tpc := (tpc s)(p := Away k (intena (cpus s c))), spc := (spc s)(c := Ran p)\<rparr>)"
proof -
  note f = own_facts [OF inv run(1,2)]
  have w: "who s p = Some c" using f(6) run by simp
  have "\<not> high s c l" for l using run by (simp add: high_def)
  then have "l = p" if "who s l = Some c" for l using that f(7,8) [of l] by (cases "l < 64") auto
  then have "held s c = {p}" using w unfolding held_def by blast
  then have "noff (cpus s c) = 1" "\<not> sie (cpus s c)" using f(1) by (auto simp: lock_ok_def)
  moreover have "locked (lk s p) \<noteq> 0" using f(1) w by (auto simp: lock_ok_def)
  moreover have "pstate s p \<noteq> RUNNING" using f(4) run by (auto simp: thr_ok_def)
  ultimately show ?thesis using w by (simp add: sched_def lock_defs set_defs run_simps who_def)
qed

lemma step_sched:
  assumes inv: "sinv clk s" and run: "spc s c = In p" "wpc s c = None" "tpc s p = AtSched k" and s': "sched c p k s = Inr ((), s')"
  shows "sinv clk s'"
proof -
  note f = own_facts [OF inv run(1,2)]
  have s': "s' = s\<lparr>tpc := (tpc s)(p := Away k (intena (cpus s c))), spc := (spc s)(c := Ran p)\<rparr>"
    using s' sched_run [OF inv run] by simp
  have "\<not> high s c l" for l using run by (simp add: high_def)
  then have "cpu_ok clk s' c" using f(2,3,6,7,8) run by (auto simp: cpu_ok_def low_def place_ok_def s')
  moreover have "thr_ok s' p" using f(4) run by (auto simp: thr_ok_def s')
  ultimately show ?thesis using f(1)
    by (intro sinv_own [of clk s c p s' "pstate s p" "p_chan s p" "Away k (intena (cpus s c))" "Ran p", OF inv run(1,2)])
       (auto simp: s' drowsy_def run)
qed

lemma set_intena: "set_cpu c (\<lambda>x. x\<lparr>intena := ie\<rparr>) s = Inr ((), s') \<Longrightarrow>
    who s' = who s \<and> lock_ok s' = lock_ok s \<and> rest s' = rest s"
proof -
  assume "set_cpu c (\<lambda>x. x\<lparr>intena := ie\<rparr>) s = Inr ((), s')"
  then have s': "s' = s\<lparr>cpus := (cpus s)(c := (cpus s c)\<lparr>intena := ie\<rparr>)\<rparr>" by (auto simp: set_cpu_def run_simps)
  then have "noff (cpus s' d) = noff (cpus s d)" "sie (cpus s' d) = sie (cpus s d)" for d by auto
  then show ?thesis by (simp add: lock_ok_def held_def) (simp add: s' who_def rest_def fun_eq_iff)
qed

lemma step_sched_return:
  assumes inv: "sinv clk s" and run: "spc s c = In p" "wpc s c = None" "tpc s p = Back k ie"
    and s': "sched_return c p k ie s = Inr ((), s')"
  shows "sinv clk s'"
proof -
  note f = own_facts [OF inv run(1,2)]
  obtain s1 where s1: "who s1 = who s" "lock_ok s1 = lock_ok s" "rest s1 = rest s" "s' = s1\<lparr>tpc := (tpc s1)(p := Tidy k)\<rparr>"
    using s' set_intena [of c ie s] by (auto simp: sched_return_def set_tpc_def run_simps whenK_def split: if_splits sum.splits prod.splits)
  note r = rest_fields [OF s1(3)]
  have "\<not> high s c l" for l using run by (simp add: high_def)
  then have "cpu_ok clk s' c"
    by (intro cpu_ok_own [of _ _ p]) (use f run r in \<open>auto simp: s1(1,4) place_ok_def\<close>)
  moreover have "thr_ok s' p" using f(4) run r by (auto simp: thr_ok_def s1(4))
  ultimately show ?thesis using f(1) r s1(2)
    by (intro sinv_own [of clk s c p s' "pstate s p" "p_chan s p" "Tidy k" "In p", OF inv run(1,2)])
       (auto simp: s1(1,4) drowsy_def run fun_upd_idem)
qed

text \<open>The release of the lock of the process, back in the thread.\<close>

lemma step_unlock:
  assumes inv: "sinv clk s" and run: "spc s c = In p" "wpc s c = None" "tpc s p = Tidy k"
    and s': "thenK (set_chan p b) (thenK (release c p) (set_tpc p t)) s = Inr ((), s')"
    and t: "t = Body \<or> (\<exists>l. t = Reacquire l \<and> k = AfterSleep l)"
  shows "sinv clk s'"
proof -
  note f = own_facts [OF inv run(1,2)]
  let ?z = "s\<lparr>p_chan := (p_chan s)(p := b)\<rparr>"
  have w: "who ?z p = Some c" using f(6) run by simp
  obtain s1 where s1: "who s1 = (who s)(p := None)" "lock_ok s1" "rest s1 = rest ?z" "s' = s1\<lparr>tpc := (tpc s1)(p := t)\<rparr>"
    using s' release_run [OF w] f(1) by (auto simp: run_simps set_defs)
  have r: "pstate s1 = pstate s" "p_chan s1 = (p_chan s)(p := b)" "tpc s1 = tpc s" "spc s1 = spc s" "wpc s1 = wpc s" "cproc s1 = cproc s"
    using rest_fields [OF s1(3)] by auto
  have nh: "\<not> high s c l" for l using run by (simp add: high_def)
  have none: "who s' l \<noteq> Some c" for l using nh f(7,8) [of l] by (cases "l < 64") (auto simp: s1(1,4))
  have "cpu_ok clk s' c"
    by (rule cpu_ok_own [of _ _ p]) (use f(2,3) run r none t in \<open>auto simp: s1(4) place_ok_def\<close>)
  moreover have "thr_ok s' p" using f(4) run r t by (auto simp: thr_ok_def s1(4))
  ultimately show ?thesis using f(1,4) r s1(2) w t run(3)
    by (intro sinv_own [of clk s c p s' "pstate s p" b t "In p", OF inv run(1,2)])
       (auto simp: s1(1,4) drowsy_def run fun_upd_idem thr_ok_def)
qed

lemma set_chan_same: "thenK (set_chan p (p_chan s p)) f s = f s"
  by (simp add: set_defs run_simps)

lemma step_after_sched:
  assumes inv: "sinv clk s" and run: "spc s c = In p" "wpc s c = None" "tpc s p = Tidy k" and s': "after_sched c p k s = Inr ((), s')"
  shows "sinv clk s'"
proof (cases k)
  case (AfterSleep l)
  then show ?thesis using s' by (intro step_unlock [OF inv run, of None "Reacquire l"]) (simp_all add: after_sched_def)
next
  case AfterExit
  then show ?thesis using s' by (simp add: after_sched_def run_simps)
qed (use s' step_unlock [OF inv run, of "p_chan s p" Body] in \<open>simp_all only: after_sched_def set_chan_same resume.case simp_thms\<close>)

lemma step_reacquire:
  assumes inv: "sinv clk s" and run: "spc s c = In p" "wpc s c = None" "tpc s p = Reacquire l" and s': "reacquire c p l s = Inr ((), s')"
  shows "sinv clk s'"
proof -
  note f = own_facts [OF inv run(1,2)]
  obtain s1 where s1: "acquire c l s = Inr ((), s1)" "s' = s1\<lparr>tpc := (tpc s1)(p := Body)\<rparr>"
    using s' by (auto simp: reacquire_def run_simps set_defs split: sum.splits prod.splits)
  note a = acquire_step [OF s1(1) f(1)]
  note r = rest_fields [OF a(4)]
  have l: "64 \<le> l" using f(4) run by (simp add: thr_ok_def)
  have "cpu_ok clk s' c"
    by (rule cpu_ok_own [of _ _ p]) (use f(2,3,6,7) run r l in \<open>auto simp: s1(2) a(2) place_ok_def high_def\<close>)
  moreover have "thr_ok s' p" using f(4) run r by (auto simp: thr_ok_def s1(2))
  ultimately show ?thesis using r a(1,3)
    by (intro sinv_own [of clk s c p s' "pstate s p" "p_chan s p" Body "In p", OF inv run(1,2)])
       (auto simp: s1(2) a(2) drowsy_def run fun_upd_idem)
qed

text \<open>Steps of the scheduler.\<close>

fun is_in :: "spc \<Rightarrow> bool" where
  "is_in (In p) = True"
| "is_in _ = False"

lemma sinv_place:
  assumes inv: "sinv clk s" and lk: "lock_ok s'" and pc: "\<not> is_in (spc s c)" "\<not> is_in x" "wpc s c = None"
    and fields: "pstate s' = pstate s" "p_chan s' = p_chan s" "tpc s' = tpc s" "spc s' = (spc s)(c := x)" "wpc s' = wpc s"
      "cproc s' = (cproc s)(c := k)"
    and others: "\<And>d l. d \<noteq> c \<Longrightarrow> who s' l = Some d \<longleftrightarrow> who s l = Some d" and here: "cpu_ok clk s' c"
  shows "sinv clk s'"
  by (rule sinv_step [where c = c and p = 64, OF inv lk _ _ _ others _ _ _ _ _ here])
     (use pc fields in \<open>auto simp: wake_ok_def drowsy_def\<close>)

lemma sched_facts:
  assumes "sinv clk s" "\<not> is_in (spc s c)" "wpc s c = None"
  shows "lock_ok s" "place_ok clk s c"
    "\<And>l. who s l = Some c \<Longrightarrow> (case spc s c of Window \<Rightarrow> 64 \<le> l | Test i _ \<Rightarrow> l = i | Ran i \<Rightarrow> l = i | _ \<Rightarrow> False)"
    "\<And>i b. spc s c = Test i b \<Longrightarrow> who s i = Some c" "\<And>i. spc s c = Ran i \<Longrightarrow> who s i = Some c"
proof -
  have ok: "cpu_ok clk s c" and lk: "lock_ok s" using assms(1) by (simp_all add: sinv_def)
  show "lock_ok s" by fact
  show pl: "place_ok clk s c" using ok by (simp add: cpu_ok_def)
  show "case spc s c of Window \<Rightarrow> 64 \<le> l | Test i _ \<Rightarrow> l = i | Ran i \<Rightarrow> l = i | _ \<Rightarrow> False" if "who s l = Some c" for l
  proof (cases "l < 64")
    case True
    then have "l \<in> low s c" using ok that by (simp add: cpu_ok_def)
    then show ?thesis using assms(2,3) by (auto simp: low_def split: spc.splits)
  next
    case False
    then have "high s c l" using ok that by (simp add: cpu_ok_def)
    then show ?thesis using assms(2,3) False by (auto simp: high_def split: spc.splits)
  qed
  show "who s i = Some c" if "spc s c = Test i b" for i b using that ok pl assms(3) by (simp add: cpu_ok_def low_def place_ok_def)
  show "who s i = Some c" if "spc s c = Ran i" for i using that ok pl assms(3) by (simp add: cpu_ok_def low_def place_ok_def)
qed

lemma sched_no_wakeup: "sinv clk s \<Longrightarrow> spc s c \<noteq> Window \<Longrightarrow> \<not> is_in (spc s c) \<Longrightarrow> wpc s c = None"
proof -
  assume a: "sinv clk s" "spc s c \<noteq> Window" "\<not> is_in (spc s c)"
  then have "cpu_ok clk s c" by (simp add: sinv_def)
  then show "wpc s c = None" using a(2,3) by (cases "wpc s c"; cases "spc s c") (auto simp: cpu_ok_def)
qed

lemma set_sie:
  assumes "lock_ok s" "held s c = {} \<or> \<not> b"
  shows "\<exists>s'. set_cpu c (\<lambda>x. x\<lparr>sie := b\<rparr>) s = Inr ((), s') \<and> who s' = who s \<and> lock_ok s' \<and> rest s' = rest s"
proof -
  let ?s = "s\<lparr>cpus := (cpus s)(c := (cpus s c)\<lparr>sie := b\<rparr>)\<rparr>"
  have "noff (cpus ?s d) = noff (cpus s d)" "sie (cpus ?s d) = (if d = c then b else sie (cpus s d))" for d by auto
  moreover have w: "who ?s = who s" by (simp add: who_def fun_eq_iff)
  ultimately have "lock_ok ?s" using assms by (auto simp: lock_ok_def held_def)
  then show ?thesis using w by (simp add: set_cpu_def run_simps rest_def)
qed

lemma step_window_end:
  assumes inv: "sinv clk s" and pc: "spc s c = Window" "wpc s c = None" "held s c = {}" and s': "sched_window_end c s = Inr ((), s')"
  shows "sinv clk s'"
proof -
  have ni: "\<not> is_in (spc s c)" by (simp add: pc)
  note f = sched_facts [OF inv ni pc(2)]
  obtain s1 where s1: "who s1 = who s" "lock_ok s1" "rest s1 = rest s" "s' = s1\<lparr>spc := (spc s1)(c := Scan 0 False)\<rparr>"
    using s' set_sie [of s c False] f(1) by (auto simp: sched_window_end_def intr_off_def set_spc_def run_simps)
  note r = rest_fields [OF s1(3)]
  have "who s l \<noteq> Some c" for l using pc(3) by (auto simp: held_def)
  then have "cpu_ok clk s' c" using f(2) r pc by (auto simp: cpu_ok_def low_def place_ok_def s1(1,4))
  then show ?thesis using r s1(2) by (intro sinv_place [OF inv _ ni _ pc(2), of _ "Scan 0 False" "cproc s c"]) (auto simp: s1(1,4))
qed

lemma step_scan:
  assumes inv: "sinv clk s" and pc: "spc s c = Scan i b" and s': "the (scheduler_next c (Scan i b)) s = Inr ((), s')"
  shows "sinv clk s'"
proof -
  have ni: "\<not> is_in (spc s c)" by (simp add: pc)
  have w: "wpc s c = None" using sched_no_wakeup [OF inv _ ni] pc by simp
  note f = sched_facts [OF inv ni w]
  have none: "who s l \<noteq> Some c" for l using f(3) [of l] pc by auto
  show ?thesis
  proof (cases "i < 64")
    case True
    then obtain s1 where s1: "acquire c i s = Inr ((), s1)" "s' = s1\<lparr>spc := (spc s1)(c := Test i b)\<rparr>"
      using s' by (auto simp: scheduler_next_def run_simps set_defs split: sum.splits prod.splits)
    note a = acquire_step [OF s1(1) f(1)]
    note r = rest_fields [OF a(4)]
    have "cpu_ok clk s' c" using f(2) r pc none True w by (auto simp: cpu_ok_def low_def place_ok_def s1(2) a(2))
    then show ?thesis using r a by (intro sinv_place [OF inv _ ni _ w, of _ "Test i b" "cproc s c"]) (auto simp: s1(2) a(2))
  next
    case False
    have "held s c = {}" using none by (simp add: held_def)
    with False obtain s1 where s1: "who s1 = who s" "lock_ok s1" "rest s1 = rest s" "s' = s1\<lparr>spc := (spc s1)(c := Window)\<rparr>"
      using s' set_sie [of s c True] f(1) by (auto simp: scheduler_next_def intr_on_def set_spc_def run_simps)
    note r = rest_fields [OF s1(3)]
    have "cpu_ok clk s' c" using f(2) r pc none w by (auto simp: cpu_ok_def low_def place_ok_def s1(1,4))
    then show ?thesis using r s1(2) by (intro sinv_place [OF inv _ ni _ w, of _ Window "cproc s c"]) (auto simp: s1(1,4))
  qed
qed

text \<open>A lock given back, with the scheduler moving on.\<close>

lemma step_move_on:
  assumes inv: "sinv clk s" and pc: "spc s c = Test i b' \<or> spc s c = Ran i"
    and s': "thenK (set_cproc c None) (thenK (release c i) (set_spc c (Scan (i + 1) b))) s = Inr ((), s')"
  shows "sinv clk s'"
proof -
  have ni: "\<not> is_in (spc s c)" using pc by auto
  have w: "wpc s c = None" using sched_no_wakeup [OF inv _ ni] pc by auto
  note f = sched_facts [OF inv ni w]
  let ?z = "s\<lparr>cproc := (cproc s)(c := None)\<rparr>"
  have i: "who ?z i = Some c" "i < 64" using f(2,4,5) pc by (auto simp: place_ok_def)
  obtain s1 where s1: "who s1 = (who s)(i := None)" "lock_ok s1" "rest s1 = rest ?z" "s' = s1\<lparr>spc := (spc s1)(c := Scan (i + 1) b)\<rparr>"
    using s' release_run [OF i(1)] f(1) by (auto simp: run_simps set_defs)
  have r: "pstate s1 = pstate s" "p_chan s1 = p_chan s" "tpc s1 = tpc s" "spc s1 = spc s" "wpc s1 = wpc s" "cproc s1 = (cproc s)(c := None)"
    using rest_fields [OF s1(3)] by auto
  have none: "who s' l \<noteq> Some c" for l using f(3) [of l] pc by (auto simp: s1(1,4))
  then have "cpu_ok clk s' c" using i(2) r w by (auto simp: cpu_ok_def low_def place_ok_def s1(4))
  then show ?thesis using r s1(2) i(1)
    by (intro sinv_place [OF inv _ ni _ w, of _ "Scan (i + 1) b" None]) (auto simp: s1(1,4))
qed

text \<open>When the CPU that runs a process does not hold its lock, a process that is not running is away.\<close>

lemma settled:
  assumes inv: "sinv clk s" and p: "p < 64" "\<And>d. spc s d = In p \<Longrightarrow> who s p \<noteq> Some d" "pstate s p \<noteq> RUNNING"
  shows "is_away (tpc s p)" "spc s d \<noteq> In p"
proof -
  have t: "thr_ok s p" and ok: "cpu_ok clk s e" for e using inv p(1) by (auto simp: sinv_def)
  have no: "spc s e \<noteq> In p" for e
  proof
    assume e: "spc s e = In p"
    have "\<not> is_away (tpc s p)" using ok [of e] e by (auto simp: cpu_ok_def place_ok_def)
    then have "at_sched (tpc s p)" using t p(3) by (auto simp: thr_ok_def)
    then have "p \<in> low s e" using e by (cases "tpc s p") (auto simp: low_def)
    then have "who s p = Some e" using ok [of e] p(1) by (auto simp: cpu_ok_def)
    then show False using e p(2) by simp
  qed
  then show "spc s d \<noteq> In p" .
  show "is_away (tpc s p)" using t no by (auto simp: thr_ok_def)
qed

lemma step_dispatch:
  assumes inv: "sinv clk s" and pc: "spc s c = Test p b" "pstate s p = RUNNABLE" and s': "scheduler_test c p b s = Inr ((), s')"
  shows "sinv clk s' \<and> spc s' c = In p \<and> cproc s' c = Some p \<and> pstate s' = (pstate s)(p := RUNNING)"
proof -
  have ni: "\<not> is_in (spc s c)" by (simp add: pc)
  have w: "wpc s c = None" using sched_no_wakeup [OF inv _ ni] pc by simp
  note f = sched_facts [OF inv ni w]
  have p: "p < 64" "who s p = Some c" using f(2,4) pc by (auto simp: place_ok_def)
  have "who s p \<noteq> Some d" if "spc s d = In p" for d using that p(2) pc(1) by auto
  then have st: "is_away (tpc s p)" "spc s d \<noteq> In p" for d using settled [OF inv p(1)] pc(2) by auto
  have t: "thr_ok s p" using inv p by (simp add: sinv_def)
  obtain k ie where tp: "tpc s p = Away k ie" using st(1) by (cases "tpc s p") auto
  have s': "s' = s\<lparr>pstate := (pstate s)(p := RUNNING), cproc := (cproc s)(c := Some p), spc := (spc s)(c := In p), tpc := (tpc s)(p := Back k ie)\<rparr>"
    using s' pc tp by (auto simp: scheduler_test_def swtch_to_def set_defs run_simps)
  have only: "who s l \<noteq> Some c" if "l \<noteq> p" for l using f(3) [of l] that pc by auto
  have "sinv clk s'"
  proof (rule sinv_step [where c = c and p = p, OF inv])
    show "cpu_ok clk s' c"
      by (rule cpu_ok_own [of _ _ p]) (use p only w in \<open>auto simp: s' place_ok_def\<close>)
    show "thr_ok s' p" using t pc tp by (auto simp: thr_ok_def s')
    show "wake_ok clk s' c" using w by (simp add: wake_ok_def s')
  qed (use f(1) st pc in \<open>auto simp: s' drowsy_def\<close>)
  then show ?thesis by (simp add: s')
qed

lemma step_test:
  assumes inv: "sinv clk s" and pc: "spc s c = Test i b" and s': "scheduler_test c i b s = Inr ((), s')"
  shows "sinv clk s'"
proof (cases "pstate s i = RUNNABLE")
  case True
  then show ?thesis using step_dispatch [OF inv pc _ s'] by simp
next
  case False
  have "place_ok clk s c" using inv by (simp add: sinv_def cpu_ok_def)
  then have "s\<lparr>cproc := (cproc s)(c := None)\<rparr> = s" using pc by (simp add: place_ok_def fun_upd_idem)
  then have "thenK (set_cproc c None) (thenK (release c i) (set_spc c (Scan (i + 1) b))) s = Inr ((), s')"
    using s' False by (simp add: scheduler_test_def set_cproc_def run_simps)
  then show ?thesis using step_move_on [OF inv, of c i b b s'] pc by simp
qed

text \<open>Changes of another process.\<close>

lemma sinv_other:
  assumes inv: "sinv clk s" and lk: "lock_ok s'" "who s' = who s" and c: "wpc s c = None"
    and fields: "spc s' = spc s" "wpc s' = wpc s" "cproc s' = cproc s"
    and same: "\<And>p. p \<noteq> q \<Longrightarrow> pstate s' p = pstate s p \<and> p_chan s' p = p_chan s p \<and> tpc s' p = tpc s p"
    and nobody: "\<And>d. spc s d = In q \<Longrightarrow> tpc s' q = tpc s q"
    and here: "q < 64 \<Longrightarrow> thr_ok s' q" and asleep: "\<And>ch. drowsy s' q ch \<Longrightarrow> drowsy s q ch"
  shows "sinv clk s'"
proof (rule sinv_step [where c = c and p = q, OF inv lk(1)])
  show "cpu_ok clk s' c"
  proof (rule cpu_frame [of clk s c])
    show "tpc s' p = tpc s p" if "spc s c = In p" for p using that same nobody by (cases "p = q") auto
  qed (use inv fields lk(2) in \<open>auto simp: sinv_def\<close>)
  show "wake_ok clk s' c" using c by (simp add: wake_ok_def fields)
qed (use fields same nobody here asleep lk in auto)

lemma change_run:
  assumes "f \<in> changes q" "f s = Inr ((), s2)"
  shows "s2 = s \<or> (\<exists>a b t. s2 = s\<lparr>pstate := (pstate s)(q := a), p_chan := (p_chan s)(q := b), tpc := (tpc s)(q := t)\<rparr> \<and>
    pstate s q \<noteq> RUNNING \<and> a \<noteq> RUNNING \<and> a \<noteq> SLEEPING \<and>
    (t = tpc s q \<and> (pstate s q = ZOMBIE \<or> pstate s q = UNUSED \<longrightarrow> a = UNUSED) \<or> t = Away AtForkret False))"
proof -
  let ?P = "\<lambda>a b t. s2 = s\<lparr>pstate := (pstate s)(q := a), p_chan := (p_chan s)(q := b), tpc := (tpc s)(q := t)\<rparr> \<and>
    pstate s q \<noteq> RUNNING \<and> a \<noteq> RUNNING \<and> a \<noteq> SLEEPING \<and>
    (t = tpc s q \<and> (pstate s q = ZOMBIE \<or> pstate s q = UNUSED \<longrightarrow> a = UNUSED) \<or> t = Away AtForkret False)"
  consider "f = kill_change q" | "f = free_change q" | "f = alloc_change q" | "f = start_change q" using assms(1) by (auto simp: changes_def)
  then show ?thesis
  proof cases
    case 1
    then have "s2 = (if pstate s q = SLEEPING then s\<lparr>pstate := (pstate s)(q := RUNNABLE)\<rparr> else s)"
      using assms(2) by (auto simp: kill_change_def set_defs run_simps)
    then have "s2 = s \<or> ?P RUNNABLE (p_chan s q) (tpc s q)" by (cases "pstate s q = SLEEPING") auto
    then show ?thesis by blast
  next
    case 2
    then have "s2 = (if pstate s q = ZOMBIE \<or> pstate s q = USED then s\<lparr>p_chan := (p_chan s)(q := None), pstate := (pstate s)(q := UNUSED)\<rparr> else s)"
      using assms(2) by (auto simp: free_change_def set_defs run_simps)
    then have "s2 = s \<or> ?P UNUSED None (tpc s q)" by (cases "pstate s q = ZOMBIE \<or> pstate s q = USED") auto
    then show ?thesis by blast
  next
    case 3
    then have "s2 = (if pstate s q = UNUSED then s\<lparr>pstate := (pstate s)(q := USED), tpc := (tpc s)(q := Away AtForkret False)\<rparr> else s)"
      using assms(2) by (auto simp: alloc_change_def set_defs run_simps)
    then have "s2 = s \<or> ?P USED (p_chan s q) (Away AtForkret False)" by (cases "pstate s q = UNUSED") auto
    then show ?thesis by blast
  next
    case 4
    then have "s2 = (if pstate s q = USED then s\<lparr>pstate := (pstate s)(q := RUNNABLE)\<rparr> else s)"
      using assms(2) by (auto simp: start_change_def set_defs run_simps)
    then have "s2 = s \<or> ?P RUNNABLE (p_chan s q) (tpc s q)" by (cases "pstate s q = USED") auto
    then show ?thesis by blast
  qed
qed

lemma step_change:
  assumes inv: "sinv clk s" and c: "in_body c s" and q: "q < 64" "f \<in> changes q" and s': "locked_change c q f s = Inr ((), s')"
  shows "sinv clk s'"
proof -
  have lk: "lock_ok s" and t: "thr_ok s q" using inv q by (auto simp: sinv_def)
  obtain s1 s2 where s1: "acquire c q s = Inr ((), s1)" and s2: "f s1 = Inr ((), s2)" "release c q s2 = Inr ((), s')"
    using s' by (auto simp: locked_change_def run_simps split: sum.splits prod.splits)
  note a = acquire_step [OF s1 lk]
  note r = rest_fields [OF a(4)]
  note ch = change_run [OF q(2) s2(1)]
  have w2: "who s2 q = Some c" "lock_ok s2" "who s2 = who s1" using ch a by auto
  have "who s' = (who s2)(q := None)" "lock_ok s'" "rest s' = rest s2" using release_run [OF w2(1,2)] s2(2) by auto
  then have w': "who s' = who s" "lock_ok s'" and r': "rest s' = rest s2" using a(1,2) w2(3) by (auto simp: fun_upd_idem)
  note r2 = rest_fields [OF r']
  have free: "is_away (tpc s q)" "spc s d \<noteq> In q" if "pstate s q \<noteq> RUNNING" for d using settled [OF inv q(1) _ that] a(1) by auto
  have wpc: "wpc s c = None" using c by (simp add: in_body_def)
  from ch show ?thesis
  proof
    assume "s2 = s1"
    then show ?thesis using r r2 t inv w' wpc by (intro sinv_other [of clk s s' c q]) (auto simp: drowsy_def thr_ok_def)
  next
    assume "\<exists>a b t. s2 = s1\<lparr>pstate := (pstate s1)(q := a), p_chan := (p_chan s1)(q := b), tpc := (tpc s1)(q := t)\<rparr> \<and>
      pstate s1 q \<noteq> RUNNING \<and> a \<noteq> RUNNING \<and> a \<noteq> SLEEPING \<and>
      (t = tpc s1 q \<and> (pstate s1 q = ZOMBIE \<or> pstate s1 q = UNUSED \<longrightarrow> a = UNUSED) \<or> t = Away AtForkret False)"
    then obtain x y z where x: "s2 = s1\<lparr>pstate := (pstate s1)(q := x), p_chan := (p_chan s1)(q := y), tpc := (tpc s1)(q := z)\<rparr>"
      "pstate s q \<noteq> RUNNING" "x \<noteq> RUNNING" "x \<noteq> SLEEPING"
      "z = tpc s q \<and> (pstate s q = ZOMBIE \<or> pstate s q = UNUSED \<longrightarrow> x = UNUSED) \<or> z = Away AtForkret False"
      using r by auto
    have away: "is_away z" using x(5) free [OF x(2)] by auto
    have "thr_ok s' q" using t away x r r2 by (auto simp: thr_ok_def)
    moreover have "\<not> drowsy s' q ch" for ch using x(1,4) away r2 by (cases z) (simp_all add: drowsy_def)
    ultimately show ?thesis using r r2 x(1) w' wpc free(2) [OF x(2)] inv
      by (intro sinv_other [of clk s s' c q]) auto
  qed
qed

text \<open>Steps of \<^verbatim>\<open>wakeup\<close>.\<close>

lemma step_wakeup_call:
  assumes inv: "sinv clk s" and c: "in_body c s" and s': "set_wpc c (Some (ch, 0, False)) s = Inr ((), s')"
  shows "sinv clk s'"
proof -
  have s': "s' = s\<lparr>wpc := (wpc s)(c := Some (ch, 0, False))\<rparr>" using s' by (auto simp: set_defs run_simps)
  have ok: "cpu_ok clk s c" using inv by (simp add: sinv_def)
  show ?thesis
  proof (rule sinv_step [where c = c and p = 64, OF inv])
    show "cpu_ok clk s' c" using ok c
      by (auto simp: cpu_ok_def low_def high_def place_ok_def in_body_def s' split: spc.splits tpc.splits)
  qed (use inv in \<open>auto simp: s' wake_ok_def drowsy_def sinv_def\<close>)
qed

lemma wakeup_facts:
  assumes inv: "sinv clk s" and w: "wpc s c = Some (ch, i, b)"
  shows "cpu_ok clk s c" "lock_ok s" "i \<le> 64" "b \<Longrightarrow> i < 64" "b \<Longrightarrow> cproc s c \<noteq> Some i" "b \<Longrightarrow> who s i = Some c"
    "case spc s c of In p \<Rightarrow> tpc s p = Body \<and> cproc s c = Some p | Window \<Rightarrow> cproc s c = None | _ \<Rightarrow> False"
    "\<And>l. l < 64 \<Longrightarrow> who s l = Some c \<Longrightarrow> b \<and> l = i"
proof -
  show ok: "cpu_ok clk s c" "lock_ok s" using inv by (simp_all add: sinv_def)
  then show "i \<le> 64" and b: "b \<Longrightarrow> i < 64" "b \<Longrightarrow> cproc s c \<noteq> Some i" using w by (auto simp: cpu_ok_def)
  have "case spc s c of In p \<Rightarrow> tpc s p = Body | Window \<Rightarrow> True | _ \<Rightarrow> False" "place_ok clk s c"
    using ok(1) w by (auto simp: cpu_ok_def)
  then show sp: "case spc s c of In p \<Rightarrow> tpc s p = Body \<and> cproc s c = Some p | Window \<Rightarrow> cproc s c = None | _ \<Rightarrow> False"
    by (cases "spc s c") (auto simp: place_ok_def)
  then have low: "low s c = (if b then {i} else {})" using w by (cases "spc s c") (auto simp: low_def)
  then show "b \<Longrightarrow> who s i = Some c" and "\<And>l. l < 64 \<Longrightarrow> who s l = Some c \<Longrightarrow> b \<and> l = i"
    using ok(1) b(1) by (auto simp: cpu_ok_def split: if_splits)
qed

text \<open>The position moves on; the lock of the next process may change hands with it.\<close>

lemma wakeup_cpu_ok:
  assumes inv: "sinv clk s" and w: "wpc s c = Some (ch, i, b)"
    and fields: "tpc s' = tpc s" "spc s' = spc s" "cproc s' = cproc s" "wpc s' = (wpc s)(c := v)"
    and v: "v = None \<or> (\<exists>j x. v = Some (ch, j, x) \<and> j \<le> 64 \<and> (x \<longrightarrow> j < 64 \<and> cproc s c \<noteq> Some j))"
    and low: "\<And>l. l < 64 \<Longrightarrow> who s' l = Some c \<longleftrightarrow> (\<exists>e. v = Some (e, l, True))" and high: "\<And>l. 64 \<le> l \<Longrightarrow> who s' l = who s l"
  shows "cpu_ok clk s' c"
proof -
  note f = wakeup_facts [OF inv w]
  have "low s' c = {l. \<exists>e. v = Some (e, l, True)}" using f(7) fields
    by (cases "spc s c") (auto simp: low_def split: option.splits bool.splits)
  moreover have "high s' c l" for l using f(7) fields by (cases "spc s c") (auto simp: high_def)
  moreover have "place_ok clk s' c" using f(1,7) fields by (cases "spc s c") (auto simp: cpu_ok_def place_ok_def)
  ultimately show ?thesis using low v f(7) fields by (cases "spc s c") (auto simp: cpu_ok_def)
qed

lemma step_wakeup_skip:
  assumes inv: "sinv clk s" and w: "wpc s c = Some (ch, i, False)" and me: "i < 64 \<longrightarrow> cproc s c = Some i"
    and s': "s' = s\<lparr>wpc := (wpc s)(c := v)\<rparr>" and v: "v = None \<or> i < 64 \<and> v = Some (ch, i + 1, False)"
  shows "sinv clk s'"
proof (rule sinv_step [where c = c and p = 64, OF inv])
  note f = wakeup_facts [OF inv w]
  show "cpu_ok clk s' c" by (rule wakeup_cpu_ok [OF inv w, of _ v]) (use f(8) v in \<open>auto simp: s'\<close>)
  have "wake_ok clk s c" using inv by (simp add: sinv_def)
  then show "wake_ok clk s' c" using v w me by (auto simp: wake_ok_def s' drowsy_def less_Suc_eq)
qed (use inv in \<open>auto simp: s' drowsy_def sinv_def\<close>)

lemma step_wakeup_acquire:
  assumes inv: "sinv clk s" and clk: "64 \<le> clk ch" and w: "wpc s c = Some (ch, i, False)" and i: "i < 64" "cproc s c \<noteq> Some i"
    and s1: "acquire c i s = Inr ((), s1)" and s': "s' = s1\<lparr>wpc := (wpc s1)(c := Some (ch, i, True))\<rparr>"
  shows "sinv clk s'"
proof -
  note f = wakeup_facts [OF inv w]
  note a = acquire_step [OF s1 f(2)]
  note r = rest_fields [OF a(4)]
  show ?thesis
  proof (rule sinv_step [where c = c and p = 64, OF inv])
    show "cpu_ok clk s' c"
      by (rule wakeup_cpu_ok [OF inv w, of _ "Some (ch, i, True)"]) (use f(8) i r in \<open>auto simp: s' a(2)\<close>)
    have "wake_ok clk s c" using inv by (simp add: sinv_def)
    then show "wake_ok clk s' c" using w i(1) clk r by (auto simp: wake_ok_def s' drowsy_def a(2))
  qed (use r a(1,3) in \<open>auto simp: s' a(2) drowsy_def\<close>)
qed

lemma step_wakeup_test:
  assumes inv: "sinv clk s" and w: "wpc s c = Some (ch, i, True)" and s': "wakeup_next c (ch, i, True) s = Inr ((), s')"
  shows "sinv clk s'"
proof -
  note f = wakeup_facts [OF inv w, simplified]
  let ?a = "if pstate s i = SLEEPING \<and> p_chan s i = Some ch then RUNNABLE else pstate s i"
  let ?z = "s\<lparr>pstate := (pstate s)(i := ?a)\<rparr>"
  have wz: "who ?z i = Some c" "lock_ok ?z" using f(2,6) by simp_all
  obtain s1 where s1: "who s1 = (who s)(i := None)" "lock_ok s1" "rest s1 = rest ?z" "s' = s1\<lparr>wpc := (wpc s1)(c := Some (ch, i + 1, False))\<rparr>"
    using s' release_run [OF wz] f(4) by (auto simp: wakeup_next_def set_defs run_simps split: if_splits)
  have r: "pstate s1 = (pstate s)(i := ?a)" "p_chan s1 = p_chan s" "tpc s1 = tpc s" "spc s1 = spc s" "wpc s1 = wpc s" "cproc s1 = cproc s"
    using rest_fields [OF s1(3)] by auto
  have out: "who s i \<noteq> Some d" if "spc s d = In i" for d using that f(5,6,7) by auto
  then have free: "is_away (tpc s i) \<and> (\<forall>d. spc s d \<noteq> In i)" if "pstate s i \<noteq> RUNNING" using settled [OF inv f(4) _ that] by blast
  have t: "thr_ok s i" using inv f(4) by (simp add: sinv_def)
  have asleep: "drowsy s' q e \<Longrightarrow> drowsy s q e" for q e by (auto simp: drowsy_def s1(4) r split: if_splits)
  have "tpc s i \<noteq> SleepFree ch l" for l
  proof
    assume l: "tpc s i = SleepFree ch l"
    then obtain d where d: "spc s d = In i" using t by (auto simp: thr_ok_def)
    then have "i \<in> low s d" using l by (simp add: low_def)
    moreover have "cpu_ok clk s d" using inv by (simp add: sinv_def)
    ultimately show False using out [OF d] f(4) by (simp add: cpu_ok_def)
  qed
  then have awake: "\<not> drowsy s' i ch" by (simp add: drowsy_def s1(4) r)
  show ?thesis
  proof (rule sinv_step [where c = c and p = i, OF inv])
    show "cpu_ok clk s' c"
      by (rule wakeup_cpu_ok [OF inv w, of _ "Some (ch, i + 1, False)"]) (use f(4,8) r in \<open>auto simp: s1(1,4)\<close>)
    show "thr_ok s' i" using t free by (auto simp: thr_ok_def s1(4) r)
    have old: "\<not> drowsy s q ch" if "who s (clk ch) = Some c" "q < i" "q < 64" "cproc s c \<noteq> Some q" for q
      using inv w that unfolding sinv_def wake_ok_def by blast
    have "\<not> drowsy s' q ch" if "who s' (clk ch) = Some c" "q < i + 1" "q < 64" "cproc s c \<noteq> Some q" for q
      using that old [of q] awake asleep [of q ch] by (cases "q = i") (auto simp: s1(1,4) split: if_splits)
    moreover have "wpc s' c = Some (ch, i + 1, False)" "cproc s' = cproc s" by (simp_all add: s1(4) r)
    ultimately show "wake_ok clk s' c" unfolding wake_ok_def by (metis Pair_inject option.inject)
  qed (use r s1(2) f(6) asleep in \<open>auto simp: s1(1,4)\<close>)
qed

lemma step_wakeup:
  assumes inv: "sinv clk s" and clk: "\<And>ch. 64 \<le> clk ch" and w: "wpc s c = Some v" and s': "wakeup_next c v s = Inr ((), s')"
  shows "sinv clk s'"
proof -
  obtain ch i b where v: "v = (ch, i, b)" by (cases v) auto
  note f = wakeup_facts [OF inv w [unfolded v]]
  show ?thesis
  proof (cases b)
    case True
    then show ?thesis using step_wakeup_test [OF inv] w s' v by simp
  next
    case False
    consider "64 \<le> i" | "i < 64" "cproc s c = Some i" | "i < 64" "cproc s c \<noteq> Some i" by linarith
    then show ?thesis
    proof cases
      case 1
      then have "s' = s\<lparr>wpc := (wpc s)(c := None)\<rparr>" using s' by (auto simp: v wakeup_next_def run_simps set_wpc_def)
      then show ?thesis using step_wakeup_skip [OF inv, of c ch i s' None] 1 w v False by simp
    next
      case 2
      then have "s' = s\<lparr>wpc := (wpc s)(c := Some (ch, i + 1, False))\<rparr>"
        using s' False by (auto simp: v wakeup_next_def run_simps set_wpc_def)
      then show ?thesis using step_wakeup_skip [OF inv, of c ch i s' "Some (ch, i + 1, False)"] 2 w v False by simp
    next
      case 3
      then obtain s1 where s1: "acquire c i s = Inr ((), s1)" "s' = s1\<lparr>wpc := (wpc s1)(c := Some (ch, i, True))\<rparr>"
        using s' False by (auto simp: v wakeup_next_def run_simps set_wpc_def split: sum.splits prod.splits)
      show ?thesis using w v False by (intro step_wakeup_acquire [OF inv clk _ 3 s1]) simp
    qed
  qed
qed

lemma step_thread:
  assumes inv: "sinv clk s" and run: "spc s c = In p" "wpc s c = None" and f: "thread_next c p (tpc s p) = Some f" "f s = Inr ((), s')"
  shows "sinv clk s'"
  using f by (cases "tpc s p")
    (auto simp: thread_next_def intro: step_yield_set [OF inv run] step_sleep_release [OF inv run] step_sleep_set [OF inv run]
      step_exit_set [OF inv run] step_sched [OF inv run] step_sched_return [OF inv run] step_after_sched [OF inv run] step_reacquire [OF inv run])

lemma step_scheduler:
  assumes inv: "sinv clk s" and f: "scheduler_next c (spc s c) = Some f" "f s = Inr ((), s')"
  shows "sinv clk s'"
proof (cases "spc s c")
  case (Scan i b)
  then show ?thesis using step_scan [OF inv Scan, of s'] f by simp
next
  case (Test i b)
  then show ?thesis using step_test [OF inv Test, of s'] f by (simp add: scheduler_next_def)
next
  case (Ran i)
  then show ?thesis using step_move_on [OF inv, of c i _ True s'] f by (simp add: scheduler_next_def)
qed (use f in \<open>simp_all add: scheduler_next_def\<close>)

lemma sched_step_inv:
  assumes "sched_step clk s s'" "\<And>ch. 64 \<le> clk ch" "sinv clk s"
  shows "sinv clk s'"
  using assms(1)
proof cases
  case (yield_call c p)
  then have "who s l \<noteq> Some c" for l by (auto simp: held_def)
  then show ?thesis using yield_call by (intro step_call [OF assms(3) yield_call(1,2), of YieldHave]) (auto simp: yield_enter_def)
next
  case (sleep_call c p ch)
  then have "who s l = Some c \<longleftrightarrow> l = clk ch" for l by (auto simp: held_def)
  then show ?thesis using sleep_call
    by (intro step_call [OF assms(3) sleep_call(1,2), of "SleepHave ch (clk ch)"]) (auto simp: sleep_enter_def)
next
  case (exit_call c p l)
  then have "who s m = Some c \<longleftrightarrow> m = l" for m by (auto simp: held_def)
  then show ?thesis using exit_call by (intro step_call [OF assms(3) exit_call(1,2), of "ExitHave l"]) (auto simp: exit_enter_def)
next
  case (body_acquire c l)
  then show ?thesis using step_body_acquire [OF assms(3)] by blast
next
  case (body_release c l)
  then show ?thesis using step_body_release [OF assms(3)] by blast
next
  case (body_change c q f)
  then show ?thesis using step_change [OF assms(3)] by blast
next
  case (wakeup_call c ch)
  then show ?thesis using step_wakeup_call [OF assms(3)] by blast
next
  case (wakeup_loop c w)
  then show ?thesis using step_wakeup [OF assms(3,2)] by blast
next
  case (thread c p f)
  then show ?thesis using step_thread [OF assms(3)] by blast
next
  case (window_end c)
  then show ?thesis using step_window_end [OF assms(3)] by blast
next
  case (scheduler c f)
  then show ?thesis using step_scheduler [OF assms(3)] by blast
qed

lemma sched_boot_inv: "sched_boot s \<Longrightarrow> sinv clk s"
  by (auto simp: sched_boot_def sinv_def lock_ok_def held_def cpu_ok_def low_def high_def place_ok_def thr_ok_def wake_ok_def)

lemma sched_reach_inv:
  assumes "sched_reach clk s s'" "sched_boot s" "\<And>ch. 64 \<le> clk ch"
  shows "sinv clk s'"
  using assms by induction (auto intro: sched_boot_inv sched_step_inv)

end
