(* ===== verification/Sched_Props.thy ===== *)
theory Sched_Props
  imports Sched_Inv
begin

section \<open>Sleep, wakeup and the scheduler: properties\<close>

text \<open>The progress of a scheduler by itself, the checks of the code, and the properties of all interleavings.\<close>

subsection \<open>The scheduler on its own\<close>

inductive scheduler_run :: "nat \<Rightarrow> sch \<Rightarrow> sch \<Rightarrow> bool" for c where
  none: "scheduler_run c s s"
| more: "scheduler_run c s s' \<Longrightarrow> scheduler_next c (spc s' c) = Some f \<Longrightarrow> f s' = Inr ((), s'') \<Longrightarrow> scheduler_run c s s''"
| window: "scheduler_run c s s' \<Longrightarrow> spc s' c = Window \<Longrightarrow> wpc s' c = None \<Longrightarrow> sched_window_end c s' = Inr ((), s'') \<Longrightarrow>
    scheduler_run c s s''"

lemma scheduler_run_trans: "scheduler_run c s' s'' \<Longrightarrow> scheduler_run c s s' \<Longrightarrow> scheduler_run c s s''"
  by (induction rule: scheduler_run.induct) (auto intro: scheduler_run.intros)

lemma scheduler_run_one: "scheduler_next c (spc s c) = Some f \<Longrightarrow> f s = Inr ((), s') \<Longrightarrow> scheduler_run c s s'"
  by (rule scheduler_run.more [OF scheduler_run.none])

lemma scan_lock:
  assumes inv: "sinv clk s" and pc: "spc s c = Scan i b" and i: "i < 64" "who s i = None"
  shows "\<exists>s'. scheduler_run c s s' \<and> sinv clk s' \<and> spc s' c = Test i b \<and> who s' = (who s)(i := Some c) \<and> pstate s' = pstate s"
proof -
  have lk: "lock_ok s" using inv by (simp add: sinv_def)
  obtain s1 where s1: "acquire c i s = Inr ((), s1)" using acquire_total [OF lk i(2)] by blast
  note a = acquire_step [OF s1 lk]
  let ?s = "s1\<lparr>spc := (spc s1)(c := Test i b)\<rparr>"
  have "scheduler_next c (spc s c) = Some (thenK (acquire c i) (set_spc c (Test i b)))" using i(1) by (simp add: pc scheduler_next_def)
  moreover have "thenK (acquire c i) (set_spc c (Test i b)) s = Inr ((), ?s)" by (simp add: s1 set_spc_def run_simps)
  ultimately have "scheduler_run c s ?s" "sinv clk ?s" by (auto intro: scheduler_run_one step_scheduler [OF inv])
  then show ?thesis using a(2) rest_fields [OF a(4)] by (intro exI [of _ ?s]) simp
qed

lemma scan_hit:
  assumes inv: "sinv clk s" and pc: "spc s c = Scan i b" and i: "i < 64" "who s i = None" "pstate s i = RUNNABLE"
  shows "\<exists>s'. scheduler_run c s s' \<and> spc s' c = In i \<and> cproc s' c = Some i \<and> pstate s' = (pstate s)(i := RUNNING)"
proof -
  obtain s1 where s1: "scheduler_run c s s1" "sinv clk s1" "spc s1 c = Test i b" "pstate s1 = pstate s"
    using scan_lock [OF inv pc i(1,2)] by blast
  have "\<exists>s'. scheduler_test c i b s1 = Inr ((), s')" using i(3) s1(4) by (simp add: scheduler_test_def set_defs swtch_to_def run_simps)
  then obtain s' where s': "scheduler_test c i b s1 = Inr ((), s')" by blast
  have "scheduler_run c s1 s'" using scheduler_run_one [of c s1 _ s'] s1(3) s' by (simp add: scheduler_next_def)
  then show ?thesis using step_dispatch [OF s1(2,3) _ s'] i(3) s1 by (auto intro: scheduler_run_trans)
qed

lemma scan_miss:
  assumes inv: "sinv clk s" and pc: "spc s c = Scan i b" and i: "i < 64" "who s i = None" "pstate s i \<noteq> RUNNABLE"
  shows "\<exists>s'. scheduler_run c s s' \<and> sinv clk s' \<and> spc s' c = Scan (i + 1) b \<and> who s' = who s \<and> pstate s' = pstate s"
proof -
  obtain s1 where s1: "scheduler_run c s s1" "sinv clk s1" "spc s1 c = Test i b" "who s1 = (who s)(i := Some c)" "pstate s1 = pstate s"
    using scan_lock [OF inv pc i(1,2)] by blast
  have "who s1 i = Some c" "lock_ok s1" using s1 by (simp_all add: sinv_def)
  then obtain s2 where s2: "release c i s1 = Inr ((), s2)" "who s2 = (who s1)(i := None)" "rest s2 = rest s1" using release_run by blast
  let ?s = "s2\<lparr>spc := (spc s2)(c := Scan (i + 1) b)\<rparr>"
  have t: "scheduler_test c i b s1 = Inr ((), ?s)" using i(3) s1(5) s2(1) by (simp add: scheduler_test_def set_spc_def run_simps)
  have n: "scheduler_next c (spc s1 c) = Some (scheduler_test c i b)" by (simp add: s1(3) scheduler_next_def)
  have "scheduler_run c s1 ?s" by (rule scheduler_run_one [OF n t])
  then have "scheduler_run c s ?s" using s1(1) by (rule scheduler_run_trans)
  moreover have "sinv clk ?s" by (rule step_scheduler [OF s1(2) n t])
  moreover have "who ?s = who s" using s2(2) s1(4) i(2) by (simp add: fun_upd_idem)
  moreover have "pstate ?s = pstate s" using rest_fields [OF s2(3)] s1(5) by simp
  ultimately show ?thesis by (intro exI [of _ ?s]) simp
qed

text \<open>From position \<open>i\<close> the scheduler reaches the next runnable process, or the end of the table.\<close>

lemma scan_up:
  assumes "sinv clk s" "spc s c = Scan i b" "i \<le> j" "j \<le> 64" "\<forall>l < 64. who s l = None" "\<forall>k. i \<le> k \<longrightarrow> k < j \<longrightarrow> pstate s k \<noteq> RUNNABLE"
  shows "\<exists>s'. scheduler_run c s s' \<and> sinv clk s' \<and> spc s' c = Scan j b \<and> who s' = who s \<and> pstate s' = pstate s"
  using assms
proof (induction "j - i" arbitrary: i s)
  case 0
  then show ?case by (intro exI [of _ s]) (auto intro: scheduler_run.none)
next
  case (Suc n)
  then have i: "i < 64" "i < j" by auto
  obtain s1 where s1: "scheduler_run c s s1" "sinv clk s1" "spc s1 c = Scan (i + 1) b" "who s1 = who s" "pstate s1 = pstate s"
    using scan_miss [OF Suc.prems(1,2) i(1)] Suc.prems(5,6) i by auto
  obtain s' where "scheduler_run c s1 s'" "sinv clk s'" "spc s' c = Scan j b" "who s' = who s1" "pstate s' = pstate s1"
    using Suc.hyps(1) [of "i + 1" s1] Suc.hyps(2) Suc.prems(3-6) s1 i by force
  then show ?case using s1 by (intro exI [of _ s']) (auto intro: scheduler_run_trans)
qed

lemma scan_wrap:
  assumes inv: "sinv clk s" and pc: "spc s c = Scan 64 b"
  shows "\<exists>s'. scheduler_run c s s' \<and> sinv clk s' \<and> spc s' c = Scan 0 False \<and> who s' = who s \<and> pstate s' = pstate s"
proof -
  have ni: "\<not> is_in (spc s c)" by (simp add: pc)
  have w: "wpc s c = None" using sched_no_wakeup [OF inv _ ni] pc by simp
  note f = sched_facts [OF inv ni w]
  have h: "held s c = {}" using f(3) pc by (auto simp: held_def)
  obtain s1 where s1: "set_cpu c (\<lambda>x. x\<lparr>sie := True\<rparr>) s = Inr ((), s1)" "who s1 = who s" "rest s1 = rest s"
    using set_sie [of s c True] f(1) h by blast
  note r1 = rest_fields [OF s1(3)]
  let ?s1 = "s1\<lparr>spc := (spc s1)(c := Window)\<rparr>"
  have n: "scheduler_next c (spc s c) = Some (thenK (intr_on c) (set_spc c Window))" by (simp add: pc scheduler_next_def)
  have run1: "thenK (intr_on c) (set_spc c Window) s = Inr ((), ?s1)" by (simp add: intr_on_def s1(1) set_spc_def run_simps)
  have inv1: "sinv clk ?s1" by (rule step_scheduler [OF inv n run1])
  have h1: "held ?s1 c = {}" "wpc ?s1 c = None" "spc ?s1 c = Window" using h s1(2) r1 w by (simp_all add: held_def)
  obtain s2 where s2: "set_cpu c (\<lambda>x. x\<lparr>sie := False\<rparr>) ?s1 = Inr ((), s2)" "who s2 = who ?s1" "rest s2 = rest ?s1"
    using set_sie [of ?s1 c False] inv1 unfolding sinv_def by blast
  note r2 = rest_fields [OF s2(3)]
  let ?s2 = "s2\<lparr>spc := (spc s2)(c := Scan 0 False)\<rparr>"
  have run2: "sched_window_end c ?s1 = Inr ((), ?s2)" by (simp add: sched_window_end_def intr_off_def s2(1) set_spc_def run_simps)
  have "scheduler_run c s ?s2" by (rule scheduler_run.window [OF scheduler_run_one [OF n run1] h1(3,2) run2])
  moreover have "sinv clk ?s2" by (rule step_window_end [OF inv1 h1(3,2,1) run2])
  ultimately show ?thesis using r1 r2 s1(2) s2(2) by (intro exI [of _ ?s2]) simp
qed

lemma scan_dispatch:
  assumes t: "sinv clk t" "spc t c = Scan k d" "\<forall>l < 64. who t l = None" and q: "k \<le> q" "q < 64" "pstate t q = RUNNABLE"
  shows "\<exists>s' j. scheduler_run c t s' \<and> spc s' c = In j \<and> cproc s' c = Some j \<and> j < 64 \<and> pstate t j = RUNNABLE \<and>
    pstate s' = (pstate t)(j := RUNNING)"
proof -
  define j where "j = (LEAST j. k \<le> j \<and> pstate t j = RUNNABLE)"
  have j: "k \<le> j" "pstate t j = RUNNABLE" "j \<le> q"
    unfolding j_def using LeastI [of "\<lambda>j. k \<le> j \<and> pstate t j = RUNNABLE" q] Least_le [of "\<lambda>j. k \<le> j \<and> pstate t j = RUNNABLE" q] q by auto
  have before: "\<forall>x. k \<le> x \<longrightarrow> x < j \<longrightarrow> pstate t x \<noteq> RUNNABLE" unfolding j_def using not_less_Least by blast
  obtain t1 where t1: "scheduler_run c t t1" "sinv clk t1" "spc t1 c = Scan j d" "who t1 = who t" "pstate t1 = pstate t"
    using scan_up [OF t(1,2) j(1) _ t(3) before] j(3) q(2) by auto
  obtain s' where "scheduler_run c t1 s'" "spc s' c = In j" "cproc s' c = Some j" "pstate s' = (pstate t1)(j := RUNNING)"
    using scan_hit [OF t1(2,3)] t1(4,5) t(3) j q(2) by auto
  then show ?thesis using t1 j q(2) by (intro exI [of _ s'] exI [of _ j]) (auto intro: scheduler_run_trans)
qed

subsection \<open>The checks of the scheduling code\<close>

lemma release_no_panic: "who s l = Some c \<Longrightarrow> lock_ok s \<Longrightarrow> thenK (release c l) (modifyK g) s \<noteq> Inl e"
  using release_run [of s l c] by (auto simp: run_simps)

lemma acquire_then_no_panic:
  assumes "lock_ok s" "who s l \<noteq> Some c"
  shows "thenK (acquire c l) (modifyK g) s \<noteq> Inl (Panic m)"
  using acquire_no_panic [OF assms] by (auto simp: run_simps split: sum.splits prod.splits)

lemma thread_no_panic:
  assumes inv: "sinv clk s" and run: "wpc s c = None" "spc s c = In p" "thread_next c p (tpc s p) = Some f"
  shows "f s \<noteq> Inl (Panic m)"
proof -
  note f = own_facts [OF inv run(2,1)]
  have own: "who s p = Some c" if "owns_lock (tpc s p)" using f(6) that by simp
  show ?thesis
  proof (cases "tpc s p")
    case (SleepHave ch l)
    then have "who s l = Some c" using f(9) run(2) by (auto simp: place_ok_def)
    then show ?thesis using run SleepHave f(1) by (auto simp: thread_next_def sleep_release_def set_tpc_def release_no_panic)
  next
    case (ExitHave l)
    then have "who (s\<lparr>pstate := (pstate s)(p := ZOMBIE)\<rparr>) l = Some c" using f(9) run by (simp add: place_ok_def)
    then show ?thesis using run ExitHave f(1) release_run [of "s\<lparr>pstate := (pstate s)(p := ZOMBIE)\<rparr>" l c]
      by (auto simp: thread_next_def exit_set_def set_defs run_simps)
  next
    case (AtSched k)
    then show ?thesis using run sched_run [OF inv run(2,1) AtSched] by (auto simp: thread_next_def)
  next
    case (Tidy k)
    have "k \<noteq> AfterExit" using f(4) Tidy by (auto simp: thr_ok_def)
    moreover have "who s p = Some c" "who (s\<lparr>p_chan := (p_chan s)(p := None)\<rparr>) p = Some c" using own Tidy by simp_all
    ultimately show ?thesis using run Tidy f(1) release_run [of s p c] release_run [of "s\<lparr>p_chan := (p_chan s)(p := None)\<rparr>" p c]
      by (cases k) (auto simp: thread_next_def after_sched_def set_defs run_simps)
  next
    case (Reacquire l)
    then have "64 \<le> l" "\<not> high s c l" using f(4) run by (auto simp: thr_ok_def high_def)
    then have "who s l \<noteq> Some c" using f(8) by blast
    then show ?thesis using run Reacquire f(1) acquire_then_no_panic [of s l c]
      by (auto simp: thread_next_def reacquire_def set_tpc_def)
  qed (use run in \<open>auto simp: thread_next_def yield_set_def sleep_set_def sched_return_def set_defs set_cpu_def run_simps split: if_splits\<close>)
qed

lemma scheduler_no_panic:
  assumes inv: "sinv clk s" and f: "scheduler_next c (spc s c) = Some f"
  shows "f s \<noteq> Inl (Panic m)"
proof -
  have ni: "\<not> is_in (spc s c)" "spc s c \<noteq> Window" using f by (auto simp: scheduler_next_def split: spc.splits)
  then have w: "wpc s c = None" using sched_no_wakeup [OF inv] by blast
  note g = sched_facts [OF inv ni(1) w]
  show ?thesis
  proof (cases "spc s c")
    case (Scan i b)
    then have "who s i \<noteq> Some c" using g(3) [of i] by auto
    then show ?thesis using f Scan g(1) acquire_then_no_panic [of s i c]
      by (auto simp: scheduler_next_def set_spc_def intr_on_def set_cpu_def run_simps split: if_splits sum.splits prod.splits)
  next
    case (Test i b)
    then show ?thesis using f g(1,4) release_run [of s i c]
      by (cases "pstate s i = RUNNABLE") (auto simp: scheduler_next_def scheduler_test_def set_defs swtch_to_def run_simps)
  next
    case (Ran i)
    then show ?thesis using f g(1,5) release_run [of "s\<lparr>cproc := (cproc s)(c := None)\<rparr>" i c]
      by (auto simp: scheduler_next_def set_defs run_simps)
  qed (use ni in auto)
qed

lemma wakeup_no_panic:
  assumes inv: "sinv clk s" and w: "wpc s c = Some v"
  shows "wakeup_next c v s \<noteq> Inl (Panic m)"
proof -
  obtain ch i b where v: "v = (ch, i, b)" by (cases v) auto
  note f = wakeup_facts [OF inv w [unfolded v]]
  let ?z = "s\<lparr>pstate := (pstate s)(i := RUNNABLE)\<rparr>"
  show ?thesis
  proof (cases b)
    case True
    then show ?thesis using f(2,4,6) release_run [of s i c] release_run [of ?z i c]
      by (auto simp: v wakeup_next_def set_defs run_simps)
  next
    case False
    then have "i < 64 \<Longrightarrow> who s i \<noteq> Some c" using f(8) by blast
    then show ?thesis using False f(2) acquire_no_panic [of s i c m]
      by (auto simp: v wakeup_next_def set_wpc_def run_simps split: sum.splits prod.splits)
  qed
qed

subsection \<open>A machine at boot\<close>

definition boot_sch :: sch where
  "boot_sch = \<lparr>lk = (\<lambda>_. \<lparr>locked = 0, lkname = [], lkcpu = None\<rparr>), cpus = (\<lambda>_. \<lparr>noff = 0, intena = False, sie = True\<rparr>),
     phase = (\<lambda>_. Idle), owns = (\<lambda>_. {}), pstate = (\<lambda>_. UNUSED), p_chan = (\<lambda>_. None), tpc = (\<lambda>_. Away AtForkret False),
     spc = (\<lambda>_. Window), wpc = (\<lambda>_. None), cproc = (\<lambda>_. None)\<rparr>"

definition boot_clk :: "chan \<Rightarrow> nat" where
  "boot_clk ch = 64 + snd ch"

lemma boot_sch_boot: "sched_boot boot_sch"
  by (simp add: sched_boot_def boot_sch_def who_def)

text \<open>An interrupt handler on an idle CPU goes through the table in \<^verbatim>\<open>wakeup\<close>.\<close>

lemma wakeup_one:
  assumes inv: "sinv clk s" and w: "wpc s c = Some (ch, i, False)" "cproc s c = None" "i < 64" "who s i = None" and clk: "\<And>ch. 64 \<le> clk ch"
  shows "\<exists>s'. sched_reach clk s s' \<and> sinv clk s' \<and> wpc s' c = Some (ch, i + 1, False) \<and> cproc s' c = None \<and> who s' = who s"
proof -
  have lk: "lock_ok s" using inv by (simp add: sinv_def)
  obtain s1 where s1: "acquire c i s = Inr ((), s1)" using acquire_total [OF lk w(4)] by blast
  note a = acquire_step [OF s1 lk]
  let ?s = "s1\<lparr>wpc := (wpc s1)(c := Some (ch, i, True))\<rparr>"
  let ?z = "?s\<lparr>pstate := (pstate ?s)(i := if pstate ?s i = SLEEPING \<and> p_chan ?s i = Some ch then RUNNABLE else pstate ?s i)\<rparr>"
  have "wakeup_next c (ch, i, False) s = Inr ((), ?s)" using w s1 by (simp add: wakeup_next_def set_wpc_def run_simps)
  then have st1: "sched_step clk s ?s" by (rule sched_step.wakeup_loop [OF w(1)])
  obtain s2 where s2: "release c i ?z = Inr ((), s2)" "who s2 = (who ?z)(i := None)" "rest s2 = rest ?z"
    using release_run [of ?z i c] a(2,3) by auto
  let ?t = "s2\<lparr>wpc := (wpc s2)(c := Some (ch, i + 1, False))\<rparr>"
  have "wakeup_next c (ch, i, True) ?s = Inr ((), ?t)" using w(3) s2(1)
    by (auto simp: wakeup_next_def set_defs run_simps)
  then have st2: "sched_step clk ?s ?t" by (intro sched_step.wakeup_loop [of _ c "(ch, i, True)"]) simp
  have "sched_reach clk s ?t" using st1 st2 by (blast intro: sched_reach.intros)
  moreover have "sinv clk ?t" using st1 st2 inv clk by (blast intro: sched_step_inv)
  moreover have "who ?t = who s" using s2(2) a(1,2) by (auto simp: fun_upd_idem)
  ultimately show ?thesis using rest_fields [OF s2(3)] rest_fields [OF a(4)] w(2) by (intro exI [of _ ?t]) simp
qed

lemma wakeup_pass:
  assumes "sinv clk s" "wpc s c = Some (ch, 0, False)" "cproc s c = None" "\<And>l. l < 64 \<Longrightarrow> who s l = None" "\<And>ch. 64 \<le> clk ch"
  shows "i \<le> 64 \<Longrightarrow> \<exists>s'. sched_reach clk s s' \<and> sinv clk s' \<and> wpc s' c = Some (ch, i, False) \<and> cproc s' c = None \<and> who s' = who s"
proof (induction i)
  case 0
  then show ?case using assms by (intro exI [of _ s]) (auto intro: sched_reach.start)
next
  case (Suc i)
  then obtain s1 where s1: "sched_reach clk s s1" "sinv clk s1" "wpc s1 c = Some (ch, i, False)" "cproc s1 c = None" "who s1 = who s" by auto
  obtain s2 where s2: "sched_reach clk s1 s2" "sinv clk s2" "wpc s2 c = Some (ch, i + 1, False)" "cproc s2 c = None" "who s2 = who s1"
    using wakeup_one [OF s1(2,3,4) _ _ assms(5)] Suc.prems s1(5) assms(4) by auto
  from s2(1) s1(1) have "sched_reach clk s s2" by (induction rule: sched_reach.induct) (auto intro: sched_reach.step)
  then show ?case using s2 s1(5) by auto
qed

lemma boot_wakeup:
  "\<exists>s. sched_reach boot_clk boot_sch s \<and> wpc s 0 = Some ((''ticks'', 0), 64, False) \<and> cproc s 0 = None \<and> who s (boot_clk (''ticks'', 0)) = Some 0"
proof -
  have clk: "64 \<le> boot_clk ch" for ch by (simp add: boot_clk_def)
  have inv: "sinv boot_clk boot_sch" by (rule sched_boot_inv [OF boot_sch_boot])
  then have lk: "lock_ok boot_sch" by (simp add: sinv_def)
  have w: "who boot_sch l = None" for l by (simp add: boot_sch_def who_def)
  obtain s1 where s1: "acquire 0 64 boot_sch = Inr ((), s1)" using acquire_total [OF lk w] by blast
  note a = acquire_step [OF s1 lk]
  note r = rest_fields [OF a(4)]
  have b: "spc boot_sch 0 = Window" "wpc boot_sch 0 = None" "cproc boot_sch 0 = None" by (simp_all add: boot_sch_def)
  have st1: "sched_step boot_clk boot_sch s1" by (rule sched_step.body_acquire [OF _ _ _ s1]) (use b w in \<open>simp_all add: in_body_def held_def\<close>)
  let ?s = "s1\<lparr>wpc := (wpc s1)(0 := Some ((''ticks'', 0), 0, False))\<rparr>"
  have st2: "sched_step boot_clk s1 ?s"
    by (rule sched_step.wakeup_call [of 0 _ "(''ticks'', 0)"]) (use b r in \<open>simp_all add: in_body_def set_wpc_def run_simps\<close>)
  have inv2: "sinv boot_clk ?s" using st1 st2 inv clk by (blast intro: sched_step_inv)
  obtain s where s: "sched_reach boot_clk ?s s" "wpc s 0 = Some ((''ticks'', 0), 64, False)" "cproc s 0 = None" "who s = who ?s"
    using wakeup_pass [OF inv2, of 0 "(''ticks'', 0)" 64] r b a(2) w clk by auto
  have "sched_reach boot_clk boot_sch ?s" using st1 st2 by (blast intro: sched_reach.intros)
  with s(1) have "sched_reach boot_clk boot_sch s" by (induction rule: sched_reach.induct) (auto intro: sched_reach.step)
  then show ?thesis using s(2-4) a(2) by (auto simp: boot_clk_def)
qed

text \<open>A process made runnable from an idle CPU, which then starts to scan the table.\<close>

lemma change_total:
  assumes lk: "lock_ok s" and w: "who s q = None" and f: "\<And>s1. rest s1 = rest s \<Longrightarrow> f s1 = Inr ((), g s1)"
    and g: "\<And>s1. who (g s1) = who s1" "\<And>s1. lock_ok (g s1) = lock_ok s1" "\<And>s1. rest s1 = rest s \<Longrightarrow> rest (g s1) = rest (g s)"
  shows "\<exists>s'. locked_change c q f s = Inr ((), s') \<and> who s' = who s \<and> rest s' = rest (g s)"
proof -
  obtain s1 where s1: "acquire c q s = Inr ((), s1)" using acquire_total [OF lk w] by blast
  note a = acquire_step [OF s1 lk]
  have w1: "who (g s1) q = Some c" "lock_ok (g s1)" using a(2,3) g by simp_all
  obtain s2 where s2: "release c q (g s1) = Inr ((), s2)" "who s2 = (who (g s1))(q := None)" "rest s2 = rest (g s1)"
    using release_run [OF w1] by blast
  have "locked_change c q f s = Inr ((), s2)" using s1 f [OF a(4)] s2(1) by (simp add: locked_change_def run_simps)
  moreover have "who s2 = who s" using s2(2) a(1,2) g(1) by (auto simp: fun_upd_idem)
  ultimately show ?thesis using s2(3) g(3) [OF a(4)] by auto
qed

lemma boot_runnable:
  "\<exists>s. sched_reach boot_clk boot_sch s \<and> spc s 0 = Scan 0 False \<and> (\<forall>l. who s l = None) \<and> pstate s = (\<lambda>_. UNUSED)(3 := RUNNABLE)"
proof -
  have clk: "64 \<le> boot_clk ch" for ch by (simp add: boot_clk_def)
  have inv: "sinv boot_clk boot_sch" by (rule sched_boot_inv [OF boot_sch_boot])
  have w: "who boot_sch l = None" for l by (simp add: boot_sch_def who_def)
  have b: "spc boot_sch 0 = Window" "wpc boot_sch 0 = None" "pstate boot_sch = (\<lambda>_. UNUSED)" by (simp_all add: boot_sch_def)
  let ?g = "\<lambda>s. s\<lparr>pstate := (pstate s)(3 := USED), tpc := (tpc s)(3 := Away AtForkret False)\<rparr>"
  obtain s1 where s1: "locked_change 0 3 (alloc_change 3) boot_sch = Inr ((), s1)" "who s1 = who boot_sch" "rest s1 = rest (?g boot_sch)"
    using change_total [of boot_sch 3 "alloc_change 3" ?g 0] inv w b
    by (auto simp: sinv_def alloc_change_def set_defs run_simps rest_def)
  note r1 = rest_fields [OF s1(3)]
  have st1: "sched_step boot_clk boot_sch s1"
    by (rule sched_step.body_change [OF _ _ _ s1(1)]) (use b in \<open>simp_all add: in_body_def changes_def\<close>)
  have inv1: "sinv boot_clk s1" using st1 inv clk by (blast intro: sched_step_inv)
  let ?h = "\<lambda>s. s\<lparr>pstate := (pstate s)(3 := RUNNABLE)\<rparr>"
  obtain s2 where s2: "locked_change 0 3 (start_change 3) s1 = Inr ((), s2)" "who s2 = who s1" "rest s2 = rest (?h s1)"
    using change_total [of s1 3 "start_change 3" ?h 0] inv1 w s1(2) r1
    by (auto simp: sinv_def start_change_def set_defs run_simps rest_def)
  note r2 = rest_fields [OF s2(3)]
  have st2: "sched_step boot_clk s1 s2"
    by (rule sched_step.body_change [OF _ _ _ s2(1)]) (use b r1 in \<open>simp_all add: in_body_def changes_def\<close>)
  have "sinv boot_clk s2" using st2 inv1 clk by (blast intro: sched_step_inv)
  then obtain s3 where s3: "set_cpu 0 (\<lambda>x. x\<lparr>sie := False\<rparr>) s2 = Inr ((), s3)" "who s3 = who s2" "rest s3 = rest s2"
    using set_sie [of s2 0 False] unfolding sinv_def by blast
  note r3 = rest_fields [OF s3(3)]
  let ?s = "s3\<lparr>spc := (spc s3)(0 := Scan 0 False)\<rparr>"
  have st3: "sched_step boot_clk s2 ?s"
    by (rule sched_step.window_end [of _ 0]) (use b r1 r2 s1(2) s2(2) w s3(1) in
      \<open>simp_all add: sched_window_end_def intr_off_def set_spc_def run_simps held_def\<close>)
  have "sched_reach boot_clk boot_sch ?s" using st1 st2 st3 by (blast intro: sched_reach.intros)
  then show ?thesis using r1 r2 r3 b w s1(2) s2(2) s3(2) by (intro exI [of _ ?s]) auto
qed

subsection \<open>Properties\<close>

text \<open>
  C3: no wakeup is lost.  Under every interleaving of threads, schedulers and interrupt handlers on any number of CPUs,
  when a call of \<^verbatim>\<open>wakeup(chan)\<close> made while holding the condition lock of \<^verbatim>\<open>chan\<close> has been through the process table, no
  other process is asleep on \<^verbatim>\<open>chan\<close>, and none is in the window of \<^verbatim>\<open>sleep\<close> between the release of the condition lock and
  the change to \<^verbatim>\<open>SLEEPING\<close>.
\<close>

theorem no_lost_wakeup:
  assumes "sched_boot s0" "sched_reach clk s0 s" "\<And>ch. NPROC \<le> clk ch"
    and "wpc s c = Some (ch, i, b)" "NPROC \<le> i" "who s (clk ch) = Some c" "q < NPROC" "cproc s c \<noteq> Some q"
  shows "\<not> (pstate s q = SLEEPING \<and> p_chan s q = Some ch) \<and> (\<forall>l. tpc s q \<noteq> SleepFree ch l)"
proof -
  have "wake_ok clk s c" using sched_reach_inv [OF assms(2,1,3)] by (simp add: sinv_def)
  then have "\<not> drowsy s q ch" using assms(4-8) unfolding wake_ok_def by (metis order_less_le_trans)
  then show ?thesis by (auto simp: drowsy_def)
qed

theorem no_lost_wakeup_witness:
  "\<exists>s. sched_reach boot_clk boot_sch s \<and> wpc s 0 = Some ((''ticks'', 0), 64, False) \<and>
     \<not> (pstate s 5 = SLEEPING \<and> p_chan s 5 = Some (''ticks'', 0)) \<and> (\<forall>l. tpc s 5 \<noteq> SleepFree (''ticks'', 0) l)"
proof -
  obtain s where s: "sched_reach boot_clk boot_sch s" "wpc s 0 = Some ((''ticks'', 0), 64, False)" "cproc s 0 = None"
      "who s (boot_clk (''ticks'', 0)) = Some 0" using boot_wakeup by blast
  have "\<not> (pstate s 5 = SLEEPING \<and> p_chan s 5 = Some (''ticks'', 0)) \<and> (\<forall>l. tpc s 5 \<noteq> SleepFree (''ticks'', 0) l)"
    by (rule no_lost_wakeup [OF boot_sch_boot s(1) _ s(2) _ s(4)]) (simp_all add: s(3) boot_clk_def)
  then show ?thesis using s by blast
qed

text \<open>
  C17: none of the checks of the scheduling code fails: \<^verbatim>\<open>sched\<close> never panics for want of the lock, for another lock
  held, for a process still \<^verbatim>\<open>RUNNING\<close> or for interrupts being on, an exited process is never resumed, and no
  \<^verbatim>\<open>acquire\<close> or \<^verbatim>\<open>release\<close> in these functions panics.
\<close>

theorem scheduling_never_panics:
  assumes "sched_boot s0" "sched_reach clk s0 s" "\<And>ch. NPROC \<le> clk ch"
  shows "(wpc s c = None \<longrightarrow> spc s c = In p \<longrightarrow> thread_next c p (tpc s p) = Some f \<longrightarrow> f s \<noteq> Inl (Panic m)) \<and>
    (scheduler_next c (spc s c) = Some f \<longrightarrow> f s \<noteq> Inl (Panic m)) \<and>
    (wpc s c = Some w \<longrightarrow> wakeup_next c w s \<noteq> Inl (Panic m))"
  using sched_reach_inv [OF assms(2,1,3)] thread_no_panic scheduler_no_panic wakeup_no_panic by blast

theorem scheduling_never_panics_witness:
  "\<exists>s f. sched_reach boot_clk boot_sch s \<and> spc s 0 = Scan 0 False \<and> scheduler_next 0 (spc s 0) = Some f \<and> (\<forall>m. f s \<noteq> Inl (Panic m))"
proof -
  obtain s where s: "sched_reach boot_clk boot_sch s" "spc s 0 = Scan 0 False" using boot_runnable by blast
  have clk: "64 \<le> boot_clk ch" for ch by (simp add: boot_clk_def)
  have n: "scheduler_next 0 (spc s 0) = Some (thenK (acquire 0 0) (set_spc 0 (Test 0 False)))" by (simp add: s(2) scheduler_next_def)
  have "thenK (acquire 0 0) (set_spc 0 (Test 0 False)) s \<noteq> Inl (Panic m)" for m
    using scheduling_never_panics [OF boot_sch_boot s(1) clk, of 0 0 _ m] n by blast
  then show ?thesis using s n by blast
qed



end
