(* ===== verification/Proc_Props.thy ===== *)
theory Proc_Props
  imports Descriptors
begin

section \<open>Killing an unused process\<close>

text \<open>What \<^verbatim>\<open>kkill\<close> leaves in an unused entry of the process table, and what \<^verbatim>\<open>allocproc\<close> makes of it.\<close>

definition kview :: "'z kern_scheme \<Rightarrow> bool list \<times> nat" where
  "kview s = (map pkilled (procs s), cur s)"

lemma kview_more: "fs.more s' = fs.more s \<Longrightarrow> kview s' = kview s"
  by (cases s; cases s') (simp add: kview_def)

lemma leaves_kview: "leaves fs.more f \<Longrightarrow> leaves kview f"
  by (auto simp: leaves_def intro: kview_more)

lemmas kview_ops = more_ops [THEN leaves_kview]

lemma K_bind:
  assumes "kview s = V" "leaves kview f" "\<And>r s'. kview s' = V \<Longrightarrow> wp (k r) Q (\<lambda>_. True) s'"
  shows "wp (bindK f k) Q (\<lambda>_. True) s"
  unfolding wp_bind by (rule leaves_wp [OF assms(2)]) (use assms in simp)

lemma K_set:
  assumes "kview s = (P, c)" "i \<noteq> c" "\<And>p. pkilled (h p) = pkilled p" "\<And>s'. kview s' = (P, c) \<Longrightarrow> wp k Q (\<lambda>_. True) s'"
  shows "wp (thenK (set_proc i h) k) Q (\<lambda>_. True) s"
proof -
  let ?s = "put_proc i (h (proc_at s i)) s"
  have "kview ?s = (P, c)" using assms(1-3) map_upd_id [of pkilled "procs s" i]
    by (auto simp: kview_def put_proc_def proc_at_def map_update)
  then show ?thesis using assms(4) by (simp add: set_proc_def)
qed

lemma allocproc_keeps_killed:
  fixes s :: "'z kern_scheme"
  assumes s: "kview s = (P, c)" "find_index (\<lambda>p. state p = UNUSED) (procs s) = Some i" "i \<noteq> c"
  shows "wp allocproc (\<lambda>r s'. \<forall>j. r = Some j \<longrightarrow> j = i \<and> kview s' = (P, c)) (\<lambda>_. True) s"
proof -
  let ?Q = "\<lambda>r s'. \<forall>j. r = Some j \<longrightarrow> j = i \<and> kview s' = (P, c)"
  have fail: "wp (thenK (freeproc i) (returnK None)) ?Q (\<lambda>_. True) s1" for s1 :: "'z kern_scheme"
    by (auto simp: wp_def bindK_def thenK_def returnK_def split: sum.splits prod.splits)
  have pid: "leaves kview allocpid" unfolding allocpid_def by (intro leaves_intros leaves_modify; simp add: kview_def)
  have "wp (bindK allocpid (\<lambda>n. thenK (set_proc i (\<lambda>p. p\<lparr>pid := n, state := USED\<rparr>)) (bindK kalloc (\<lambda>tf.
       thenK (set_proc i (\<lambda>p. p\<lparr>trapframe := tf\<rparr>)) (if tf = 0 then thenK (freeproc i) (returnK None)
         else bindK (proc_pagetable tf) (\<lambda>pt. thenK (set_proc i (\<lambda>p. p\<lparr>pagetable := pt\<rparr>))
            (if pt = 0 then thenK (freeproc i) (returnK None)
             else bindK (getsK forkret_addr) (\<lambda>ra.
               thenK (set_proc i (\<lambda>p. p\<lparr>pcontext := zero_context\<lparr>ctx_ra := ra, ctx_sp := kstack p + PGSIZE\<rparr>\<rparr>))
                 (returnK (Some i)))))))))) ?Q (\<lambda>_. True) s"
    apply (rule K_bind [OF s(1) pid])
    apply (erule K_set, rule s(3), simp)
    apply (erule K_bind, intro leaves_intros kview_ops)
    apply (erule K_set, rule s(3), simp)
    apply (rule wp_ifI, rule fail)
    apply (erule K_bind, intro leaves_intros kview_ops)
    apply (erule K_set, rule s(3), simp)
    apply (rule wp_ifI, rule fail)
    apply (erule K_bind, intro leaves_intros)
    apply (erule K_set, rule s(3), simp)
    by simp
  then show ?thesis using s(2) by (simp only: allocproc_def wp_bind [of "getsK _"] wp_gets option.case)
qed

lemma kkill_unused:
  assumes "find (\<lambda>i. pid (proc_at s i) = n) [0..<NPROC] = Some i" "state (procs s ! i) = UNUSED" "i \<noteq> cur s" "i < length (procs s)"
  shows "kkill n s = Inr (0, s\<lparr>procs := (procs s)[i := (procs s ! i)\<lparr>pkilled := True\<rparr>]\<rparr>)"
  using assms by (simp add: kkill_def set_proc_def get_proc_def put_proc_def proc_at_def run_simps)

text \<open>
  C35: \<^verbatim>\<open>kill(0)\<close> kills a process that does not exist yet.  The entries that are not in use have pid 0, so \<^verbatim>\<open>kkill(0)\<close>
  succeeds, sets \<^verbatim>\<open>killed\<close> in the first of them and leaves it unused; \<^verbatim>\<open>allocproc\<close>, which does not clear the flag, then
  returns that very entry with \<^verbatim>\<open>killed\<close> set, whenever it returns one.
\<close>

theorem kill_zero_marks_next_process:
  assumes "find_index (\<lambda>p. state p = UNUSED) (procs s) = Some i" "i \<noteq> cur s"
    and "find (\<lambda>i. pid (proc_at s i) = 0) [0..<NPROC] = Some i"
  shows "\<exists>s'. kkill 0 s = Inr (0, s') \<and> state (procs s' ! i) = UNUSED \<and>
    (\<forall>j s''. allocproc s' = Inr (Some j, s'') \<longrightarrow> j = i \<and> pkilled (procs s'' ! i))"
proof -
  have i: "i < length (procs s)" "state (procs s ! i) = UNUSED" using find_index_SomeD [OF assms(1)] by auto
  let ?s = "s\<lparr>procs := (procs s)[i := (procs s ! i)\<lparr>pkilled := True\<rparr>]\<rparr>"
  have k: "kkill 0 s = Inr (0, ?s)" by (rule kkill_unused [OF assms(3) i(2) assms(2) i(1)])
  have first: "find_index (\<lambda>p. state p = UNUSED) (procs ?s) = Some i"
    by (rule find_index_SomeI) (use i find_index_SomeD [OF assms(1)] in auto)
  have v: "kview ?s = ((map pkilled (procs s))[i := True], cur s)" by (simp add: kview_def map_update)
  have "j = i \<and> pkilled (procs s'' ! i)" if "allocproc ?s = Inr (Some j, s'')" for j s''
  proof -
    have "j = i" "kview s'' = ((map pkilled (procs s))[i := True], cur s)"
      using allocproc_keeps_killed [OF v first assms(2)] that by (auto simp: wp_def)
    then have "map pkilled (procs s'') = (map pkilled (procs s))[i := True]" by (simp add: kview_def)
    then have "map pkilled (procs s'') ! i" "length (procs s'') = length (procs s)"
      using i(1) by (simp, metis length_list_update length_map)
    then show ?thesis using \<open>j = i\<close> i(1) by simp
  qed
  then show ?thesis using k i by (intro exI [of _ ?s]) simp
qed

definition idle_kern :: kern where
  "idle_kern = dup_kern\<lparr>procs := dup_proc # replicate 63 (dup_proc\<lparr>state := UNUSED, pid := 0, ofile := replicate 16 None\<rparr>), p_pid := 1\<rparr>"

theorem kill_zero_marks_next_process_witness:
  "\<exists>s'. kkill 0 idle_kern = Inr (0, s') \<and> state (procs s' ! 1) = UNUSED \<and>
    (\<forall>j s''. allocproc s' = Inr (Some j, s'') \<longrightarrow> j = 1 \<and> pkilled (procs s'' ! 1))"
proof -
  have p: "procs idle_kern ! 0 = dup_proc" "procs idle_kern ! 1 = dup_proc\<lparr>state := UNUSED, pid := 0, ofile := replicate 16 None\<rparr>"
    "length (procs idle_kern) = 64" "cur idle_kern = 0" "p_pid idle_kern = 1" by (simp_all add: idle_kern_def dup_kern_sel)
  have "find_index (\<lambda>p. state p = UNUSED) (procs idle_kern) = Some 1"
    by (rule find_index_SomeI) (use p in \<open>auto simp: dup_proc_def\<close>)
  moreover have "[0..<64] = 0 # 1 # [2..<64]" by (simp add: upt_conv_Cons)
  then have "find (\<lambda>i. pid (proc_at idle_kern i) = 0) [0..<64] = Some 1" using p by (simp add: proc_at_def)
  ultimately show ?thesis using kill_zero_marks_next_process [of idle_kern 1] p(4) by simp
qed

end
