(* ===== verification/Ulib.thy ===== *)
theory Ulib
  imports Printf
begin

unbundle bit_operations_syntax

section \<open>The user library (user/ulib.c, user/printf.c)\<close>

text \<open>
  The string and memory routines that user programs are linked with, on byte memory, and their formatted output.  Names that
  the kernel uses too have the prefix \<open>u\<close>.  A loop that ends only at a NUL or at a difference is a partial function.
\<close>

subsection \<open>Strings and memory\<close>

partial_function (option) strcpy :: "mem \<Rightarrow> addr \<Rightarrow> addr \<Rightarrow> mem option" where
  "strcpy m s t = (let c = m t; m' = m(s := c) in if c \<noteq> 0 then strcpy m' (s + 1) (t + 1) else Some m')"

partial_function (option) strcmp :: "mem \<Rightarrow> addr \<Rightarrow> addr \<Rightarrow> int option" where
  "strcmp m p q = (if m p \<noteq> 0 \<and> m p = m q then strcmp m (p + 1) (q + 1) else Some (uint (m p) - uint (m q)))"

definition ustrlen :: "mem \<Rightarrow> addr \<Rightarrow> nat option" where
  "ustrlen m s = strlen_from m s 0"

definition umemset :: "mem \<Rightarrow> addr \<Rightarrow> u32 \<Rightarrow> u32 \<Rightarrow> mem" where
  "umemset m dst c n = memset_loop m dst (ucast c) 0 (unat n)"

partial_function (option) ustrchr :: "mem \<Rightarrow> addr \<Rightarrow> byte \<Rightarrow> addr option" where
  "ustrchr m s c = (if m s = 0 then Some 0 else if m s = c then Some s else ustrchr m (s + 1) c)"

text \<open>\<^verbatim>\<open>memmove\<close>: forwards when the source is above the destination, else backwards from the ends.\<close>

definition umemmove :: "mem \<Rightarrow> addr \<Rightarrow> addr \<Rightarrow> int \<Rightarrow> mem" where
  "umemmove m vdst vsrc n =
     (if vsrc > vdst then memmove_fwd m vdst vsrc (nat n)
      else memmove_bwd m (vdst + of_int n) (vsrc + of_int n) (nat n))"

definition umemcmp :: "mem \<Rightarrow> addr \<Rightarrow> addr \<Rightarrow> u32 \<Rightarrow> int" where
  "umemcmp m s1 s2 n = memcmp_loop m s1 s2 (unat n)"

definition umemcpy :: "mem \<Rightarrow> addr \<Rightarrow> addr \<Rightarrow> u32 \<Rightarrow> mem" where
  "umemcpy m dst src n = umemmove m dst src (sint n)"

text \<open>
  \<^verbatim>\<open>gets\<close>, with the bytes that the calls of \<^verbatim>\<open>read\<close> return: the buffer without its NUL, and the bytes not read.
\<close>

fun gets_loop :: "nat \<Rightarrow> int \<Rightarrow> byte list \<Rightarrow> byte list \<times> byte list" where
  "gets_loop i mx [] = ([], [])"
| "gets_loop i mx (c # input) =
     (if int i + 1 < mx then
        if c = 10 \<or> c = 13 then ([c], input)
        else case gets_loop (i + 1) mx input of (buf, rest) \<Rightarrow> (c # buf, rest)
      else ([], c # input))"

definition gets :: "int \<Rightarrow> byte list \<Rightarrow> byte list \<times> byte list" where
  "gets mx input = gets_loop 0 mx input"

text \<open>\<^verbatim>\<open>atoi\<close>: None where the \<^verbatim>\<open>int\<close> overflows, which C leaves undefined.\<close>

fun atoi_loop :: "int \<Rightarrow> byte list \<Rightarrow> int option" where
  "atoi_loop n [] = Some n"
| "atoi_loop n (c # s) =
     (if 48 \<le> c \<and> c \<le> 57 then
        let n' = n * 10 + uint c in
        if n' < 2 ^ 31 then atoi_loop (n' - 48) s else None
      else Some n)"

definition atoi :: "byte list \<Rightarrow> int option" where
  "atoi s = atoi_loop 0 s"

subsection \<open>Formatted output\<close>

text \<open>\<^verbatim>\<open>digits[d]\<close>, in upper case here\<close>

definition udigit_char :: "nat \<Rightarrow> int" where
  "udigit_char d = (if d < 10 then 48 + int d else 55 + int d)"

text \<open>The local \<^verbatim>\<open>x\<close> is a \<^verbatim>\<open>uint\<close>: only the low half of the argument is printed.\<close>

definition uprintint :: "u64 \<Rightarrow> nat \<Rightarrow> bool \<Rightarrow> int list" where
  "uprintint xx base sign =
     (let neg = (sign \<and> sint xx < 0);
          x = (if neg then ucast (- xx) else ucast xx) :: u32
      in rev (map udigit_char (digits_of base (unat x)) @ (if neg then [45] else [])))"

primrec uptr_digits :: "nat \<Rightarrow> u64 \<Rightarrow> int list" where
  "uptr_digits 0 x = []"
| "uptr_digits (Suc n) x = udigit_char (unat (drop_bit 60 x)) # uptr_digits n (push_bit 4 x)"

definition uprintptr :: "u64 \<Rightarrow> int list" where
  "uprintptr x = 48 # 120 # uptr_digits 16 x"

definition udirective :: "byte \<Rightarrow> byte \<Rightarrow> byte \<Rightarrow> varg list \<Rightarrow> (int list \<times> varg list \<times> nat) option" where
  "udirective c0 c1 c2 args =
     (if c0 = c_d then with_reg args (\<lambda>w. uprintint (arg_int w) 10 True) 0
      else if c0 = c_l \<and> c1 = c_d then with_reg args (\<lambda>w. uprintint w 10 True) 1
      else if c0 = c_l \<and> c1 = c_l \<and> c2 = c_d then with_reg args (\<lambda>w. uprintint w 10 True) 2
      else if c0 = c_u then with_reg args (\<lambda>w. uprintint (arg_uint w) 10 False) 0
      else if c0 = c_l \<and> c1 = c_u then with_reg args (\<lambda>w. uprintint w 10 False) 1
      else if c0 = c_l \<and> c1 = c_l \<and> c2 = c_u then with_reg args (\<lambda>w. uprintint w 10 False) 2
      else if c0 = c_x then with_reg args (\<lambda>w. uprintint (arg_uint w) 16 False) 0
      else if c0 = c_l \<and> c1 = c_x then with_reg args (\<lambda>w. uprintint w 16 False) 1
      else if c0 = c_l \<and> c1 = c_l \<and> c2 = c_x then with_reg args (\<lambda>w. uprintint w 16 False) 2
      else if c0 = c_p then with_reg args uprintptr 0
      else if c0 = c_c then with_reg args (\<lambda>w. [uint (ucast w :: byte)]) 0
      else if c0 = c_s then
        (case args of Ptr p # rest \<Rightarrow> Some (map uint (case p of None \<Rightarrow> null_text | Some bs \<Rightarrow> bs), rest, 0) | _ \<Rightarrow> None)
      else if c0 = c_pct then Some ([37], args, 0)
      else Some ([37, uint c0], args, 0))"

text \<open>\<^verbatim>\<open>vprintf\<close>: what is written to \<^verbatim>\<open>fd\<close>; a percent sign at the end of the format writes nothing.\<close>

function vprintf :: "byte list \<Rightarrow> varg list \<Rightarrow> int list option" where
  "vprintf [] args = Some []"
| "vprintf (c # fmt) args =
     (if c \<noteq> c_pct then map_option ((#) (uint c)) (vprintf fmt args)
      else if fmt = [] then Some []
      else case udirective (char_at fmt 0) (char_at fmt 1) (if char_at fmt 1 \<noteq> 0 then char_at fmt 2 else 0) args of
             None \<Rightarrow> None
           | Some (out, args', skip) \<Rightarrow> map_option ((@) out) (vprintf (drop (Suc skip) fmt) args'))"
  by pat_completeness auto
termination
  by (relation "measure (\<lambda>(fmt, args). length fmt)") auto

declare vprintf.simps(2) [simp del]

subsection \<open>Properties\<close>

lemma umemmove_spec:
  assumes k: "k < 2 ^ 31" and src: "unat src + k \<le> 2 ^ 64" and dst: "unat dst + k \<le> 2 ^ 64"
  shows "umemmove m dst src (int k) x = (if unat (x - dst) < k then m (src + (x - dst)) else m x)"
proof -
  let ?N = "of_nat k :: u64"
  have k64: "k \<le> 2 ^ 64" using k by simp
  have N: "unat ?N = k" using k by (intro unat_of_nat_small) simp
  have off: "unat (p + of_nat i) = unat p + i" if "unat p + k \<le> 2 ^ 64" "i < k" for p :: u64 and i
    using that k by (simp add: unat_word_ariths unat_of_nat)
  show ?thesis
  proof (cases "src > dst")
    case True
    have "dst + of_nat i \<noteq> src + of_nat j" if "i < j" "j < k" for i j
    proof
      assume "dst + of_nat i = src + of_nat j"
      then have "unat dst + i = unat src + j" using off [OF dst, of i] off [OF src, of j] that by simp
      then show False using True that by (simp add: word_less_nat_alt)
    qed
    then show ?thesis using True memmove_fwd_spec [OF k64, of dst src m x] by (simp add: umemmove_def)
  next
    case False
    have "dst + ?N - of_nat i \<noteq> src + ?N - of_nat j" if "i < j" "j < k" for i j
    proof
      assume "dst + ?N - of_nat i = src + ?N - of_nat j"
      then have "dst + of_nat j = src + of_nat i" by (simp add: algebra_simps)
      then have "unat dst + j = unat src + i" using off [OF dst, of j] off [OF src, of i] that by simp
      then show False using False that by (simp add: word_less_nat_alt)
    qed
    then have "umemmove m dst src (int k) x = (if unat (dst + ?N - (x + 1)) < k then m (src + ?N - (dst + ?N - x)) else m x)"
      using False memmove_bwd_spec [OF k64, of "dst + ?N" "src + ?N" m x] by (simp add: umemmove_def)
    moreover have "unat (dst + ?N - (x + 1)) < k \<longleftrightarrow> unat (x - dst) < k"
    proof (cases "k = 0")
      case False
      then have c: "unat (?N - 1) = k - 1" using N by (metis unat_eq_zero unat_minus_one)
      have "dst + ?N - (x + 1) = (?N - 1) - (x - dst)" by (simp add: algebra_simps)
      then have "unat (dst + ?N - (x + 1)) \<le> unat (?N - 1) \<longleftrightarrow> unat (x - dst) \<le> unat (?N - 1)" by (simp only: unat_sub_le_iff)
      then show ?thesis using c False by linarith
    qed simp
    ultimately show ?thesis by (simp add: algebra_simps)
  qed
qed

text \<open>
  the user library's \<^verbatim>\<open>memmove\<close>, which chooses its direction by comparing the pointers only, leaves the same memory as the
  kernel's, which looks at the overlap, for every pair of regions that does not wrap around the address space.
\<close>

lemma umemmove_equals_kernel_memmove:
  assumes "0 \<le> n" "n < 2 ^ 31" "unat src + nat n \<le> 2 ^ 64" "unat dst + nat n \<le> 2 ^ 64"
  shows "umemmove m dst src n = memmove m dst src (of_int n)"
proof
  fix x
  obtain k where k: "n = int k" "k < 2 ^ 31" using assms(1,2) by (cases n) auto
  then have "unat (of_int n :: u32) = k" by (simp add: unat_of_nat take_bit_nat_eq_self)
  then show "umemmove m dst src n x = memmove m dst src (of_int n) x"
    using assms(3,4) k umemmove_spec [of k src dst m x] memmove_spec [of src "of_int n" dst m x] by simp
qed


end
