(* ===== verification/Grep.thy ===== *)
theory Grep
  imports Layout
begin

section \<open>grep (user/grep.c)\<close>

text \<open>
  A \<^verbatim>\<open>char *\<close> to a NUL-terminated string is the list of its bytes up to the NUL.  The program reads its input in pieces of
  whatever size \<^verbatim>\<open>read\<close> returns; the sizes are a parameter.
\<close>

abbreviation (input) c_caret :: byte where "c_caret \<equiv> 94"
abbreviation (input) c_dollar :: byte where "c_dollar \<equiv> 36"
abbreviation (input) c_star :: byte where "c_star \<equiv> 42"
abbreviation (input) c_dot :: byte where "c_dot \<equiv> 46"
abbreviation (input) c_newline :: byte where "c_newline \<equiv> 10"

subsection \<open>The matcher\<close>

function (sequential) matchhere :: "byte list \<Rightarrow> byte list \<Rightarrow> bool"
  and matchstar :: "byte \<Rightarrow> byte list \<Rightarrow> byte list \<Rightarrow> bool" where
  "matchhere [] tx = True"
| "matchhere (r # re) tx =
     (if re \<noteq> [] \<and> hd re = c_star then matchstar r (tl re) tx
      else if r = c_dollar \<and> re = [] then tx = []
      else if tx \<noteq> [] \<and> (r = c_dot \<or> r = hd tx) then matchhere re (tl tx)
      else False)"
| "matchstar c re tx =
     (if matchhere re tx then True
      else if tx \<noteq> [] \<and> (hd tx = c \<or> c = c_dot) then matchstar c re (tl tx)
      else False)"
  by pat_completeness auto
termination
  by (relation "measures [\<lambda>x. case x of Inl (re, tx) \<Rightarrow> length re | Inr (c, re, tx) \<Rightarrow> Suc (length re),
        \<lambda>x. case x of Inl (re, tx) \<Rightarrow> length tx | Inr (c, re, tx) \<Rightarrow> length tx]")
     (auto simp: neq_Nil_conv)

fun match_from :: "byte list \<Rightarrow> byte list \<Rightarrow> bool" where
  "match_from re tx = (if matchhere re tx then True else if tx \<noteq> [] then match_from re (tl tx) else False)"

declare matchhere.simps(2) [simp del] matchstar.simps [simp del] match_from.simps [simp del]

definition match :: "byte list \<Rightarrow> byte list \<Rightarrow> bool" where
  "match re tx = (if re \<noteq> [] \<and> hd re = c_caret then matchhere (tl re) tx else match_from re tx)"

subsection \<open>What a pattern means\<close>

text \<open>A pattern is a sequence of single characters and repeated ones, perhaps tied to the start and to the end of the line.\<close>

datatype atom = Lit byte | Any
datatype item = One atom | Many atom

fun atom_of :: "byte \<Rightarrow> atom" where
  "atom_of c = (if c = c_dot then Any else Lit c)"

fun items_of :: "byte list \<Rightarrow> item list \<times> bool" where
  "items_of [] = ([], False)"
| "items_of [c] = (if c = c_dollar then ([], True) else ([One (atom_of c)], False))"
| "items_of (c # d # re) =
     (if d = c_star then (case items_of re of (xs, e) \<Rightarrow> (Many (atom_of c) # xs, e))
      else (case items_of (d # re) of (xs, e) \<Rightarrow> (One (atom_of c) # xs, e)))"

fun atom_ok :: "atom \<Rightarrow> byte \<Rightarrow> bool" where
  "atom_ok (Lit c) b = (b = c)"
| "atom_ok Any b = True"

fun item_lang :: "item \<Rightarrow> byte list set" where
  "item_lang (One a) = {[b] | b. atom_ok a b}"
| "item_lang (Many a) = {bs. \<forall>b \<in> set bs. atom_ok a b}"

primrec lang :: "item list \<Rightarrow> byte list set" where
  "lang [] = {[]}"
| "lang (x # xs) = {u @ v | u v. u \<in> item_lang x \<and> v \<in> lang xs}"

definition occurs :: "byte list \<Rightarrow> byte list \<Rightarrow> bool" where
  "occurs re tx \<longleftrightarrow>
     (let start = (re \<noteq> [] \<and> hd re = c_caret); (xs, e) = items_of (if start then tl re else re) in
      \<exists>u v w. tx = u @ v @ w \<and> v \<in> lang xs \<and> (start \<longrightarrow> u = []) \<and> (e \<longrightarrow> w = []))"

definition here :: "byte list \<Rightarrow> byte list \<Rightarrow> bool" where
  "here re tx \<longleftrightarrow> (\<exists>v w. tx = v @ w \<and> v \<in> lang (fst (items_of re)) \<and> (snd (items_of re) \<longrightarrow> w = []))"

lemma here_Nil [simp]: "here [] tx"
  by (simp add: here_def)

lemma here_dollar: "here [c_dollar] tx \<longleftrightarrow> tx = []"
  by (simp add: here_def)

lemma lang_step:
  "(\<exists>v w. tx = v @ w \<and> v \<in> lang (x # xs) \<and> (e \<longrightarrow> w = [])) \<longleftrightarrow>
   (\<exists>u t. tx = u @ t \<and> u \<in> item_lang x \<and> (\<exists>v w. t = v @ w \<and> v \<in> lang xs \<and> (e \<longrightarrow> w = [])))" (is "?l \<longleftrightarrow> ?r")
proof
  assume ?l
  then obtain y w where y: "tx = y @ w" "y \<in> lang (x # xs)" "e \<longrightarrow> w = []" by blast
  then obtain u v where "y = u @ v" "u \<in> item_lang x" "v \<in> lang xs" by auto
  with y have "tx = (u @ v) @ w" "u \<in> item_lang x" "v \<in> lang xs" "e \<longrightarrow> w = []" by auto
  then show ?r by (intro exI [of _ u] exI [of _ "v @ w"]) auto
next
  assume ?r
  then obtain u v w where "tx = u @ v @ w" "u \<in> item_lang x" "v \<in> lang xs" "e \<longrightarrow> w = []" by blast
  then show ?l by (intro exI [of _ "u @ v"] exI [of _ w]) auto
qed

lemma here_star: "here (c # c_star # re) tx \<longleftrightarrow> (\<exists>u v. tx = u @ v \<and> (\<forall>b \<in> set u. atom_ok (atom_of c) b) \<and> here re v)"
proof -
  have i: "items_of (c # c_star # re) = (Many (atom_of c) # fst (items_of re), snd (items_of re))" by (simp split: prod.splits)
  show ?thesis unfolding here_def i fst_conv snd_conv lang_step by simp
qed

lemma here_one:
  assumes "re = [] \<or> hd re \<noteq> c_star" "\<not> (c = c_dollar \<and> re = [])"
  shows "here (c # re) tx \<longleftrightarrow> tx \<noteq> [] \<and> atom_ok (atom_of c) (hd tx) \<and> here re (tl tx)"
proof -
  have i: "items_of (c # re) = (One (atom_of c) # fst (items_of re), snd (items_of re))"
    using assms by (cases re) (auto split: prod.splits)
  have "here (c # re) tx \<longleftrightarrow> (\<exists>u t. tx = u @ t \<and> u \<in> item_lang (One (atom_of c)) \<and> here re t)"
    unfolding here_def i fst_conv snd_conv lang_step by (rule refl)
  also have "\<dots> \<longleftrightarrow> (\<exists>b t. tx = b # t \<and> atom_ok (atom_of c) b \<and> here re t)"
    unfolding item_lang.simps by (simp del: atom_of.simps) (metis append_Cons append_Nil)
  finally show ?thesis by (cases tx) auto
qed

lemma star_step:
  "(\<exists>u v. tx = u @ v \<and> (\<forall>b \<in> set u. P b) \<and> Q v) \<longleftrightarrow> Q tx \<or> tx \<noteq> [] \<and> P (hd tx) \<and> (\<exists>u v. tl tx = u @ v \<and> (\<forall>b \<in> set u. P b) \<and> Q v)"
  (is "?l \<longleftrightarrow> ?r")
proof
  assume ?l
  then obtain u v where uv: "tx = u @ v" "\<forall>b \<in> set u. P b" "Q v" by blast
  then show ?r by (cases u) auto
next
  assume ?r
  then consider "Q tx" | u v where "tx \<noteq> []" "P (hd tx)" "tl tx = u @ v" "\<forall>b \<in> set u. P b" "Q v" by blast
  then show ?l
  proof cases
    case 1
    then show ?thesis by (intro exI [of _ "[]"] exI [of _ tx]) simp
  next
    case 2
    then show ?thesis by (intro exI [of _ "hd tx # u"] exI [of _ v]) (cases tx; simp)
  qed
qed

lemma matchers_here:
  "matchhere re tx \<longleftrightarrow> here re tx"
  "matchstar c re tx \<longleftrightarrow> (\<exists>u v. tx = u @ v \<and> (\<forall>b \<in> set u. atom_ok (atom_of c) b) \<and> here re v)"
proof (induction re tx and c re tx rule: matchhere_matchstar.induct)
  case (2 r re tx)
  consider "re \<noteq> []" "hd re = c_star" | "re = []" "r = c_dollar" | "re = [] \<or> hd re \<noteq> c_star" "\<not> (r = c_dollar \<and> re = [])" by blast
  then show ?case
  proof cases
    case 1
    then have re: "re = c_star # tl re" by (cases re) auto
    have "matchhere (r # re) tx \<longleftrightarrow> matchstar r (tl re) tx" using 1 by (simp add: matchhere.simps(2))
    also have "\<dots> \<longleftrightarrow> here (r # c_star # tl re) tx" using 2(1) 1 by (simp only: here_star) simp
    finally show ?thesis using re by simp
  next
    case 2
    then show ?thesis by (simp add: matchhere.simps(2) here_dollar)
  next
    case 3
    have "matchhere (r # re) tx \<longleftrightarrow> tx \<noteq> [] \<and> atom_ok (atom_of r) (hd tx) \<and> matchhere re (tl tx)"
      using 3 by (auto simp: matchhere.simps(2))
    then show ?thesis using 2(2) 3 unfolding here_one [OF 3] by auto
  qed
next
  case (3 c re tx)
  have "matchstar c re tx \<longleftrightarrow> matchhere re tx \<or> tx \<noteq> [] \<and> atom_ok (atom_of c) (hd tx) \<and> matchstar c re (tl tx)"
    by (auto simp: matchstar.simps [of c re tx])
  then show ?case using 3 by (subst star_step) (auto split: if_splits)
qed simp

lemma match_from_here: "match_from re tx \<longleftrightarrow> (\<exists>u t. tx = u @ t \<and> here re t)"
proof (induction re tx rule: match_from.induct)
  case (1 re tx)
  have "match_from re tx \<longleftrightarrow> here re tx \<or> tx \<noteq> [] \<and> match_from re (tl tx)"
    by (simp add: match_from.simps [of re tx] matchers_here(1))
  then show ?case using 1 star_step [of tx "\<lambda>_. True" "here re"] by (auto simp: matchers_here(1))
qed

lemma match_occurs: "match re tx \<longleftrightarrow> occurs re tx"
proof (cases "re \<noteq> [] \<and> hd re = c_caret")
  case True
  then show ?thesis by (auto simp: match_def occurs_def matchers_here(1) here_def split: prod.splits)
next
  case False
  have "match re tx \<longleftrightarrow> (\<exists>u t. tx = u @ t \<and> here re t)" using False unfolding match_def by (simp only: if_False match_from_here)
  also have "\<dots> \<longleftrightarrow> occurs re tx" using False by (auto simp: occurs_def here_def split: prod.splits)
  finally show ?thesis .
qed

subsection \<open>Reading lines\<close>

text \<open>\<^verbatim>\<open>strchr\<close> (user/ulib.c): the distance to the first occurrence, before the NUL.\<close>

fun strchr :: "byte list \<Rightarrow> byte \<Rightarrow> nat option" where
  "strchr [] c = None"
| "strchr (b # s) c = (if b = 0 then None else if b = c then Some 0 else map_option Suc (strchr s c))"

lemma strchr_Some: "strchr s c = Some i \<Longrightarrow> i < length s"
  by (induction s arbitrary: i) (auto split: if_splits)

text \<open>
  The inner loop of \<^verbatim>\<open>grep\<close> on the filled part of the buffer: what it writes, and what is left from \<^verbatim>\<open>p\<close> on.
\<close>

function grep_lines :: "byte list \<Rightarrow> byte list \<Rightarrow> byte list \<times> byte list" where
  "grep_lines pattern p =
     (case strchr p c_newline of
        None \<Rightarrow> ([], p)
      | Some q \<Rightarrow>
          (case grep_lines pattern (drop (q + 1) p) of (out, p') \<Rightarrow>
             ((if match pattern (take q p) then take (q + 1) p else []) @ out, p')))"
  by pat_completeness auto
termination
  by (relation "measure (\<lambda>(pattern, p). length p)") (auto dest: strchr_Some)

declare grep_lines.simps [simp del]

text \<open>
  \<^verbatim>\<open>grep\<close>: each \<^verbatim>\<open>read\<close> returns as much of the rest of the input as it has ready, at most what fits into the
  buffer of 1024 bytes with its NUL; 0 ends the loop.
\<close>

fun grep :: "byte list \<Rightarrow> byte list \<Rightarrow> byte list \<Rightarrow> nat list \<Rightarrow> byte list" where
  "grep pattern buf input [] = []"
| "grep pattern buf input (ready # reads) =
     (let n = min ready (1024 - length buf - 1); got = take n input in
      if got = [] then []
      else case grep_lines pattern (buf @ got) of (out, rest) \<Rightarrow> out @ grep pattern rest (drop n input) reads)"

text \<open>The lines of a text that end in a newline, and what follows the last newline.\<close>

fun lines_acc :: "byte list \<Rightarrow> byte list \<Rightarrow> byte list list" where
  "lines_acc acc [] = []"
| "lines_acc acc (b # s) = (if b = c_newline then acc # lines_acc [] s else lines_acc (acc @ [b]) s)"

fun left_acc :: "byte list \<Rightarrow> byte list \<Rightarrow> byte list" where
  "left_acc acc [] = acc"
| "left_acc acc (b # s) = (if b = c_newline then left_acc [] s else left_acc (acc @ [b]) s)"

definition lines_of :: "byte list \<Rightarrow> byte list list" where
  "lines_of s = lines_acc [] s"

definition matching :: "byte list \<Rightarrow> byte list list \<Rightarrow> byte list" where
  "matching pattern ls = concat (map (\<lambda>l. l @ [c_newline]) (filter (match pattern) ls))"

lemma lines_acc_append: "lines_acc acc (x @ y) = lines_acc acc x @ lines_acc (left_acc acc x) y"
  by (induction x arbitrary: acc) auto

lemma lines_acc_prefix: "c_newline \<notin> set x \<Longrightarrow> lines_acc acc (x @ y) = lines_acc (acc @ x) y"
  by (induction x arbitrary: acc) auto

lemma left_acc_infix: "c_newline \<notin> set acc \<Longrightarrow> c_newline \<notin> set (left_acc acc x) \<and> (\<exists>u. acc @ x = u @ left_acc acc x)"
proof (induction x arbitrary: acc)
  case (Cons b x)
  show ?case
  proof (cases "b = c_newline")
    case True
    then obtain u where "c_newline \<notin> set (left_acc [] x)" "x = u @ left_acc [] x" using Cons.IH [of "[]"] by auto
    then show ?thesis using True by (auto intro: exI [of _ "acc @ b # u"])
  next
    case False
    then show ?thesis using Cons.IH [of "acc @ [b]"] Cons.prems by simp
  qed
qed simp

lemma strchr_lines:
  assumes "0 \<notin> set p"
  shows "case strchr p c_newline of
      None \<Rightarrow> lines_acc acc p = [] \<and> left_acc acc p = acc @ p
    | Some q \<Rightarrow> lines_acc acc p = (acc @ take q p) # lines_acc [] (drop (q + 1) p) \<and>
        left_acc acc p = left_acc [] (drop (q + 1) p) \<and> take (q + 1) p = take q p @ [c_newline]"
  using assms by (induction p arbitrary: acc) (auto split: option.splits)

lemma grep_lines_spec:
  assumes "0 \<notin> set p"
  shows "grep_lines pattern p = (matching pattern (lines_acc [] p), left_acc [] p)"
  using assms
proof (induction pattern p rule: grep_lines.induct)
  case (1 pattern p)
  note l = strchr_lines [OF 1(2), of "[]"]
  show ?case
  proof (cases "strchr p c_newline")
    case None
    then show ?thesis using l by (simp add: grep_lines.simps [of _ p] matching_def)
  next
    case (Some q)
    have "0 \<notin> set (drop (q + 1) p)" using 1(2) set_drop_subset by fast
    then have "grep_lines pattern (drop (q + 1) p) = (matching pattern (lines_acc [] (drop (q + 1) p)), left_acc [] (drop (q + 1) p))"
      using 1(1) [OF Some] by simp
    then show ?thesis using Some l by (simp add: grep_lines.simps [of _ p] matching_def)
  qed
qed

definition short_lines :: "byte list \<Rightarrow> bool" where
  "short_lines s \<longleftrightarrow> (\<forall>u v w. s = u @ v @ w \<longrightarrow> c_newline \<notin> set v \<longrightarrow> length v < 1023)"

lemma short_lines_suffix: "short_lines (x @ y) \<Longrightarrow> short_lines y"
  unfolding short_lines_def by (metis append_assoc)

lemma grep_spec:
  assumes "c_newline \<notin> set buf" "0 \<notin> set (buf @ input)" "short_lines (buf @ input)" "\<forall>n \<in> set reads. 0 < n" "length input \<le> length reads"
  shows "grep pattern buf input reads = matching pattern (lines_acc [] (buf @ input))"
  using assms
proof (induction reads arbitrary: buf input)
  case Nil
  then show ?case using lines_acc_prefix [of buf "[]" "[]"] by (simp add: matching_def)
next
  case (Cons ready reads)
  define n where "n = min ready (1024 - length buf - 1)"
  have "length buf < 1023" using Cons.prems(1,3) unfolding short_lines_def by (metis append_Nil)
  then have n: "0 < n" using Cons.prems(4) by (simp add: n_def)
  show ?case
  proof (cases input)
    case Nil
    then show ?thesis using Cons.prems(1) lines_acc_prefix [of buf "[]" "[]"] by (simp add: matching_def Let_def)
  next
    case (Cons b t)
    let ?got = "take n input" and ?new = "drop n input"
    have got: "?got \<noteq> []" using n Cons by simp
    let ?left = "left_acc [] (buf @ ?got)"
    obtain u where u: "c_newline \<notin> set ?left" "buf @ ?got = u @ ?left" using left_acc_infix [of "[]" "buf @ ?got"] by auto
    have all: "buf @ input = (buf @ ?got) @ ?new" "buf @ input = u @ ?left @ ?new" using u(2) by (metis append_take_drop_id append_assoc)+
    have z: "0 \<notin> set (buf @ ?got)" "0 \<notin> set (?left @ ?new)" using Cons.prems(2) all by (metis Un_iff set_append)+
    have short: "short_lines (?left @ ?new)" using Cons.prems(3) all(2) short_lines_suffix by metis
    have len: "length ?new \<le> length reads" using Cons.prems(5) n unfolding length_drop list.size(4) by linarith
    have "grep pattern ?left ?new reads = matching pattern (lines_acc [] (?left @ ?new))"
      by (rule Cons.IH [OF u(1) z(2) short _ len]) (use Cons.prems(4) in simp)
    then have "grep pattern buf input (ready # reads) = matching pattern (lines_acc [] (buf @ ?got)) @ matching pattern (lines_acc [] (?left @ ?new))"
      using got by (simp only: grep.simps n_def [symmetric] Let_def grep_lines_spec [OF z(1)] prod.case if_False)
    also have "lines_acc [] (?left @ ?new) = lines_acc ?left ?new" using lines_acc_prefix [OF u(1)] by simp
    also have "matching pattern (lines_acc [] (buf @ ?got)) @ matching pattern (lines_acc ?left ?new) = matching pattern (lines_acc [] (buf @ input))"
      by (subst all(1), subst lines_acc_append) (simp add: matching_def)
    finally show ?thesis .
  qed
qed

subsection \<open>Properties\<close>

text \<open>
  C30: the matcher decides exactly the language of the pattern: \<^verbatim>\<open>match\<close>, with its backtracking over \<^verbatim>\<open>matchhere\<close> and \<^verbatim>\<open>matchstar\<close>,
  succeeds if and only if some part of the text, starting at the beginning after a caret and reaching to the end before a
  final dollar sign, is in the language of the pattern's sequence of characters, dots and repetitions.
\<close>

theorem match_decides_language: "match re tx \<longleftrightarrow> occurs re tx"
  by (rule match_occurs)

text \<open>
  C31: however \<^verbatim>\<open>read\<close> cuts the input into pieces, \<^verbatim>\<open>grep\<close> writes exactly the lines that match, each with its newline and in
  their order, when no line is longer than the buffer and the text has no NUL.  A last line without a newline is not
  looked at.
\<close>

theorem grep_prints_matching_lines:
  assumes "0 \<notin> set input" "short_lines input" "\<forall>n \<in> set reads. 0 < n" "length input \<le> length reads"
  shows "grep pattern [] input reads = concat (map (\<lambda>l. l @ [c_newline]) (filter (\<lambda>l. occurs pattern l) (lines_of input)))"
proof -
  have "match pattern = (\<lambda>l. occurs pattern l)" by (rule ext) (rule match_occurs)
  then show ?thesis using grep_spec [of "[]" input reads pattern] assms by (simp add: matching_def lines_of_def)
qed

theorem grep_prints_matching_lines_witness:
  "grep [97, 42, 98, 36] [] [97, 97, 98, 10, 98, 97, 10, 98, 10, 98] [3, 1, 9, 2, 2, 2, 2, 2, 2, 2] = [97, 97, 98, 10, 98, 10] \<and>
   concat (map (\<lambda>l. l @ [10]) (filter (\<lambda>l. occurs [97, 42, 98, 36] l) (lines_of [97, 97, 98, 10, 98, 97, 10, 98, 10, 98]))) =
     [97, 97, 98, 10, 98, 10]"
proof -
  let ?in = "[97, 97, 98, 10, 98, 97, 10, 98, 10, 98] :: byte list"
  have g: "grep [97, 42, 98, 36] [] ?in [3, 1, 9, 2, 2, 2, 2, 2, 2, 2] = [97, 97, 98, 10, 98, 10]" by code_simp
  have "length v < 1023" if "?in = u @ v @ w" for u v w :: "byte list"
    using arg_cong [OF that, of length] by simp
  then have "short_lines ?in" unfolding short_lines_def by blast
  then show ?thesis using grep_prints_matching_lines [of ?in "[3, 1, 9, 2, 2, 2, 2, 2, 2, 2]" "[97, 42, 98, 36]"] g by simp
qed

end
