(* ===== verification/Programs.thy ===== *)
theory Programs
  imports Ulib Grep
begin

section \<open>sixfive, wc, memdump and sleep (user/)\<close>

text \<open>
  The input of a program is the list of bytes that its calls of \<^verbatim>\<open>read\<close> return, and whether the last one failed; the output of
  \<^verbatim>\<open>sixfive\<close> is the list of numbers it prints.  An \<^verbatim>\<open>int\<close> that overflows has no defined behaviour: None.
\<close>

subsection \<open>sixfive\<close>

definition number_tokens :: "byte list" where
  "number_tokens = str ''0123456789''"

definition separator_tokens :: "byte list" where
  "separator_tokens = [32, 45, 13, 9, 10, 46, 47, 44]"

definition str_contains :: "byte list \<Rightarrow> byte \<Rightarrow> bool" where
  "str_contains s tok = (strchr s tok \<noteq> None)"

definition is_number :: "byte \<Rightarrow> bool" where
  "is_number tok = str_contains number_tokens tok"

definition is_separator :: "byte \<Rightarrow> bool" where
  "is_separator tok = str_contains separator_tokens tok"

definition process_number :: "int \<Rightarrow> int list" where
  "process_number n = (if n mod 5 = 0 \<or> n mod 6 = 0 then [n] else [])"

record sixfive =
  prev_is_number :: bool
  prev_is_separator :: bool
  number :: int

text \<open>
  One turn of the loop.  \<^verbatim>\<open>atoi(&token)\<close> reads on behind the one-byte variable: \<open>after\<close> are the bytes that follow it
  on the stack.
\<close>

definition sixfive_turn :: "byte list \<Rightarrow> byte \<Rightarrow> sixfive \<Rightarrow> (sixfive \<times> int list) option" where
  "sixfive_turn after tok s =
     (if prev_is_number s then
        if is_number tok then
          case atoi (tok # after) of
            None \<Rightarrow> None
          | Some d \<Rightarrow>
              let n = number s * 10 + d in
              if n < 2 ^ 31 then Some (s\<lparr>number := n\<rparr>, []) else None
        else if is_separator tok then
          Some (s\<lparr>number := 0, prev_is_separator := True, prev_is_number := False\<rparr>, process_number (number s))
        else Some (s\<lparr>number := 0, prev_is_separator := False, prev_is_number := False\<rparr>, [])
      else if prev_is_separator s then
        if is_number tok then
          map_option (\<lambda>n. (s\<lparr>number := n, prev_is_separator := False, prev_is_number := True\<rparr>, [])) (atoi (tok # after))
        else if is_separator tok then Some (s, [])
        else Some (s\<lparr>prev_is_separator := False, prev_is_number := False\<rparr>, [])
      else
        if is_number tok then Some (s, [])
        else if is_separator tok then Some (s\<lparr>prev_is_separator := True, prev_is_number := False\<rparr>, [])
        else Some (s, []))"

fun sixfive_loop :: "byte list \<Rightarrow> byte list \<Rightarrow> sixfive \<Rightarrow> (sixfive \<times> int list) option" where
  "sixfive_loop after [] s = Some (s, [])"
| "sixfive_loop after (tok # input) s =
     (case sixfive_turn after tok s of
        None \<Rightarrow> None
      | Some (s', out) \<Rightarrow> map_option (\<lambda>(s'', out'). (s'', out @ out')) (sixfive_loop after input s'))"

text \<open>\<^verbatim>\<open>process_file\<close>: its result and what it prints.\<close>

definition process_file :: "byte list \<Rightarrow> byte list \<Rightarrow> bool \<Rightarrow> (int \<times> int list) option" where
  "process_file after input failed =
     (case sixfive_loop after input \<lparr>prev_is_number = False, prev_is_separator = True, number = 0\<rparr> of
        None \<Rightarrow> None
      | Some (s, out) \<Rightarrow>
          if failed then Some (-1, out)
          else Some (0, out @ (if prev_is_number s then process_number (number s) else [])))"

subsection \<open>wc\<close>

record wcount =
  wc_l :: nat
  wc_w :: nat
  wc_c :: nat
  inword :: bool

definition wc_turn :: "byte \<Rightarrow> wcount \<Rightarrow> wcount" where
  "wc_turn b s =
     (let s1 = s\<lparr>wc_c := wc_c s + 1\<rparr>;
          s2 = (if b = 10 then s1\<lparr>wc_l := wc_l s1 + 1\<rparr> else s1) in
      if strchr [32, 13, 9, 10, 11] b \<noteq> None then s2\<lparr>inword := False\<rparr>
      else if \<not> inword s2 then s2\<lparr>wc_w := wc_w s2 + 1, inword := True\<rparr>
      else s2)"

text \<open>\<^verbatim>\<open>wc\<close> over the pieces that \<^verbatim>\<open>read\<close> returns.\<close>

definition wc :: "byte list list \<Rightarrow> wcount" where
  "wc pieces = fold (fold wc_turn) pieces \<lparr>wc_l = 0, wc_w = 0, wc_c = 0, inword = False\<rparr>"

subsection \<open>memdump\<close>

definition read32 :: "mem \<Rightarrow> addr \<Rightarrow> u32" where
  "read32 m a = le_word (mem_bytes m a 4)"

definition read16 :: "mem \<Rightarrow> addr \<Rightarrow> u16" where
  "read16 m a = le_word (mem_bytes m a 2)"

text \<open>The C string at an address; None when there is no NUL.\<close>

definition cstring_at :: "mem \<Rightarrow> addr \<Rightarrow> byte list option" where
  "cstring_at m a = map_option (mem_bytes m a) (strlen m a)"

text \<open>One character of the format: what is printed and by how much the pointer moves on.\<close>

definition memdump_token :: "mem \<Rightarrow> byte \<Rightarrow> addr \<Rightarrow> (int list \<times> u64) option" where
  "memdump_token m tok a =
     (if tok = 105 then map_option (\<lambda>t. (t, 4)) (vprintf (str ''%d'') [Reg (scast (read32 m a))])
      else if tok = 112 then map_option (\<lambda>t. (t, 8)) (vprintf (str ''%lx'') [Reg (read64 m a)])
      else if tok = 104 then map_option (\<lambda>t. (t, 2)) (vprintf (str ''%d'') [Reg (scast (read16 m a))])
      else if tok = 99 then map_option (\<lambda>t. (t, 1)) (vprintf (str ''%c'') [Reg (ucast (m a))])
      else if tok = 115 then
        (if read64 m a = 0 then map_option (\<lambda>t. (t, 8)) (vprintf (str ''%s'') [Ptr None])
         else case cstring_at m (read64 m a) of
                None \<Rightarrow> None
              | Some cs \<Rightarrow> map_option (\<lambda>t. (t, 8)) (vprintf (str ''%s'') [Ptr (Some cs)]))
      else case cstring_at m a of
             None \<Rightarrow> None
           | Some cs \<Rightarrow> map_option (\<lambda>t. (t, 0)) (vprintf (str ''%s'') [Ptr (Some cs)]))"

definition bad_token :: "byte \<Rightarrow> int list option" where
  "bad_token tok = vprintf (str ''Error processing input. %c is not a valid token.'' @ [10]) [Reg (ucast tok)]"

fun memdump :: "mem \<Rightarrow> byte list \<Rightarrow> addr \<Rightarrow> int list option" where
  "memdump m [] a = Some [10]"
| "memdump m (tok # fmt) a =
     (if tok \<notin> {105, 112, 104, 99, 115, 83} then bad_token tok
      else case memdump_token m tok a of
             None \<Rightarrow> None
           | Some (out, k) \<Rightarrow> map_option (\<lambda>t. out @ 10 # t) (memdump m fmt (a + k)))"

subsection \<open>sleep\<close>

datatype sleep_result = SleepUsage | SleepZero | SleepNaN | Pauses int

text \<open>\<^verbatim>\<open>main\<close> of \<^verbatim>\<open>sleep\<close>: which message it prints before it exits with 1, or how many ticks it pauses.\<close>

definition sleep_main :: "byte list list \<Rightarrow> sleep_result option" where
  "sleep_main argv =
     (if length argv \<noteq> 2 then Some SleepUsage
      else if argv ! 1 = str ''0'' then Some SleepZero
      else case atoi (argv ! 1) of
             None \<Rightarrow> None
           | Some n \<Rightarrow> if n = 0 then Some SleepNaN else if n * 10 < 2 ^ 31 then Some (Pauses (n * 10)) else None)"

subsection \<open>What sixfive computes\<close>

text \<open>The runs of bytes between separators, which of them are numbers, and their values.\<close>

fun fields_acc :: "byte list \<Rightarrow> byte list \<Rightarrow> byte list list" where
  "fields_acc acc [] = [acc]"
| "fields_acc acc (b # s) = (if is_separator b then acc # fields_acc [] s else fields_acc (acc @ [b]) s)"

definition fields :: "byte list \<Rightarrow> byte list list" where
  "fields s = fields_acc [] s"

definition numeric :: "byte list \<Rightarrow> bool" where
  "numeric w \<longleftrightarrow> w \<noteq> [] \<and> list_all is_number w"

definition dec_value :: "byte list \<Rightarrow> int" where
  "dec_value w = foldl (\<lambda>n b. n * 10 + (uint b - 48)) 0 w"

lemma is_number_iff: "is_number b \<longleftrightarrow> 48 \<le> b \<and> b \<le> 57"
proof -
  have "is_number b \<longleftrightarrow> b \<in> {48, 49, 50, 51, 52, 53, 54, 55, 56, 57}"
    by (auto simp: is_number_def str_contains_def number_tokens_def str_def of_char_def)
  moreover have "b \<in> {48, 49, 50, 51, 52, 53, 54, 55, 56, 57}" if "48 \<le> b" "b \<le> 57"
  proof -
    have "unat b = 48 \<or> unat b = 49 \<or> unat b = 50 \<or> unat b = 51 \<or> unat b = 52 \<or> unat b = 53 \<or> unat b = 54 \<or> unat b = 55 \<or>
        unat b = 56 \<or> unat b = 57" using that unfolding word_le_nat_alt by (simp, presburger)
    moreover have "b = of_nat (unat b)" by simp
    ultimately show ?thesis by (elim disjE) (simp_all only: of_nat_numeral insert_iff simp_thms)
  qed
  ultimately show ?thesis by auto
qed

lemma separator_not_number: "is_separator b \<Longrightarrow> \<not> is_number b"
  by (auto simp: is_number_iff is_separator_def str_contains_def separator_tokens_def split: if_splits)

lemma atoi_one: "is_number b \<Longrightarrow> after = [] \<or> \<not> is_number (hd after) \<Longrightarrow> atoi (b # after) = Some (uint b - 48)"
proof -
  assume b: "is_number b" and after: "after = [] \<or> \<not> is_number (hd after)"
  have "uint b \<le> 57" using b by (auto simp: is_number_iff word_le_def)
  moreover have "atoi_loop n after = Some n" for n using after by (cases after) (auto simp: is_number_iff)
  ultimately show ?thesis using b by (simp add: atoi_def is_number_iff Let_def)
qed

definition scan_state :: "byte list \<Rightarrow> sixfive" where
  "scan_state acc = \<lparr>prev_is_number = numeric acc, prev_is_separator = (acc = []), number = (if numeric acc then dec_value acc else 0)\<rparr>"

lemma numeric_snoc: "numeric (acc @ [b]) \<longleftrightarrow> is_number b \<and> (acc = [] \<or> numeric acc)"
  by (auto simp: numeric_def)

lemma dec_value_snoc: "dec_value (acc @ [b]) = dec_value acc * 10 + (uint b - 48)"
  by (simp add: dec_value_def)

lemma sixfive_turn_spec:
  assumes "after = [] \<or> \<not> is_number (hd after)" "numeric (acc @ [b]) \<Longrightarrow> dec_value (acc @ [b]) < 2 ^ 31"
  shows "sixfive_turn after b (scan_state acc) =
    Some (if is_separator b then (scan_state [], if numeric acc then process_number (dec_value acc) else []) else (scan_state (acc @ [b]), []))"
proof (cases "is_number b")
  case True
  have [simp]: "dec_value [] = 0" "numeric [] = False" by (simp_all add: dec_value_def numeric_def)
  note a = atoi_one [OF True assms(1)]
  have "\<not> is_separator b" using separator_not_number True by blast
  moreover have "numeric acc \<Longrightarrow> acc \<noteq> []" by (auto simp: numeric_def)
  moreover have "numeric acc \<Longrightarrow> dec_value acc * 10 + (uint b - 48) < 2 ^ 31" using assms(2) True by (simp add: numeric_snoc dec_value_snoc)
  ultimately show ?thesis using True dec_value_snoc [of acc b] dec_value_snoc [of "[]" b]
    by (auto simp: sixfive_turn_def scan_state_def a numeric_snoc Let_def)
next
  case False
  have "numeric acc \<Longrightarrow> acc \<noteq> []" "\<not> numeric (acc @ [b])" "numeric [] = False" using False by (auto simp: numeric_def)
  then show ?thesis using False by (auto simp: sixfive_turn_def scan_state_def)
qed

definition printed :: "byte list list \<Rightarrow> int list" where
  "printed ws = concat (map (\<lambda>w. process_number (dec_value w)) (filter numeric ws))"

lemma dec_value_mono: "list_all is_number (w @ v) \<Longrightarrow> dec_value w \<le> dec_value (w @ v) \<and> 0 \<le> dec_value w"
proof (induction v rule: rev_induct)
  case Nil
  have "0 \<le> dec_value w" if "list_all is_number w" for w
    using that by (induction w rule: rev_induct) (auto simp: dec_value_def is_number_iff word_le_def)
  then show ?case using Nil by simp
next
  case (snoc b v)
  then have "is_number b" "dec_value w \<le> dec_value (w @ v)" "0 \<le> dec_value w" by auto
  then show ?case using dec_value_snoc [of "w @ v" b] by (simp add: is_number_iff word_le_def)
qed

lemma fields_prefix: "\<exists>v rest. fields_acc acc s = (acc @ v) # rest"
proof (induction s arbitrary: acc)
  case (Cons b s)
  then obtain v rest where "fields_acc (acc @ [b]) s = ((acc @ [b]) @ v) # rest" by blast
  then show ?case by simp
qed simp

lemma sixfive_loop_spec:
  assumes "after = [] \<or> \<not> is_number (hd after)" "\<forall>w \<in> set (fields_acc acc input). dec_value (takeWhile is_number w) < 2 ^ 31"
  shows "\<exists>acc'. sixfive_loop after input (scan_state acc) = Some (scan_state acc', printed (butlast (fields_acc acc input))) \<and>
    last (fields_acc acc input) = acc'"
  using assms(2)
proof (induction input arbitrary: acc)
  case Nil
  then show ?case by (simp add: printed_def)
next
  case (Cons b input)
  have ne: "fields_acc x input \<noteq> []" for x by (induction input arbitrary: x) auto
  have small: "dec_value (acc @ [b]) < 2 ^ 31" if n: "numeric (acc @ [b])"
  proof -
    have b: "\<not> is_separator b" using n separator_not_number by (auto simp: numeric_snoc)
    obtain v rest where v: "fields_acc (acc @ [b]) input = ((acc @ [b]) @ v) # rest" by (metis fields_prefix)
    then have "dec_value (takeWhile is_number ((acc @ [b]) @ v)) < 2 ^ 31" using Cons.prems b by simp
    moreover have "takeWhile is_number ((acc @ [b]) @ v) = (acc @ [b]) @ takeWhile is_number v"
      by (rule takeWhile_append2) (use n in \<open>auto simp: numeric_def list_all_iff\<close>)
    moreover have "list_all is_number ((acc @ [b]) @ takeWhile is_number v)" using n
      by (auto simp: numeric_def list_all_iff dest: set_takeWhileD)
    ultimately show ?thesis using dec_value_mono by fastforce
  qed
  note t = sixfive_turn_spec [OF assms(1) small]
  show ?case
  proof (cases "is_separator b")
    case True
    then obtain acc' where "sixfive_loop after input (scan_state []) = Some (scan_state acc', printed (butlast (fields_acc [] input)))"
        "last (fields_acc [] input) = acc'" using Cons.IH [of "[]"] Cons.prems by auto
    then show ?thesis using True ne [of "[]"] t by (auto simp: printed_def)
  next
    case False
    then show ?thesis using Cons.IH [of "acc @ [b]"] Cons.prems t by auto
  qed
qed

lemma printed_snoc: "printed (ws @ [w]) = printed ws @ (if numeric w then process_number (dec_value w) else [])"
  by (simp add: printed_def)

lemma printed_filter: "printed ws = filter (\<lambda>n. n mod 5 = 0 \<or> n mod 6 = 0) (map dec_value (filter numeric ws))"
  unfolding printed_def process_number_def by (induction ws) auto

subsection \<open>What wc counts\<close>

text \<open>The number of words: positions of a byte that is no white space and has white space, or nothing, before it.\<close>

definition white :: "byte \<Rightarrow> bool" where
  "white b \<longleftrightarrow> b \<in> {32, 13, 9, 10, 11}"

fun words_after :: "bool \<Rightarrow> byte list \<Rightarrow> nat" where
  "words_after inw [] = 0"
| "words_after inw (b # s) = (if \<not> white b \<and> \<not> inw then 1 else 0) + words_after (\<not> white b) s"

definition word_starts :: "byte list \<Rightarrow> nat set" where
  "word_starts s = {i. i < length s \<and> \<not> white (s ! i) \<and> (i = 0 \<or> white (s ! (i - 1)))}"

lemma words_after_card: "words_after inw s = card {i. i < length s \<and> \<not> white (s ! i) \<and> (if i = 0 then \<not> inw else white (s ! (i - 1)))}"
proof (induction s arbitrary: inw)
  case (Cons b s)
  let ?A = "\<lambda>inw s. {i. i < length s \<and> \<not> white (s ! i) \<and> (if i = 0 then \<not> inw else white (s ! (i - 1)))}"
  have "?A inw (b # s) = (if \<not> white b \<and> \<not> inw then {0} else {}) \<union> Suc ` ?A (\<not> white b) s"
  proof (rule set_eqI)
    fix i
    show "i \<in> ?A inw (b # s) \<longleftrightarrow> i \<in> (if \<not> white b \<and> \<not> inw then {0} else {}) \<union> Suc ` ?A (\<not> white b) s"
    proof (cases i)
      case (Suc j)
      then show ?thesis by (cases j) auto
    qed auto
  qed
  moreover have "card (Suc ` ?A (\<not> white b) s) = card (?A (\<not> white b) s)" by (rule card_image) simp
  moreover have "finite (Suc ` ?A (\<not> white b) s)" "0 \<notin> Suc ` ?A (\<not> white b) s" by auto
  ultimately show ?case using Cons.IH [of "\<not> white b"] by simp
qed simp

lemma wc_fold:
  "fold wc_turn s c = \<lparr>wc_l = wc_l c + length (filter (\<lambda>b. b = 10) s), wc_w = wc_w c + words_after (inword c) s,
     wc_c = wc_c c + length s, inword = (if s = [] then inword c else \<not> white (last s))\<rparr>"
proof (induction s arbitrary: c)
  case (Cons b s)
  have "strchr [32, 13, 9, 10, 11] b \<noteq> None \<longleftrightarrow> white b" by (auto simp: white_def)
  then have "wc_turn b c = \<lparr>wc_l = wc_l c + (if b = 10 then 1 else 0), wc_w = wc_w c + (if \<not> white b \<and> \<not> inword c then 1 else 0),
      wc_c = wc_c c + 1, inword = (\<not> white b)\<rparr>"
    unfolding wc_turn_def Let_def by (cases c) auto
  then show ?case using Cons.IH by simp
qed simp

lemma fold_pieces: "fold (fold f) xss c = fold f (concat xss) c"
  by (induction xss arbitrary: c) auto

subsection \<open>Properties\<close>

text \<open>
  C33: \<^verbatim>\<open>sixfive\<close> prints exactly the multiples of 5 or 6 among the numbers of the file, in their order: a number is a
  run of digits between separators or the ends of the file, and a run with any other character in it is ignored as a whole.
  This holds when the byte behind the variable \<^verbatim>\<open>token\<close> is no digit and no run of digits overflows an \<^verbatim>\<open>int\<close>.
\<close>

theorem sixfive_prints_multiples:
  assumes "after = [] \<or> \<not> is_number (hd after)" "\<forall>w \<in> set (fields input). dec_value (takeWhile is_number w) < 2 ^ 31"
  shows "process_file after input False =
    Some (0, filter (\<lambda>n. n mod 5 = 0 \<or> n mod 6 = 0) (map dec_value (filter numeric (fields input))))"
proof -
  have init: "\<lparr>prev_is_number = False, prev_is_separator = True, number = 0\<rparr> = scan_state []"
    by (simp add: scan_state_def numeric_def)
  let ?F = "fields_acc [] input"
  obtain acc where acc: "sixfive_loop after input (scan_state []) = Some (scan_state acc, printed (butlast ?F))" "last ?F = acc"
    using sixfive_loop_spec [OF assms(1), of "[]" input] assms(2) by (auto simp: fields_def)
  have "?F = butlast ?F @ [acc]" using acc(2) fields_prefix [of "[]" input] by (metis append_butlast_last_id list.distinct(1))
  then have "printed ?F = printed (butlast ?F @ [acc])" by (rule arg_cong)
  then have "printed ?F = printed (butlast ?F) @ (if numeric acc then process_number (dec_value acc) else [])"
    by (simp only: printed_snoc)
  then show ?thesis unfolding process_file_def init acc(1)
    by (simp add: scan_state_def fields_def printed_filter)
qed

theorem sixfive_prints_multiples_witness:
  "process_file [0] (str ''30 7a,12-25x 6'') False = Some (0, [30, 12, 6])"
proof -
  have "\<forall>w \<in> set (fields (str ''30 7a,12-25x 6'')). dec_value (takeWhile is_number w) < 2 ^ 31" by code_simp
  moreover have "filter (\<lambda>n. n mod 5 = 0 \<or> n mod 6 = 0) (map dec_value (filter numeric (fields (str ''30 7a,12-25x 6'')))) = [30, 12, 6]"
    by code_simp
  ultimately show ?thesis using sixfive_prints_multiples [of "[0]" "str ''30 7a,12-25x 6''"] by (simp add: is_number_iff)
qed

text \<open>With a digit behind the variable \<^verbatim>\<open>token\<close>, \<^verbatim>\<open>atoi\<close> takes it for a part of the number.\<close>

lemma sixfive_reads_past_token: "process_file (str ''1'') (str ''5 '') False = Some (0, []) \<and> process_file [0] (str ''5 '') False = Some (0, [5])"
  by code_simp

text \<open>
  \<^verbatim>\<open>wc\<close> counts newlines, words and bytes whatever pieces \<^verbatim>\<open>read\<close> returns; a word is counted once even when it is cut by the
  end of the buffer.
\<close>

lemma wc_counts:
  "wc_l (wc pieces) = length (filter (\<lambda>b. b = 10) (concat pieces)) \<and> wc_w (wc pieces) = card (word_starts (concat pieces)) \<and>
   wc_c (wc pieces) = length (concat pieces)"
proof -
  have "words_after False s = card (word_starts s)" for s
    unfolding words_after_card word_starts_def by (rule arg_cong [where f = card]) auto
  then show ?thesis by (simp add: wc_def fold_pieces wc_fold)
qed

end
