(* ===== verification/Virtio_Props.thy ===== *)
theory Virtio_Props
  imports Frame Fs_Blocks
begin

unbundle bit_operations_syntax

section \<open>The disk driver under concurrent requests\<close>

text \<open>
  Several threads have requests in flight; the device, the interrupt handler and the threads take turns in any order.
  The invariant says which descriptors belong to which request, and that each request in flight is in exactly one of the
  two rings, or finished.
\<close>

subsection \<open>The rings\<close>

definition window :: "nat list \<Rightarrow> u16 \<Rightarrow> u16 \<Rightarrow> nat list" where
  "window rg lo hi = map (\<lambda>t. rg ! (unat (lo + of_nat t) mod 8)) [0..<unat (hi - lo)]"

lemma window_empty [simp]: "window rg lo lo = []"
  by (simp add: window_def)

lemma length_window [simp]: "length (window rg lo hi) = unat (hi - lo)"
  by (simp add: window_def)

lemma unat_Suc_diff:
  fixes lo hi :: u16
  assumes "lo \<noteq> hi"
  shows "unat (hi - lo) = Suc (unat (hi - (lo + 1)))"
proof -
  have "hi - lo \<noteq> 0" using assms by simp
  then have "unat (hi - lo - 1) = unat (hi - lo) - 1" "0 < unat (hi - lo)" by (auto simp: unat_minus_one unat_gt_0)
  then show ?thesis by (simp add: diff_diff_eq)
qed

lemma window_pop:
  assumes "lo \<noteq> hi"
  shows "window rg lo hi = rg ! (unat lo mod 8) # window rg (lo + 1) hi"
proof -
  have "[0..<Suc n] = 0 # map Suc [0..<n]" for n by (simp only: map_Suc_upt upt_conv_Cons zero_less_Suc)
  then show ?thesis by (simp add: window_def unat_Suc_diff [OF assms] comp_def add.assoc)
qed

lemma ring_slots:
  fixes lo :: u16
  assumes "t < n" "n < 8"
  shows "unat (lo + of_nat t) mod 8 \<noteq> unat (lo + of_nat n) mod 8"
proof -
  have "unat (lo + of_nat k) mod 8 = (unat lo + k) mod 8" for k
  proof -
    have "unat (lo + of_nat k) = (unat lo + k) mod 2 ^ 16" by (simp add: unat_word_ariths unat_of_nat mod_add_right_eq)
    then show ?thesis by (simp add: mod_mod_cancel)
  qed
  then show ?thesis using ring_index_neq [of t n 8 "unat lo"] assms by simp
qed

lemma window_push:
  assumes "length rg = 8" "unat (hi - lo) < 8"
  shows "window (rg[unat hi mod 8 := x]) lo (hi + 1) = window rg lo hi @ [x]"
proof -
  let ?n = "unat (hi - lo)"
  have hi: "lo + of_nat ?n = hi" by simp
  have n: "unat (hi + 1 - lo) = Suc ?n"
  proof -
    have e: "hi + 1 - lo = (hi - lo) + 1" by (simp add: algebra_simps)
    have "unat ((hi - lo) + 1) = Suc ?n" using assms(2) by (simp add: unat_word_ariths)
    then show ?thesis unfolding e .
  qed
  have "rg[unat hi mod 8 := x] ! (unat (lo + of_nat t) mod 8) = rg ! (unat (lo + of_nat t) mod 8)" if "t < ?n" for t
    using ring_slots [OF that assms(2), of lo] unfolding hi by (simp add: nth_list_update_neq)
  then show ?thesis using assms(1) unfolding window_def n by (simp add: hi)
qed

subsection \<open>Requests in flight\<close>

record vreq =
  q_i1 :: nat
  q_i2 :: nat
  q_b :: nat
  q_write :: bool
  q_done :: bool   \<comment> \<open>the device has carried out the transfer\<close>

definition links :: "nat \<Rightarrow> vreq \<Rightarrow> nat set" where
  "links i q = {i, q_i1 q, q_i2 q}"

definition chain_ok :: "vdisk \<Rightarrow> nat \<Rightarrow> vreq \<Rightarrow> bool" where
  "chain_ok s i q \<longleftrightarrow>
     i < 8 \<and> q_i1 q < 8 \<and> q_i2 q < 8 \<and> i \<noteq> q_i1 q \<and> i \<noteq> q_i2 q \<and> q_i1 q \<noteq> q_i2 q \<and> (\<forall>k \<in> links i q. \<not> vfree s ! k) \<and>
     desc s ! i = \<lparr>d_addr = OpAddr i, d_len = 16, d_flags = VRING_DESC_F_NEXT, d_next = q_i1 q\<rparr> \<and>
     desc s ! q_i1 q = \<lparr>d_addr = DataAddr (q_b q), d_len = 1024, d_flags = (if q_write q then 0 else VRING_DESC_F_WRITE) OR VRING_DESC_F_NEXT,
       d_next = q_i2 q\<rparr> \<and>
     desc s ! q_i2 q = \<lparr>d_addr = StatusAddr i, d_len = 1, d_flags = VRING_DESC_F_WRITE, d_next = 0\<rparr>"

definition req_ok :: "vdisk \<Rightarrow> nat \<Rightarrow> vreq \<Rightarrow> bool" where
  "req_ok s i q \<longleftrightarrow> chain_ok s i q \<and> v_b (vinfos s ! i) = Some (q_b q) \<and>
     vops s ! i = \<lparr>r_type = (if q_write q then VIRTIO_BLK_T_OUT else VIRTIO_BLK_T_IN), r_sector = blockno (bufs s ! q_b q) * 2\<rparr> \<and>
     blockno (bufs s ! q_b q) < 2 ^ 31"

definition waiting :: "vdisk \<Rightarrow> nat list" where
  "waiting s = window (avail_ring s) (dev_idx s) (avail_idx s)"

definition served :: "vdisk \<Rightarrow> nat list" where
  "served s = window (used_ring s) (used_idx s) (used_ptr s)"

definition vinv :: "(nat \<Rightarrow> vreq option) \<Rightarrow> vdisk \<Rightarrow> bool" where
  "vinv R s \<longleftrightarrow>
     length (desc s) = 8 \<and> length (avail_ring s) = 8 \<and> length (used_ring s) = 8 \<and> length (vfree s) = 8 \<and> length (vinfos s) = 8 \<and>
     length (vops s) = 8 \<and>
     (\<forall>i q. R i = Some q \<longrightarrow> req_ok s i q) \<and>
     (\<forall>i j q r. R i = Some q \<longrightarrow> R j = Some r \<longrightarrow> i \<noteq> j \<longrightarrow> links i q \<inter> links j r = {} \<and> q_b q \<noteq> q_b r) \<and>
     (\<forall>k < 8. \<not> vfree s ! k \<longrightarrow> (\<exists>i q. R i = Some q \<and> k \<in> links i q)) \<and>
     distinct (waiting s @ served s) \<and> (\<forall>i \<in> set (waiting s @ served s). R i \<noteq> None) \<and>
     (\<forall>i q. R i = Some q \<longrightarrow> (b_disk s (q_b q) \<longleftrightarrow> i \<in> set (waiting s @ served s))) \<and>
     (\<forall>i \<in> set (served s). v_status (vinfos s ! i) = 0) \<and> (\<forall>i q. R i = Some q \<longrightarrow> (q_done q \<longleftrightarrow> i \<notin> set (waiting s)))"

lemma vinvD:
  assumes "vinv R s"
  shows "length (desc s) = 8" "length (avail_ring s) = 8" "length (used_ring s) = 8" "length (vfree s) = 8" "length (vinfos s) = 8"
    "length (vops s) = 8" "R i = Some q \<Longrightarrow> req_ok s i q"
    "R i = Some q \<Longrightarrow> R j = Some r \<Longrightarrow> i \<noteq> j \<Longrightarrow> links i q \<inter> links j r = {} \<and> q_b q \<noteq> q_b r"
    "k < 8 \<Longrightarrow> \<not> vfree s ! k \<Longrightarrow> \<exists>i q. R i = Some q \<and> k \<in> links i q"
    "distinct (waiting s @ served s)" "i \<in> set (waiting s @ served s) \<Longrightarrow> R i \<noteq> None"
    "R i = Some q \<Longrightarrow> b_disk s (q_b q) \<longleftrightarrow> i \<in> set (waiting s @ served s)"
    "i \<in> set (served s) \<Longrightarrow> v_status (vinfos s ! i) = 0" "R i = Some q \<Longrightarrow> q_done q \<longleftrightarrow> i \<notin> set (waiting s)"
  using assms unfolding vinv_def by blast+

lemma vinvI:
  assumes "length (desc s) = 8" "length (avail_ring s) = 8" "length (used_ring s) = 8" "length (vfree s) = 8" "length (vinfos s) = 8"
    "length (vops s) = 8" "\<And>i q. R i = Some q \<Longrightarrow> req_ok s i q"
    "\<And>i j q r. R i = Some q \<Longrightarrow> R j = Some r \<Longrightarrow> i \<noteq> j \<Longrightarrow> links i q \<inter> links j r = {} \<and> q_b q \<noteq> q_b r"
    "\<And>k. k < 8 \<Longrightarrow> \<not> vfree s ! k \<Longrightarrow> \<exists>i q. R i = Some q \<and> k \<in> links i q"
    "distinct (waiting s @ served s)" "\<And>i. i \<in> set (waiting s @ served s) \<Longrightarrow> R i \<noteq> None"
    "\<And>i q. R i = Some q \<Longrightarrow> b_disk s (q_b q) \<longleftrightarrow> i \<in> set (waiting s @ served s)"
    "\<And>i. i \<in> set (served s) \<Longrightarrow> v_status (vinfos s ! i) = 0" "\<And>i q. R i = Some q \<Longrightarrow> q_done q \<longleftrightarrow> i \<notin> set (waiting s)"
  shows "vinv R s"
  unfolding vinv_def using assms by blast

lemma ring_room:
  assumes "vinv R s" "i < 8" "R i = None"
  shows "length (waiting s) < 8" "length (served s) \<le> 8"
proof -
  have sub: "set (waiting s @ served s) \<subseteq> {..<8}"
    using vinvD(7,11) [OF assms(1)] by (fastforce simp: req_ok_def chain_ok_def)
  have "set (waiting s) \<subseteq> {..<8} - {i}" using sub vinvD(11) [OF assms(1), of i] assms(3) by auto
  then have "card (set (waiting s)) \<le> card ({..<8 :: nat} - {i})" by (intro card_mono) auto
  moreover have "card ({..<8 :: nat} - {i}) = 7" using assms(2) by simp
  moreover have "distinct (waiting s)" using vinvD(10) [OF assms(1)] by simp
  ultimately show "length (waiting s) < 8" by (simp add: distinct_card [symmetric])
  have "card (set (served s)) \<le> card {..<8 :: nat}" using sub by (intro card_mono) auto
  then show "length (served s) \<le> 8" using vinvD(10) [OF assms(1)] by (simp add: distinct_card)
qed

subsection \<open>Descriptors\<close>

lemma alloc_desc_run:
  "alloc_desc s = (case find_index (\<lambda>b. b) (vfree s) of None \<Rightarrow> Inr (None, s) | Some i \<Rightarrow> Inr (Some i, s\<lparr>vfree := (vfree s)[i := False]\<rparr>))"
  by (cases "find_index (\<lambda>b. b) (vfree s)") (simp_all add: alloc_desc_def run_simps del: find_index_None)

lemma free_desc_run:
  "i < 8 \<Longrightarrow> \<not> vfree s ! i \<Longrightarrow>
   free_desc i s = Inr ((), s\<lparr>desc := (desc s)[i := zero_desc], vfree := (vfree s)[i := True], wakeups := wakeups s @ [free_chan]\<rparr>)"
  by (simp add: free_desc_def wakeup_def run_simps)

lemma alloc3_desc_run:
  assumes "length (vfree s) = 8" "length (desc s) = 8"
  shows "(\<exists>i0 i1 i2. alloc3_desc s = Inr (Some (i0, i1, i2), s\<lparr>vfree := (vfree s)[i0 := False, i1 := False, i2 := False]\<rparr>) \<and>
      i0 < 8 \<and> i1 < 8 \<and> i2 < 8 \<and> i0 \<noteq> i1 \<and> i0 \<noteq> i2 \<and> i1 \<noteq> i2 \<and> vfree s ! i0 \<and> vfree s ! i1 \<and> vfree s ! i2) \<or>
    (\<exists>d w. alloc3_desc s = Inr (None, s\<lparr>desc := d, wakeups := w\<rparr>) \<and> length d = 8 \<and> (\<forall>k < 8. \<not> vfree s ! k \<longrightarrow> d ! k = desc s ! k))"
proof (cases "find_index (\<lambda>b. b) (vfree s)")
  case None
  then have "alloc3_desc s = Inr (None, s\<lparr>desc := desc s, wakeups := wakeups s\<rparr>)"
    by (simp add: alloc3_desc_def alloc_desc_run run_simps del: find_index_None)
  then show ?thesis using assms(2) by blast
next
  case 0: (Some i0)
  have i0: "i0 < 8" "vfree s ! i0" using find_index_SomeD [OF 0] assms(1) by auto
  let ?f1 = "(vfree s)[i0 := False]"
  show ?thesis
  proof (cases "find_index (\<lambda>b. b) ?f1")
    case None
    have "?f1[i0 := True] = vfree s" using i0 by (metis list_update_id list_update_overwrite)
    then have "alloc3_desc s = Inr (None, s\<lparr>desc := (desc s)[i0 := zero_desc], wakeups := wakeups s @ [free_chan]\<rparr>)"
      using 0 None i0 assms(1) by (simp add: alloc3_desc_def alloc_desc_run free_desc_run run_simps del: find_index_None)
    moreover have "(desc s)[i0 := zero_desc] ! k = desc s ! k" if "\<not> vfree s ! k" for k using that i0 by (metis nth_list_update_neq)
    moreover have "length ((desc s)[i0 := zero_desc]) = 8" using assms(2) by simp
    ultimately show ?thesis by blast
  next
    case 1: (Some i1)
    have i1: "i1 < 8" "vfree s ! i1" "i1 \<noteq> i0" using find_index_SomeD [OF 1] assms(1) i0 by (auto simp: nth_list_update split: if_splits)
    let ?f2 = "?f1[i1 := False]"
    show ?thesis
    proof (cases "find_index (\<lambda>b. b) ?f2")
      case None
      have "?f2[i0 := True, i1 := True] = vfree s"
        using i0 i1 by (intro nth_equalityI) (auto simp: nth_list_update assms(1))
      then have "alloc3_desc s =
          Inr (None, s\<lparr>desc := (desc s)[i0 := zero_desc, i1 := zero_desc], wakeups := wakeups s @ [free_chan] @ [free_chan]\<rparr>)"
        using 0 1 None i0 i1 assms(1) by (simp add: alloc3_desc_def alloc_desc_run free_desc_run run_simps nth_list_update del: find_index_None)
      moreover have "(desc s)[i0 := zero_desc, i1 := zero_desc] ! k = desc s ! k" if "\<not> vfree s ! k" for k
        using that i0 i1 by (metis nth_list_update_neq)
      moreover have "length ((desc s)[i0 := zero_desc, i1 := zero_desc]) = 8" using assms(2) by simp
      ultimately show ?thesis by blast
    next
      case 2: (Some i2)
      have i2: "i2 < 8" "vfree s ! i2" "i2 \<noteq> i0" "i2 \<noteq> i1"
        using find_index_SomeD [OF 2] assms(1) i0 i1 by (auto simp: nth_list_update split: if_splits)
      have "alloc3_desc s = Inr (Some (i0, i1, i2), s\<lparr>vfree := (vfree s)[i0 := False, i1 := False, i2 := False]\<rparr>)"
        using 0 1 2 by (simp add: alloc3_desc_def alloc_desc_run run_simps)
      then show ?thesis using i0 i1 i2 by blast
    qed
  qed
qed

lemma free_chain_run:
  assumes "chain_ok s i q" "length (desc s) = 8" "length (vfree s) = 8"
  shows "\<exists>w. free_chain i s = Inr ((), s\<lparr>desc := (desc s)[i := zero_desc, q_i1 q := zero_desc, q_i2 q := zero_desc],
    vfree := (vfree s)[i := True, q_i1 q := True, q_i2 q := True], wakeups := w\<rparr>)"
proof -
  note r = assms(1) [unfolded chain_ok_def links_def]
  have flags: "((if q_write q then 0 else 2) OR 1) AND 1 \<noteq> (0 :: u16)" "(2 :: u16) AND 1 = 0" by auto
  have round: "free_chain_fuel (Suc k) j t =
      (if d_flags (desc t ! j) AND 1 \<noteq> 0 then free_chain_fuel k (d_next (desc t ! j)) else returnK ())
       (t\<lparr>desc := (desc t)[j := zero_desc], vfree := (vfree t)[j := True], wakeups := wakeups t @ [free_chan]\<rparr>)"
    if "j < 8" "\<not> vfree t ! j" for k j and t :: vdisk
    using that by (simp add: free_desc_run run_simps)
  let ?s1 = "s\<lparr>desc := (desc s)[i := zero_desc], vfree := (vfree s)[i := True], wakeups := wakeups s @ [free_chan]\<rparr>"
  let ?s2 = "?s1\<lparr>desc := (desc ?s1)[q_i1 q := zero_desc], vfree := (vfree ?s1)[q_i1 q := True], wakeups := wakeups ?s1 @ [free_chan]\<rparr>"
  let ?s3 = "?s2\<lparr>desc := (desc ?s2)[q_i2 q := zero_desc], vfree := (vfree ?s2)[q_i2 q := True], wakeups := wakeups ?s2 @ [free_chan]\<rparr>"
  have "free_chain i s = free_chain_fuel (Suc 8) i s" by (simp add: free_chain_def)
  also have "\<dots> = free_chain_fuel (Suc 7) (q_i1 q) ?s1" using r by (subst round) simp_all
  also have "\<dots> = free_chain_fuel (Suc 6) (q_i2 q) ?s2" using r flags(1) by (subst round) simp_all
  also have "\<dots> = Inr ((), ?s3)" using r flags(2) by (subst round) (simp_all add: run_simps)
  finally show ?thesis by (intro exI [of _ "wakeups ?s2 @ [free_chan]"]) simp
qed

subsection \<open>Starting a request\<close>

lemma virtio_start_run:
  assumes inv: "vinv R s" and b: "blockno (bufs s ! b) < 2 ^ 31"
  shows "(\<exists>d w. virtio_start b write s = Inr (None, s\<lparr>desc := d, wakeups := w\<rparr>) \<and> length d = 8 \<and> (\<forall>k < 8. \<not> vfree s ! k \<longrightarrow> d ! k = desc s ! k)) \<or>
    (\<exists>i i1 i2. i < 8 \<and> i1 < 8 \<and> i2 < 8 \<and> i \<noteq> i1 \<and> i \<noteq> i2 \<and> i1 \<noteq> i2 \<and> vfree s ! i \<and> vfree s ! i1 \<and> vfree s ! i2 \<and>
      virtio_start b write s = Inr (Some i, s\<lparr>vfree := (vfree s)[i := False, i1 := False, i2 := False],
        vops := (vops s)[i := \<lparr>r_type = (if write then VIRTIO_BLK_T_OUT else VIRTIO_BLK_T_IN), r_sector = blockno (bufs s ! b) * 2\<rparr>],
        desc := (desc s)[i := \<lparr>d_addr = OpAddr i, d_len = 16, d_flags = VRING_DESC_F_NEXT, d_next = i1\<rparr>,
          i1 := \<lparr>d_addr = DataAddr b, d_len = 1024, d_flags = (if write then 0 else VRING_DESC_F_WRITE) OR VRING_DESC_F_NEXT, d_next = i2\<rparr>,
          i2 := \<lparr>d_addr = StatusAddr i, d_len = 1, d_flags = VRING_DESC_F_WRITE, d_next = 0\<rparr>],
        vinfos := (vinfos s)[i := (vinfos s ! i)\<lparr>v_status := 0xff, v_b := Some b\<rparr>], b_disk := (b_disk s)(b := True),
        avail_ring := (avail_ring s)[unat (avail_idx s) mod 8 := i], avail_idx := avail_idx s + 1, vregs := (vregs s)(0x050 := 0)\<rparr>))"
proof -
  have sector: "(blockno (bufs s ! b) * 2) mod 2 ^ 32 = blockno (bufs s ! b) * 2" using b by simp
  from alloc3_desc_run [OF vinvD(4,1) [OF inv]] show ?thesis
  proof
    assume "\<exists>i0 i1 i2. alloc3_desc s = Inr (Some (i0, i1, i2), s\<lparr>vfree := (vfree s)[i0 := False, i1 := False, i2 := False]\<rparr>) \<and>
      i0 < 8 \<and> i1 < 8 \<and> i2 < 8 \<and> i0 \<noteq> i1 \<and> i0 \<noteq> i2 \<and> i1 \<noteq> i2 \<and> vfree s ! i0 \<and> vfree s ! i1 \<and> vfree s ! i2"
    then obtain i i1 i2 where a: "alloc3_desc s = Inr (Some (i, i1, i2), s\<lparr>vfree := (vfree s)[i := False, i1 := False, i2 := False]\<rparr>)"
      "i < 8" "i1 < 8" "i2 < 8" "i \<noteq> i1" "i \<noteq> i2" "i1 \<noteq> i2" "vfree s ! i" "vfree s ! i1" "vfree s ! i2" by blast
    then show ?thesis using sector vinvD(5) [OF inv]
      by (intro disjI2 exI [of _ i] exI [of _ i1] exI [of _ i2])
         (simp add: virtio_start_def get_buf_def set_desc_def run_simps Let_def)
  next
    assume "\<exists>d w. alloc3_desc s = Inr (None, s\<lparr>desc := d, wakeups := w\<rparr>) \<and> length d = 8 \<and> (\<forall>k < 8. \<not> vfree s ! k \<longrightarrow> d ! k = desc s ! k)"
    then obtain d w where d: "alloc3_desc s = Inr (None, s\<lparr>desc := d, wakeups := w\<rparr>)" "length d = 8" "\<forall>k < 8. \<not> vfree s ! k \<longrightarrow> d ! k = desc s ! k"
      by blast
    then have "virtio_start b write s = Inr (None, s\<lparr>desc := d, wakeups := w\<rparr>)" by (simp add: virtio_start_def get_buf_def run_simps Let_def)
    then show ?thesis using d by blast
  qed
qed

lemma chain_frame:
  assumes "chain_ok s i q" "\<And>k. k \<in> links i q \<Longrightarrow> desc s' ! k = desc s ! k \<and> vfree s' ! k = vfree s ! k"
  shows "chain_ok s' i q"
  using assms by (auto simp: chain_ok_def links_def)

lemma vinv_full:
  assumes inv: "vinv R s" and d: "length d = 8" "\<forall>k < 8. \<not> vfree s ! k \<longrightarrow> d ! k = desc s ! k"
  shows "vinv R (s\<lparr>desc := d, wakeups := w\<rparr>)"
proof -
  let ?s = "s\<lparr>desc := d, wakeups := w\<rparr>"
  have "req_ok ?s i q" if "R i = Some q" for i q
  proof -
    have r: "req_ok s i q" using vinvD(7) [OF inv that] .
    then have "chain_ok ?s i q" by (intro chain_frame [of s i q ?s]) (use d in \<open>auto simp: req_ok_def chain_ok_def links_def\<close>)
    then show ?thesis using r by (simp add: req_ok_def)
  qed
  then show ?thesis using inv d(1) by (simp add: vinv_def waiting_def served_def)
qed

lemma vinv_start:
  assumes inv: "vinv R s" and b: "blockno (bufs s ! b) < 2 ^ 31" "\<And>i q. R i = Some q \<Longrightarrow> q_b q \<noteq> b"
    and i: "i < 8" "i1 < 8" "i2 < 8" "i \<noteq> i1" "i \<noteq> i2" "i1 \<noteq> i2" "vfree s ! i" "vfree s ! i1" "vfree s ! i2"
    and s': "s' = s\<lparr>vfree := (vfree s)[i := False, i1 := False, i2 := False],
        vops := (vops s)[i := \<lparr>r_type = (if write then VIRTIO_BLK_T_OUT else VIRTIO_BLK_T_IN), r_sector = blockno (bufs s ! b) * 2\<rparr>],
        desc := (desc s)[i := \<lparr>d_addr = OpAddr i, d_len = 16, d_flags = VRING_DESC_F_NEXT, d_next = i1\<rparr>,
          i1 := \<lparr>d_addr = DataAddr b, d_len = 1024, d_flags = (if write then 0 else VRING_DESC_F_WRITE) OR VRING_DESC_F_NEXT, d_next = i2\<rparr>,
          i2 := \<lparr>d_addr = StatusAddr i, d_len = 1, d_flags = VRING_DESC_F_WRITE, d_next = 0\<rparr>],
        vinfos := (vinfos s)[i := (vinfos s ! i)\<lparr>v_status := 0xff, v_b := Some b\<rparr>], b_disk := (b_disk s)(b := True),
        avail_ring := (avail_ring s)[unat (avail_idx s) mod 8 := i], avail_idx := avail_idx s + 1, vregs := (vregs s)(0x050 := 0)\<rparr>"
  shows "vinv (R(i := Some \<lparr>q_i1 = i1, q_i2 = i2, q_b = b, q_write = write, q_done = False\<rparr>)) s'"
proof -
  let ?q = "\<lparr>q_i1 = i1, q_i2 = i2, q_b = b, q_write = write, q_done = False\<rparr>"
  note D = vinvD [OF inv]
  have out: "k \<notin> {i, i1, i2}" if "R j = Some r" "k \<in> links j r" for j r k
    using D(7) [OF that(1)] that(2) i by (auto simp: req_ok_def chain_ok_def)
  have Ri: "R i = None" using out [of i] by (cases "R i") (auto simp: links_def)
  have room: "length (waiting s) < 8" using ring_room [OF inv i(1) Ri] by simp
  have wait: "waiting s' = waiting s @ [i]" using window_push [OF D(2)] room by (simp add: waiting_def s')
  have serv: "served s' = served s" by (simp add: served_def s')
  have inot: "i \<notin> set (waiting s @ served s)" using D(11) Ri by blast
  have new: "req_ok s' i ?q" using i b D(1,4,5,6) by (auto simp: req_ok_def chain_ok_def links_def s' nth_list_update)
  have old: "req_ok s' j r" if "R j = Some r" for j r
  proof -
    have r: "req_ok s j r" using D(7) [OF that] .
    have "chain_ok s' j r"
    proof (rule chain_frame [of s])
      fix k assume "k \<in> links j r"
      then have "k \<noteq> i" "k \<noteq> i1" "k \<noteq> i2" using out [OF that] by auto
      then show "desc s' ! k = desc s ! k \<and> vfree s' ! k = vfree s ! k" by (simp add: s')
    qed (use r in \<open>simp add: req_ok_def\<close>)
    moreover have "j \<noteq> i" using that Ri by auto
    ultimately show ?thesis using r b(2) [OF that] by (auto simp: req_ok_def s')
  qed
  have apart: "links j r \<inter> links i ?q = {}" "q_b r \<noteq> b" "j \<noteq> i" if "R j = Some r" for j r
    using out [OF that] b(2) [OF that] that Ri by (auto simp: links_def)
  show ?thesis
  proof (rule vinvI)
    show "req_ok s' j r" if "(R(i := Some ?q)) j = Some r" for j r using that new old by (cases "j = i") auto
    show "links j r \<inter> links k t = {} \<and> q_b r \<noteq> q_b t" if "(R(i := Some ?q)) j = Some r" "(R(i := Some ?q)) k = Some t" "j \<noteq> k" for j k r t
    proof (cases "j = i \<or> k = i")
      case True
      then show ?thesis using that apart [of j r] apart [of k t] by (cases "j = i") (auto simp: Int_commute)
    next
      case False
      then show ?thesis using that D(8) [of j r k t] by simp
    qed
    show "\<exists>j r. (R(i := Some ?q)) j = Some r \<and> k \<in> links j r" if k: "k < 8" "\<not> vfree s' ! k" for k
    proof (cases "k \<in> {i, i1, i2}")
      case True
      then show ?thesis by (intro exI [of _ i] exI [of _ ?q]) (auto simp: links_def)
    next
      case False
      then obtain j r where "R j = Some r" "k \<in> links j r" using k D(9) [of k] by (auto simp: s')
      then show ?thesis using Ri by (intro exI [of _ j] exI [of _ r]) auto
    qed
    show "distinct (waiting s' @ served s')" using D(10) inot by (auto simp: wait serv)
    show "(R(i := Some ?q)) j \<noteq> None" if "j \<in> set (waiting s' @ served s')" for j using that D(11) [of j] by (auto simp: wait serv)
    show "b_disk s' (q_b r) \<longleftrightarrow> j \<in> set (waiting s' @ served s')" if "(R(i := Some ?q)) j = Some r" for j r
    proof -
      have bd: "b_disk s' x \<longleftrightarrow> x = b \<or> b_disk s x" for x by (simp add: s')
      show ?thesis unfolding bd wait serv using that D(12) [of j r] apart [of j r] by (cases "j = i") auto
    qed
    show "v_status (vinfos s' ! j) = 0" if "j \<in> set (served s')" for j
    proof -
      have "j \<noteq> i" using that inot unfolding serv by auto
      then have "vinfos s' ! j = vinfos s ! j" by (simp add: s')
      then show ?thesis using that D(13) [of j] unfolding serv by simp
    qed
    show "q_done r \<longleftrightarrow> j \<notin> set (waiting s')" if "(R(i := Some ?q)) j = Some r" for j r
    proof (cases "j = i")
      case True
      then show ?thesis using that unfolding wait by auto
    next
      case False
      then show ?thesis using that D(14) [of j r] unfolding wait by simp
    qed
  qed (use D(1-6) in \<open>simp_all add: s'\<close>)
qed

subsection \<open>The device and the interrupt handler\<close>

lemma waiting_room:
  assumes "vinv R s" "waiting s = i # rest"
  shows "unat (used_ptr s - used_idx s) < 8"
proof -
  have "set (waiting s @ served s) \<subseteq> {..<8}" using vinvD(7,11) [OF assms(1)] by (fastforce simp: req_ok_def chain_ok_def)
  then have "card (set (waiting s @ served s)) \<le> card {..<8 :: nat}" by (intro card_mono) auto
  moreover have "card (set (waiting s @ served s)) = length (waiting s @ served s)" using vinvD(10) [OF assms(1)] by (rule distinct_card)
  ultimately show ?thesis using assms(2) by (simp add: served_def)
qed

text \<open>The device carries out the next request exactly as the disk of the buffer cache does.\<close>

lemma device_serve_run:
  assumes inv: "vinv R s" and q: "waiting s = i # rest" "R i = Some q"
  shows "\<exists>s1. virtio_disk_rw (q_b q) (q_write q) s = Inr ((), s1) \<and>
    device_serve s = Inr ((), s1\<lparr>vinfos := (vinfos s)[i := (vinfos s ! i)\<lparr>v_status := 0\<rparr>],
      used_ring := (used_ring s)[unat (used_ptr s) mod 8 := i], used_ptr := used_ptr s + 1, dev_idx := dev_idx s + 1\<rparr>) \<and>
    (\<exists>d w x. s1 = s\<lparr>disk := d, dwrites := w, bufs := x\<rparr> \<and> (\<forall>b. blockno (x ! b) = blockno (bufs s ! b)))"
proof -
  have ne: "dev_idx s \<noteq> avail_idx s" using q(1) by (auto simp: waiting_def)
  have hd: "avail_ring s ! (unat (dev_idx s) mod 8) = i" using q(1) window_pop [OF ne] by (simp add: waiting_def)
  note r = vinvD(7) [OF inv q(2), unfolded req_ok_def chain_ok_def]
  have fl: "((if q_write q then 0 else 2) OR 1) AND 2 = (if q_write q then 0 else 2 :: u16)" by auto
  show ?thesis
  proof (cases "q_write q")
    case True
    let ?s1 = "s\<lparr>disk := (disk s)(blockno (bufs s ! q_b q) := data (bufs s ! q_b q)), dwrites := dwrites s @ [(blockno (bufs s ! q_b q), data (bufs s ! q_b q))]\<rparr>"
    have "virtio_disk_rw (q_b q) (q_write q) s = Inr ((), ?s1)" using True by (simp add: virtio_disk_rw_def get_buf_def run_simps)
    moreover have "device_serve s = Inr ((), ?s1\<lparr>vinfos := (vinfos s)[i := (vinfos s ! i)\<lparr>v_status := 0\<rparr>],
        used_ring := (used_ring s)[unat (used_ptr s) mod 8 := i], used_ptr := used_ptr s + 1, dev_idx := dev_idx s + 1\<rparr>)"
      using True r fl by (simp add: device_serve_def transfer_def hd get_buf_def run_simps)
    ultimately show ?thesis by (intro exI [of _ ?s1] conjI) (auto intro!: exI [of _ "disk ?s1"] exI [of _ "dwrites ?s1"] exI [of _ "bufs s"])
  next
    case False
    let ?x = "(bufs s)[q_b q := (bufs s ! q_b q)\<lparr>data := disk s (blockno (bufs s ! q_b q))\<rparr>]"
    let ?s1 = "s\<lparr>bufs := ?x\<rparr>"
    have "virtio_disk_rw (q_b q) (q_write q) s = Inr ((), ?s1)" using False by (simp add: virtio_disk_rw_def get_buf_def set_buf_def run_simps)
    moreover have "device_serve s = Inr ((), ?s1\<lparr>vinfos := (vinfos s)[i := (vinfos s ! i)\<lparr>v_status := 0\<rparr>],
        used_ring := (used_ring s)[unat (used_ptr s) mod 8 := i], used_ptr := used_ptr s + 1, dev_idx := dev_idx s + 1\<rparr>)"
      using False r fl by (simp add: device_serve_def transfer_def hd get_buf_def set_buf_def run_simps)
    moreover have "blockno (?x ! b) = blockno (bufs s ! b)" for b
      by (cases "b < length (bufs s)"; cases "q_b q = b") (simp_all add: nth_list_update list_update_beyond not_less)
    ultimately show ?thesis by (intro exI [of _ ?s1] conjI) (auto intro!: exI [of _ "disk s"] exI [of _ "dwrites s"] exI [of _ ?x])
  qed
qed

lemma vinv_serve:
  assumes inv: "vinv R s" and q: "waiting s = i # rest" "R i = Some q"
    and x: "\<And>b. blockno (x ! b) = blockno (bufs s ! b)"
    and s': "s' = s\<lparr>disk := d, dwrites := w, bufs := x, vinfos := (vinfos s)[i := (vinfos s ! i)\<lparr>v_status := 0\<rparr>],
      used_ring := (used_ring s)[unat (used_ptr s) mod 8 := i], used_ptr := used_ptr s + 1, dev_idx := dev_idx s + 1\<rparr>"
  shows "vinv (R(i := Some (q\<lparr>q_done := True\<rparr>))) s'"
proof -
  note D = vinvD [OF inv]
  have ne: "dev_idx s \<noteq> avail_idx s" using q(1) by (auto simp: waiting_def)
  have wait: "waiting s' = rest" using q(1) window_pop [OF ne] by (simp add: waiting_def s')
  have serv: "served s' = served s @ [i]" using window_push [OF D(3) waiting_room [OF inv q(1)]] by (simp add: served_def s')
  have dst: "distinct (i # rest @ served s)" using D(10) q(1) by simp
  have i8: "i < 8" using D(7) [OF q(2)] by (simp add: req_ok_def chain_ok_def)
  have ls: "links j (r\<lparr>q_done := z\<rparr>) = links j r" for j r z by (simp add: links_def)
  have old: "req_ok s' j r" if "R j = Some r" for j r
  proof -
    have r: "req_ok s j r" using D(7) [OF that] .
    have "chain_ok s' j r" by (rule chain_frame [of s]) (use r in \<open>simp_all add: req_ok_def s'\<close>)
    then show ?thesis using r D(5) i8 x [of "q_b r"] by (simp add: req_ok_def s' nth_list_update)
  qed
  have get: "\<exists>t. R j = Some t \<and> links j t = links j r \<and> q_b t = q_b r \<and> q_done r = (q_done t \<or> j = i) \<and> (req_ok s' j t \<longrightarrow> req_ok s' j r)"
    if "(R(i := Some (q\<lparr>q_done := True\<rparr>))) j = Some r" for j r
  proof (cases "j = i")
    case True
    then have "r = q\<lparr>q_done := True\<rparr>" using that by simp
    then show ?thesis using True q(2) by (simp add: ls req_ok_def chain_ok_def)
  next
    case False
    then show ?thesis using that by simp
  qed
  show ?thesis
  proof (rule vinvI)
    show "req_ok s' j r" if "(R(i := Some (q\<lparr>q_done := True\<rparr>))) j = Some r" for j r using get [OF that] old by blast
    show "links j r \<inter> links k t = {} \<and> q_b r \<noteq> q_b t"
      if "(R(i := Some (q\<lparr>q_done := True\<rparr>))) j = Some r" "(R(i := Some (q\<lparr>q_done := True\<rparr>))) k = Some t" "j \<noteq> k" for j k r t
    proof -
      note g = get [OF that(1)] get [OF that(2)]
      obtain r' t' where "R j = Some r'" "links j r' = links j r" "q_b r' = q_b r" "R k = Some t'" "links k t' = links k t" "q_b t' = q_b t"
        using g by blast
      then show ?thesis using D(8) [of j r' k t'] that(3) by simp
    qed
    show "\<exists>j r. (R(i := Some (q\<lparr>q_done := True\<rparr>))) j = Some r \<and> k \<in> links j r" if k: "k < 8" "\<not> vfree s' ! k" for k
    proof -
      obtain j r where "R j = Some r" "k \<in> links j r" using k D(9) [of k] by (auto simp: s')
      then show ?thesis using q(2) by (intro exI [of _ j] exI [of _ "r\<lparr>q_done := q_done r \<or> j = i\<rparr>"]) (auto simp: ls)
    qed
    show "distinct (waiting s' @ served s')" using dst by (simp add: wait serv)
    show "(R(i := Some (q\<lparr>q_done := True\<rparr>))) j \<noteq> None" if "j \<in> set (waiting s' @ served s')" for j
      using that D(11) [of j] by (auto simp: wait serv q(1))
    show "b_disk s' (q_b r) \<longleftrightarrow> j \<in> set (waiting s' @ served s')" if "(R(i := Some (q\<lparr>q_done := True\<rparr>))) j = Some r" for j r
    proof -
      note g = get [OF that]
      obtain t where "R j = Some t" "q_b t = q_b r" using g by blast
      then show ?thesis using D(12) [of j t] unfolding wait serv by (auto simp: q(1) s')
    qed
    show "v_status (vinfos s' ! j) = 0" if "j \<in> set (served s')" for j
    proof -
      have "j = i \<or> j \<in> set (served s)" using that by (auto simp: serv)
      then show ?thesis using D(13) [of j] D(5) i8 by (auto simp: s' nth_list_update)
    qed
    show "q_done r \<longleftrightarrow> j \<notin> set (waiting s')" if "(R(i := Some (q\<lparr>q_done := True\<rparr>))) j = Some r" for j r
    proof -
      note g = get [OF that]
      obtain t where t: "R j = Some t" "q_done r = (q_done t \<or> j = i)" using g by blast
      show ?thesis using D(14) [OF t(1)] dst unfolding wait t(2) q(1) by auto
    qed
  qed (use D(1-6) in \<open>simp_all add: s'\<close>)
qed

lemma complete_one_run:
  assumes inv: "vinv R s" and q: "served s = i # rest" "R i = Some q"
  shows "\<exists>s'. complete_one s = Inr ((), s') \<and> vinv R s' \<and> waiting s' = waiting s \<and> served s' = rest"
proof -
  note D = vinvD [OF inv]
  let ?s = "s\<lparr>b_disk := (b_disk s)(q_b q := False), wakeups := wakeups s @ [buf_chan (q_b q)], used_idx := used_idx s + 1\<rparr>"
  have ne: "used_idx s \<noteq> used_ptr s" using q(1) by (auto simp: served_def)
  have hd: "used_ring s ! (unat (used_idx s) mod 8) = i" "window (used_ring s) (used_idx s + 1) (used_ptr s) = rest"
    using q(1) window_pop [OF ne] by (simp_all add: served_def)
  have r: "i < 8" "v_b (vinfos s ! i) = Some (q_b q)" using D(7) [OF q(2)] by (auto simp: req_ok_def chain_ok_def)
  have run: "complete_one s = Inr ((), ?s)" using r D(13) [of i] q(1) by (simp add: complete_one_def hd wakeup_def run_simps)
  have wait: "waiting ?s = waiting s" and serv: "served ?s = rest" using hd by (simp_all add: waiting_def served_def)
  have dst: "distinct (waiting s @ i # rest)" using D(10) q(1) by simp
  have "vinv R ?s"
  proof (rule vinvI)
    show "req_ok ?s j r" if "R j = Some r" for j r using D(7) [OF that] by (simp add: req_ok_def chain_ok_def)
    show "\<exists>j r. R j = Some r \<and> k \<in> links j r" if "k < 8" "\<not> vfree ?s ! k" for k using that D(9) [of k] by simp
    show "distinct (waiting ?s @ served ?s)" using dst unfolding wait serv by auto
    show "R j \<noteq> None" if "j \<in> set (waiting ?s @ served ?s)" for j using that D(11) [of j] q(1) unfolding wait serv by auto
    show "b_disk ?s (q_b r) \<longleftrightarrow> j \<in> set (waiting ?s @ served ?s)" if "R j = Some r" for j r
    proof (cases "j = i")
      case True
      then show ?thesis using that q(2) dst unfolding wait serv by auto
    next
      case False
      have bd: "b_disk ?s (q_b r) \<longleftrightarrow> b_disk s (q_b r)" using D(8) [OF that q(2) False] by simp
      show ?thesis using False D(12) [OF that] unfolding bd wait serv q(1) by simp
    qed
    show "v_status (vinfos ?s ! j) = 0" if "j \<in> set (served ?s)" for j using that D(13) [of j] q(1) unfolding serv by simp
    show "q_done r \<longleftrightarrow> j \<notin> set (waiting ?s)" if "R j = Some r" for j r using D(14) [OF that] unfolding wait .
  qed (use D(1-6,8) in simp_all)
  then show ?thesis using run wait serv by blast
qed

lemma intr_loop_run:
  "vinv R s \<Longrightarrow> length (served s) = n \<Longrightarrow> \<exists>s'. intr_loop n s = Inr ((), s') \<and> vinv R s' \<and> waiting s' = waiting s \<and> served s' = []"
proof (induction n arbitrary: s)
  case 0
  then show ?case by (simp add: run_simps)
next
  case (Suc n)
  obtain i rest where i: "served s = i # rest" using Suc.prems(2) by (cases "served s") auto
  obtain q where "R i = Some q" using vinvD(11) [OF Suc.prems(1), of i] i by auto
  from complete_one_run [OF Suc.prems(1) i this] obtain t where t: "complete_one s = Inr ((), t)" "vinv R t" "waiting t = waiting s" "served t = rest"
    by blast
  from Suc.IH [OF t(2)] obtain u where "intr_loop n t = Inr ((), u)" "vinv R u" "waiting u = waiting t" "served u = []"
    using t(4) Suc.prems(2) i by auto
  then show ?case using t by (simp add: run_simps)
qed

lemma virtio_disk_intr_run:
  assumes inv: "vinv R s"
  shows "\<exists>s'. virtio_disk_intr s = Inr ((), s') \<and> vinv R s' \<and> waiting s' = waiting s \<and> served s' = []"
proof -
  let ?s = "s\<lparr>vregs := (vregs s)(0x064 := vregs s 0x060 AND 3)\<rparr>"
  have "vinv R ?s" using inv by (simp add: vinv_def waiting_def served_def req_ok_def chain_ok_def)
  from intr_loop_run [OF this] obtain s' where "intr_loop (length (served ?s)) ?s = Inr ((), s')" "vinv R s'" "waiting s' = waiting ?s" "served s' = []"
    by blast
  moreover have "waiting ?s = waiting s" "length (served ?s) = unat (used_ptr s - used_idx s)" by (simp_all add: waiting_def served_def)
  ultimately show ?thesis by (simp add: virtio_disk_intr_def run_simps)
qed

subsection \<open>Finishing a request\<close>

lemma virtio_finish_run:
  assumes inv: "vinv R s" and q: "R i = Some q"
  shows "if b_disk s (q_b q) then virtio_finish (q_b q) i s = Inr (None, s)
    else q_done q \<and> (\<exists>s'. virtio_finish (q_b q) i s = Inr (Some (), s') \<and> vinv (R(i := None)) s')"
proof (cases "b_disk s (q_b q)")
  case True
  then show ?thesis by (simp add: virtio_finish_def run_simps)
next
  case False
  note D = vinvD [OF inv]
  let ?t = "s\<lparr>vinfos := (vinfos s)[i := (vinfos s ! i)\<lparr>v_b := None\<rparr>]\<rparr>"
  have r: "req_ok s i q" using D(7) [OF q] .
  then have ch: "chain_ok ?t i q" by (simp add: req_ok_def chain_ok_def)
  then have i8: "i < 8" "q_i1 q < 8" "q_i2 q < 8" by (simp_all add: chain_ok_def)
  from free_chain_run [OF ch] obtain w where w: "free_chain i ?t = Inr ((), ?t\<lparr>desc := (desc ?t)[i := zero_desc, q_i1 q := zero_desc, q_i2 q := zero_desc],
    vfree := (vfree ?t)[i := True, q_i1 q := True, q_i2 q := True], wakeups := w\<rparr>)" using D(1,4) by auto
  define s' where s': "s' = s\<lparr>vinfos := (vinfos s)[i := (vinfos s ! i)\<lparr>v_b := None\<rparr>], desc := (desc s)[i := zero_desc, q_i1 q := zero_desc, q_i2 q := zero_desc],
    vfree := (vfree s)[i := True, q_i1 q := True, q_i2 q := True], wakeups := w\<rparr>"
  have run: "virtio_finish (q_b q) i s = Inr (Some (), s')" using False w by (simp add: virtio_finish_def s' run_simps)
  have wait: "waiting s' = waiting s" and serv: "served s' = served s" by (simp_all add: waiting_def served_def s')
  have inot: "i \<notin> set (waiting s @ served s)" using D(12) [OF q] False by blast
  have other: "R j = Some u" "j \<noteq> i" "k \<in> links j u \<Longrightarrow> k \<noteq> i \<and> k \<noteq> q_i1 q \<and> k \<noteq> q_i2 q" if "(R(i := None)) j = Some u" for j u k
    using that D(8) [of i q j u] q by (auto simp: links_def split: if_splits)
  have "vinv (R(i := None)) s'"
  proof (rule vinvI)
    show "req_ok s' j u" if "(R(i := None)) j = Some u" for j u
    proof -
      note o1 = other(1,2) [OF that]
      have ru: "req_ok s j u" using D(7) [OF o1(1)] .
      have "chain_ok s' j u"
      proof (rule chain_frame [of s])
        fix k assume "k \<in> links j u"
        then have "k \<noteq> i" "k \<noteq> q_i1 q" "k \<noteq> q_i2 q" using other(3) [OF that] by blast+
        then show "desc s' ! k = desc s ! k \<and> vfree s' ! k = vfree s ! k" by (simp add: s')
      qed (use ru in \<open>simp add: req_ok_def\<close>)
      then show ?thesis using ru o1(2) by (auto simp: req_ok_def s')
    qed
    show "links j u \<inter> links k t = {} \<and> q_b u \<noteq> q_b t" if "(R(i := None)) j = Some u" "(R(i := None)) k = Some t" "j \<noteq> k" for j k u t
      using D(8) [OF other(1) [OF that(1)] other(1) [OF that(2)] that(3)] .
    show "\<exists>j u. (R(i := None)) j = Some u \<and> k \<in> links j u" if k: "k < 8" "\<not> vfree s' ! k" for k
    proof -
      have nk: "k \<noteq> i" "k \<noteq> q_i1 q" "k \<noteq> q_i2 q" using k D(4) i8 ch by (auto simp: s' nth_list_update chain_ok_def)
      then have "\<not> vfree s ! k" using k(2) by (simp add: s')
      then obtain j u where ju: "R j = Some u" "k \<in> links j u" using D(9) [OF k(1)] by blast
      then have "j \<noteq> i" using nk q by (auto simp: links_def)
      then show ?thesis using ju by (intro exI [of _ j] exI [of _ u]) simp
    qed
    show "distinct (waiting s' @ served s')" using D(10) unfolding wait serv .
    show "(R(i := None)) j \<noteq> None" if "j \<in> set (waiting s' @ served s')" for j using that D(11) [of j] inot unfolding wait serv by auto
    show "b_disk s' (q_b u) \<longleftrightarrow> j \<in> set (waiting s' @ served s')" if "(R(i := None)) j = Some u" for j u
    proof -
      have "b_disk s' = b_disk s" by (simp add: s')
      then show ?thesis using D(12) [OF other(1) [OF that]] unfolding wait serv by simp
    qed
    show "v_status (vinfos s' ! j) = 0" if "j \<in> set (served s')" for j
    proof -
      have "j \<noteq> i" using that inot unfolding serv by auto
      then show ?thesis using that D(13) [of j] unfolding serv by (simp add: s')
    qed
    show "q_done u \<longleftrightarrow> j \<notin> set (waiting s')" if "(R(i := None)) j = Some u" for j u using D(14) [OF other(1) [OF that]] unfolding wait .
  qed (use D(1-6) in \<open>simp_all add: s'\<close>)
  moreover have "q_done q" using D(14) [OF q] inot by simp
  ultimately show ?thesis using run False by auto
qed

subsection \<open>The driver and the device together\<close>

text \<open>
  The steps of the disk: a process starts a request or finds no free descriptors, the device serves a request, the
  interrupt handler runs, a woken process finishes its request, and the rest of the kernel runs.  The rest of the
  kernel may change everything but the virtqueue and the block numbers of the buffers whose requests are in flight,
  which their sleep locks protect; the same locks keep a buffer from having two requests.
\<close>

definition queue_of :: "vdisk \<Rightarrow> virtq_desc list \<times> nat list \<times> u16 \<times> nat list \<times> u16 \<times> bool list \<times> u16 \<times> vinfo list \<times> virtio_blk_req list \<times> (nat \<Rightarrow> bool) \<times> u16" where
  "queue_of s = (desc s, avail_ring s, avail_idx s, used_ring s, used_ptr s, vfree s, used_idx s, vinfos s, vops s, b_disk s, dev_idx s)"

definition in_flight :: "(nat \<Rightarrow> vreq option) \<Rightarrow> nat \<Rightarrow> bool" where
  "in_flight R b \<longleftrightarrow> (\<exists>i q. R i = Some q \<and> q_b q = b)"

definition new_req :: "vdisk \<Rightarrow> nat \<Rightarrow> nat \<Rightarrow> bool \<Rightarrow> vreq" where
  "new_req s i b write =
     \<lparr>q_i1 = d_next (desc s ! i), q_i2 = d_next (desc s ! d_next (desc s ! i)), q_b = b, q_write = write, q_done = False\<rparr>"

inductive disk_step :: "(nat \<Rightarrow> vreq option) \<times> vdisk \<Rightarrow> (nat \<Rightarrow> vreq option) \<times> vdisk \<Rightarrow> bool" where
  start: "\<not> in_flight R b \<Longrightarrow> blockno (bufs s ! b) < 2 ^ 31 \<Longrightarrow> virtio_start b write s = Inr (Some i, s') \<Longrightarrow>
    disk_step (R, s) (R(i := Some (new_req s' i b write)), s')"
| full: "blockno (bufs s ! b) < 2 ^ 31 \<Longrightarrow> virtio_start b write s = Inr (None, s') \<Longrightarrow> disk_step (R, s) (R, s')"
| serve: "dev_idx s \<noteq> avail_idx s \<Longrightarrow> i = avail_ring s ! (unat (dev_idx s) mod 8) \<Longrightarrow> R i = Some q \<Longrightarrow> device_serve s = Inr ((), s') \<Longrightarrow>
    disk_step (R, s) (R(i := Some (q\<lparr>q_done := True\<rparr>)), s')"
| intr: "virtio_disk_intr s = Inr ((), s') \<Longrightarrow> disk_step (R, s) (R, s')"
| finish: "R i = Some q \<Longrightarrow> virtio_finish (q_b q) i s = Inr (Some (), s') \<Longrightarrow> disk_step (R, s) (R(i := None), s')"
| others: "queue_of s' = queue_of s \<Longrightarrow> (\<And>b. in_flight R b \<Longrightarrow> blockno (bufs s' ! b) = blockno (bufs s ! b)) \<Longrightarrow> disk_step (R, s) (R, s')"

definition idle_disk :: "vdisk \<Rightarrow> bool" where
  "idle_disk s \<longleftrightarrow> desc s = replicate 8 zero_desc \<and> length (avail_ring s) = 8 \<and> length (used_ring s) = 8 \<and> vfree s = replicate 8 True \<and>
     length (vinfos s) = 8 \<and> length (vops s) = 8 \<and> avail_idx s = 0 \<and> used_ptr s = 0 \<and> used_idx s = 0 \<and> dev_idx s = 0"

lemma vinv_idle: "idle_disk s \<Longrightarrow> vinv Map.empty s"
  by (rule vinvI) (auto simp: idle_disk_def waiting_def served_def)

lemma waiting_head:
  assumes "vinv R s" "dev_idx s \<noteq> avail_idx s"
  obtains q where "waiting s = avail_ring s ! (unat (dev_idx s) mod 8) # window (avail_ring s) (dev_idx s + 1) (avail_idx s)"
    "R (avail_ring s ! (unat (dev_idx s) mod 8)) = Some q"
proof -
  have "waiting s = avail_ring s ! (unat (dev_idx s) mod 8) # window (avail_ring s) (dev_idx s + 1) (avail_idx s)"
    using window_pop [OF assms(2)] by (simp add: waiting_def)
  with that vinvD(11) [OF assms(1), of "avail_ring s ! (unat (dev_idx s) mod 8)"] show ?thesis by auto
qed

lemma vinv_others:
  assumes inv: "vinv R s" and s': "queue_of s' = queue_of s" "\<And>b. in_flight R b \<Longrightarrow> blockno (bufs s' ! b) = blockno (bufs s ! b)"
  shows "vinv R s'"
proof -
  have e: "desc s' = desc s" "avail_ring s' = avail_ring s" "avail_idx s' = avail_idx s" "used_ring s' = used_ring s" "used_ptr s' = used_ptr s"
    "vfree s' = vfree s" "used_idx s' = used_idx s" "vinfos s' = vinfos s" "vops s' = vops s" "b_disk s' = b_disk s" "dev_idx s' = dev_idx s"
    using s'(1) by (simp_all add: queue_of_def)
  have w: "waiting s' = waiting s" "served s' = served s" by (simp_all add: waiting_def served_def e)
  have "req_ok s' i q" if q: "R i = Some q" for i q
  proof -
    have "blockno (bufs s' ! q_b q) = blockno (bufs s ! q_b q)" using s'(2) q by (auto simp: in_flight_def)
    then show ?thesis using vinvD(7) [OF inv q] by (simp add: req_ok_def chain_ok_def e)
  qed
  then show ?thesis using vinvD(1-6,8-14) [OF inv] unfolding e [symmetric] w [symmetric] by (intro vinvI)
qed

lemma disk_step_vinv:
  assumes "disk_step (R, s) (R', s')" "vinv R s"
  shows "vinv R' s'"
  using assms(1)
proof cases
  case (start b wr i)
  from virtio_start_run [OF assms(2) start(3), of wr] start(4) obtain i1 i2 where
    i: "i < 8" "i1 < 8" "i2 < 8" "i \<noteq> i1" "i \<noteq> i2" "i1 \<noteq> i2" "vfree s ! i" "vfree s ! i1" "vfree s ! i2" and
    s': "s' = s\<lparr>vfree := (vfree s)[i := False, i1 := False, i2 := False],
        vops := (vops s)[i := \<lparr>r_type = (if wr then VIRTIO_BLK_T_OUT else VIRTIO_BLK_T_IN), r_sector = blockno (bufs s ! b) * 2\<rparr>],
        desc := (desc s)[i := \<lparr>d_addr = OpAddr i, d_len = 16, d_flags = VRING_DESC_F_NEXT, d_next = i1\<rparr>,
          i1 := \<lparr>d_addr = DataAddr b, d_len = 1024, d_flags = (if wr then 0 else VRING_DESC_F_WRITE) OR VRING_DESC_F_NEXT, d_next = i2\<rparr>,
          i2 := \<lparr>d_addr = StatusAddr i, d_len = 1, d_flags = VRING_DESC_F_WRITE, d_next = 0\<rparr>],
        vinfos := (vinfos s)[i := (vinfos s ! i)\<lparr>v_status := 0xff, v_b := Some b\<rparr>], b_disk := (b_disk s)(b := True),
        avail_ring := (avail_ring s)[unat (avail_idx s) mod 8 := i], avail_idx := avail_idx s + 1, vregs := (vregs s)(0x050 := 0)\<rparr>"
    by auto
  have "\<And>j q. R j = Some q \<Longrightarrow> q_b q \<noteq> b" using start(2) by (auto simp: in_flight_def)
  then have "vinv (R(i := Some \<lparr>q_i1 = i1, q_i2 = i2, q_b = b, q_write = wr, q_done = False\<rparr>)) s'"
    using vinv_start [OF assms(2) start(3) _ i s'] by blast
  moreover have "new_req s' i b wr = \<lparr>q_i1 = i1, q_i2 = i2, q_b = b, q_write = wr, q_done = False\<rparr>"
    using i vinvD(1) [OF assms(2)] by (simp add: new_req_def s')
  ultimately show ?thesis using start(1) by simp
next
  case (full b wr)
  then show ?thesis using virtio_start_run [OF assms(2) full(2), of wr] vinv_full [OF assms(2)] by auto
next
  case (serve i q)
  obtain q' where q': "waiting s = i # window (avail_ring s) (dev_idx s + 1) (avail_idx s)" "R i = Some q'"
    using waiting_head [OF assms(2) serve(2)] serve(3) by metis
  then have "R i = Some q" using serve(4) by simp
  from device_serve_run [OF assms(2) q'(1) this] serve(5) obtain d w x where
    "s' = s\<lparr>disk := d, dwrites := w, bufs := x, vinfos := (vinfos s)[i := (vinfos s ! i)\<lparr>v_status := 0\<rparr>],
      used_ring := (used_ring s)[unat (used_ptr s) mod 8 := i], used_ptr := used_ptr s + 1, dev_idx := dev_idx s + 1\<rparr>"
    "\<And>b. blockno (x ! b) = blockno (bufs s ! b)" by auto
  then show ?thesis using vinv_serve [OF assms(2) q'(1) \<open>R i = Some q\<close>] serve(1) by blast
next
  case intr
  then show ?thesis using virtio_disk_intr_run [OF assms(2)] by auto
next
  case (finish i q)
  then show ?thesis using virtio_finish_run [OF assms(2) finish(2)] by (auto split: if_splits)
next
  case others
  then show ?thesis using vinv_others [OF assms(2)] by blast
qed

lemma disk_reach_vinv: "disk_step\<^sup>*\<^sup>* (R, s) (R', s') \<Longrightarrow> vinv R s \<Longrightarrow> vinv R' s'"
  by (induction "(R', s')" arbitrary: R' s' rule: rtranclp_induct) (use disk_step_vinv in \<open>auto split: prod.splits\<close>)

lemma no_request_all_free:
  assumes "vinv Map.empty s"
  shows "vfree s = replicate 8 True"
  using vinvD(4,9) [OF assms] by (intro nth_equalityI) auto

subsection \<open>Initialisation\<close>

text \<open>The parts of \<^verbatim>\<open>disk\<close> that \<^verbatim>\<open>virtio_disk_init\<close> leaves as the loader zeroed them.\<close>

definition statics :: "vdisk \<Rightarrow> vinfo list \<times> virtio_blk_req list \<times> u16 \<times> u16" where
  "statics s = (vinfos s, vops s, used_idx s, dev_idx s)"

lemma statics_leaves: "leaves statics kalloc" "leaves statics (memsetK a c n)" "leaves statics (put_reg r v)" "leaves statics (set_addr r d)"
  unfolding kalloc_def memsetK_def put_reg_def set_addr_def by (intro leaves_intros leaves_modify; simp add: statics_def)+

lemma virtio_disk_init_statics: "leaves statics virtio_disk_init"
  unfolding virtio_disk_init_def by (intro leaves_intros statics_leaves leaves_modify) (simp_all add: statics_def)

lemma wp_any: "(\<And>r s'. Q r s') \<Longrightarrow> wp f Q (\<lambda>_. True) s"
  by (simp add: wp_def split: sum.splits)

lemma virtio_disk_init_idle:
  assumes run: "virtio_disk_init s = Inr ((), s')" and zero: "length (vinfos s) = 8" "length (vops s) = 8" "used_idx s = 0" "dev_idx s = 0"
  shows "idle_disk s'"
proof -
  have "wp virtio_disk_init (\<lambda>_ t. desc t = replicate 8 zero_desc \<and> avail_ring t = replicate 8 0 \<and> used_ring t = replicate 8 0 \<and>
      vfree t = replicate 8 True \<and> avail_idx t = 0 \<and> used_ptr t = 0) (\<lambda>_. True) s"
    unfolding virtio_disk_init_def put_reg_def set_addr_def 
    by (auto intro!: wp_any [where f = kalloc] wp_any [where f = "memsetK a c n" for a c n])
  then show ?thesis using run zero leavesD [OF virtio_disk_init_statics run] by (simp add: wp_def idle_disk_def statics_def)
qed

subsection \<open>Properties\<close>


text \<open>The device serves the requests one after another; \<open>serve_all n\<close> serves \<open>n\<close> of them.\<close>

primrec serve_all :: "nat \<Rightarrow> ('z vdisk_scheme, unit) K" where
  "serve_all 0 = returnK ()"
| "serve_all (Suc n) = thenK device_serve (serve_all n)"

lemma serve_all_run:
  "vinv R s \<Longrightarrow> length (waiting s) = n \<Longrightarrow> \<exists>R' s'. serve_all n s = Inr ((), s') \<and> vinv R' s' \<and> waiting s' = [] \<and>
     (\<forall>i q. R i = Some q \<longrightarrow> R' i = Some (q\<lparr>q_done := True\<rparr>))"
proof (induction n arbitrary: R s)
  case 0
  have "q\<lparr>q_done := True\<rparr> = q" if "R i = Some q" for i q using vinvD(14) [OF 0(1) that] 0(2) by (cases q) simp
  then show ?case using 0 by (intro exI [of _ R] exI [of _ s]) (auto simp: run_simps)
next
  case (Suc n)
  have ne: "dev_idx s \<noteq> avail_idx s" using Suc.prems(2) by (auto simp: waiting_def)
  let ?i = "avail_ring s ! (unat (dev_idx s) mod 8)"
  obtain q where q: "waiting s = ?i # window (avail_ring s) (dev_idx s + 1) (avail_idx s)" "R ?i = Some q"
    using waiting_head [OF Suc.prems(1) ne] .
  from device_serve_run [OF Suc.prems(1) q] obtain d w x where
    x: "\<And>b. blockno (x ! b) = blockno (bufs s ! b)" and
    run: "device_serve s = Inr ((), s\<lparr>disk := d, dwrites := w, bufs := x, vinfos := (vinfos s)[?i := (vinfos s ! ?i)\<lparr>v_status := 0\<rparr>],
      used_ring := (used_ring s)[unat (used_ptr s) mod 8 := ?i], used_ptr := used_ptr s + 1, dev_idx := dev_idx s + 1\<rparr>)" (is "_ = Inr ((), ?s)")
    by auto
  have inv: "vinv (R(?i := Some (q\<lparr>q_done := True\<rparr>))) ?s" using vinv_serve [OF Suc.prems(1) q x] by blast
  have "waiting ?s = window (avail_ring s) (dev_idx s + 1) (avail_idx s)" by (simp add: waiting_def)
  then have "length (waiting ?s) = n" using q(1) Suc.prems(2) by simp
  from Suc.IH [OF inv this] obtain R' s' where "serve_all n ?s = Inr ((), s')" "vinv R' s'" "waiting s' = []"
    and all: "\<And>i r. (R(?i := Some (q\<lparr>q_done := True\<rparr>))) i = Some r \<Longrightarrow> R' i = Some (r\<lparr>q_done := True\<rparr>)" by blast
  moreover have "R' i = Some (r\<lparr>q_done := True\<rparr>)" if "R i = Some r" for i r
    using all [of i "if i = ?i then q\<lparr>q_done := True\<rparr> else r"] that q(2) by (cases "i = ?i") auto
  ultimately show ?case using run by (intro exI [of _ R'] exI [of _ s']) (simp add: run_simps)
qed


subsection \<open>A run of the disk\<close>

definition idle_vdisk :: vdisk where
  "idle_vdisk = kern.extend (ftab.extend (fs.extend small_fs (ftab.fields [] [])) (kern.fields [] 0 0 2 0 0))
     (vdisk.fields (replicate 8 zero_desc) (replicate 8 0) 0 (replicate 8 0) 0 (replicate 8 True) 0
        (replicate 8 \<lparr>v_b = None, v_status = 0\<rparr>) (replicate 8 \<lparr>r_type = 0, r_sector = 0\<rparr>) (\<lambda>_. False) (\<lambda>_. 0) True 0)"

lemma idle_vdisk_sel [simp]:
  "desc idle_vdisk = replicate 8 zero_desc" "avail_ring idle_vdisk = replicate 8 0" "avail_idx idle_vdisk = 0"
  "used_ring idle_vdisk = replicate 8 0" "used_ptr idle_vdisk = 0" "vfree idle_vdisk = replicate 8 True" "used_idx idle_vdisk = 0"
  "vinfos idle_vdisk = replicate 8 \<lparr>v_b = None, v_status = 0\<rparr>" "vops idle_vdisk = replicate 8 \<lparr>r_type = 0, r_sector = 0\<rparr>"
  "dev_idx idle_vdisk = 0" "bufs idle_vdisk = bufs small_fs"
  by (simp_all add: idle_vdisk_def ftab.defs fs.defs kern.defs vdisk.defs)

lemma idle_vdisk_idle: "idle_disk idle_vdisk"
  by (simp add: idle_disk_def)

lemma idle_vdisk_start:
  obtains s where "virtio_start 0 True idle_vdisk = Inr (Some 0, s)" "dev_idx s \<noteq> avail_idx s"
    "disk_step\<^sup>*\<^sup>* (Map.empty, idle_vdisk) (Map.empty(0 \<mapsto> new_req s 0 0 True), s)"
proof -
  have r8: "replicate 8 True = [True, True, True, True, True, True, True, True]" by (simp add: eval_nat_numeral)
  have blk: "blockno (bufs idle_vdisk ! 0) < 2 ^ 31" by (simp add: small_fs_sel empty_buf_def)
  have "alloc3_desc idle_vdisk = Inr (Some (0, 1, 2), idle_vdisk\<lparr>vfree := (vfree idle_vdisk)[0 := False, 1 := False, 2 := False]\<rparr>)"
    by (simp add: alloc3_desc_def alloc_desc_run run_simps r8 del: find_index_None)
  then have start: "\<exists>s. virtio_start 0 True idle_vdisk = Inr (Some 0, s) \<and> dev_idx s \<noteq> avail_idx s"
    by (simp add: virtio_start_def get_buf_def set_desc_def run_simps Let_def)
  then obtain s where s: "virtio_start 0 True idle_vdisk = Inr (Some 0, s)" "dev_idx s \<noteq> avail_idx s" by blast
  then have "disk_step (Map.empty, idle_vdisk) (Map.empty(0 \<mapsto> new_req s 0 0 True), s)"
    using disk_step.start [OF _ blk s(1), of Map.empty] by (simp add: in_flight_def)
  then show ?thesis using s that by blast
qed



end
