(* ===== verification/Assembly.thy ===== *)
theory Assembly
  imports Kalloc
begin

section \<open>The assembly code (kernel/trampoline.S, kernel/swtch.S, kernel/kernelvec.S, kernel/entry.S)\<close>

text \<open>
  The instructions that the assembly files use, on the registers of a hart, the control registers and memory.  An address is
  translated under the page table in \<^verbatim>\<open>satp\<close>; the translation is a parameter.  The C functions that the assembly code calls
  are parameters too, with the calling convention as hypotheses.
\<close>

subsection \<open>A hart\<close>

datatype reg = Ra | Sp | Gp | Tp | T0 | T1 | T2 | T3 | T4 | T5 | T6 | S0 | S1 | S2 | S3 | S4
  | S5 | S6 | S7 | S8 | S9 | S10 | S11 | A0 | A1 | A2 | A3 | A4 | A5 | A6 | A7

datatype csr = Satp | Sscratch | Sepc | Mhartid

datatype instr =
    Sd reg nat reg      \<comment> \<open>\<^verbatim>\<open>sd r, off(base)\<close>\<close>
  | Ld reg nat reg      \<comment> \<open>\<^verbatim>\<open>ld r, off(base)\<close>\<close>
  | Li reg u64
  | Addi reg reg u64
  | Mul reg reg reg
  | Add reg reg reg
  | Csrw csr reg
  | Csrr reg csr
  | Sfence
  | Jalr reg u64        \<comment> \<open>with the address of the instruction after it\<close>
  | Ret
  | Sret

record hart =
  gpr :: "reg \<Rightarrow> u64"
  csrs :: "csr \<Rightarrow> u64"
  hmem :: mem
  hpc :: u64

type_synonym xlate = "u64 \<Rightarrow> addr \<Rightarrow> addr"

fun exec1 :: "xlate \<Rightarrow> instr \<Rightarrow> hart \<Rightarrow> hart" where
  "exec1 tr (Sd r off b) h = h\<lparr>hmem := write64 (hmem h) (tr (csrs h Satp) (gpr h b + of_nat off)) (gpr h r)\<rparr>"
| "exec1 tr (Ld r off b) h = h\<lparr>gpr := (gpr h)(r := read64 (hmem h) (tr (csrs h Satp) (gpr h b + of_nat off)))\<rparr>"
| "exec1 tr (Li r v) h = h\<lparr>gpr := (gpr h)(r := v)\<rparr>"
| "exec1 tr (Addi r a v) h = h\<lparr>gpr := (gpr h)(r := gpr h a + v)\<rparr>"
| "exec1 tr (Mul r a b) h = h\<lparr>gpr := (gpr h)(r := gpr h a * gpr h b)\<rparr>"
| "exec1 tr (Add r a b) h = h\<lparr>gpr := (gpr h)(r := gpr h a + gpr h b)\<rparr>"
| "exec1 tr (Csrw c r) h = h\<lparr>csrs := (csrs h)(c := gpr h r)\<rparr>"
| "exec1 tr (Csrr r c) h = h\<lparr>gpr := (gpr h)(r := csrs h c)\<rparr>"
| "exec1 tr Sfence h = h"
| "exec1 tr (Jalr r link) h = h\<lparr>hpc := gpr h r, gpr := (gpr h)(Ra := link)\<rparr>"
| "exec1 tr Ret h = h\<lparr>hpc := gpr h Ra\<rparr>"
| "exec1 tr Sret h = h\<lparr>hpc := csrs h Sepc\<rparr>"

definition run_code :: "xlate \<Rightarrow> instr list \<Rightarrow> hart \<Rightarrow> hart" where
  "run_code tr = fold (exec1 tr)"

subsection \<open>The code\<close>

definition uservec :: "u64 \<Rightarrow> instr list" where
  "uservec userret_addr =
    [Csrw Sscratch A0, Li A0 TRAPFRAME,
     Sd Ra 40 A0, Sd Sp 48 A0, Sd Gp 56 A0, Sd Tp 64 A0, Sd T0 72 A0, Sd T1 80 A0, Sd T2 88 A0, Sd S0 96 A0,
     Sd S1 104 A0, Sd A1 120 A0, Sd A2 128 A0, Sd A3 136 A0, Sd A4 144 A0, Sd A5 152 A0, Sd A6 160 A0,
     Sd A7 168 A0, Sd S2 176 A0, Sd S3 184 A0, Sd S4 192 A0, Sd S5 200 A0, Sd S6 208 A0, Sd S7 216 A0,
     Sd S8 224 A0, Sd S9 232 A0, Sd S10 240 A0, Sd S11 248 A0, Sd T3 256 A0, Sd T4 264 A0, Sd T5 272 A0,
     Sd T6 280 A0,
     Csrr T0 Sscratch, Sd T0 112 A0, Ld Sp 8 A0, Ld Tp 32 A0, Ld T0 16 A0, Ld T1 0 A0,
     Sfence, Csrw Satp T1, Sfence, Jalr T0 userret_addr]"

definition userret :: "instr list" where
  "userret =
    [Sfence, Csrw Satp A0, Sfence, Li A0 TRAPFRAME,
     Ld Ra 40 A0, Ld Sp 48 A0, Ld Gp 56 A0, Ld Tp 64 A0, Ld T0 72 A0, Ld T1 80 A0, Ld T2 88 A0, Ld S0 96 A0,
     Ld S1 104 A0, Ld A1 120 A0, Ld A2 128 A0, Ld A3 136 A0, Ld A4 144 A0, Ld A5 152 A0, Ld A6 160 A0,
     Ld A7 168 A0, Ld S2 176 A0, Ld S3 184 A0, Ld S4 192 A0, Ld S5 200 A0, Ld S6 208 A0, Ld S7 216 A0,
     Ld S8 224 A0, Ld S9 232 A0, Ld S10 240 A0, Ld S11 248 A0, Ld T3 256 A0, Ld T4 264 A0, Ld T5 272 A0,
     Ld T6 280 A0,
     Ld A0 112 A0, Sret]"

definition swtch :: "instr list" where
  "swtch =
    [Sd Ra 0 A0, Sd Sp 8 A0, Sd S0 16 A0, Sd S1 24 A0, Sd S2 32 A0, Sd S3 40 A0, Sd S4 48 A0, Sd S5 56 A0,
     Sd S6 64 A0, Sd S7 72 A0, Sd S8 80 A0, Sd S9 88 A0, Sd S10 96 A0, Sd S11 104 A0,
     Ld Ra 0 A1, Ld Sp 8 A1, Ld S0 16 A1, Ld S1 24 A1, Ld S2 32 A1, Ld S3 40 A1, Ld S4 48 A1, Ld S5 56 A1,
     Ld S6 64 A1, Ld S7 72 A1, Ld S8 80 A1, Ld S9 88 A1, Ld S10 96 A1, Ld S11 104 A1,
     Ret]"

definition kernelvec_save :: "instr list" where
  "kernelvec_save =
    [Addi Sp Sp (- 256),
     Sd Ra 0 Sp, Sd Gp 16 Sp, Sd Tp 24 Sp, Sd T0 32 Sp, Sd T1 40 Sp, Sd T2 48 Sp, Sd A0 72 Sp, Sd A1 80 Sp,
     Sd A2 88 Sp, Sd A3 96 Sp, Sd A4 104 Sp, Sd A5 112 Sp, Sd A6 120 Sp, Sd A7 128 Sp, Sd T3 216 Sp,
     Sd T4 224 Sp, Sd T5 232 Sp, Sd T6 240 Sp]"

definition kernelvec_restore :: "instr list" where
  "kernelvec_restore =
    [Ld Ra 0 Sp, Ld Gp 16 Sp, Ld T0 32 Sp, Ld T1 40 Sp, Ld T2 48 Sp, Ld A0 72 Sp, Ld A1 80 Sp, Ld A2 88 Sp,
     Ld A3 96 Sp, Ld A4 104 Sp, Ld A5 112 Sp, Ld A6 120 Sp, Ld A7 128 Sp, Ld T3 216 Sp, Ld T4 224 Sp,
     Ld T5 232 Sp, Ld T6 240 Sp,
     Addi Sp Sp 256, Sret]"

text \<open>\<^verbatim>\<open>kernelvec\<close>, with the call of \<^verbatim>\<open>kerneltrap\<close> as a parameter.\<close>

definition kernelvec :: "xlate \<Rightarrow> (hart \<Rightarrow> hart) \<Rightarrow> hart \<Rightarrow> hart" where
  "kernelvec tr kerneltrap h = run_code tr kernelvec_restore (kerneltrap (run_code tr kernelvec_save h))"

definition entry :: "u64 \<Rightarrow> instr list" where
  "entry stack0 = [Li Sp stack0, Li A0 (1024 * 4), Csrr A1 Mhartid, Addi A1 A1 1, Mul A0 A0 A1, Add Sp Sp A0]"

text \<open>Where \<^verbatim>\<open>struct trapframe\<close> and \<^verbatim>\<open>struct context\<close> have a register.\<close>

fun tf_slot :: "reg \<Rightarrow> nat" where
  "tf_slot Ra = 40"
| "tf_slot Sp = 48"
| "tf_slot Gp = 56"
| "tf_slot Tp = 64"
| "tf_slot T0 = 72"
| "tf_slot T1 = 80"
| "tf_slot T2 = 88"
| "tf_slot S0 = 96"
| "tf_slot S1 = 104"
| "tf_slot A0 = 112"
| "tf_slot A1 = 120"
| "tf_slot A2 = 128"
| "tf_slot A3 = 136"
| "tf_slot A4 = 144"
| "tf_slot A5 = 152"
| "tf_slot A6 = 160"
| "tf_slot A7 = 168"
| "tf_slot S2 = 176"
| "tf_slot S3 = 184"
| "tf_slot S4 = 192"
| "tf_slot S5 = 200"
| "tf_slot S6 = 208"
| "tf_slot S7 = 216"
| "tf_slot S8 = 224"
| "tf_slot S9 = 232"
| "tf_slot S10 = 240"
| "tf_slot S11 = 248"
| "tf_slot T3 = 256"
| "tf_slot T4 = 264"
| "tf_slot T5 = 272"
| "tf_slot T6 = 280"

fun ctx_slot :: "reg \<Rightarrow> nat" where
  "ctx_slot Ra = 0"
| "ctx_slot Sp = 8"
| "ctx_slot S0 = 16"
| "ctx_slot S1 = 24"
| "ctx_slot S2 = 32"
| "ctx_slot S3 = 40"
| "ctx_slot S4 = 48"
| "ctx_slot S5 = 56"
| "ctx_slot S6 = 64"
| "ctx_slot S7 = 72"
| "ctx_slot S8 = 80"
| "ctx_slot S9 = 88"
| "ctx_slot S10 = 96"
| "ctx_slot S11 = 104"
| "ctx_slot _ = 112"

definition ctx_regs :: "reg list" where
  "ctx_regs = [Ra, Sp, S0, S1, S2, S3, S4, S5, S6, S7, S8, S9, S10, S11]"

subsection \<open>Saving and restoring\<close>

lemma run_code_simps [simp]: "run_code tr [] h = h" "run_code tr (i # is) h = run_code tr is (exec1 tr i h)"
  "run_code tr (is @ js) h = run_code tr js (run_code tr is h)"
  by (simp_all add: run_code_def)

abbreviation (input) saves :: "(reg \<times> nat) list \<Rightarrow> reg \<Rightarrow> instr list" where
  "saves L b \<equiv> map (\<lambda>(r, off). Sd r off b) L"

abbreviation (input) loads :: "(reg \<times> nat) list \<Rightarrow> reg \<Rightarrow> instr list" where
  "loads L b \<equiv> map (\<lambda>(r, off). Ld r off b) L"

text \<open>\<open>maps tr s va pa n\<close>: the \<open>n\<close> bytes from \<open>va\<close> are the ones from \<open>pa\<close> under the page table \<open>s\<close>.\<close>

definition maps :: "xlate \<Rightarrow> u64 \<Rightarrow> addr \<Rightarrow> addr \<Rightarrow> nat \<Rightarrow> bool" where
  "maps tr satp va pa n \<longleftrightarrow> (\<forall>k < n. tr satp (va + of_nat k) = pa + of_nat k)"

lemma mapsD: "maps tr satp va pa n \<Longrightarrow> k < n \<Longrightarrow> tr satp (va + of_nat k) = pa + of_nat k"
  by (simp add: maps_def)

lemma read64_apart:
  assumes "8 \<le> unat (b - a)" "8 \<le> unat (a - b)"
  shows "read64 (write64 m a v) b = read64 m b"
proof (rule read64_cong)
  fix k :: nat assume k: "k < 8"
  have "unat (b - a) \<le> 2 ^ 64 - 8"
    using assms(2) unat_sub_if' [of a b] unat_sub_if' [of b a] unsigned_less [of a] unsigned_less [of b]
    by (auto simp: word_le_nat_alt split: if_splits)
  moreover have "b + of_nat k - a = (b - a) + of_nat k" by simp
  moreover have "unat (of_nat k :: u64) = k" using k by (intro unat_of_nat_small) simp
  ultimately have "unat (b + of_nat k - a) = unat (b - a) + k" using k by (simp only: unat_word_ariths) simp
  then show "write64 m a v (b + of_nat k) = m (b + of_nat k)" using assms(1) by (intro write64_other) simp
qed

lemma unat_offset_diff:
  fixes a :: u64
  assumes "i < 2 ^ 63" "j < 2 ^ 63" "j \<noteq> i" "8 dvd i" "8 dvd j"
  shows "8 \<le> unat ((a + of_nat j) - (a + of_nat i))"
proof (cases "i < j")
  case True
  then have "(a + of_nat j) - (a + of_nat i) = of_nat (j - i)" by (simp add: of_nat_diff)
  moreover have "8 \<le> j - i" using True assms(4,5) by (metis dvd_diff_nat dvd_imp_le zero_less_diff)
  moreover have "unat (of_nat (j - i) :: u64) = j - i" using assms(2) by (intro unat_of_nat_small) simp
  ultimately show ?thesis by simp
next
  case False
  then have lt: "j < i" using assms(3) by simp
  then have "(a + of_nat j) - (a + of_nat i) = - of_nat (i - j)" by (simp add: of_nat_diff)
  then have "(a + of_nat j) - (a + of_nat i) = of_nat (2 ^ 64 - (i - j))" using assms(1) lt by (simp add: of_nat_diff)
  moreover have "unat (of_nat (2 ^ 64 - (i - j)) :: u64) = 2 ^ 64 - (i - j)" using lt assms(1) by (intro unat_of_nat_small) simp
  ultimately show ?thesis using assms(1) by simp
qed

lemma saves_run:
  assumes "\<forall>off \<in> snd ` set L. 8 dvd off \<and> off < n" "maps tr (csrs h Satp) (gpr h b) pa n" "n < 2 ^ 63" "distinct (map snd L)"
  shows "\<exists>m. run_code tr (saves L b) h = h\<lparr>hmem := m\<rparr> \<and> (\<forall>(r, off) \<in> set L. read64 m (pa + of_nat off) = gpr h r) \<and>
    (\<forall>a. (\<forall>(r, off) \<in> set L. 8 \<le> unat (a - (pa + of_nat off)) \<and> 8 \<le> unat (pa + of_nat off - a)) \<longrightarrow> read64 m a = read64 (hmem h) a)"
  using assms
proof (induction L rule: rev_induct)
  case Nil
  then show ?case by (intro exI [of _ "hmem h"]) simp
next
  case (snoc x L)
  obtain r off where x: "x = (r, off)" by (cases x)
  have IH: "\<exists>m. run_code tr (saves L b) h = h\<lparr>hmem := m\<rparr> \<and> (\<forall>(r, off) \<in> set L. read64 m (pa + of_nat off) = gpr h r) \<and>
    (\<forall>a. (\<forall>(r, off) \<in> set L. 8 \<le> unat (a - (pa + of_nat off)) \<and> 8 \<le> unat (pa + of_nat off - a)) \<longrightarrow> read64 m a = read64 (hmem h) a)"
    by (rule snoc.IH) (use snoc.prems in auto)
  then obtain m where m: "run_code tr (saves L b) h = h\<lparr>hmem := m\<rparr>" "\<And>r off. (r, off) \<in> set L \<Longrightarrow> read64 m (pa + of_nat off) = gpr h r"
    "\<And>a. (\<forall>(r, off) \<in> set L. 8 \<le> unat (a - (pa + of_nat off)) \<and> 8 \<le> unat (pa + of_nat off - a)) \<Longrightarrow> read64 m a = read64 (hmem h) a" by blast
  let ?m = "write64 m (pa + of_nat off) (gpr h r)"
  have off: "8 dvd off" "off < n" using snoc.prems(1) x by auto
  have "run_code tr (saves (L @ [x]) b) h = h\<lparr>hmem := ?m\<rparr>" using m(1) mapsD [OF snoc.prems(2) off(2)] x by simp
  moreover have "read64 ?m (pa + of_nat off') = gpr h r'" if "(r', off') \<in> set (L @ [x])" for r' off'
  proof (cases "(r', off') = x")
    case False
    then have in_L: "(r', off') \<in> set L" using that by auto
    then have "off' \<noteq> off" using snoc.prems(4) x by (auto simp: image_iff)
    moreover have "8 dvd off'" "off' < n" using in_L snoc.prems(1) by force+
    ultimately have "read64 ?m (pa + of_nat off') = read64 m (pa + of_nat off')"
      using off snoc.prems(3) by (intro read64_apart unat_offset_diff) auto
    then show ?thesis using m(2) [OF in_L] by simp
  qed (use x in simp)
  moreover have "read64 ?m a = read64 (hmem h) a" if "\<forall>(r, off) \<in> set (L @ [x]). 8 \<le> unat (a - (pa + of_nat off)) \<and> 8 \<le> unat (pa + of_nat off - a)" for a
  proof -
    have "read64 ?m a = read64 m a" using that x by (intro read64_apart) auto
    then show ?thesis using m(3) that by auto
  qed
  ultimately show ?case by blast
qed

lemma saves_obtain:
  assumes "\<forall>off \<in> snd ` set L. 8 dvd off \<and> off < n" "maps tr (csrs h Satp) (gpr h b) pa n" "n < 2 ^ 63" "distinct (map snd L)"
  obtains m where "run_code tr (saves L b) h = h\<lparr>hmem := m\<rparr>" "\<And>r off. (r, off) \<in> set L \<Longrightarrow> read64 m (pa + of_nat off) = gpr h r"
    "\<And>a. (\<And>off. off \<in> snd ` set L \<Longrightarrow> 8 \<le> unat (a - (pa + of_nat off)) \<and> 8 \<le> unat (pa + of_nat off - a)) \<Longrightarrow> read64 m a = read64 (hmem h) a"
proof -
  obtain m where m: "run_code tr (saves L b) h = h\<lparr>hmem := m\<rparr>" "\<forall>(r, off) \<in> set L. read64 m (pa + of_nat off) = gpr h r"
    "\<forall>a. (\<forall>(r, off) \<in> set L. 8 \<le> unat (a - (pa + of_nat off)) \<and> 8 \<le> unat (pa + of_nat off - a)) \<longrightarrow> read64 m a = read64 (hmem h) a"
    using saves_run [OF assms] by blast
  show thesis
  proof (rule that [OF m(1)])
    fix a assume a: "\<And>off. off \<in> snd ` set L \<Longrightarrow> 8 \<le> unat (a - (pa + of_nat off)) \<and> 8 \<le> unat (pa + of_nat off - a)"
    have "8 \<le> unat (a - (pa + of_nat off)) \<and> 8 \<le> unat (pa + of_nat off - a)" if "(r, off) \<in> set L" for r off
      by (rule a) (use that in force)
    then show "read64 m a = read64 (hmem h) a" using m(3) by blast
  qed (use m(2) in blast)
qed

lemma loads_run:
  assumes "b \<notin> fst ` set L" "\<forall>off \<in> snd ` set L. off < n" "maps tr (csrs h Satp) (gpr h b) pa n" "distinct (map fst L)"
  shows "run_code tr (loads L b) h =
    h\<lparr>gpr := (\<lambda>r. case map_of L r of Some off \<Rightarrow> read64 (hmem h) (pa + of_nat off) | None \<Rightarrow> gpr h r)\<rparr>"
  using assms
proof (induction L arbitrary: h)
  case Nil
  then show ?case by simp
next
  case (Cons x L)
  obtain r off where x: "x = (r, off)" by (cases x)
  let ?h = "h\<lparr>gpr := (gpr h)(r := read64 (hmem h) (pa + of_nat off))\<rparr>"
  have "off < n" "b \<noteq> r" using Cons.prems x by auto
  then have "run_code tr (loads (x # L) b) h = run_code tr (loads L b) ?h" using mapsD [OF Cons.prems(3)] x by simp
  also have "\<dots> = ?h\<lparr>gpr := (\<lambda>r'. case map_of L r' of Some off \<Rightarrow> read64 (hmem ?h) (pa + of_nat off) | None \<Rightarrow> gpr ?h r')\<rparr>"
    by (rule Cons.IH) (use Cons.prems x \<open>b \<noteq> r\<close> in auto)
  also have "\<dots> = h\<lparr>gpr := (\<lambda>r'. case map_of (x # L) r' of Some off \<Rightarrow> read64 (hmem h) (pa + of_nat off) | None \<Rightarrow> gpr h r')\<rparr>"
  proof -
    have "map_of L r = None" using Cons.prems(4) x by (simp add: map_of_eq_None_iff)
    then show ?thesis using x by (auto simp: fun_eq_iff split: option.split intro!: arg_cong [of _ _ "\<lambda>g. h\<lparr>gpr := g\<rparr>"])
  qed
  finally show ?case .
qed

subsection \<open>The trampoline\<close>

definition tf_list :: "(reg \<times> nat) list" where
  "tf_list = [(Ra, 40), (Sp, 48), (Gp, 56), (Tp, 64), (T0, 72), (T1, 80), (T2, 88), (S0, 96), (S1, 104), (A1, 120), (A2, 128),
     (A3, 136), (A4, 144), (A5, 152), (A6, 160), (A7, 168), (S2, 176), (S3, 184), (S4, 192), (S5, 200), (S6, 208),
     (S7, 216), (S8, 224), (S9, 232), (S10, 240), (S11, 248), (T3, 256), (T4, 264), (T5, 272), (T6, 280)]"

lemma uservec_split: "uservec ua = [Csrw Sscratch A0, Li A0 TRAPFRAME] @ saves tf_list A0 @
    [Csrr T0 Sscratch, Sd T0 112 A0, Ld Sp 8 A0, Ld Tp 32 A0, Ld T0 16 A0, Ld T1 0 A0, Sfence, Csrw Satp T1, Sfence, Jalr T0 ua]"
  by (simp add: uservec_def tf_list_def)

lemma userret_split: "userret = [Sfence, Csrw Satp A0, Sfence, Li A0 TRAPFRAME] @ loads tf_list A0 @ [Ld A0 112 A0, Sret]"
  by (simp add: userret_def tf_list_def)

lemma tf_list_props:
  "distinct (map snd tf_list)" "distinct (map fst tf_list)" "A0 \<notin> fst ` set tf_list"
  "\<forall>off \<in> snd ` set tf_list. 8 dvd off \<and> 40 \<le> off \<and> off < 4096 \<and> off \<noteq> 112"
  by (simp_all add: tf_list_def)

lemma tf_list_slot: "r \<noteq> A0 \<Longrightarrow> (r, tf_slot r) \<in> set tf_list" "8 dvd tf_slot r \<and> 40 \<le> tf_slot r \<and> tf_slot r < 4096"
  by (cases r; simp add: tf_list_def)+

lemma tf_list_map: "map_of tf_list r = (if r = A0 then None else Some (tf_slot r))"
  using tf_list_props(2,3) tf_list_slot(1) [of r] by (auto simp: map_of_eq_None_iff intro: map_of_is_SomeI)

lemma uservec_run:
  assumes "maps tr (csrs h Satp) TRAPFRAME tf 4096"
  obtains m where "run_code tr (uservec ua) h = h\<lparr>hmem := m, gpr := (gpr h)(A0 := TRAPFRAME, Sp := read64 m (tf + 8), Tp := read64 m (tf + 32),
      T0 := read64 m (tf + 16), T1 := read64 m tf, Ra := ua), csrs := (csrs h)(Sscratch := gpr h A0, Satp := read64 m tf), hpc := read64 m (tf + 16)\<rparr>"
    "\<And>r. read64 m (tf + of_nat (tf_slot r)) = gpr h r" "\<And>k. k < 5 \<Longrightarrow> read64 m (tf + of_nat (8 * k)) = read64 (hmem h) (tf + of_nat (8 * k))"
proof -
  let ?h = "h\<lparr>csrs := (csrs h)(Sscratch := gpr h A0), gpr := (gpr h)(A0 := TRAPFRAME)\<rparr>"
  have mp: "maps tr (csrs ?h Satp) (gpr ?h A0) tf 4096" using assms by simp
  obtain m where m: "run_code tr (saves tf_list A0) ?h = ?h\<lparr>hmem := m\<rparr>"
    "\<And>r off. (r, off) \<in> set tf_list \<Longrightarrow> read64 m (tf + of_nat off) = gpr ?h r"
    "\<And>a. (\<And>off. off \<in> snd ` set tf_list \<Longrightarrow> 8 \<le> unat (a - (tf + of_nat off)) \<and> 8 \<le> unat (tf + of_nat off - a)) \<Longrightarrow> read64 m a = read64 (hmem ?h) a"
    by (rule saves_obtain [OF _ mp _ tf_list_props(1)]) (use tf_list_props(4) in auto)
  let ?m = "write64 m (tf + of_nat 112) (gpr h A0)"
  have tr: "tr (csrs h Satp) (TRAPFRAME + 112) = tf + 112" "tr (csrs h Satp) (TRAPFRAME + 8) = tf + 8" "tr (csrs h Satp) (TRAPFRAME + 32) = tf + 32"
    "tr (csrs h Satp) (TRAPFRAME + 16) = tf + 16" "tr (csrs h Satp) TRAPFRAME = tf"
    using mapsD [OF assms, of 112] mapsD [OF assms, of 8] mapsD [OF assms, of 32] mapsD [OF assms, of 16] mapsD [OF assms, of 0] by simp_all
  have apart: "read64 ?m (tf + of_nat off) = read64 m (tf + of_nat off)" if "off \<noteq> 112" "8 dvd off" "off < 4096" for off
    using that by (intro read64_apart unat_offset_diff) auto
  have "run_code tr (uservec ua) h = h\<lparr>hmem := ?m, gpr := (gpr h)(A0 := TRAPFRAME, Sp := read64 ?m (tf + 8), Tp := read64 ?m (tf + 32),
      T0 := read64 ?m (tf + 16), T1 := read64 ?m tf, Ra := ua), csrs := (csrs h)(Sscratch := gpr h A0, Satp := read64 ?m tf), hpc := read64 ?m (tf + 16)\<rparr>"
    by (cases h) (use m(1) tr in \<open>simp add: uservec_split fun_upd_twist\<close>)
  moreover have "read64 ?m (tf + of_nat (tf_slot r)) = gpr h r" for r
  proof (cases "r = A0")
    case False
    then have r: "(r, tf_slot r) \<in> set tf_list" by (rule tf_list_slot)
    have "tf_slot r \<noteq> 112" using False by (cases r) auto
    then have "read64 ?m (tf + of_nat (tf_slot r)) = read64 m (tf + of_nat (tf_slot r))" using tf_list_slot(2) [of r] by (intro apart) auto
    then show ?thesis using m(2) [OF r] False by simp
  qed (simp del: of_nat_numeral)
  moreover have "read64 ?m (tf + of_nat (8 * k)) = read64 (hmem h) (tf + of_nat (8 * k))" if "k < 5" for k
  proof -
    have "8 \<le> unat (tf + of_nat (8 * k) - (tf + of_nat off)) \<and> 8 \<le> unat (tf + of_nat off - (tf + of_nat (8 * k)))" if "off \<in> snd ` set tf_list" for off
      using bspec [OF tf_list_props(4) that] \<open>k < 5\<close> by (intro conjI unat_offset_diff) auto
    then have "read64 m (tf + of_nat (8 * k)) = read64 (hmem ?h) (tf + of_nat (8 * k))" by (rule m(3))
    moreover have "read64 ?m (tf + of_nat (8 * k)) = read64 m (tf + of_nat (8 * k))" using that by (intro apart) auto
    ultimately show ?thesis by simp
  qed
  ultimately show thesis using that by blast
qed

lemma userret_run:
  assumes "maps tr (gpr h A0) TRAPFRAME tf 4096"
  shows "run_code tr userret h = h\<lparr>gpr := (\<lambda>r. read64 (hmem h) (tf + of_nat (tf_slot r))), csrs := (csrs h)(Satp := gpr h A0), hpc := csrs h Sepc\<rparr>"
proof -
  let ?h = "h\<lparr>csrs := (csrs h)(Satp := gpr h A0), gpr := (gpr h)(A0 := TRAPFRAME)\<rparr>"
  have mp: "maps tr (csrs ?h Satp) (gpr ?h A0) tf 4096" using assms by simp
  have L: "\<forall>off \<in> snd ` set tf_list. off < 4096" using tf_list_props(4) by blast
  note run = loads_run [OF tf_list_props(3) L mp tf_list_props(2)]
  have "tr (gpr h A0) (TRAPFRAME + 112) = tf + 112" using mapsD [OF assms, of 112] by simp
  then show ?thesis by (cases h) (use run in \<open>auto simp: userret_split tf_list_map fun_eq_iff\<close>)
qed

subsection \<open>The context switch\<close>

definition ctx_list :: "(reg \<times> nat) list" where
  "ctx_list = [(Ra, 0), (Sp, 8), (S0, 16), (S1, 24), (S2, 32), (S3, 40), (S4, 48), (S5, 56), (S6, 64), (S7, 72), (S8, 80),
     (S9, 88), (S10, 96), (S11, 104)]"

lemma swtch_split: "swtch = saves ctx_list A0 @ loads ctx_list A1 @ [Ret]"
  by (simp add: swtch_def ctx_list_def)

lemma ctx_list_props:
  "distinct (map snd ctx_list)" "distinct (map fst ctx_list)" "A1 \<notin> fst ` set ctx_list" "\<forall>off \<in> snd ` set ctx_list. 8 dvd off \<and> off < 112"
  "\<forall>off \<in> snd ` set ctx_list. off < 112"
  by (simp_all add: ctx_list_def ctx_regs_def)

lemma ctx_list_slot: "r \<in> set ctx_regs \<Longrightarrow> (r, ctx_slot r) \<in> set ctx_list"
  by (cases r; simp add: ctx_list_def ctx_regs_def)

lemma ctx_list_map: "map_of ctx_list r = (if r \<in> set ctx_regs then Some (ctx_slot r) else None)"
  by (cases r; simp add: ctx_list_def ctx_regs_def)

text \<open>Two areas of 112 bytes that do not overlap.\<close>

definition apart_ctx :: "addr \<Rightarrow> addr \<Rightarrow> bool" where
  "apart_ctx p q \<longleftrightarrow> 112 \<le> unat (p - q) \<and> 112 \<le> unat (q - p)"

lemma apart_ctx_offsets:
  assumes "apart_ctx p q" "i < 112" "j < 112" "8 dvd i" "8 dvd j"
  shows "8 \<le> unat ((q + of_nat j) - (p + of_nat i))"
proof -
  let ?d = "unat (q - p)"
  have i: "i \<le> 104" "j \<le> 104" using assms(2-5) by presburger+
  have "?d \<le> 2 ^ 64 - 112" using assms(1) unat_sub_if' [of q p] unat_sub_if' [of p q] unsigned_less [of p] unsigned_less [of q]
    by (auto simp: apart_ctx_def word_le_nat_alt split: if_splits)
  moreover have ge: "112 \<le> ?d" using assms(1) by (simp add: apart_ctx_def)
  ultimately have lt: "?d + j - i < 2 ^ 64" and d2: "8 \<le> ?d + j - i" using i by simp_all
  have d: "unat (of_nat (?d + j - i) :: u64) = ?d + j - i" by (rule unat_of_nat_small) (use lt in simp)
  have e: "(q + of_nat j) - (p + of_nat i) = of_nat (?d + j - i)"
    using i ge by (simp add: of_nat_diff algebra_simps)
  show ?thesis unfolding e d by (rule d2)
qed

lemma apart_ctx_sym: "apart_ctx p q \<longleftrightarrow> apart_ctx q p"
  by (auto simp: apart_ctx_def)

lemma swtch_run:
  assumes old: "maps tr (csrs h Satp) (gpr h A0) po 112" and new: "maps tr (csrs h Satp) (gpr h A1) pn 112" and apart: "apart_ctx po pn"
  obtains m where "run_code tr swtch h = h\<lparr>hmem := m, hpc := read64 (hmem h) pn,
      gpr := (\<lambda>r. if r \<in> set ctx_regs then read64 (hmem h) (pn + of_nat (ctx_slot r)) else gpr h r)\<rparr>"
    "\<And>r. r \<in> set ctx_regs \<Longrightarrow> read64 m (po + of_nat (ctx_slot r)) = gpr h r"
proof -
  obtain m where m: "run_code tr (saves ctx_list A0) h = h\<lparr>hmem := m\<rparr>" "\<And>r off. (r, off) \<in> set ctx_list \<Longrightarrow> read64 m (po + of_nat off) = gpr h r"
    "\<And>a. (\<And>off. off \<in> snd ` set ctx_list \<Longrightarrow> 8 \<le> unat (a - (po + of_nat off)) \<and> 8 \<le> unat (po + of_nat off - a)) \<Longrightarrow> read64 m a = read64 (hmem h) a"
    by (rule saves_obtain [OF ctx_list_props(4) old _ ctx_list_props(1)]) simp_all
  have keep: "read64 m (pn + of_nat j) = read64 (hmem h) (pn + of_nat j)" if j: "j < 112" "8 dvd j" for j
  proof (rule m(3))
    fix off assume "off \<in> snd ` set ctx_list"
    then have off: "8 dvd off" "off < 112" using ctx_list_props(4) by auto
    show "8 \<le> unat (pn + of_nat j - (po + of_nat off)) \<and> 8 \<le> unat (po + of_nat off - (pn + of_nat j))"
      using apart_ctx_offsets [OF apart off(2) j(1) off(1) j(2)] apart_ctx_offsets [OF apart [THEN apart_ctx_sym [THEN iffD1]] j(1) off(2) j(2) off(1)] by blast
  qed
  have mp: "maps tr (csrs (h\<lparr>hmem := m\<rparr>) Satp) (gpr (h\<lparr>hmem := m\<rparr>) A1) pn 112" using new by simp
  have slot: "ctx_slot r < 112" "8 dvd ctx_slot r" if "r \<in> set ctx_regs" for r using ctx_list_slot [OF that] ctx_list_props(4) by force+
  have "run_code tr swtch h = h\<lparr>hmem := m, hpc := read64 (hmem h) pn,
      gpr := (\<lambda>r. if r \<in> set ctx_regs then read64 (hmem h) (pn + of_nat (ctx_slot r)) else gpr h r)\<rparr>"
  proof -
    have g: "(\<lambda>r. case map_of ctx_list r of Some off \<Rightarrow> read64 (hmem (h\<lparr>hmem := m\<rparr>)) (pn + of_nat off) | None \<Rightarrow> gpr (h\<lparr>hmem := m\<rparr>) r) =
        (\<lambda>r. if r \<in> set ctx_regs then read64 (hmem h) (pn + of_nat (ctx_slot r)) else gpr h r)"
      using keep slot by (auto simp: ctx_list_map fun_eq_iff)
    have ld: "run_code tr (loads ctx_list A1) (h\<lparr>hmem := m\<rparr>) =
        h\<lparr>hmem := m, gpr := (\<lambda>r. if r \<in> set ctx_regs then read64 (hmem h) (pn + of_nat (ctx_slot r)) else gpr h r)\<rparr>"
      using loads_run [OF ctx_list_props(3,5) mp ctx_list_props(2)] g by simp
    have "Ra \<in> set ctx_regs" by (simp add: ctx_regs_def)
    then show ?thesis using m(1) ld by (simp add: swtch_split)
  qed
  then show thesis using m(2) ctx_list_slot that by blast
qed

subsection \<open>Traps from the kernel\<close>

definition kv_list :: "(reg \<times> nat) list" where
  "kv_list = [(Ra, 0), (Gp, 16), (Tp, 24), (T0, 32), (T1, 40), (T2, 48), (A0, 72), (A1, 80), (A2, 88), (A3, 96), (A4, 104),
     (A5, 112), (A6, 120), (A7, 128), (T3, 216), (T4, 224), (T5, 232), (T6, 240)]"

definition callee_saved :: "reg list" where
  "callee_saved = [Sp, S0, S1, S2, S3, S4, S5, S6, S7, S8, S9, S10, S11]"

lemma kernelvec_save_split: "kernelvec_save = [Addi Sp Sp (- 256)] @ saves kv_list Sp"
  by (simp add: kernelvec_save_def kv_list_def)

lemma kernelvec_restore_split: "kernelvec_restore = loads (filter (\<lambda>x. fst x \<noteq> Tp) kv_list) Sp @ [Addi Sp Sp 256, Sret]"
  by (simp add: kernelvec_restore_def kv_list_def)

lemma kv_list_props:
  "distinct (map snd kv_list)" "distinct (map fst (filter (\<lambda>x. fst x \<noteq> Tp) kv_list))" "Sp \<notin> fst ` set (filter (\<lambda>x. fst x \<noteq> Tp) kv_list)"
  "\<forall>off \<in> snd ` set kv_list. 8 dvd off \<and> off < 256" "\<forall>off \<in> snd ` set (filter (\<lambda>x. fst x \<noteq> Tp) kv_list). off < 256"
  by (simp_all add: kv_list_def)

lemma kv_list_cases: "(\<exists>off. (r, off) \<in> set kv_list \<and> r \<noteq> Tp \<and> map_of (filter (\<lambda>x. fst x \<noteq> Tp) kv_list) r = Some off) \<or>
    r \<in> set callee_saved \<and> map_of (filter (\<lambda>x. fst x \<noteq> Tp) kv_list) r = None \<or> r = Tp \<and> map_of (filter (\<lambda>x. fst x \<noteq> Tp) kv_list) r = None"
  by (cases r; simp add: kv_list_def callee_saved_def)

subsection \<open>Properties\<close>

text \<open>
  C8: a trap from user space is transparent to the registers.  \<^verbatim>\<open>uservec\<close> stores all 31 of them at the offsets of \<^verbatim>\<open>struct
  trapframe\<close>, leaves the kernel's fields and the saved program counter there alone, and enters \<^verbatim>\<open>kernel_trap\<close> with the
  kernel's stack, hart id and page table.  When \<^verbatim>\<open>usertrap\<close> returns the user page table, \<^verbatim>\<open>userret\<close> installs it, gives every
  register the value of its field, and continues at \<^verbatim>\<open>sepc\<close>; so a register whose field the kernel did not change
  has the value it had at the trap.
\<close>

theorem user_trap_roundtrip:
  assumes tf: "maps tr (csrs h Satp) TRAPFRAME tf 4096"
    and h1: "h1 = run_code tr (uservec userret_addr) h"
    and user: "gpr (usertrap h1) A0 = csrs h Satp"
    and h3: "h3 = run_code tr userret (usertrap h1)"
  shows "(\<forall>r. read64 (hmem h1) (tf + of_nat (tf_slot r)) = gpr h r) \<and>
    (\<forall>k < 5. read64 (hmem h1) (tf + of_nat (8 * k)) = read64 (hmem h) (tf + of_nat (8 * k))) \<and>
    csrs h1 Satp = read64 (hmem h) tf \<and> gpr h1 Sp = read64 (hmem h) (tf + 8) \<and> hpc h1 = read64 (hmem h) (tf + 16) \<and>
    gpr h1 Tp = read64 (hmem h) (tf + 32) \<and> gpr h1 Ra = userret_addr \<and>
    (\<forall>r. gpr h3 r = read64 (hmem (usertrap h1)) (tf + of_nat (tf_slot r))) \<and>
    (\<forall>r. read64 (hmem (usertrap h1)) (tf + of_nat (tf_slot r)) = read64 (hmem h1) (tf + of_nat (tf_slot r)) \<longrightarrow> gpr h3 r = gpr h r) \<and>
    csrs h3 Satp = csrs h Satp \<and> hpc h3 = csrs (usertrap h1) Sepc"
proof -
  obtain m where m: "h1 = h\<lparr>hmem := m, gpr := (gpr h)(A0 := TRAPFRAME, Sp := read64 m (tf + 8), Tp := read64 m (tf + 32),
      T0 := read64 m (tf + 16), T1 := read64 m tf, Ra := userret_addr), csrs := (csrs h)(Sscratch := gpr h A0, Satp := read64 m tf), hpc := read64 m (tf + 16)\<rparr>"
    "\<And>r. read64 m (tf + of_nat (tf_slot r)) = gpr h r" "\<And>k. k < 5 \<Longrightarrow> read64 m (tf + of_nat (8 * k)) = read64 (hmem h) (tf + of_nat (8 * k))"
    using uservec_run [OF tf] h1 by metis
  have k: "read64 m tf = read64 (hmem h) tf" "read64 m (tf + 8) = read64 (hmem h) (tf + 8)" "read64 m (tf + 16) = read64 (hmem h) (tf + 16)"
    "read64 m (tf + 32) = read64 (hmem h) (tf + 32)"
    using m(3) [of 0] m(3) [of 1] m(3) [of 2] m(3) [of 4] by simp_all
  have "maps tr (gpr (usertrap h1) A0) TRAPFRAME tf 4096" using tf user by simp
  note r = userret_run [OF this, folded h3]
  have "(\<forall>r. read64 (hmem h1) (tf + of_nat (tf_slot r)) = gpr h r)" "hmem h1 = m" using m(1,2) by simp_all
  then show ?thesis using m(1,3) k r user by simp
qed

definition trap_hart :: hart where
  "trap_hart = \<lparr>gpr = (\<lambda>_. 7), csrs = (\<lambda>_. 0), hmem = (\<lambda>_. 0), hpc = 0\<rparr>"

theorem user_trap_roundtrip_witness:
  "\<forall>r. gpr (run_code (\<lambda>_ a. a) userret ((\<lambda>h. h\<lparr>gpr := (gpr h)(A0 := 0)\<rparr>) (run_code (\<lambda>_ a. a) (uservec 0) trap_hart))) r = 7"
proof -
  let ?ut = "\<lambda>h :: hart. h\<lparr>gpr := (gpr h)(A0 := 0)\<rparr>"
  have tf: "maps (\<lambda>_ a. a) (csrs trap_hart Satp) TRAPFRAME TRAPFRAME 4096" by (simp add: maps_def)
  have "gpr (?ut (run_code (\<lambda>_ a. a) (uservec 0) trap_hart)) A0 = csrs trap_hart Satp" by (simp add: trap_hart_def)
  from user_trap_roundtrip [of _ _ _ _ 0 ?ut, OF tf refl this refl] show ?thesis by (simp add: trap_hart_def)
qed

text \<open>
  C20: \<^verbatim>\<open>swtch\<close> suspends one thread and resumes another.  It saves the callee-saved registers, the stack pointer and the
  return address in the old context, at the offsets of \<^verbatim>\<open>struct context\<close>, and continues at the return address of the new
  one with its registers.  When a later \<^verbatim>\<open>swtch\<close>, on any hart with the same mapping, switches to the context that was saved, unchanged since
  then, the first thread goes on after its call with the registers it had.
\<close>

theorem swtch_resumes:
  assumes old: "maps tr (csrs h Satp) (gpr h A0) po 112" and new: "maps tr (csrs h Satp) (gpr h A1) pn 112" and apart: "apart_ctx po pn"
    and h1: "h1 = run_code tr swtch h"
    and rtn: "maps tr (csrs h2 Satp) (gpr h2 A1) po 112" "maps tr (csrs h2 Satp) (gpr h2 A0) pc 112" "apart_ctx pc po"
    and kept: "\<forall>r \<in> set ctx_regs. read64 (hmem h2) (po + of_nat (ctx_slot r)) = read64 (hmem h1) (po + of_nat (ctx_slot r))"
    and h3: "h3 = run_code tr swtch h2"
  shows "(\<forall>r \<in> set ctx_regs. gpr h1 r = read64 (hmem h) (pn + of_nat (ctx_slot r))) \<and> hpc h1 = read64 (hmem h) pn \<and>
    (\<forall>r \<in> set ctx_regs. gpr h3 r = gpr h r) \<and> hpc h3 = gpr h Ra"
proof -
  obtain m where m: "run_code tr swtch h = h\<lparr>hmem := m, hpc := read64 (hmem h) pn,
      gpr := (\<lambda>r. if r \<in> set ctx_regs then read64 (hmem h) (pn + of_nat (ctx_slot r)) else gpr h r)\<rparr>"
    "\<And>r. r \<in> set ctx_regs \<Longrightarrow> read64 m (po + of_nat (ctx_slot r)) = gpr h r"
    using swtch_run [OF old new apart] by blast
  obtain m' where m': "run_code tr swtch h2 = h2\<lparr>hmem := m', hpc := read64 (hmem h2) po,
      gpr := (\<lambda>r. if r \<in> set ctx_regs then read64 (hmem h2) (po + of_nat (ctx_slot r)) else gpr h2 r)\<rparr>"
    using swtch_run [OF rtn(2,1,3)] by blast
  have "Ra \<in> set ctx_regs" "ctx_slot Ra = 0" by (simp_all add: ctx_regs_def)
  then show ?thesis using m(2) m(2) [of Ra] bspec [OF kept] bspec [OF kept, of Ra] unfolding h3 m' unfolding h1 m(1) by simp
qed

definition swtch_hart :: hart where
  "swtch_hart = \<lparr>gpr = (\<lambda>r. if r = A0 then 0x1000 else if r = A1 then 0x2000 else 9), csrs = (\<lambda>_. 0), hmem = (\<lambda>_. 0), hpc = 0\<rparr>"

theorem swtch_resumes_witness:
  "let h1 = run_code (\<lambda>_ a. a) swtch swtch_hart; h3 = run_code (\<lambda>_ a. a) swtch (h1\<lparr>gpr := (gpr h1)(A0 := 0x3000, A1 := 0x1000)\<rparr>)
   in hpc h1 = read64 (\<lambda>_. 0) 0x2000 \<and> hpc h3 = 9 \<and> gpr h3 S5 = 9"
proof -
  let ?h1 = "run_code (\<lambda>_ a. a) swtch swtch_hart"
  let ?h2 = "?h1\<lparr>gpr := (gpr ?h1)(A0 := 0x3000, A1 := 0x1000)\<rparr>"
  have mp: "maps (\<lambda>_ a. a) s p p 112" for s p by (simp add: maps_def)
  have ap: "apart_ctx 0x1000 0x2000" "apart_ctx 0x3000 0x1000" by (simp_all add: apart_ctx_def)
  have A: "gpr swtch_hart A0 = 0x1000" "gpr swtch_hart A1 = 0x2000" "gpr ?h2 A0 = 0x3000" "gpr ?h2 A1 = 0x1000" by (simp_all add: swtch_hart_def)
  have ra: "S5 \<in> set ctx_regs" by (simp add: ctx_regs_def)
  from swtch_resumes [of "\<lambda>_ a. a" swtch_hart "0x1000" "0x2000" ?h1 ?h2 "0x3000", unfolded A, OF mp mp ap(1) refl mp mp ap(2) _ refl]
  have "hpc ?h1 = read64 (hmem swtch_hart) 0x2000 \<and> hpc (run_code (\<lambda>_ a. a) swtch ?h2) = gpr swtch_hart Ra \<and>
      gpr (run_code (\<lambda>_ a. a) swtch ?h2) S5 = gpr swtch_hart S5" using ra by auto
  then show ?thesis by (simp add: swtch_hart_def Let_def)
qed

text \<open>
  C28: an interrupt or exception in the kernel is transparent to the registers.  When \<^verbatim>\<open>kerneltrap\<close> keeps to the calling
  convention (it preserves the callee-saved registers, the page table and the caller's stack frame), \<^verbatim>\<open>kernelvec\<close> continues at \<^verbatim>\<open>sepc\<close>
  with every register as it was, but for \<^verbatim>\<open>tp\<close>, which holds the id of the hart that the thread may have moved to.
\<close>

theorem kernelvec_transparent:
  assumes frame: "maps tr (csrs h Satp) (gpr h Sp - 256) pa 256"
    and h1: "h1 = run_code tr kernelvec_save h"
    and conv: "\<forall>r \<in> set callee_saved. gpr (kerneltrap h1) r = gpr h1 r" "csrs (kerneltrap h1) Satp = csrs h1 Satp"
      "\<forall>k < 32. read64 (hmem (kerneltrap h1)) (pa + of_nat (8 * k)) = read64 (hmem h1) (pa + of_nat (8 * k))"
  shows "(\<forall>r. r \<noteq> Tp \<longrightarrow> gpr (kernelvec tr kerneltrap h) r = gpr h r) \<and> gpr (kernelvec tr kerneltrap h) Tp = gpr (kerneltrap h1) Tp \<and>
    hpc (kernelvec tr kerneltrap h) = csrs (kerneltrap h1) Sepc"
proof -
  let ?h = "h\<lparr>gpr := (gpr h)(Sp := gpr h Sp - 256)\<rparr>" and ?L = "filter (\<lambda>x. fst x \<noteq> Tp) kv_list" and ?k = "kerneltrap h1"
  have mp: "maps tr (csrs ?h Satp) (gpr ?h Sp) pa 256" using frame by simp
  have lt: "256 < (2 ^ 63 :: nat)" by simp
  obtain m where m: "run_code tr (saves kv_list Sp) ?h = ?h\<lparr>hmem := m\<rparr>" "\<forall>(r, off) \<in> set kv_list. read64 m (pa + of_nat off) = gpr ?h r"
    using saves_run [OF kv_list_props(4) mp lt kv_list_props(1)] by blast
  have h1': "h1 = ?h\<lparr>hmem := m\<rparr>" using m(1) unfolding h1 by (simp add: kernelvec_save_split)
  have sp: "gpr ?k Sp = gpr h Sp - 256" using conv(1) by (simp add: h1' callee_saved_def)
  have mp2: "maps tr (csrs ?k Satp) (gpr ?k Sp) pa 256" using frame conv(2) sp by (simp add: h1')
  have kept: "read64 (hmem ?k) (pa + of_nat off) = gpr h r" if "(r, off) \<in> set kv_list" "r \<noteq> Sp" for r off
  proof -
    have "8 dvd off" "off < 256" using that(1) kv_list_props(4) by force+
    then obtain k where "off = 8 * k" "k < 32" by (auto elim!: dvdE)
    then show ?thesis using conv(3) bspec [OF m(2) that(1)] that(2) by (simp add: h1')
  qed
  have run: "kernelvec tr kerneltrap h = ?k\<lparr>gpr := (\<lambda>r. case map_of ?L r of Some off \<Rightarrow> read64 (hmem ?k) (pa + of_nat off) | None \<Rightarrow> gpr ?k r)(Sp := gpr h Sp),
      hpc := csrs ?k Sepc\<rparr>"
    using loads_run [OF kv_list_props(3,5) mp2 kv_list_props(2)] sp
    by (simp add: kernelvec_def h1 [symmetric] kernelvec_restore_split kv_list_def)
  have "gpr (kernelvec tr kerneltrap h) r = gpr h r" if "r \<noteq> Tp" for r
  proof (cases "r = Sp")
    case False
    then show ?thesis using kv_list_cases [of r] kept conv(1) that by (auto simp: run h1')
  qed (simp add: run)
  moreover have "map_of ?L Tp = None" using kv_list_cases [of Tp] by (auto simp: callee_saved_def)
  ultimately show ?thesis by (simp add: run)
qed

theorem kernelvec_transparent_witness:
  "let h = kernelvec (\<lambda>_ a. a) (\<lambda>h. h\<lparr>gpr := (gpr h)(A0 := 0, Ra := 0, Tp := 1)\<rparr>) trap_hart
   in gpr h A0 = 7 \<and> gpr h Ra = 7 \<and> gpr h Sp = 7 \<and> gpr h S3 = 7 \<and> gpr h Tp = 1"
proof -
  let ?kt = "\<lambda>h :: hart. h\<lparr>gpr := (gpr h)(A0 := 0, Ra := 0, Tp := 1)\<rparr>"
  have mp: "maps (\<lambda>_ a. a) (csrs trap_hart Satp) (gpr trap_hart Sp - 256) (gpr trap_hart Sp - 256) 256" by (simp add: maps_def)
  from kernelvec_transparent [of _ _ _ _ ?kt, OF mp refl] show ?thesis by (simp add: callee_saved_def trap_hart_def Let_def)
qed

text \<open>Each hart starts on a stack of its own: the tops of the stacks are 4096 bytes apart, from \<^verbatim>\<open>stack0 + 4096\<close> on.\<close>

lemma entry_stack:
  "gpr (run_code tr (entry stack0) h) Sp = stack0 + 4096 * (csrs h Mhartid + 1)"
  by (simp add: entry_def)

end
