(* ===== verification/Shell.thy ===== *)
theory Shell
  imports Ulib Grep
begin

section \<open>The shell (user/sh.c)\<close>

text \<open>
  The parser works on a line of bytes without NUL, as \<^verbatim>\<open>parsecmd\<close> finds it; a pointer into the line is an index, the index
  \<open>length l\<close> is \<^verbatim>\<open>es\<close>, where \<^verbatim>\<open>*es\<close> is the NUL.  A parsed command is a tree over the words that it mentions: pairs of
  pointers (\<^verbatim>\<open>argv[i]\<close>, \<^verbatim>\<open>eargv[i]\<close>) while it is parsed, byte strings when it runs.  A call of the shell's \<^verbatim>\<open>panic\<close> is an error value: what is
  printed before the process exits with status 1.
  The calls of \<^verbatim>\<open>malloc\<close> are taken to succeed; the code does not check them.
\<close>

datatype 'w cmd =
    EXEC "'w list"
  | REDIR "'w cmd" 'w nat nat      \<comment> \<open>\<^verbatim>\<open>cmd, file, mode, fd\<close>\<close>
  | PIPE "'w cmd" "'w cmd"
  | LIST "'w cmd" "'w cmd"
  | BACK "'w cmd"

type_synonym span = "nat \<times> nat"

abbreviation (input) MAXARGS :: nat where "MAXARGS \<equiv> 10"
abbreviation (input) O_RDONLY :: nat where "O_RDONLY \<equiv> 0"
abbreviation (input) O_WRONLY_CREATE_TRUNC :: nat where "O_WRONLY_CREATE_TRUNC \<equiv> 0x601"
abbreviation (input) O_WRONLY_CREATE :: nat where "O_WRONLY_CREATE \<equiv> 0x201"

definition perr :: "string \<Rightarrow> byte list" where
  "perr m = str m @ [10]"

subsection \<open>Tokens\<close>

definition whitespace :: "byte list" where
  "whitespace = [32, 9, 13, 10, 11]"

definition symbols :: "byte list" where
  "symbols = str ''<|>&;()''"

definition white :: "byte \<Rightarrow> bool" where
  "white c = (strchr whitespace c \<noteq> None)"

definition symbol :: "byte \<Rightarrow> bool" where
  "symbol c = (strchr symbols c \<noteq> None)"

text \<open>The loops \<^verbatim>\<open>while(s < es && ...) s++\<close>.\<close>

function skip_while :: "(byte \<Rightarrow> bool) \<Rightarrow> byte list \<Rightarrow> nat \<Rightarrow> nat" where
  "skip_while p l s = (if s < length l \<and> p (l ! s) then skip_while p l (s + 1) else s)"
  by pat_completeness auto
termination
  by (relation "measure (\<lambda>(p, l, s). length l - s)") auto

declare skip_while.simps [simp del]

text \<open>\<^verbatim>\<open>gettoken\<close>: the token, \<^verbatim>\<open>*q\<close>, \<^verbatim>\<open>*eq\<close> and the new \<^verbatim>\<open>*ps\<close>; 97 stands for a word and 43 for \<^verbatim>\<open>>>\<close>.\<close>

definition gettoken :: "byte list \<Rightarrow> nat \<Rightarrow> byte \<times> nat \<times> nat \<times> nat" where
  "gettoken l ps =
     (let q = skip_while white l ps;
          c = char_at l q;
          (ret, eq) =
            (if c = 0 then (0, q)
             else if c = 124 \<or> c = 40 \<or> c = 41 \<or> c = 59 \<or> c = 38 \<or> c = 60 then (c, q + 1)
             else if c = 62 then (if char_at l (q + 1) = 62 then (43, q + 2) else (62, q + 1))
             else (97, skip_while (\<lambda>c. \<not> white c \<and> \<not> symbol c) l q))
      in (ret, q, eq, skip_while white l eq))"

definition peek :: "byte list \<Rightarrow> nat \<Rightarrow> byte list \<Rightarrow> nat \<times> bool" where
  "peek l ps toks =
     (let s = skip_while white l ps in (s, char_at l s \<noteq> 0 \<and> strchr toks (char_at l s) \<noteq> None))"

subsection \<open>Advance\<close>

lemma skip_while_mono: "s \<le> skip_while p l s"
  by (induction p l s rule: skip_while.induct) (subst skip_while.simps, auto)

lemma char_at_end: "char_at l s \<noteq> 0 \<Longrightarrow> s < length l"
  by (auto simp: char_at_def split: if_splits)

lemma gettoken_mono: "gettoken l s = (t, q, eq, s') \<Longrightarrow> s \<le> q \<and> q \<le> eq \<and> eq \<le> s'"
  using skip_while_mono [of s white l] skip_while_mono [of "skip_while white l s" "\<lambda>c. \<not> white c \<and> \<not> symbol c" l] skip_while_mono [of eq white l]
  by (auto simp: gettoken_def Let_def split: if_splits)

lemma peek_mono: "peek l s toks = (s', b) \<Longrightarrow> s \<le> s'"
  using skip_while_mono [of s white l] by (auto simp: peek_def Let_def)

lemma skip_while_stop: "\<not> (skip_while p l s < length l \<and> p (l ! skip_while p l s))"
proof (induction p l s rule: skip_while.induct)
  case (1 p l s)
  then show ?case by (simp add: skip_while.simps [of p l s])
qed

lemma skip_while_fix: "\<not> (s < length l \<and> p (l ! s)) \<Longrightarrow> skip_while p l s = s"
  by (subst skip_while.simps) auto

text \<open>After a \<^verbatim>\<open>peek\<close> that found one of its characters, \<^verbatim>\<open>gettoken\<close> moves on.\<close>

lemma peek_gettoken:
  assumes "peek l s toks = (s1, True)" "set toks \<subseteq> set symbols" "gettoken l s1 = (t, q, eq, s2)"
  shows "s1 < length l \<and> s1 < s2"
proof -
  have s1: "s1 = skip_while white l s" "char_at l s1 \<noteq> 0" "strchr toks (char_at l s1) \<noteq> None" using assms(1) by (auto simp: peek_def Let_def)
  have lt: "s1 < length l" using char_at_end s1(2) by blast
  have q: "skip_while white l s1 = s1" using skip_while_stop [of white l s] s1(1) by (intro skip_while_fix) simp
  have "c \<in> set ts" if "strchr ts c \<noteq> None" for ts c using that by (induction ts) (auto split: if_splits)
  then have "char_at l s1 \<in> set symbols" using s1(3) assms(2) by blast
  then have "char_at l s1 \<in> {60, 124, 62, 38, 59, 40, 41}" by (simp add: symbols_def str_def)
  then have "s1 < eq" using assms(3) by (auto simp: gettoken_def Let_def q split: if_splits)
  then show ?thesis using gettoken_mono [OF assms(3)] lt by simp
qed

lemma redirs_advance:
  "(s1, True) = peek l ps (str ''<>'') \<Longrightarrow> (tok, x, y, s2) = gettoken l s1 \<Longrightarrow> (t, q, eq, s3) = gettoken l s2 \<Longrightarrow> length l - s3 < length l - ps"
  using peek_mono [of l ps "str ''<>''" s1 True] peek_gettoken [of l ps "str ''<>''" s1 tok x y s2] gettoken_mono [of l s2 t q eq s3]
  by (auto simp: symbols_def str_def)

lemma back_advance:
  "(s1, True) = peek l ps (str ''&'') \<Longrightarrow> (tok, x, y, s2) = gettoken l s1 \<Longrightarrow> length l - s2 < length l - ps"
  using peek_mono [of l ps "str ''&''" s1 True] peek_gettoken [of l ps "str ''&''" s1 tok x y s2] by (auto simp: symbols_def str_def)

subsection \<open>Redirections and arguments\<close>

definition redircmd :: "byte \<Rightarrow> 'w cmd \<Rightarrow> 'w \<Rightarrow> 'w cmd" where
  "redircmd tok cmd file =
     (if tok = 60 then REDIR cmd file O_RDONLY 0
      else if tok = 62 then REDIR cmd file O_WRONLY_CREATE_TRUNC 1
      else if tok = 43 then REDIR cmd file O_WRONLY_CREATE 1
      else cmd)"

function parseredirs :: "byte list \<Rightarrow> span cmd \<Rightarrow> nat \<Rightarrow> byte list + (span cmd \<times> nat)" where
  "parseredirs l cmd ps =
     (case peek l ps (str ''<>'') of
        (s1, found) \<Rightarrow>
          if \<not> found then Inr (cmd, s1)
          else case gettoken l s1 of (tok, _, _, s2) \<Rightarrow>
            (case gettoken l s2 of (t, q, eq, s3) \<Rightarrow>
               if t \<noteq> 97 then Inl (perr ''missing file for redirection'') else parseredirs l (redircmd tok cmd (q, eq)) s3))"
  by pat_completeness auto
termination
  by (relation "measure (\<lambda>(l, cmd, ps). length l - ps)") (auto dest: redirs_advance)

declare parseredirs.simps [simp del]

text \<open>\<^verbatim>\<open>parseexec\<close> adds arguments to the \<^verbatim>\<open>execcmd\<close> that the redirections around it point to.\<close>

primrec add_arg :: "'w \<Rightarrow> 'w cmd \<Rightarrow> 'w cmd" where
  "add_arg a (EXEC args) = EXEC (args @ [a])"
| "add_arg a (REDIR c f m fd) = REDIR (add_arg a c) f m fd"
| "add_arg a (PIPE l r) = PIPE l r"
| "add_arg a (LIST l r) = LIST l r"
| "add_arg a (BACK c) = BACK c"

function exec_loop :: "byte list \<Rightarrow> span cmd \<Rightarrow> nat \<Rightarrow> nat \<Rightarrow> byte list + (span cmd \<times> nat)" where
  "exec_loop l ret argc ps =
     (case peek l ps (str ''|)&;'') of
        (s1, found) \<Rightarrow>
          if found then Inr (ret, s1)
          else case gettoken l s1 of (tok, q, eq, s2) \<Rightarrow>
            if tok = 0 then Inr (ret, s2)
            else if tok \<noteq> 97 then Inl (perr ''syntax'')
            else if argc + 1 \<ge> MAXARGS then Inl (perr ''too many args'')
            else case parseredirs l (add_arg (q, eq) ret) s2 of
                   Inl e \<Rightarrow> Inl e
                 | Inr (ret', s3) \<Rightarrow> exec_loop l ret' (argc + 1) s3)"
  by pat_completeness auto
termination
  by (relation "measure (\<lambda>(l, ret, argc, ps). MAXARGS - argc)") auto

declare exec_loop.simps [simp del]

function back_loop :: "byte list \<Rightarrow> span cmd \<Rightarrow> nat \<Rightarrow> span cmd \<times> nat" where
  "back_loop l cmd ps =
     (case peek l ps (str ''&'') of
        (s1, found) \<Rightarrow>
          if found then (case gettoken l s1 of (_, _, _, s2) \<Rightarrow> back_loop l (BACK cmd) s2)
          else (cmd, s1))"
  by pat_completeness auto
termination
  by (relation "measure (\<lambda>(l, cmd, ps). length l - ps)") (auto dest: back_advance)

declare back_loop.simps [simp del]

subsection \<open>The grammar\<close>

text \<open>
  The parsing functions call each other; every call uses one unit of fuel, and None means that the fuel did not suffice.
  For a line of \<open>n\<close> characters \<open>4 * n + 4\<close> units always do (\<open>parse_total\<close> in the theory \<open>Shell_Props\<close>).
\<close>

type_synonym presult = "(byte list + (span cmd \<times> nat)) option"

definition andthen :: "presult \<Rightarrow> (span cmd \<Rightarrow> nat \<Rightarrow> presult) \<Rightarrow> presult" where
  "andthen r f = (case r of None \<Rightarrow> None | Some (Inl e) \<Rightarrow> Some (Inl e) | Some (Inr (c, s)) \<Rightarrow> f c s)"

fun parseline :: "nat \<Rightarrow> byte list \<Rightarrow> nat \<Rightarrow> presult"
  and parsepipe :: "nat \<Rightarrow> byte list \<Rightarrow> nat \<Rightarrow> presult"
  and parseexec :: "nat \<Rightarrow> byte list \<Rightarrow> nat \<Rightarrow> presult"
  and parseblock :: "nat \<Rightarrow> byte list \<Rightarrow> nat \<Rightarrow> presult" where
  "parseline 0 l ps = None"
| "parseline (Suc n) l ps =
     andthen (parsepipe n l ps) (\<lambda>cmd0 s0.
     case back_loop l cmd0 s0 of (cmd, s1) \<Rightarrow>
       (case peek l s1 (str '';'') of (s2, found) \<Rightarrow>
          if found then
            (case gettoken l s2 of (_, _, _, s3) \<Rightarrow>
               andthen (parseline n l s3) (\<lambda>r s4. Some (Inr (LIST cmd r, s4))))
          else Some (Inr (cmd, s2))))"
| "parsepipe 0 l ps = None"
| "parsepipe (Suc n) l ps =
     andthen (parseexec n l ps) (\<lambda>cmd s1.
     case peek l s1 (str ''|'') of (s2, found) \<Rightarrow>
       if found then
         (case gettoken l s2 of (_, _, _, s3) \<Rightarrow>
            andthen (parsepipe n l s3) (\<lambda>r s4. Some (Inr (PIPE cmd r, s4))))
       else Some (Inr (cmd, s2)))"
| "parseexec 0 l ps = None"
| "parseexec (Suc n) l ps =
     (case peek l ps (str ''('') of (s1, found) \<Rightarrow>
        if found then parseblock n l s1
        else
          andthen (Some (parseredirs l (EXEC []) s1)) (\<lambda>ret s2. Some (exec_loop l ret 0 s2)))"
| "parseblock 0 l ps = None"
| "parseblock (Suc n) l ps =
     (case peek l ps (str ''('') of (s1, found) \<Rightarrow>
        if \<not> found then Some (Inl (perr ''parseblock''))
        else case gettoken l s1 of (_, _, _, s2) \<Rightarrow>
          andthen (parseline n l s2) (\<lambda>cmd s3.
          case peek l s3 (str '')'') of (s4, found') \<Rightarrow>
            if \<not> found' then Some (Inl (perr ''syntax - missing )''))
            else case gettoken l s4 of (_, _, _, s5) \<Rightarrow> Some (parseredirs l cmd s5)))"

definition parsecmd :: "byte list \<Rightarrow> (byte list + span cmd) option" where
  "parsecmd l =
     (case parseline (4 * length l + 4) l 0 of
        None \<Rightarrow> None
      | Some (Inl e) \<Rightarrow> Some (Inl e)
      | Some (Inr (cmd, s)) \<Rightarrow>
          case peek l s [] of (s', _) \<Rightarrow> if s' \<noteq> length l then Some (Inl (str ''leftovers: '' @ drop s' l @ [10] @ perr ''syntax'')) else Some (Inr cmd))"

text \<open>\<^verbatim>\<open>nulterminate\<close> overwrites the character behind every word.\<close>

primrec nulterminate :: "span cmd \<Rightarrow> byte list \<Rightarrow> byte list" where
  "nulterminate (EXEC args) buf = fold (\<lambda>(q, eq) b. b[eq := 0]) args buf"
| "nulterminate (REDIR c f m fd) buf = (nulterminate c buf)[snd f := 0]"
| "nulterminate (PIPE l r) buf = nulterminate r (nulterminate l buf)"
| "nulterminate (LIST l r) buf = nulterminate r (nulterminate l buf)"
| "nulterminate (BACK c) buf = nulterminate c buf"

text \<open>The string at a position of the buffer.\<close>

definition cstr_at :: "byte list \<Rightarrow> nat \<Rightarrow> byte list" where
  "cstr_at buf q = takeWhile (\<lambda>c. c \<noteq> 0) (drop q buf)"

text \<open>What \<^verbatim>\<open>main\<close> hands to \<^verbatim>\<open>runcmd\<close>: the command with the strings that its pointers show once \<^verbatim>\<open>nulterminate\<close> is done.\<close>

definition parsed :: "byte list \<Rightarrow> (byte list + byte list cmd) option" where
  "parsed l =
     map_option (map_sum id (\<lambda>c. map_cmd (\<lambda>(q, eq). cstr_at (nulterminate c (l @ [0])) q) c)) (parsecmd l)"

subsection \<open>Running a command\<close>

text \<open>
  The system calls of the shell change the table of open descriptors of its processes.  What the kernel answers is a
  parameter: which programs can be run, which files opened, and which of the calls of \<^verbatim>\<open>fork\<close> and \<^verbatim>\<open>pipe\<close> succeed.  A process is the list of
  what it does, with the processes it forks inside; a position of the command tree names the pipe made there.
\<close>

datatype obj = Console | Opened "byte list" nat | PipeRd "nat list" | PipeWr "nat list"

type_synonym fdtab = "obj option list"

datatype event =
    Exec "byte list list" fdtab
  | Fork "event list"
  | Wait
  | Chdir "byte list"
  | Message "byte list"
  | Exit int

record sysenv =
  can_exec :: "byte list list \<Rightarrow> bool"
  can_open :: "byte list \<Rightarrow> nat \<Rightarrow> bool"
  can_fork :: "nat list \<Rightarrow> bool"
  can_pipe :: "nat list \<Rightarrow> bool"
  can_chdir :: "byte list \<Rightarrow> bool"

text \<open>A new descriptor is the lowest one that is free.\<close>

definition fd_new :: "obj \<Rightarrow> fdtab \<Rightarrow> (nat \<times> fdtab) option" where
  "fd_new x t = map_option (\<lambda>fd. (fd, t[fd := Some x])) (find_index (\<lambda>y. y = None) t)"

definition fd_close :: "nat \<Rightarrow> fdtab \<Rightarrow> fdtab" where
  "fd_close fd t = t[fd := None]"

definition fd_dup :: "nat \<Rightarrow> fdtab \<Rightarrow> fdtab" where
  "fd_dup fd t =
     (case (if fd < length t then t ! fd else None) of
        None \<Rightarrow> t
      | Some x \<Rightarrow> (case fd_new x t of None \<Rightarrow> t | Some (_, t') \<Rightarrow> t'))"

definition sh_panic :: "string \<Rightarrow> event list" where
  "sh_panic m = [Message (perr m), Exit 1]"

primrec runcmd :: "byte list cmd \<Rightarrow> sysenv \<Rightarrow> nat list \<Rightarrow> fdtab \<Rightarrow> event list" where
  "runcmd (EXEC args) env pos t =
     (case args of
        [] \<Rightarrow> [Exit 1]
      | prog # _ \<Rightarrow>
          if can_exec env args then [Exec args t]
          else [Message (str ''exec '' @ prog @ str '' failed'' @ [10]), Exit 0])"
| "runcmd (REDIR c f mode fd) env pos t =
     (case (if can_open env f mode then fd_new (Opened f mode) (fd_close fd t) else None) of
        None \<Rightarrow> [Message (str ''open '' @ f @ str '' failed'' @ [10]), Exit 1]
      | Some (_, t') \<Rightarrow> runcmd c env (pos @ [0]) t')"
| "runcmd (PIPE l r) env pos t =
     (case (if can_pipe env pos then fd_new (PipeRd pos) t else None) of
        None \<Rightarrow> sh_panic ''pipe''
      | Some (p0, t0) \<Rightarrow>
          (case fd_new (PipeWr pos) t0 of
             None \<Rightarrow> sh_panic ''pipe''
           | Some (p1, t1) \<Rightarrow>
               if \<not> can_fork env (pos @ [0]) then sh_panic ''fork''
               else
                 Fork (runcmd l env (pos @ [0]) (fd_close p1 (fd_close p0 (fd_dup p1 (fd_close 1 t1))))) #
                 (if \<not> can_fork env (pos @ [1]) then sh_panic ''fork''
                  else
                    [Fork (runcmd r env (pos @ [1]) (fd_close p1 (fd_close p0 (fd_dup p0 (fd_close 0 t1))))),
                     Wait, Wait, Exit 0])))"
| "runcmd (LIST l r) env pos t =
     (if \<not> can_fork env (pos @ [0]) then sh_panic ''fork''
      else Fork (runcmd l env (pos @ [0]) t) # Wait # runcmd r env (pos @ [1]) t)"
| "runcmd (BACK c) env pos t =
     (if \<not> can_fork env (pos @ [0]) then sh_panic ''fork''
      else [Fork (runcmd c env (pos @ [0]) t), Exit 0])"

subsection \<open>The main loop\<close>

text \<open>
  \<^verbatim>\<open>getcmd\<close>: the line as a string, and the input that is left; None at the end of the input.  A line that starts with a NUL
  ends the shell too.
\<close>

definition getcmd :: "byte list \<Rightarrow> (byte list \<times> byte list) option" where
  "getcmd input =
     (case gets 100 input of (buf, rest) \<Rightarrow>
        let line = cstr_at (buf @ [0]) 0 in if line = [] then None else Some (line, rest))"

text \<open>One turn of the loop of \<^verbatim>\<open>main\<close>, and whether the shell goes on.\<close>

definition run_line :: "sysenv \<Rightarrow> nat \<Rightarrow> fdtab \<Rightarrow> byte list \<Rightarrow> event list \<times> bool" where
  "run_line env k t line =
     (let cmd = dropWhile (\<lambda>c. c = 32 \<or> c = 9) line in
      if char_at cmd 0 = 10 then ([], True)
      else if char_at cmd 0 = 99 \<and> char_at cmd 1 = 100 \<and> char_at cmd 2 = 32 then
        let dir = drop 3 (butlast cmd) in
        (Chdir dir # (if can_chdir env dir then [] else [Message (str ''cannot cd '' @ dir @ [10])]), True)
      else if \<not> can_fork env [k] then (sh_panic ''fork'', False)
      else
        ([Fork (case parsed cmd of
                  None \<Rightarrow> []
                | Some (Inl e) \<Rightarrow> [Message e, Exit 1]
                | Some (Inr c) \<Rightarrow> runcmd c env [k] t),
          Wait], True))"

lemma gets_loop_length: "gets_loop i mx input = (buf, rest) \<Longrightarrow> length buf + length rest = length input"
  by (induction i mx input arbitrary: buf rest rule: gets_loop.induct) (auto split: if_splits prod.splits)

lemma getcmd_length: "getcmd input = Some (line, rest) \<Longrightarrow> length rest < length input"
  using gets_loop_length [of 0 100 input]
  by (cases "fst (gets_loop 0 100 input)") (auto simp: getcmd_def gets_def cstr_at_def Let_def split: prod.splits if_splits)

text \<open>The commands are numbered by \<open>k\<close>.\<close>

function sh_loop :: "sysenv \<Rightarrow> nat \<Rightarrow> fdtab \<Rightarrow> byte list \<Rightarrow> event list" where
  "sh_loop env k t input =
     Message (str ''$ '') #
     (case getcmd input of
        None \<Rightarrow> [Exit 0]
      | Some (line, rest) \<Rightarrow>
          (case run_line env k t line of (out, go) \<Rightarrow> out @ (if go then sh_loop env (Suc k) t rest else [])))"
  by pat_completeness auto
termination
  by (relation "measure (\<lambda>(env, k, t, input). length input)") (auto dest: getcmd_length)

declare sh_loop.simps [simp del]

text \<open>\<^verbatim>\<open>main\<close> opens the console until the descriptors 0 to 2 are open, which takes at most four rounds.\<close>

primrec open_console :: "sysenv \<Rightarrow> nat \<Rightarrow> fdtab \<Rightarrow> fdtab" where
  "open_console env 0 t = t"
| "open_console env (Suc n) t =
     (case (if can_open env (str ''console'') 2 then fd_new Console t else None) of
        None \<Rightarrow> t
      | Some (fd, t') \<Rightarrow> if fd \<ge> 3 then fd_close fd t' else open_console env n t')"

definition sh_main :: "sysenv \<Rightarrow> fdtab \<Rightarrow> byte list \<Rightarrow> event list" where
  "sh_main env t input = sh_loop env 0 (open_console env 4 t) input"

end
