(* ===== verification/Shell_Props.thy ===== *)
theory Shell_Props
  imports Shell
begin

section \<open>Properties of the shell\<close>

text \<open>
  The parser always ends, the strings it hands to \<^verbatim>\<open>runcmd\<close> are the words of the line, and it reads back every command
  that can be written down.
\<close>

subsection \<open>The parser ends\<close>

lemma andthen_simps [simp]: "andthen None f = None" "andthen (Some (Inl e)) f = Some (Inl e)" "andthen (Some (Inr (c, s))) f = f c s"
  by (simp_all add: andthen_def)

lemma parseredirs_mono: "parseredirs l c s = Inr (c', s') \<Longrightarrow> s \<le> s'"
proof (induction l c s arbitrary: rule: parseredirs.induct)
  case (1 l cmd ps)
  obtain s1 found where p: "peek l ps (str ''<>'') = (s1, found)" by fastforce
  obtain tok x y s2 where g: "gettoken l s1 = (tok, x, y, s2)" by (metis prod_cases4)
  obtain t q eq s3 where h: "gettoken l s2 = (t, q, eq, s3)" by (metis prod_cases4)
  show ?case
    using "1.prems" "1.IH" [OF p [symmetric] _ g [symmetric] refl refl h [symmetric] refl refl] peek_mono [OF p] gettoken_mono [OF g] gettoken_mono [OF h]
    by (subst (asm) parseredirs.simps) (auto simp: p g h split: if_splits)
qed

lemma exec_loop_mono: "exec_loop l c argc s = Inr (c', s') \<Longrightarrow> s \<le> s'"
proof (induction l c argc s rule: exec_loop.induct)
  case (1 l ret argc ps)
  obtain s1 found where p: "peek l ps (str ''|)&;'') = (s1, found)" by fastforce
  obtain tok q eq s2 where g: "gettoken l s1 = (tok, q, eq, s2)" by (metis prod_cases4)
  show ?case
    using "1.prems" "1.IH" [OF p [symmetric] _ g [symmetric] refl refl] peek_mono [OF p] gettoken_mono [OF g] parseredirs_mono [of l "add_arg (q, eq) ret" s2]
    by (subst (asm) exec_loop.simps) (fastforce simp: p g split: if_splits sum.splits prod.splits)
qed

lemma back_loop_mono: "back_loop l c s = (c', s') \<Longrightarrow> s \<le> s'"
proof (induction l c s rule: back_loop.induct)
  case (1 l cmd ps)
  obtain s1 found where p: "peek l ps (str ''&'') = (s1, found)" by fastforce
  obtain tok q eq s2 where g: "gettoken l s1 = (tok, q, eq, s2)" by (metis prod_cases4)
  show ?case
    using "1.prems" "1.IH" [OF p [symmetric] _ g [symmetric] refl refl] peek_mono [OF p] gettoken_mono [OF g]
    by (subst (asm) back_loop.simps) (auto simp: p g split: if_splits)
qed

definition advances :: "nat \<Rightarrow> presult \<Rightarrow> bool" where
  "advances s r \<longleftrightarrow> (\<exists>x. r = Some x \<and> (\<forall>c s'. x = Inr (c, s') \<longrightarrow> s \<le> s'))"

lemma advances_andthen:
  assumes "advances s r" "\<And>c s'. s \<le> s' \<Longrightarrow> advances s (f c s')"
  shows "advances s (andthen r f)"
proof -
  obtain x where x: "r = Some x" "\<And>c s'. x = Inr (c, s') \<Longrightarrow> s \<le> s'" using assms(1) by (auto simp: advances_def)
  show ?thesis using x assms(2) by (cases x) (auto simp: advances_def)
qed

lemma advances_weaken: "advances s' r \<Longrightarrow> s \<le> s' \<Longrightarrow> advances s r"
  by (fastforce simp: advances_def)

lemma advances_Some: "advances s (Some (Inl e))" "s \<le> s' \<Longrightarrow> advances s (Some (Inr (c, s')))"
  by (simp_all add: advances_def)

text \<open>Behind a symbol that \<^verbatim>\<open>peek\<close> has found, less of the line is left.\<close>

lemma found_advance:
  assumes "peek l s [c] = (s1, True)" "c \<in> set symbols" "gettoken l s1 = (t, q, eq, s2)"
  shows "s < s2 \<and> length l - s2 < length l - s"
  using peek_mono [OF assms(1)] peek_gettoken [OF assms(1) _ assms(3)] assms(2) by auto

lemma one_char: "str '';'' = [59]" "str ''|'' = [124]" "str ''('' = [40]" "str '')'' = [41]" "str ''&'' = [38]"
  "{59, 124, 40, 41, 38, 60, 62} \<subseteq> set symbols"
  by (simp_all add: symbols_def str_def)

lemma parse_total:
  "(4 * (length l - s) + 4 \<le> n \<longrightarrow> advances s (parseline n l s)) \<and> (4 * (length l - s) + 3 \<le> n \<longrightarrow> advances s (parsepipe n l s)) \<and>
   (4 * (length l - s) + 2 \<le> n \<longrightarrow> advances s (parseexec n l s)) \<and> (4 * (length l - s) + 1 \<le> n \<longrightarrow> advances s (parseblock n l s))"
proof (induction n arbitrary: s)
  case 0
  show ?case by simp
next
  case (Suc n)
  note IH = Suc.IH
  have line: "advances s (parseline (Suc n) l s)" if fuel: "4 * (length l - s) + 4 \<le> Suc n"
  proof -
    have "advances s (case back_loop l c0 s0 of (cmd, s1) \<Rightarrow> case peek l s1 (str '';'') of (s2, found) \<Rightarrow>
          if found then case gettoken l s2 of (_, _, _, s3) \<Rightarrow> andthen (parseline n l s3) (\<lambda>r s4. Some (Inr (LIST cmd r, s4)))
          else Some (Inr (cmd, s2)))" if "s \<le> s0" for c0 s0
    proof -
      obtain cmd s1 where b: "back_loop l c0 s0 = (cmd, s1)" by fastforce
      obtain s2 found where p: "peek l s1 [59] = (s2, found)" by fastforce
      obtain t q eq s3 where g: "gettoken l s2 = (t, q, eq, s3)" by (metis prod_cases4)
      have le: "s \<le> s1" "s \<le> s2" using that back_loop_mono [OF b] peek_mono [OF p] by auto
      show ?thesis
      proof (cases found)
        case True
        then have s3: "s1 < s3" "length l - s3 < length l - s1" using found_advance [of l s1 59 s2 t q eq s3] p g one_char(6) by auto
        then have "advances s3 (parseline n l s3)" using IH [of s3] fuel le by auto
        then show ?thesis using True s3 le
          by (auto simp: b p g one_char(1) intro!: advances_andthen advances_Some elim: advances_weaken)
      qed (use le in \<open>auto simp: b p one_char(1) intro: advances_Some\<close>)
    qed
    then show ?thesis using IH [of s] fuel by (auto intro!: advances_andthen)
  qed
  have pipe: "advances s (parsepipe (Suc n) l s)" if fuel: "4 * (length l - s) + 3 \<le> Suc n"
  proof -
    have "advances s (case peek l s1 (str ''|'') of (s2, found) \<Rightarrow>
          if found then case gettoken l s2 of (_, _, _, s3) \<Rightarrow> andthen (parsepipe n l s3) (\<lambda>r s4. Some (Inr (PIPE cmd r, s4)))
          else Some (Inr (cmd, s2)))" if le1: "s \<le> s1" for cmd s1
    proof -
      obtain s2 found where p: "peek l s1 [124] = (s2, found)" by fastforce
      obtain t q eq s3 where g: "gettoken l s2 = (t, q, eq, s3)" by (metis prod_cases4)
      have le: "s \<le> s2" using le1 peek_mono [OF p] by auto
      show ?thesis
      proof (cases found)
        case True
        then have s3: "s1 < s3" "length l - s3 < length l - s1" using found_advance [of l s1 124 s2 t q eq s3] p g one_char(6) by auto
        then have "advances s3 (parsepipe n l s3)" using IH [of s3] fuel le1 by auto
        then show ?thesis using True s3 le1
          by (auto simp: p g one_char(2) intro!: advances_andthen advances_Some elim: advances_weaken)
      qed (use le in \<open>auto simp: p one_char(2) intro: advances_Some\<close>)
    qed
    then show ?thesis using IH [of s] fuel by (auto intro!: advances_andthen)
  qed
  have exec: "advances s (parseexec (Suc n) l s)" if fuel: "4 * (length l - s) + 2 \<le> Suc n"
  proof -
    obtain s1 found where p: "peek l s [40] = (s1, found)" by fastforce
    have le: "s \<le> s1" using peek_mono [OF p] .
    have "advances s1 (parseblock n l s1)" using IH [of s1] fuel le by auto
    moreover have "advances s1 (andthen (Some (parseredirs l (EXEC []) s1)) (\<lambda>ret s2. Some (exec_loop l ret 0 s2)))"
      using parseredirs_mono [of l "EXEC []" s1] exec_loop_mono by (intro advances_andthen) (fastforce simp: advances_def)+
    ultimately show ?thesis using le by (auto simp: p one_char(3) simp del: andthen_simps elim!: advances_weaken)
  qed
  have block: "advances s (parseblock (Suc n) l s)" if fuel: "4 * (length l - s) + 1 \<le> Suc n"
  proof -
    obtain s1 found where p: "peek l s [40] = (s1, found)" by fastforce
    obtain t q eq s2 where g: "gettoken l s1 = (t, q, eq, s2)" by (metis prod_cases4)
    have "advances s (case peek l s3 (str '')'') of (s4, found') \<Rightarrow> if \<not> found' then Some (Inl (perr ''syntax - missing )''))
            else case gettoken l s4 of (_, _, _, s5) \<Rightarrow> Some (parseredirs l cmd s5))" if "s \<le> s3" for cmd s3
    proof -
      obtain s4 found' where p': "peek l s3 [41] = (s4, found')" by fastforce
      obtain t' q' eq' s5 where g': "gettoken l s4 = (t', q', eq', s5)" by (metis prod_cases4)
      show ?thesis using that peek_mono [OF p'] gettoken_mono [OF g'] parseredirs_mono [of l cmd s5]
        by (fastforce simp: p' g' one_char(4) advances_def)
    qed
    moreover have "advances s (parseline n l s2)" if found
    proof -
      have s2: "s < s2" "length l - s2 < length l - s" using found_advance [of l s 40 s1 t q eq s2] p g one_char(6) that by auto
      then have "advances s2 (parseline n l s2)" using IH [of s2] fuel by auto
      then show ?thesis using s2 by (auto elim: advances_weaken)
    qed
    ultimately show ?thesis by (auto simp: p g one_char(3) intro!: advances_andthen advances_Some)
  qed
  show ?case using line pipe exec block by blast
qed

text \<open>More fuel does not change a result.\<close>

definition fuel_le :: "presult \<Rightarrow> presult \<Rightarrow> bool" where
  "fuel_le r r' \<longleftrightarrow> r = None \<or> r = r'"

lemma fuel_le_andthen: "fuel_le r r' \<Longrightarrow> (\<And>c s. fuel_le (f c s) (f' c s)) \<Longrightarrow> fuel_le (andthen r f) (andthen r' f')"
  by (cases r) (auto simp: fuel_le_def andthen_def split: option.splits sum.splits)

lemma fuel_le_refl: "fuel_le r r"
  by (simp add: fuel_le_def)

lemma parse_fuel_le:
  "fuel_le (parseline n l s) (parseline (Suc n) l s) \<and> fuel_le (parsepipe n l s) (parsepipe (Suc n) l s) \<and>
   fuel_le (parseexec n l s) (parseexec (Suc n) l s) \<and> fuel_le (parseblock n l s) (parseblock (Suc n) l s)"
proof (induction n arbitrary: s)
  case 0
  show ?case by (simp add: fuel_le_def)
next
  case (Suc n)
  have "fuel_le (parseline (Suc n) l s) (parseline (Suc (Suc n)) l s)"
    by (subst (1 2) parseline.simps(2)) (use Suc in \<open>auto intro!: fuel_le_andthen fuel_le_refl simp del: parseline.simps parsepipe.simps split: prod.split\<close>)
  moreover have "fuel_le (parsepipe (Suc n) l s) (parsepipe (Suc (Suc n)) l s)"
    by (subst (1 2) parsepipe.simps(2)) (use Suc in \<open>auto intro!: fuel_le_andthen fuel_le_refl simp del: parsepipe.simps parseexec.simps split: prod.split\<close>)
  moreover have "fuel_le (parseexec (Suc n) l s) (parseexec (Suc (Suc n)) l s)"
    by (subst (1 2) parseexec.simps(2)) (use Suc in \<open>auto intro!: fuel_le_refl simp del: parseblock.simps split: prod.split\<close>)
  moreover have "fuel_le (parseblock (Suc n) l s) (parseblock (Suc (Suc n)) l s)"
    by (subst (1 2) parseblock.simps(2)) (use Suc in \<open>auto intro!: fuel_le_andthen fuel_le_refl simp del: parseline.simps split: prod.split\<close>)
  ultimately show ?case by blast
qed

lemma fuel_le_chain:
  assumes "\<And>n. fuel_le (f n) (f (Suc n))" "f n = Some r" "n \<le> m"
  shows "f m = Some r"
  using assms(3)
proof (induction rule: dec_induct)
  case (step k)
  then show ?case using assms(1) [of k] by (auto simp: fuel_le_def)
qed (rule assms(2))

lemma parse_enough:
  "parseline n l s = Some r \<Longrightarrow> n \<le> m \<Longrightarrow> parseline m l s = Some r"
  "parsepipe n l s = Some r \<Longrightarrow> n \<le> m \<Longrightarrow> parsepipe m l s = Some r"
  "parseexec n l s = Some r \<Longrightarrow> n \<le> m \<Longrightarrow> parseexec m l s = Some r"
  "parseblock n l s = Some r \<Longrightarrow> n \<le> m \<Longrightarrow> parseblock m l s = Some r"
  using fuel_le_chain [of "\<lambda>n. parseline n l s"] fuel_le_chain [of "\<lambda>n. parsepipe n l s"] fuel_le_chain [of "\<lambda>n. parseexec n l s"]
    fuel_le_chain [of "\<lambda>n. parseblock n l s"] parse_fuel_le by blast+

subsection \<open>The words of a command\<close>

definition wordchar :: "byte \<Rightarrow> bool" where
  "wordchar c \<longleftrightarrow> \<not> white c \<and> \<not> symbol c"

text \<open>\<open>word_at l (q, eq)\<close>: from \<open>q\<close> to \<open>eq\<close> the line has a word that \<open>eq\<close> does not continue.\<close>

definition word_at :: "byte list \<Rightarrow> span \<Rightarrow> bool" where
  "word_at l = (\<lambda>(q, eq). q < eq \<and> eq \<le> length l \<and> (\<forall>i \<in> {q..<eq}. wordchar (l ! i)) \<and> (eq < length l \<longrightarrow> \<not> wordchar (l ! eq)))"

lemma skip_while_bound: "s \<le> length l \<Longrightarrow> skip_while p l s \<le> length l"
proof (induction p l s rule: skip_while.induct)
  case (1 p l s)
  then show ?case by (subst skip_while.simps) auto
qed

lemma skip_while_all: "s \<le> i \<Longrightarrow> i < skip_while p l s \<Longrightarrow> p (l ! i)"
proof (induction p l s rule: skip_while.induct)
  case (1 p l s)
  then show ?case by (cases "i = s") (auto simp: skip_while.simps [of p l s] split: if_splits)
qed

lemma gettoken_word:
  assumes "gettoken l s = (97, q, eq, s')" "s \<le> length l"
  shows "word_at l (q, eq)"
proof -
  let ?q = "skip_while white l s"
  let ?e = "skip_while (\<lambda>c. \<not> white c \<and> \<not> symbol c) l ?q"
  have q: "q = ?q" using assms(1) by (auto simp: gettoken_def Let_def split: if_splits)
  have c: "char_at l q \<noteq> 0" "char_at l q \<notin> {124, 40, 41, 59, 38, 60, 62}" "eq = ?e" using assms(1) by (auto simp: gettoken_def Let_def split: if_splits)
  have lt: "q < length l" using char_at_end c(1) .
  have "\<not> white (l ! q)" using skip_while_stop [of white l s] lt q by auto
  moreover have "\<not> symbol (l ! q)" using c(2) lt by (auto simp: symbol_def symbols_def str_def char_at_def split: if_splits)
  ultimately have "skip_while (\<lambda>c. \<not> white c \<and> \<not> symbol c) l q = skip_while (\<lambda>c. \<not> white c \<and> \<not> symbol c) l (q + 1)"
    using lt by (subst skip_while.simps) simp
  then have "q < eq" using skip_while_mono [of "q + 1"] c(3) q by (metis Suc_eq_plus1 less_eq_Suc_le)
  moreover have "eq \<le> length l" using skip_while_bound lt c(3) q by simp
  moreover have "wordchar (l ! i)" if "i \<in> {q..<eq}" for i using that skip_while_all [of q i] c(3) q by (auto simp: wordchar_def)
  moreover have "\<not> wordchar (l ! eq)" if "eq < length l" using that skip_while_stop [of "\<lambda>c. \<not> white c \<and> \<not> symbol c" l q] c(3) q by (auto simp: wordchar_def)
  ultimately show ?thesis by (simp add: word_at_def)
qed

lemma gettoken_bound:
  assumes "gettoken l s = (t, q, eq, s')" "s \<le> length l"
  shows "s' \<le> length l"
proof -
  let ?q = "skip_while white l s"
  have q: "?q \<le> length l" using skip_while_bound assms(2) .
  have "eq \<le> length l" using assms(1) q skip_while_bound [OF q, of "\<lambda>c. \<not> white c \<and> \<not> symbol c"] char_at_end [of l ?q] char_at_end [of l "?q + 1"]
    by (auto simp: gettoken_def Let_def split: if_splits)
  moreover have "s' = skip_while white l eq" using assms(1) by (auto simp: gettoken_def Let_def split: if_splits)
  ultimately show ?thesis using skip_while_bound by simp
qed

lemma peek_bound: "peek l s toks = (s', b) \<Longrightarrow> s \<le> length l \<Longrightarrow> s' \<le> length l"
  using skip_while_bound by (auto simp: peek_def Let_def)

text \<open>The parser only redirects the descriptors 0 and 1.\<close>

primrec fds_ok :: "'w cmd \<Rightarrow> bool" where
  "fds_ok (EXEC ws) \<longleftrightarrow> True"
| "fds_ok (REDIR c f m fd) \<longleftrightarrow> fds_ok c \<and> fd < 2"
| "fds_ok (PIPE l r) \<longleftrightarrow> fds_ok l \<and> fds_ok r"
| "fds_ok (LIST l r) \<longleftrightarrow> fds_ok l \<and> fds_ok r"
| "fds_ok (BACK c) \<longleftrightarrow> fds_ok c"

lemma fds_ok_add_arg [simp]: "fds_ok (add_arg a c) \<longleftrightarrow> fds_ok c"
  by (induction c) auto

lemma fds_ok_map [simp]: "fds_ok (map_cmd f c) \<longleftrightarrow> fds_ok c"
  by (induction c) auto

definition good :: "byte list \<Rightarrow> span cmd \<Rightarrow> nat \<Rightarrow> bool" where
  "good l c s \<longleftrightarrow> s \<le> length l \<and> (\<forall>w \<in> set_cmd c. word_at l w) \<and> fds_ok c"

lemma good_redir: "good l c s \<Longrightarrow> word_at l w \<Longrightarrow> s' \<le> length l \<Longrightarrow> good l (redircmd tok c w) s'"
  by (auto simp: good_def redircmd_def)

lemma set_add_arg: "set_cmd (add_arg a c) \<subseteq> insert a (set_cmd c)"
  by (induction c) auto

lemma parseredirs_good: "parseredirs l c s = Inr (c', s') \<Longrightarrow> good l c s \<Longrightarrow> good l c' s'"
proof (induction l c s rule: parseredirs.induct)
  case (1 l cmd ps)
  obtain s1 found where p: "peek l ps (str ''<>'') = (s1, found)" by fastforce
  obtain tok x y s2 where g: "gettoken l s1 = (tok, x, y, s2)" by (metis prod_cases4)
  obtain t q eq s3 where h: "gettoken l s2 = (t, q, eq, s3)" by (metis prod_cases4)
  have b: "s1 \<le> length l" "s2 \<le> length l" "s3 \<le> length l"
    using "1.prems"(2) peek_bound [OF p] gettoken_bound [OF g] gettoken_bound [OF h] by (auto simp: good_def)
  have "good l (redircmd tok cmd (q, eq)) s3" if "t = 97" using good_redir [OF "1.prems"(2) _ b(3)] gettoken_word [of l s2] h that b(2) by simp
  then show ?case
    using "1.prems" "1.IH" [OF p [symmetric] _ g [symmetric] refl refl h [symmetric] refl refl] b
    by (subst (asm) parseredirs.simps) (auto simp: p g h good_def split: if_splits)
qed

lemma exec_loop_good: "exec_loop l c argc s = Inr (c', s') \<Longrightarrow> good l c s \<Longrightarrow> good l c' s'"
proof (induction l c argc s rule: exec_loop.induct)
  case (1 l ret argc ps)
  obtain s1 found where p: "peek l ps (str ''|)&;'') = (s1, found)" by fastforce
  obtain tok q eq s2 where g: "gettoken l s1 = (tok, q, eq, s2)" by (metis prod_cases4)
  have b: "s1 \<le> length l" "s2 \<le> length l" using "1.prems"(2) peek_bound [OF p] gettoken_bound [OF g] by (auto simp: good_def)
  have "good l (add_arg (q, eq) ret) s2" if "tok = 97"
    using "1.prems"(2) gettoken_word [of l s1] g that b set_add_arg [of "(q, eq)" ret] by (auto simp: good_def)
  then show ?case
    using "1.prems" "1.IH" [OF p [symmetric] _ g [symmetric] refl refl] b parseredirs_good [of l "add_arg (q, eq) ret" s2]
    by (subst (asm) exec_loop.simps) (fastforce simp: p g good_def split: if_splits sum.splits prod.splits)
qed

lemma back_loop_good: "back_loop l c s = (c', s') \<Longrightarrow> good l c s \<Longrightarrow> good l c' s'"
proof (induction l c s rule: back_loop.induct)
  case (1 l cmd ps)
  obtain s1 found where p: "peek l ps (str ''&'') = (s1, found)" by fastforce
  obtain tok q eq s2 where g: "gettoken l s1 = (tok, q, eq, s2)" by (metis prod_cases4)
  show ?case
    using "1.prems" "1.IH" [OF p [symmetric] _ g [symmetric] refl refl] peek_bound [OF p] gettoken_bound [OF g]
    by (subst (asm) back_loop.simps) (auto simp: p g good_def split: if_splits)
qed

definition goodr :: "byte list \<Rightarrow> presult \<Rightarrow> bool" where
  "goodr l r \<longleftrightarrow> (\<forall>c s. r = Some (Inr (c, s)) \<longrightarrow> good l c s)"

lemma goodr_andthen: "goodr l r \<Longrightarrow> (\<And>c s. good l c s \<Longrightarrow> goodr l (f c s)) \<Longrightarrow> goodr l (andthen r f)"
  by (auto simp: goodr_def andthen_def split: option.splits sum.splits)

lemma goodr_Some: "goodr l (Some (Inl e))" "good l c s \<Longrightarrow> goodr l (Some (Inr (c, s)))" "goodr l None"
  by (simp_all add: goodr_def)

lemma parse_good:
  "s \<le> length l \<Longrightarrow> goodr l (parseline n l s) \<and> goodr l (parsepipe n l s) \<and> goodr l (parseexec n l s) \<and> goodr l (parseblock n l s)"
proof (induction n arbitrary: s)
  case 0
  show ?case by (simp add: goodr_def)
next
  case (Suc n)
  have pk: "good l c s' \<Longrightarrow> peek l s' toks = (s1, b) \<Longrightarrow> good l c s1" for c s' toks s1 b using peek_bound by (auto simp: good_def)
  have gt: "good l c s' \<Longrightarrow> gettoken l s' = (t, q, eq, s2) \<Longrightarrow> good l c s2" for c s' t q eq s2 using gettoken_bound by (auto simp: good_def)
  have le: "good l c s' \<Longrightarrow> s' \<le> length l" for c s' by (simp add: good_def)
  have two: "good l c s1 \<Longrightarrow> good l r s2 \<Longrightarrow> good l (LIST c r) s2 \<and> good l (PIPE c r) s2" for c r s1 s2 by (auto simp: good_def)
  have "goodr l (parseline (Suc n) l s)"
  proof -
    have "goodr l (case back_loop l c0 s0 of (cmd, s1) \<Rightarrow> case peek l s1 (str '';'') of (s2, found) \<Rightarrow>
          if found then case gettoken l s2 of (_, _, _, s3) \<Rightarrow> andthen (parseline n l s3) (\<lambda>r s4. Some (Inr (LIST cmd r, s4)))
          else Some (Inr (cmd, s2)))" if g0: "good l c0 s0" for c0 s0
    proof -
      obtain cmd s1 where b: "back_loop l c0 s0 = (cmd, s1)" by fastforce
      obtain s2 found where p: "peek l s1 (str '';'') = (s2, found)" by fastforce
      obtain t q eq s3 where g: "gettoken l s2 = (t, q, eq, s3)" by (metis prod_cases4)
      have g2: "good l cmd s2" and g3: "good l cmd s3" using pk [OF back_loop_good [OF b g0] p] gt [OF _ g] by auto
      have "goodr l (andthen (parseline n l s3) (\<lambda>r s4. Some (Inr (LIST cmd r, s4))))"
        using Suc.IH [OF le [OF g3]] two [OF g3] by (intro goodr_andthen) (auto intro: goodr_Some)
      then show ?thesis using g2 by (simp add: b p g goodr_Some)
    qed
    then show ?thesis using Suc by (auto intro!: goodr_andthen)
  qed
  moreover have "goodr l (parsepipe (Suc n) l s)"
  proof -
    have "goodr l (case peek l s1 (str ''|'') of (s2, found) \<Rightarrow>
          if found then case gettoken l s2 of (_, _, _, s3) \<Rightarrow> andthen (parsepipe n l s3) (\<lambda>r s4. Some (Inr (PIPE cmd r, s4)))
          else Some (Inr (cmd, s2)))" if g1: "good l cmd s1" for cmd s1
    proof -
      obtain s2 found where p: "peek l s1 (str ''|'') = (s2, found)" by fastforce
      obtain t q eq s3 where g: "gettoken l s2 = (t, q, eq, s3)" by (metis prod_cases4)
      have g2: "good l cmd s2" and g3: "good l cmd s3" using pk [OF g1 p] gt [OF _ g] by auto
      have "goodr l (andthen (parsepipe n l s3) (\<lambda>r s4. Some (Inr (PIPE cmd r, s4))))"
        using Suc.IH [OF le [OF g3]] two [OF g3] by (intro goodr_andthen) (auto intro: goodr_Some)
      then show ?thesis using g2 by (simp add: p g goodr_Some)
    qed
    then show ?thesis using Suc by (auto intro!: goodr_andthen)
  qed
  moreover have "goodr l (parseexec (Suc n) l s)"
  proof -
    obtain s1 found where p: "peek l s (str ''('') = (s1, found)" by fastforce
    have g1: "good l (EXEC []) s1" using Suc.prems peek_bound [OF p] by (simp add: good_def)
    have "goodr l (andthen (Some (parseredirs l (EXEC []) s1)) (\<lambda>ret s2. Some (exec_loop l ret 0 s2)))"
      using parseredirs_good [OF _ g1] exec_loop_good by (intro goodr_andthen) (auto simp: goodr_def)
    then show ?thesis using Suc.IH [OF le [OF g1]] by (simp add: p del: andthen_simps)
  qed
  moreover have "goodr l (parseblock (Suc n) l s)"
  proof -
    obtain s1 found where p: "peek l s (str ''('') = (s1, found)" by fastforce
    obtain t q eq s2 where g: "gettoken l s1 = (t, q, eq, s2)" by (metis prod_cases4)
    have "goodr l (case peek l s3 (str '')'') of (s4, found') \<Rightarrow> if \<not> found' then Some (Inl (perr ''syntax - missing )''))
            else case gettoken l s4 of (_, _, _, s5) \<Rightarrow> Some (parseredirs l cmd s5))" if g3: "good l cmd s3" for cmd s3
    proof -
      obtain s4 found' where p': "peek l s3 (str '')'') = (s4, found')" by fastforce
      obtain t' q' eq' s5 where g': "gettoken l s4 = (t', q', eq', s5)" by (metis prod_cases4)
      show ?thesis using parseredirs_good [OF _ gt [OF pk [OF g3 p'] g']] by (auto simp: p' g' goodr_def)
    qed
    moreover have "s2 \<le> length l" using Suc.prems peek_bound [OF p] gettoken_bound [OF g] by simp
    ultimately show ?thesis using Suc.IH [of s2] by (auto simp: p g intro!: goodr_andthen goodr_Some)
  qed
  ultimately show ?case by blast
qed

lemma parsecmd_words: "parsecmd l = Some (Inr c) \<Longrightarrow> w \<in> set_cmd c \<Longrightarrow> word_at l w"
  using parse_good [of 0 l "4 * length l + 4"]
  by (auto simp: parsecmd_def goodr_def good_def simp del: parseline.simps split: option.splits sum.splits prod.splits if_splits)

lemma parsecmd_fds: "parsecmd l = Some (Inr c) \<Longrightarrow> fds_ok c"
  using parse_good [of 0 l "4 * length l + 4"]
  by (auto simp: parsecmd_def goodr_def good_def simp del: parseline.simps split: option.splits sum.splits prod.splits if_splits)

subsection \<open>Terminating the words\<close>

lemma length_nulterminate [simp]: "length (nulterminate c b) = length b"
proof (induction c arbitrary: b)
  case (EXEC args)
  have "length (fold (\<lambda>(q, eq) b. b[eq := 0]) args b) = length b" by (induction args arbitrary: b) auto
  then show ?case by simp
qed auto

lemma nulterminate_nth: "i < length b \<Longrightarrow> nulterminate c b ! i = (if i \<in> snd ` set_cmd c then 0 else b ! i)"
proof (induction c arbitrary: b)
  case (EXEC args)
  have "i < length b \<Longrightarrow> fold (\<lambda>(q, eq) b. b[eq := 0]) args b ! i = (if i \<in> snd ` set args then 0 else b ! i)"
    by (induction args arbitrary: b) (auto simp: nth_list_update, force)
  then show ?case using EXEC by simp
next
  case (REDIR c f m fd)
  then show ?case by (cases "snd f = i") (simp_all add: nth_list_update)
qed (simp_all add: image_Un)

lemma takeWhile_slice:
  assumes "q \<le> e" "e < length b" "\<And>i. q \<le> i \<Longrightarrow> i < e \<Longrightarrow> P (b ! i)" "\<not> P (b ! e)"
  shows "takeWhile P (drop q b) = take (e - q) (drop q b)"
proof (rule takeWhile_eq_take_P_nth)
  show "\<And>i. i < e - q \<Longrightarrow> i < length (drop q b) \<Longrightarrow> P (drop q b ! i)" using assms by simp
  show "e - q < length (drop q b) \<Longrightarrow> \<not> P (drop q b ! (e - q))" using assms by simp
qed

lemma nulterminate_word:
  assumes "0 \<notin> set l" "\<forall>w \<in> set_cmd c. word_at l w" "(q, eq) \<in> set_cmd c"
  shows "cstr_at (nulterminate c (l @ [0])) q = take (eq - q) (drop q l)"
proof -
  let ?b = "nulterminate c (l @ [0])"
  have w: "q < eq" "eq \<le> length l" "\<And>i. q \<le> i \<Longrightarrow> i < eq \<Longrightarrow> wordchar (l ! i)" using assms(2,3) by (force simp: word_at_def)+
  have keep: "?b ! i = l ! i" if "q \<le> i" "i < eq" for i
  proof -
    have "i \<notin> snd ` set_cmd c"
    proof
      assume "i \<in> snd ` set_cmd c"
      then obtain q' where "(q', i) \<in> set_cmd c" by auto
      then have "\<not> wordchar (l ! i)" using assms(2) that w(2) by (force simp: word_at_def)
      then show False using w(3) that by blast
    qed
    then show ?thesis using that w(2) by (simp add: nulterminate_nth nth_append)
  qed
  have "?b ! eq = 0" using assms(3) w(2) by (force simp: nulterminate_nth)
  moreover have "?b ! i \<noteq> 0" if "q \<le> i" "i < eq" for i using keep [OF that] that w(2) assms(1) by (metis nth_mem order_less_le_trans)
  ultimately have "cstr_at ?b q = take (eq - q) (drop q ?b)"
    unfolding cstr_at_def using w by (intro takeWhile_slice) auto
  also have "\<dots> = take (eq - q) (drop q l)" using keep w by (intro nth_equalityI) auto
  finally show ?thesis .
qed

subsection \<open>Writing commands down\<close>

text \<open>
  \<open>print_cmd k c\<close> writes \<open>c\<close> with a blank behind every token, in brackets where a command binds less than the place it stands at.
  The levels are those of the grammar: 0 a line, 1 a line without \<open>;\<close>, 2 a pipeline, 3 a simple command.
\<close>

definition spaced :: "byte list \<Rightarrow> byte list" where
  "spaced w = w @ [32]"

definition print_words :: "byte list list \<Rightarrow> byte list" where
  "print_words ws = concat (map spaced ws)"

definition brackets :: "bool \<Rightarrow> byte list \<Rightarrow> byte list" where
  "brackets b t = (if b then spaced [40] @ t @ spaced [41] else t)"

definition redir_tok :: "nat \<Rightarrow> nat \<Rightarrow> byte list" where
  "redir_tok m fd = (if fd = 0 then [60] else if m = O_WRONLY_CREATE then [62, 62] else [62])"

primrec print_cmd :: "nat \<Rightarrow> byte list cmd \<Rightarrow> byte list" where
  "print_cmd k (EXEC ws) = print_words ws"
| "print_cmd k (REDIR c f m fd) = print_cmd 3 c @ spaced (redir_tok m fd) @ spaced f"
| "print_cmd k (PIPE l r) = brackets (k > 2) (print_cmd 3 l @ spaced [124] @ print_cmd 2 r)"
| "print_cmd k (BACK c) = brackets (k > 1) (print_cmd 1 c @ spaced [38])"
| "print_cmd k (LIST l r) = brackets (k > 0) (print_cmd 1 l @ spaced [59] @ print_cmd 0 r)"

definition word :: "byte list \<Rightarrow> bool" where
  "word w \<longleftrightarrow> w \<noteq> [] \<and> (\<forall>c \<in> set w. wordchar c \<and> c \<noteq> 0)"

primrec printable :: "byte list cmd \<Rightarrow> bool" where
  "printable (EXEC ws) \<longleftrightarrow> length ws < MAXARGS \<and> (\<forall>w \<in> set ws. word w)"
| "printable (REDIR c f m fd) \<longleftrightarrow> printable c \<and> word f \<and> (m, fd) \<in> {(O_RDONLY, 0), (O_WRONLY_CREATE_TRUNC, 1), (O_WRONLY_CREATE, 1)}"
| "printable (PIPE l r) \<longleftrightarrow> printable l \<and> printable r"
| "printable (LIST l r) \<longleftrightarrow> printable l \<and> printable r"
| "printable (BACK c) \<longleftrightarrow> printable c"

subsection \<open>Tokens of a printed line\<close>

text \<open>\<open>follow X rest\<close>: what is left starts with one of the characters \<open>X\<close>, if with anything.\<close>

definition follow :: "byte set \<Rightarrow> byte list \<Rightarrow> bool" where
  "follow X rest \<longleftrightarrow> rest = [] \<or> hd rest \<in> X"

definition nowhite :: "byte list \<Rightarrow> bool" where
  "nowhite rest \<longleftrightarrow> rest = [] \<or> \<not> white (hd rest)"

lemma drop_at: "drop s l = c # rest \<Longrightarrow> s < length l \<and> l ! s = c \<and> drop (s + 1) l = rest"
  by (metis Cons_nth_drop_Suc Suc_eq_plus1 drop_all list.inject list.simps(3) not_le_imp_less)

lemma skip_while_drop:
  "drop s l = ws @ rest \<Longrightarrow> s \<le> length l \<Longrightarrow> (\<forall>c \<in> set ws. p c) \<Longrightarrow> (rest = [] \<or> \<not> p (hd rest)) \<Longrightarrow> skip_while p l s = s + length ws"
proof (induction ws arbitrary: s)
  case Nil
  then show ?case by (cases rest) (auto intro!: skip_while_fix dest!: drop_at)
next
  case (Cons c ws)
  have d: "s < length l" "l ! s = c" "drop (s + 1) l = ws @ rest" using drop_at [of s l c] Cons.prems(1) by auto
  then have "skip_while p l (s + 1) = s + 1 + length ws" using Cons by (intro Cons.IH) auto
  then show ?case using d Cons.prems(3) by (subst skip_while.simps) simp
qed

lemma skip_white: "drop s l = rest \<Longrightarrow> s \<le> length l \<Longrightarrow> nowhite rest \<Longrightarrow> skip_while white l s = s"
  using skip_while_drop [of s l "[]" rest white] by (auto simp: nowhite_def)

lemma char_at_drop: "drop s l = rest \<Longrightarrow> char_at l s = (if rest = [] then 0 else hd rest)"
  by (cases rest) (auto simp: char_at_def dest!: drop_at)

lemma drop_app: "drop s l = u @ v \<Longrightarrow> drop (s + length u) l = v"
  by (metis add.commute append_eq_conv_conj drop_drop)

lemma drop_len: "drop s l = u @ v \<Longrightarrow> s \<le> length l \<Longrightarrow> s + length u \<le> length l"
  by (metis diff_diff_cancel diff_le_self le_add1 le_diff_conv2 length_append length_drop add.commute)

lemma peek_drop:
  "drop s l = rest \<Longrightarrow> s \<le> length l \<Longrightarrow> nowhite rest \<Longrightarrow>
   peek l s toks = (s, rest \<noteq> [] \<and> hd rest \<noteq> 0 \<and> strchr toks (hd rest) \<noteq> None)"
  by (auto simp: peek_def Let_def skip_white char_at_drop)

lemma white_32: "white 32" "\<not> white 0" "\<not> symbol 0"
  by (auto simp: white_def whitespace_def symbol_def symbols_def str_def)

lemma gettoken_drop_word:
  assumes d: "drop s l = spaced w @ rest" and s: "s \<le> length l" and w: "word w" and r: "nowhite rest"
  shows "gettoken l s = (97, s, s + length w, s + length (spaced w))"
proof -
  have d': "drop s l = w @ 32 # rest" using d by (simp add: spaced_def)
  obtain c v where c: "w = c # v" "wordchar c" "c \<noteq> 0" using w by (cases w) (auto simp: word_def)
  have q: "skip_while white l s = s" using d' s c by (intro skip_white) (auto simp: nowhite_def wordchar_def)
  have ch: "char_at l s = c" using char_at_drop [OF d'] c by simp
  have ns: "c \<notin> {124, 40, 41, 59, 38, 60, 62}" using c(2) by (auto simp: wordchar_def symbol_def symbols_def str_def)
  have e: "skip_while (\<lambda>c. \<not> white c \<and> \<not> symbol c) l s = s + length w"
    using d' s w white_32 by (intro skip_while_drop [of s l w "32 # rest"]) (auto simp: word_def wordchar_def)
  have "drop (s + length w) l = [32] @ rest" using drop_app [OF d'] by simp
  then have "skip_while white l (s + length w) = s + length w + 1"
    using skip_while_drop [of "s + length w" l "[32]" rest white] drop_len [OF d' s] r white_32 by (auto simp: nowhite_def)
  then show ?thesis using c(3) ns by (simp add: gettoken_def Let_def q ch e spaced_def)
qed

lemma gettoken_drop_symbol:
  assumes d: "drop s l = spaced t @ rest" and s: "s \<le> length l" and t: "t \<in> {[124], [40], [41], [59], [38], [60], [62], [62, 62]}" and r: "nowhite rest"
  shows "\<exists>eq. gettoken l s = (if t = [62, 62] then 43 else hd t, s, eq, s + length (spaced t))"
proof -
  have d': "drop s l = t @ 32 # rest" using d by (simp add: spaced_def)
  have "\<not> white (hd t)" "t \<noteq> []" using t by (auto simp: white_def whitespace_def)
  then have q: "skip_while white l s = s" using d' s by (intro skip_white) (auto simp: nowhite_def)
  have ch: "char_at l s = hd t" using char_at_drop [OF d'] \<open>t \<noteq> []\<close> by simp
  have "drop (s + length t) l = [32] @ rest" using drop_app [OF d'] by simp
  then have e: "skip_while white l (s + length t) = s + length t + 1"
    using skip_while_drop [of "s + length t" l "[32]" rest white] drop_len [OF d' s] r white_32 by (auto simp: nowhite_def)
  have nx: "char_at l (Suc s) = (if t = [62, 62] then 62 else 32)"
    using t d' char_at_drop [of "s + 1" l] drop_at [of s l "hd t"] by (auto simp: drop_at)
  show ?thesis using t e by (auto simp: gettoken_def Let_def q ch nx spaced_def)
qed

lemma strchr_iff: "0 \<notin> set ts \<Longrightarrow> strchr ts c \<noteq> None \<longleftrightarrow> c \<in> set ts"
  by (induction ts) auto

lemma peek_at:
  assumes "drop s l = rest" "s \<le> length l" "nowhite rest" "0 \<notin> set toks"
  shows "peek l s toks = (s, rest \<noteq> [] \<and> hd rest \<in> set toks)"
proof -
  have "(rest \<noteq> [] \<and> hd rest \<noteq> 0 \<and> strchr toks (hd rest) \<noteq> None) \<longleftrightarrow> (rest \<noteq> [] \<and> hd rest \<in> set toks)"
    using strchr_iff [OF assms(4), of "hd rest"] assms(4) by auto
  then show ?thesis using peek_drop [OF assms(1-3), of toks] by simp
qed

lemma follow_nowhite: "follow X rest \<Longrightarrow> X \<subseteq> set symbols \<Longrightarrow> nowhite rest"
  by (auto simp: follow_def nowhite_def symbols_def str_def white_def whitespace_def)

lemma follow_mono: "follow X rest \<Longrightarrow> X \<subseteq> Y \<Longrightarrow> follow Y rest"
  by (auto simp: follow_def)

lemma symbols_set: "set symbols = {60, 124, 62, 38, 59, 40, 41}"
  by (auto simp: symbols_def str_def)

lemma symbol_iff: "symbol c \<longleftrightarrow> c \<in> set symbols"
  unfolding symbol_def by (rule strchr_iff) (simp add: symbols_set)

lemma word_start: "word w \<Longrightarrow> nowhite (spaced w @ rest) \<and> hd (spaced w @ rest) \<notin> set symbols \<and> spaced w \<noteq> []"
  by (cases w) (auto simp: word_def spaced_def nowhite_def wordchar_def symbol_iff)

lemma symbol_start: "c \<in> set symbols \<Longrightarrow> nowhite (spaced (c # v) @ rest)"
  by (auto simp: spaced_def nowhite_def symbols_set white_def whitespace_def)

lemma print_words_start: "\<forall>w \<in> set ws. word w \<Longrightarrow> nowhite rest \<Longrightarrow> nowhite (print_words ws @ rest)"
  using word_start by (cases ws) (auto simp: print_words_def)

lemma print_start: "printable c \<Longrightarrow> nowhite rest \<Longrightarrow> nowhite (print_cmd k c @ rest)"
proof (induction c arbitrary: k rest)
  case (EXEC ws)
  then show ?case by (simp add: print_words_start)
next
  case (REDIR c f m fd)
  then show ?case using symbol_start [of 60] symbol_start [of 62] by (auto simp: redir_tok_def symbols_set)
qed (auto simp: brackets_def symbols_set symbol_start)

lemma redir_tok_cases: "printable (REDIR c f m fd) \<Longrightarrow> redir_tok m fd \<in> {[60], [62], [62, 62]} \<and>
    redircmd (if redir_tok m fd = [62, 62] then 43 else hd (redir_tok m fd)) d w = REDIR d w m fd"
  by (auto simp: redir_tok_def redircmd_def)

subsection \<open>Parsing a printed line\<close>

definition shown :: "byte list \<Rightarrow> span cmd \<Rightarrow> byte list cmd" where
  "shown l = map_cmd (\<lambda>(q, eq). take (eq - q) (drop q l))"

lemma shown_simps [simp]:
  "shown l (EXEC args) = EXEC (map (\<lambda>(q, eq). take (eq - q) (drop q l)) args)"
  "shown l (REDIR c (q, eq) m fd) = REDIR (shown l c) (take (eq - q) (drop q l)) m fd"
  "shown l (PIPE c d) = PIPE (shown l c) (shown l d)" "shown l (LIST c d) = LIST (shown l c) (shown l d)" "shown l (BACK c) = BACK (shown l c)"
  by (simp_all add: shown_def)

lemma take_word: "drop s l = spaced w @ rest \<Longrightarrow> take (length w) (drop s l) = w"
  by (simp add: spaced_def)

lemma parseredirs_none:
  assumes "drop s l = rest" "s \<le> length l" "nowhite rest" "rest = [] \<or> hd rest \<notin> {60, 62}"
  shows "parseredirs l c s = Inr (c, s)"
  using peek_at [OF assms(1-3), of "str ''<>''"] assms(4) by (subst parseredirs.simps) (auto simp: str_def)

lemma parseredirs_one:
  assumes "drop s l = spaced (redir_tok m fd) @ spaced f @ rest" "s \<le> length l" "nowhite rest" "printable (REDIR d f m fd)"
  shows "\<exists>q eq. take (eq - q) (drop q l) = f \<and>
    parseredirs l c s = parseredirs l (REDIR c (q, eq) m fd) (s + length (spaced (redir_tok m fd) @ spaced f))"
proof -
  note tok = redir_tok_cases [OF assms(4), of c]
  have w: "word f" using assms(4) by simp
  have nw: "nowhite (spaced f @ rest)" using word_start [OF w] by blast
  let ?s = "s + length (spaced (redir_tok m fd))"
  have hd: "hd (redir_tok m fd) \<in> {60, 62}" "redir_tok m fd \<noteq> []" using tok [of "(0, 0)"] by auto
  have p: "peek l s (str ''<>'') = (s, True)"
    using peek_at [OF assms(1,2), of "str ''<>''"] hd symbol_start [of "hd (redir_tok m fd)" "tl (redir_tok m fd)"]
    by (cases "redir_tok m fd") (auto simp: symbols_set str_def spaced_def)
  obtain e where g: "gettoken l s = (if redir_tok m fd = [62, 62] then 43 else hd (redir_tok m fd), s, e, ?s)"
    using gettoken_drop_symbol [OF assms(1,2) _ nw] tok by blast
  have d2: "drop ?s l = spaced f @ rest" "?s \<le> length l" using drop_app [OF assms(1)] drop_len [OF assms(1,2)] by auto
  note h = gettoken_drop_word [OF d2 w assms(3)]
  have "parseredirs l c s = parseredirs l (REDIR c (?s, ?s + length f) m fd) (?s + length (spaced f))"
    using tok by (subst parseredirs.simps) (simp add: p g h)
  moreover have "take (?s + length f - ?s) (drop ?s l) = f" using take_word [OF d2(1)] by simp
  ultimately show ?thesis by (intro exI [of _ ?s] exI [of _ "?s + length f"]) (simp add: add.assoc)
qed

lemma exec_loop_stop:
  assumes "drop s l = rest" "s \<le> length l" "follow {124, 41, 38, 59} rest"
  shows "exec_loop l c argc s = Inr (c, s)"
proof -
  have nw: "nowhite rest" using follow_nowhite [OF assms(3)] symbols_set by auto
  note p = peek_at [OF assms(1,2) nw, of "str ''|)&;''"]
  show ?thesis
  proof (cases "rest = []")
    case True
    have "skip_while white l s = s" using skip_white [OF assms(1,2) nw] .
    moreover have "char_at l s = 0" using char_at_drop [OF assms(1)] True by simp
    ultimately show ?thesis using p True by (subst exec_loop.simps) (auto simp: str_def gettoken_def Let_def)
  next
    case False
    then show ?thesis using p assms(3) by (subst exec_loop.simps) (auto simp: str_def follow_def)
  qed
qed

definition after_redirs :: "byte list \<Rightarrow> nat \<Rightarrow> byte list + (span cmd \<times> nat) \<Rightarrow> byte list + (span cmd \<times> nat)" where
  "after_redirs l argc r = (case r of Inl e \<Rightarrow> Inl e | Inr (c, s) \<Rightarrow> exec_loop l c argc s)"

lemma after_redirs_simps [simp]: "after_redirs l argc (Inl e) = Inl e" "after_redirs l argc (Inr (c, s)) = exec_loop l c argc s"
  by (simp_all add: after_redirs_def)

lemma andthen_after_redirs: "andthen (Some r) (\<lambda>c s. Some (exec_loop l c argc s)) = Some (after_redirs l argc r)"
  by (auto simp: andthen_def after_redirs_def split: sum.split)

lemma exec_loop_word:
  assumes "drop s l = spaced w @ rest" "s \<le> length l" "nowhite rest" "word w" "argc + 1 < MAXARGS"
  shows "exec_loop l c argc s = after_redirs l (argc + 1) (parseredirs l (add_arg (s, s + length w) c) (s + length (spaced w)))"
proof -
  note st = word_start [OF assms(4), of rest]
  have "peek l s (str ''|)&;'') = (s, False)"
    using peek_at [OF assms(1,2), of "str ''|)&;''"] st by (auto simp: str_def symbols_set)
  then show ?thesis using gettoken_drop_word [OF assms(1,2,4,3)] assms(5) by (subst exec_loop.simps) (simp add: after_redirs_def split: sum.split)
qed

lemma exec_words:
  assumes "ws \<noteq> []" "drop s l = print_words ws @ rest" "s \<le> length l" "nowhite rest" "\<forall>w \<in> set ws. word w" "argc + length ws < MAXARGS"
  shows "\<exists>args. shown l (EXEC args) = EXEC ws \<and>
    exec_loop l (EXEC as) argc s = after_redirs l (argc + length ws) (parseredirs l (EXEC (as @ args)) (s + length (print_words ws)))"
  using assms
proof (induction ws arbitrary: s argc as)
  case (Cons w ws)
  have d: "drop s l = spaced w @ print_words ws @ rest" using Cons.prems(2) by (simp add: print_words_def)
  have nw: "nowhite (print_words ws @ rest)" using print_words_start Cons.prems(4,5) by simp
  have w: "word w" using Cons.prems(5) by simp
  note step = exec_loop_word [OF d Cons.prems(3) nw w, of argc "EXEC as"]
  let ?a = "(s, s + length w)" and ?s = "s + length (spaced w)"
  have tw: "take (length w) (drop s l) = w" using take_word [OF d] .
  show ?case
  proof (cases "ws = []")
    case True
    then show ?thesis using step Cons.prems(6) tw by (intro exI [of _ "[?a]"]) (simp add: print_words_def)
  next
    case False
    have d2: "drop ?s l = print_words ws @ rest" "?s \<le> length l" using drop_app [OF d] drop_len [OF d Cons.prems(3)] by auto
    obtain v vs where "ws = v # vs" using False by (cases ws) auto
    then have "hd (print_words ws @ rest) \<notin> set symbols" using word_start [of v "print_words vs @ rest"] Cons.prems(5) by (auto simp: print_words_def)
    then have "parseredirs l (EXEC (as @ [?a])) ?s = Inr (EXEC (as @ [?a]), ?s)"
      using parseredirs_none [OF d2 nw] by (auto simp: symbols_set)
    moreover obtain args where args: "shown l (EXEC args) = EXEC ws" "exec_loop l (EXEC (as @ [?a])) (argc + 1) ?s =
        after_redirs l (argc + 1 + length ws) (parseredirs l (EXEC ((as @ [?a]) @ args)) (?s + length (print_words ws)))"
      using Cons.IH [OF False d2(1,2) Cons.prems(4), of "argc + 1" "as @ [?a]"] Cons.prems(5,6) by auto
    ultimately show ?thesis using step Cons.prems(6) tw
      by (intro exI [of _ "?a # args"]) (simp add: print_words_def add.assoc)
  qed
qed simp

text \<open>What parsing the text of \<open>c\<close> at a level of the grammar gives, in the middle of a line.\<close>

definition parses3 :: "byte list \<Rightarrow> byte list cmd \<Rightarrow> bool" where
  "parses3 l c \<longleftrightarrow> (\<forall>s rest. drop s l = print_cmd 3 c @ rest \<longrightarrow> s \<le> length l \<longrightarrow> follow {60, 62, 124, 41, 38, 59} rest \<longrightarrow>
     (\<exists>n t tail. shown l t = c \<and> (\<forall>t' s' rest'. drop s' l = rest' \<longrightarrow> s' \<le> length l \<longrightarrow> follow {124, 41, 38, 59} rest' \<longrightarrow> tail (Inr (t', s')) = Inr (t', s')) \<and>
        parseexec n l s = Some (tail (parseredirs l t (s + length (print_cmd 3 c))))))"

definition parses2 :: "byte list \<Rightarrow> byte list cmd \<Rightarrow> bool" where
  "parses2 l c \<longleftrightarrow> (\<forall>s rest. drop s l = print_cmd 2 c @ rest \<longrightarrow> s \<le> length l \<longrightarrow> follow {41, 38, 59} rest \<longrightarrow>
     (\<exists>n t. shown l t = c \<and> parsepipe n l s = Some (Inr (t, s + length (print_cmd 2 c)))))"

definition parses1 :: "byte list \<Rightarrow> byte list cmd \<Rightarrow> bool" where
  "parses1 l c \<longleftrightarrow> (\<forall>s rest. drop s l = print_cmd 1 c @ rest \<longrightarrow> s \<le> length l \<longrightarrow> follow {41, 38, 59} rest \<longrightarrow>
     (\<exists>n t0 s0 t. shown l t = c \<and> parsepipe n l s = Some (Inr (t0, s0)) \<and> back_loop l t0 s0 = back_loop l t (s + length (print_cmd 1 c))))"

definition parses0 :: "byte list \<Rightarrow> byte list cmd \<Rightarrow> bool" where
  "parses0 l c \<longleftrightarrow> (\<forall>s rest. drop s l = print_cmd 0 c @ rest \<longrightarrow> s \<le> length l \<longrightarrow> follow {41} rest \<longrightarrow>
     (\<exists>n t. shown l t = c \<and> parseline n l s = Some (Inr (t, s + length (print_cmd 0 c)))))"

lemma parses3_plain:
  assumes "parses3 l c" "drop s l = print_cmd 3 c @ rest" "s \<le> length l" "follow {124, 41, 38, 59} rest"
  shows "\<exists>n t. shown l t = c \<and> parseexec n l s = Some (Inr (t, s + length (print_cmd 3 c)))"
proof -
  have f: "follow {60, 62, 124, 41, 38, 59} rest" using follow_mono [OF assms(4)] by auto
  have d: "drop (s + length (print_cmd 3 c)) l = rest" "s + length (print_cmd 3 c) \<le> length l"
    using drop_app [OF assms(2)] drop_len [OF assms(2,3)] by auto
  have "nowhite rest" using follow_nowhite [OF assms(4)] symbols_set by auto
  then have "parseredirs l t (s + length (print_cmd 3 c)) = Inr (t, s + length (print_cmd 3 c))" for t
    using parseredirs_none [OF d] assms(4) by (auto simp: follow_def)
  then show ?thesis using assms(1) [unfolded parses3_def, rule_format, OF assms(2,3) f] d assms(4) by fastforce
qed

lemma parses3_parses2:
  assumes "parses3 l c" "print_cmd 2 c = print_cmd 3 c"
  shows "parses2 l c"
  unfolding parses2_def
proof (intro allI impI)
  fix s rest assume a: "drop s l = print_cmd 2 c @ rest" "s \<le> length l" "follow {41, 38, 59} rest"
  then obtain n t where t: "shown l t = c" "parseexec n l s = Some (Inr (t, s + length (print_cmd 3 c)))"
    using parses3_plain [OF assms(1), of s rest] assms(2) follow_mono [OF a(3), of "{124, 41, 38, 59}"] by auto
  have d: "drop (s + length (print_cmd 2 c)) l = rest" "s + length (print_cmd 2 c) \<le> length l" using drop_app [OF a(1)] drop_len [OF a(1,2)] by auto
  have "peek l (s + length (print_cmd 2 c)) (str ''|'') = (s + length (print_cmd 2 c), False)"
    using peek_at [OF d, of "str ''|''"] follow_nowhite [OF a(3)] a(3) by (auto simp: symbols_set one_char follow_def)
  then have "parsepipe (Suc n) l s = Some (Inr (t, s + length (print_cmd 2 c)))" using t(2) assms(2) by simp
  then show "\<exists>n t. shown l t = c \<and> parsepipe n l s = Some (Inr (t, s + length (print_cmd 2 c)))" using t(1) by blast
qed

lemma parses2_parses1:
  assumes "parses2 l c" "print_cmd 1 c = print_cmd 2 c"
  shows "parses1 l c"
  using assms unfolding parses1_def parses2_def by fastforce

lemma back_loop_stop:
  assumes "drop s l = rest" "s \<le> length l" "follow {41, 59} rest"
  shows "back_loop l c s = (c, s)"
proof -
  have "nowhite rest" using follow_nowhite [OF assms(3)] symbols_set by auto
  then show ?thesis using peek_at [OF assms(1,2), of "str ''&''"] assms(3) by (subst back_loop.simps) (auto simp: one_char follow_def)
qed

lemma parses1_parses0:
  assumes "parses1 l c" "print_cmd 0 c = print_cmd 1 c"
  shows "parses0 l c"
  unfolding parses0_def
proof (intro allI impI)
  fix s rest assume a: "drop s l = print_cmd 0 c @ rest" "s \<le> length l" "follow {41} rest"
  have f: "follow {41, 38, 59} rest" "follow {41, 59} rest" using follow_mono [OF a(3)] by auto
  have a1: "drop s l = print_cmd 1 c @ rest" using a(1) assms(2) by simp
  from assms(1) [unfolded parses1_def, rule_format, OF a1 a(2) f(1)]
  obtain n t0 s0 t where t: "shown l t = c" "parsepipe n l s = Some (Inr (t0, s0))" "back_loop l t0 s0 = back_loop l t (s + length (print_cmd 1 c))" by blast
  have d: "drop (s + length (print_cmd 0 c)) l = rest" "s + length (print_cmd 0 c) \<le> length l" using drop_app [OF a(1)] drop_len [OF a(1,2)] by auto
  have b: "back_loop l t0 s0 = (t, s + length (print_cmd 0 c))" using t(3) back_loop_stop [OF d f(2)] assms(2) by simp
  have "peek l (s + length (print_cmd 0 c)) (str '';'') = (s + length (print_cmd 0 c), False)"
    using peek_at [OF d, of "str '';''"] follow_nowhite [OF a(3)] a(3) by (auto simp: symbols_set one_char follow_def)
  then have "parseline (Suc n) l s = Some (Inr (t, s + length (print_cmd 0 c)))" using t(2) b by simp
  then show "\<exists>n t. shown l t = c \<and> parseline n l s = Some (Inr (t, s + length (print_cmd 0 c)))" using t(1) by blast
qed

lemma parses0_parses3:
  assumes "parses0 l c" "print_cmd 3 c = spaced [40] @ print_cmd 0 c @ spaced [41]" "printable c"
  shows "parses3 l c"
  unfolding parses3_def
proof (intro allI impI)
  fix s rest assume a: "drop s l = print_cmd 3 c @ rest" "s \<le> length l" "follow {60, 62, 124, 41, 38, 59} rest"
  let ?X = "print_cmd 0 c @ spaced [41] @ rest"
  have nr: "nowhite rest" using follow_nowhite [OF a(3)] symbols_set by auto
  have n41: "nowhite (spaced [41] @ rest)" using symbol_start [of 41 "[]"] symbols_set by auto
  have nX: "nowhite ?X" using print_start [OF assms(3) n41] .
  have d: "drop s l = spaced [40] @ ?X" using a(1) assms(2) by simp
  let ?s2 = "s + length (spaced [40])" let ?s3 = "?s2 + length (print_cmd 0 c)" let ?s5 = "?s3 + length (spaced [41])"
  have d2: "drop ?s2 l = print_cmd 0 c @ spaced [41] @ rest" "?s2 \<le> length l" using drop_app [OF d] drop_len [OF d a(2)] by auto
  have d3: "drop ?s3 l = spaced [41] @ rest" "?s3 \<le> length l" using drop_app [OF d2(1)] drop_len [OF d2] by auto
  have p: "peek l s (str ''('') = (s, True)" using peek_at [OF d a(2), of "str ''(''"] symbol_start [of 40 "[]"] by (auto simp: one_char symbols_set spaced_def)
  obtain e where g: "gettoken l s = (40, s, e, ?s2)" using gettoken_drop_symbol [OF d a(2) _ nX] by auto
  have f41: "follow {41} (spaced [41] @ rest)" by (simp add: follow_def spaced_def)
  obtain n t where t: "shown l t = c" "parseline n l ?s2 = Some (Inr (t, ?s3))"
    using assms(1) [unfolded parses0_def, rule_format, OF d2 f41] by blast
  have p3: "peek l ?s3 (str '')'') = (?s3, True)" using peek_at [OF d3 n41, of "str '')''"] by (auto simp: one_char spaced_def)
  obtain e3 where g3: "gettoken l ?s3 = (41, ?s3, e3, ?s5)" using gettoken_drop_symbol [OF d3 _ nr] by auto
  have "parseexec (Suc (Suc n)) l s = Some (id (parseredirs l t (s + length (print_cmd 3 c))))"
    using p g t(2) p3 g3 assms(2) by (simp add: add.assoc)
  then show "\<exists>n t tail. shown l t = c \<and> (\<forall>t' s' rest'. drop s' l = rest' \<longrightarrow> s' \<le> length l \<longrightarrow> follow {124, 41, 38, 59} rest' \<longrightarrow> tail (Inr (t', s')) = Inr (t', s')) \<and>
      parseexec n l s = Some (tail (parseredirs l t (s + length (print_cmd 3 c))))"
    using t(1) by (intro exI [of _ "Suc (Suc n)"] exI [of _ t] exI [of _ id]) simp
qed

lemma parses3_EXEC:
  assumes "printable (EXEC ws)"
  shows "parses3 l (EXEC ws)"
  unfolding parses3_def
proof (intro allI impI)
  fix s rest assume a: "drop s l = print_cmd 3 (EXEC ws) @ rest" "s \<le> length l" "follow {60, 62, 124, 41, 38, 59} rest"
  have nr: "nowhite rest" using follow_nowhite [OF a(3)] symbols_set by auto
  have w: "\<forall>w \<in> set ws. word w" "length ws < 10" using assms by auto
  have d: "drop s l = print_words ws @ rest" using a(1) by simp
  have nw: "nowhite (print_words ws @ rest)" using print_words_start [OF w(1) nr] .
  have tail: "\<forall>t' s' rest'. drop s' l = rest' \<longrightarrow> s' \<le> length l \<longrightarrow> follow {124, 41, 38, 59} rest' \<longrightarrow> after_redirs l argc (Inr (t', s')) = Inr (t', s')" for argc
    using exec_loop_stop by auto
  have "\<exists>t. shown l t = EXEC ws \<and> parseexec 1 l s = Some (after_redirs l (length ws) (parseredirs l t (s + length (print_words ws))))"
  proof (cases "ws = []")
    case True
    have "peek l s (str ''('') = (s, False)" using peek_at [OF d a(2) nw, of "str ''(''"] a(3) True by (auto simp: one_char print_words_def follow_def)
    then show ?thesis using True by (intro exI [of _ "EXEC []"]) (simp add: andthen_after_redirs print_words_def)
  next
    case False
    then obtain v vs where v: "ws = v # vs" by (cases ws) auto
    have hd: "hd (print_words ws @ rest) \<notin> set symbols" using word_start [of v "print_words vs @ rest"] w(1) by (auto simp: print_words_def v)
    have "peek l s (str ''('') = (s, False)" using peek_at [OF d a(2) nw, of "str ''(''"] hd by (auto simp: one_char symbols_set)
    moreover have "parseredirs l (EXEC []) s = Inr (EXEC [], s)" using parseredirs_none [OF d a(2) nw] hd by (auto simp: symbols_set)
    moreover obtain args where "shown l (EXEC args) = EXEC ws"
      "exec_loop l (EXEC []) 0 s = after_redirs l (length ws) (parseredirs l (EXEC args) (s + length (print_words ws)))"
      using exec_words [OF False d a(2) nr w(1), of 0 "[]"] w(2) by auto
    ultimately show ?thesis by (intro exI [of _ "EXEC args"]) simp
  qed
  then show "\<exists>n t tail. shown l t = EXEC ws \<and> (\<forall>t' s' rest'. drop s' l = rest' \<longrightarrow> s' \<le> length l \<longrightarrow> follow {124, 41, 38, 59} rest' \<longrightarrow> tail (Inr (t', s')) = Inr (t', s')) \<and>
      parseexec n l s = Some (tail (parseredirs l t (s + length (print_cmd 3 (EXEC ws)))))"
    using tail by (metis print_cmd.simps(1))
qed

lemma parses3_REDIR:
  assumes "parses3 l c" "printable (REDIR c f m fd)"
  shows "parses3 l (REDIR c f m fd)"
  unfolding parses3_def
proof (intro allI impI)
  fix s rest assume a: "drop s l = print_cmd 3 (REDIR c f m fd) @ rest" "s \<le> length l" "follow {60, 62, 124, 41, 38, 59} rest"
  let ?R = "spaced (redir_tok m fd) @ spaced f @ rest" and ?s = "s + length (print_cmd 3 c)"
  have d: "drop s l = print_cmd 3 c @ ?R" using a(1) by simp
  have f: "follow {60, 62, 124, 41, 38, 59} ?R" using redir_tok_cases [OF assms(2), of "EXEC []" f] by (auto simp: follow_def spaced_def)
  have nr: "nowhite rest" using follow_nowhite [OF a(3)] symbols_set by auto
  obtain n t tail where t: "shown l t = c" "\<forall>t' s' rest'. drop s' l = rest' \<longrightarrow> s' \<le> length l \<longrightarrow> follow {124, 41, 38, 59} rest' \<longrightarrow> tail (Inr (t', s')) = Inr (t', s')"
    "parseexec n l s = Some (tail (parseredirs l t ?s))" using assms(1) [unfolded parses3_def, rule_format, OF d a(2) f] by blast
  have d2: "drop ?s l = ?R" "?s \<le> length l" using drop_app [OF d] drop_len [OF d a(2)] by auto
  obtain q eq where q: "take (eq - q) (drop q l) = f" "parseredirs l t ?s = parseredirs l (REDIR t (q, eq) m fd) (?s + length (spaced (redir_tok m fd) @ spaced f))"
    using parseredirs_one [OF d2 nr assms(2)] by blast
  have "parseexec n l s = Some (tail (parseredirs l (REDIR t (q, eq) m fd) (s + length (print_cmd 3 (REDIR c f m fd)))))"
    using t(3) q(2) by (simp add: add.assoc)
  moreover have "shown l (REDIR t (q, eq) m fd) = REDIR c f m fd" using t(1) q(1) by simp
  ultimately show "\<exists>n t tail. shown l t = REDIR c f m fd \<and> (\<forall>t' s' rest'. drop s' l = rest' \<longrightarrow> s' \<le> length l \<longrightarrow> follow {124, 41, 38, 59} rest' \<longrightarrow> tail (Inr (t', s')) = Inr (t', s')) \<and>
      parseexec n l s = Some (tail (parseredirs l t (s + length (print_cmd 3 (REDIR c f m fd)))))"
    using t(2) by blast
qed

lemma parses2_PIPE:
  assumes "parses3 l c" "parses2 l d" "printable d"
  shows "parses2 l (PIPE c d)"
  unfolding parses2_def
proof (intro allI impI)
  fix s rest assume a: "drop s l = print_cmd 2 (PIPE c d) @ rest" "s \<le> length l" "follow {41, 38, 59} rest"
  let ?s = "s + length (print_cmd 3 c)" let ?s3 = "?s + length (spaced [124])"
  have d: "drop s l = print_cmd 3 c @ spaced [124] @ print_cmd 2 d @ rest" using a(1) by (simp add: brackets_def)
  have nr: "nowhite (print_cmd 2 d @ rest)" using print_start [OF assms(3)] follow_nowhite [OF a(3)] symbols_set by auto
  have "follow {124, 41, 38, 59} (spaced [124] @ print_cmd 2 d @ rest)" by (simp add: follow_def spaced_def)
  then obtain n1 t1 where t1: "shown l t1 = c" "parseexec n1 l s = Some (Inr (t1, ?s))" using parses3_plain [OF assms(1) d a(2)] by blast
  have d2: "drop ?s l = spaced [124] @ print_cmd 2 d @ rest" "?s \<le> length l" using drop_app [OF d] drop_len [OF d a(2)] by auto
  have d3: "drop ?s3 l = print_cmd 2 d @ rest" "?s3 \<le> length l" using drop_app [OF d2(1)] drop_len [OF d2] by auto
  have p: "peek l ?s (str ''|'') = (?s, True)" using peek_at [OF d2, of "str ''|''"] symbol_start [of 124 "[]"] by (auto simp: one_char symbols_set spaced_def)
  obtain e where g: "gettoken l ?s = (124, ?s, e, ?s3)" using gettoken_drop_symbol [OF d2 _ nr] by auto
  obtain n2 t2 where t2: "shown l t2 = d" "parsepipe n2 l ?s3 = Some (Inr (t2, ?s3 + length (print_cmd 2 d)))"
    using assms(2) [unfolded parses2_def, rule_format, OF d3 a(3)] by blast
  have "parsepipe (Suc (max n1 n2)) l s = Some (Inr (PIPE t1 t2, s + length (print_cmd 2 (PIPE c d))))"
    using parse_enough(3) [OF t1(2), of "max n1 n2"] parse_enough(2) [OF t2(2), of "max n1 n2"] p g by (simp add: brackets_def add.assoc)
  then show "\<exists>n t. shown l t = PIPE c d \<and> parsepipe n l s = Some (Inr (t, s + length (print_cmd 2 (PIPE c d))))"
    using t1(1) t2(1) by (intro exI [of _ "Suc (max n1 n2)"] exI [of _ "PIPE t1 t2"]) simp
qed

lemma parses1_BACK:
  assumes "parses1 l c"
  shows "parses1 l (BACK c)"
  unfolding parses1_def
proof (intro allI impI)
  fix s rest assume a: "drop s l = print_cmd 1 (BACK c) @ rest" "s \<le> length l" "follow {41, 38, 59} rest"
  let ?s = "s + length (print_cmd 1 c)" let ?s2 = "?s + length (spaced [38])"
  have d: "drop s l = print_cmd 1 c @ spaced [38] @ rest" using a(1) by (simp add: brackets_def)
  have nr: "nowhite rest" using follow_nowhite [OF a(3)] symbols_set by auto
  have "follow {41, 38, 59} (spaced [38] @ rest)" by (simp add: follow_def spaced_def)
  then obtain n t0 s0 t where t: "shown l t = c" "parsepipe n l s = Some (Inr (t0, s0))" "back_loop l t0 s0 = back_loop l t ?s"
    using assms [unfolded parses1_def, rule_format, OF d a(2)] by blast
  have d2: "drop ?s l = spaced [38] @ rest" "?s \<le> length l" using drop_app [OF d] drop_len [OF d a(2)] by auto
  have p: "peek l ?s (str ''&'') = (?s, True)" using peek_at [OF d2, of "str ''&''"] symbol_start [of 38 "[]"] by (auto simp: one_char symbols_set spaced_def)
  obtain e where g: "gettoken l ?s = (38, ?s, e, ?s2)" using gettoken_drop_symbol [OF d2 _ nr] by auto
  have "back_loop l t0 s0 = back_loop l (BACK t) (s + length (print_cmd 1 (BACK c)))"
  proof -
    have "back_loop l t ?s = back_loop l (BACK t) ?s2" by (subst back_loop.simps) (simp only: p g prod.case if_True)
    then show ?thesis using t(3) by (simp add: brackets_def add.assoc)
  qed
  then show "\<exists>n t0 s0 t. shown l t = BACK c \<and> parsepipe n l s = Some (Inr (t0, s0)) \<and> back_loop l t0 s0 = back_loop l t (s + length (print_cmd 1 (BACK c)))"
    using t(1,2) by (intro exI [of _ n] exI [of _ t0] exI [of _ s0] exI [of _ "BACK t"]) simp
qed

lemma parses0_LIST:
  assumes "parses1 l c" "parses0 l d" "printable d"
  shows "parses0 l (LIST c d)"
  unfolding parses0_def
proof (intro allI impI)
  fix s rest assume a: "drop s l = print_cmd 0 (LIST c d) @ rest" "s \<le> length l" "follow {41} rest"
  let ?s = "s + length (print_cmd 1 c)" let ?s3 = "?s + length (spaced [59])"
  have d: "drop s l = print_cmd 1 c @ spaced [59] @ print_cmd 0 d @ rest" using a(1) by (simp add: brackets_def)
  have nr: "nowhite (print_cmd 0 d @ rest)" using print_start [OF assms(3)] follow_nowhite [OF a(3)] symbols_set by auto
  have f: "follow {41, 38, 59} (spaced [59] @ print_cmd 0 d @ rest)" "follow {41, 59} (spaced [59] @ print_cmd 0 d @ rest)" by (simp_all add: follow_def spaced_def)
  obtain n1 t0 s0 t1 where t1: "shown l t1 = c" "parsepipe n1 l s = Some (Inr (t0, s0))" "back_loop l t0 s0 = back_loop l t1 ?s"
    using assms(1) [unfolded parses1_def, rule_format, OF d a(2) f(1)] by blast
  have d2: "drop ?s l = spaced [59] @ print_cmd 0 d @ rest" "?s \<le> length l" using drop_app [OF d] drop_len [OF d a(2)] by auto
  have d3: "drop ?s3 l = print_cmd 0 d @ rest" "?s3 \<le> length l" using drop_app [OF d2(1)] drop_len [OF d2] by auto
  have b: "back_loop l t0 s0 = (t1, ?s)" using t1(3) back_loop_stop [OF d2 f(2)] by simp
  have p: "peek l ?s (str '';'') = (?s, True)" using peek_at [OF d2, of "str '';''"] symbol_start [of 59 "[]"] by (auto simp: one_char symbols_set spaced_def)
  obtain e where g: "gettoken l ?s = (59, ?s, e, ?s3)" using gettoken_drop_symbol [OF d2 _ nr] by auto
  obtain n2 t2 where t2: "shown l t2 = d" "parseline n2 l ?s3 = Some (Inr (t2, ?s3 + length (print_cmd 0 d)))"
    using assms(2) [unfolded parses0_def, rule_format, OF d3 a(3)] by blast
  have "parseline (Suc (max n1 n2)) l s = Some (Inr (LIST t1 t2, s + length (print_cmd 0 (LIST c d))))"
    using parse_enough(2) [OF t1(2), of "max n1 n2"] parse_enough(1) [OF t2(2), of "max n1 n2"] b p g by (simp add: brackets_def add.assoc)
  then show "\<exists>n t. shown l t = LIST c d \<and> parseline n l s = Some (Inr (t, s + length (print_cmd 0 (LIST c d))))"
    using t1(1) t2(1) by (intro exI [of _ "Suc (max n1 n2)"] exI [of _ "LIST t1 t2"]) simp
qed

lemma parses_all: "printable c \<Longrightarrow> parses3 l c \<and> parses2 l c \<and> parses1 l c \<and> parses0 l c"
proof (induction c)
  case (EXEC ws)
  then have "parses3 l (EXEC ws)" by (rule parses3_EXEC)
  then show ?case using parses3_parses2 parses2_parses1 parses1_parses0 by force
next
  case (REDIR c f m fd)
  then have "parses3 l (REDIR c f m fd)" by (intro parses3_REDIR) auto
  then show ?case using parses3_parses2 parses2_parses1 parses1_parses0 by force
next
  case (PIPE c d)
  then have p2: "parses2 l (PIPE c d)" by (intro parses2_PIPE) auto
  then have p1: "parses1 l (PIPE c d)" by (rule parses2_parses1) (simp add: brackets_def)
  then have p0: "parses0 l (PIPE c d)" by (rule parses1_parses0) (simp add: brackets_def)
  then have "parses3 l (PIPE c d)" using PIPE.prems by (rule_tac parses0_parses3) (auto simp: brackets_def)
  then show ?case using p0 p1 p2 by blast
next
  case (LIST c d)
  then have p0: "parses0 l (LIST c d)" by (intro parses0_LIST) auto
  then have p3: "parses3 l (LIST c d)" using LIST.prems by (rule_tac parses0_parses3) (auto simp: brackets_def)
  then have p2: "parses2 l (LIST c d)" by (rule parses3_parses2) (simp add: brackets_def)
  then have "parses1 l (LIST c d)" by (rule parses2_parses1) (simp add: brackets_def)
  then show ?case using p0 p2 p3 by blast
next
  case (BACK c)
  then have p1: "parses1 l (BACK c)" by (intro parses1_BACK) auto
  then have p0: "parses0 l (BACK c)" by (rule parses1_parses0) (simp add: brackets_def)
  then have p3: "parses3 l (BACK c)" using BACK.prems by (rule_tac parses0_parses3) (auto simp: brackets_def)
  then have "parses2 l (BACK c)" by (rule parses3_parses2) (simp add: brackets_def)
  then show ?case using p0 p1 p3 by blast
qed

lemma print_cmd_nonzero: "printable c \<Longrightarrow> 0 \<notin> set (print_cmd k c)"
  by (induction c arbitrary: k) (auto simp: print_words_def spaced_def brackets_def redir_tok_def word_def)

subsection \<open>Properties\<close>

text \<open>
  C27: the shell's parser ends on every line.  \<^verbatim>\<open>parsecmd\<close> returns a command or reports a syntax error, and the recursion of the parsing
  functions is never deeper than four calls for each character of the line and four more; more depth does not change the result.
\<close>

theorem parsecmd_terminates:
  "\<exists>r. parsecmd l = Some r \<and> (\<exists>q. \<forall>n \<ge> 4 * length l + 4. parseline n l 0 = Some q)"
proof -
  obtain q where q: "parseline (4 * length l + 4) l 0 = Some q" using parse_total [of l 0 "4 * length l + 4"] by (auto simp: advances_def)
  then have "\<forall>n \<ge> 4 * length l + 4. parseline n l 0 = Some q" using parse_enough(1) by blast
  moreover have "\<exists>r. parsecmd l = Some r" unfolding parsecmd_def q by (auto split: sum.split prod.split)
  ultimately show ?thesis by blast
qed

theorem parsecmd_terminates_witness:
  "\<exists>q. parseline 100 (str ''a | ( b'') 0 = Some q \<and> parseline 1000 (str ''a | ( b'') 0 = Some q"
proof -
  have "length (str ''a | ( b'') = 7" by (simp add: str_def)
  then obtain q where "\<forall>n \<ge> 32. parseline n (str ''a | ( b'') 0 = Some q" using parsecmd_terminates [of "str ''a | ( b''"] by auto
  then have "parseline 100 (str ''a | ( b'') 0 = Some q" "parseline 1000 (str ''a | ( b'') 0 = Some q" by (simp_all del: parseline.simps)
  then show ?thesis by blast
qed

text \<open>
  C12: what the shell reads is what was written: a command, written with a blank behind every token and brackets where they are needed,
  is read back as the same command.  The strings that \<^verbatim>\<open>runcmd\<close> finds at the pointers of the tree, after \<^verbatim>\<open>nulterminate\<close> has overwritten the
  characters behind the words, are the words of the command.
\<close>

theorem shell_reads_what_is_written:
  assumes "printable c"
  shows "parsed (print_cmd 0 c) = Some (Inr c)"
proof -
  let ?l = "print_cmd 0 c"
  have d: "drop 0 ?l = print_cmd 0 c @ []" by simp
  obtain n t where t: "shown ?l t = c" "parseline n ?l 0 = Some (Inr (t, 0 + length ?l))"
    using parses_all [OF assms, of ?l] d unfolding parses0_def by (metis (no_types) follow_def le0)
  obtain q where "\<forall>n \<ge> 4 * length ?l + 4. parseline n ?l 0 = Some q"
  proof -
    obtain q where "parseline (4 * length ?l + 4) ?l 0 = Some q" using parse_total [of ?l 0 "4 * length ?l + 4"] by (auto simp: advances_def)
    then show thesis using that parse_enough(1) by blast
  qed
  then have "parseline (4 * length ?l + 4) ?l 0 = Some (Inr (t, length ?l))"
    using parse_enough(1) [OF t(2), of "max n (4 * length ?l + 4)"] by (metis add_0 max.cobounded1 max.cobounded2 order_refl)
  moreover have "peek ?l (length ?l) [] = (length ?l, False)" using peek_at [of "length ?l" ?l "[]" "[]"] by (simp add: nowhite_def)
  ultimately have pc: "parsecmd ?l = Some (Inr t)" by (simp add: parsecmd_def)
  have "cstr_at (nulterminate t (?l @ [0])) q = take (eq - q) (drop q ?l)" if "(q, eq) \<in> set_cmd t" for q eq
    using nulterminate_word [OF print_cmd_nonzero [OF assms] _ that] parsecmd_words [OF pc] by blast
  then have "map_cmd (\<lambda>(q, eq). cstr_at (nulterminate t (?l @ [0])) q) t = shown ?l t"
    unfolding shown_def by (intro cmd.map_cong) auto
  then show ?thesis using t(1) by (simp add: parsed_def pc)
qed

theorem shell_reads_what_is_written_witness:
  "parsed (str ''( ls | wc ; echo a ) > f & '') = Some (Inr (BACK (REDIR (LIST (PIPE (EXEC [str ''ls'']) (EXEC [str ''wc'']))
     (EXEC [str ''echo'', str ''a''])) (str ''f'') 0x601 1)))"
proof -
  let ?c = "BACK (REDIR (LIST (PIPE (EXEC [str ''ls'']) (EXEC [str ''wc''])) (EXEC [str ''echo'', str ''a''])) (str ''f'') 0x601 1)"
  have "printable ?c" by (simp add: word_def wordchar_def white_def whitespace_def symbol_def symbols_def str_def)
  moreover have "print_cmd 0 ?c = str ''( ls | wc ; echo a ) > f & ''"
    by (simp add: print_words_def spaced_def brackets_def redir_tok_def str_def)
  ultimately show ?thesis using shell_reads_what_is_written [of ?c] by simp
qed

end
