(* ===== verification/Shell_Run.thy ===== *)
theory Shell_Run
  imports Shell_Props
begin

section \<open>Running commands\<close>

text \<open>
  The shell gives every program that it runs exactly the descriptors 0, 1 and 2, and the programs of a pipeline the two
  ends of one pipe.
\<close>

subsection \<open>Descriptors of the programs that run\<close>

text \<open>The tables of the programs that a process and its children run.\<close>

primrec tables :: "event \<Rightarrow> fdtab list" where
  "tables (Exec args t) = [t]"
| "tables (Fork es) = concat (map tables es)"
| "tables Wait = []"
| "tables (Chdir d) = []"
| "tables (Message m) = []"
| "tables (Exit n) = []"

text \<open>A table in which exactly the descriptors 0, 1 and 2 are open.\<close>

definition std :: "fdtab \<Rightarrow> bool" where
  "std t \<longleftrightarrow> length t = 16 \<and> (\<forall>fd < 16. t ! fd \<noteq> None \<longleftrightarrow> fd < 3)"

lemma std_update: "std t \<Longrightarrow> fd < 3 \<Longrightarrow> std (t[fd := Some x])"
  by (auto simp: std_def nth_list_update)

lemma fd_new_SomeI:
  "fd < length t \<Longrightarrow> t ! fd = None \<Longrightarrow> (\<And>i. i < fd \<Longrightarrow> t ! i \<noteq> None) \<Longrightarrow> fd_new x t = Some (fd, t[fd := Some x])"
  by (simp add: fd_new_def find_index_SomeI)

lemma redir_std: "std t \<Longrightarrow> fd < 3 \<Longrightarrow> fd_new x (fd_close fd t) = Some (fd, t[fd := Some x])"
  by (subst fd_new_SomeI) (auto simp: fd_close_def std_def nth_list_update)

lemma runcmd_PIPE_std:
  assumes t: "std t"
  shows "runcmd (PIPE l r) env pos t =
    (if \<not> can_pipe env pos then sh_panic ''pipe''
     else if \<not> can_fork env (pos @ [0]) then sh_panic ''fork''
     else Fork (runcmd l env (pos @ [0]) (t[1 := Some (PipeWr pos)])) #
       (if \<not> can_fork env (pos @ [1]) then sh_panic ''fork''
        else [Fork (runcmd r env (pos @ [1]) (t[0 := Some (PipeRd pos)])), Wait, Wait, Exit 0]))"
proof -
  have op: "t ! fd \<noteq> None \<longleftrightarrow> fd < 3" if "fd < 16" for fd using t that by (auto simp: std_def)
  let ?t0 = "t[3 := Some (PipeRd pos)]" let ?t1 = "?t0[4 := Some (PipeWr pos)]"
  have l16: "length t = 16" using t by (simp add: std_def)
  have last: "t ! 3 = None" "t ! 4 = None" using op [of 3] op [of 4] by auto
  have low: "t ! fd \<noteq> None" if "fd < 3" for fd using op [of fd] that by auto
  have n0: "fd_new (PipeRd pos) t = Some (3, ?t0)" by (rule fd_new_SomeI) (use l16 last low in simp_all)
  have n1: "fd_new (PipeWr pos) ?t0 = Some (4, ?t1)"
  proof (rule fd_new_SomeI)
    show "?t0 ! i \<noteq> None" if "i < 4" for i using that l16 low [of i] by (cases "i = 3") simp_all
  qed (use l16 last in simp_all)
  have dup: "fd_dup p (fd_close fd ?t1) = ?t1[fd := Some x]" if "fd < 3" "3 \<le> p" "p < 16" "?t1 ! p = Some x" for p fd x
  proof -
    have "fd_new x (fd_close fd ?t1) = Some (fd, (fd_close fd ?t1)[fd := Some x])"
    proof (rule fd_new_SomeI)
      show "fd_close fd ?t1 ! i \<noteq> None" if "i < fd" for i using that \<open>fd < 3\<close> low [of i] by (simp add: fd_close_def)
    qed (use that l16 in \<open>simp_all add: fd_close_def\<close>)
    moreover have "fd_close fd ?t1 ! p = Some x" "p < length (fd_close fd ?t1)" using that l16 by (simp_all add: fd_close_def)
    ultimately show ?thesis by (simp add: fd_dup_def) (simp add: fd_close_def)
  qed
  have undo: "fd_close 4 (fd_close 3 (?t1[fd := Some x])) = t[fd := Some x]" if "fd < 3" for fd x
  proof (rule nth_equalityI)
    show "fd_close 4 (fd_close 3 (?t1[fd := Some x])) ! i = t[fd := Some x] ! i" if "i < length (fd_close 4 (fd_close 3 (?t1[fd := Some x])))" for i
      using that \<open>fd < 3\<close> last l16 by (cases "i = 3"; cases "i = 4"; cases "i = fd") (simp_all add: fd_close_def)
  qed (simp add: fd_close_def)
  have "?t1 ! 3 = Some (PipeRd pos)" "?t1 ! 4 = Some (PipeWr pos)" using l16 by simp_all
  then have "fd_dup 4 (fd_close 1 ?t1) = ?t1[1 := Some (PipeWr pos)]" "fd_dup 3 (fd_close 0 ?t1) = ?t1[0 := Some (PipeRd pos)]"
    using dup [of 1 4] dup [of 0 3] by simp_all
  then show ?thesis using n0 n1 undo [of 1] undo [of 0] by simp
qed

definition all_std :: "event list \<Rightarrow> bool" where
  "all_std es \<longleftrightarrow> (\<forall>e \<in> set es. \<forall>u \<in> set (tables e). std u)"

lemma all_std_simps [simp]:
  "all_std []" "all_std (es @ fs) \<longleftrightarrow> all_std es \<and> all_std fs" "all_std (Exec args t # es) \<longleftrightarrow> std t \<and> all_std es"
  "all_std (Fork fs # es) \<longleftrightarrow> all_std fs \<and> all_std es" "all_std (Wait # es) \<longleftrightarrow> all_std es" "all_std (Chdir d # es) \<longleftrightarrow> all_std es"
  "all_std (Message m # es) \<longleftrightarrow> all_std es" "all_std (Exit n # es) \<longleftrightarrow> all_std es" "all_std (sh_panic e)"
  by (auto simp: all_std_def sh_panic_def)

lemma runcmd_std: "std t \<Longrightarrow> fds_ok c \<Longrightarrow> all_std (runcmd c env pos t)"
proof (induction c arbitrary: pos t)
  case (EXEC ws)
  then show ?case by (cases ws) simp_all
next
  case (REDIR c f m fd)
  then have "fd < 3" by simp
  then show ?case using REDIR redir_std [OF REDIR.prems(1), of fd "Opened f m"] std_update [OF REDIR.prems(1), of fd] by simp
next
  case (PIPE l r)
  have "std (t[1 := Some (PipeWr pos)])" "std (t[0 := Some (PipeRd pos)])" using std_update [OF PIPE.prems(1)] by simp_all
  then show ?case using PIPE unfolding runcmd_PIPE_std [OF PIPE.prems(1)] by simp
qed simp_all

lemma parsed_fds: "parsed l = Some (Inr c) \<Longrightarrow> fds_ok c"
proof -
  assume p: "parsed l = Some (Inr c)"
  then obtain z where z: "parsecmd l = Some z" by (auto simp: parsed_def)
  then show ?thesis using p parsecmd_fds [of l] by (cases z) (auto simp: parsed_def)
qed

lemma run_line_std: "std t \<Longrightarrow> all_std (fst (run_line env k t line))"
  using parsed_fds runcmd_std by (auto simp: run_line_def Let_def split: option.split sum.split)

lemma sh_loop_std: "std t \<Longrightarrow> all_std (sh_loop env k t input)"
proof (induction env k t input rule: sh_loop.induct)
  case (1 env k t input)
  show ?case
  proof (cases "getcmd input")
    case None
    then show ?thesis by (subst sh_loop.simps) simp
  next
    case (Some lr)
    obtain line rest where lr: "lr = (line, rest)" by (cases lr)
    obtain out go where o: "run_line env k t line = (out, go)" by fastforce
    show ?thesis using "1.IH" [OF Some lr [symmetric] o [symmetric]] "1.prems" run_line_std [OF "1.prems", of env k line] o
      by (subst sh_loop.simps) (auto simp: Some lr)
  qed
qed

definition low_only :: "fdtab \<Rightarrow> bool" where
  "low_only t \<longleftrightarrow> length t = 16 \<and> (\<forall>fd. 3 \<le> fd \<longrightarrow> fd < 16 \<longrightarrow> t ! fd = None)"

lemma low_only_std:
  assumes "low_only t" "\<And>i. i < 3 \<Longrightarrow> t ! i \<noteq> None"
  shows "std (fd_close 3 (t[3 := x]))"
proof -
  have "fd_close 3 (t[3 := x]) ! fd \<noteq> None \<longleftrightarrow> fd < 3" if "fd < 16" for fd
    using that assms(1) assms(2) [of fd] by (cases "fd < 3"; cases "fd = 3") (auto simp: fd_close_def low_only_def nth_list_update)
  then show ?thesis using assms(1) by (simp add: std_def low_only_def fd_close_def)
qed

lemma open_console_std:
  assumes "can_open env (str ''console'') 2" "low_only t" "card {fd. fd < 3 \<and> t ! fd = None} \<le> n"
  shows "std (open_console env (Suc n) t)"
  using assms(2,3)
proof (induction n arbitrary: t)
  case 0
  then have all: "t ! fd \<noteq> None" if "fd < 3" for fd using that by auto
  have l: "length t = 16" "t ! 3 = None" using 0(1) by (auto simp: low_only_def)
  have "fd_new Console t = Some (3, t[3 := Some Console])" by (rule fd_new_SomeI) (use l all in auto)
  moreover have "std (fd_close 3 (t[3 := Some Console]))" using low_only_std [OF 0(1) all] .
  ultimately show ?case using assms(1) by simp
next
  case (Suc n)
  have l: "length t = 16" "t ! 3 = None" using Suc.prems(1) by (auto simp: low_only_def)
  define fd where "fd = (LEAST i. t ! i = None)"
  have fd: "t ! fd = None" "fd \<le> 3" unfolding fd_def by (rule LeastI [of _ 3], rule l(2)) (rule Least_le, rule l(2))
  have below: "t ! i \<noteq> None" if "i < fd" for i using that not_less_Least unfolding fd_def by blast
  have new: "fd_new Console t = Some (fd, t[fd := Some Console])" using fd_new_SomeI [OF _ fd(1) below, of Console] l fd(2) by simp
  show ?case
  proof (cases "fd = 3")
    case True
    then have "t ! i \<noteq> None" if "i < 3" for i using that below by simp
    then have "std (fd_close 3 (t[3 := Some Console]))" using low_only_std [OF Suc.prems(1)] by blast
    then show ?thesis using new assms(1) True by simp
  next
    case False
    then have lt: "fd < 3" using fd(2) by simp
    have "{i. i < 3 \<and> t[fd := Some Console] ! i = None} = {i. i < 3 \<and> t ! i = None} - {fd}" using l lt by (auto simp: nth_list_update)
    then have "card {i. i < 3 \<and> t[fd := Some Console] ! i = None} \<le> n" using Suc.prems(2) fd(1) lt by (simp add: card_Diff_singleton)
    moreover have "low_only (t[fd := Some Console])" using Suc.prems(1) lt by (auto simp: low_only_def nth_list_update)
    ultimately have "std (open_console env (Suc n) (t[fd := Some Console]))" using Suc.IH by blast
    then show ?thesis using new assms(1) lt by (simp del: open_console.simps add: open_console.simps(2) [of env "Suc n"])
  qed
qed

subsection \<open>Properties\<close>


definition all_can :: sysenv where
  "all_can = \<lparr>can_exec = (\<lambda>_. True), can_open = (\<lambda>_ _. True), can_fork = (\<lambda>_. True), can_pipe = (\<lambda>_. True), can_chdir = (\<lambda>_. True)\<rparr>"

definition std_tab :: fdtab where
  "std_tab = replicate 3 (Some Console) @ replicate 13 None"

lemma std_std_tab: "std std_tab"
  by (auto simp: std_def std_tab_def nth_append)




end
