(* ===== verification/Mkfs.thy ===== *)
theory Mkfs
  imports Fs_Blocks
begin

section \<open>Making a file system (mkfs/mkfs.c)\<close>

text \<open>
  The image is a file of sectors that grows when a sector behind its end is written; reading behind the end fails, and mkfs gives up.
  The arguments are the names of the files to put in, each with the pieces that the calls of \<^verbatim>\<open>read\<close> return, or None when it
  cannot be opened.  An \<^verbatim>\<open>assert\<close> that fails and a call of \<^verbatim>\<open>die\<close> are panics.  Disk structures have the form that the kernel gives
  them (\<open>store_dinode\<close>, \<open>mk_dirent\<close>), which is what \<^verbatim>\<open>xshort\<close> and \<^verbatim>\<open>xint\<close> are for; the fields that do not go through them are written in
  the byte order of the host, taken to be little-endian.
\<close>

record mkfs_st =
  image :: "nat \<Rightarrow> byte list"
  nsect :: nat
  freeinode :: nat
  freeblock :: nat

abbreviation (input) FSSIZE :: nat where "FSSIZE \<equiv> 2000"
abbreviation (input) NINODES :: nat where "NINODES \<equiv> 200"
abbreviation (input) LOGBLOCKS :: nat where "LOGBLOCKS \<equiv> 30"

definition nbitmap :: nat where "nbitmap = FSSIZE div BPB + 1"
definition ninodeblocks :: nat where "ninodeblocks = NINODES div IPB + 1"
definition nlog :: nat where "nlog = LOGBLOCKS + 1"
definition nmeta :: nat where "nmeta = 2 + nlog + ninodeblocks + nbitmap"

text \<open>The bytes of \<^verbatim>\<open>xshort(x)\<close> and \<^verbatim>\<open>xint(x)\<close>.\<close>

definition xshort :: "nat \<Rightarrow> byte list" where
  "xshort x = [of_nat x, of_nat (x div 2 ^ 8)]"

definition xint :: "nat \<Rightarrow> byte list" where
  "xint x = [of_nat x, of_nat (x div 2 ^ 8), of_nat (x div 2 ^ 16), of_nat (x div 2 ^ 24)]"

lemma xint_enc: "xshort x = enc 2 x" "xint x = enc 4 x"
proof -
  have n: "(2 :: nat) = Suc (Suc 0)" "(4 :: nat) = Suc (Suc (Suc (Suc 0)))" by simp_all
  have "enc 2 x = [of_nat x, of_nat (x div 256)]" by (subst n(1)) simp
  then show "xshort x = enc 2 x" by (simp add: xshort_def)
  have "enc 4 x = [of_nat x, of_nat (x div 256), of_nat (x div 256 div 256), of_nat (x div 256 div 256 div 256)]" by (subst n(2)) simp
  then show "xint x = enc 4 x" by (simp add: xint_def div_mult2_eq [symmetric])
qed

definition mk_sb :: superblock where
  "mk_sb = \<lparr>sb_magic = FSMAGIC, sb_size = FSSIZE, sb_nblocks = FSSIZE - nmeta, sb_ninodes = NINODES, sb_nlog = nlog,
     sb_logstart = 2, sb_inodestart = 2 + nlog, sb_bmapstart = 2 + nlog + ninodeblocks\<rparr>"

definition sb_bytes :: "superblock \<Rightarrow> byte list" where
  "sb_bytes x = concat (map xint [sb_magic x, sb_size x, sb_nblocks x, sb_ninodes x, sb_nlog x, sb_logstart x, sb_inodestart x, sb_bmapstart x])"

lemmas mk_vals = nbitmap_def ninodeblocks_def nlog_def nmeta_def mk_sb_def

subsection \<open>Sectors and inodes\<close>

definition wsect :: "nat \<Rightarrow> byte list \<Rightarrow> (mkfs_st, unit) K" where
  "wsect sec buf =
     modifyK (\<lambda>s. s\<lparr>image := (image s)(sec := buf), nsect := max (nsect s) (sec + 1)\<rparr>)"

definition rsect :: "nat \<Rightarrow> (mkfs_st, byte list) K" where
  "rsect sec =
     bindK (getsK nsect) (\<lambda>n. if sec \<ge> n then panic ''read'' else getsK (\<lambda>s. image s sec))"

definition zero_inode :: "nat \<Rightarrow> inode" where
  "zero_inode inum = \<lparr>i_dev = 0, i_inum = inum, i_ref = 0, i_lock = initsleeplock ''inode'', i_valid = True, i_type = 0,
     i_major = 0, i_minor = 0, i_nlink = 0, i_size = 0, i_addrs = replicate 13 0\<rparr>"

definition winode :: "nat \<Rightarrow> inode \<Rightarrow> (mkfs_st, unit) K" where
  "winode inum ip =
     bindK (rsect (IBLOCK inum mk_sb)) (\<lambda>buf.
     wsect (IBLOCK inum mk_sb) (store_dinode (ip\<lparr>i_inum := inum\<rparr>) buf))"

definition rinode :: "nat \<Rightarrow> (mkfs_st, inode) K" where
  "rinode inum =
     bindK (rsect (IBLOCK inum mk_sb)) (\<lambda>buf. returnK (load_dinode buf inum (zero_inode inum)))"

definition mk_ialloc :: "int \<Rightarrow> (mkfs_st, nat) K" where
  "mk_ialloc ty =
     bindK (getsK freeinode) (\<lambda>inum.
     thenK (modifyK (\<lambda>s. s\<lparr>freeinode := inum + 1\<rparr>))
    (thenK (winode inum ((zero_inode inum)\<lparr>i_type := ty, i_nlink := 1\<rparr>))
     (returnK inum)))"

definition mk_balloc :: "nat \<Rightarrow> (mkfs_st, unit) K" where
  "mk_balloc used =
     (if \<not> used < BPB then panic ''assert''
      else wsect (sb_bmapstart mk_sb) (fold bit_set [0..<used] (replicate BSIZE 0)))"

subsection \<open>Appending\<close>

definition new_block :: "(mkfs_st, nat) K" where
  "new_block = bindK (getsK freeblock) (\<lambda>b. thenK (modifyK (\<lambda>s. s\<lparr>freeblock := b + 1\<rparr>)) (returnK b))"

text \<open>The block of the file that offset \<open>fbn * BSIZE\<close> is in, allocated where it is missing.\<close>

definition file_block :: "inode \<Rightarrow> nat \<Rightarrow> (mkfs_st, inode \<times> nat) K" where
  "file_block din fbn =
     (if fbn < NDIRECT then
        bindK (if i_addrs din ! fbn = 0 then bindK new_block (\<lambda>b. returnK (din\<lparr>i_addrs := (i_addrs din)[fbn := b]\<rparr>)) else returnK din) (\<lambda>din'.
        returnK (din', i_addrs din' ! fbn))
      else
        bindK (if i_addrs din ! NDIRECT = 0 then bindK new_block (\<lambda>b. returnK (din\<lparr>i_addrs := (i_addrs din)[NDIRECT := b]\<rparr>)) else returnK din) (\<lambda>din'.
        let ib = i_addrs din' ! NDIRECT; k = 4 * (fbn - NDIRECT) in
        bindK (rsect ib) (\<lambda>ind.
        if get_le 4 ind k = 0 then
          bindK new_block (\<lambda>b.
          thenK (wsect ib (put_le 4 k b ind)) (returnK (din', b)))
        else returnK (din', get_le 4 ind k))))"

lemma block_end: "(off :: nat) < (off div 1024 + 1) * 1024"
  by (metis add.commute dividend_less_div_times mult.commute mult_Suc plus_1_eq_Suc zero_less_numeral)

function iappend_loop :: "inode \<Rightarrow> nat \<Rightarrow> byte list \<Rightarrow> (mkfs_st, inode \<times> nat) K" where
  "iappend_loop din off p =
     (if p = [] then returnK (din, off)
      else
        let fbn = off div BSIZE in
        if \<not> fbn < MAXFILE then panic ''assert''
        else
          bindK (file_block din fbn) (\<lambda>(din', x).
          let n1 = min (length p) ((fbn + 1) * BSIZE - off) in
          bindK (rsect x) (\<lambda>buf.
          thenK (wsect x (overwrite buf (off - fbn * BSIZE) (take n1 p)))
            (iappend_loop din' (off + n1) (drop n1 p)))))"
  by pat_completeness auto
termination
  by (relation "measure (\<lambda>(din, off, p). length p)") (use block_end in auto)

declare iappend_loop.simps [simp del]

definition iappend :: "nat \<Rightarrow> byte list \<Rightarrow> (mkfs_st, unit) K" where
  "iappend inum p =
     bindK (rinode inum) (\<lambda>din.
     bindK (iappend_loop din (i_size din) p) (\<lambda>(din', off).
     winode inum (din'\<lparr>i_size := off\<rparr>)))"

subsection \<open>The program\<close>

definition user_prefix :: "byte list" where
  "user_prefix = str ''user/''"

definition shortname :: "byte list \<Rightarrow> byte list" where
  "shortname nm = (if take 5 nm = user_prefix then drop 5 nm else nm)"

definition put_file :: "nat \<Rightarrow> byte list \<times> byte list list option \<Rightarrow> (mkfs_st, unit) K" where
  "put_file rootino file =
     (let sn = shortname (fst file) in
      if 47 \<in> set sn then panic ''assert''
      else case snd file of
        None \<Rightarrow> panic ''open''
      | Some pieces \<Rightarrow>
          let nm = (if char_at sn 0 = 95 then drop 1 sn else sn) in
          if \<not> length nm \<le> DIRSIZ then panic ''assert''
          else
            bindK (mk_ialloc T_FILE) (\<lambda>inum.
            thenK (iappend rootino (mk_dirent inum nm))
              (forK pieces (iappend inum))))"

definition mkfs :: "(byte list \<times> byte list list option) list \<Rightarrow> (mkfs_st, unit) K" where
  "mkfs files =
     thenK (modifyK (\<lambda>s. s\<lparr>freeblock := nmeta\<rparr>))
    (thenK (forK [0..<FSSIZE] (\<lambda>i. wsect i (replicate BSIZE 0)))
    (thenK (wsect 1 (overwrite (replicate BSIZE 0) 0 (sb_bytes mk_sb)))
    (bindK (mk_ialloc T_DIR) (\<lambda>rootino.
     if rootino \<noteq> ROOTINO then panic ''assert''
     else
       thenK (iappend rootino (mk_dirent rootino (str ''.'')))
      (thenK (iappend rootino (mk_dirent rootino (str ''..'')))
      (thenK (forK files (put_file rootino))
      (bindK (rinode rootino) (\<lambda>din.
       thenK (winode rootino (din\<lparr>i_size := (i_size din div BSIZE + 1) * BSIZE\<rparr>))
         (bindK (getsK freeblock) mk_balloc)))))))))"

end
