(* ===== verification/Mkfs_Props.thy ===== *)
theory Mkfs_Props
  imports Mkfs
begin

section \<open>The file system that mkfs makes\<close>

text \<open>
  Files as the kernel reads them: a disk inode gives a list of blocks, directly and through its indirect block, and the bytes of the file are
  in these blocks.  \<^verbatim>\<open>iappend\<close> appends to a file and leaves the others alone; the image that mkfs leaves holds the files it was given.
\<close>

subsection \<open>Files in an image\<close>

definition nblk :: "nat \<Rightarrow> nat" where
  "nblk n = (n + 1023) div 1024"

definition need :: "nat \<Rightarrow> nat" where
  "need n = nblk n + (if 12 < nblk n then 1 else 0)"

definition blk :: "mkfs_st \<Rightarrow> inode \<Rightarrow> nat \<Rightarrow> nat" where
  "blk s J f = (if f < 12 then i_addrs J ! f else get_le 4 (image s (i_addrs J ! 12)) (4 * (f - 12)))"

definition bset :: "mkfs_st \<Rightarrow> inode \<Rightarrow> nat set" where
  "bset s J = blk s J ` {..<nblk (i_size J)} \<union> (if 12 < nblk (i_size J) then {i_addrs J ! 12} else {})"

definition fbyte :: "mkfs_st \<Rightarrow> inode \<Rightarrow> nat \<Rightarrow> byte" where
  "fbyte s J k = image s (blk s J (k div 1024)) ! (k mod 1024)"

definition file_bytes :: "mkfs_st \<Rightarrow> inode \<Rightarrow> byte list" where
  "file_bytes s J = map (fbyte s J) [0..<i_size J]"

definition base :: "mkfs_st \<Rightarrow> bool" where
  "base s \<longleftrightarrow> (\<forall>b. length (image s b) = 1024) \<and> (\<forall>b \<ge> freeblock s. image s b = replicate 1024 0) \<and> 47 \<le> freeblock s \<and> freeblock s \<le> nsect s \<and> nsect s \<le> 2000"

text \<open>An inode whose blocks are there, distinct and allocated, exactly as many as its size asks for.\<close>

definition wf_inode :: "mkfs_st \<Rightarrow> inode \<Rightarrow> bool" where
  "wf_inode s J \<longleftrightarrow> length (i_addrs J) = 13 \<and> i_size J \<le> MAXFILE * 1024 \<and> bset s J \<subseteq> {47..<freeblock s} \<and>
     (\<forall>f < 12. nblk (i_size J) \<le> f \<longrightarrow> i_addrs J ! f = 0) \<and> (nblk (i_size J) \<le> 12 \<longrightarrow> i_addrs J ! 12 = 0) \<and>
     (\<forall>f < 268. 12 < nblk (i_size J) \<longrightarrow> nblk (i_size J) \<le> f \<longrightarrow> blk s J f = 0) \<and>
     inj_on (blk s J) {..<nblk (i_size J)} \<and> (12 < nblk (i_size J) \<longrightarrow> i_addrs J ! 12 \<notin> blk s J ` {..<nblk (i_size J)})"

definition meta :: "inode \<Rightarrow> nat \<times> nat \<times> int \<times> sleeplock \<times> bool \<times> int \<times> int \<times> int \<times> int" where
  "meta J = (i_dev J, i_inum J, i_ref J, i_lock J, i_valid J, i_type J, i_major J, i_minor J, i_nlink J)"

definition appended :: "mkfs_st \<Rightarrow> inode \<Rightarrow> mkfs_st \<Rightarrow> inode \<Rightarrow> byte list \<Rightarrow> bool" where
  "appended s J s' J' bs \<longleftrightarrow> base s' \<and> wf_inode s' J' \<and> meta J' = meta J \<and> i_size J' = i_size J + length bs \<and>
     freeblock s' + need (i_size J) = freeblock s + need (i_size J') \<and> freeinode s' = freeinode s \<and> nsect s' = nsect s \<and>
     (\<forall>k < i_size J. fbyte s' J' k = fbyte s J k) \<and> (\<forall>k < length bs. fbyte s' J' (i_size J + k) = bs ! k) \<and>
     freeblock s \<le> freeblock s' \<and> bset s' J' \<subseteq> bset s J \<union> {freeblock s..<freeblock s'} \<and>
     (\<forall>b < freeblock s. b \<notin> bset s J \<longrightarrow> image s' b = image s b)"

lemma blk_size [simp]: "blk s (J\<lparr>i_size := n\<rparr>) f = blk s J f"
  by (simp add: blk_def)

lemma wf_inodeD:
  assumes "wf_inode s J"
  shows "length (i_addrs J) = 13" "i_size J \<le> 268 * 1024" "b \<in> bset s J \<Longrightarrow> 47 \<le> b \<and> b < freeblock s"
    "f < 12 \<Longrightarrow> nblk (i_size J) \<le> f \<Longrightarrow> i_addrs J ! f = 0" "nblk (i_size J) \<le> 12 \<Longrightarrow> i_addrs J ! 12 = 0"
    "f < 268 \<Longrightarrow> 12 < nblk (i_size J) \<Longrightarrow> nblk (i_size J) \<le> f \<Longrightarrow> blk s J f = 0"
    "f < nblk (i_size J) \<Longrightarrow> g < nblk (i_size J) \<Longrightarrow> blk s J f = blk s J g \<Longrightarrow> f = g"
    "12 < nblk (i_size J) \<Longrightarrow> f < nblk (i_size J) \<Longrightarrow> i_addrs J ! 12 \<noteq> blk s J f"
    "f < nblk (i_size J) \<Longrightarrow> 47 \<le> blk s J f \<and> blk s J f < freeblock s" "12 < nblk (i_size J) \<Longrightarrow> 47 \<le> i_addrs J ! 12 \<and> i_addrs J ! 12 < freeblock s"
proof -
  show "f < nblk (i_size J) \<Longrightarrow> 47 \<le> blk s J f \<and> blk s J f < freeblock s" "12 < nblk (i_size J) \<Longrightarrow> 47 \<le> i_addrs J ! 12 \<and> i_addrs J ! 12 < freeblock s"
    using assms by (auto simp: wf_inode_def bset_def subset_iff image_iff)
  show "12 < nblk (i_size J) \<Longrightarrow> f < nblk (i_size J) \<Longrightarrow> i_addrs J ! 12 \<noteq> blk s J f" using assms by (auto simp: wf_inode_def)
qed (use assms in \<open>auto simp: wf_inode_def subset_iff inj_on_def\<close>)

lemma appended_refl: "base s \<Longrightarrow> wf_inode s J \<Longrightarrow> appended s J s J []"
  by (simp add: appended_def)

lemma appendedD:
  assumes "appended s J s' J' bs"
  shows "base s'" "wf_inode s' J'" "meta J' = meta J" "i_size J' = i_size J + length bs" "freeblock s' + need (i_size J) = freeblock s + need (i_size J')"
    "freeinode s' = freeinode s" "nsect s' = nsect s" "k < i_size J \<Longrightarrow> fbyte s' J' k = fbyte s J k" "k < length bs \<Longrightarrow> fbyte s' J' (i_size J + k) = bs ! k"
    "freeblock s \<le> freeblock s'" "b \<in> bset s' J' \<Longrightarrow> b \<in> bset s J \<or> freeblock s \<le> b \<and> b < freeblock s'"
    "b < freeblock s \<Longrightarrow> b \<notin> bset s J \<Longrightarrow> image s' b = image s b"
  using assms unfolding appended_def by auto

lemma appendedI:
  assumes "base s'" "wf_inode s' J'" "meta J' = meta J" "i_size J' = i_size J + length bs" "freeblock s' + need (i_size J) = freeblock s + need (i_size J')"
    "freeinode s' = freeinode s" "nsect s' = nsect s" "\<And>k. k < i_size J \<Longrightarrow> fbyte s' J' k = fbyte s J k" "\<And>k. k < length bs \<Longrightarrow> fbyte s' J' (i_size J + k) = bs ! k"
    "freeblock s \<le> freeblock s'" "\<And>b. b \<in> bset s' J' \<Longrightarrow> b \<in> bset s J \<or> freeblock s \<le> b \<and> b < freeblock s'"
    "\<And>b. b < freeblock s \<Longrightarrow> b \<notin> bset s J \<Longrightarrow> image s' b = image s b"
  shows "appended s J s' J' bs"
  unfolding appended_def using assms by (auto simp: subset_iff)

lemma appended_trans:
  assumes "appended s J s1 J1 bs" "appended s1 J1 s2 J2 cs"
  shows "appended s J s2 J2 (bs @ cs)"
proof (rule appendedI)
  note a = appendedD [OF assms(1)] and b = appendedD [OF assms(2)]
  show "fbyte s2 J2 (i_size J + k) = (bs @ cs) ! k" if "k < length (bs @ cs)" for k
  proof (cases "k < length bs")
    case True
    then have "fbyte s2 J2 (i_size J + k) = fbyte s1 J1 (i_size J + k)" using b(8) a(4) by simp
    then show ?thesis using a(9) True by (simp add: nth_append)
  next
    case False
    then have "fbyte s2 J2 (i_size J1 + (k - length bs)) = cs ! (k - length bs)" using that by (intro b(9)) auto
    then show ?thesis using a(4) False by (simp add: nth_append)
  qed
  show "fbyte s2 J2 k = fbyte s J k" if "k < i_size J" for k using b(8) [of k] a(8) [of k] a(4) that by simp
  show "image s2 c = image s c" if c: "c < freeblock s" "c \<notin> bset s J" for c
  proof -
    have "c \<notin> bset s1 J1" using a(11) [of c] c by auto
    then show ?thesis using b(12) [of c] a(12) [of c] a(10) c by simp
  qed
  show "c \<in> bset s J \<or> freeblock s \<le> c \<and> c < freeblock s2" if "c \<in> bset s2 J2" for c
    using b(11) [OF that] a(11) [of c] a(10) b(10) by auto
qed (use appendedD [OF assms(1)] appendedD [OF assms(2)] in simp_all)

subsection \<open>Appending within one block\<close>

lemma nblk_eq: "nblk n = n div 1024 + (if n mod 1024 = 0 then 0 else 1)"
proof -
  obtain q r where q: "n = 1024 * q + r" "r < 1024" by (metis mod_less_divisor mult_div_mod_eq zero_less_numeral)
  have "(1024 * q + r + 1023) div 1024 = q + (r + 1023) div 1024" using div_mult_self4 [of 1024 q "r + 1023"] by (simp add: add.assoc add.commute)
  moreover have "(r + 1023) div 1024 = (if r = 0 then 0 else 1)"
  proof (cases "r = 0")
    case False
    then have "r + 1023 = (r - 1) + 1024" by simp
    then show ?thesis using q(2) False by simp
  qed simp
  ultimately show ?thesis using q by (auto simp: nblk_def)
qed

lemma nblk_step: "0 < n \<Longrightarrow> off + n \<le> (off div 1024 + 1) * 1024 \<Longrightarrow> nblk (off + n) = off div 1024 + 1"
proof -
  assume n: "0 < n" "off + n \<le> (off div 1024 + 1) * 1024"
  define q where "q = off div 1024"
  have "off = 1024 * q + off mod 1024" by (simp add: q_def)
  then have m: "1024 * q < off + n" "off + n \<le> 1024 * q + 1024" using n by (simp_all add: q_def)
  have "(off + n + 1023) div 1024 = q + 1"
  proof (rule div_nat_eqI)
    show "1024 * (q + 1) \<le> off + n + 1023" using m by simp
    show "off + n + 1023 < 1024 * Suc (q + 1)" using m by simp
  qed
  then show ?thesis by (simp add: nblk_def q_def)
qed

lemma nblk_less: "k < n \<Longrightarrow> k div 1024 < nblk n"
proof -
  assume "k < n"
  then have "k div 1024 \<le> (n - 1) div 1024" "0 < n" by (auto intro: div_le_mono)
  moreover have "nblk n = (n - 1) div 1024 + 1" using \<open>0 < n\<close> by (cases n) (simp_all add: nblk_def)
  ultimately show ?thesis by simp
qed

lemma nblk_max: "n \<le> 268 * 1024 \<Longrightarrow> nblk n \<le> 268"
  using div_le_mono [of "n + 1023" "268 * 1024 + 1023" 1024] by (simp add: nblk_def)

lemma block_offset:
  assumes "off mod 1024 + k < (1024 :: nat)"
  shows "(off + k) div 1024 = off div 1024" "(off + k) mod 1024 = off mod 1024 + k"
proof -
  have "(1024 * q + r) div 1024 = q \<and> (1024 * q + r) mod 1024 = r" if "r < (1024 :: nat)" for q r using that by simp
  from this [OF assms, of "off div 1024"] show "(off + k) div 1024 = off div 1024" "(off + k) mod 1024 = off mod 1024 + k"
    by (simp_all flip: add.assoc)
qed

text \<open>Everything is ready to write \<open>n\<close> bytes at the end of the file into the block \<open>x\<close>.\<close>

definition prepared :: "mkfs_st \<Rightarrow> inode \<Rightarrow> mkfs_st \<Rightarrow> inode \<Rightarrow> nat \<Rightarrow> nat \<Rightarrow> bool" where
  "prepared s J s' K x n \<longleftrightarrow> base s' \<and> wf_inode s' K \<and> meta K = meta J \<and> i_size K = i_size J + n \<and>
     freeblock s' + need (i_size J) = freeblock s + need (i_size K) \<and> freeinode s' = freeinode s \<and> nsect s' = nsect s \<and>
     x = blk s' K (i_size J div 1024) \<and> nblk (i_size J + n) = i_size J div 1024 + 1 \<and>
     (\<forall>f < nblk (i_size J). blk s' K f = blk s J f \<and> image s' (blk s J f) = image s (blk s J f)) \<and>
     freeblock s \<le> freeblock s' \<and> (\<forall>b \<in> bset s' K. b \<in> bset s J \<or> freeblock s \<le> b \<and> b < freeblock s') \<and> (x \<in> bset s J \<or> freeblock s \<le> x) \<and>
     (\<forall>b < freeblock s. b \<notin> bset s J \<longrightarrow> image s' b = image s b)"

lemma prepared_write:
  assumes p: "prepared s J s' K x (length bs)" and n: "i_size J + length bs \<le> (i_size J div 1024 + 1) * 1024" "bs \<noteq> []"
    and s'': "s'' = s'\<lparr>image := (image s')(x := overwrite (image s' x) (i_size J mod 1024) bs)\<rparr>"
  shows "appended s J s'' K bs"
proof (rule appendedI)
  let ?off = "i_size J" and ?f = "i_size J div 1024"
  note P = p [unfolded prepared_def]
  have wf: "wf_inode s' K" and base: "base s'" and size: "i_size K = ?off + length bs" and nb: "nblk (i_size K) = ?f + 1" and x: "x = blk s' K ?f" using P by auto
  have xin: "x \<in> bset s' K" using nb x by (auto simp: bset_def)
  have xrange: "47 \<le> x" "x < freeblock s'" using wf xin by (auto simp: wf_inode_def)
  have "x \<in> blk s' K ` {..<nblk (i_size K)}" using nb x by auto
  then have xind: "12 < nblk (i_size K) \<Longrightarrow> x \<noteq> i_addrs K ! 12" using wf unfolding wf_inode_def by metis
  have fits: "?off mod 1024 + length bs \<le> 1024"
  proof -
    have "q * 1024 + r + l \<le> (q + 1) * 1024 \<Longrightarrow> r + l \<le> 1024" for q r l :: nat by simp
    from this [of ?f "?off mod 1024" "length bs"] show ?thesis using n(1) by simp
  qed
  have len: "length (image s' x) = 1024" using base by (simp add: base_def)
  have b1: "blk s'' K f = blk s' K f" if "f < 268" "f < 12 \<or> 12 < nblk (i_size K)" for f
    using that xind by (auto simp: blk_def s'')
  have nb268: "nblk (i_size K) \<le> 268" using nblk_max wf by (simp add: wf_inode_def)
  have b2: "blk s'' K f = blk s' K f" if "f < nblk (i_size K)" for f using that nb268 by (intro b1) auto
  have bs: "bset s'' K = bset s' K" using b2 by (auto simp: bset_def image_iff)
  have img: "blk s'' K ` {..<nblk (i_size K)} = blk s' K ` {..<nblk (i_size K)}" using b2 by (auto simp: image_iff)
  have inj: "inj_on (blk s'' K) {..<nblk (i_size K)}" using wf b2 by (auto simp: wf_inode_def inj_on_def)
  show "base s''" using base xrange fits len by (auto simp: base_def s'')
  show "wf_inode s'' K" using wf b1 inj unfolding wf_inode_def bs img by (auto simp: s'')
  show "fbyte s'' K k = fbyte s J k" if k: "k < ?off" for k
  proof -
    let ?g = "k div 1024"
    have g: "?g < nblk ?off" using nblk_less [OF k] .
    have le: "?g \<le> ?f" using k by (simp add: div_le_mono)
    have e: "blk s'' K ?g = blk s J ?g" "image s' (blk s J ?g) = image s (blk s J ?g)" "blk s' K ?g = blk s J ?g" using b2 [of ?g] P g le nb by auto
    show ?thesis
    proof (cases "?g = ?f")
      case True
      have "k mod 1024 < ?off mod 1024" using k True by (metis add_less_cancel_left mult_div_mod_eq)
      then show ?thesis using e True x fits len by (simp add: fbyte_def s'' nth_overwrite)
    next
      case False
      then have "blk s' K ?g \<noteq> x" using wf_inodeD(7) [OF wf, of ?g ?f] nb le x by auto
      then show ?thesis using e by (simp add: fbyte_def s'')
    qed
  qed
  show "fbyte s'' K (?off + k) = bs ! k" if k: "k < length bs" for k
  proof -
    have m: "?off mod 1024 + k < 1024" using fits k by simp
    note d = block_offset [OF m]
    have "blk s'' K ?f = x" using b2 [of ?f] nb x by simp
    then show ?thesis using d k fits len by (simp add: fbyte_def s'' nth_overwrite)
  qed
  show "c \<in> bset s J \<or> freeblock s \<le> c \<and> c < freeblock s''" if "c \<in> bset s'' K" for c using that P unfolding bs by (auto simp: s'')
  show "image s'' c = image s c" if "c < freeblock s" "c \<notin> bset s J" for c using that P by (auto simp: s'')
qed (use p in \<open>auto simp: prepared_def s''\<close>)

subsection \<open>Finding or allocating the block\<close>

lemma wf_inodeI:
  assumes "length (i_addrs J) = 13" "i_size J \<le> 268 * 1024"
    "\<And>f. f < 12 \<Longrightarrow> nblk (i_size J) \<le> f \<Longrightarrow> i_addrs J ! f = 0" "nblk (i_size J) \<le> 12 \<Longrightarrow> i_addrs J ! 12 = 0"
    "\<And>f. f < 268 \<Longrightarrow> 12 < nblk (i_size J) \<Longrightarrow> nblk (i_size J) \<le> f \<Longrightarrow> blk s J f = 0"
    "\<And>f g. f < g \<Longrightarrow> g < nblk (i_size J) \<Longrightarrow> blk s J f \<noteq> blk s J g"
    "\<And>f. 12 < nblk (i_size J) \<Longrightarrow> f < nblk (i_size J) \<Longrightarrow> i_addrs J ! 12 \<noteq> blk s J f"
    "\<And>f. f < nblk (i_size J) \<Longrightarrow> 47 \<le> blk s J f \<and> blk s J f < freeblock s" "12 < nblk (i_size J) \<Longrightarrow> 47 \<le> i_addrs J ! 12 \<and> i_addrs J ! 12 < freeblock s"
  shows "wf_inode s J"
proof -
  have "inj_on (blk s J) {..<nblk (i_size J)}"
  proof (rule inj_onI)
    fix f g assume "f \<in> {..<nblk (i_size J)}" "g \<in> {..<nblk (i_size J)}" "blk s J f = blk s J g"
    then show "f = g" using assms(6) [of f g] assms(6) [of g f] by (cases f g rule: linorder_cases) auto
  qed
  moreover have "bset s J \<subseteq> {47..<freeblock s}" using assms(8,9) by (auto simp: bset_def)
  ultimately show ?thesis using assms(1-5,7) by (auto simp: wf_inode_def)
qed

lemma rsect_run: "b < nsect s \<Longrightarrow> rsect b s = Inr (image s b, s)"
  by (simp add: rsect_def run_simps)

lemma new_block_run: "new_block s = Inr (freeblock s, s\<lparr>freeblock := freeblock s + 1\<rparr>)"
  by (simp add: new_block_def run_simps)

lemma need_step:
  "0 < n \<Longrightarrow> off + n \<le> (off div 1024 + 1) * 1024 \<Longrightarrow>
   need (off + n) = need off + (if off mod 1024 \<noteq> 0 then 0 else if off div 1024 = 12 then 2 else 1)"
  using nblk_step [of n off] nblk_eq [of off] by (auto simp: need_def)

text \<open>The last block is not full.\<close>

lemma file_block_old:
  assumes wf: "wf_inode s J" and base: "base s" and n: "0 < n" "i_size J + n \<le> (i_size J div 1024 + 1) * 1024" "i_size J + n \<le> 268 * 1024"
    and m: "i_size J mod 1024 \<noteq> 0"
  shows "\<exists>x. file_block J (i_size J div 1024) s = Inr ((J, x), s) \<and> prepared s J s (J\<lparr>i_size := i_size J + n\<rparr>) x n"
proof -
  let ?f = "i_size J div 1024" and ?K = "J\<lparr>i_size := i_size J + n\<rparr>"
  note D = wf_inodeD [OF wf]
  have nb: "nblk (i_size J) = ?f + 1" "nblk (i_size J + n) = ?f + 1" using nblk_eq [of "i_size J"] m nblk_step [OF n(1,2)] by auto
  have blk: "blk s ?K f = blk s J f" for f by (simp add: blk_def)
  have bs: "bset s ?K = bset s J" by (simp add: bset_def blk nb image_def)
  have wfK: "wf_inode s ?K" using wf n(3) unfolding wf_inode_def bs by (simp add: nb blk inj_on_def)
  have x: "47 \<le> blk s J ?f" using D(9) [of ?f] nb by simp
  have "file_block J ?f s = Inr ((J, blk s J ?f), s)"
  proof (cases "?f < 12")
    case True
    then show ?thesis using x by (simp add: file_block_def blk_def run_simps)
  next
    case False
    then have ib: "47 \<le> i_addrs J ! 12" "i_addrs J ! 12 < nsect s" using D(10) nb base by (auto simp: base_def)
    then show ?thesis using x False by (simp add: file_block_def blk_def run_simps rsect_run Let_def)
  qed
  moreover have "prepared s J s ?K (blk s J ?f) n"
    using base wfK need_step [OF n(1,2)] m nb blk bs D(3) by (auto simp: prepared_def meta_def bset_def)
  ultimately show ?thesis by blast
qed

text \<open>A block number goes into the inode.\<close>

lemma new_size:
  "i_size J mod 1024 = 0 \<Longrightarrow> 0 < n \<Longrightarrow> i_size J + n \<le> (i_size J div 1024 + 1) * 1024 \<Longrightarrow>
   nblk (i_size J) = i_size J div 1024 \<and> nblk (i_size J + n) = i_size J div 1024 + 1"
  using nblk_eq [of "i_size J"] nblk_step [of n "i_size J"] by simp

lemma file_block_direct:
  assumes wf: "wf_inode s J" and base: "base s" and n: "0 < n" "i_size J + n \<le> (i_size J div 1024 + 1) * 1024" "i_size J + n \<le> 268 * 1024"
    and m: "i_size J mod 1024 = 0" and f: "i_size J div 1024 < 12" and space: "freeblock s < nsect s"
  shows "\<exists>s' J' x. file_block J (i_size J div 1024) s = Inr ((J', x), s') \<and> prepared s J s' (J'\<lparr>i_size := i_size J + n\<rparr>) x n"
proof -
  let ?f = "i_size J div 1024" and ?b = "freeblock s"
  let ?J = "J\<lparr>i_addrs := (i_addrs J)[?f := ?b]\<rparr>" and ?s = "s\<lparr>freeblock := ?b + 1\<rparr>"
  let ?K = "?J\<lparr>i_size := i_size J + n\<rparr>"
  note D = wf_inodeD [OF wf] and nb = new_size [OF m n(1,2)]
  have len: "length (i_addrs J) = 13" by (rule D(1))
  have b0: "47 \<le> ?b" using base by (simp add: base_def)
  have run: "file_block J ?f s = Inr ((?J, ?b), ?s)" using D(4) [of ?f] nb f len by (simp add: file_block_def run_simps new_block_run)
  have blk: "blk ?s ?K g = (if g = ?f then ?b else blk s J g)" if "g < 12" for g using that len f by (simp add: blk_def)
  have old: "blk s J g < ?b" if "g < ?f" for g using D(9) [of g] nb that by simp
  have "wf_inode ?s ?K"
  proof (rule wf_inodeI)
    show "i_addrs ?K ! g = 0" if "g < 12" "nblk (i_size ?K) \<le> g" for g using D(4) [of g] that nb by simp
    show "blk ?s ?K g \<noteq> blk ?s ?K h" if "g < h" "h < nblk (i_size ?K)" for g h
      using blk [of g] blk [of h] old [of g] D(7) [of g h] that nb f by auto
    show "47 \<le> blk ?s ?K g \<and> blk ?s ?K g < freeblock ?s" if "g < nblk (i_size ?K)" for g
      using blk [of g] D(9) [of g] that nb f b0 by auto
  qed (use n f nb len D(5) in auto)
  moreover have "bset ?s ?K \<subseteq> bset s J \<union> {?b}" using nb f blk by (auto simp: bset_def)
  ultimately have "prepared s J ?s ?K ?b n"
    using base space need_step [OF n(1,2)] m f nb blk [of ?f] blk by (auto simp: prepared_def meta_def base_def)
  then show ?thesis using run by blast
qed

text \<open>A block number goes into the indirect block.\<close>

definition with_entry :: "mkfs_st \<Rightarrow> inode \<Rightarrow> nat \<Rightarrow> mkfs_st" where
  "with_entry s J f = s\<lparr>freeblock := freeblock s + 1,
     image := (image s)(i_addrs J ! 12 := put_le 4 (4 * (f - 12)) (freeblock s) (image s (i_addrs J ! 12)))\<rparr>"

lemma blk_with_entry:
  assumes "base s" "f < 268" "g < 268" "12 \<le> f" "freeblock s < 2000"
  shows "blk (with_entry s J f) J g = (if g = f then freeblock s else blk s J g)"
proof -
  have len: "length (image s (i_addrs J ! 12)) = 1024" using assms by (simp add: base_def)
  show ?thesis
  proof (cases "g < 12")
    case False
    have "get_le 4 (put_le 4 (4 * (f - 12)) (freeblock s) (image s (i_addrs J ! 12))) (4 * (g - 12)) = get_le 4 (image s (i_addrs J ! 12)) (4 * (g - 12))"
      if "g \<noteq> f" using that len assms False by (intro get_put_le_other) auto
    then show ?thesis using len assms False by (auto simp: blk_def with_entry_def)
  qed (use assms in \<open>simp add: blk_def with_entry_def\<close>)
qed

lemma wf_with_entry:
  assumes base: "base s" "freeblock s < nsect s" and J: "length (i_addrs J) = 13" "47 \<le> i_addrs J ! 12" "i_addrs J ! 12 < freeblock s"
    and f: "12 \<le> f" "f < 268" "nblk n = f + 1" "n \<le> 268 * 1024"
    and old: "\<And>g. g < f \<Longrightarrow> 47 \<le> blk s J g \<and> blk s J g < freeblock s \<and> blk s J g \<noteq> i_addrs J ! 12"
    and inj: "\<And>g h. g < h \<Longrightarrow> h < f \<Longrightarrow> blk s J g \<noteq> blk s J h" and zero: "\<And>g. f \<le> g \<Longrightarrow> g < 268 \<Longrightarrow> blk s J g = 0"
  shows "wf_inode (with_entry s J f) (J\<lparr>i_size := n\<rparr>) \<and> base (with_entry s J f)"
proof
  let ?s = "with_entry s J f" and ?K = "J\<lparr>i_size := n\<rparr>"
  have "freeblock s < 2000" using base by (simp add: base_def)
  then have "blk ?s J g = (if g = f then freeblock s else blk s J g)" if "g < 268" for g using that base f by (intro blk_with_entry) auto
  then have blk: "blk ?s ?K g = (if g = f then freeblock s else blk s J g)" if "g < 268" for g using that by simp
  have fb: "freeblock ?s = freeblock s + 1" by (simp add: with_entry_def)
  show "wf_inode ?s ?K"
  proof (rule wf_inodeI)
    show "blk ?s ?K g = 0" if "g < 268" "nblk (i_size ?K) \<le> g" for g using blk [of g] zero [of g] that f by simp
    show "blk ?s ?K g \<noteq> blk ?s ?K h" if "g < h" "h < nblk (i_size ?K)" for g h
      using blk [of g] blk [of h] old [of g] inj [of g h] that f by auto
    show "i_addrs ?K ! 12 \<noteq> blk ?s ?K g" if "g < nblk (i_size ?K)" for g using blk [of g] old [of g] that f J by auto
    show "47 \<le> blk ?s ?K g \<and> blk ?s ?K g < freeblock ?s" if "g < nblk (i_size ?K)" for g
      using blk [of g] old [of g] that f base fb by (auto simp: base_def)
  qed (use f J fb in auto)
  show "base ?s" using base J f by (auto simp: base_def with_entry_def)
qed

lemma file_block_entry:
  assumes "12 \<le> f" "i_addrs J ! 12 \<noteq> 0" "i_addrs J ! 12 < nsect s" "blk s J f = 0"
  shows "file_block J f s = Inr ((J, freeblock s), with_entry s J f)"
  using assms by (simp add: file_block_def run_simps rsect_run new_block_run wsect_def blk_def with_entry_def max_def Let_def)

lemma prepared_entry:
  assumes wf: "wf_inode s J" and base: "base s" and n: "0 < n" "i_size J + n \<le> (i_size J div 1024 + 1) * 1024" "i_size J + n \<le> 268 * 1024"
    and m: "i_size J mod 1024 = 0" and f: "12 \<le> f" "f = i_size J div 1024"
    and s1: "base s1" "image s1 = image s" "nsect s1 = nsect s" "freeinode s1 = freeinode s" "freeblock s1 < nsect s"
    and fb: "freeblock s \<le> freeblock s1" "freeblock s1 + 1 + need (i_size J) = freeblock s + need (i_size J + n)"
    and J1: "length (i_addrs J1) = 13" "meta J1 = meta J" "i_size J1 = i_size J"
    and ib: "47 \<le> i_addrs J1 ! 12" "i_addrs J1 ! 12 < freeblock s1" "freeblock s \<le> i_addrs J1 ! 12 \<or> 12 < f \<and> i_addrs J1 ! 12 = i_addrs J ! 12"
    and b: "\<And>g. g < f \<Longrightarrow> blk s1 J1 g = blk s J g" "\<And>g. f \<le> g \<Longrightarrow> g < 268 \<Longrightarrow> blk s1 J1 g = 0"
  shows "prepared s J (with_entry s1 J1 f) (J1\<lparr>i_size := i_size J + n\<rparr>) (freeblock s1) n"
proof -
  let ?s = "with_entry s1 J1 f" and ?K = "J1\<lparr>i_size := i_size J + n\<rparr>" and ?ib = "i_addrs J1 ! 12"
  note D = wf_inodeD [OF wf]
  have nb: "nblk (i_size J) = f" "nblk (i_size J + n) = f + 1" using new_size [OF m n(1,2)] f by simp_all
  have f268: "f < 268" using nblk_max [OF n(3)] nb by simp
  have old: "47 \<le> blk s J g \<and> blk s J g < freeblock s \<and> blk s J g \<noteq> ?ib" if "g < f" for g
    using D(8) [of g] D(9) [of g] that nb ib(3) by auto
  have wfK: "wf_inode ?s ?K \<and> base ?s"
  proof (rule wf_with_entry)
    show "47 \<le> blk s1 J1 g \<and> blk s1 J1 g < freeblock s1 \<and> blk s1 J1 g \<noteq> ?ib" if "g < f" for g using old [OF that] b(1) [OF that] fb(1) by simp
    show "blk s1 J1 g \<noteq> blk s1 J1 h" if "g < h" "h < f" for g h using D(7) [of g h] that nb b(1) [of g] b(1) [of h] by auto
  qed (use s1 J1 ib f f268 nb n b(2) in auto)
  have "freeblock s1 < 2000" using s1 base by (simp add: base_def)
  then have blk: "blk ?s J1 g = (if g = f then freeblock s1 else blk s1 J1 g)" if "g < 268" for g using that s1 f f268 by (intro blk_with_entry) auto
  have blk': "blk ?s ?K g = (if g = f then freeblock s1 else blk s J g)" if "g \<le> f" for g using blk [of g] b(1) [of g] that f268 by simp
  have img: "image ?s c = image s c" if "c \<noteq> ?ib" for c using that s1 by (simp add: with_entry_def)
  have sel: "freeblock ?s = freeblock s1 + 1" "freeinode ?s = freeinode s" "nsect ?s = nsect s" using s1 by (simp_all add: with_entry_def)
  have bs: "c \<in> bset s J \<or> freeblock s \<le> c \<and> c < freeblock ?s" if "c \<in> bset ?s ?K" for c
  proof -
    have "(\<exists>g \<le> f. c = blk ?s ?K g) \<or> c = ?ib" using that nb by (auto simp: bset_def less_Suc_eq_le split: if_splits)
    then consider (d) g where "g < f" "c = blk s J g" | (x) "c = freeblock s1" | (i) "c = ?ib" using blk' by (metis le_neq_implies_less)
    then show ?thesis
    proof cases
      case d then show ?thesis using nb by (auto simp: bset_def)
    next
      case x then show ?thesis using fb sel by simp
    next
      case i then show ?thesis using ib sel nb by (auto simp: bset_def)
    qed
  qed
  have img2: "image ?s c = image s c" if "c < freeblock s" "c \<notin> bset s J" for c
    using that ib(3) nb by (intro img) (auto simp: bset_def)
  have datas: "blk ?s ?K g = blk s J g \<and> image ?s (blk s J g) = image s (blk s J g)" if "g < nblk (i_size J)" for g
    using blk' [of g] img [of "blk s J g"] old [of g] that nb by simp
  show ?thesis unfolding prepared_def
    using wfK sel J1 fb blk' [of f] nb datas bs img2 f by (auto simp: meta_def)
qed

lemma file_block_prepared:
  assumes wf: "wf_inode s J" and base: "base s" and n: "0 < n" "i_size J + n \<le> (i_size J div 1024 + 1) * 1024" "i_size J + n \<le> 268 * 1024"
    and space: "freeblock s + need (i_size J + n) \<le> nsect s + need (i_size J)"
  shows "\<exists>s' J' x. file_block J (i_size J div 1024) s = Inr ((J', x), s') \<and> prepared s J s' (J'\<lparr>i_size := i_size J + n\<rparr>) x n"
proof -
  let ?f = "i_size J div 1024" and ?b = "freeblock s"
  note D = wf_inodeD [OF wf] and step = need_step [OF n(1,2)]
  consider (old) "i_size J mod 1024 \<noteq> 0" | (direct) "i_size J mod 1024 = 0" "?f < 12" | (first) "i_size J mod 1024 = 0" "?f = 12"
    | (entry) "i_size J mod 1024 = 0" "12 < ?f" by linarith
  then show ?thesis
  proof cases
    case old
    then show ?thesis using file_block_old [OF wf base n] by blast
  next
    case direct
    then have "?b < nsect s" using space step by simp
    then show ?thesis using file_block_direct [OF wf base n direct] by blast
  next
    case entry
    have nb: "nblk (i_size J) = ?f" using new_size [OF entry(1) n(1,2)] by simp
    have "?f < 268" using nblk_max [OF n(3)] new_size [OF entry(1) n(1,2)] by simp
    then have "file_block J ?f s = Inr ((J, ?b), with_entry s J ?f)"
      using D(6) [of ?f] D(10) nb entry base by (intro file_block_entry) (auto simp: base_def)
    moreover have "prepared s J (with_entry s J ?f) (J\<lparr>i_size := i_size J + n\<rparr>) ?b n"
      by (rule prepared_entry) (use assms entry step nb D(1,6,10) in auto)
    ultimately show ?thesis by blast
  next
    case first
    let ?J = "J\<lparr>i_addrs := (i_addrs J)[12 := ?b]\<rparr>" and ?s = "s\<lparr>freeblock := ?b + 1\<rparr>"
    have nb: "nblk (i_size J) = 12" using new_size [OF first(1) n(1,2)] first by simp
    have sp: "?b + 1 < nsect s" using space step first by simp
    have zero: "image s ?b = replicate 1024 0" and b0: "47 \<le> ?b" using base by (auto simp: base_def)
    have bz: "blk ?s ?J g = 0" if "12 \<le> g" "g < 268" for g
      using that zero D(1) by (simp add: blk_def get_le_def take_replicate drop_replicate)
    have "file_block J ?f s = file_block ?J ?f ?s"
      using D(1) D(5) nb first b0 by (simp add: file_block_def run_simps new_block_run)
    moreover have "file_block ?J ?f ?s = Inr ((?J, ?b + 1), with_entry ?s ?J ?f)"
      using file_block_entry [of ?f ?J ?s] bz [of ?f] first D(1) b0 sp by simp
    moreover have "prepared s J (with_entry ?s ?J ?f) (?J\<lparr>i_size := i_size J + n\<rparr>) (freeblock ?s) n"
    proof (rule prepared_entry [OF wf base n first(1)])
      show "base ?s" using base sp by (auto simp: base_def)
      show "blk ?s ?J g = blk s J g" if "g < ?f" for g using that first by (simp add: blk_def)
    qed (use first step sp b0 D(1) bz in \<open>auto simp: meta_def\<close>)
    ultimately show ?thesis by auto
  qed
qed

subsection \<open>Appending\<close>

lemma need_mono: "m \<le> n \<Longrightarrow> need m \<le> need n"
proof -
  assume "m \<le> n"
  then have "nblk m \<le> nblk n" by (simp add: nblk_def div_le_mono)
  then show ?thesis by (simp add: need_def)
qed

lemma file_block_size:
  "file_block (J\<lparr>i_size := n\<rparr>) f s = Inr ((J', x), s') \<Longrightarrow>
   \<exists>J''. file_block J f s = Inr ((J'', x), s') \<and> J''\<lparr>i_size := n\<rparr> = J'"
  by (auto simp: file_block_def run_simps new_block_run Let_def rsect_def wsect_def split: if_splits)

lemma iappend_loop_appends:
  assumes "base s" "wf_inode s (J\<lparr>i_size := off\<rparr>)" "off + length p \<le> 268 * 1024" "freeblock s + need (off + length p) \<le> nsect s + need off"
  shows "\<exists>s' J'. iappend_loop J off p s = Inr ((J', off + length p), s') \<and> appended s (J\<lparr>i_size := off\<rparr>) s' (J'\<lparr>i_size := off + length p\<rparr>) p"
  using assms
proof (induction "length p" arbitrary: s J off p rule: less_induct)
  case less
  show ?case
  proof (cases "p = []")
    case True
    then have "iappend_loop J off p s = Inr ((J, off + length p), s)" by (simp add: iappend_loop.simps [of J off "[]"] run_simps)
    then show ?thesis using appended_refl [OF less.prems(1,2)] True by auto
  next
    case False
    define f where "f = off div 1024"
    define k where "k = min (length p) ((f + 1) * 1024 - off)"
    let ?J = "J\<lparr>i_size := off\<rparr>" and ?q = "take k p" and ?r = "drop k p"
    have k: "0 < k" "k \<le> length p" "off + k \<le> (f + 1) * 1024" using False block_end [of off] by (auto simp: k_def f_def)
    have "off < 268 * 1024" using less.prems(3) False by (cases p) auto
    then have f: "f < 268" unfolding f_def by (rule less_mult_imp_div_less)
    have nm: "need (off + k) \<le> need (off + length p)" using k by (intro need_mono) simp
    obtain s1 J1 x where fb0: "file_block ?J f s = Inr ((J1, x), s1)" and pr: "prepared s ?J s1 (J1\<lparr>i_size := off + k\<rparr>) x k"
      using file_block_prepared [OF less.prems(2,1) k(1)] k less.prems nm by (auto simp: f_def)
    obtain J2 where fb: "file_block J f s = Inr ((J2, x), s1)" and J2: "J2\<lparr>i_size := off\<rparr> = J1" using file_block_size [OF fb0] by blast
    let ?s = "s1\<lparr>image := (image s1)(x := overwrite (image s1 x) (off mod 1024) ?q)\<rparr>" and ?K = "J2\<lparr>i_size := off + k\<rparr>"
    have pr': "prepared s ?J s1 ?K x (length ?q)" using pr J2 k by auto
    have ap: "appended s ?J ?s ?K ?q" by (rule prepared_write [OF pr']) (use k False in \<open>auto simp: f_def\<close>)
    have "x \<in> bset s1 ?K" using pr' by (auto simp: prepared_def bset_def)
    then have x: "x < nsect s1" using pr' wf_inodeD(3) [of s1 ?K x] by (auto simp: prepared_def base_def)
    note A = appendedD [OF ap]
    have "\<exists>s' J'. iappend_loop J2 (off + k) ?r ?s = Inr ((J', off + k + length ?r), s') \<and> appended ?s ?K s' (J'\<lparr>i_size := off + k + length ?r\<rparr>) ?r"
      by (rule less.hyps) (use A k False less.prems in auto)
    then obtain s' J' where run: "iappend_loop J2 (off + k) ?r ?s = Inr ((J', off + length p), s')" and ap2: "appended ?s ?K s' (J'\<lparr>i_size := off + length p\<rparr>) ?r"
      using k by auto
    have "?s = s1\<lparr>image := (image s1)(x := overwrite (image s1 x) (off mod 1024) ?q), nsect := max (nsect s1) (x + 1)\<rparr>" using x by (simp add: max_def)
    moreover have "off - f * 1024 = off mod 1024" by (simp add: f_def minus_div_mult_eq_mod)
    moreover have "min (length p) (1024 + f * 1024 - off) = k" by (simp add: k_def)
    ultimately have "iappend_loop J off p s = iappend_loop J2 (off + k) ?r ?s"
      using False f fb x by (simp add: iappend_loop.simps [of J off p] Let_def f_def [symmetric] run_simps rsect_run wsect_def)
    then show ?thesis using run appended_trans [OF ap ap2] by auto
  qed
qed

subsection \<open>The inodes of an image\<close>

definition inode_of :: "mkfs_st \<Rightarrow> nat \<Rightarrow> inode" where
  "inode_of s i = load_dinode (image s (IBLOCK i mk_sb)) i (zero_inode i)"

text \<open>
  The well-formed images: every inode that is allocated is well-formed and no two of them share a block.
\<close>

definition fs_ok :: "mkfs_st \<Rightarrow> bool" where
  "fs_ok s \<longleftrightarrow> base s \<and> nsect s = FSSIZE \<and> freeinode s \<le> NINODES \<and> (\<forall>i \<in> {1..<freeinode s}. wf_inode s (inode_of s i)) \<and>
     (\<forall>i \<in> {1..<freeinode s}. \<forall>j \<in> {1..<freeinode s}. i \<noteq> j \<longrightarrow> bset s (inode_of s i) \<inter> bset s (inode_of s j) = {})"

lemma IBLOCK_mk: "IBLOCK i mk_sb = i div 16 + 33"
  by (simp add: IBLOCK_def mk_vals)

lemma IBLOCK_range: "i < 208 \<Longrightarrow> 33 \<le> IBLOCK i mk_sb \<and> IBLOCK i mk_sb < 46"
  by (simp add: IBLOCK_mk less_mult_imp_div_less)

lemma inode_frame:
  assumes wf: "wf_inode s J" and same: "\<And>b. b \<in> bset s J \<Longrightarrow> image s' b = image s b" and fb: "freeblock s \<le> freeblock s'"
  shows "wf_inode s' J \<and> bset s' J = bset s J \<and> file_bytes s' J = file_bytes s J"
proof -
  note D = wf_inodeD [OF wf]
  have ind: "12 < nblk (i_size J) \<Longrightarrow> image s' (i_addrs J ! 12) = image s (i_addrs J ! 12)" by (rule same) (simp add: bset_def)
  have blk: "blk s' J f = blk s J f" if "f < 12 \<or> 12 < nblk (i_size J)" for f using that ind by (auto simp: blk_def)
  have blk2: "blk s' J f = blk s J f" if "f < nblk (i_size J)" for f by (rule blk) (use that in auto)
  have bs: "bset s' J = bset s J" using blk2 by (auto simp: bset_def image_iff)
  have "wf_inode s' J"
  proof (rule wf_inodeI)
    show "blk s' J f \<noteq> blk s' J g" if "f < g" "g < nblk (i_size J)" for f g using D(7) [of f g] blk2 [of f] blk2 [of g] that by auto
    show "47 \<le> blk s' J f \<and> blk s' J f < freeblock s'" if "f < nblk (i_size J)" for f using D(9) [OF that] blk2 [OF that] fb by simp
    show "i_addrs J ! 12 \<noteq> blk s' J f" if "12 < nblk (i_size J)" "f < nblk (i_size J)" for f using D(8) [OF that] blk2 [OF that(2)] by simp
  qed (use D blk fb in auto)
  moreover have "fbyte s' J k = fbyte s J k" if "k < i_size J" for k
  proof -
    note nb = nblk_less [OF that]
    have "image s' (blk s J (k div 1024)) = image s (blk s J (k div 1024))" by (rule same) (use nb in \<open>auto simp: bset_def\<close>)
    then show ?thesis using blk2 [OF nb] by (simp add: fbyte_def)
  qed
  ultimately show ?thesis using bs by (simp add: file_bytes_def)
qed

lemma appended_bytes:
  assumes "appended s J s' J' bs"
  shows "file_bytes s' J' = file_bytes s J @ bs"
proof (rule nth_equalityI)
  note A = appendedD [OF assms]
  show "length (file_bytes s' J') = length (file_bytes s J @ bs)" using A(4) by (simp add: file_bytes_def)
  fix k assume "k < length (file_bytes s' J')"
  then have "k < i_size J + length bs" using A(4) by (simp add: file_bytes_def)
  then show "file_bytes s' J' ! k = (file_bytes s J @ bs) ! k"
    using A(4) A(8) [of k] A(9) [of "k - i_size J"] by (cases "k < i_size J") (auto simp: file_bytes_def nth_append)
qed

lemma wf_fits:
  assumes wf: "wf_inode s J" and "base s" and "short (i_type J) = i_type J" "short (i_major J) = i_major J" "short (i_minor J) = i_minor J"
    "short (i_nlink J) = i_nlink J"
  shows "inode_fits J"
proof -
  note D = wf_inodeD [OF wf]
  have fb: "freeblock s \<le> 2000" using \<open>base s\<close> by (simp add: base_def)
  have "i_addrs J ! k < 2 ^ 32" if "k < 13" for k
  proof (cases "k = 12")
    case True
    then show ?thesis using D(5) D(10) fb by (cases "12 < nblk (i_size J)") auto
  next
    case False
    then show ?thesis using D(4) [of k] D(9) [of k] that fb by (cases "k < nblk (i_size J)") (auto simp: blk_def)
  qed
  then show ?thesis using assms D(1,2) by (auto simp: inode_fits_def in_set_conv_nth)
qed

lemma short_idem: "short (short x) = short x"
proof -
  have "short x mod 2 ^ 16 = x mod 2 ^ 16" unfolding short_def Let_def by auto
  then show ?thesis by (metis short_mod)
qed

lemma load_short:
  "short (i_type (load_dinode x i J)) = i_type (load_dinode x i J)" "short (i_major (load_dinode x i J)) = i_major (load_dinode x i J)"
  "short (i_minor (load_dinode x i J)) = i_minor (load_dinode x i J)" "short (i_nlink (load_dinode x i J)) = i_nlink (load_dinode x i J)"
  by (simp_all add: load_dinode_def Let_def get_short_def short_idem)

text \<open>\<^verbatim>\<open>winode\<close> changes one inode.\<close>

lemma winode_run:
  assumes fits: "inode_fits J" and i: "i < 208" and s: "\<forall>b. length (image s b) = 1024" "47 \<le> nsect s"
    and J: "J = (zero_inode i)\<lparr>i_type := i_type J, i_major := i_major J, i_minor := i_minor J, i_nlink := i_nlink J, i_size := i_size J, i_addrs := i_addrs J\<rparr>"
  shows "\<exists>x. winode i J s = Inr ((), s\<lparr>image := (image s)(IBLOCK i mk_sb := x)\<rparr>) \<and> length x = 1024 \<and>
    inode_of (s\<lparr>image := (image s)(IBLOCK i mk_sb := x)\<rparr>) i = J \<and>
    (\<forall>j. j \<noteq> i \<longrightarrow> inode_of (s\<lparr>image := (image s)(IBLOCK i mk_sb := x)\<rparr>) j = inode_of s j)"
proof -
  let ?b = "IBLOCK i mk_sb"
  let ?x = "store_dinode J (image s ?b)"
  have inum: "i_inum J = i" by (subst J) (simp add: zero_inode_def)
  note r = IBLOCK_range [OF i]
  have rt: "load_dinode ?x (i_inum J) (zero_inode i) = (zero_inode i)\<lparr>i_type := i_type J, i_major := i_major J,
       i_minor := i_minor J, i_nlink := i_nlink J, i_size := i_size J, i_addrs := i_addrs J\<rparr>" "length ?x = 1024"
    "\<And>m K. m mod 16 \<noteq> i mod 16 \<Longrightarrow> load_dinode ?x m K = load_dinode (image s ?b) m K"
    using dinode_roundtrip [OF fits, of "image s ?b"] s inum by auto
  have "inode_of (s\<lparr>image := (image s)(?b := ?x)\<rparr>) j = inode_of s j" if "j \<noteq> i" for j
  proof (cases "IBLOCK j mk_sb = ?b")
    case True
    then have "j mod 16 \<noteq> i mod 16" using that by (auto simp: IBLOCK_mk) (metis mult_div_mod_eq)
    then show ?thesis using rt(3) True by (simp add: inode_of_def)
  qed (simp add: inode_of_def)
  moreover have "inode_of (s\<lparr>image := (image s)(?b := ?x)\<rparr>) i = J" using rt(1) inum J by (simp add: inode_of_def)
  moreover have "winode i J s = Inr ((), s\<lparr>image := (image s)(?b := store_dinode (J\<lparr>i_inum := i\<rparr>) (image s ?b))\<rparr>)"
    using r s by (simp add: winode_def run_simps rsect_run wsect_def max_def)
  moreover have "J\<lparr>i_inum := i\<rparr> = J" using inum by simp
  ultimately show ?thesis using rt(2) by (intro exI [of _ ?x]) simp
qed

lemma fs_okD:
  assumes "fs_ok s"
  shows "base s" "nsect s = 2000" "freeinode s \<le> 200" "1 \<le> i \<Longrightarrow> i < freeinode s \<Longrightarrow> wf_inode s (inode_of s i)"
    "1 \<le> i \<Longrightarrow> i < freeinode s \<Longrightarrow> 1 \<le> j \<Longrightarrow> j < freeinode s \<Longrightarrow> i \<noteq> j \<Longrightarrow> bset s (inode_of s i) \<inter> bset s (inode_of s j) = {}"
  using assms unfolding fs_ok_def by auto

lemma inode_of_fields:
  "inode_of s i = (zero_inode i)\<lparr>i_type := i_type (inode_of s i), i_major := i_major (inode_of s i), i_minor := i_minor (inode_of s i),
     i_nlink := i_nlink (inode_of s i), i_size := i_size (inode_of s i), i_addrs := i_addrs (inode_of s i)\<rparr>"
  by (simp add: inode_of_def load_dinode_def Let_def zero_inode_def)

lemma meta_fields:
  "meta J = meta (inode_of s i) \<Longrightarrow> J = (zero_inode i)\<lparr>i_type := i_type J, i_major := i_major J, i_minor := i_minor J,
     i_nlink := i_nlink J, i_size := i_size J, i_addrs := i_addrs J\<rparr>"
  by (subst (asm) inode_of_fields) (simp add: meta_def zero_inode_def)

text \<open>The effect of one call of \<^verbatim>\<open>iappend\<close> on the whole image.\<close>

definition grown :: "mkfs_st \<Rightarrow> mkfs_st \<Rightarrow> nat \<Rightarrow> byte list \<Rightarrow> bool" where
  "grown s s' i p \<longleftrightarrow> fs_ok s' \<and> freeinode s' = freeinode s \<and> file_bytes s' (inode_of s' i) = file_bytes s (inode_of s i) @ p \<and>
     meta (inode_of s' i) = meta (inode_of s i) \<and> i_size (inode_of s' i) = i_size (inode_of s i) + length p \<and>
     (\<forall>j \<in> {1..<freeinode s} - {i}. inode_of s' j = inode_of s j \<and> file_bytes s' (inode_of s j) = file_bytes s (inode_of s j)) \<and>
     freeblock s' + need (i_size (inode_of s i)) = freeblock s + need (i_size (inode_of s i) + length p) \<and> (\<forall>b < 33. image s' b = image s b)"

lemma iappend_grows:
  assumes ok: "fs_ok s" and i: "1 \<le> i" "i < freeinode s" and size: "i_size (inode_of s i) + length p \<le> 268 * 1024"
    and space: "freeblock s + need (i_size (inode_of s i) + length p) \<le> FSSIZE + need (i_size (inode_of s i))"
  shows "\<exists>s'. iappend i p s = Inr ((), s') \<and> grown s s' i p"
proof -
  let ?J = "inode_of s i"
  note F = fs_okD [OF ok] and r = IBLOCK_range [of i]
  have wf: "wf_inode s ?J" and i208: "i < 208" using F(3,4) i by auto
  have "\<exists>s' J'. iappend_loop ?J (i_size ?J) p s = Inr ((J', i_size ?J + length p), s') \<and>
      appended s (?J\<lparr>i_size := i_size ?J\<rparr>) s' (J'\<lparr>i_size := i_size ?J + length p\<rparr>) p"
    by (rule iappend_loop_appends) (use F wf size space in auto)
  then obtain s1 J1 where run: "iappend_loop ?J (i_size ?J) p s = Inr ((J1, i_size ?J + length p), s1)"
    and ap: "appended s ?J s1 (J1\<lparr>i_size := i_size ?J + length p\<rparr>) p" by auto
  let ?K = "J1\<lparr>i_size := i_size ?J + length p\<rparr>"
  note A = appendedD [OF ap]
  have fits: "inode_fits ?K" using load_short [of "image s (IBLOCK i mk_sb)" i "zero_inode i"] A(3)
    by (intro wf_fits [OF A(2,1)]) (auto simp: meta_def inode_of_def)
  have low: "image s1 b = image s b" if "b < 47" for b using A(12) [of b] wf_inodeD(3) [OF wf, of b] F(1) that by (auto simp: base_def)
  have rd: "rinode i s = Inr (?J, s)" using r i208 F(2) by (simp add: rinode_def rsect_run run_simps inode_of_def)
  obtain x where w: "winode i ?K s1 = Inr ((), s1\<lparr>image := (image s1)(IBLOCK i mk_sb := x)\<rparr>)" and x: "length x = 1024"
    and own: "inode_of (s1\<lparr>image := (image s1)(IBLOCK i mk_sb := x)\<rparr>) i = ?K"
    and other: "\<forall>j. j \<noteq> i \<longrightarrow> inode_of (s1\<lparr>image := (image s1)(IBLOCK i mk_sb := x)\<rparr>) j = inode_of s1 j"
    using winode_run [OF fits i208 _ _ meta_fields [OF A(3)], of s1] A(1,7) F(2) by (auto simp: base_def)
  define s2 where "s2 = s1\<lparr>image := (image s1)(IBLOCK i mk_sb := x)\<rparr>"
  have sel: "freeblock s2 = freeblock s1" "freeinode s2 = freeinode s1" "nsect s2 = nsect s1" by (simp_all add: s2_def)
  have img: "image s2 b = image s1 b" if "47 \<le> b \<or> b < 33" for b using that r i208 by (auto simp: s2_def)
  have K2: "wf_inode s2 ?K \<and> bset s2 ?K = bset s1 ?K \<and> file_bytes s2 ?K = file_bytes s1 ?K"
    by (rule inode_frame) (use A(2) img sel wf_inodeD(3) [OF A(2)] in auto)
  have J2: "inode_of s2 j = inode_of s j" if "j \<noteq> i" "j < 208" for j using other that low IBLOCK_range [of j] by (simp add: s2_def inode_of_def)
  have O: "wf_inode s2 (inode_of s j) \<and> bset s2 (inode_of s j) = bset s (inode_of s j) \<and> file_bytes s2 (inode_of s j) = file_bytes s (inode_of s j)"
    if j: "1 \<le> j" "j < freeinode s" "j \<noteq> i" for j
  proof (rule inode_frame [OF F(4) [OF j(1,2)]])
    fix b assume b: "b \<in> bset s (inode_of s j)"
    then have "47 \<le> b" "b < freeblock s" using wf_inodeD(3) [OF F(4) [OF j(1,2)]] by auto
    moreover have "b \<notin> bset s ?J" using F(5) [OF j(1,2) i] j(3) b by auto
    ultimately show "image s2 b = image s b" using img A(12) by simp
  qed (use sel A(10) in simp)
  have own2: "inode_of s2 i = ?K" using own by (simp add: s2_def)
  have new: "b \<in> bset s ?J \<or> freeblock s \<le> b" if "b \<in> bset s2 ?K" for b using K2 A(11) [of b] that by auto
  have disj: "bset s2 ?K \<inter> bset s2 (inode_of s j) = {}" if j: "1 \<le> j" "j < freeinode s" "j \<noteq> i" for j
    using new O [OF j] F(5) [OF i j(1,2)] j(3) wf_inodeD(3) [OF F(4) [OF j(1,2)]] by fastforce
  have "fs_ok s2" unfolding fs_ok_def
  proof (intro conjI ballI impI)
    show "base s2" using A(1) x img r i208 sel by (auto simp: base_def s2_def)
    show "wf_inode s2 (inode_of s2 j)" if "j \<in> {1..<freeinode s2}" for j using O [of j] J2 [of j] K2 own2 that sel A(6) F(3) by (cases "j = i") auto
    show "bset s2 (inode_of s2 j) \<inter> bset s2 (inode_of s2 k) = {}" if "j \<in> {1..<freeinode s2}" "k \<in> {1..<freeinode s2}" "j \<noteq> k" for j k
      using that O [of j] O [of k] J2 [of j] J2 [of k] own2 disj [of j] disj [of k] F(3) F(5) [of j k] sel A(6)
      by (cases "j = i"; cases "k = i") (auto simp: Int_commute)
  qed (use sel A F in auto)
  moreover have "iappend i p s = Inr ((), s2)" using rd run w by (simp add: iappend_def run_simps s2_def)
  moreover have "image s2 b = image s b" if "b < 33" for b using img low that by simp
  ultimately show ?thesis using O J2 own2 K2 A(3-6) sel F(3) appended_bytes [OF ap] by (auto simp: grown_def meta_def)
qed

text \<open>\<^verbatim>\<open>ialloc\<close> gives the next inode, empty.\<close>

lemma mk_ialloc_run:
  assumes ok: "fs_ok s" and i: "freeinode s < NINODES" and ty: "short ty = ty"
  shows "\<exists>s'. mk_ialloc ty s = Inr (freeinode s, s') \<and> fs_ok s' \<and> freeinode s' = freeinode s + 1 \<and> freeblock s' = freeblock s \<and>
    inode_of s' (freeinode s) = (zero_inode (freeinode s))\<lparr>i_type := ty, i_nlink := 1\<rparr> \<and>
    (\<forall>j \<in> {1..<freeinode s}. inode_of s' j = inode_of s j \<and> file_bytes s' (inode_of s j) = file_bytes s (inode_of s j)) \<and> (\<forall>b < 33. image s' b = image s b)"
proof -
  let ?i = "freeinode s"
  let ?K = "(zero_inode ?i)\<lparr>i_type := ty, i_nlink := 1\<rparr>" and ?s = "s\<lparr>freeinode := ?i + 1\<rparr>"
  note F = fs_okD [OF ok] and r = IBLOCK_range [of ?i]
  have "inode_fits ?K" using ty by (simp add: inode_fits_def zero_inode_def short_def)
  then obtain x where w: "winode ?i ?K ?s = Inr ((), ?s\<lparr>image := (image s)(IBLOCK ?i mk_sb := x)\<rparr>)" and x: "length x = 1024"
    and own: "inode_of (?s\<lparr>image := (image s)(IBLOCK ?i mk_sb := x)\<rparr>) ?i = ?K"
    and other: "\<forall>j. j \<noteq> ?i \<longrightarrow> inode_of (?s\<lparr>image := (image s)(IBLOCK ?i mk_sb := x)\<rparr>) j = inode_of ?s j"
    using winode_run [of ?K ?i ?s] F(1,2) i by (auto simp: base_def zero_inode_def)
  define s2 where "s2 = ?s\<lparr>image := (image s)(IBLOCK ?i mk_sb := x)\<rparr>"
  have sel: "freeblock s2 = freeblock s" "freeinode s2 = freeinode s + 1" "nsect s2 = nsect s" by (simp_all add: s2_def)
  have img: "image s2 b = image s b" if "47 \<le> b \<or> b < 33" for b using that r i by (auto simp: s2_def)
  have O: "inode_of s2 j = inode_of s j \<and> wf_inode s2 (inode_of s j) \<and> bset s2 (inode_of s j) = bset s (inode_of s j) \<and>
      file_bytes s2 (inode_of s j) = file_bytes s (inode_of s j)" if j: "1 \<le> j" "j < ?i" for j
  proof
    show "inode_of s2 j = inode_of s j" using other j by (simp add: s2_def inode_of_def)
    show "wf_inode s2 (inode_of s j) \<and> bset s2 (inode_of s j) = bset s (inode_of s j) \<and> file_bytes s2 (inode_of s j) = file_bytes s (inode_of s j)"
      by (rule inode_frame [OF F(4) [OF j]]) (use img wf_inodeD(3) [OF F(4) [OF j]] sel in auto)
  qed
  have K: "wf_inode s2 ?K" "bset s2 ?K = {}" by (auto simp: wf_inode_def bset_def zero_inode_def nblk_def)
  have own2: "inode_of s2 ?i = ?K" using own by (simp add: s2_def)
  have "fs_ok s2" unfolding fs_ok_def
  proof (intro conjI ballI impI)
    show "base s2" using F(1) x r i by (auto simp: base_def s2_def)
    show "wf_inode s2 (inode_of s2 j)" if "j \<in> {1..<freeinode s2}" for j using O [of j] K own2 that sel by (cases "j = ?i") auto
    show "bset s2 (inode_of s2 j) \<inter> bset s2 (inode_of s2 k) = {}" if "j \<in> {1..<freeinode s2}" "k \<in> {1..<freeinode s2}" "j \<noteq> k" for j k
      using that O [of j] O [of k] own2 K F(5) [of j k] sel by (cases "j = ?i"; cases "k = ?i") auto
  qed (use sel F i in auto)
  moreover have "mk_ialloc ty s = Inr (?i, s2)" using w by (simp add: mk_ialloc_def run_simps s2_def)
  ultimately show ?thesis using O own2 sel img by auto
qed

subsection \<open>What an image holds\<close>

text \<open>
  An image as the list of its files, from inode 1 on, each with its type and its bytes.  The operations of mkfs append a file and
  extend one.
\<close>

definition used :: "(int \<times> byte list) list \<Rightarrow> nat" where
  "used L = sum_list (map (\<lambda>x. need (length (snd x))) L)"

definition holds :: "mkfs_st \<Rightarrow> (nat \<Rightarrow> byte list) \<Rightarrow> (int \<times> byte list) list \<Rightarrow> bool" where
  "holds s im L \<longleftrightarrow> fs_ok s \<and> freeinode s = length L + 1 \<and> freeblock s = 47 + used L \<and> (\<forall>b < 33. image s b = im b) \<and>
     (\<forall>k < length L. i_type (inode_of s (k + 1)) = fst (L ! k) \<and> i_nlink (inode_of s (k + 1)) = 1 \<and> file_bytes s (inode_of s (k + 1)) = snd (L ! k))"

definition fits_image :: "(int \<times> byte list) list \<Rightarrow> bool" where
  "fits_image L \<longleftrightarrow> length L < NINODES \<and> (\<forall>x \<in> set L. length (snd x) \<le> MAXFILE * BSIZE) \<and> 47 + used L \<le> FSSIZE"

definition grow :: "(int \<times> byte list) list \<Rightarrow> nat \<Rightarrow> byte list \<Rightarrow> (int \<times> byte list) list" where
  "grow L k p = L[k := (fst (L ! k), snd (L ! k) @ p)]"

lemma length_file_bytes [simp]: "length (file_bytes s J) = i_size J"
  by (simp add: file_bytes_def)

lemma file_bytes_empty [simp]: "i_size J = 0 \<Longrightarrow> file_bytes s J = []"
  by (simp add: file_bytes_def)

lemma used_grow: "k < length L \<Longrightarrow> used (grow L k p) + need (length (snd (L ! k))) = used L + need (length (snd (L ! k)) + length p)"
proof -
  assume k: "k < length L"
  have "need (length (snd (L ! k))) \<le> used L" using k member_le_sum_list [of "need (length (snd (L ! k)))" "map (\<lambda>x. need (length (snd x))) L"]
    by (auto simp: used_def)
  then show ?thesis using k by (simp add: used_def grow_def map_update sum_list_update)
qed

lemma iappend_holds:
  assumes h: "holds s im L" and k: "k < length L" and f: "fits_image (grow L k p)"
  shows "\<exists>s'. iappend (k + 1) p s = Inr ((), s') \<and> holds s' im (grow L k p)"
proof -
  have k1: "1 \<le> k + 1" "k + 1 < freeinode s" using h k by (auto simp: holds_def)
  have size: "i_size (inode_of s (k + 1)) = length (snd (L ! k))" using h k by (metis holds_def length_file_bytes)
  have "(fst (L ! k), snd (L ! k) @ p) \<in> set (grow L k p)" using k by (simp add: grow_def set_update_memI)
  then have len: "length (snd (L ! k)) + length p \<le> 268 * 1024" using f by (force simp: fits_image_def)
  have "\<exists>s'. iappend (k + 1) p s = Inr ((), s') \<and> grown s s' (k + 1) p"
    by (rule iappend_grows) (use h k1 size len f used_grow [OF k, of p] in \<open>auto simp: holds_def fits_image_def\<close>)
  then obtain s' where run: "iappend (k + 1) p s = Inr ((), s')" and g: "grown s s' (k + 1) p" by blast
  have oth: "inode_of s' (j + 1) = inode_of s (j + 1) \<and> file_bytes s' (inode_of s (j + 1)) = file_bytes s (inode_of s (j + 1))"
    if "j < length L" "j \<noteq> k" for j
  proof -
    have "j + 1 \<in> {1..<freeinode s} - {k + 1}" using that h by (auto simp: holds_def)
    then show ?thesis using g unfolding grown_def by blast
  qed
  have "holds s' im (grow L k p)" unfolding holds_def
  proof (intro conjI allI impI)
    show "freeblock s' = 47 + used (grow L k p)" using g h size used_grow [OF k, of p] by (auto simp: grown_def holds_def)
    fix j assume "j < length (grow L k p)"
    then have j: "j < length L" by (simp add: grow_def)
    show "i_type (inode_of s' (j + 1)) = fst (grow L k p ! j)" "i_nlink (inode_of s' (j + 1)) = 1" "file_bytes s' (inode_of s' (j + 1)) = snd (grow L k p ! j)"
      using g h oth [OF j] j k by (cases "j = k"; auto simp: grown_def holds_def grow_def meta_def)+
  qed (use g h in \<open>auto simp: grown_def holds_def grow_def\<close>)
  then show ?thesis using run by blast
qed

lemma mk_ialloc_holds:
  assumes h: "holds s im L" and f: "fits_image (L @ [(ty, [])])" and ty: "short ty = ty"
  shows "\<exists>s'. mk_ialloc ty s = Inr (length L + 1, s') \<and> holds s' im (L @ [(ty, [])])"
proof -
  have fi: "freeinode s = length L + 1" using h by (simp add: holds_def)
  have "\<exists>s'. mk_ialloc ty s = Inr (freeinode s, s') \<and> fs_ok s' \<and> freeinode s' = freeinode s + 1 \<and> freeblock s' = freeblock s \<and>
    inode_of s' (freeinode s) = (zero_inode (freeinode s))\<lparr>i_type := ty, i_nlink := 1\<rparr> \<and>
    (\<forall>j \<in> {1..<freeinode s}. inode_of s' j = inode_of s j \<and> file_bytes s' (inode_of s j) = file_bytes s (inode_of s j)) \<and> (\<forall>b < 33. image s' b = image s b)"
    by (rule mk_ialloc_run) (use h f fi ty in \<open>auto simp: holds_def fits_image_def\<close>)
  then obtain s' where s': "mk_ialloc ty s = Inr (length L + 1, s')" "fs_ok s'" "freeinode s' = length L + 2" "freeblock s' = freeblock s"
    "inode_of s' (length L + 1) = (zero_inode (length L + 1))\<lparr>i_type := ty, i_nlink := 1\<rparr>" "\<forall>b < 33. image s' b = image s b"
    "\<forall>j \<in> {1..<length L + 1}. inode_of s' j = inode_of s j \<and> file_bytes s' (inode_of s j) = file_bytes s (inode_of s j)" unfolding fi by auto
  have "holds s' im (L @ [(ty, [])])" unfolding holds_def
  proof (intro conjI allI impI)
    fix j assume "j < length (L @ [(ty, [])])"
    then have "j = length L \<or> j < length L \<and> j + 1 \<in> {1..<length L + 1}" by auto
    then show "i_type (inode_of s' (j + 1)) = fst ((L @ [(ty, [])]) ! j)" "i_nlink (inode_of s' (j + 1)) = 1"
      "file_bytes s' (inode_of s' (j + 1)) = snd ((L @ [(ty, [])]) ! j)"
      using s'(5,7) h by (auto simp: holds_def nth_append zero_inode_def)
  qed (use s' h in \<open>auto simp: holds_def used_def need_def nblk_def\<close>)
  then show ?thesis using s'(1) by blast
qed

end
