(* ===== verification/Mkfs_Image.thy ===== *)
theory Mkfs_Image
  imports Mkfs_Props
begin

section \<open>The image that mkfs leaves\<close>

text \<open>
  The files and the root directory that are in the image when \<^verbatim>\<open>mkfs\<close> exits, and that the image is well-formed: the super block says
  where things are, the bitmap marks the blocks in use, and no block belongs to two files.
\<close>

subsection \<open>Adding files\<close>

definition file_name :: "byte list \<Rightarrow> byte list" where
  "file_name nm = (if char_at (shortname nm) 0 = 95 then drop 1 (shortname nm) else shortname nm)"

definition good_file :: "byte list \<times> byte list list option \<Rightarrow> bool" where
  "good_file file \<longleftrightarrow> 47 \<notin> set (shortname (fst file)) \<and> length (file_name (fst file)) \<le> DIRSIZ \<and> snd file \<noteq> None"

definition content :: "byte list \<times> byte list list option \<Rightarrow> byte list" where
  "content file = (case snd file of None \<Rightarrow> [] | Some pieces \<Rightarrow> concat pieces)"

definition add_file :: "(int \<times> byte list) list \<Rightarrow> byte list \<times> byte list list option \<Rightarrow> (int \<times> byte list) list" where
  "add_file L file = grow L 0 (mk_dirent (length L + 1) (file_name (fst file))) @ [(T_FILE, content file)]"

definition root_only :: "(int \<times> byte list) list" where
  "root_only = [(T_DIR, mk_dirent 1 (str ''.'') @ mk_dirent 1 (str ''..''))]"

definition image_of :: "(byte list \<times> byte list list option) list \<Rightarrow> (int \<times> byte list) list" where
  "image_of files = foldl add_file root_only files"

text \<open>A list of files that is not larger than another one needs no more room.\<close>

definition below :: "(int \<times> byte list) list \<Rightarrow> (int \<times> byte list) list \<Rightarrow> bool" where
  "below L L' \<longleftrightarrow> length L \<le> length L' \<and> (\<forall>k < length L. length (snd (L ! k)) \<le> length (snd (L' ! k)))"

lemma below_refl: "below L L"
  by (simp add: below_def)

lemma below_trans:
  assumes "below L L'" "below L' L''"
  shows "below L L''"
proof -
  have "length (snd (L ! k)) \<le> length (snd (L'' ! k))" if "k < length L" for k
    using assms that le_trans [of "length (snd (L ! k))" "length (snd (L' ! k))"] by (simp add: below_def)
  then show ?thesis using assms by (simp add: below_def)
qed

lemma fits_below:
  assumes b: "below L L'" and f: "fits_image L'"
  shows "fits_image L"
proof -
  have "used L = (\<Sum>k < length L. need (length (snd (L ! k))))" by (simp add: used_def sum_list_sum_nth atLeast0LessThan)
  also have "\<dots> \<le> (\<Sum>k < length L. need (length (snd (L' ! k))))" using b by (intro sum_mono need_mono) (simp add: below_def)
  also have "\<dots> \<le> (\<Sum>k < length L'. need (length (snd (L' ! k))))" using b by (intro sum_mono2) (auto simp: below_def)
  also have "\<dots> = used L'" by (simp add: used_def sum_list_sum_nth atLeast0LessThan)
  finally have u: "used L \<le> used L'" .
  moreover have "length (snd x) \<le> 268 * 1024" if x: "x \<in> set L" for x
  proof -
    obtain k where "k < length L" "x = L ! k" using x by (metis in_set_conv_nth)
    then have "k < length L'" "length (snd x) \<le> length (snd (L' ! k))" using b by (auto simp: below_def)
    moreover have "length (snd (L' ! k)) \<le> 268 * 1024" using f nth_mem [OF \<open>k < length L'\<close>] by (simp add: fits_image_def)
    ultimately show ?thesis by simp
  qed
  ultimately show ?thesis using b f by (simp add: fits_image_def below_def)
qed

lemma length_grow [simp]: "length (grow L k p) = length L"
  by (simp add: grow_def)

lemma grow_more:
  "k < length L \<Longrightarrow> grow (grow L k p) k q = grow L k (p @ q)" "k < length L \<Longrightarrow> grow L k [] = L"
  "k < length L \<Longrightarrow> grow (L @ M) k p = grow L k p @ M"
  by (simp_all add: grow_def nth_append list_update_append)

lemma below_grow: "below L (grow L k p)"
  by (cases "k < length L") (auto simp: below_def grow_def nth_list_update)

lemma below_append: "below L (L @ M)"
  by (simp add: below_def nth_append)

lemma below_add_file: "below L (add_file L file)"
  unfolding add_file_def by (rule below_trans [OF below_grow below_append])

lemma below_files: "below L (foldl add_file L files)"
proof (induction files arbitrary: L)
  case (Cons f fs)
  then show ?case using below_trans [OF below_add_file [of L f]] by simp
qed (simp add: below_refl)

lemma pieces_hold:
  "holds s im L \<Longrightarrow> k < length L \<Longrightarrow> fits_image (grow L k (concat ps)) \<Longrightarrow>
   \<exists>s'. forK ps (iappend (k + 1)) s = Inr ((), s') \<and> holds s' im (grow L k (concat ps))"
proof (induction ps arbitrary: s L)
  case (Cons p ps)
  have e: "grow L k (concat (p # ps)) = grow (grow L k p) k (concat ps)" using Cons.prems(2) by (simp add: grow_more)
  have "fits_image (grow L k p)" using Cons.prems(3) unfolding e by (rule fits_below [OF below_grow])
  then obtain s1 where s1: "iappend (k + 1) p s = Inr ((), s1)" "holds s1 im (grow L k p)" using iappend_holds Cons.prems by blast
  show ?case using Cons.IH [OF s1(2)] Cons.prems s1(1) unfolding e by (auto simp: run_simps)
qed (simp add: grow_more run_simps)

lemma put_file_holds:
  assumes h: "holds s im L" and L: "L \<noteq> []" and g: "good_file file" and f: "fits_image (add_file L file)"
  shows "\<exists>s'. put_file 1 file s = Inr ((), s') \<and> holds s' im (add_file L file)"
proof -
  obtain ps where ps: "snd file = Some ps" using g by (auto simp: good_file_def)
  let ?d = "mk_dirent (length L + 1) (file_name (fst file))"
  let ?L1 = "L @ [(T_FILE, [])]" and ?L2 = "grow L 0 (mk_dirent (length L + 1) (file_name (fst file))) @ [(T_FILE, [])]"
  have a: "add_file L file = grow ?L2 (length L) (concat ps)" using ps by (simp add: add_file_def content_def grow_def nth_append list_update_append)
  have f2: "fits_image ?L2" using f unfolding a by (rule fits_below [OF below_grow])
  have e2: "?L2 = grow ?L1 0 ?d" using L by (simp add: grow_more)
  have f1: "fits_image ?L1" using f2 unfolding e2 by (rule fits_below [OF below_grow])
  obtain s1 where s1: "mk_ialloc T_FILE s = Inr (length L + 1, s1)" "holds s1 im ?L1" using mk_ialloc_holds [OF h f1] by (auto simp: short_def)
  obtain s2 where s2: "iappend (0 + 1) ?d s1 = Inr ((), s2)" "holds s2 im ?L2" using iappend_holds [OF s1(2), of 0 ?d] f2 L unfolding e2 by auto
  obtain s3 where s3: "forK ps (iappend (length L + 1)) s2 = Inr ((), s3)" "holds s3 im (add_file L file)"
    using pieces_hold [OF s2(2), of "length L" ps] f unfolding a by auto
  have "put_file 1 file s = Inr ((), s3)"
    using g s1(1) s2(1) s3(1) ps by (simp add: put_file_def good_file_def file_name_def [symmetric] Let_def run_simps)
  then show ?thesis using s3(2) by blast
qed

lemma files_hold:
  "holds s im L \<Longrightarrow> L \<noteq> [] \<Longrightarrow> \<forall>file \<in> set files. good_file file \<Longrightarrow> fits_image (foldl add_file L files) \<Longrightarrow>
   \<exists>s'. forK files (put_file 1) s = Inr ((), s') \<and> holds s' im (foldl add_file L files)"
proof (induction files arbitrary: s L)
  case (Cons f fs)
  have "fits_image (add_file L f)" using Cons.prems(4) fits_below [OF below_files] by simp
  then obtain s1 where s1: "put_file 1 f s = Inr ((), s1)" "holds s1 im (add_file L f)"
    using put_file_holds [OF Cons.prems(1,2), of f] Cons.prems(3) by auto
  have "add_file L f \<noteq> []" by (simp add: add_file_def)
  then show ?case using Cons.IH [OF s1(2)] Cons.prems s1(1) by (auto simp: run_simps)
qed (simp add: run_simps)

subsection \<open>The list of files, spelled out\<close>

lemma length_mk_dirent [simp]: "length (mk_dirent i nm) = 16"
  by (simp add: mk_dirent_def dirent_name_def)

definition root_entries :: "(byte list \<times> byte list list option) list \<Rightarrow> byte list" where
  "root_entries files = mk_dirent 1 (str ''.'') @ mk_dirent 1 (str ''..'') @
     concat (map (\<lambda>k. mk_dirent (k + 2) (file_name (fst (files ! k)))) [0..<length files])"

definition mkfs_fits :: "(byte list \<times> byte list list option) list \<Rightarrow> bool" where
  "mkfs_fits files \<longleftrightarrow> length files < NINODES - 1 \<and> (\<forall>file \<in> set files. length (content file) \<le> MAXFILE * BSIZE) \<and>
     nmeta + need (16 * (length files + 2)) + sum_list (map (\<lambda>file. need (length (content file))) files) \<le> FSSIZE"

lemma image_of_eq: "image_of files = (T_DIR, root_entries files) # map (\<lambda>file. (T_FILE, content file)) files"
proof (induction files rule: rev_induct)
  case Nil
  then show ?case by (simp add: image_of_def root_only_def root_entries_def)
next
  case (snoc f fs)
  have "root_entries (fs @ [f]) = root_entries fs @ mk_dirent (length fs + 2) (file_name (fst f))"
  proof -
    have "map (\<lambda>k. mk_dirent (k + 2) (file_name (fst ((fs @ [f]) ! k)))) [0..<length fs] = map (\<lambda>k. mk_dirent (k + 2) (file_name (fst (fs ! k)))) [0..<length fs]"
      by (intro map_cong) (auto simp: nth_append)
    then show ?thesis by (simp add: root_entries_def del: map_eq_conv)
  qed
  moreover have "image_of (fs @ [f]) = add_file (image_of fs) f" by (simp add: image_of_def)
  ultimately show ?case using snoc by (simp add: add_file_def grow_def)
qed

lemma length_root_entries: "length (root_entries files) = 16 * (length files + 2)"
  by (simp add: root_entries_def length_concat comp_def sum_list_triv)

lemma mkfs_fits_image: "mkfs_fits files \<Longrightarrow> fits_image (image_of files)"
  by (auto simp: mkfs_fits_def fits_image_def image_of_eq length_root_entries used_def comp_def nmeta_def nlog_def ninodeblocks_def nbitmap_def)

subsection \<open>Zeroing, the super block and the bitmap\<close>

definition empty_image :: mkfs_st where
  "empty_image = \<lparr>image = (\<lambda>_. replicate 1024 0), nsect = 0, freeinode = 1, freeblock = 0\<rparr>"

lemma wsect_all: "image s = (\<lambda>_. z) \<Longrightarrow> forK xs (\<lambda>i. wsect i z) s = Inr ((), s\<lparr>nsect := fold (\<lambda>i n. max n (i + 1)) xs (nsect s)\<rparr>)"
proof (induction xs arbitrary: s)
  case (Cons x xs)
  have "wsect x z s = Inr ((), s\<lparr>nsect := max (nsect s) (x + 1)\<rparr>)" using Cons.prems by (simp add: wsect_def run_simps fun_upd_idem)
  then show ?case using Cons.IH [of "s\<lparr>nsect := max (nsect s) (x + 1)\<rparr>"] Cons.prems by (simp add: run_simps)
qed (simp add: run_simps)

lemma max_upt: "fold (\<lambda>i n. max n (i + 1)) [0..<m] 0 = m"
  by (induction m) auto

lemma take_encs: "k < length vs \<Longrightarrow> take 4 (drop (4 * k) (concat (map (enc 4) vs) @ r)) = enc 4 (vs ! k)"
proof (induction vs arbitrary: k)
  case (Cons v vs)
  then show ?case by (cases k) (simp_all add: drop_append)
qed simp

lemma sb_sector: "decode_sb (overwrite (replicate 1024 0) 0 (sb_bytes mk_sb)) = mk_sb"
proof -
  define vs where "vs = [sb_magic mk_sb, sb_size mk_sb, sb_nblocks mk_sb, sb_ninodes mk_sb, sb_nlog mk_sb, sb_logstart mk_sb, sb_inodestart mk_sb, sb_bmapstart mk_sb]"
  have d: "overwrite (replicate 1024 0) 0 (sb_bytes mk_sb) = concat (map (enc 4) vs) @ replicate 992 0"
    by (simp add: overwrite_def sb_bytes_def vs_def xint_enc)
  have g: "get_le 4 (concat (map (enc 4) vs) @ replicate 992 0) (4 * k) = vs ! k mod 2 ^ 32" if "k < 8" for k
  proof -
    have "k < length vs" using that by (simp add: vs_def)
    from take_encs [OF this, of "replicate 992 0"] show ?thesis unfolding get_le_def by (simp only: dec_enc) simp
  qed
  show ?thesis unfolding d decode_sb_def
    using g [of 0] g [of 1] g [of 2] g [of 3] g [of 4] g [of 5] g [of 6] g [of 7] by (simp add: vs_def mk_vals)
qed

lemma bitmap_bits: "n \<le> 8192 \<Longrightarrow> length x = 1024 \<Longrightarrow> j < 8192 \<Longrightarrow> bit_at (fold bit_set [0..<n] x) j = (j < n \<or> bit_at x j)"
proof (induction n)
  case (Suc n)
  have "length (fold bit_set [0..<n] x) = length x" by (induction n) simp_all
  then show ?case using Suc bit_set_at [of n "fold bit_set [0..<n] x" j] by auto
qed simp

subsection \<open>The whole program\<close>

lemma fresh_holds:
  assumes "length x = 1024"
  shows "holds (empty_image\<lparr>freeblock := nmeta, nsect := 2000, image := (\<lambda>_. replicate 1024 0)(1 := x)\<rparr>) ((\<lambda>_. replicate 1024 0)(1 := x)) []"
  using assms by (auto simp: holds_def fs_ok_def base_def empty_image_def used_def mk_vals)

lemma mkfs_start:
  assumes "\<forall>file \<in> set files. good_file file" "mkfs_fits files"
  shows "\<exists>s. mkfs files empty_image = bindK (rinode 1) (\<lambda>din.
       thenK (winode 1 (din\<lparr>i_size := (i_size din div BSIZE + 1) * BSIZE\<rparr>)) (bindK (getsK freeblock) mk_balloc)) s \<and>
     holds s ((\<lambda>_. replicate 1024 0)(1 := overwrite (replicate 1024 0) 0 (sb_bytes mk_sb))) (image_of files)"
proof -
  let ?x = "overwrite (replicate 1024 0) 0 (sb_bytes mk_sb)"
  let ?im = "(\<lambda>_. replicate 1024 0)(1 := ?x)"
  define s0 where "s0 = empty_image\<lparr>freeblock := nmeta, nsect := 2000, image := ?im\<rparr>"
  have fits: "fits_image (foldl add_file root_only files)" using mkfs_fits_image [OF assms(2)] by (simp add: image_of_def)
  have x: "length ?x = 1024" by (simp add: sb_bytes_def xint_enc)
  have h0: "holds s0 ?im []" unfolding s0_def by (rule fresh_holds [OF x])
  let ?L1 = "[(T_DIR, [])]" and ?L2 = "[(T_DIR, mk_dirent 1 (str ''.''))]"
  have e: "grow ?L1 0 (mk_dirent 1 (str ''.'')) = ?L2" "grow ?L2 0 (mk_dirent 1 (str ''..'')) = root_only" by (simp_all add: grow_def root_only_def)
  have f3: "fits_image root_only" by (rule fits_below [OF below_files fits])
  have f2: "fits_image ?L2" by (rule fits_below [OF _ f3]) (simp add: below_def root_only_def)
  have f1: "fits_image ([] @ ?L1)" by (rule fits_below [OF _ f2]) (simp add: below_def)
  obtain s1 where s1: "mk_ialloc T_DIR s0 = Inr (1, s1)" "holds s1 ?im ?L1" using mk_ialloc_holds [OF h0 f1] by (auto simp: short_def)
  obtain s2 where s2: "iappend 1 (mk_dirent 1 (str ''.'')) s1 = Inr ((), s2)" "holds s2 ?im ?L2"
    using iappend_holds [OF s1(2), of 0 "mk_dirent 1 (str ''.'')", unfolded e] f2 by auto
  obtain s3 where s3: "iappend 1 (mk_dirent 1 (str ''..'')) s2 = Inr ((), s3)" "holds s3 ?im root_only"
    using iappend_holds [OF s2(2), of 0 "mk_dirent 1 (str ''..'')", unfolded e] f3 by auto
  obtain s4 where s4: "forK files (put_file 1) s3 = Inr ((), s4)" "holds s4 ?im (image_of files)"
    using files_hold [OF s3(2) _ assms(1) fits] by (auto simp: image_of_def root_only_def)
  have z: "forK [0..<2000] (\<lambda>i. wsect i (replicate 1024 0)) (empty_image\<lparr>freeblock := nmeta\<rparr>) = Inr ((), empty_image\<lparr>freeblock := nmeta, nsect := 2000\<rparr>)"
    using wsect_all [of "empty_image\<lparr>freeblock := nmeta\<rparr>" "replicate 1024 0" "[0..<2000]"] max_upt [of 2000] by (simp add: empty_image_def)
  have w: "wsect 1 ?x (empty_image\<lparr>freeblock := nmeta, nsect := 2000\<rparr>) = Inr ((), s0)" by (simp add: wsect_def run_simps s0_def empty_image_def)
  show ?thesis using z w s1(1) s2(1) s3(1) s4 by (auto simp: mkfs_def run_simps simp del: upt_rec_numeral)
qed

text \<open>The state after the last two writes: the size of the root directory and the bitmap.\<close>

lemma mkfs_end:
  assumes h: "holds s im L" and L: "L \<noteq> []" and f: "fits_image L"
  shows "\<exists>s'. bindK (rinode 1) (\<lambda>din. thenK (winode 1 (din\<lparr>i_size := (i_size din div BSIZE + 1) * BSIZE\<rparr>)) (bindK (getsK freeblock) mk_balloc)) s = Inr ((), s') \<and>
    inode_of s' 1 = (inode_of s 1)\<lparr>i_size := (i_size (inode_of s 1) div 1024 + 1) * 1024\<rparr> \<and> (\<forall>i \<in> {2..<freeinode s}. inode_of s' i = inode_of s i) \<and>
    (\<forall>b. b < 33 \<or> 47 \<le> b \<longrightarrow> image s' b = image s b) \<and> freeblock s' = freeblock s \<and> freeinode s' = freeinode s \<and> nsect s' = nsect s \<and>
    (\<forall>b < 8192. bit_at (image s' 46) b = (b < freeblock s))"
proof -
  let ?J = "inode_of s 1"
  let ?K = "?J\<lparr>i_size := (i_size ?J div 1024 + 1) * 1024\<rparr>"
  have ok: "fs_ok s" using h by (simp add: holds_def)
  note F = fs_okD [OF ok] and r = IBLOCK_range [of 1]
  have i1: "1 < freeinode s" using h L by (cases L) (auto simp: holds_def)
  have wf: "wf_inode s ?J" using F(4) i1 by simp
  have "inode_fits ?J" using load_short [of "image s (IBLOCK 1 mk_sb)" 1 "zero_inode 1"] by (intro wf_fits [OF wf F(1)]) (auto simp: inode_of_def)
  moreover have "(i_size ?J div 1024 + 1) * 1024 < 2 ^ 32" using wf_inodeD(2) [OF wf] div_times_less_eq_dividend [of "i_size ?J" 1024] by (simp add: mult.commute)
  ultimately have fits: "inode_fits ?K" by (simp add: inode_fits_def)
  obtain x where w: "winode 1 ?K s = Inr ((), s\<lparr>image := (image s)(IBLOCK 1 mk_sb := x)\<rparr>)"
    and own: "inode_of (s\<lparr>image := (image s)(IBLOCK 1 mk_sb := x)\<rparr>) 1 = ?K"
    and other: "\<forall>j. j \<noteq> 1 \<longrightarrow> inode_of (s\<lparr>image := (image s)(IBLOCK 1 mk_sb := x)\<rparr>) j = inode_of s j"
    using winode_run [OF fits _ _ _ meta_fields [of _ s 1], of s] F(1,2) by (auto simp: base_def meta_def)
  define s1 where "s1 = s\<lparr>image := (image s)(IBLOCK 1 mk_sb := x)\<rparr>"
  let ?bm = "fold bit_set [0..<freeblock s] (replicate 1024 0)"
  let ?s = "s1\<lparr>image := (image s1)(46 := ?bm)\<rparr>"
  have fb: "freeblock s \<le> 2000" using F(1) by (simp add: base_def)
  have bal: "mk_balloc (freeblock s) s1 = Inr ((), ?s)" using fb F(2) by (simp add: mk_balloc_def wsect_def run_simps mk_vals s1_def max_def)
  have rd: "rinode 1 s = Inr (?J, s)" using r F(2) by (simp add: rinode_def rsect_run run_simps inode_of_def)
  have in46: "inode_of ?s i = inode_of s1 i" if "i < 208" for i using IBLOCK_range [OF that] by (simp add: inode_of_def)
  have "bit_at ?bm b = (b < freeblock s)" if "b < 8192" for b
  proof -
    have "b div 8 < 1024" using that by (simp add: less_mult_imp_div_less)
    then show ?thesis using bitmap_bits [of "freeblock s" "replicate 1024 0" b] fb that by (simp add: bit_at_bit)
  qed
  moreover have "inode_of ?s 1 = ?K" "\<forall>i \<in> {2..<freeinode s}. inode_of ?s i = inode_of s i" using in46 own other F(3) by (simp_all add: s1_def)
  moreover have "image ?s b = image s b" if "b < 33 \<or> 47 \<le> b" for b using r that by (auto simp: s1_def)
  moreover have "bindK (rinode 1) (\<lambda>din. thenK (winode 1 (din\<lparr>i_size := (i_size din div BSIZE + 1) * BSIZE\<rparr>)) (bindK (getsK freeblock) mk_balloc)) s = Inr ((), ?s)"
    using rd w bal by (simp add: run_simps s1_def)
  ultimately show ?thesis by (intro exI [of _ ?s]) (simp add: s1_def)
qed

text \<open>All that the properties below need of the final state.\<close>

definition mkfs_result :: "(byte list \<times> byte list list option) list \<Rightarrow> mkfs_st \<Rightarrow> mkfs_st \<Rightarrow> bool" where
  "mkfs_result files s s' \<longleftrightarrow> holds s ((\<lambda>_. replicate 1024 0)(1 := overwrite (replicate 1024 0) 0 (sb_bytes mk_sb))) (image_of files) \<and>
    inode_of s' 1 = (inode_of s 1)\<lparr>i_size := (i_size (inode_of s 1) div 1024 + 1) * 1024\<rparr> \<and> (\<forall>i \<in> {2..<freeinode s}. inode_of s' i = inode_of s i) \<and>
    (\<forall>b. b < 33 \<or> 47 \<le> b \<longrightarrow> image s' b = image s b) \<and> freeblock s' = freeblock s \<and> freeinode s' = freeinode s \<and> nsect s' = nsect s \<and>
    (\<forall>b < 8192. bit_at (image s' 46) b = (b < freeblock s))"

lemma mkfs_runs:
  assumes "\<forall>file \<in> set files. good_file file" "mkfs_fits files"
  shows "\<exists>s s'. mkfs files empty_image = Inr ((), s') \<and> mkfs_result files s s'"
proof -
  let ?im = "(\<lambda>_. replicate 1024 0)(1 := overwrite (replicate 1024 0) 0 (sb_bytes mk_sb))"
  obtain s where run: "mkfs files empty_image = bindK (rinode 1) (\<lambda>din.
       thenK (winode 1 (din\<lparr>i_size := (i_size din div BSIZE + 1) * BSIZE\<rparr>)) (bindK (getsK freeblock) mk_balloc)) s"
    and h: "holds s ?im (image_of files)" using mkfs_start [OF assms] by blast
  have "image_of files \<noteq> []" by (simp add: image_of_eq)
  from mkfs_end [OF h this mkfs_fits_image [OF assms(2)]] show ?thesis using h unfolding mkfs_result_def run by blast
qed

lemma mkfs_result_inode:
  assumes m: "mkfs_result files s s'" and i: "1 \<le> i" "i \<le> length files + 1"
  shows "wf_inode s' (inode_of s i) \<and> bset s' (inode_of s i) = bset s (inode_of s i) \<and> file_bytes s' (inode_of s i) = snd (image_of files ! (i - 1)) \<and>
    i_type (inode_of s i) = fst (image_of files ! (i - 1)) \<and> i_nlink (inode_of s i) = 1 \<and> i_size (inode_of s i) = length (snd (image_of files ! (i - 1)))"
proof -
  have h: "holds s ((\<lambda>_. replicate 1024 0)(1 := overwrite (replicate 1024 0) 0 (sb_bytes mk_sb))) (image_of files)" using m by (simp add: mkfs_result_def)
  then have fi: "freeinode s = length files + 2" by (simp add: holds_def image_of_eq)
  have "fs_ok s" using h by (simp add: holds_def)
  note wf = fs_okD(4) [OF this, of i]
  have "wf_inode s' (inode_of s i) \<and> bset s' (inode_of s i) = bset s (inode_of s i) \<and> file_bytes s' (inode_of s i) = file_bytes s (inode_of s i)"
    by (rule inode_frame) (use wf wf_inodeD(3) [of s "inode_of s i"] i fi m in \<open>auto simp: mkfs_result_def\<close>)
  moreover have k: "i - 1 < length (image_of files)" "i = (i - 1) + 1" using i by (auto simp: image_of_eq)
  have "i_type (inode_of s i) = fst (image_of files ! (i - 1))" "i_nlink (inode_of s i) = 1" "file_bytes s (inode_of s i) = snd (image_of files ! (i - 1))"
    using h k unfolding holds_def by metis+
  ultimately show ?thesis by (metis length_file_bytes)
qed

lemma fbyte_size: "fbyte s (J\<lparr>i_size := n\<rparr>) = fbyte s J"
  by (rule ext) (simp add: fbyte_def)

lemma mkfs_root: "mkfs_result files s s' \<Longrightarrow> i_size (inode_of s 1) = 16 * (length files + 2) \<and> i_type (inode_of s 1) = T_DIR \<and>
   i_nlink (inode_of s 1) = 1 \<and> file_bytes s' (inode_of s 1) = root_entries files \<and> wf_inode s' (inode_of s 1)"
  using mkfs_result_inode [of files s s' 1] by (simp add: image_of_eq length_root_entries)

text \<open>
  C9: When the files are there, have names that a directory entry can hold and fit in the image, mkfs succeeds and the kernel finds what it
  needs: the super block decodes to the layout that mkfs chose, the log is empty, the root directory is inode 1 with the entries for ".", ".."
  and every file in turn, and the inode that the entry of a file names is a regular file with one link and exactly the bytes that were read.
\<close>

theorem mkfs_stores_files:
  assumes "\<forall>file \<in> set files. good_file file" "mkfs_fits files"
  shows "\<exists>s. mkfs files empty_image = Inr ((), s) \<and> decode_sb (image s 1) = mk_sb \<and> hdr_n (image s 2) = 0 \<and>
     i_type (inode_of s 1) = T_DIR \<and> i_nlink (inode_of s 1) = 1 \<and>
     map (fbyte s (inode_of s 1)) [0..<16 * (length files + 2)] = mk_dirent 1 (str ''.'') @ mk_dirent 1 (str ''..'') @
       concat (map (\<lambda>k. mk_dirent (k + 2) (file_name (fst (files ! k)))) [0..<length files]) \<and>
     (\<forall>k < length files. i_type (inode_of s (k + 2)) = T_FILE \<and> i_nlink (inode_of s (k + 2)) = 1 \<and>
       file_bytes s (inode_of s (k + 2)) = content (files ! k))"
proof -
  obtain s s' where run: "mkfs files empty_image = Inr ((), s')" and m: "mkfs_result files s s'" using mkfs_runs [OF assms] by blast
  note R = mkfs_root [OF m]
  have h: "\<forall>b < 33. image s b = ((\<lambda>_. replicate 1024 0)(1 := overwrite (replicate 1024 0) 0 (sb_bytes mk_sb))) b" "freeinode s = length files + 2"
    using m by (simp_all add: mkfs_result_def holds_def image_of_eq)
  have "decode_sb (image s' 1) = mk_sb" "hdr_n (image s' 2) = 0"
    using m h(1) sb_sector by (auto simp: mkfs_result_def hdr_n_def get_le_def)
  moreover have r: "inode_of s' 1 = (inode_of s 1)\<lparr>i_size := (i_size (inode_of s 1) div 1024 + 1) * 1024\<rparr>" using m by (simp add: mkfs_result_def)
  moreover have "map (fbyte s' (inode_of s' 1)) [0..<16 * (length files + 2)] = root_entries files"
  proof -
    have "map (fbyte s' (inode_of s 1)) [0..<i_size (inode_of s 1)] = root_entries files" using R unfolding file_bytes_def by blast
    moreover have "i_size (inode_of s 1) = 16 * (length files + 2)" using R by simp
    ultimately show ?thesis unfolding r by (simp add: fbyte_size)
  qed
  moreover have "i_type (inode_of s' (k + 2)) = T_FILE \<and> i_nlink (inode_of s' (k + 2)) = 1 \<and> file_bytes s' (inode_of s' (k + 2)) = content (files ! k)"
    if "k < length files" for k
  proof -
    have "inode_of s' (k + 2) = inode_of s (k + 2)" using m h(2) that by (simp add: mkfs_result_def)
    then show ?thesis using mkfs_result_inode [OF m, of "k + 2"] that by (simp add: image_of_eq)
  qed
  ultimately show ?thesis using run R by (auto simp: root_entries_def)
qed

theorem mkfs_stores_files_witness:
  "\<exists>s. mkfs [(str ''user/_cat'', Some [[1, 2, 3], [4]]), (str ''README'', Some [])] empty_image = Inr ((), s) \<and>
     file_bytes s (inode_of s 2) = [1, 2, 3, 4] \<and> file_bytes s (inode_of s 3) = []"
proof -
  let ?files = "[(str ''user/_cat'', Some [[1, 2, 3], [4]]), (str ''README'', Some [])] :: (byte list \<times> byte list list option) list"
  have "good_file (str ''user/_cat'', Some [[1, 2, 3], [4]])" "good_file (str ''README'', Some [])" by code_simp+
  moreover have "mkfs_fits ?files" by (simp add: mkfs_fits_def content_def need_def nblk_def mk_vals)
  ultimately have "\<exists>s. mkfs ?files empty_image = Inr ((), s) \<and> (\<forall>k < length ?files. file_bytes s (inode_of s (k + 2)) = content (?files ! k))"
    using mkfs_stores_files [of ?files] by auto
  then obtain s where s: "mkfs ?files empty_image = Inr ((), s)" "\<forall>k < length ?files. file_bytes s (inode_of s (k + 2)) = content (?files ! k)" by blast
  have "file_bytes s (inode_of s (0 + 2)) = content (?files ! 0)" "file_bytes s (inode_of s (1 + 2)) = content (?files ! 1)" using s(2) by auto
  then have "file_bytes s (inode_of s 2) = [1, 2, 3, 4]" "file_bytes s (inode_of s 3) = []" by (simp_all add: content_def numeral_2_eq_2 numeral_3_eq_3)
  then show ?thesis using s(1) by blast
qed

lemma wf_resize:
  "wf_inode s J \<Longrightarrow> nblk n = nblk (i_size J) \<Longrightarrow> n \<le> 268 * 1024 \<Longrightarrow> wf_inode s (J\<lparr>i_size := n\<rparr>) \<and> bset s (J\<lparr>i_size := n\<rparr>) = bset s J"
  by (auto simp: wf_inode_def bset_def inj_on_def)

lemma round_up:
  assumes "n mod 1024 \<noteq> 0"
  shows "nblk ((n div 1024 + 1) * 1024) = nblk n"
proof -
  have "nblk ((q + 1) * 1024) = q + 1" for q using nblk_eq [of "(q + 1) * 1024"] by simp
  then show ?thesis using nblk_eq [of n] assms by metis
qed



text \<open>
  C38: mkfs rounds the size of the root directory up with \<^verbatim>\<open>((off/BSIZE) + 1) * BSIZE\<close>, which adds a block when the size is a multiple of the
  block size already: if the entries fill their last block, the root directory ends in a block that is not allocated (its address is 0).
\<close>

theorem mkfs_root_hole:
  assumes "\<forall>file \<in> set files. good_file file" "mkfs_fits files" "mkfs files empty_image = Inr ((), s)" "(length files + 2) mod 64 = 0"
  shows "i_size (inode_of s 1) = 16 * (length files + 2) + BSIZE \<and> i_addrs (inode_of s 1) ! (16 * (length files + 2) div BSIZE) = 0"
proof -
  obtain s0 where m: "mkfs_result files s0 s" using mkfs_runs [OF assms(1,2)] assms(3) by auto
  note R = mkfs_root [OF m]
  have root: "inode_of s 1 = (inode_of s0 1)\<lparr>i_size := (i_size (inode_of s0 1) div 1024 + 1) * 1024\<rparr>" using m by (simp add: mkfs_result_def)
  obtain q where q: "length files + 2 = 64 * q" using assms(4) by auto
  have n: "length files < 199" using assms(2) by (simp add: mkfs_fits_def)
  have size: "i_size (inode_of s0 1) = 1024 * q" using R q by simp
  then have "i_addrs (inode_of s0 1) ! q = 0" using R wf_inodeD(4) [of s "inode_of s0 1" q] nblk_eq [of "1024 * q"] q n by simp
  moreover have "16 * (length files + 2) = 1024 * q" using q by simp
  ultimately show ?thesis using root size by simp
qed

theorem mkfs_root_hole_witness:
  "\<exists>s. mkfs (replicate 62 (str ''f'', Some [])) empty_image = Inr ((), s) \<and> i_size (inode_of s 1) = 2048 \<and> i_addrs (inode_of s 1) ! 1 = 0"
proof -
  let ?files = "replicate 62 (str ''f'', Some []) :: (byte list \<times> byte list list option) list"
  have g0: "good_file (str ''f'', Some [])" by code_simp
  then have g: "\<forall>file \<in> set ?files. good_file file" by simp
  have f: "mkfs_fits ?files" by (simp add: mkfs_fits_def content_def need_def nblk_def mk_vals sum_list_replicate)
  obtain s where s: "mkfs ?files empty_image = Inr ((), s)" using mkfs_runs [OF g f] by blast
  from mkfs_root_hole [OF g f this] show ?thesis using s by auto
qed

end
