(* ===== verification/Spec2Isabelle.thy ===== *)
theory Spec2Isabelle
  imports Spinlock Fs_Blocks Descriptors Sched_Props Proc_Props Programs Virtio_Props Assembly Shell_Run Mkfs_Image
begin

section \<open>A verification development for xv6\<close>

text \<open>
  The sources under \<^verbatim>\<open>src/\<close> are a teaching operating system: a kernel for RISC-V (\<^verbatim>\<open>src/kernel\<close>), user programs
  (\<^verbatim>\<open>src/user\<close>) and the program that builds a file system image (\<^verbatim>\<open>src/mkfs\<close>).

  \<^bold>\<open>How the code is modelled.\<close>  A routine that one kernel thread runs without being interrupted is a function from the state to
  a fault or a result with a new state (the computations \<open>K\<close> of theory \<open>Prelude\<close>).  The faults are a panic with its message, a
  wait, an endless loop, and behaviour that C leaves undefined.  A panic, an early return and a wait of the
  source is a branch of the model.  The state is one record that grows by layers in the order of the kernel:
  memory, page allocator, virtual memory, pipes, console, buffer cache, log, file system, open files, processes, disk driver,
  traps.  A routine of one layer is polymorphic in the layers above it, so what it leaves alone is visible in its type.
  Machine integers are words where their width matters: addresses, page-table entries, pipe and console counters,
  \<^verbatim>\<open>uint\<close> offsets; the fields of disk structures are encoded and decoded at their width.  Pointers to table entries
  (buffers, inodes, files, processes) are indices; null is None.

  \<^bold>\<open>The kernel, bottom up.\<close>
  \<^item> \<open>Prelude\<close>: the computations \<open>K\<close>, their weakest preconditions, byte encodings, generic lemmas.
    \<open>Layout\<close>: \<^verbatim>\<open>param.h\<close>, \<^verbatim>\<open>memlayout.h\<close> and the page arithmetic of \<^verbatim>\<open>riscv.h\<close>.
  \<^item> \<open>Mem\<close>: byte memory and \<^verbatim>\<open>string.c\<close>.  Shown: \<^verbatim>\<open>memmove\<close> under every overlap, \<^verbatim>\<open>safestrcpy\<close>.
  \<^item> \<open>Kalloc\<close>: \<^verbatim>\<open>kalloc.c\<close>, with the free list inside the pages.  Shown: no page is handed out twice and none
    is lost; what \<^verbatim>\<open>kinit\<close> frees.  The locale of an allocator is interpreted on \<^verbatim>\<open>kalloc\<close> and \<^verbatim>\<open>kfree\<close>.
  \<^item> \<open>Vm\<close>: \<^verbatim>\<open>vm.c\<close>.  \<open>Vm_Tree\<close>, \<open>Vm_Map\<close>, \<open>Vm_User\<close>, \<open>Vm_Copy\<close> and \<open>Vm_Props\<close>: a page table is a tree in memory that
    refines a partial map from virtual pages to entries; \<^verbatim>\<open>walk\<close>, \<^verbatim>\<open>mappages\<close>, \<^verbatim>\<open>uvmunmap\<close> and \<^verbatim>\<open>vmfault\<close> act on the map,
    \<^verbatim>\<open>copyout\<close> and \<^verbatim>\<open>copyin\<close> on the user's view of memory.
  \<^item> \<open>Spinlock\<close>: \<^verbatim>\<open>spinlock.c\<close>, its atomic steps interleaved on any number of CPUs.  Shown: mutual exclusion, the
    nesting of interrupt disabling, no panic under the locking discipline.
  \<^item> \<open>Pipe\<close>, \<open>Console\<close>, \<open>Printf\<close>: \<^verbatim>\<open>pipe.c\<close>, \<^verbatim>\<open>console.c\<close> with \<^verbatim>\<open>uart.c\<close>, \<^verbatim>\<open>printf.c\<close>.  Shown: a pipe refines a bounded queue of bytes
    across the wrap-around of its counters; the line discipline refines an editing buffer; decimal output.
  \<^item> \<open>Bio\<close> and \<open>Block_Cache\<close>: \<^verbatim>\<open>sleeplock.c\<close>, \<^verbatim>\<open>bio.c\<close>, and the locale that states what the cache promises to the
    log and the file system, interpreted on the routines of \<open>Bio\<close>.
  \<^item> \<open>Log\<close>: \<^verbatim>\<open>log.c\<close>.  \<open>Log_Spec\<close>, \<open>Log_Crash\<close>, \<open>Log_Ops\<close>: after a crash at any disk write of a commit, and after any number
    of crashes during recovery, the disk holds all of the transaction or nothing; the space reserved by \<^verbatim>\<open>begin_op\<close>
    suffices.  \<open>Tx\<close>: rules for code inside a transaction.
  \<^item> \<open>Fs\<close>: \<^verbatim>\<open>fs.c\<close>.  \<open>Fs_Props\<close>, \<open>Fs_Blocks\<close>: path names, inodes on disk and in memory, the block allocator.
  \<^item> \<open>File\<close>, \<open>Proc\<close>, \<open>Exec\<close>, \<open>Sysfile\<close>, \<open>Syscall\<close>, \<open>Virtio\<close>, \<open>Trap\<close>: \<^verbatim>\<open>file.c\<close>, \<^verbatim>\<open>proc.c\<close>, \<^verbatim>\<open>exec.c\<close> and the argument fetching of
    \<^verbatim>\<open>syscall.c\<close>, \<^verbatim>\<open>sysfile.c\<close>, \<^verbatim>\<open>sysproc.c\<close> and the system call table, \<^verbatim>\<open>virtio_disk.c\<close>, \<^verbatim>\<open>trap.c\<close> and \<^verbatim>\<open>plic.c\<close>.
    \<open>Frame\<close> shows what the lower layers leave alone.  \<open>Virtio_Props\<close>: the disk driver and the device, interleaved as a step relation, refine the
    reads and writes of whole blocks that the buffer cache relies on; every request finishes.  \<open>Descriptors\<close>: every system call keeps the reference
    counts of open files equal to the number of descriptors.  \<open>Proc_Props\<close>: what \<^verbatim>\<open>kill(0)\<close> does.
  \<^item> \<open>Sched\<close>, \<open>Sched_Inv\<close>, \<open>Sched_Props\<close>: \<^verbatim>\<open>scheduler\<close>, \<^verbatim>\<open>sched\<close>, \<^verbatim>\<open>yield\<close>, \<^verbatim>\<open>sleep\<close> and \<^verbatim>\<open>wakeup\<close> of \<^verbatim>\<open>proc.c\<close>, with the lock operations of
    \<open>Spinlock\<close>, as a step relation over all threads and CPUs.  Shown: no wakeup is lost, no check of the scheduling
    code fails, a process runs on one CPU at most, the scheduler reaches a runnable process.
  \<^item> \<open>Assembly\<close>: \<^verbatim>\<open>trampoline.S\<close>, \<^verbatim>\<open>swtch.S\<close>, \<^verbatim>\<open>kernelvec.S\<close> and \<^verbatim>\<open>entry.S\<close> as lists of instructions on the registers of a hart and memory.  Address
    translation and the C functions that are called are parameters.  Shown: traps from user space and from the kernel are transparent to the
    registers, \<^verbatim>\<open>swtch\<close> resumes the thread it switched away from.

  \<^bold>\<open>User programs.\<close>
  \<^item> \<open>Ulib\<close>: \<^verbatim>\<open>ulib.c\<close> and \<^verbatim>\<open>printf.c\<close>.  \<open>Grep\<close>: \<^verbatim>\<open>grep.c\<close>, whose matcher decides the language of the pattern.
  \<^item> \<open>Programs\<close>: \<^verbatim>\<open>sixfive.c\<close>, \<^verbatim>\<open>wc.c\<close>, \<^verbatim>\<open>memdump.c\<close>, \<^verbatim>\<open>sleep.c\<close>.
  \<^item> \<open>Shell\<close>: \<^verbatim>\<open>sh.c\<close>.  The parser works on positions in the line, as the pointers of the code do; \<^verbatim>\<open>runcmd\<close> yields the tree of system calls that a command
    makes, with the table of descriptors; which calls of the kernel fail is a parameter.  \<open>Shell_Props\<close>: the parser ends and reads
    back every command that can be written down.  \<open>Shell_Run\<close>: the descriptors of the programs that the shell starts.

  \<^bold>\<open>The file system image.\<close>
  \<^item> \<open>Mkfs\<close>: \<^verbatim>\<open>mkfs.c\<close>, on an image of sectors; the files to put in, with the pieces in which they are read, are an argument.  The image file itself
    is taken to open.  \<open>Mkfs_Props\<close>: \<^verbatim>\<open>iappend\<close> refines appending to a list of bytes.  \<open>Mkfs_Image\<close>: the image holds the files it was
    given, under inodes and directory entries in the format that \<open>Fs\<close> reads, and is well-formed.

  \<^bold>\<open>Loops and bounds.\<close>  Loops are recursive functions with a termination proof.  Loops whose end depends on data that may be
  wrong are partial functions (\<^verbatim>\<open>strlen\<close>, \<^verbatim>\<open>strcmp\<close>) or end in the fault \<open>Diverge\<close>.  Fuel occurs in three places.  In \<open>Virtio\<close>,
  \<^verbatim>\<open>free_chain\<close> gets one more round than there are descriptors, and a longer chain would panic in \<^verbatim>\<open>free_desc\<close> first.  In \<open>Shell\<close>, the parsing
  functions may nest four calls for each character of the line and four more, which is shown to be enough for every line; and the loop that
  opens the console makes four rounds at most, since there are three descriptors below the one that ends it.

  \<^bold>\<open>Waits.\<close>  A routine that sleeps ends its run there: with the value \<open>Waits\<close> (pipes, console, \<^verbatim>\<open>wait\<close>, \<^verbatim>\<open>pause\<close>), which holds
  the position at which it continues, or with the fault \<open>Sleep\<close> (log, sleep locks), after which the caller starts again.  The
  interleaving of threads is modelled where the code's argument depends on it: \<open>Spinlock\<close> and \<open>Sched\<close>.

  \<^bold>\<open>What is not modelled.\<close>  The machine setup of \<^verbatim>\<open>start.c\<close> and the sequence of initialisations in \<^verbatim>\<open>main.c\<close>; \<^verbatim>\<open>kvminit\<close> and \<^verbatim>\<open>kvminithart\<close>, which install
  a page table in a register; the user memory allocator \<^verbatim>\<open>umalloc.c\<close> and the wrappers of system calls in \<^verbatim>\<open>ulib.c\<close>; \<^verbatim>\<open>find.c\<close>, \<^verbatim>\<open>ls.c\<close> and the remaining
  small user programs, which are sequences of system calls; the test programs \<^verbatim>\<open>usertests.c\<close>, \<^verbatim>\<open>grind.c\<close>, \<^verbatim>\<open>forktest.c\<close>, \<^verbatim>\<open>stressfs.c\<close> and
  \<^verbatim>\<open>logstress.c\<close>, which exercise the kernel and promise nothing of their own; the memory model of the hardware beyond the order that the fences
  give.
\<close>

end
